(* ===== verification/Prelude.thy ===== *)
theory Prelude
  imports Main "HOL-Library.Word" "HOL-Library.Monad_Syntax" "HOL-Library.Sublist"
begin

text \<open>
  The prelude of the development: the names of the C types, the error codes and constants of
  \<^verbatim>\<open>include/rtdef.h\<close>, the alignment macros, and the generic lemmas on lists, options and
  words that the component theories share.

  Conventions used in every theory. A kernel operation is a function from the state it works
  on to an \<open>option\<close>: \<open>None\<close> is a run that does not come back, because an
  \<^verbatim>\<open>RT_ASSERT\<close> failed (\<^verbatim>\<open>include/rtdebug.h\<close> loops forever), the stack check halted the
  system, or the C code reads through a null pointer. Sections between
  \<^verbatim>\<open>rt_hw_interrupt_disable\<close> and \<^verbatim>\<open>rt_hw_interrupt_enable\<close> are atomic. An operation that can
  suspend its caller returns an \<open>outcome\<close>: \<open>Ret r\<close> when it returned, \<open>Wait c\<close> when the caller
  was suspended inside it, with what its local variables hold at that point.
\<close>

unbundle bit_operations_syntax

named_theorems rt_simps
  \<open>unfolding rules of the kernel operations\<close>
named_theorems frame_simps
  \<open>components of the state an operation leaves alone\<close>

type_synonym rt_uint8_t = "8 word"
type_synonym rt_uint16_t = "16 word"
type_synonym rt_uint32_t = "32 word"
type_synonym rt_tick_t = "32 word"
type_synonym rt_err_t = int
type_synonym tid = nat

text \<open>
  Addresses of kernel objects. \<open>At a\<close> is an object of its own; \<open>ThreadTimer t\<close> is the timer
  embedded in the thread \<open>t\<close> (\<^verbatim>\<open>&thread->thread_timer\<close>), so the two never coincide.
\<close>

datatype ptr = At nat | ThreadTimer tid

datatype ('r, 'c) outcome = Ret 'r | Wait 'c

abbreviation (input) RT_EOK :: rt_err_t where "RT_EOK \<equiv> 0"
abbreviation (input) RT_ERROR :: rt_err_t where "RT_ERROR \<equiv> 1"
abbreviation (input) RT_ETIMEOUT :: rt_err_t where "RT_ETIMEOUT \<equiv> 2"
abbreviation (input) RT_EFULL :: rt_err_t where "RT_EFULL \<equiv> 3"
abbreviation (input) RT_EEMPTY :: rt_err_t where "RT_EEMPTY \<equiv> 4"
abbreviation (input) RT_ENOMEM :: rt_err_t where "RT_ENOMEM \<equiv> 5"
abbreviation (input) RT_ENOSYS :: rt_err_t where "RT_ENOSYS \<equiv> 6"
abbreviation (input) RT_EBUSY :: rt_err_t where "RT_EBUSY \<equiv> 7"
abbreviation (input) RT_EIO :: rt_err_t where "RT_EIO \<equiv> 8"

abbreviation (input) RT_NAME_MAX :: nat where "RT_NAME_MAX \<equiv> 8"
abbreviation (input) RT_THREAD_PRIORITY_MAX :: nat where "RT_THREAD_PRIORITY_MAX \<equiv> 32"

text \<open>Half of the tick range, \<^verbatim>\<open>RT_TICK_MAX / 2\<close>.\<close>

abbreviation (input) RT_TICK_HALF :: rt_tick_t where "RT_TICK_HALF \<equiv> 0x7fffffff"

definition RT_ALIGN :: "rt_uint32_t \<Rightarrow> rt_uint32_t \<Rightarrow> rt_uint32_t" where
  "RT_ALIGN sz align = (sz + align - 1) AND NOT (align - 1)"

definition RT_ALIGN_DOWN :: "rt_uint32_t \<Rightarrow> rt_uint32_t \<Rightarrow> rt_uint32_t" where
  "RT_ALIGN_DOWN sz align = sz AND NOT (align - 1)"

text \<open>Addresses and sizes are natural numbers below \<open>2 ^ 32\<close> with the wrap-around written out.\<close>

definition add32 :: "nat \<Rightarrow> nat \<Rightarrow> nat" where
  "add32 a b = (a + b) mod 2 ^ 32"

definition sub32 :: "nat \<Rightarrow> nat \<Rightarrow> nat" where
  "sub32 a b = (a + (2 ^ 32 - b mod 2 ^ 32)) mod 2 ^ 32"

text \<open>\<^verbatim>\<open>RT_ALIGN(size, RT_ALIGN_SIZE)\<close> and \<^verbatim>\<open>RT_ALIGN_DOWN\<close> on such numbers.\<close>

definition align_up :: "nat \<Rightarrow> nat" where
  "align_up n = unat (RT_ALIGN (of_nat n) 4)"

definition align_down :: "nat \<Rightarrow> nat" where
  "align_down n = unat (RT_ALIGN_DOWN (of_nat n) 4)"

text \<open>\<^verbatim>\<open>RT_ASSERT(EX)\<close>: carry on when the condition holds, never come back otherwise.\<close>

definition RT_ASSERT :: "bool \<Rightarrow> 's \<Rightarrow> 's option" where
  "RT_ASSERT b s = (if b then Some s else None)"

lemma RT_ASSERT_Some [simp]: "RT_ASSERT b s = Some s' \<longleftrightarrow> b \<and> s' = s"
  by (auto simp: RT_ASSERT_def)

lemma RT_ASSERT_True [simp]: "RT_ASSERT True s = Some s"
  by (simp add: RT_ASSERT_def)

subsection \<open>Lists\<close>

lemma removeAll_id_conv [simp]: "removeAll x xs = xs \<longleftrightarrow> x \<notin> set xs"
  by (metis filter_id_conv removeAll_filter_not_eq removeAll_id set_removeAll DiffD2 insertI1)

lemma removeAll_mid [simp]:
  "n \<notin> set xs \<Longrightarrow> n \<notin> set ys \<Longrightarrow> removeAll n (xs @ n # ys) = xs @ ys"
  by simp

lemma distinct_split_unique:
  assumes "distinct (xs @ n # ys)" "xs @ n # ys = us @ n # vs"
  shows "xs = us \<and> ys = vs"
  using assms by (metis append_Cons_eq_iff distinct.simps(2) distinct_append not_distinct_conv_prefix)

text \<open>Insertion of a node before a given node of a list, or at the end when it is absent.\<close>

fun insert_before :: "'a \<Rightarrow> 'a \<Rightarrow> 'a list \<Rightarrow> 'a list" where
  "insert_before p n [] = [n]"
| "insert_before p n (x # xs) = (if x = p then n # x # xs else x # insert_before p n xs)"

lemma set_insert_before [simp]: "set (insert_before p n xs) = insert n (set xs)"
  by (induction xs) auto

lemma distinct_insert_before [simp]:
  "distinct (insert_before p n xs) \<longleftrightarrow> distinct xs \<and> n \<notin> set xs"
  by (induction xs) auto

lemma insert_before_split:
  "p \<notin> set xs \<Longrightarrow> insert_before p n (xs @ p # ys) = xs @ n # p # ys"
  by (induction xs) auto

subsection \<open>Words\<close>

lemma unat_sub_le: "b \<le> a \<Longrightarrow> unat (a - b) = unat a - unat (b :: 'a::len word)"
  by (simp add: unat_sub)

lemma unat_add_small:
  "unat a + unat b < 2 ^ LENGTH('a) \<Longrightarrow> unat (a + b) = unat a + unat (b :: 'a::len word)"
  by (simp add: unat_word_ariths)

lemma add32_small: "a + b < 2 ^ 32 \<Longrightarrow> add32 a b = a + b"
  by (simp add: add32_def)

lemma sub32_small: "b \<le> a \<Longrightarrow> a < 2 ^ 32 \<Longrightarrow> sub32 a b = a - b"
proof -
  assume "b \<le> a" "a < 2 ^ 32"
  then have "a + (2 ^ 32 - b mod 2 ^ 32) = (a - b) + 2 ^ 32" by simp
  then show ?thesis unfolding sub32_def using \<open>a < 2 ^ 32\<close> by simp
qed

lemma and_not_3: "unat (w AND NOT 3 :: rt_uint32_t) = unat w div 4 * 4"
proof -
  have m: "(3 :: rt_uint32_t) = mask 2" by (simp add: mask_eq_exp_minus_1)
  have e: "2 \<le> n \<Longrightarrow> Suc (Suc (n - 2)) = n" for n by simp
  have "unat (w AND NOT 3) = push_bit 2 (drop_bit 2 (unat w))"
    by (rule bit_eqI) (auto simp: m bit_unsigned_iff bit_and_iff bit_not_iff bit_mask_iff
        bit_push_bit_iff bit_drop_bit_eq not_less e simp del: mask_numeral dest: bit_imp_le_length)
  then show ?thesis by (simp add: push_bit_eq_mult drop_bit_eq_div)
qed

lemma align_up_eq: "n \<le> 2 ^ 32 - 4 \<Longrightarrow> align_up n = (n + 3) div 4 * 4"
proof -
  assume "n \<le> 2 ^ 32 - 4"
  then have "unat (word_of_nat n + 3 :: rt_uint32_t) = n + 3"
    by (simp add: unat_word_ariths unat_of_nat)
  moreover have "RT_ALIGN (of_nat n) 4 = (word_of_nat n + 3) AND NOT 3"
    by (simp add: RT_ALIGN_def algebra_simps)
  ultimately show ?thesis by (simp only: align_up_def and_not_3)
qed

lemma align_down_eq: "n < 2 ^ 32 \<Longrightarrow> align_down n = n div 4 * 4"
  using and_not_3[of "word_of_nat n"] by (simp add: align_down_def RT_ALIGN_DOWN_def unat_of_nat)

text \<open>The alignment macro wraps: the three largest sizes are rounded up to 0.\<close>

lemma align_up_wraps: "2 ^ 32 - 4 < n \<Longrightarrow> n < 2 ^ 32 \<Longrightarrow> align_up n = 0"
proof -
  assume "2 ^ 32 - 4 < n" "n < 2 ^ 32"
  then have "unat (word_of_nat n + 3 :: rt_uint32_t) = n + 3 - 2 ^ 32"
    by (simp add: unat_word_ariths unat_of_nat mod_if)
  moreover have "RT_ALIGN (of_nat n) 4 = (word_of_nat n + 3) AND NOT 3"
    by (simp add: RT_ALIGN_def algebra_simps)
  ultimately have "align_up n = (n + 3 - 2 ^ 32) div 4 * 4" by (simp only: align_up_def and_not_3)
  with \<open>n < 2 ^ 32\<close> show ?thesis by simp
qed

end
