(* ===== verification/KService.thy ===== *)
theory KService
  imports Prelude
begin

text \<open>
  The kernel service library, \<^verbatim>\<open>src/kservice.c\<close>: the bit scan \<open>rt_ffs\<close> the scheduler picks the
  next priority with, the block routines \<open>rt_memset\<close>, \<open>rt_memcpy\<close>, \<open>rt_memmove\<close> and
  \<open>rt_memcmp\<close> on a byte memory, with the word-at-a-time loops of the source, and the string
  routines on arrays of bytes. Each block routine is shown equal to its one-line reference
  definition; a string routine returns \<open>None\<close> where the source would read past its array.
\<close>

subsection \<open>Find first set\<close>

definition lowest_bit_bitmap :: "nat list" where
  "lowest_bit_bitmap =
    [0, 0, 1, 0, 2, 0, 1, 0, 3, 0, 1, 0, 2, 0, 1, 0,
     4, 0, 1, 0, 2, 0, 1, 0, 3, 0, 1, 0, 2, 0, 1, 0,
     5, 0, 1, 0, 2, 0, 1, 0, 3, 0, 1, 0, 2, 0, 1, 0,
     4, 0, 1, 0, 2, 0, 1, 0, 3, 0, 1, 0, 2, 0, 1, 0,
     6, 0, 1, 0, 2, 0, 1, 0, 3, 0, 1, 0, 2, 0, 1, 0,
     4, 0, 1, 0, 2, 0, 1, 0, 3, 0, 1, 0, 2, 0, 1, 0,
     5, 0, 1, 0, 2, 0, 1, 0, 3, 0, 1, 0, 2, 0, 1, 0,
     4, 0, 1, 0, 2, 0, 1, 0, 3, 0, 1, 0, 2, 0, 1, 0,
     7, 0, 1, 0, 2, 0, 1, 0, 3, 0, 1, 0, 2, 0, 1, 0,
     4, 0, 1, 0, 2, 0, 1, 0, 3, 0, 1, 0, 2, 0, 1, 0,
     5, 0, 1, 0, 2, 0, 1, 0, 3, 0, 1, 0, 2, 0, 1, 0,
     4, 0, 1, 0, 2, 0, 1, 0, 3, 0, 1, 0, 2, 0, 1, 0,
     6, 0, 1, 0, 2, 0, 1, 0, 3, 0, 1, 0, 2, 0, 1, 0,
     4, 0, 1, 0, 2, 0, 1, 0, 3, 0, 1, 0, 2, 0, 1, 0,
     5, 0, 1, 0, 2, 0, 1, 0, 3, 0, 1, 0, 2, 0, 1, 0,
     4, 0, 1, 0, 2, 0, 1, 0, 3, 0, 1, 0, 2, 0, 1, 0]"

definition rt_ffs :: "rt_uint32_t \<Rightarrow> nat" where
  "rt_ffs value =
     (if value = 0 then 0
      else if value AND 0xff \<noteq> 0
        then lowest_bit_bitmap ! unat (value AND 0xff) + 1
      else if value AND 0xff00 \<noteq> 0
        then lowest_bit_bitmap ! unat (drop_bit 8 (value AND 0xff00)) + 9
      else if value AND 0xff0000 \<noteq> 0
        then lowest_bit_bitmap ! unat (drop_bit 16 (value AND 0xff0000)) + 17
      else lowest_bit_bitmap ! unat (drop_bit 24 (value AND 0xff000000)) + 25)"

subsection \<open>Block operations on memory\<close>

type_synonym bmem = "nat \<Rightarrow> 8 word"

definition store32 :: "nat \<Rightarrow> rt_uint32_t \<Rightarrow> bmem \<Rightarrow> bmem" where
  "store32 a w m = m(a := ucast w, a + 1 := ucast (drop_bit 8 w),
     a + 2 := ucast (drop_bit 16 w), a + 3 := ucast (drop_bit 24 w))"

definition load32 :: "nat \<Rightarrow> bmem \<Rightarrow> rt_uint32_t" where
  "load32 a m = ucast (m a) OR push_bit 8 (ucast (m (a + 1)))
     OR push_bit 16 (ucast (m (a + 2))) OR push_bit 24 (ucast (m (a + 3)))"

function memset_quads :: "nat \<Rightarrow> rt_uint32_t \<Rightarrow> nat \<Rightarrow> bmem \<Rightarrow> nat \<times> nat \<times> bmem" where
  "memset_quads a buffer count m =
     (if count \<ge> 16
      then memset_quads (a + 16) buffer (count - 16)
             (store32 (a + 12) buffer (store32 (a + 8) buffer
               (store32 (a + 4) buffer (store32 a buffer m))))
      else (a, count, m))"
  by pat_completeness auto
termination by (relation "measure (\<lambda>(a, b, count, m). count)") auto

function memset_words :: "nat \<Rightarrow> rt_uint32_t \<Rightarrow> nat \<Rightarrow> bmem \<Rightarrow> nat \<times> nat \<times> bmem" where
  "memset_words a buffer count m =
     (if count \<ge> 4 then memset_words (a + 4) buffer (count - 4) (store32 a buffer m)
      else (a, count, m))"
  by pat_completeness auto
termination by (relation "measure (\<lambda>(a, b, count, m). count)") auto

fun memset_bytes :: "nat \<Rightarrow> 8 word \<Rightarrow> nat \<Rightarrow> bmem \<Rightarrow> bmem" where
  "memset_bytes a d 0 m = m"
| "memset_bytes a d (Suc count) m = memset_bytes (a + 1) d count (m(a := d))"

definition rt_memset :: "nat \<Rightarrow> rt_uint32_t \<Rightarrow> nat \<Rightarrow> bmem \<Rightarrow> bmem" where
  "rt_memset s c count m =
     (let d = c AND 0xff in
      if \<not> count < 4 \<and> s mod 4 = 0 then
        let buffer = push_bit 8 d OR d;
            buffer = buffer OR push_bit 16 buffer;
            (a, count, m) = memset_quads s buffer count m;
            (a, count, m) = memset_words a buffer count m
        in memset_bytes a (ucast d) count m
      else memset_bytes s (ucast d) count m)"

function memcpy_quads :: "nat \<Rightarrow> nat \<Rightarrow> nat \<Rightarrow> bmem \<Rightarrow> nat \<times> nat \<times> nat \<times> bmem" where
  "memcpy_quads d s len m =
     (if len \<ge> 16 then
        let m = store32 d (load32 s m) m;
            m = store32 (d + 4) (load32 (s + 4) m) m;
            m = store32 (d + 8) (load32 (s + 8) m) m;
            m = store32 (d + 12) (load32 (s + 12) m) m
        in memcpy_quads (d + 16) (s + 16) (len - 16) m
      else (d, s, len, m))"
  by pat_completeness auto
termination by (relation "measure (\<lambda>(d, s, len, m). len)") auto

function memcpy_words :: "nat \<Rightarrow> nat \<Rightarrow> nat \<Rightarrow> bmem \<Rightarrow> nat \<times> nat \<times> nat \<times> bmem" where
  "memcpy_words d s len m =
     (if len \<ge> 4 then memcpy_words (d + 4) (s + 4) (len - 4) (store32 d (load32 s m) m)
      else (d, s, len, m))"
  by pat_completeness auto
termination by (relation "measure (\<lambda>(d, s, len, m). len)") auto

fun memcpy_bytes :: "nat \<Rightarrow> nat \<Rightarrow> nat \<Rightarrow> bmem \<Rightarrow> bmem" where
  "memcpy_bytes d s 0 m = m"
| "memcpy_bytes d s (Suc len) m = memcpy_bytes (d + 1) (s + 1) len (m(d := m s))"

definition rt_memcpy :: "nat \<Rightarrow> nat \<Rightarrow> nat \<Rightarrow> bmem \<Rightarrow> bmem" where
  "rt_memcpy dst src count m =
     (if \<not> count < 16 \<and> src mod 4 = 0 \<and> dst mod 4 = 0 then
        let (d, s, len, m) = memcpy_quads dst src count m;
            (d, s, len, m) = memcpy_words d s len m
        in memcpy_bytes d s len m
      else memcpy_bytes dst src count m)"

fun memmove_down :: "nat \<Rightarrow> nat \<Rightarrow> nat \<Rightarrow> bmem \<Rightarrow> bmem" where
  "memmove_down tmp s 0 m = m"
| "memmove_down tmp s (Suc n) m = memmove_down (tmp - 1) (s - 1) n (m(tmp - 1 := m (s - 1)))"

definition rt_memmove :: "nat \<Rightarrow> nat \<Rightarrow> nat \<Rightarrow> bmem \<Rightarrow> bmem" where
  "rt_memmove dest src n m =
     (if src < dest \<and> dest < src + n then memmove_down (dest + n) (src + n) n m
      else memcpy_bytes dest src n m)"

text \<open>The comparison reads two arrays; \<open>None\<close> is a read past the end of one.\<close>

fun rt_memcmp :: "8 word list \<Rightarrow> 8 word list \<Rightarrow> nat \<Rightarrow> int option" where
  "rt_memcmp cs ct 0 = Some 0"
| "rt_memcmp (c # cs) (d # ct) (Suc count) =
     (let res = uint c - uint d in
      if res \<noteq> 0 then Some res else rt_memcmp cs ct count)"
| "rt_memcmp _ _ (Suc count) = None"

subsection \<open>Strings\<close>

fun rt_strlen :: "8 word list \<Rightarrow> nat option" where
  "rt_strlen [] = None"
| "rt_strlen (c # cs) = (if c = 0 then Some 0 else map_option Suc (rt_strlen cs))"

text \<open>The bytes \<open>rt_strncpy\<close> writes at the destination, \<open>n\<close> of them.\<close>

fun rt_strncpy :: "8 word list \<Rightarrow> nat \<Rightarrow> 8 word list option" where
  "rt_strncpy src 0 = Some []"
| "rt_strncpy [] (Suc n) = None"
| "rt_strncpy (c # src) (Suc n) =
     (if c = 0 then Some (replicate (Suc n) 0)
      else map_option ((#) c) (rt_strncpy src n))"

text \<open>The difference is kept in a \<^verbatim>\<open>signed char\<close> and returned as an unsigned long.\<close>

fun rt_strncmp :: "8 word list \<Rightarrow> 8 word list \<Rightarrow> nat \<Rightarrow> rt_uint32_t option" where
  "rt_strncmp cs ct 0 = Some 0"
| "rt_strncmp (c # cs) (d # ct) (Suc count) =
     (if c - d \<noteq> 0 then Some (scast (c - d))
      else if c = 0 then Some 0
      else rt_strncmp cs ct count)"
| "rt_strncmp _ _ (Suc count) = None"

fun rt_strcmp :: "8 word list \<Rightarrow> 8 word list \<Rightarrow> rt_uint32_t option" where
  "rt_strcmp (c # cs) (d # ct) =
     (if c \<noteq> 0 \<and> c = d then rt_strcmp cs ct else Some (ucast c - ucast d))"
| "rt_strcmp _ _ = None"

definition ascii_lower :: "8 word \<Rightarrow> rt_uint32_t" where
  "ascii_lower c = (if 0x41 \<le> c \<and> c \<le> 0x5a then ucast c + 0x20 else ucast c)"

fun rt_strcasecmp :: "8 word list \<Rightarrow> 8 word list \<Rightarrow> rt_uint32_t option" where
  "rt_strcasecmp (a # as) (b # bs) =
     (let ca = ascii_lower a; cb = ascii_lower b in
      if ca = cb \<and> ca \<noteq> 0 then rt_strcasecmp as bs else Some (ca - cb))"
| "rt_strcasecmp _ _ = None"

text \<open>\<open>rt_strstr\<close>: the offset of the first occurrence of the second string in the first.\<close>

fun strstr_loop :: "8 word list \<Rightarrow> 8 word list \<Rightarrow> nat \<Rightarrow> nat \<Rightarrow> nat \<Rightarrow> nat option option" where
  "strstr_loop s1 s2 l2 off 0 = (if l2 = 0 then Some (Some off) else Some None)"
| "strstr_loop s1 s2 l2 off (Suc l1) =
     (if Suc l1 \<ge> l2 then
        do { r \<leftarrow> rt_memcmp s1 s2 l2;
             if r = 0 then Some (Some off) else strstr_loop (tl s1) s2 l2 (off + 1) l1 }
      else Some None)"

definition rt_strstr :: "8 word list \<Rightarrow> 8 word list \<Rightarrow> nat option option" where
  "rt_strstr s1 s2 =
     do { l2 \<leftarrow> rt_strlen s2;
          if l2 = 0 then Some (Some 0)
          else do { l1 \<leftarrow> rt_strlen s1; strstr_loop s1 s2 l2 0 l1 } }"

declare memset_quads.simps [simp del] memset_words.simps [simp del]
  memcpy_quads.simps [simp del] memcpy_words.simps [simp del]


subsection \<open>The bit scan\<close>

fun lowest_bits_from :: "int \<Rightarrow> nat list \<Rightarrow> bool" where
  "lowest_bits_from i [] \<longleftrightarrow> True"
| "lowest_bits_from i (k # ks) \<longleftrightarrow>
     (i = 0 \<or> k < 8 \<and> odd (i div 2 ^ k) \<and> i mod 2 ^ k = 0) \<and> lowest_bits_from (i + 1) ks"

lemma lowest_bits_from_nth:
  "lowest_bits_from i ks \<Longrightarrow> j < length ks \<Longrightarrow> i + int j \<noteq> 0
    \<Longrightarrow> ks ! j < 8 \<and> odd ((i + int j) div 2 ^ (ks ! j)) \<and> (i + int j) mod 2 ^ (ks ! j) = 0"
proof (induction ks arbitrary: i j)
  case (Cons k ks)
  show ?case
  proof (cases j)
    case 0
    then show ?thesis using Cons.prems by simp
  next
    case (Suc n)
    then show ?thesis using Cons.IH[of "i + 1" n] Cons.prems by (simp add: add.assoc)
  qed
qed simp

lemma lowest_bit_table: "lowest_bits_from 0 lowest_bit_bitmap" "length lowest_bit_bitmap = 256"
  by (simp_all add: lowest_bit_bitmap_def)

lemma lowest_bit_bitmap_correct:
  assumes "0 < b" "b < 256"
  shows "lowest_bit_bitmap ! b < 8" "bit b (lowest_bit_bitmap ! b)"
    "i < lowest_bit_bitmap ! b \<Longrightarrow> \<not> bit b i"
proof -
  define k where "k = lowest_bit_bitmap ! b"
  have k: "k < 8" "odd (int b div 2 ^ k)" "int b mod 2 ^ k = 0"
    using lowest_bits_from_nth[OF lowest_bit_table(1), of b] lowest_bit_table(2) assms
    by (auto simp: k_def)
  have "int (b div 2 ^ k) = int b div 2 ^ k" "int (b mod 2 ^ k) = int b mod 2 ^ k"
    by (simp_all add: zdiv_int zmod_int)
  with k have t: "lowest_bit_bitmap ! b < 8" "odd (b div 2 ^ (lowest_bit_bitmap ! b))"
    "b mod 2 ^ (lowest_bit_bitmap ! b) = 0"
    unfolding k_def by (metis even_of_nat of_nat_0_eq_iff)+
  then show "lowest_bit_bitmap ! b < 8" "bit b (lowest_bit_bitmap ! b)"
    by (simp_all add: bit_iff_odd)
  assume "i < lowest_bit_bitmap ! b"
  moreover have "take_bit (lowest_bit_bitmap ! b) b = 0" using t(3) by (simp add: take_bit_eq_mod)
  ultimately show "\<not> bit b i" by (metis bit_0_eq bit_take_bit_iff bot_apply bot_bool_def)
qed

text \<open>One byte of the word, as the source selects it with a mask and a shift.\<close>

lemma byte_scan:
  fixes v :: rt_uint32_t
  assumes x: "x = drop_bit k (v AND push_bit k 0xff)" and k: "k \<le> 24"
    and nz: "v AND push_bit k 0xff \<noteq> 0"
  shows "lowest_bit_bitmap ! unat x < 8"
    "bit v (k + lowest_bit_bitmap ! unat x)"
    "i < lowest_bit_bitmap ! unat x \<Longrightarrow> \<not> bit v (k + i)"
proof -
  have ff: "bit (0xff :: rt_uint32_t) i \<longleftrightarrow> i < 8" for i
  proof -
    have "(0xff :: rt_uint32_t) = mask 8" by (simp add: mask_eq_exp_minus_1)
    then show ?thesis by (simp only: bit_mask_iff) auto
  qed
  have bx: "bit x i \<longleftrightarrow> i < 8 \<and> bit v (k + i)" for i
    unfolding x bit_drop_bit_eq comp_def bit_and_iff bit_push_bit_iff ff using k by auto
  have "x \<noteq> 0"
  proof
    assume "x = 0"
    have "\<not> bit (v AND push_bit k 0xff) i" for i
    proof (cases "k \<le> i")
      case True
      then obtain j where "i = k + j" using le_iff_add by blast
      then show ?thesis using bx[of j] \<open>x = 0\<close> k unfolding bit_and_iff bit_push_bit_iff by (auto simp only: ff) auto
    qed (simp add: bit_simps)
    then show False using nz by (simp add: bit_word_eqI)
  qed
  moreover have "x < 256"
  proof -
    have "x = take_bit 8 x" by (rule bit_word_eqI) (auto simp: bit_simps bx)
    then have "unat x = unat x mod 2 ^ 8"
      by (metis take_bit_eq_mod unsigned_take_bit_eq)
    then have "unat x < 2 ^ 8" by (metis mod_less_divisor zero_less_numeral zero_less_power)
    then show ?thesis by (simp add: word_less_nat_alt)
  qed
  ultimately have b: "0 < unat x" "unat x < 256" 
    by (auto simp: unat_gt_0 word_less_nat_alt)
  have u: "bit (unat x) i \<longleftrightarrow> bit x i" for i by (simp add: bit_unsigned_iff)
  show "lowest_bit_bitmap ! unat x < 8" using lowest_bit_bitmap_correct(1)[OF b] .
  show "bit v (k + lowest_bit_bitmap ! unat x)"
    using lowest_bit_bitmap_correct(2)[OF b] by (simp add: u bx)
  show "\<not> bit v (k + i)" if "i < lowest_bit_bitmap ! unat x"
    using lowest_bit_bitmap_correct(3)[OF b that] lowest_bit_bitmap_correct(1)[OF b] that by (simp add: u bx)
qed

lemma low_byte_clear:
  fixes v :: rt_uint32_t
  assumes "v AND push_bit k 0xff = 0" "k \<le> i" "i < k + 8" "k \<le> 24"
  shows "\<not> bit v i"
proof -
  have "(0xff :: rt_uint32_t) = mask 8" by (simp add: mask_eq_exp_minus_1)
  then have "bit (push_bit k (0xff :: rt_uint32_t)) i"
    using assms(2-4) by (simp only: bit_push_bit_iff bit_mask_iff) auto
  then show ?thesis using assms(1) by (metis bit_and_iff bit_0_eq bot_apply bot_bool_def)
qed

lemma byte_masks:
  "(0xff00 :: rt_uint32_t) = push_bit 8 0xff" "(0xff0000 :: rt_uint32_t) = push_bit 16 0xff"
  "(0xff000000 :: rt_uint32_t) = push_bit 24 0xff"
  by (simp_all add: push_bit_eq_mult)

lemma rt_ffs_lowest:
  assumes "v \<noteq> 0"
  shows "\<exists>k. rt_ffs v = k + 1 \<and> k < 32 \<and> bit v k \<and> (\<forall>i<k. \<not> bit v i)"
proof -
  let ?c = "\<lambda>k. v AND push_bit k 0xff = 0" and ?x = "\<lambda>k. drop_bit k (v AND push_bit k 0xff)"
  let ?b = "\<lambda>k. lowest_bit_bitmap ! unat (?x k)"
  have clear: "\<not> bit v i" if "?c k" "k \<le> i" "i < k + 8" "k \<le> 24" for k i
    using low_byte_clear that by blast
  have hit: ?thesis if nz: "\<not> ?c k" and k: "k \<le> 24" and low: "\<forall>i<k. \<not> bit v i"
    and e: "rt_ffs v = ?b k + (k + 1)" for k
  proof (intro exI conjI allI impI)
    show "rt_ffs v = (k + ?b k) + 1" using e by simp
    show "k + ?b k < 32" "bit v (k + ?b k)" using byte_scan[OF refl k nz] k by auto
    fix i assume "i < k + ?b k"
    then show "\<not> bit v i"
      using byte_scan(3)[OF refl k nz, of "i - k"] low by (cases "i < k") auto
  qed
  have all_clear: False if "?c 0" "?c 8" "?c 16" "?c 24"
  proof -
    have "\<not> bit v i" if "i < 32" for i
      using clear[of 0 i] clear[of 8 i] clear[of 16 i] clear[of 24 i] that \<open>?c 0\<close> \<open>?c 8\<close> \<open>?c 16\<close> \<open>?c 24\<close>
      by linarith
    then have "v = 0" by (intro bit_word_eqI) auto
    with assms show False by simp
  qed
  have e: "rt_ffs v = (if \<not> ?c 0 then ?b 0 + 1 else if \<not> ?c 8 then ?b 8 + 9
      else if \<not> ?c 16 then ?b 16 + 17 else ?b 24 + 25)"
    using assms unfolding rt_ffs_def byte_masks by simp
  have l8: "\<forall>i<8. \<not> bit v i" if "?c 0" using clear[OF that] by simp
  have l16: "\<forall>i<16. \<not> bit v i" if "?c 0" "?c 8"
  proof (intro allI impI)
    fix i :: nat assume "i < 16"
    then show "\<not> bit v i" using l8[OF that(1)] clear[OF that(2), of i] by (cases "i < 8") auto
  qed
  have l24: "\<forall>i<24. \<not> bit v i" if "?c 0" "?c 8" "?c 16"
  proof (intro allI impI)
    fix i :: nat assume "i < 24"
    then show "\<not> bit v i" using l16[OF that(1,2)] clear[OF that(3), of i] by (cases "i < 16") auto
  qed
  consider "\<not> ?c 0" | "?c 0" "\<not> ?c 8" | "?c 0" "?c 8" "\<not> ?c 16" | "?c 0" "?c 8" "?c 16" "\<not> ?c 24"
    using all_clear by blast
  then show ?thesis
  proof cases
    case 1 with hit[OF 1] e show ?thesis by simp
  next
    case 2 with hit[OF 2(2)] e l8 show ?thesis by simp
  next
    case 3 with hit[OF 3(3)] e l16 show ?thesis by simp
  next
    case 4 with hit[OF 4(4)] e l24 show ?thesis by simp
  qed
qed


subsection \<open>The block operations and their references\<close>

definition mem_fill :: "nat \<Rightarrow> nat \<Rightarrow> 8 word \<Rightarrow> bmem \<Rightarrow> bmem" where
  "mem_fill a n b m = (\<lambda>x. if a \<le> x \<and> x < a + n then b else m x)"

definition mem_copy :: "nat \<Rightarrow> nat \<Rightarrow> nat \<Rightarrow> bmem \<Rightarrow> bmem" where
  "mem_copy d s n m = (\<lambda>x. if d \<le> x \<and> x < d + n then m (s + (x - d)) else m x)"

lemma mem_fill_0 [simp]: "mem_fill a 0 b m = m"
  by (intro ext) (auto simp: mem_fill_def)

lemma mem_copy_0 [simp]: "mem_copy d s 0 m = m"
  by (intro ext) (auto simp: mem_copy_def)

lemma mem_fill_comp: "mem_fill (a + n) k b (mem_fill a n b m) = mem_fill a (n + k) b m"
  by (intro ext) (auto simp: mem_fill_def)

text \<open>Copying forwards in two pieces is safe when the copy moves down or the areas are apart.\<close>

lemma mem_copy_comp:
  assumes "d \<le> s \<or> s + (n + k) \<le> d"
  shows "mem_copy (d + n) (s + n) k (mem_copy d s n m) = mem_copy d s (n + k) m"
  using assms by (intro ext) (auto simp: mem_copy_def)

lemma memset_bytes_fill: "memset_bytes a b n m = mem_fill a n b m"
proof (induction n arbitrary: a m)
  case (Suc n)
  have "m(a := b) = mem_fill a 1 b m" by (intro ext) (auto simp: mem_fill_def)
  with Suc show ?case using mem_fill_comp[of a 1 n b m] by simp
qed simp

lemma memcpy_bytes_copy:
  assumes "d \<le> s \<or> s + n \<le> d"
  shows "memcpy_bytes d s n m = mem_copy d s n m"
  using assms
proof (induction n arbitrary: d s m)
  case (Suc n)
  have "m(d := m s) = mem_copy d s 1 m" by (intro ext) (auto simp: mem_copy_def)
  with Suc show ?case using mem_copy_comp[of d s 1 n m] by auto
qed simp

text \<open>A word store of the replicated byte fills four bytes.\<close>

lemma fill_word_bytes:
  fixes d :: rt_uint32_t
  assumes "buffer = (push_bit 8 d OR d) OR push_bit 16 (push_bit 8 d OR d)" "d = c AND 0xff"
  shows "store32 a buffer m = mem_fill a 4 (ucast d) m"
proof -
  have m: "(0xff :: rt_uint32_t) = mask 8" by (simp add: mask_eq_exp_minus_1)
  have bd: "bit d i \<longleftrightarrow> i < 8 \<and> bit c i" for i
    unfolding assms(2) m bit_and_iff bit_mask_iff by (auto dest: bit_imp_le_length)
  have bb: "bit buffer i \<longleftrightarrow> i < 32 \<and> bit d (i mod 8)" for i
  proof -
    consider "i < 8" | "8 \<le> i" "i < 16" | "16 \<le> i" "i < 24" | "24 \<le> i" "i < 32" | "32 \<le> i" by linarith
    then show ?thesis
    proof cases
      case 1 then show ?thesis by (auto simp: assms(1) bit_or_iff bit_push_bit_iff)
    next
      case 2
      then have "i mod 8 = i - 8" by (simp add: mod_if)
      with 2 show ?thesis by (auto simp: assms(1) bit_or_iff bit_push_bit_iff bd)
    next
      case 3
      then have "i mod 8 = i - 16" by (simp add: mod_if)
      with 3 show ?thesis by (auto simp: assms(1) bit_or_iff bit_push_bit_iff bd)
    next
      case 4
      then have "i mod 8 = i - 24" by (simp add: mod_if)
      with 4 show ?thesis by (auto simp: assms(1) bit_or_iff bit_push_bit_iff bd)
    next
      case 5 then show ?thesis by (auto dest: bit_imp_le_length)
    qed
  qed
  have "(ucast (drop_bit (8 * k) buffer) :: 8 word) = ucast d" if "k < 4" for k
    by (rule bit_word_eqI) (use that in \<open>auto simp: bit_ucast_iff bit_drop_bit_eq bb\<close>)
  from this[of 0] this[of 1] this[of 2] this[of 3] show ?thesis
    by (intro ext) (auto simp: store32_def mem_fill_def)
qed

lemma memset_words_fill:
  assumes "\<And>a m. store32 a buffer m = mem_fill a 4 b m"
  shows "memset_words a buffer n m = (a + 4 * (n div 4), n mod 4, mem_fill a (4 * (n div 4)) b m)"
proof (induction n arbitrary: a m rule: less_induct)
  case (less n)
  show ?case
  proof (cases "n \<ge> 4")
    case True
    then have "n div 4 = Suc ((n - 4) div 4)" "n mod 4 = (n - 4) mod 4"
      by (simp_all add: div_if mod_if)
    with less[of "n - 4"] True show ?thesis
      using mem_fill_comp[of a 4 "4 * ((n - 4) div 4)" b m]
      by (simp add: memset_words.simps[of a buffer n m] assms algebra_simps)
  qed (simp add: memset_words.simps[of a buffer n m])
qed

lemma memset_quads_fill:
  assumes "\<And>a m. store32 a buffer m = mem_fill a 4 b m"
  shows "memset_quads a buffer n m = (a + 16 * (n div 16), n mod 16, mem_fill a (16 * (n div 16)) b m)"
proof (induction n arbitrary: a m rule: less_induct)
  case (less n)
  have four: "store32 (a + 12) buffer (store32 (a + 8) buffer (store32 (a + 4) buffer (store32 a buffer m)))
      = mem_fill a 16 b m"
    using mem_fill_comp[of a 4 4 b m] mem_fill_comp[of a 8 4 b m] mem_fill_comp[of a 12 4 b m]
    by (simp add: assms)
  show ?case
  proof (cases "n \<ge> 16")
    case True
    then have "n div 16 = Suc ((n - 16) div 16)" "n mod 16 = (n - 16) mod 16"
      by (simp_all add: div_if mod_if)
    with less[of "n - 16"] True show ?thesis
      using mem_fill_comp[of a 16 "16 * ((n - 16) div 16)" b m]
      by (simp add: memset_quads.simps[of a buffer n m] four algebra_simps)
  qed (simp add: memset_quads.simps[of a buffer n m])
qed

lemma rt_memset_fill: "rt_memset s c n m = mem_fill s n (ucast (c AND 0xff)) m"
proof -
  define d where "d = c AND 0xff"
  define buffer where "buffer = (push_bit 8 d OR d) OR push_bit 16 (push_bit 8 d OR d)"
  have st: "\<And>a m. store32 a buffer m = mem_fill a 4 (ucast d) m"
    using fill_word_bytes[OF buffer_def d_def] .
  have "memset_bytes (s + 16 * (n div 16) + 4 * (n mod 16 div 4)) (ucast d) (n mod 16 mod 4)
      (mem_fill (s + 16 * (n div 16)) (4 * (n mod 16 div 4)) (ucast d)
        (mem_fill s (16 * (n div 16)) (ucast d) m)) = mem_fill s n (ucast d) m"
    unfolding memset_bytes_fill mem_fill_comp add.assoc[of s]
    by (metis mult_div_mod_eq add.assoc)
  then show ?thesis
    unfolding rt_memset_def Let_def d_def[symmetric] buffer_def[symmetric]
    by (simp add: memset_quads_fill[OF st] memset_words_fill[OF st] memset_bytes_fill)
qed

text \<open>Words in memory.\<close>

lemma load32_store32: "load32 a (store32 a w m) = w"
proof (rule bit_word_eqI)
  fix n assume n: "n < LENGTH(32)"
  consider "n < 8" | "8 \<le> n" "n < 16" | "16 \<le> n" "n < 24" | "24 \<le> n" using n by linarith
  then show "bit (load32 a (store32 a w m)) n = bit w n"
    using n by cases (auto simp: load32_def store32_def bit_ucast_iff bit_or_iff bit_push_bit_iff bit_drop_bit_eq)
qed

lemma load32_cong: "(\<And>x. a \<le> x \<Longrightarrow> x < a + 4 \<Longrightarrow> m x = m' x) \<Longrightarrow> load32 a m = load32 a m'"
  by (simp add: load32_def)

lemma load32_store32_other:
  "a + 4 \<le> b \<Longrightarrow> load32 a (store32 b w m) = load32 a m" "b + 4 \<le> a \<Longrightarrow> load32 a (store32 b w m) = load32 a m"
  by (auto simp: load32_def store32_def)

lemma store32_other: "x < a \<Longrightarrow> store32 a w m x = m x" "a + 4 \<le> x \<Longrightarrow> store32 a w m x = m x"
  by (auto simp: store32_def)

text \<open>Loading a word and storing it elsewhere copies its four bytes.\<close>

lemma store_load_copy: "store32 d (load32 s m) m' = m'(d := m s, d + 1 := m (s + 1),
    d + 2 := m (s + 2), d + 3 := m (s + 3))"
proof -
  have "(ucast (drop_bit (8 * k) (load32 s m)) :: 8 word) = m (s + k)" if k: "k < 4" for k
  proof -
    consider "k = 0" | "k = 1" | "k = 2" | "k = 3" using k by linarith
    then show ?thesis
      by cases (rule bit_word_eqI,
        auto simp: load32_def bit_ucast_iff bit_drop_bit_eq bit_or_iff bit_push_bit_iff dest: bit_imp_le_length)+
  qed
  from this[of 0] this[of 1] this[of 2] this[of 3] show ?thesis
    by (simp add: store32_def)
qed

lemma word_copy: "store32 d (load32 s m) m = mem_copy d s 4 m"
  unfolding store_load_copy by (intro ext) (auto simp: mem_copy_def numeral_eq_Suc)

lemma memcpy_words_copy:
  assumes "d \<le> s \<or> s + n \<le> d"
  shows "memcpy_words d s n m
    = (d + 4 * (n div 4), s + 4 * (n div 4), n mod 4, mem_copy d s (4 * (n div 4)) m)"
  using assms
proof (induction n arbitrary: d s m rule: less_induct)
  case (less n)
  show ?case
  proof (cases "n \<ge> 4")
    case True
    then have "n div 4 = Suc ((n - 4) div 4)" "n mod 4 = (n - 4) mod 4"
      by (simp_all add: div_if mod_if)
    moreover have "4 + 4 * ((n - 4) div 4) \<le> n" using True by linarith
    ultimately show ?thesis
      using less.IH[of "n - 4" "d + 4" "s + 4"] less.prems True
        mem_copy_comp[of d s 4 "4 * ((n - 4) div 4)" m]
      by (auto simp: memcpy_words.simps[of d s n m] word_copy algebra_simps)
  qed (simp add: memcpy_words.simps[of d s n m])
qed

lemma memcpy_quads_copy:
  assumes "d \<le> s \<or> s + n \<le> d"
  shows "memcpy_quads d s n m
    = (d + 16 * (n div 16), s + 16 * (n div 16), n mod 16, mem_copy d s (16 * (n div 16)) m)"
  using assms
proof (induction n arbitrary: d s m rule: less_induct)
  case (less n)
  show ?case
  proof (cases "n \<ge> 16")
    case True
    have c: "mem_copy (d + 4) (s + 4) 4 (mem_copy d s 4 m) = mem_copy d s 8 m"
      "mem_copy (d + 8) (s + 8) 4 (mem_copy d s 8 m) = mem_copy d s 12 m"
      "mem_copy (d + 12) (s + 12) 4 (mem_copy d s 12 m) = mem_copy d s 16 m"
      using less.prems True mem_copy_comp[of d s 4 4 m] mem_copy_comp[of d s 8 4 m]
        mem_copy_comp[of d s 12 4 m] by auto
    from True have "n div 16 = Suc ((n - 16) div 16)" "n mod 16 = (n - 16) mod 16"
      by (simp_all add: div_if mod_if)
    moreover have "16 + 16 * ((n - 16) div 16) \<le> n" using True by linarith
    ultimately show ?thesis
      using less.IH[of "n - 16" "d + 16" "s + 16"] less.prems True
        mem_copy_comp[of d s 16 "16 * ((n - 16) div 16)" m]
      by (auto simp: memcpy_quads.simps[of d s n m] Let_def word_copy c algebra_simps)
  qed (simp add: memcpy_quads.simps[of d s n m])
qed

lemma rt_memcpy_copy:
  assumes "d \<le> s \<or> s + n \<le> d"
  shows "rt_memcpy d s n m = mem_copy d s n m"
proof -
  define q where "q = 16 * (n div 16)"
  define w where "w = 4 * (n mod 16 div 4)"
  define r where "r = n mod 16 mod 4"
  have n: "n = q + (w + r)" unfolding q_def w_def r_def by (metis mult_div_mod_eq)
  have q: "memcpy_quads d s n m = (d + q, s + q, w + r, mem_copy d s q m)"
    using memcpy_quads_copy[OF assms] by (simp add: q_def w_def r_def)
  have "memcpy_words (d + q) (s + q) (w + r) m'
      = (d + q + w, s + q + w, r, mem_copy (d + q) (s + q) w m')" for m'
  proof -
    have "w + r = n mod 16" unfolding w_def r_def by simp
    moreover have "d + q \<le> s + q \<or> s + q + (w + r) \<le> d + q" using assms n by auto
    ultimately show ?thesis
      using memcpy_words_copy[of "d + q" "s + q" "w + r" m'] by (simp add: w_def r_def)
  qed
  moreover have "memcpy_bytes (d + q + w) (s + q + w) r (mem_copy d s (q + w) m) = mem_copy d s n m"
    using memcpy_bytes_copy[of "d + q + w" "s + q + w" r] mem_copy_comp[of d s "q + w" r m] assms n
    by (auto simp: add.assoc)
  moreover have "mem_copy (d + q) (s + q) w (mem_copy d s q m) = mem_copy d s (q + w) m"
    using mem_copy_comp[of d s q w m] assms n by auto
  ultimately show ?thesis
    using memcpy_bytes_copy[OF assms] by (simp add: rt_memcpy_def q)
qed

lemma memmove_down_copy:
  assumes "s < d"
  shows "memmove_down (d + n) (s + n) n m = mem_copy d s n m"
proof (induction n arbitrary: m)
  case (Suc n)
  have "memmove_down (d + n) (s + n) n (m(d + n := m (s + n))) = mem_copy d s (Suc n) m"
    unfolding Suc using assms by (intro ext) (auto simp: mem_copy_def)
  then show ?case by simp
qed simp

lemma rt_memmove_copy: "rt_memmove d s n m = mem_copy d s n m"
  using memmove_down_copy[of s d n m] memcpy_bytes_copy[of d s n m]
  by (auto simp: rt_memmove_def not_less)

subsection \<open>Strings\<close>

text \<open>The C string held by an array: its bytes up to the first NUL, when there is one.\<close>

definition c_string :: "8 word list \<Rightarrow> 8 word list" where
  "c_string s = takeWhile (\<lambda>c. c \<noteq> 0) s"

lemma c_string_append: "0 \<notin> set xs \<Longrightarrow> c_string (xs @ 0 # ys) = xs"
  by (induction xs) (auto simp: c_string_def)

lemma rt_strlen_c_string:
  "rt_strlen s = (if 0 \<in> set s then Some (length (c_string s)) else None)"
  by (induction s) (auto simp: c_string_def)

lemma rt_strncpy_eq:
  assumes "0 \<in> set s"
  shows "rt_strncpy s n = Some (take n (c_string s @ replicate n 0))"
  using assms
proof (induction s n rule: rt_strncpy.induct)
  case (3 c s n)
  then show ?case by (cases "c = 0") (auto simp: c_string_def Suc_diff_le simp flip: replicate_Suc)
qed auto

lemma rt_strncpy_array:
  "n \<le> length s \<Longrightarrow> \<exists>field. rt_strncpy s n = Some field \<and> length field = n"
  by (induction s n rule: rt_strncpy.induct) auto

lemma scast_eq_0: "(scast (x :: 8 word) :: rt_uint32_t) = 0 \<longleftrightarrow> x = 0"
proof -
  have "(ucast (scast x :: rt_uint32_t) :: 8 word) = x"
    by (rule bit_word_eqI) (auto simp: bit_ucast_iff bit_signed_iff min_def le_less_Suc_eq numeral_eq_Suc)
  then show ?thesis by (metis scast_0 ucast_0)
qed

lemma rt_strncmp_zero:
  assumes "0 \<in> set s" "0 \<in> set t"
  shows "\<exists>r. rt_strncmp s t n = Some r \<and> (r = 0 \<longleftrightarrow> take n (c_string s) = take n (c_string t))"
  using assms
proof (induction s t n rule: rt_strncmp.induct)
  case (2 c s d t n)
  show ?case
  proof (cases "c = d \<and> c \<noteq> 0")
    case True
    with 2 show ?thesis by (auto simp: c_string_def)
  next
    case False
    then show ?thesis by (auto simp: c_string_def scast_eq_0)
  qed
qed auto

lemma rt_strcmp_zero:
  assumes "0 \<in> set s" "0 \<in> set t"
  shows "\<exists>r. rt_strcmp s t = Some r \<and> (r = 0 \<longleftrightarrow> c_string s = c_string t)"
  using assms
proof (induction s t rule: rt_strcmp.induct)
  case (1 c s d t)
  have "(ucast c :: rt_uint32_t) = ucast d \<longleftrightarrow> c = d"
    by (auto dest: arg_cong[where f = "ucast :: rt_uint32_t \<Rightarrow> 8 word"] simp: ucast_up_ucast_id is_up_def source_size_def target_size_def word_size)
  with 1 show ?case by (cases "c = d \<and> c \<noteq> 0") (auto simp: c_string_def)
qed auto

lemma rt_memcmp_zero:
  assumes "n \<le> length s" "n \<le> length t"
  shows "\<exists>r. rt_memcmp s t n = Some r \<and> (r = 0 \<longleftrightarrow> take n s = take n t)"
  using assms by (induction s t n rule: rt_memcmp.induct) (auto simp: word_uint_eq_iff)

text \<open>The position of the first occurrence of a string in another, from an offset on.\<close>

definition occurs_at :: "8 word list \<Rightarrow> 8 word list \<Rightarrow> nat \<Rightarrow> bool" where
  "occurs_at t s k \<longleftrightarrow> prefix t (drop k s)"

lemma strstr_loop_first:
  assumes "s1 = u @ 0 # u'" "s2 = t @ 0 # t'" "t \<noteq> []"
  shows "\<exists>r. strstr_loop s1 s2 (length t) off (length u) = Some r
    \<and> (case r of None \<Rightarrow> \<forall>k. \<not> occurs_at t u k
       | Some k \<Rightarrow> \<exists>j. k = off + j \<and> occurs_at t u j \<and> (\<forall>i<j. \<not> occurs_at t u i))"
  using assms(1)
proof (induction u arbitrary: s1 off)
  case Nil
  then show ?case using assms(3) by (auto simp: occurs_at_def)
next
  case (Cons c u)
  show ?case
  proof (cases "length t \<le> Suc (length u)")
    case True
    obtain r where r: "rt_memcmp s1 s2 (length t) = Some r"
        "r = 0 \<longleftrightarrow> take (length t) s1 = take (length t) s2"
      using rt_memcmp_zero[of "length t" s1 s2] True Cons.prems assms(2) by auto
    have z: "r = 0 \<longleftrightarrow> occurs_at t (c # u) 0"
    proof -
      have "take (length t) s1 = take (length t) (c # u)" "take (length t) s2 = t"
        using True Cons.prems assms(2) by (simp_all add: take_Cons')
      then show ?thesis using r(2) by (auto simp: occurs_at_def prefix_def) (metis append_take_drop_id)
    qed
    have shift: "occurs_at t (c # u) (Suc k) = occurs_at t u k" for k
      by (simp add: occurs_at_def)
    obtain r' where r': "strstr_loop (u @ 0 # u') s2 (length t) (Suc off) (length u) = Some r'"
      "case r' of None \<Rightarrow> \<forall>k. \<not> occurs_at t u k
       | Some k \<Rightarrow> \<exists>j. k = Suc off + j \<and> occurs_at t u j \<and> (\<forall>i<j. \<not> occurs_at t u i)"
      using Cons.IH[OF refl] by blast
    show ?thesis
    proof (cases "r = 0")
      case True
      then show ?thesis using r \<open>length t \<le> Suc (length u)\<close> z by auto
    next
      case False
      then have no: "\<not> occurs_at t (c # u) 0" using z by simp
      have "case r' of None \<Rightarrow> \<forall>k. \<not> occurs_at t (c # u) k
        | Some k \<Rightarrow> \<exists>j. k = off + j \<and> occurs_at t (c # u) j \<and> (\<forall>i<j. \<not> occurs_at t (c # u) i)"
      proof (cases r')
        case None
        then show ?thesis using r'(2) no shift by simp (metis not0_implies_Suc)
      next
        case (Some k)
        then obtain j where "k = Suc off + j" "occurs_at t u j" "\<forall>i<j. \<not> occurs_at t u i"
          using r'(2) by auto
        then show ?thesis using Some no shift
          by (auto intro!: exI[of _ "Suc j"] simp: less_Suc_eq_0_disj)
      qed
      then show ?thesis using r r'(1) False \<open>length t \<le> Suc (length u)\<close> Cons.prems by simp
    qed
  next
    case False
    then show ?thesis by (auto simp: occurs_at_def prefix_def dest!: arg_cong[where f = length])
  qed
qed

lemma rt_strstr_first:
  assumes "0 \<in> set s1" "0 \<in> set s2"
  shows "\<exists>r. rt_strstr s1 s2 = Some r \<and>
    (case r of None \<Rightarrow> \<forall>k. \<not> occurs_at (c_string s2) (c_string s1) k
     | Some k \<Rightarrow> occurs_at (c_string s2) (c_string s1) k
         \<and> (\<forall>i<k. \<not> occurs_at (c_string s2) (c_string s1) i))"
proof -
  have split: "\<exists>s'. s = c_string s @ 0 # s'" if "0 \<in> set s" for s :: "8 word list"
    using that by (induction s) (auto simp: c_string_def)
  obtain u' t' where "s1 = c_string s1 @ 0 # u'" "s2 = c_string s2 @ 0 # t'"
    using split assms by metis
  then show ?thesis
    using strstr_loop_first[of s1 "c_string s1" u' s2 "c_string s2" t' 0] assms
    by (cases "c_string s2 = []") (auto simp: rt_strstr_def rt_strlen_c_string occurs_at_def split: option.splits)
qed

subsection \<open>Properties\<close>

text \<open>\<open>rt_ffs\<close>, the table-driven bit scan of \<^verbatim>\<open>src/kservice.c\<close> on which the scheduler
  relies, is one more than the index of the lowest set bit of its argument, and 0 for 0.\<close>

theorem rt_ffs_correct: "rt_ffs v = (if v = 0 then 0 else (LEAST k. bit v k) + 1)"
proof (cases "v = 0")
  case False
  then obtain k where "rt_ffs v = k + 1" "bit v k" "\<forall>i<k. \<not> bit v i"
    using rt_ffs_lowest by blast
  moreover from this have "(LEAST k. bit v k) = k"
    by (intro Least_equality) (auto simp: not_less[symmetric])
  ultimately show ?thesis using False by simp
qed (simp add: rt_ffs_def)

text \<open>C29: The block routines with their word-at-a-time loops equal their one-line references:
  \<open>rt_memset\<close> fills exactly the area with the low byte of its argument, \<open>rt_memmove\<close> copies
  the old contents of the source whatever the overlap, and \<open>rt_memcpy\<close> does the same when the
  destination does not start inside the source area above its beginning.\<close>

theorem block_routines_correct:
  "rt_memset s c n m = mem_fill s n (ucast (c AND 0xff)) m
   \<and> rt_memmove d s n m = mem_copy d s n m
   \<and> (d \<le> s \<or> s + n \<le> d \<longrightarrow> rt_memcpy d s n m = mem_copy d s n m)"
  using rt_memset_fill rt_memmove_copy rt_memcpy_copy by blast

theorem block_routines_correct_witness:
  "(0 :: nat) \<le> 64 \<and> rt_memcpy 0 64 21 (\<lambda>a. of_nat a) = mem_copy 0 64 21 (\<lambda>a. of_nat a)"
  using block_routines_correct[of 64 0 21 "\<lambda>a. of_nat a" 0] by simp

text \<open>What \<open>rt_strncpy\<close> stores in a field of \<open>n\<close> bytes (object and device names) fills
  exactly \<open>n\<close> bytes and compares equal, by \<open>rt_strncmp\<close> over \<open>n\<close> bytes, to exactly the
  terminated strings that agree with the source string on the first \<open>n\<close> characters.\<close>

theorem strncpy_strncmp_roundtrip:
  assumes "0 \<in> set s" "0 \<in> set t"
  shows "\<exists>field r. rt_strncpy s n = Some field \<and> length field = n
    \<and> rt_strncmp field t n = Some r
    \<and> (r = 0 \<longleftrightarrow> take n (c_string s) = take n (c_string t))"
proof -
  define f where "f = take n (c_string s @ replicate n 0)"
  have f: "rt_strncpy s n = Some f" "length f = n"
    using rt_strncpy_eq[OF assms(1)] by (simp_all add: f_def)
  have nz: "0 \<notin> set (c_string s)" by (auto simp: c_string_def dest: set_takeWhileD)
  have ext: "rt_strncmp (xs @ ys) t (length xs) = rt_strncmp xs t (length xs)" if "0 \<in> set t" for xs ys t
    using that by (induction xs "t" "length xs" arbitrary: rule: rt_strncmp.induct) auto
  have cs: "take n (c_string (f @ [0])) = take n (c_string s)"
  proof (cases "n \<le> length (c_string s)")
    case True
    then have "f = take n (c_string s)" by (simp add: f_def)
    moreover have "0 \<notin> set (take n (c_string s))" using nz by (meson in_set_takeD)
    ultimately have "c_string (f @ [0]) = f" using c_string_append[of f "[]"] by simp
    then show ?thesis using \<open>f = take n (c_string s)\<close> by simp
  next
    case False
    then have "f = c_string s @ 0 # replicate (n - Suc (length (c_string s))) 0"
      by (simp add: f_def Suc_diff_Suc flip: replicate_Suc)
    then show ?thesis using nz c_string_append[of "c_string s"] by simp
  qed
  obtain r where "rt_strncmp (f @ [0]) t n = Some r"
    "r = 0 \<longleftrightarrow> take n (c_string (f @ [0])) = take n (c_string t)"
    using rt_strncmp_zero[of "f @ [0]" t n] assms(2) by auto
  moreover have "rt_strncmp (f @ [0]) t n = rt_strncmp f t n" using ext[OF assms(2), of f "[0]"] f(2) by simp
  ultimately show ?thesis using f cs by simp
qed

theorem strncpy_strncmp_roundtrip_witness:
  "\<exists>field r. rt_strncpy [0x74, 0x69, 0x64, 0x6c, 0x65, 0] 4 = Some field \<and> length field = 4
    \<and> rt_strncmp field [0x74, 0x69, 0x64, 0x6c, 0] 4 = Some r \<and> r = 0"
  using strncpy_strncmp_roundtrip[of "[0x74, 0x69, 0x64, 0x6c, 0x65, 0]" "[0x74, 0x69, 0x64, 0x6c, 0]" 4]
  by (auto simp: c_string_def)
end
