(* ===== verification/KPrintf.thy ===== *)
theory KPrintf
  imports KService
begin

text \<open>
  Formatted output, the printf family of \<^verbatim>\<open>src/kservice.c\<close>, in the configuration of the file: with
  \<^verbatim>\<open>RT_PRINTF_PRECISION\<close>, without \<^verbatim>\<open>RT_PRINTF_LONGLONG\<close> and \<^verbatim>\<open>RT_PRINTF_SPECIAL\<close>. The buffer is part of a
  byte memory; \<open>str\<close> is the address of the next byte and \<open>end\<close> that of the last byte of the buffer.
  Arguments are a list of words and strings, a null pointer to a string is \<open>Str_arg None\<close>.
  \<open>None\<close> is undefined behaviour of the source: an argument that is missing or of another type, a
  string without a terminating zero, or a number in the format that overflows an \<^verbatim>\<open>int\<close>. The
  counters of the padding loops are integers without overflow, the negation of the smallest number
  wraps, and the address \<open>str\<close> does not wrap around the address space.
\<close>

subsection \<open>Arguments and single bytes\<close>

datatype va_arg = Int_arg rt_uint32_t | Str_arg "8 word list option"

fun va_int :: "va_arg list \<Rightarrow> (rt_uint32_t \<times> va_arg list) option" where
  "va_int (Int_arg w # args) = Some (w, args)"
| "va_int _ = None"

fun va_str :: "va_arg list \<Rightarrow> (8 word list option \<times> va_arg list) option" where
  "va_str (Str_arg s # args) = Some (s, args)"
| "va_str _ = None"

text \<open>\<^verbatim>\<open>if (str <= end) *str = c; ++ str;\<close>\<close>

definition put_char :: "nat \<Rightarrow> 8 word \<Rightarrow> nat \<times> bmem \<Rightarrow> nat \<times> bmem" where
  "put_char end c p = (fst p + 1, if fst p \<le> end then (snd p)(fst p := c) else snd p)"

text \<open>Several such bytes.\<close>

definition emit :: "nat \<Rightarrow> 8 word list \<Rightarrow> nat \<times> bmem \<Rightarrow> nat \<times> bmem" where
  "emit end cs p = foldl (\<lambda>p c. put_char end c p) p cs"

text \<open>\<^verbatim>\<open>while (len < n--) ...\<close> and \<^verbatim>\<open>while (--n > 0) ...\<close> with such a byte, and the value of \<open>n\<close> afterwards.\<close>

function fill_to :: "nat \<Rightarrow> 8 word \<Rightarrow> int \<Rightarrow> int \<Rightarrow> nat \<times> bmem \<Rightarrow> int \<times> nat \<times> bmem" where
  "fill_to end c len n p = (if len < n then fill_to end c len (n - 1) (put_char end c p) else (n - 1, p))"
  by pat_completeness auto
termination by (relation "measure (\<lambda>(e, c, len, n, p). nat (n - len))") auto

function fill_pre :: "nat \<Rightarrow> 8 word \<Rightarrow> int \<Rightarrow> nat \<times> bmem \<Rightarrow> int \<times> nat \<times> bmem" where
  "fill_pre end c n p = (if n - 1 > 0 then fill_pre end c (n - 1) (put_char end c p) else (n - 1, p))"
  by pat_completeness auto
termination by (relation "measure (\<lambda>(e, c, n, p). nat n)") auto

abbreviation (input) ZEROPAD :: rt_uint8_t where "ZEROPAD \<equiv> 1"
abbreviation (input) SIGN :: rt_uint8_t where "SIGN \<equiv> 2"
abbreviation (input) PLUS :: rt_uint8_t where "PLUS \<equiv> 4"
abbreviation (input) SPACE :: rt_uint8_t where "SPACE \<equiv> 8"
abbreviation (input) LEFT :: rt_uint8_t where "LEFT \<equiv> 16"
abbreviation (input) SPECIAL :: rt_uint8_t where "SPECIAL \<equiv> 32"
abbreviation (input) LARGE :: rt_uint8_t where "LARGE \<equiv> 64"

subsection \<open>Numbers\<close>

definition isdigit :: "8 word \<Rightarrow> bool" where
  "isdigit c \<longleftrightarrow> c - 0x30 < 10"

definition divide_step :: "rt_uint32_t \<Rightarrow> rt_uint32_t \<Rightarrow> rt_uint32_t \<times> rt_uint32_t" where
  "divide_step n base = (if base = 10 then (n mod 10, n div 10) else (n mod 16, n div 16))"

fun skip_atoi :: "nat \<Rightarrow> 8 word list \<Rightarrow> (nat \<times> 8 word list) option" where
  "skip_atoi i [] = None"
| "skip_atoi i (c # s) =
     (if isdigit c
      then (let i = i * 10 + unat (c - 0x30) in if i < 2 ^ 31 then skip_atoi i s else None)
      else Some (i, c # s))"

definition small_digits :: "8 word list" where
  "small_digits = [0x30, 0x31, 0x32, 0x33, 0x34, 0x35, 0x36, 0x37, 0x38, 0x39, 0x61, 0x62, 0x63, 0x64, 0x65, 0x66]"

definition large_digits :: "8 word list" where
  "large_digits = [0x30, 0x31, 0x32, 0x33, 0x34, 0x35, 0x36, 0x37, 0x38, 0x39, 0x41, 0x42, 0x43, 0x44, 0x45, 0x46]"

text \<open>The digits go into \<^verbatim>\<open>tmp\<close> from the lowest on.\<close>

function number_digits :: "8 word list \<Rightarrow> rt_uint32_t \<Rightarrow> rt_uint32_t \<Rightarrow> 8 word list" where
  "number_digits digits num base =
     (if num \<noteq> 0 then let (d, num) = divide_step num base in (digits ! unat d) # number_digits digits num base else [])"
  by pat_completeness auto
termination
proof (relation "measure (\<lambda>(ds, num, b). unat num)")
  fix ds :: "8 word list" and num base d q :: rt_uint32_t and x
  assume "num \<noteq> 0" "x = divide_step num base" "(d, q) = x"
  then have "q = num div 10 \<or> q = num div 16" by (auto simp: divide_step_def split: if_splits)
  moreover have "0 < unat num" using \<open>num \<noteq> 0\<close> by (simp add: unat_gt_0)
  ultimately show "((ds, q, base), (ds, num, base)) \<in> measure (\<lambda>(ds, num, b). unat num)"
    by (auto simp: unat_div)
qed auto

definition number_sign :: "rt_uint32_t \<Rightarrow> rt_uint8_t \<Rightarrow> 8 word" where
  "number_sign num typ =
     (if typ AND SIGN = 0 then 0
      else if sint num < 0 then 0x2d
      else if typ AND PLUS \<noteq> 0 then 0x2b
      else if typ AND SPACE \<noteq> 0 then 0x20
      else 0)"

definition number_tmp :: "rt_uint32_t \<Rightarrow> rt_uint32_t \<Rightarrow> rt_uint8_t \<Rightarrow> 8 word list" where
  "number_tmp num base typ =
     (let digits = (if typ AND LARGE \<noteq> 0 then large_digits else small_digits);
          num = (if typ AND SIGN \<noteq> 0 \<and> sint num < 0 then - num else num)
      in if num = 0 then [0x30] else number_digits digits num base)"

definition print_number :: "nat \<Rightarrow> rt_uint32_t \<Rightarrow> rt_uint32_t \<Rightarrow> int \<Rightarrow> int \<Rightarrow> rt_uint8_t \<Rightarrow> nat \<times> bmem \<Rightarrow> nat \<times> bmem" where
  "print_number end num base s precision typ p =
     (let typ = (if typ AND LEFT \<noteq> 0 then typ AND NOT ZEROPAD else typ);
          c = (if typ AND ZEROPAD \<noteq> 0 then 0x30 else 0x20);
          sign = number_sign num typ;
          tmp = number_tmp num base typ;
          i = int (length tmp);
          precision = (if i > precision then i else precision);
          size = s - precision;
          (size, p) = (if typ AND (ZEROPAD OR LEFT) = 0
             then fill_to end 0x20 0 (if sign \<noteq> 0 \<and> size > 0 then size - 1 else size) p
             else (size, p));
          (size, p) = (if sign \<noteq> 0
             then (if fst p \<le> end then size - 1 else size, put_char end sign p)
             else (size, p));
          (size, p) = (if typ AND LEFT = 0 then fill_to end c 0 size p else (size, p));
          (_, p) = fill_to end 0x30 i precision p;
          p = emit end (rev tmp) p;
          (_, p) = fill_to end 0x20 0 size p
      in p)"

subsection \<open>Directives\<close>

record fmt_spec =
  sp_flags :: rt_uint8_t
  sp_width :: int
  sp_precision :: int
  sp_qualifier :: "8 word"
  sp_conv :: "8 word"

fun parse_flags :: "rt_uint8_t \<Rightarrow> 8 word list \<Rightarrow> (rt_uint8_t \<times> 8 word list) option" where
  "parse_flags flags [] = None"
| "parse_flags flags (c # fmt) =
     (if c = 0x2d then parse_flags (flags OR LEFT) fmt
      else if c = 0x2b then parse_flags (flags OR PLUS) fmt
      else if c = 0x20 then parse_flags (flags OR SPACE) fmt
      else if c = 0x23 then parse_flags (flags OR SPECIAL) fmt
      else if c = 0x30 then parse_flags (flags OR ZEROPAD) fmt
      else Some (flags, c # fmt))"

text \<open>A number in the format, or the next argument for a star; \<open>- 1\<close> without either.\<close>

definition parse_count :: "8 word list \<Rightarrow> va_arg list \<Rightarrow> (int \<times> 8 word list \<times> va_arg list) option" where
  "parse_count fmt args =
     (case fmt of
        [] \<Rightarrow> None
      | c # rest \<Rightarrow>
          if isdigit c then do { (i, fmt) \<leftarrow> skip_atoi 0 fmt; Some (int i, fmt, args) }
          else if c = 0x2a then do { (w, args) \<leftarrow> va_int args; Some (sint w, rest, args) }
          else Some (- 1, fmt, args))"

definition parse_width :: "rt_uint8_t \<Rightarrow> 8 word list \<Rightarrow> va_arg list
    \<Rightarrow> (int \<times> rt_uint8_t \<times> 8 word list \<times> va_arg list) option" where
  "parse_width flags fmt args =
     do { (w, fmt', args) \<leftarrow> parse_count fmt args;
          if take 1 fmt = [0x2a] \<and> w < 0 then
            (if w = - (2 ^ 31) then None else Some (- w, flags OR LEFT, fmt', args))
          else Some (w, flags, fmt', args) }"

definition parse_precision :: "8 word list \<Rightarrow> va_arg list \<Rightarrow> (int \<times> 8 word list \<times> va_arg list) option" where
  "parse_precision fmt args =
     (case fmt of
        [] \<Rightarrow> None
      | c # rest \<Rightarrow>
          if c = 0x2e then do { (n, fmt, args) \<leftarrow> parse_count rest args; Some (max 0 n, fmt, args) }
          else Some (- 1, fmt, args))"

definition parse_qualifier :: "8 word list \<Rightarrow> (8 word \<times> 8 word list) option" where
  "parse_qualifier fmt =
     (case fmt of [] \<Rightarrow> None | c # rest \<Rightarrow> Some (if c = 0x68 \<or> c = 0x6c then (c, rest) else (0, fmt)))"

text \<open>A directive behind its percent sign, up to and with the conversion character; at the end of the
  format the terminating zero is not consumed.\<close>

definition parse_directive :: "8 word list \<Rightarrow> va_arg list \<Rightarrow> (fmt_spec \<times> 8 word list \<times> va_arg list) option" where
  "parse_directive fmt args =
     do { (flags, fmt) \<leftarrow> parse_flags 0 fmt;
          (width, flags, fmt, args) \<leftarrow> parse_width flags fmt args;
          (precision, fmt, args) \<leftarrow> parse_precision fmt args;
          (qualifier, fmt) \<leftarrow> parse_qualifier fmt;
          (case fmt of
             [] \<Rightarrow> None
           | c # rest \<Rightarrow> Some (\<lparr>sp_flags = flags, sp_width = width, sp_precision = precision,
               sp_qualifier = qualifier, sp_conv = c\<rparr>, if c = 0 then fmt else rest, args)) }"

subsection \<open>Conversions\<close>

definition format_char :: "nat \<Rightarrow> fmt_spec \<Rightarrow> va_arg list \<Rightarrow> nat \<times> bmem \<Rightarrow> (va_arg list \<times> nat \<times> bmem) option" where
  "format_char end sp args p =
     (let (w, p) = (if sp_flags sp AND LEFT = 0 then fill_pre end 0x20 (sp_width sp) p else (sp_width sp, p))
      in do { (c, args) \<leftarrow> va_int args;
              let p = put_char end (ucast c) p;
              Some (args, snd (fill_pre end 0x20 w p)) })"

definition null_text :: "8 word list" where
  "null_text = [0x28, 0x4e, 0x55, 0x4c, 0x4c, 0x29, 0]"

definition format_string :: "nat \<Rightarrow> fmt_spec \<Rightarrow> va_arg list \<Rightarrow> nat \<times> bmem \<Rightarrow> (va_arg list \<times> nat \<times> bmem) option" where
  "format_string end sp args p =
     do { (s, args) \<leftarrow> va_str args;
          let s = (case s of None \<Rightarrow> null_text | Some s \<Rightarrow> s);
          n \<leftarrow> rt_strlen s;
          let len = (if sp_precision sp > 0 \<and> int n > sp_precision sp then sp_precision sp else int n);
          let (w, p) = (if sp_flags sp AND LEFT = 0 then fill_to end 0x20 len (sp_width sp) p else (sp_width sp, p));
          let p = emit end (take (nat len) s) p;
          Some (args, snd (fill_to end 0x20 len w p)) }"

definition format_pointer :: "nat \<Rightarrow> fmt_spec \<Rightarrow> va_arg list \<Rightarrow> nat \<times> bmem \<Rightarrow> (va_arg list \<times> nat \<times> bmem) option" where
  "format_pointer end sp args p =
     (let (w, flags) = (if sp_width sp = - 1 then (8, sp_flags sp OR ZEROPAD) else (sp_width sp, sp_flags sp))
      in do { (num, args) \<leftarrow> va_int args; Some (args, print_number end num 16 w (sp_precision sp) flags p) })"

text \<open>The base and the flags an integer conversion sets.\<close>

definition integer_conv :: "8 word \<Rightarrow> rt_uint8_t \<Rightarrow> (rt_uint32_t \<times> rt_uint8_t) option" where
  "integer_conv c flags =
     (if c = 0x6f then Some (8, flags)
      else if c = 0x58 then Some (16, flags OR LARGE)
      else if c = 0x78 then Some (16, flags)
      else if c = 0x64 \<or> c = 0x69 then Some (10, flags OR SIGN)
      else if c = 0x75 then Some (10, flags)
      else None)"

definition format_integer :: "nat \<Rightarrow> fmt_spec \<Rightarrow> rt_uint32_t \<Rightarrow> rt_uint8_t \<Rightarrow> va_arg list \<Rightarrow> nat \<times> bmem
    \<Rightarrow> (va_arg list \<times> nat \<times> bmem) option" where
  "format_integer end sp base flags args p =
     do { (num, args) \<leftarrow> va_int args;
          let num = (if sp_qualifier sp = 0x68
                then (if flags AND SIGN \<noteq> 0 then scast (ucast num :: 16 word) else ucast (ucast num :: 16 word))
                else num);
          Some (args, print_number end num base (sp_width sp) (sp_precision sp) flags p) }"

definition format_directive :: "nat \<Rightarrow> fmt_spec \<Rightarrow> va_arg list \<Rightarrow> nat \<times> bmem \<Rightarrow> (va_arg list \<times> nat \<times> bmem) option" where
  "format_directive end sp args p =
     (if sp_conv sp = 0x63 then format_char end sp args p
      else if sp_conv sp = 0x73 then format_string end sp args p
      else if sp_conv sp = 0x70 then format_pointer end sp args p
      else if sp_conv sp = 0x25 then Some (args, put_char end 0x25 p)
      else
        case integer_conv (sp_conv sp) (sp_flags sp) of
          Some (base, flags) \<Rightarrow> format_integer end sp base flags args p
        | None \<Rightarrow>
            let p = put_char end 0x25 p
            in Some (args, if sp_conv sp \<noteq> 0 then put_char end (sp_conv sp) p else p))"

subsection \<open>The main loop\<close>

lemma skip_atoi_shorter: "skip_atoi i s = Some (j, s') \<Longrightarrow> length s' \<le> length s"
  by (induction i s rule: skip_atoi.induct) (auto simp: Let_def split: if_splits)

lemma parse_flags_shorter: "parse_flags f s = Some (g, s') \<Longrightarrow> length s' \<le> length s"
  by (induction f s rule: parse_flags.induct) (auto split: if_splits)

lemma parse_count_shorter: "parse_count s args = Some (n, s', args') \<Longrightarrow> length s' \<le> length s"
  by (auto simp: parse_count_def simp del: skip_atoi.simps split: list.splits if_splits bind_splits dest!: skip_atoi_shorter)

lemma parse_width_shorter: "parse_width f s args = Some (n, g, s', args') \<Longrightarrow> length s' \<le> length s"
  by (auto simp: parse_width_def split: bind_splits if_splits dest: parse_count_shorter)

lemma parse_precision_shorter: "parse_precision s args = Some (n, s', args') \<Longrightarrow> length s' \<le> length s"
  by (auto simp: parse_precision_def split: list.splits bind_splits if_splits dest: parse_count_shorter)

lemma parse_qualifier_shorter: "parse_qualifier s = Some (q, s') \<Longrightarrow> length s' \<le> length s"
  by (auto simp: parse_qualifier_def split: list.splits if_splits)

lemma parse_directive_shorter:
  assumes "parse_directive s args = Some (sp, s', args')"
  shows "length s' \<le> length s"
proof -
  obtain f1 s1 w f2 s2 a2 p s3 a3 q s4 where p: "parse_flags 0 s = Some (f1, s1)" "parse_width f1 s1 args = Some (w, f2, s2, a2)"
    "parse_precision s2 a2 = Some (p, s3, a3)" "parse_qualifier s3 = Some (q, s4)"
    and r: "(case s4 of [] \<Rightarrow> None | c # rest \<Rightarrow> Some (\<lparr>sp_flags = f2, sp_width = w, sp_precision = p,
        sp_qualifier = q, sp_conv = c\<rparr>, if c = 0 then s4 else rest, a3)) = Some (sp, s', args')"
    using assms by (auto simp: parse_directive_def split: bind_splits)
  have "length s' \<le> length s4" using r by (auto split: list.splits if_splits)
  also have "\<dots> \<le> length s"
    using parse_flags_shorter[OF p(1)] parse_width_shorter[OF p(2)] parse_precision_shorter[OF p(3)]
      parse_qualifier_shorter[OF p(4)] by simp
  finally show ?thesis .
qed

function vsnprintf_loop :: "nat \<Rightarrow> 8 word list \<Rightarrow> va_arg list \<Rightarrow> nat \<times> bmem \<Rightarrow> (nat \<times> bmem) option" where
  "vsnprintf_loop end fmt args p =
     (case fmt of
        [] \<Rightarrow> None
      | c # rest \<Rightarrow>
          if c = 0 then Some p
          else if c \<noteq> 0x25 then vsnprintf_loop end rest args (put_char end c p)
          else
            (case parse_directive rest args of
               None \<Rightarrow> None
             | Some (sp, rest, args) \<Rightarrow>
                 (case format_directive end sp args p of
                    None \<Rightarrow> None
                  | Some (args, p) \<Rightarrow> vsnprintf_loop end rest args p)))"
  by pat_completeness auto
termination
  by (relation "measure (\<lambda>(e, fmt, args, p). length fmt)") (auto dest: parse_directive_shorter)

declare fill_to.simps [simp del] fill_pre.simps [simp del] number_digits.simps [simp del] vsnprintf_loop.simps [simp del]

definition rt_vsnprintf :: "nat \<Rightarrow> nat \<Rightarrow> 8 word list \<Rightarrow> va_arg list \<Rightarrow> bmem \<Rightarrow> (nat \<times> bmem) option" where
  "rt_vsnprintf buf sz fmt args m =
     (let end = sub32 (add32 buf sz) 1;
          end = (if end < buf then 2 ^ 32 - 1 else end)
      in do { (str, m) \<leftarrow> vsnprintf_loop end fmt args (buf, m);
              Some (str - buf, if str \<le> end then m(str := 0) else m(end := 0)) })"

definition rt_snprintf :: "nat \<Rightarrow> nat \<Rightarrow> 8 word list \<Rightarrow> va_arg list \<Rightarrow> bmem \<Rightarrow> (nat \<times> bmem) option" where
  "rt_snprintf buf sz fmt args m = rt_vsnprintf buf sz fmt args m"

definition rt_vsprintf :: "nat \<Rightarrow> 8 word list \<Rightarrow> va_arg list \<Rightarrow> bmem \<Rightarrow> (nat \<times> bmem) option" where
  "rt_vsprintf buf fmt args m = rt_vsnprintf buf (2 ^ 32 - 1) fmt args m"

definition rt_sprintf :: "nat \<Rightarrow> 8 word list \<Rightarrow> va_arg list \<Rightarrow> bmem \<Rightarrow> (nat \<times> bmem) option" where
  "rt_sprintf buf fmt args m = rt_vsprintf buf fmt args m"


subsection \<open>What the loops write\<close>

lemma emit_simps [simp]: "emit e [] p = p" "emit e (c # cs) p = emit e cs (put_char e c p)"
  by (simp_all add: emit_def)

lemma emit_append [simp]: "emit e (xs @ ys) p = emit e ys (emit e xs p)"
  by (simp add: emit_def)

lemma fst_emit [simp]: "fst (emit e cs p) = fst p + length cs"
  by (induction cs arbitrary: p) (simp_all add: put_char_def)

lemma snd_emit: "snd (emit e cs p) a = (if fst p \<le> a \<and> a < fst p + length cs \<and> a \<le> e then cs ! (a - fst p) else snd p a)"
proof (induction cs arbitrary: p)
  case (Cons c cs)
  show ?case
  proof (cases "a = fst p")
    case False
    then have "a - fst p = Suc (a - Suc (fst p))" if "fst p \<le> a" using that by simp
    then show ?thesis using False by (auto simp: Cons.IH put_char_def)
  next
    case True
    then show ?thesis using Cons.IH[of "put_char e c p"] by (simp add: put_char_def)
  qed
qed auto

lemma fill_to_eq: "fill_to e c len n p = (if len < n then len - 1 else n - 1, emit e (replicate (nat (n - len)) c) p)"
proof (induction e c len n p rule: fill_to.induct)
  case (1 e c len n p)
  show ?case
  proof (cases "len < n")
    case True
    then have "nat (n - len) = Suc (nat (n - 1 - len))" by simp
    then show ?thesis using 1 True by (subst fill_to.simps) auto
  qed (simp add: fill_to.simps)
qed

lemma fill_pre_eq: "fill_pre e c n p = (if 1 < n then 0 else n - 1, emit e (replicate (nat (n - 1)) c) p)"
proof (induction e c n p rule: fill_pre.induct)
  case (1 e c n p)
  show ?case
  proof (cases "1 < n")
    case True
    then have "nat (n - 1) = Suc (nat (n - 2))" by simp
    then show ?thesis using 1 True by (subst fill_pre.simps) auto
  qed (simp add: fill_pre.simps)
qed

subsection \<open>The text a format describes\<close>

text \<open>The text without buffer, truncation and loops, with the parser and the digits of the code: bodies set left
  or right in a field. \<open>PrintfSpec\<close> says what the text is without the code.\<close>

definition sign_text :: "rt_uint32_t \<Rightarrow> rt_uint8_t \<Rightarrow> 8 word list" where
  "sign_text num typ = (if number_sign num typ = 0 then [] else [number_sign num typ])"

definition number_text :: "rt_uint32_t \<Rightarrow> rt_uint32_t \<Rightarrow> int \<Rightarrow> int \<Rightarrow> rt_uint8_t \<Rightarrow> 8 word list" where
  "number_text num base w precision typ =
     (let sign = sign_text num typ;
          tmp = number_tmp num base typ;
          body = replicate (nat precision - length tmp) 0x30 @ rev tmp;
          pad = nat w - length sign - length body
      in if typ AND LEFT \<noteq> 0 then sign @ body @ replicate pad 0x20
         else if typ AND ZEROPAD \<noteq> 0 then sign @ replicate pad 0x30 @ body
         else replicate pad 0x20 @ sign @ body)"

definition justify :: "bool \<Rightarrow> int \<Rightarrow> 8 word list \<Rightarrow> 8 word list" where
  "justify left w body = (let pad = replicate (nat w - length body) 0x20 in if left then body @ pad else pad @ body)"

definition directive_text :: "fmt_spec \<Rightarrow> va_arg list \<Rightarrow> (va_arg list \<times> 8 word list) option" where
  "directive_text sp args =
     (let left = (sp_flags sp AND LEFT \<noteq> 0); w = sp_width sp; n = sp_precision sp
      in if sp_conv sp = 0x63 then
           do { (c, args) \<leftarrow> va_int args; Some (args, justify left w [ucast c]) }
         else if sp_conv sp = 0x73 then
           do { (s, args) \<leftarrow> va_str args;
                let s = (case s of None \<Rightarrow> null_text | Some s \<Rightarrow> s);
                len \<leftarrow> rt_strlen s;
                Some (args, justify left w (take (if 0 < n then min len (nat n) else len) s)) }
         else if sp_conv sp = 0x70 then
           do { (num, args) \<leftarrow> va_int args;
                Some (args, if w = - 1 then number_text num 16 8 n (sp_flags sp OR ZEROPAD)
                            else number_text num 16 w n (sp_flags sp)) }
         else if sp_conv sp = 0x25 then Some (args, [0x25])
         else
           case integer_conv (sp_conv sp) (sp_flags sp) of
             Some (base, flags) \<Rightarrow>
               do { (num, args) \<leftarrow> va_int args;
                    let num = (if sp_qualifier sp = 0x68
                          then (if flags AND SIGN \<noteq> 0 then scast (ucast num :: 16 word) else ucast (ucast num :: 16 word))
                          else num);
                    Some (args, number_text num base w n flags) }
           | None \<Rightarrow> Some (args, if sp_conv sp = 0 then [0x25] else [0x25, sp_conv sp]))"

function format_text :: "8 word list \<Rightarrow> va_arg list \<Rightarrow> 8 word list option" where
  "format_text fmt args =
     (case fmt of
        [] \<Rightarrow> None
      | c # rest \<Rightarrow>
          if c = 0 then Some []
          else if c \<noteq> 0x25 then map_option ((#) c) (format_text rest args)
          else
            (case parse_directive rest args of
               None \<Rightarrow> None
             | Some (sp, rest, args) \<Rightarrow>
                 (case directive_text sp args of
                    None \<Rightarrow> None
                  | Some (args, cs) \<Rightarrow> map_option ((@) cs) (format_text rest args))))"
  by pat_completeness auto
termination
  by (relation "measure (\<lambda>(fmt, args). length fmt)") (auto dest: parse_directive_shorter)

declare format_text.simps [simp del]

subsection \<open>Numbers\<close>

lemma and_not_zeropad [simp]:
  "(t AND - 2) AND 1 = (0 :: rt_uint8_t)" "(t AND - 2) AND 2 = t AND (2 :: rt_uint8_t)"
  "(t AND - 2) AND 4 = t AND (4 :: rt_uint8_t)" "(t AND - 2) AND 8 = t AND (8 :: rt_uint8_t)"
  "(t AND - 2) AND 16 = t AND (16 :: rt_uint8_t)" "(t AND - 2) AND 64 = t AND (64 :: rt_uint8_t)"
  by (simp_all add: and.assoc)

lemma zeropad_or_left: "t AND (1 OR 16) = 0 \<longleftrightarrow> t AND 1 = 0 \<and> t AND 16 = (0 :: rt_uint8_t)"
  by (simp only: bit.conj_disj_distrib or_eq_0_iff)

lemma number_left [simp]: "number_sign num (t AND - 2) = number_sign num t" "number_tmp num base (t AND - 2) = number_tmp num base t"
  unfolding number_sign_def number_tmp_def and_not_zeropad by simp_all

text \<open>
  The whole routine. A field that is set left or filled with zeros comes out one byte too long when
  its sign falls behind the end of the buffer.
\<close>

lemma print_number_eq:
  "print_number e num base w n typ p = emit e (number_text num base
     (if number_sign num typ \<noteq> 0 \<and> typ AND (ZEROPAD OR LEFT) \<noteq> 0 \<and> e < fst p then w + 1 else w) n typ) p"
proof -
  define sg where "sg = number_sign num typ"
  define tmp where "tmp = number_tmp num base typ"
  have pad: "0 \<le> b \<Longrightarrow> nat (a - b) = nat a - nat b" "0 \<le> b \<Longrightarrow> nat (a - b - 1) = nat a - Suc (nat b)"
    "nat (a + 1) - Suc k = nat a - k" for a b :: int and k by arith+
  have n: "n < int (length tmp) \<Longrightarrow> nat n - length tmp = 0 \<and> nat (n - int (length tmp)) = 0"
    "\<not> n < int (length tmp) \<Longrightarrow> 0 \<le> n \<and> length tmp + (nat n - length tmp) = nat n" by auto
  consider (left) "typ AND 16 \<noteq> 0" | (zero) "typ AND 16 = 0" "typ AND 1 \<noteq> 0" | (right) "typ AND 16 = 0" "typ AND 1 = 0" by blast
  then show ?thesis
  proof cases
    case left
    then show ?thesis
      unfolding print_number_def number_text_def sign_text_def Let_def zeropad_or_left
      using n by (cases "n < int (length tmp)") (simp_all add: fill_to_eq not_le pad flip: sg_def tmp_def)
  next
    case zero
    then show ?thesis
      unfolding print_number_def number_text_def sign_text_def Let_def zeropad_or_left
      using n by (cases "n < int (length tmp)") (simp_all add: fill_to_eq not_le pad flip: sg_def tmp_def)
  next
    case right
    then show ?thesis
      unfolding print_number_def number_text_def sign_text_def Let_def zeropad_or_left
      using n by (cases "n < int (length tmp)") (simp_all add: fill_to_eq not_le pad flip: sg_def tmp_def)
  qed
qed


subsection \<open>The buffer holds the text, cut off at its end\<close>

text \<open>\<open>writes e p cs q\<close>: from \<open>p\<close> to \<open>q\<close> the text \<open>cs\<close> was written as far as the buffer reaches; the position
  advanced by its length, or by more when the text did not fit.\<close>

definition writes :: "nat \<Rightarrow> nat \<times> bmem \<Rightarrow> 8 word list \<Rightarrow> nat \<times> bmem \<Rightarrow> bool" where
  "writes e p cs q \<longleftrightarrow> snd q = snd (emit e cs p) \<and> fst p + length cs \<le> fst q
     \<and> (fst p + length cs \<le> e + 1 \<longrightarrow> fst q = fst p + length cs)"

lemma emit_beyond: "e < fst p \<Longrightarrow> snd (emit e cs p) = snd p"
  by (rule ext) (auto simp: snd_emit)

lemma writes_emit [simp]: "writes e p cs (emit e cs p)"
  by (simp add: writes_def)

lemma writes_put [simp]: "writes e p [c] (put_char e c p)"
  using writes_emit[of e p "[c]"] by simp

lemma writes_append:
  assumes "writes e p cs q" "writes e q ds r"
  shows "writes e p (cs @ ds) r"
proof (cases "fst p + length cs \<le> e + 1")
  case True
  then have "q = emit e cs p" using assms(1) by (simp add: writes_def prod_eq_iff)
  then show ?thesis using assms(2) by (auto simp: writes_def)
next
  case False
  then show ?thesis using assms emit_beyond[of e q ds] emit_beyond[of e "emit e cs p" ds] by (simp add: writes_def)
qed

lemma number_tmp_nonempty: "number_tmp num base typ \<noteq> []"
  by (auto simp: number_tmp_def Let_def number_digits.simps[of _ _ base] split: prod.splits)

lemma print_number_writes: "writes e p (number_text num base w n typ) (print_number e num base w n typ p)"
proof (cases "number_sign num typ \<noteq> 0 \<and> typ AND (ZEROPAD OR LEFT) \<noteq> 0 \<and> e < fst p")
  case True
  have l: "length (number_text num base w n typ) \<le> length (number_text num base (w + 1) n typ)"
    by (simp add: number_text_def Let_def) arith
  have "0 < length (number_text num base w n typ)"
    using number_tmp_nonempty[of num base "typ"] by (auto simp: number_text_def Let_def)
  then have "\<not> fst p + length (number_text num base w n typ) \<le> e + 1" using True by linarith
  then show ?thesis using True l emit_beyond[of e p] by (simp add: print_number_eq writes_def)
qed (auto simp: print_number_eq)

lemma va_cases:
  obtains "x = None" | a b where "x = Some (a, b)"
  by (cases x) auto

lemma strlen_less: "rt_strlen s = Some n \<Longrightarrow> n < length s"
  by (induction s arbitrary: n) (auto split: if_splits)

lemma format_char_writes:
  assumes c: "sp_conv sp = 0x63"
  shows "case directive_text sp args of
     None \<Rightarrow> format_directive e sp args p = None
   | Some (args', cs) \<Rightarrow> (case format_directive e sp args p of None \<Rightarrow> False | Some (args'', q) \<Rightarrow> args'' = args' \<and> writes e p cs q)"
proof -
  have k: "nat (w - 1) = nat w - Suc 0" "nat (w - int k) = nat w - k" for w k by arith+
  show ?thesis
  proof (cases "va_int args")
    case (Some x)
    obtain a b where x: "x = (a, b)" by (cases x)
    have "writes e p (ucast a # cs) (emit e cs (put_char e (ucast a) p))" "writes e p (cs @ [ucast a]) (put_char e (ucast a) (emit e cs p))" for cs
      using writes_emit[of e p "ucast a # cs"] writes_emit[of e p "cs @ [ucast a]"] by simp_all
    then show ?thesis using c Some x
      by (simp add: directive_text_def format_directive_def format_char_def justify_def fill_pre_eq k)
  qed (simp add: c directive_text_def format_directive_def format_char_def split: prod.split)
qed

lemma format_string_writes:
  assumes s: "sp_conv sp = 0x73"
  shows "case directive_text sp args of
     None \<Rightarrow> format_directive e sp args p = None
   | Some (args', cs) \<Rightarrow> (case format_directive e sp args p of None \<Rightarrow> False | Some (args'', q) \<Rightarrow> args'' = args' \<and> writes e p cs q)"
proof -
  have k: "nat (w - 1) = nat w - Suc 0" "nat (w - int k) = nat w - k" for w k by arith+
  show ?thesis
  proof (cases "va_str args")
    case (Some x)
    obtain a b where x: "x = (a, b)" by (cases x)
    define t where "t = (case a of None \<Rightarrow> null_text | Some t \<Rightarrow> t)"
    show ?thesis
    proof (cases "rt_strlen t")
      case None
      then show ?thesis using s Some x
        by (simp add: directive_text_def format_directive_def format_string_def flip: t_def)
    next
      case n: (Some n)
      let ?w = "sp_width sp"
      define l where "l = (if 0 < sp_precision sp then min n (nat (sp_precision sp)) else n)"
      have l: "(if sp_precision sp > 0 \<and> int n > sp_precision sp then sp_precision sp else int n) = int l"
        by (auto simp: l_def)
      have "l \<le> length t" using strlen_less[OF n] by (auto simp: l_def)
      then have "length (take l t) = l" by simp
      then show ?thesis using s Some x n
        by (simp add: directive_text_def format_directive_def format_string_def justify_def fill_to_eq k l Let_def writes_def flip: t_def l_def) arith
    qed
  qed (simp add: s directive_text_def format_directive_def format_string_def)
qed

lemma format_directive_writes:
  "case directive_text sp args of
     None \<Rightarrow> format_directive e sp args p = None
   | Some (args', cs) \<Rightarrow> (case format_directive e sp args p of None \<Rightarrow> False | Some (args'', q) \<Rightarrow> args'' = args' \<and> writes e p cs q)"
proof -
  consider (c) "sp_conv sp = 0x63" | (s) "sp_conv sp = 0x73" | (p) "sp_conv sp = 0x70" | (pc) "sp_conv sp = 0x25"
    | (i) b f where "sp_conv sp \<notin> {0x63, 0x73, 0x70, 0x25}" "integer_conv (sp_conv sp) (sp_flags sp) = Some (b, f)"
    | (other) "sp_conv sp \<notin> {0x63, 0x73, 0x70, 0x25}" "integer_conv (sp_conv sp) (sp_flags sp) = None" by fastforce
  then show ?thesis
  proof cases
    case c
    then show ?thesis by (rule format_char_writes)
  next
    case s
    then show ?thesis by (rule format_string_writes)
  next
    case p
    then show ?thesis
      by (cases "va_int args" rule: va_cases)
         (simp_all add: directive_text_def format_directive_def format_pointer_def print_number_writes Let_def)
  next
    case pc
    then show ?thesis by (simp add: directive_text_def format_directive_def)
  next
    case i
    then show ?thesis
      by (cases "va_int args" rule: va_cases)
         (simp_all add: directive_text_def format_directive_def format_integer_def print_number_writes Let_def)
  next
    case other
    then show ?thesis using writes_append[OF writes_put writes_put]
      by (auto simp: directive_text_def format_directive_def)
  qed
qed


lemmas loop_eqs = format_text.simps[of "[]"] format_text.simps[of "c # fmt" for c fmt]
  vsnprintf_loop.simps[of _ "[]"] vsnprintf_loop.simps[of _ "c # fmt" for c fmt]

lemma vsnprintf_loop_writes:
  "case format_text fmt args of
     None \<Rightarrow> vsnprintf_loop e fmt args p = None
   | Some cs \<Rightarrow> \<exists>q. vsnprintf_loop e fmt args p = Some q \<and> writes e p cs q"
proof (induction e fmt args p rule: vsnprintf_loop.induct)
  case (1 e fmt args p)
  show ?case
  proof (cases fmt)
    case Nil
    then show ?thesis by (simp add: loop_eqs)
  next
    case (Cons c rest)
    consider "c = 0" | "c \<noteq> 0" "c \<noteq> 0x25" | "c = 0x25" by blast
    then show ?thesis
    proof cases
      case 1
      then show ?thesis using Cons by (simp add: loop_eqs writes_def)
    next
      case 2
      note IH = "1.IH"(1)[OF Cons 2]
      then show ?thesis using 2 Cons writes_append[OF writes_put[of e p c]]
        by (auto simp: loop_eqs split: option.splits)
    next
      case 3
      show ?thesis
      proof (cases "parse_directive rest args")
        case None
        then show ?thesis using 3 Cons by (simp add: loop_eqs)
      next
        case (Some x)
        obtain sp rest' args' where x: "x = (sp, rest', args')" by (cases x)
        show ?thesis
        proof (cases "directive_text sp args'")
          case None
          then have "format_directive e sp args' p = None" using format_directive_writes[where sp = sp and args = args' and e = e and p = p] by simp
          then show ?thesis using 3 Cons Some x None by (simp add: loop_eqs)
        next
          case d: (Some y)
          obtain args'' cs where y: "y = (args'', cs)" by (cases y)
          obtain q where q: "format_directive e sp args' p = Some (args'', q)" "writes e p cs q"
            using format_directive_writes[where sp = sp and args = args' and e = e and p = p] d y by (auto split: option.splits)
          have IH: "case format_text rest' args'' of None \<Rightarrow> vsnprintf_loop e rest' args'' q = None
             | Some cs \<Rightarrow> \<exists>r. vsnprintf_loop e rest' args'' q = Some r \<and> writes e q cs r"
            using "1.IH"(2)[OF Cons] 3 Some x q(1) by simp
          then show ?thesis using 3 Cons Some x d y q writes_append[OF q(2)]
            by (auto simp: loop_eqs split: option.splits)
        qed
      qed
    qed
  qed
qed


text \<open>The last byte of a buffer that lies within the address space.\<close>

lemma buffer_end: "0 < sz \<Longrightarrow> buf + sz \<le> 2 ^ 32 \<Longrightarrow> sub32 (add32 buf sz) 1 = buf + sz - 1"
  using sub32_small[of 1 "buf + sz"] by (cases "buf + sz = 2 ^ 32") (auto simp: add32_small, simp add: add32_def sub32_def)

subsection \<open>Digits and their value\<close>

definition digit_value :: "8 word \<Rightarrow> nat" where
  "digit_value c = (if c < 0x40 then unat (c - 0x30) else unat (c OR 0x20) - 0x57)"

definition text_value :: "nat \<Rightarrow> 8 word list \<Rightarrow> nat" where
  "text_value b cs = foldl (\<lambda>v c. b * v + digit_value c) 0 cs"

lemma text_value_snoc [simp]: "text_value b [] = 0" "text_value b (cs @ [c]) = b * text_value b cs + digit_value c"
  by (simp_all add: text_value_def)

lemma digits_values: "map digit_value small_digits = [0..<16]" "map digit_value large_digits = [0..<16]"
  by code_simp+

lemma digit_value_digits:
  assumes "ds = small_digits \<or> ds = large_digits" "d < 16"
  shows "digit_value (ds ! d) = d"
proof -
  have "length ds = 16" "map digit_value ds = [0..<16]" using assms(1) digits_values by (auto simp: small_digits_def large_digits_def)
  then have "digit_value (ds ! d) = [0..<16] ! d" using assms(2) by (metis nth_map)
  then show ?thesis using assms(2) by simp
qed

definition base_nat :: "rt_uint32_t \<Rightarrow> nat" where
  "base_nat base = (if base = 10 then 10 else 16)"

lemma divide_step_nat: "divide_step n base = (d, q) \<Longrightarrow> unat d = unat n mod base_nat base \<and> unat q = unat n div base_nat base"
  by (auto simp: divide_step_def base_nat_def unat_div unat_mod split: if_splits)

lemma number_digits_value:
  assumes "ds = small_digits \<or> ds = large_digits"
  shows "text_value (base_nat base) (rev (number_digits ds num base)) = unat num"
  using assms
proof (induction ds num base rule: number_digits.induct)
  case (1 ds num base)
  obtain d q where s: "divide_step num base = (d, q)" by fastforce
  note n = divide_step_nat[OF s]
  show ?case
  proof (cases "num = 0")
    case False
    have "unat d < 16" using n by (simp add: base_nat_def split: if_splits)
    then have "digit_value (ds ! unat d) = unat num mod base_nat base" using digit_value_digits[OF "1.prems"] n by simp
    moreover have "text_value (base_nat base) (rev (number_digits ds q base)) = unat num div base_nat base"
      using "1.IH"[OF False s[symmetric] refl "1.prems"] n by simp
    ultimately show ?thesis using False s by (subst number_digits.simps) simp
  qed (simp add: number_digits.simps)
qed

lemma number_digits_length: "unat num < base_nat base ^ k \<Longrightarrow> length (number_digits ds num base) \<le> k"
proof (induction ds num base arbitrary: k rule: number_digits.induct)
  case (1 ds num base)
  obtain d q where s: "divide_step num base = (d, q)" by fastforce
  show ?case
  proof (cases "num = 0")
    case False
    then obtain j where k: "k = Suc j" using 1(2) by (cases k) (auto simp: unat_eq_zero)
    have "unat q < base_nat base ^ j" using 1(2) divide_step_nat[OF s] k by (simp add: base_nat_def less_mult_imp_div_less mult.commute)
    then have "length (number_digits ds q base) \<le> j" by (rule 1(1)[OF False s[symmetric] refl])
    then show ?thesis using False s k by (subst number_digits.simps) simp
  qed (simp add: number_digits.simps)
qed

text \<open>At most ten digits, so the 16 bytes of \<^verbatim>\<open>tmp\<close> are enough.\<close>

lemma number_tmp_length: "length (number_tmp num base typ) \<le> 10"
proof -
  have "unat w < base_nat base ^ 10" for w :: rt_uint32_t
    using unsigned_less[of w, where ?'a = nat] by (simp add: base_nat_def)
  then show ?thesis using number_digits_length[where k = 10] by (simp add: number_tmp_def Let_def)
qed

lemma digit_value_zero: "digit_value 0x30 = 0"
  by code_simp

lemma number_tmp_value:
  "text_value (base_nat base) (rev (number_tmp num base typ)) = (if typ AND SIGN \<noteq> 0 \<and> sint num < 0 then unat (- num) else unat num)"
  using number_digits_value[of "if typ AND LARGE \<noteq> 0 then large_digits else small_digits" base]
  by (auto simp: number_tmp_def Let_def text_value_def digit_value_zero)

lemma abs_sint:
  fixes w :: rt_uint32_t
  shows "sint w < 0 \<Longrightarrow> int (unat (- w)) = - sint w" "\<not> sint w < 0 \<Longrightarrow> int (unat w) = sint w"
proof -
  have m: "int (unat (word_of_int k :: rt_uint32_t)) = k mod 2 ^ 32" for k
    by (simp only: uint_word_of_int flip: uint_nat) simp
  have "- (2 ^ 31) \<le> sint w" "sint w < 2 ^ 31" using sint_ge[of w] sint_less[of w] by simp_all
  then show "sint w < 0 \<Longrightarrow> int (unat (- w)) = - sint w" "\<not> sint w < 0 \<Longrightarrow> int (unat w) = sint w"
    using m[of "- sint w"] m[of "sint w"] by simp_all
qed

lemma vsnprintf_buffer:
  assumes "format_text fmt args = Some cs" "0 < sz" "buf + sz \<le> 2 ^ 32"
  shows "\<exists>n m'. rt_vsnprintf buf sz fmt args m = Some (n, m')
    \<and> (\<forall>a. m' a = (if a < buf \<or> buf + sz \<le> a then m a
         else if a - buf < min (length cs) (sz - 1) then cs ! (a - buf)
         else if a - buf = min (length cs) (sz - 1) then 0 else m a))
    \<and> length cs \<le> n \<and> (length cs \<le> sz \<longrightarrow> n = length cs)"
proof -
  let ?e = "buf + sz - 1"
  obtain q where q: "vsnprintf_loop ?e fmt args (buf, m) = Some q" "writes ?e (buf, m) cs q"
    using vsnprintf_loop_writes[where fmt = fmt and args = args and e = ?e and p = "(buf, m)"] assms(1) by auto
  have e: "sub32 (add32 buf sz) 1 = ?e" using buffer_end assms(2,3) by blast
  have ne: "\<not> ?e < buf" using assms(2) by simp
  define m' where "m' = (if fst q \<le> ?e then (snd q)(fst q := 0) else (snd q)(?e := 0))"
  have "rt_vsnprintf buf sz fmt args m = Some (fst q - buf, m')"
    unfolding rt_vsnprintf_def e Let_def m'_def using ne q(1) by (cases q) simp
  moreover have "m' a = (if a < buf \<or> buf + sz \<le> a then m a
         else if a - buf < min (length cs) (sz - 1) then cs ! (a - buf)
         else if a - buf = min (length cs) (sz - 1) then 0 else m a)" for a
  proof (cases "length cs < sz")
    case True
    then have "buf + length cs \<le> ?e" by simp
    then have "m' = (snd (emit ?e cs (buf, m)))(buf + length cs := 0)" using q(2) by (simp add: m'_def writes_def)
    then show ?thesis using True by (auto simp: snd_emit)
  next
    case False
    then have "\<not> fst q \<le> ?e" using q(2) assms(2) by (auto simp: writes_def)
    then have "m' = (snd (emit ?e cs (buf, m)))(?e := 0)" using q(2) by (simp add: m'_def writes_def)
    then show ?thesis using False assms(2) by (auto simp: snd_emit)
  qed
  ultimately show ?thesis using q(2) assms(2) by (auto simp: writes_def)
qed


text \<open>Reading a number back: an optional minus sign and decimal digits.\<close>

definition read_decimal :: "8 word list \<Rightarrow> int" where
  "read_decimal cs = (if take 1 cs = [0x2d] then - int (text_value 10 (drop 1 cs)) else int (text_value 10 cs))"

lemma directive_d: "parse_directive [0x64, 0] args = Some (\<lparr>sp_flags = 0, sp_width = - 1, sp_precision = - 1, sp_qualifier = 0, sp_conv = 0x64\<rparr>, [0], args)"
  "parse_directive [0x78, 0] args = Some (\<lparr>sp_flags = 0, sp_width = - 1, sp_precision = - 1, sp_qualifier = 0, sp_conv = 0x78\<rparr>, [0], args)"
  "parse_directive [0x6f, 0] args = Some (\<lparr>sp_flags = 0, sp_width = - 1, sp_precision = - 1, sp_qualifier = 0, sp_conv = 0x6f\<rparr>, [0], args)"
  by (simp_all add: parse_directive_def parse_width_def parse_precision_def parse_qualifier_def parse_count_def isdigit_def)

lemma format_d: "format_text [0x25, 0x64, 0] [Int_arg w] = Some (sign_text w 2 @ rev (number_tmp w 10 2))"
  by (simp add: loop_eqs directive_d directive_text_def integer_conv_def number_text_def Let_def)

lemma format_x: "format_text [0x25, 0x78, 0] [Int_arg w] = Some (rev (number_tmp w 16 0))"
  by (simp add: loop_eqs directive_d directive_text_def integer_conv_def number_text_def sign_text_def number_sign_def Let_def)

lemma format_o: "format_text [0x25, 0x6f, 0] [Int_arg w] = Some (rev (number_tmp w 8 0))"
  by (simp add: loop_eqs directive_d directive_text_def integer_conv_def number_text_def sign_text_def number_sign_def Let_def)

lemma number_digits_set: "length ds = 16 \<Longrightarrow> set (number_digits ds num base) \<subseteq> set ds"
proof (induction ds num base rule: number_digits.induct)
  case (1 ds num base)
  obtain d q where s: "divide_step num base = (d, q)" by fastforce
  show ?case
  proof (cases "num = 0")
    case False
    have "unat d < 16" using divide_step_nat[OF s] by (simp add: base_nat_def split: if_splits)
    then show ?thesis using 1(1)[OF False s[symmetric] refl 1(2)] 1(2) False s by (subst number_digits.simps) simp
  qed (simp add: number_digits.simps)
qed

lemma minus_no_digit: "0x2d \<notin> set (number_tmp num base typ)"
proof -
  have "(0x2d :: 8 word) \<notin> set small_digits" "(0x2d :: 8 word) \<notin> set large_digits" "length small_digits = 16" "length large_digits = 16"
    by (simp_all add: small_digits_def large_digits_def)
  then have "0x2d \<notin> set (number_digits small_digits n base)" "0x2d \<notin> set (number_digits large_digits n base)" for n
    using number_digits_set[of small_digits n base] number_digits_set[of large_digits n base] by blast+
  then show ?thesis by (simp add: number_tmp_def Let_def)
qed

lemma read_decimal_d: "read_decimal (sign_text w 2 @ rev (number_tmp w 10 2)) = sint w"
proof (cases "sint w < 0")
  case True
  then have "sign_text w 2 = [0x2d]" by (simp add: sign_text_def number_sign_def)
  then show ?thesis using True abs_sint(1)[OF True] number_tmp_value[of 10 w 2] by (simp add: read_decimal_def base_nat_def)
next
  case False
  then have "sign_text w 2 = []" by (simp add: sign_text_def number_sign_def)
  moreover have "take 1 (rev (number_tmp w 10 2)) \<noteq> [0x2d]"
    using minus_no_digit[of w 10 2] set_take_subset[of 1 "rev (number_tmp w 10 2)"] by auto
  moreover have "int (unat w) = sint w" using abs_sint(2) False by simp
  ultimately show ?thesis using False number_tmp_value[of 10 w 2] by (simp add: read_decimal_def base_nat_def)
qed

lemma snprintf_fits:
  assumes "format_text fmt args = Some cs" "length cs < sz" "buf + sz \<le> 2 ^ 32"
  shows "\<exists>m'. rt_snprintf buf sz fmt args m = Some (length cs, m') \<and> map m' [buf..<buf + length cs] = cs \<and> m' (buf + length cs) = 0"
proof -
  obtain n m' where v: "rt_vsnprintf buf sz fmt args m = Some (n, m')" "n = length cs"
    and b: "\<And>a. m' a = (if a < buf \<or> buf + sz \<le> a then m a else if a - buf < min (length cs) (sz - 1) then cs ! (a - buf)
         else if a - buf = min (length cs) (sz - 1) then 0 else m a)"
    using vsnprintf_buffer[OF assms(1) _ assms(3), of m] assms(2) by auto
  have "map m' [buf..<buf + length cs] = cs" using assms(2) by (intro nth_equalityI) (simp_all add: b)
  moreover have "m' (buf + length cs) = 0" using assms(2) by (simp add: b)
  ultimately show ?thesis using v by (simp add: rt_snprintf_def)
qed

subsection \<open>Properties\<close>

text \<open>What \<^verbatim>\<open>rt_snprintf\<close> prints with \<^verbatim>\<open>%d\<close> into a buffer of at least 12 bytes reads back as the signed number,
  and what it prints with \<^verbatim>\<open>%x\<close> as the unsigned number in base 16; both are terminated, also for the
  smallest number.\<close>

theorem printed_numbers_read_back:
  assumes "12 \<le> sz" "buf + sz \<le> 2 ^ 32"
  shows "(\<exists>n m'. rt_snprintf buf sz [0x25, 0x64, 0] [Int_arg w] m = Some (n, m') \<and> m' (buf + n) = 0
      \<and> read_decimal (map m' [buf..<buf + n]) = sint w)
    \<and> (\<exists>n m'. rt_snprintf buf sz [0x25, 0x78, 0] [Int_arg w] m = Some (n, m') \<and> m' (buf + n) = 0
      \<and> text_value 16 (map m' [buf..<buf + n]) = unat w)"
proof -
  have "length (sign_text w 2 @ rev (number_tmp w 10 2)) < sz" "length (rev (number_tmp w 16 0)) < sz"
    using number_tmp_length[of w 10 2] number_tmp_length[of w 16 0] assms(1) by (simp_all add: sign_text_def)
  moreover have "text_value 16 (rev (number_tmp w 16 0)) = unat w" using number_tmp_value[of 16 w 0] by (simp add: base_nat_def)
  ultimately show ?thesis
    using snprintf_fits[OF format_d _ assms(2), of w m] snprintf_fits[OF format_x _ assms(2), of w m] read_decimal_d[of w] by metis
qed

text \<open>A buffer size of 0 is taken for no limit: \<^verbatim>\<open>rt_snprintf\<close> writes the whole text and a zero at the address it
  was given, where a caller that has no buffer expects nothing to be written.\<close>

theorem size_zero_is_no_limit:
  assumes "format_text fmt args = Some cs" "0 < buf" "buf + length cs < 2 ^ 32"
  shows "\<exists>m'. rt_snprintf buf 0 fmt args m = Some (length cs, m') \<and> map m' [buf..<buf + length cs] = cs \<and> m' (buf + length cs) = 0"
proof -
  let ?e = "2 ^ 32 - 1 :: nat"
  obtain q where q: "vsnprintf_loop ?e fmt args (buf, m) = Some q" "writes ?e (buf, m) cs q"
    using vsnprintf_loop_writes[where fmt = fmt and args = args and e = ?e and p = "(buf, m)"] assms(1) by auto
  have f: "fst q = buf + length cs" "snd q = snd (emit ?e cs (buf, m))" using q(2) assms(3) by (auto simp: writes_def)
  have e: "sub32 (add32 buf 0) 1 = buf - 1" using assms(2,3) sub32_small[of 1 buf] by (simp add: add32_small)
  have "rt_snprintf buf 0 fmt args m = Some (length cs, (snd q)(buf + length cs := 0))"
    unfolding rt_snprintf_def rt_vsnprintf_def Let_def e using q(1) f(1) assms(2,3) by (cases q) simp
  moreover have "map ((snd q)(buf + length cs := 0)) [buf..<buf + length cs] = cs"
    using assms(3) by (intro nth_equalityI) (simp_all add: f(2) snd_emit)
  ultimately show ?thesis by simp
qed

text \<open>The octal conversion prints in base 16.\<close>

lemma octal_prints_hex: "format_text [0x25, 0x6f, 0] [Int_arg w] = format_text [0x25, 0x78, 0] [Int_arg w]"
proof -
  have "number_digits ds n 8 = number_digits ds n 16" for ds n
  proof (induction ds n "16 :: rt_uint32_t" rule: number_digits.induct)
    case (1 ds num)
    have "divide_step num 8 = divide_step num 16" by (simp add: divide_step_def)
    then show ?case using 1 by (subst (1 2) number_digits.simps) (auto split: prod.splits)
  qed
  then have "number_tmp w 8 0 = number_tmp w 16 0" by (simp add: number_tmp_def Let_def)
  then show ?thesis by (simp only: format_o format_x)
qed

subsection \<open>Witnesses\<close>

theorem printed_numbers_read_back_witness:
  "\<exists>n m'. rt_snprintf 100 12 [0x25, 0x64, 0] [Int_arg 0x80000000] (\<lambda>_. 7) = Some (n, m') \<and> read_decimal (map m' [100..<100 + n]) = - 2147483648"
  using printed_numbers_read_back[of 12 100, where w = "0x80000000" and m = "\<lambda>_. 7"] by auto

theorem size_zero_is_no_limit_witness:
  "\<exists>m'. rt_snprintf 100 0 [0x61, 0] [] (\<lambda>_. 7) = Some (1, m') \<and> m' 100 = 0x61 \<and> m' 101 = 0"
proof -
  have f: "format_text [0x61, 0] [] = Some [0x61]" by (simp add: loop_eqs)
  show ?thesis using size_zero_is_no_limit[OF f, of 100 "\<lambda>_. 7"] by auto
qed

end
