(* ===== verification/PrintfSpec.thy ===== *)
theory PrintfSpec
  imports KPrintf
begin

text \<open>
  What the printf family is to print, said without the code: a format is a list of plain characters
  and directives, \<open>format_bytes\<close> writes it down as bytes, and \<open>printf_text\<close> is the text it describes, with
  numerals from the arithmetic of the natural numbers. \<open>format_text_eq\<close> shows that the code reads
  every such format back and describes the same text. It follows the C standard but for: a
  precision of 0 has no effect, zeros fill a field also when there is a precision, the flag \<^verbatim>\<open>#\<close> has no
  effect, and a null string is \<^verbatim>\<open>(NULL)\<close>. The conversion \<^verbatim>\<open>%o\<close> is no part of it, because the code prints it in base
  16 (\<open>octal_prints_hex\<close>), nor are characters without a meaning behind a percent sign.
\<close>

subsection \<open>Formats\<close>

datatype pflag = Left_flag | Plus_flag | Space_flag | Alt_flag | Zero_flag
datatype pcount = Lit nat | Star
datatype pqual = Short_qual | Long_qual
datatype pconv = Conv_c | Conv_s | Conv_p | Conv_d | Conv_i | Conv_u | Conv_x | Conv_X | Conv_percent

record directive =
  d_flags :: "pflag list"
  d_width :: "pcount option"
  d_prec :: "pcount option option"
  d_qual :: "pqual option"
  d_conv :: pconv

datatype piece = Plain "8 word" | Directive directive

fun flag_byte :: "pflag \<Rightarrow> 8 word" where
  "flag_byte Left_flag = 0x2d"
| "flag_byte Plus_flag = 0x2b"
| "flag_byte Space_flag = 0x20"
| "flag_byte Alt_flag = 0x23"
| "flag_byte Zero_flag = 0x30"

fun qual_byte :: "pqual \<Rightarrow> 8 word" where
  "qual_byte Short_qual = 0x68"
| "qual_byte Long_qual = 0x6c"

fun conv_byte :: "pconv \<Rightarrow> 8 word" where
  "conv_byte Conv_c = 0x63"
| "conv_byte Conv_s = 0x73"
| "conv_byte Conv_p = 0x70"
| "conv_byte Conv_d = 0x64"
| "conv_byte Conv_i = 0x69"
| "conv_byte Conv_u = 0x75"
| "conv_byte Conv_x = 0x78"
| "conv_byte Conv_X = 0x58"
| "conv_byte Conv_percent = 0x25"

text \<open>The numeral of a number, in capital letters or small ones.\<close>

definition digit_byte :: "bool \<Rightarrow> nat \<Rightarrow> 8 word" where
  "digit_byte capital d = word_of_nat (if d < 10 then 48 + d else if capital then 55 + d else 87 + d)"

function numeral_bytes :: "bool \<Rightarrow> nat \<Rightarrow> nat \<Rightarrow> 8 word list" where
  "numeral_bytes capital b n =
     (if b < 2 \<or> n < b then [digit_byte capital n] else numeral_bytes capital b (n div b) @ [digit_byte capital (n mod b)])"
  by pat_completeness auto
termination by (relation "measure (\<lambda>(c, b, n). n)") (auto intro: div_less_dividend)

declare numeral_bytes.simps [simp del]

fun count_bytes :: "pcount \<Rightarrow> 8 word list" where
  "count_bytes (Lit n) = numeral_bytes False 10 n"
| "count_bytes Star = [0x2a]"

definition width_bytes :: "pcount option \<Rightarrow> 8 word list" where
  "width_bytes w = (case w of None \<Rightarrow> [] | Some c \<Rightarrow> count_bytes c)"

definition prec_bytes :: "pcount option option \<Rightarrow> 8 word list" where
  "prec_bytes p = (case p of None \<Rightarrow> [] | Some c \<Rightarrow> 0x2e # width_bytes c)"

definition qual_bytes :: "pqual option \<Rightarrow> 8 word list" where
  "qual_bytes q = (case q of None \<Rightarrow> [] | Some q \<Rightarrow> [qual_byte q])"

definition directive_bytes :: "directive \<Rightarrow> 8 word list" where
  "directive_bytes d = map flag_byte (d_flags d) @ width_bytes (d_width d) @ prec_bytes (d_prec d) @ qual_bytes (d_qual d)
     @ [conv_byte (d_conv d)]"

fun piece_bytes :: "piece \<Rightarrow> 8 word list" where
  "piece_bytes (Plain c) = [c]"
| "piece_bytes (Directive d) = 0x25 # directive_bytes d"

definition format_bytes :: "piece list \<Rightarrow> 8 word list" where
  "format_bytes ps = concat (map piece_bytes ps) @ [0]"

text \<open>Numbers in a format are those of an \<^verbatim>\<open>int\<close>, and a width is not 0, which would be a flag.\<close>

definition wf_directive :: "directive \<Rightarrow> bool" where
  "wf_directive d \<longleftrightarrow> (\<forall>n. d_width d = Some (Lit n) \<longrightarrow> 0 < n \<and> n < 2 ^ 31) \<and> (\<forall>n. d_prec d = Some (Some (Lit n)) \<longrightarrow> n < 2 ^ 31)"

fun wf_piece :: "piece \<Rightarrow> bool" where
  "wf_piece (Plain c) \<longleftrightarrow> c \<noteq> 0 \<and> c \<noteq> 0x25"
| "wf_piece (Directive d) \<longleftrightarrow> wf_directive d"

subsection \<open>The text a format describes\<close>

text \<open>Arguments of the wrong kind, strings without a terminating zero, and a width of the smallest number
  have no meaning.\<close>

fun count_arg :: "pcount \<Rightarrow> va_arg list \<Rightarrow> (int \<times> va_arg list) option" where
  "count_arg (Lit n) args = Some (int n, args)"
| "count_arg Star (Int_arg w # args) = Some (sint w, args)"
| "count_arg Star _ = None"

definition width_arg :: "pcount option \<Rightarrow> va_arg list \<Rightarrow> (int option \<times> va_arg list) option" where
  "width_arg w args = (case w of None \<Rightarrow> Some (None, args)
     | Some c \<Rightarrow> do { (v, args) \<leftarrow> count_arg c args; if v = - (2 ^ 31) then None else Some (Some v, args) })"

definition prec_arg :: "pcount option option \<Rightarrow> va_arg list \<Rightarrow> (nat \<times> va_arg list) option" where
  "prec_arg p args = (case p of Some (Some c) \<Rightarrow> do { (v, args) \<leftarrow> count_arg c args; Some (nat v, args) } | _ \<Rightarrow> Some (0, args))"

definition text_field :: "bool \<Rightarrow> nat \<Rightarrow> 8 word list \<Rightarrow> 8 word list" where
  "text_field left w body = (let pad = replicate (w - length body) 0x20 in if left then body @ pad else pad @ body)"

definition number_field :: "bool \<Rightarrow> bool \<Rightarrow> nat \<Rightarrow> nat \<Rightarrow> 8 word list \<Rightarrow> 8 word list \<Rightarrow> 8 word list" where
  "number_field left zero w prec sign num =
     (let digits = replicate (prec - length num) 0x30 @ num;
          pad = w - length sign - length digits
      in if left then sign @ digits @ replicate pad 0x20
         else if zero then sign @ replicate pad 0x30 @ digits
         else replicate pad 0x20 @ sign @ digits)"

definition sign_of :: "pflag list \<Rightarrow> int \<Rightarrow> 8 word list" where
  "sign_of flags v = (if v < 0 then [0x2d] else if Plus_flag \<in> set flags then [0x2b] else if Space_flag \<in> set flags then [0x20] else [])"

definition signed_value :: "pqual option \<Rightarrow> rt_uint32_t \<Rightarrow> int" where
  "signed_value q w = (if q = Some Short_qual then sint (ucast w :: 16 word) else sint w)"

definition unsigned_value :: "pqual option \<Rightarrow> rt_uint32_t \<Rightarrow> nat" where
  "unsigned_value q w = (if q = Some Short_qual then unat w mod 2 ^ 16 else unat w)"

definition conv_text :: "directive \<Rightarrow> int option \<Rightarrow> nat \<Rightarrow> va_arg list \<Rightarrow> (va_arg list \<times> 8 word list) option" where
  "conv_text d width prec args =
     (let flags = d_flags d;
          left = (Left_flag \<in> set flags \<or> (case width of None \<Rightarrow> False | Some v \<Rightarrow> v < 0));
          w = (case width of None \<Rightarrow> 0 | Some v \<Rightarrow> nat \<bar>v\<bar>);
          number = number_field left (Zero_flag \<in> set flags) w prec
      in case (d_conv d, args) of
           (Conv_percent, _) \<Rightarrow> Some (args, [0x25])
         | (Conv_c, Int_arg c # args) \<Rightarrow> Some (args, text_field left w [ucast c])
         | (Conv_s, Str_arg None # args) \<Rightarrow>
             (let s = [0x28, 0x4e, 0x55, 0x4c, 0x4c, 0x29] in Some (args, text_field left w (if 0 < prec then take prec s else s)))
         | (Conv_s, Str_arg (Some s) # args) \<Rightarrow>
             (let c = takeWhile (\<lambda>b. b \<noteq> 0) s
              in if 0 \<in> set s then Some (args, text_field left w (if 0 < prec then take prec c else c)) else None)
         | (Conv_p, Int_arg a # args) \<Rightarrow>
             Some (args, if width = None then number_field left True 8 prec [] (numeral_bytes False 16 (unat a))
                         else number [] (numeral_bytes False 16 (unat a)))
         | (Conv_d, Int_arg a # args) \<Rightarrow>
             (let v = signed_value (d_qual d) a in Some (args, number (sign_of flags v) (numeral_bytes False 10 (nat \<bar>v\<bar>))))
         | (Conv_i, Int_arg a # args) \<Rightarrow>
             (let v = signed_value (d_qual d) a in Some (args, number (sign_of flags v) (numeral_bytes False 10 (nat \<bar>v\<bar>))))
         | (Conv_u, Int_arg a # args) \<Rightarrow> Some (args, number [] (numeral_bytes False 10 (unsigned_value (d_qual d) a)))
         | (Conv_x, Int_arg a # args) \<Rightarrow> Some (args, number [] (numeral_bytes False 16 (unsigned_value (d_qual d) a)))
         | (Conv_X, Int_arg a # args) \<Rightarrow> Some (args, number [] (numeral_bytes True 16 (unsigned_value (d_qual d) a)))
         | _ \<Rightarrow> None)"

definition meaning :: "directive \<Rightarrow> va_arg list \<Rightarrow> (va_arg list \<times> 8 word list) option" where
  "meaning d args =
     do { (width, args) \<leftarrow> width_arg (d_width d) args;
          (prec, args) \<leftarrow> prec_arg (d_prec d) args;
          conv_text d width prec args }"

fun printf_text :: "piece list \<Rightarrow> va_arg list \<Rightarrow> 8 word list option" where
  "printf_text [] args = Some []"
| "printf_text (Plain c # ps) args = map_option ((#) c) (printf_text ps args)"
| "printf_text (Directive d # ps) args = do { (args, cs) \<leftarrow> meaning d args; map_option ((@) cs) (printf_text ps args) }"


subsection \<open>The code reads a format back\<close>

abbreviation (input) flag_bit :: "pflag \<Rightarrow> rt_uint8_t" where
  "flag_bit x \<equiv> (case x of Left_flag \<Rightarrow> LEFT | Plus_flag \<Rightarrow> PLUS | Space_flag \<Rightarrow> SPACE | Alt_flag \<Rightarrow> SPECIAL | Zero_flag \<Rightarrow> ZEROPAD)"

definition flag_bits :: "pflag list \<Rightarrow> rt_uint8_t \<Rightarrow> rt_uint8_t" where
  "flag_bits fs f = fold (\<lambda>x f. f OR flag_bit x) fs f"

lemma flag_bits_Cons: "flag_bits (x # fs) f = flag_bits fs (f OR flag_bit x)"
  by (simp add: flag_bits_def)

lemma flag_bits_test:
  "flag_bits fs f AND LEFT \<noteq> 0 \<longleftrightarrow> f AND LEFT \<noteq> 0 \<or> Left_flag \<in> set fs"
  "flag_bits fs f AND PLUS \<noteq> 0 \<longleftrightarrow> f AND PLUS \<noteq> 0 \<or> Plus_flag \<in> set fs"
  "flag_bits fs f AND SPACE \<noteq> 0 \<longleftrightarrow> f AND SPACE \<noteq> 0 \<or> Space_flag \<in> set fs"
  "flag_bits fs f AND ZEROPAD \<noteq> 0 \<longleftrightarrow> f AND ZEROPAD \<noteq> 0 \<or> Zero_flag \<in> set fs"
  "flag_bits fs f AND SIGN = f AND SIGN" "flag_bits fs f AND LARGE = f AND LARGE"
proof (induction fs arbitrary: f)
  case (Cons x fs)
  case 1 show ?case using Cons(1)[of "f OR flag_bit x"] by (cases x) (simp_all add: flag_bits_Cons bit.conj_disj_distrib2)
  case 2 show ?case using Cons(2)[of "f OR flag_bit x"] by (cases x) (simp_all add: flag_bits_Cons bit.conj_disj_distrib2)
  case 3 show ?case using Cons(3)[of "f OR flag_bit x"] by (cases x) (simp_all add: flag_bits_Cons bit.conj_disj_distrib2)
  case 4 show ?case using Cons(4)[of "f OR flag_bit x"] by (cases x) (simp_all add: flag_bits_Cons bit.conj_disj_distrib2)
  case 5 show ?case using Cons(5)[of "f OR flag_bit x"] by (cases x) (simp_all add: flag_bits_Cons bit.conj_disj_distrib2)
  case 6 show ?case using Cons(6)[of "f OR flag_bit x"] by (cases x) (simp_all add: flag_bits_Cons bit.conj_disj_distrib2)
qed (simp_all add: flag_bits_def)

lemma parse_flags_eq:
  assumes "c \<notin> {0x2d, 0x2b, 0x20, 0x23, 0x30}"
  shows "parse_flags f (map flag_byte fs @ c # rest) = Some (flag_bits fs f, c # rest)"
proof (induction fs arbitrary: f)
  case (Cons x fs)
  then show ?case by (cases x) (simp_all add: flag_bits_def)
qed (use assms in \<open>simp add: flag_bits_def\<close>)

text \<open>Digits.\<close>

lemma digit_byte_facts:
  assumes "d < 10"
  shows "isdigit (digit_byte c d)" "unat (digit_byte c d - 0x30) = d" "0 < d \<Longrightarrow> digit_byte c d \<notin> {0x2d, 0x2b, 0x20, 0x23, 0x30, 0x2a, 0x2e}"
proof -
  have "d \<in> {0,1,2,3,4,5,6,7,8,9}" using assms by auto
  then show "isdigit (digit_byte c d)" "unat (digit_byte c d - 0x30) = d"
    "0 < d \<Longrightarrow> digit_byte c d \<notin> {0x2d, 0x2b, 0x20, 0x23, 0x30, 0x2a, 0x2e}"
    by (auto simp: isdigit_def digit_byte_def)
qed

lemma numeral_first:
  assumes "0 < n"
  shows "\<exists>d ds. numeral_bytes c 10 n = digit_byte c d # ds \<and> 0 < d \<and> d < 10"
  using assms
proof (induction c "10 :: nat" n rule: numeral_bytes.induct)
  case (1 c n)
  show ?case
  proof (cases "n < 10")
    case False
    then have "0 < n div 10" by (simp add: div_greater_zero_iff)
    then show ?thesis using 1(1) False by (auto simp: numeral_bytes.simps[of c 10 n])
  qed (use 1(2) in \<open>auto simp: numeral_bytes.simps[of c 10 n]\<close>)
qed

lemma skip_atoi_numeral:
  assumes "n < 2 ^ 31"
  shows "skip_atoi 0 (numeral_bytes c 10 n @ rest) = skip_atoi n rest"
  using assms
proof (induction c "10 :: nat" n arbitrary: rest rule: numeral_bytes.induct)
  case (1 c n)
  have d: "n mod 10 < 10" by simp
  note D = digit_byte_facts(1,2)[OF d]
  show ?case
  proof (cases "n < 10")
    case True
    then show ?thesis using D[of c] by (simp add: numeral_bytes.simps[of c 10 n])
  next
    case False
    have "n div 10 * 10 + n mod 10 = n" by simp
    then show ?thesis using False 1 D[of c] by (simp add: numeral_bytes.simps[of c 10 n])
  qed
qed

lemma skip_atoi_stop: "\<not> isdigit c \<Longrightarrow> skip_atoi n (c # rest) = Some (n, c # rest)"
  by simp

lemma parse_count_eq:
  assumes "\<not> isdigit c" "c \<noteq> 0x2a" "\<And>n. w = Some (Lit n) \<Longrightarrow> n < 2 ^ 31"
  shows "parse_count (width_bytes w @ c # rest) args
    = (case w of None \<Rightarrow> Some (- 1, c # rest, args) | Some k \<Rightarrow> map_option (\<lambda>(v, args). (v, c # rest, args)) (count_arg k args))"
proof (cases w)
  case None
  then show ?thesis using assms(1,2) by (simp add: width_bytes_def parse_count_def)
next
  case (Some k)
  show ?thesis
  proof (cases k)
    case (Lit n)
    obtain d ds where n: "numeral_bytes False 10 n = digit_byte False d # ds" "d < 10"
    proof (cases "n = 0")
      case True
      then show ?thesis by (intro that[of 0 "[]"]) (simp_all add: numeral_bytes.simps)
    qed (use numeral_first[of n False] that in auto)
    have "skip_atoi 0 (numeral_bytes False 10 n @ c # rest) = Some (n, c # rest)"
      using skip_atoi_numeral[of n False "c # rest"] skip_atoi_stop[OF assms(1), of n rest] assms(3) Some Lit by simp
    then show ?thesis using Some Lit n digit_byte_facts(1)[OF n(2), of False]
      by (simp add: width_bytes_def parse_count_def del: skip_atoi.simps)
  next
    case Star
    have s: "\<not> isdigit 0x2a" by (simp add: isdigit_def)
    show ?thesis
    proof (cases args)
      case (Cons a as)
      then show ?thesis using Some Star s by (cases a) (simp_all add: width_bytes_def parse_count_def)
    qed (use Some Star s in \<open>simp add: width_bytes_def parse_count_def\<close>)
  qed
qed

text \<open>What comes behind a part of a directive starts with one of these.\<close>

abbreviation (input) conv_bytes :: "8 word set" where
  "conv_bytes \<equiv> {0x63, 0x73, 0x70, 0x64, 0x69, 0x75, 0x78, 0x58, 0x25}"

lemma conv_byte_in: "conv_byte c \<in> conv_bytes" by (cases c) simp_all

lemma behind_qualifier: "\<exists>b bs. qual_bytes q @ conv_byte c # rest = b # bs \<and> b \<in> conv_bytes \<union> {0x68, 0x6c}"
proof (cases q)
  case None
  then show ?thesis using conv_byte_in[of c] by (auto simp: qual_bytes_def)
next
  case (Some x)
  then show ?thesis by (cases x) (simp_all add: qual_bytes_def)
qed

lemma behind_precision:
  "\<exists>b bs. prec_bytes p @ qual_bytes q @ conv_byte c # rest = b # bs \<and> b \<in> conv_bytes \<union> {0x68, 0x6c, 0x2e}"
  using behind_qualifier[of q c rest] by (cases p) (auto simp: prec_bytes_def)

lemma not_digits: "b \<in> conv_bytes \<union> {0x68, 0x6c, 0x2e} \<Longrightarrow> \<not> isdigit b \<and> b \<noteq> 0x2a \<and> b \<notin> {0x2d, 0x2b, 0x20, 0x23, 0x30}"
  by (auto simp: isdigit_def)

lemma behind_width:
  assumes "\<And>n. w = Some (Lit n) \<Longrightarrow> 0 < n"
  shows "\<exists>b bs. width_bytes w @ prec_bytes p @ qual_bytes q @ conv_byte c # rest = b # bs \<and> b \<notin> {0x2d, 0x2b, 0x20, 0x23, 0x30}"
proof (cases w)
  case None
  then show ?thesis using behind_precision[of p q c rest] not_digits by (fastforce simp: width_bytes_def)
next
  case (Some k)
  show ?thesis
  proof (cases k)
    case (Lit n)
    then obtain d ds where "numeral_bytes False 10 n = digit_byte False d # ds" "0 < d" "d < 10"
      using numeral_first assms Some by blast
    then show ?thesis using digit_byte_facts(3)[of d False] Some Lit by (simp add: width_bytes_def)
  qed (simp add: Some width_bytes_def)
qed


abbreviation (input) width_int :: "int option \<Rightarrow> int" where
  "width_int v \<equiv> (case v of None \<Rightarrow> - 1 | Some v \<Rightarrow> \<bar>v\<bar>)"

abbreviation (input) width_left :: "int option \<Rightarrow> bool" where
  "width_left v \<equiv> (case v of None \<Rightarrow> False | Some v \<Rightarrow> v < 0)"

lemma parse_width_eq:
  assumes "\<not> isdigit c" "c \<noteq> 0x2a" "\<And>n. w = Some (Lit n) \<Longrightarrow> 0 < n \<and> n < 2 ^ 31"
  shows "parse_width f (width_bytes w @ c # rest) args
    = do { (v, args) \<leftarrow> width_arg w args; Some (width_int v, if width_left v then f OR LEFT else f, c # rest, args) }"
proof -
  have p: "parse_count (width_bytes w @ c # rest) args
      = (case w of None \<Rightarrow> Some (- 1, c # rest, args) | Some k \<Rightarrow> map_option (\<lambda>(v, args). (v, c # rest, args)) (count_arg k args))"
    using parse_count_eq[OF assms(1,2)] assms(3) by blast
  show ?thesis
  proof (cases w)
    case None
    then show ?thesis using p assms(2) by (simp add: parse_width_def width_arg_def width_bytes_def)
  next
    case (Some k)
    show ?thesis
    proof (cases k)
      case (Lit n)
      obtain d ds where "numeral_bytes False 10 n = digit_byte False d # ds" "0 < d" "d < 10"
        using numeral_first[of n False] assms(3) Some Lit by auto
      then show ?thesis using p digit_byte_facts(3)[of d False] Some Lit by (simp add: parse_width_def width_arg_def width_bytes_def)
    next
      case Star
      show ?thesis
      proof (cases "count_arg Star args")
        case None
        then show ?thesis using p Some Star by (simp add: parse_width_def width_arg_def)
      next
        case v: (Some x)
        then show ?thesis using p Some Star by (cases x) (simp add: parse_width_def width_arg_def width_bytes_def)
      qed
    qed
  qed
qed

lemma parse_precision_eq:
  assumes "\<not> isdigit c" "c \<noteq> 0x2a" "c \<noteq> 0x2e" "\<And>n. p = Some (Some (Lit n)) \<Longrightarrow> n < 2 ^ 31"
  shows "case prec_arg p args of None \<Rightarrow> parse_precision (prec_bytes p @ c # rest) args = None
    | Some (n, args') \<Rightarrow> \<exists>m. parse_precision (prec_bytes p @ c # rest) args = Some (m, c # rest, args') \<and> nat m = n"
proof (cases p)
  case None
  then show ?thesis using assms(3) by (simp add: parse_precision_def prec_arg_def prec_bytes_def)
next
  case (Some w)
  have q: "parse_count (width_bytes w @ c # rest) args
      = (case w of None \<Rightarrow> Some (- 1, c # rest, args) | Some k \<Rightarrow> map_option (\<lambda>(v, args). (v, c # rest, args)) (count_arg k args))"
    using parse_count_eq[OF assms(1,2)] assms(4) Some by blast
  show ?thesis
  proof (cases w)
    case None
    then show ?thesis using q Some by (simp add: parse_precision_def prec_arg_def prec_bytes_def)
  next
    case k: (Some k)
    then show ?thesis using q Some
      by (cases "count_arg k args") (auto simp: parse_precision_def prec_arg_def prec_bytes_def)
  qed
qed

lemma parse_qualifier_eq:
  "parse_qualifier (qual_bytes q @ conv_byte c # rest) = Some (case q of None \<Rightarrow> 0 | Some q \<Rightarrow> qual_byte q, conv_byte c # rest)"
proof (cases q)
  case None
  then show ?thesis by (cases c) (simp_all add: parse_qualifier_def qual_bytes_def)
next
  case (Some x)
  then show ?thesis by (cases x) (simp_all add: parse_qualifier_def qual_bytes_def)
qed

definition spec_of :: "directive \<Rightarrow> int option \<Rightarrow> int \<Rightarrow> fmt_spec" where
  "spec_of d v m = \<lparr>sp_flags = (if width_left v then flag_bits (d_flags d) 0 OR LEFT else flag_bits (d_flags d) 0), sp_width = width_int v,
     sp_precision = m, sp_qualifier = (case d_qual d of None \<Rightarrow> 0 | Some q \<Rightarrow> qual_byte q), sp_conv = conv_byte (d_conv d)\<rparr>"

lemma parse_directive_eq:
  assumes "wf_directive d"
  shows "case do { (v, args) \<leftarrow> width_arg (d_width d) args; (n, args) \<leftarrow> prec_arg (d_prec d) args; Some (v, n, args) } of
      None \<Rightarrow> parse_directive (directive_bytes d @ rest) args = None
    | Some (v, n, args') \<Rightarrow> \<exists>m. parse_directive (directive_bytes d @ rest) args = Some (spec_of d v m, rest, args') \<and> nat m = n"
proof -
  let ?t4 = "conv_byte (d_conv d) # rest"
  let ?t3 = "qual_bytes (d_qual d) @ ?t4" and ?t2 = "prec_bytes (d_prec d) @ qual_bytes (d_qual d) @ ?t4"
  have wf: "\<And>n. d_width d = Some (Lit n) \<Longrightarrow> 0 < n \<and> n < 2 ^ 31" "\<And>n. d_prec d = Some (Some (Lit n)) \<Longrightarrow> n < 2 ^ 31"
    using assms by (auto simp: wf_directive_def)
  obtain b1 r1 where b1: "width_bytes (d_width d) @ ?t2 = b1 # r1" "b1 \<notin> {0x2d, 0x2b, 0x20, 0x23, 0x30}"
    using behind_width[of "d_width d" "d_prec d" "d_qual d" "d_conv d" rest] wf(1) by blast
  have flags: "parse_flags 0 (directive_bytes d @ rest) = Some (flag_bits (d_flags d) 0, width_bytes (d_width d) @ ?t2)"
    using parse_flags_eq[OF b1(2), of 0 "d_flags d" r1] b1(1) by (simp add: directive_bytes_def)
  obtain b2 r2 where b2: "?t2 = b2 # r2" "\<not> isdigit b2" "b2 \<noteq> 0x2a"
    using behind_precision[of "d_prec d" "d_qual d" "d_conv d" rest] not_digits by blast
  have width: "parse_width f (width_bytes (d_width d) @ ?t2) args
      = do { (v, args) \<leftarrow> width_arg (d_width d) args; Some (width_int v, if width_left v then f OR LEFT else f, ?t2, args) }" for f
    unfolding b2(1) using b2(2,3) wf(1) by (rule parse_width_eq)
  obtain b3 r3 where b3: "?t3 = b3 # r3" "\<not> isdigit b3" "b3 \<noteq> 0x2a" "b3 \<noteq> 0x2e"
    using behind_qualifier[of "d_qual d" "d_conv d" rest] not_digits by fastforce
  have prec: "case prec_arg (d_prec d) args of None \<Rightarrow> parse_precision ?t2 args = None
      | Some (n, args') \<Rightarrow> \<exists>m. parse_precision ?t2 args = Some (m, ?t3, args') \<and> nat m = n" for args
    unfolding b3(1) using b3(2-4) wf(2) by (rule parse_precision_eq)
  have conv: "conv_byte (d_conv d) \<noteq> 0" using conv_byte_in[of "d_conv d"] by auto
  show ?thesis
  proof (cases "width_arg (d_width d) args")
    case None
    then show ?thesis by (simp add: parse_directive_def flags width)
  next
    case (Some x)
    obtain v args1 where x: "x = (v, args1)" by (cases x)
    then show ?thesis using prec[of args1] conv Some
      by (cases "prec_arg (d_prec d) args1") (auto simp: parse_directive_def flags width parse_qualifier_eq spec_of_def)
  qed
qed


subsection \<open>The code describes the text\<close>

lemma digit_tables:
  assumes "d < 16"
  shows "(if capital then large_digits else small_digits) ! d = digit_byte capital d"
proof -
  have "list_all (\<lambda>d. small_digits ! d = digit_byte False d \<and> large_digits ! d = digit_byte True d) [0..<16]" by code_simp
  then show ?thesis using assms by (simp add: list_all_iff)
qed

lemma rev_number_digits:
  assumes "num \<noteq> 0"
  shows "rev (number_digits (if capital then large_digits else small_digits) num base) = numeral_bytes capital (base_nat base) (unat num)"
  using assms
proof (induction "if capital then large_digits else small_digits" num base rule: number_digits.induct)
  case (1 num base)
  obtain d q where s: "divide_step num base = (d, q)" by fastforce
  note n = divide_step_nat[OF s]
  have b: "base_nat base \<in> {10, 16}" by (simp add: base_nat_def)
  have dig: "(if capital then large_digits else small_digits) ! unat d = digit_byte capital (unat num mod base_nat base)"
    using digit_tables[of "unat d" capital] n b by auto
  show ?case
  proof (cases "q = 0")
    case True
    then have "unat num < base_nat base" using n b by (auto simp: div_eq_0_iff)
    then show ?thesis using s 1(2) dig True by (subst number_digits.simps) (simp add: numeral_bytes.simps[of _ _ "unat num"] number_digits.simps[of _ 0])
  next
    case False
    then have "unat q \<noteq> 0" by (simp add: unat_eq_zero)
    then have "0 < unat num div base_nat base" using n by simp
    then have "\<not> unat num < base_nat base" by auto
    then show ?thesis using s 1(2) 1(1)[OF 1(2) s[symmetric] refl False] dig n b
      by (subst number_digits.simps) (auto simp: numeral_bytes.simps[of _ _ "unat num"])
  qed
qed

lemma rev_number_tmp:
  "rev (number_tmp num base typ) = numeral_bytes (typ AND LARGE \<noteq> 0) (base_nat base)
     (unat (if typ AND SIGN \<noteq> 0 \<and> sint num < 0 then - num else num))"
proof -
  have "rev (if x = 0 then [0x30] else number_digits (if c then large_digits else small_digits) x base) = numeral_bytes c (base_nat base) (unat x)" for x c
    using rev_number_digits[of x c base] by (cases "x = 0") (simp_all add: numeral_bytes.simps[of _ _ 0] digit_byte_def base_nat_def)
  then show ?thesis unfolding number_tmp_def Let_def by simp
qed

lemma number_text_eq:
  "number_text num base w n typ = number_field (typ AND LEFT \<noteq> 0) (typ AND ZEROPAD \<noteq> 0) (nat w) (nat n) (sign_text num typ)
     (numeral_bytes (typ AND LARGE \<noteq> 0) (base_nat base) (unat (if typ AND SIGN \<noteq> 0 \<and> sint num < 0 then - num else num)))"
  unfolding number_text_def number_field_def Let_def rev_number_tmp[symmetric] by simp

lemma short_values:
  fixes a :: rt_uint32_t
  shows "sint (scast (ucast a :: 16 word) :: rt_uint32_t) = sint (ucast a :: 16 word)"
    "unat (ucast (ucast a :: 16 word) :: rt_uint32_t) = unat a mod 2 ^ 16"
proof -
  show "sint (scast (ucast a :: 16 word) :: rt_uint32_t) = sint (ucast a :: 16 word)" by (rule sint_up_scast) (simp add: is_up)
  show "unat (ucast (ucast a :: 16 word) :: rt_uint32_t) = unat a mod 2 ^ 16"
    by (simp add: unsigned_ucast_eq take_bit_eq_mod unat_mod)
qed

text \<open>The flags of a directive in the code, with those the conversion adds.\<close>

lemma spec_flags:
  fixes d :: directive and v :: "int option" and m :: int
  defines "f \<equiv> sp_flags (spec_of d v m)"
  shows "f AND LEFT \<noteq> 0 \<longleftrightarrow> Left_flag \<in> set (d_flags d) \<or> width_left v"
    "f AND ZEROPAD \<noteq> 0 \<longleftrightarrow> Zero_flag \<in> set (d_flags d)" "f AND PLUS \<noteq> 0 \<longleftrightarrow> Plus_flag \<in> set (d_flags d)"
    "f AND SPACE \<noteq> 0 \<longleftrightarrow> Space_flag \<in> set (d_flags d)" "f AND SIGN = 0" "f AND LARGE = 0"
  using flag_bits_test[of "d_flags d" 0] by (simp_all add: f_def spec_of_def bit.conj_disj_distrib2)

lemma sign_text_of:
  "sign_text num (sp_flags (spec_of d v m) OR SIGN) = sign_of (d_flags d) (sint num)"
  "sign_text num (sp_flags (spec_of d v m) OR LARGE) = []" "sign_text num (sp_flags (spec_of d v m) OR ZEROPAD) = []"
  "sign_text num (sp_flags (spec_of d v m)) = []"
  using spec_flags(3-5)[of d v m] by (simp_all add: sign_text_def number_sign_def sign_of_def bit.conj_disj_distrib2)

lemma abs_numeral: "unat (if sint num < 0 then - num else num) = nat \<bar>sint num\<bar>" for num :: rt_uint32_t
proof -
  have "int (unat (if sint num < 0 then - num else num)) = \<bar>sint num\<bar>" using abs_sint[of num] by auto
  then show ?thesis by linarith
qed

lemma number_text_of:
  fixes d :: directive and v :: "int option" and m :: int
  defines "f \<equiv> sp_flags (spec_of d v m)"
  defines "fld \<equiv> number_field (Left_flag \<in> set (d_flags d) \<or> width_left v)"
  shows "number_text num 10 w n (f OR SIGN) = fld (Zero_flag \<in> set (d_flags d)) (nat w) (nat n) (sign_of (d_flags d) (sint num)) (numeral_bytes False 10 (nat \<bar>sint num\<bar>))"
    "number_text num 16 w n (f OR LARGE) = fld (Zero_flag \<in> set (d_flags d)) (nat w) (nat n) [] (numeral_bytes True 16 (unat num))"
    "number_text num 16 w n (f OR ZEROPAD) = fld True (nat w) (nat n) [] (numeral_bytes False 16 (unat num))"
    "number_text num 16 w n f = fld (Zero_flag \<in> set (d_flags d)) (nat w) (nat n) [] (numeral_bytes False 16 (unat num))"
    "number_text num 10 w n f = fld (Zero_flag \<in> set (d_flags d)) (nat w) (nat n) [] (numeral_bytes False 10 (unat num))"
  using spec_flags[of d v m, folded f_def] abs_numeral[of num]
  by (simp_all add: number_text_eq fld_def bit.conj_disj_distrib2 base_nat_def sign_text_of[of _ d v m, folded f_def])

lemma strlen_eq: "rt_strlen s = (if 0 \<in> set s then Some (length (takeWhile (\<lambda>b. b \<noteq> 0) s)) else None)"
  by (induction s) auto

lemma take_min_strlen: "take (min (length (takeWhile P s)) k) s = take k (takeWhile P s)" "take (length (takeWhile P s)) s = takeWhile P s"
  by (metis append_eq_conv_conj take_take takeWhile_dropWhile_id min.commute) (metis append_eq_conv_conj takeWhile_dropWhile_id)

lemma conv_text_eq: "directive_text (spec_of d v m) args = conv_text d v (nat m) args"
proof -
  let ?sp = "spec_of d v m"
  have w: "nat (width_int v) = (case v of None \<Rightarrow> 0 | Some v \<Rightarrow> nat \<bar>v\<bar>)" "width_int v = - 1 \<longleftrightarrow> v = None"
    by (auto split: option.split)
  have j: "justify (sp_flags ?sp AND LEFT \<noteq> 0) (width_int v) = text_field (Left_flag \<in> set (d_flags d) \<or> width_left v) (case v of None \<Rightarrow> 0 | Some v \<Rightarrow> nat \<bar>v\<bar>)"
    using spec_flags(1)[of d v m] by (simp add: fun_eq_iff justify_def text_field_def w(1))
  have f: "sp_width ?sp = width_int v" "sp_precision ?sp = m" "sp_conv ?sp = conv_byte (d_conv d)"
    by (simp_all add: spec_of_def)
  have q: "sp_qualifier ?sp = 0x68 \<longleftrightarrow> d_qual d = Some Short_qual"
  proof (cases "d_qual d")
    case (Some x)
    then show ?thesis by (cases x) (simp_all add: spec_of_def)
  qed (simp add: spec_of_def)
  have one: "args = [] \<or> (\<exists>a as. args = Int_arg a # as) \<or> (\<exists>as. args = Str_arg None # as) \<or> (\<exists>t as. args = Str_arg (Some t) # as)"
  proof (cases args)
    case (Cons a as)
    then show ?thesis by (cases a; cases "case a of Str_arg t \<Rightarrow> t | _ \<Rightarrow> None") auto
  qed simp
  have n: "0 \<in> set null_text" "takeWhile (\<lambda>b. b \<noteq> 0) null_text = [0x28, 0x4e, 0x55, 0x4c, 0x4c, 0x29]" by (simp_all add: null_text_def)
  note d = directive_text_def conv_text_def f q j integer_conv_def w(2)
  note N = number_text_of[of _ _ _ d v m] short_values
  show ?thesis
  proof (cases "d_conv d")
    case Conv_c
    then show ?thesis using one by (auto simp: d)
  next
    case Conv_s
    then show ?thesis using one by (auto simp: d n(1) strlen_eq take_min_strlen Let_def) (simp_all add: n(2))
  next
    case Conv_p
    have "number_text a 16 8 m (sp_flags (spec_of d None m) OR ZEROPAD)
        = number_field (Left_flag \<in> set (d_flags d)) True 8 (nat m) [] (numeral_bytes False 16 (unat a))" for a
      using number_text_of(3)[of a 8 m d None m] by simp
    then show ?thesis using Conv_p one by (auto simp: d N w(1) Let_def)
  next
    case Conv_d
    then show ?thesis using one by (auto simp: d N w(1) signed_value_def spec_flags Let_def bit.conj_disj_distrib2)
  next
    case Conv_i
    then show ?thesis using one by (auto simp: d N w(1) signed_value_def spec_flags Let_def bit.conj_disj_distrib2)
  next
    case Conv_u
    then show ?thesis using one by (auto simp: d N w(1) unsigned_value_def spec_flags Let_def)
  next
    case Conv_x
    then show ?thesis using one by (auto simp: d N w(1) unsigned_value_def spec_flags Let_def)
  next
    case Conv_X
    then show ?thesis using one by (auto simp: d N w(1) unsigned_value_def spec_flags Let_def bit.conj_disj_distrib2)
  next
    case Conv_percent
    then show ?thesis using one by (auto simp: d)
  qed
qed


lemma format_text_plain: "c \<noteq> 0 \<Longrightarrow> c \<noteq> 0x25 \<Longrightarrow> format_text (c # fmt) args = map_option ((#) c) (format_text fmt args)"
  "format_text [0] args = Some []"
  by (simp_all add: format_text.simps)

lemma format_text_percent:
  "format_text (0x25 # fmt) args = do { (sp, fmt, args) \<leftarrow> parse_directive fmt args; (args, cs) \<leftarrow> directive_text sp args;
     map_option ((@) cs) (format_text fmt args) }"
  by (subst format_text.simps) (simp split: bind_splits option.splits prod.splits)

lemma format_text_eq:
  assumes "\<forall>p \<in> set ps. wf_piece p"
  shows "format_text (format_bytes ps) args = printf_text ps args"
  using assms
proof (induction ps arbitrary: args)
  case Nil
  then show ?case by (simp add: format_bytes_def format_text_plain)
next
  case (Cons p ps)
  have IH: "format_text (format_bytes ps) args = printf_text ps args" for args using Cons by simp
  show ?case
  proof (cases p)
    case (Plain c)
    then show ?thesis using Cons.prems IH[of args] by (simp add: format_bytes_def format_text_plain)
  next
    case (Directive d)
    then have b: "format_bytes (p # ps) = 0x25 # directive_bytes d @ format_bytes ps" "wf_directive d"
      using Cons.prems by (simp_all add: format_bytes_def)
    note P = parse_directive_eq[OF b(2), of "format_bytes ps" args]
    show ?thesis
    proof (cases "do { (v, args) \<leftarrow> width_arg (d_width d) args; (n, args) \<leftarrow> prec_arg (d_prec d) args; Some (v, n, args) }")
      case None
      then have "meaning d args = None"
        by (cases "width_arg (d_width d) args") (auto simp: meaning_def bind_eq_None_conv split: prod.splits)
      then show ?thesis using P None by (simp add: Directive b(1)[unfolded Directive] format_text_percent)
    next
      case (Some x)
      obtain v n args1 where x: "x = (v, n, args1)" by (cases x) auto
      have m: "meaning d args = conv_text d v n args1" using Some x by (auto simp: meaning_def split: bind_splits)
      obtain k where "parse_directive (directive_bytes d @ format_bytes ps) args = Some (spec_of d v k, format_bytes ps, args1)" "nat k = n"
        using P Some x by auto
      then show ?thesis using m IH by (auto simp: Directive b(1)[unfolded Directive] format_text_percent conv_text_eq)
    qed
  qed
qed

subsection \<open>Properties\<close>

text \<open>C5: For every format of plain characters and the directives above (all flags in any order, width and
  precision as numbers or as arguments, \<^verbatim>\<open>h\<close> and \<^verbatim>\<open>l\<close>, the conversions \<^verbatim>\<open>c s p d i u x X %\<close>, but not \<^verbatim>\<open>%o\<close>, which prints in base 16), arguments that
  match it, and a buffer of positive size, \<^verbatim>\<open>rt_vsnprintf\<close> returns, and the buffer then holds the text that
  the format describes, cut off so that it and a terminating zero fit; nothing outside the buffer is
  written. The return value is the length of the text when that is at most the size, and at least
  that length otherwise. (A size of 0 is no limit at all, \<open>size_zero_is_no_limit\<close>.) The text is that of the C standard, but a
  precision of 0 has no effect, zeros fill a field also when there is a precision, the flag \<^verbatim>\<open>#\<close> has no
  effect, \<^verbatim>\<open>%p\<close> without a width fills to eight digits, and a null string is \<^verbatim>\<open>(NULL)\<close>.\<close>

theorem rt_vsnprintf_correct:
  assumes "\<forall>p \<in> set ps. wf_piece p" "printf_text ps args = Some cs" "0 < sz" "buf + sz \<le> 2 ^ 32"
  shows "\<exists>n m'. rt_vsnprintf buf sz (format_bytes ps) args m = Some (n, m')
    \<and> (\<forall>a. m' a = (if a < buf \<or> buf + sz \<le> a then m a
         else if a - buf < min (length cs) (sz - 1) then cs ! (a - buf)
         else if a - buf = min (length cs) (sz - 1) then 0 else m a))
    \<and> length cs \<le> n \<and> (length cs \<le> sz \<longrightarrow> n = length cs)"
  using vsnprintf_buffer[OF _ assms(3,4)] format_text_eq[OF assms(1)] assms(2) by simp

subsection \<open>Witnesses\<close>

text \<open>The format \<^verbatim>\<open>a%+-5d|%04hX\<close>.\<close>

definition demo_format :: "piece list" where
  "demo_format = [Plain 0x61,
     Directive \<lparr>d_flags = [Plus_flag, Left_flag], d_width = Some (Lit 5), d_prec = None, d_qual = None, d_conv = Conv_d\<rparr>,
     Plain 0x7c,
     Directive \<lparr>d_flags = [Zero_flag], d_width = Some (Lit 4), d_prec = None, d_qual = Some Short_qual, d_conv = Conv_X\<rparr>]"

text \<open>With the arguments 42 and \<^verbatim>\<open>0xabc1f\<close> it gives \<^verbatim>\<open>a+42  |BC1F\<close>, of which a buffer of nine bytes keeps eight.\<close>

theorem rt_vsnprintf_correct_witness:
  "\<exists>n m'. rt_vsnprintf 100 9 [0x61, 0x25, 0x2b, 0x2d, 0x35, 0x64, 0x7c, 0x25, 0x30, 0x34, 0x68, 0x58, 0] [Int_arg 42, Int_arg 0xabc1f] (\<lambda>_. 7) = Some (n, m')
     \<and> map m' [100..<110] = [0x61, 0x2b, 0x34, 0x32, 0x20, 0x20, 0x7c, 0x42, 0, 7]"
proof -
  have w: "\<forall>p \<in> set demo_format. wf_piece p" by (simp add: demo_format_def wf_directive_def)
  have b: "format_bytes demo_format = [0x61, 0x25, 0x2b, 0x2d, 0x35, 0x64, 0x7c, 0x25, 0x30, 0x34, 0x68, 0x58, 0]"
    by (simp add: demo_format_def format_bytes_def directive_bytes_def width_bytes_def prec_bytes_def qual_bytes_def numeral_bytes.simps digit_byte_def)
  have r: "replicate 2 c = [c, c]" for c :: "8 word" by (simp add: numeral_2_eq_2)
  have t: "printf_text demo_format [Int_arg 42, Int_arg 0xabc1f] = Some [0x61, 0x2b, 0x34, 0x32, 0x20, 0x20, 0x7c, 0x42, 0x43, 0x31, 0x46]"
    by (simp add: demo_format_def meaning_def width_arg_def prec_arg_def conv_text_def Let_def number_field_def sign_of_def
        signed_value_def unsigned_value_def numeral_bytes.simps digit_byte_def r)
  show ?thesis using rt_vsnprintf_correct[OF w t, of 9 100 "\<lambda>_. 7"] unfolding b by (force simp: upt_rec)
qed

end
