(* ===== verification/Irq.thy ===== *)
theory Irq
  imports Prelude
begin

text \<open>
  The interrupt nesting level, \<^verbatim>\<open>src/irq.c\<close>, and the context checks of \<^verbatim>\<open>include/rtdebug.h\<close>
  that read it. \<open>irq_state\<close> is the first segment of the kernel state: each component extends
  the record of the components it uses, so that an operation of a lower component applies
  unchanged to the state of the whole kernel.
\<close>

record irq_state =
  rt_interrupt_nest :: rt_uint8_t

definition rt_interrupt_enter :: "'a irq_state_scheme \<Rightarrow> 'a irq_state_scheme" where
  "rt_interrupt_enter s = s\<lparr>rt_interrupt_nest := rt_interrupt_nest s + 1\<rparr>"

definition rt_interrupt_leave :: "'a irq_state_scheme \<Rightarrow> 'a irq_state_scheme" where
  "rt_interrupt_leave s = s\<lparr>rt_interrupt_nest := rt_interrupt_nest s - 1\<rparr>"

definition rt_interrupt_get_nest :: "'a irq_state_scheme \<Rightarrow> rt_uint8_t" where
  "rt_interrupt_get_nest s = rt_interrupt_nest s"

definition RT_DEBUG_NOT_IN_INTERRUPT :: "'a irq_state_scheme \<Rightarrow> 'a irq_state_scheme option" where
  "RT_DEBUG_NOT_IN_INTERRUPT s = RT_ASSERT (rt_interrupt_get_nest s = 0) s"

lemma not_in_interrupt [simp]:
  "RT_DEBUG_NOT_IN_INTERRUPT s = Some s' \<longleftrightarrow> rt_interrupt_nest s = 0 \<and> s' = s"
  by (auto simp: RT_DEBUG_NOT_IN_INTERRUPT_def rt_interrupt_get_nest_def)

lemma not_in_interrupt_eq:
  "RT_DEBUG_NOT_IN_INTERRUPT s = (if rt_interrupt_nest s = 0 then Some s else None)"
  by (auto simp: RT_DEBUG_NOT_IN_INTERRUPT_def rt_interrupt_get_nest_def RT_ASSERT_def)

lemma interrupt_enter_leave [simp]: "rt_interrupt_leave (rt_interrupt_enter s) = s"
  by (simp add: rt_interrupt_leave_def rt_interrupt_enter_def)

end
