(* ===== verification/Mem.thy ===== *)
theory Mem
  imports Irq KService
begin

text \<open>
  The small-memory heap, \<^verbatim>\<open>src/mem.c\<close>. Pointers of type \<^verbatim>\<open>struct heap_mem *\<close> are offsets
  from \<^verbatim>\<open>heap_ptr\<close>, as the \<^verbatim>\<open>next\<close> and \<^verbatim>\<open>prev\<close> fields of the source are; \<open>blk\<close> holds the block
  headers by offset and \<open>mdata\<close> the bytes handed out to callers by address. The pointers
  callers see are addresses, \<open>None\<close> for \<^verbatim>\<open>RT_NULL\<close>. The semaphore that guards the heap is free
  whenever an operation starts, so taking and releasing it leaves the state as it was.
\<close>

record heap_mem =
  hm_magic :: rt_uint16_t
  hm_used :: rt_uint16_t
  hm_next :: nat
  hm_prev :: nat

record heap_state = irq_state +
  heap_ptr :: nat
  heap_end :: nat
  lfree :: nat
  mem_size_aligned :: nat
  used_mem :: nat
  max_mem :: nat
  blk :: "nat \<Rightarrow> heap_mem"
  mdata :: bmem

abbreviation (input) HEAP_MAGIC :: rt_uint16_t where "HEAP_MAGIC \<equiv> 0x1ea0"
abbreviation (input) SIZEOF_STRUCT_MEM :: nat where "SIZEOF_STRUCT_MEM \<equiv> 12"
abbreviation (input) MIN_SIZE_ALIGNED :: nat where "MIN_SIZE_ALIGNED \<equiv> 12"

definition upd_blk :: "nat \<Rightarrow> (heap_mem \<Rightarrow> heap_mem) \<Rightarrow> 'a heap_state_scheme \<Rightarrow> 'a heap_state_scheme" where
  "upd_blk i f s = s\<lparr>blk := (blk s)(i := f (blk s i))\<rparr>"

definition plug_forward :: "nat \<Rightarrow> 'a heap_state_scheme \<Rightarrow> 'a heap_state_scheme" where
  "plug_forward mem s =
     (let nmem = hm_next (blk s mem) in
      if mem \<noteq> nmem \<and> hm_used (blk s nmem) = 0 \<and> nmem \<noteq> heap_end s then
        let s = (if lfree s = nmem then s\<lparr>lfree := mem\<rparr> else s);
            s = upd_blk mem (\<lambda>b. b\<lparr>hm_next := hm_next (blk s nmem)\<rparr>) s
        in upd_blk (hm_next (blk s nmem)) (\<lambda>b. b\<lparr>hm_prev := mem\<rparr>) s
      else s)"

definition plug_backward :: "nat \<Rightarrow> 'a heap_state_scheme \<Rightarrow> 'a heap_state_scheme" where
  "plug_backward mem s =
     (let pmem = hm_prev (blk s mem) in
      if pmem \<noteq> mem \<and> hm_used (blk s pmem) = 0 then
        let s = (if lfree s = mem then s\<lparr>lfree := pmem\<rparr> else s);
            s = upd_blk pmem (\<lambda>b. b\<lparr>hm_next := hm_next (blk s mem)\<rparr>) s
        in upd_blk (hm_next (blk s mem)) (\<lambda>b. b\<lparr>hm_prev := pmem\<rparr>) s
      else s)"

definition plug_holes :: "nat \<Rightarrow> 'a heap_state_scheme \<Rightarrow> 'a heap_state_scheme option" where
  "plug_holes mem s =
     do { s \<leftarrow> RT_ASSERT (mem < heap_end s) s;
          s \<leftarrow> RT_ASSERT (hm_used (blk s mem) = 0) s;
          Some (plug_backward mem (plug_forward mem s)) }"

definition rt_system_heap_init :: "nat \<Rightarrow> nat \<Rightarrow> 'a heap_state_scheme \<Rightarrow> 'a heap_state_scheme option" where
  "rt_system_heap_init begin_addr end_addr s =
     (let begin_align = align_up begin_addr; end_align = align_down end_addr in
      do { s \<leftarrow> RT_DEBUG_NOT_IN_INTERRUPT s;
           if end_align > 2 * SIZEOF_STRUCT_MEM
              \<and> sub32 end_align (2 * SIZEOF_STRUCT_MEM) \<ge> begin_align
           then
             (let sz = sub32 (sub32 end_align begin_align) (2 * SIZEOF_STRUCT_MEM);
                  e = add32 sz SIZEOF_STRUCT_MEM
              in Some (s\<lparr>mem_size_aligned := sz, heap_ptr := begin_align, heap_end := e, lfree := 0,
                   blk := (blk s)(0 := \<lparr>hm_magic = HEAP_MAGIC, hm_used = 0, hm_next = e, hm_prev = 0\<rparr>,
                     e := \<lparr>hm_magic = HEAP_MAGIC, hm_used = 1, hm_next = e, hm_prev = e\<rparr>)\<rparr>))
           else Some s })"

text \<open>The search loop of \<open>rt_malloc\<close>: the first block that fits, from \<open>ptr\<close> on.\<close>

partial_function (option) malloc_search :: "nat \<Rightarrow> nat \<Rightarrow> 'a heap_state_scheme \<Rightarrow> nat option option" where
  "malloc_search ptr sz s =
     (if ptr < sub32 (mem_size_aligned s) sz then
        let mem = blk s ptr in
        if hm_used mem = 0 \<and> sub32 (hm_next mem) (add32 ptr SIZEOF_STRUCT_MEM) \<ge> sz
        then Some (Some ptr)
        else malloc_search (hm_next mem) sz s
      else Some None)"

definition count_used :: "nat \<Rightarrow> 'a heap_state_scheme \<Rightarrow> 'a heap_state_scheme" where
  "count_used n s =
     (let s = s\<lparr>used_mem := add32 (used_mem s) n\<rparr> in
      if max_mem s < used_mem s then s\<lparr>max_mem := used_mem s\<rparr> else s)"

text \<open>Taking the block at \<open>ptr\<close>: it is split when the rest can hold a block of its own.\<close>

definition malloc_take :: "nat \<Rightarrow> nat \<Rightarrow> 'a heap_state_scheme \<Rightarrow> 'a heap_state_scheme" where
  "malloc_take ptr sz s =
     (let nxt = hm_next (blk s ptr) in
      if sub32 nxt (add32 ptr SIZEOF_STRUCT_MEM) \<ge> add32 (add32 sz SIZEOF_STRUCT_MEM) MIN_SIZE_ALIGNED
      then
        let ptr2 = add32 (add32 ptr SIZEOF_STRUCT_MEM) sz;
            s = upd_blk ptr2 (\<lambda>b. b\<lparr>hm_used := 0, hm_next := nxt, hm_prev := ptr\<rparr>) s;
            s = upd_blk ptr (\<lambda>b. b\<lparr>hm_next := ptr2, hm_used := 1\<rparr>) s;
            s = (if nxt \<noteq> add32 (mem_size_aligned s) SIZEOF_STRUCT_MEM
                 then upd_blk nxt (\<lambda>b. b\<lparr>hm_prev := ptr2\<rparr>) s else s);
            s = count_used (add32 sz SIZEOF_STRUCT_MEM) s
        in upd_blk ptr (\<lambda>b. b\<lparr>hm_magic := HEAP_MAGIC\<rparr>) s
      else
        let s = upd_blk ptr (\<lambda>b. b\<lparr>hm_used := 1\<rparr>) s;
            s = count_used (sub32 nxt ptr) s
        in upd_blk ptr (\<lambda>b. b\<lparr>hm_magic := HEAP_MAGIC\<rparr>) s)"

partial_function (option) next_free :: "nat \<Rightarrow> 'a heap_state_scheme \<Rightarrow> nat option" where
  "next_free l s =
     (if hm_used (blk s l) \<noteq> 0 \<and> l \<noteq> heap_end s then next_free (hm_next (blk s l)) s else Some l)"

definition advance_lfree :: "nat \<Rightarrow> 'a heap_state_scheme \<Rightarrow> 'a heap_state_scheme option" where
  "advance_lfree ptr s =
     (if ptr = lfree s then
        do { l \<leftarrow> next_free (lfree s) s;
             RT_ASSERT (l = heap_end s \<or> hm_used (blk s l) = 0) (s\<lparr>lfree := l\<rparr>) }
      else Some s)"

definition rt_malloc :: "nat \<Rightarrow> 'a heap_state_scheme \<Rightarrow> (nat option \<times> 'a heap_state_scheme) option" where
  "rt_malloc sz s =
     do { s \<leftarrow> RT_DEBUG_NOT_IN_INTERRUPT s;
          if sz = 0 then Some (None, s)
          else
            (let sz = align_up sz in
             if sz > mem_size_aligned s then Some (None, s)
             else
               (let sz = (if sz < MIN_SIZE_ALIGNED then MIN_SIZE_ALIGNED else sz) in
                do { r \<leftarrow> malloc_search (lfree s) sz s;
                     case r of
                       None \<Rightarrow> Some (None, s)
                     | Some ptr \<Rightarrow>
                         do { s \<leftarrow> advance_lfree ptr (malloc_take ptr sz s);
                              let mem = heap_ptr s + ptr;
                              s \<leftarrow> RT_ASSERT (add32 (add32 mem SIZEOF_STRUCT_MEM) sz
                                     \<le> heap_ptr s + heap_end s) s;
                              s \<leftarrow> RT_ASSERT ((mem + SIZEOF_STRUCT_MEM) mod 4 = 0) s;
                              s \<leftarrow> RT_ASSERT (mem mod 4 = 0) s;
                              Some (Some (mem + SIZEOF_STRUCT_MEM), s) } })) }"

definition rt_free :: "nat option \<Rightarrow> 'a heap_state_scheme \<Rightarrow> 'a heap_state_scheme option" where
  "rt_free rmem s =
     do { s \<leftarrow> RT_DEBUG_NOT_IN_INTERRUPT s;
          case rmem of
            None \<Rightarrow> Some s
          | Some a \<Rightarrow>
              do { s \<leftarrow> RT_ASSERT (a mod 4 = 0) s;
                   s \<leftarrow> RT_ASSERT (heap_ptr s \<le> a \<and> a < heap_ptr s + heap_end s) s;
                   s \<leftarrow> RT_ASSERT (heap_ptr s + SIZEOF_STRUCT_MEM \<le> a) s;
                   let mem = a - SIZEOF_STRUCT_MEM - heap_ptr s;
                   s \<leftarrow> RT_ASSERT (hm_used (blk s mem) \<noteq> 0) s;
                   s \<leftarrow> RT_ASSERT (hm_magic (blk s mem) = HEAP_MAGIC) s;
                   let s = upd_blk mem (\<lambda>b. b\<lparr>hm_used := 0, hm_magic := 0\<rparr>) s;
                   let s = (if mem < lfree s then s\<lparr>lfree := mem\<rparr> else s);
                   let s = s\<lparr>used_mem := sub32 (used_mem s) (sub32 (hm_next (blk s mem)) mem)\<rparr>;
                   plug_holes mem s } }"

definition rt_realloc :: "nat option \<Rightarrow> nat \<Rightarrow> 'a heap_state_scheme
    \<Rightarrow> (nat option \<times> 'a heap_state_scheme) option" where
  "rt_realloc rmem newsize s =
     do { s \<leftarrow> RT_DEBUG_NOT_IN_INTERRUPT s;
          let newsize = align_up newsize;
          if newsize > mem_size_aligned s then Some (None, s)
          else case rmem of
            None \<Rightarrow> rt_malloc newsize s
          | Some a \<Rightarrow>
              if a < heap_ptr s \<or> a \<ge> heap_ptr s + heap_end s then Some (Some a, s)
              else
                do { s \<leftarrow> RT_ASSERT (heap_ptr s + SIZEOF_STRUCT_MEM \<le> a) s;
                     let ptr = a - SIZEOF_STRUCT_MEM - heap_ptr s;
                     let nxt = hm_next (blk s ptr);
                     let sz = sub32 (sub32 nxt ptr) SIZEOF_STRUCT_MEM;
                     if sz = newsize then Some (Some a, s)
                     else if add32 (add32 newsize SIZEOF_STRUCT_MEM) 12 < sz then
                       (let s = s\<lparr>used_mem := sub32 (used_mem s) (sub32 sz newsize)\<rparr>;
                            ptr2 = add32 (add32 ptr SIZEOF_STRUCT_MEM) newsize;
                            s = upd_blk ptr2 (\<lambda>b. b\<lparr>hm_magic := HEAP_MAGIC, hm_used := 0,
                                  hm_next := nxt, hm_prev := ptr\<rparr>) s;
                            s = upd_blk ptr (\<lambda>b. b\<lparr>hm_next := ptr2\<rparr>) s;
                            s = (if nxt \<noteq> add32 (mem_size_aligned s) SIZEOF_STRUCT_MEM
                                 then upd_blk nxt (\<lambda>b. b\<lparr>hm_prev := ptr2\<rparr>) s else s)
                        in do { s \<leftarrow> plug_holes ptr2 s; Some (Some a, s) })
                     else
                       do { (nmem, s) \<leftarrow> rt_malloc newsize s;
                            case nmem of
                              None \<Rightarrow> Some (None, s)
                            | Some n \<Rightarrow>
                                do { let s = s\<lparr>mdata := rt_memcpy n a
                                       (if sz < newsize then sz else newsize) (mdata s)\<rparr>;
                                     s \<leftarrow> rt_free (Some a) s;
                                     Some (Some n, s) } } } }"

definition rt_calloc :: "nat \<Rightarrow> nat \<Rightarrow> 'a heap_state_scheme
    \<Rightarrow> (nat option \<times> 'a heap_state_scheme) option" where
  "rt_calloc count sz s =
     do { s \<leftarrow> RT_DEBUG_NOT_IN_INTERRUPT s;
          let n = (count * sz) mod 2 ^ 32;
          (p, s) \<leftarrow> rt_malloc n s;
          case p of
            None \<Rightarrow> Some (None, s)
          | Some a \<Rightarrow> Some (Some a, s\<lparr>mdata := rt_memset a 0 n (mdata s)\<rparr>) }"

text \<open>\<open>rt_strdup\<close> of \<^verbatim>\<open>src/kservice.c\<close>, the one string routine that allocates; \<open>str\<close> are the
  bytes of the array at the address \<open>a\<close>.\<close>

definition rt_strdup :: "8 word list \<Rightarrow> nat \<Rightarrow> 'a heap_state_scheme
    \<Rightarrow> (nat option \<times> 'a heap_state_scheme) option" where
  "rt_strdup str a s =
     do { n \<leftarrow> rt_strlen str;
          (p, s) \<leftarrow> rt_malloc (n + 1) s;
          case p of
            None \<Rightarrow> Some (None, s)
          | Some d \<Rightarrow> Some (Some d, s\<lparr>mdata := rt_memcpy d a (n + 1) (mdata s)\<rparr>) }"

end
