(* ===== verification/RtList.thy ===== *)
theory RtList
  imports Prelude
begin

text \<open>
  The intrusive circular doubly linked lists of \<^verbatim>\<open>include/rtservice.h\<close>, at pointer level: a
  memory maps every node address to its \<^verbatim>\<open>struct rt_list_node\<close>, and each inline function is
  the sequence of assignments of the source. \<open>ring h l xs\<close> says that the ring with head \<open>l\<close>
  holds the nodes \<open>xs\<close> in order. The kernel keeps many lists with heads \<open>Head l\<close>, and a node
  \<open>Node n\<close> is linked into at most one of them; \<open>represents\<close> relates the memory to the
  \<^emph>\<open>list store\<close>, a function from heads to lists, which the kernel theories use. The locale
  \<open>list_store\<close> is that interface; it is interpreted on the pointer memory and on the store.
\<close>

subsection \<open>The pointer operations\<close>

record 'a rt_list_node =
  lnext :: 'a
  lprev :: 'a

type_synonym 'a lmem = "'a \<Rightarrow> 'a rt_list_node"

definition set_next :: "'a \<Rightarrow> 'a \<Rightarrow> 'a lmem \<Rightarrow> 'a lmem" where
  "set_next p v h = h(p := (h p)\<lparr>lnext := v\<rparr>)"

definition set_prev :: "'a \<Rightarrow> 'a \<Rightarrow> 'a lmem \<Rightarrow> 'a lmem" where
  "set_prev p v h = h(p := (h p)\<lparr>lprev := v\<rparr>)"

definition rt_list_init :: "'a \<Rightarrow> 'a lmem \<Rightarrow> 'a lmem" where
  "rt_list_init l h = set_next l l (set_prev l l h)"

definition rt_list_insert_after :: "'a \<Rightarrow> 'a \<Rightarrow> 'a lmem \<Rightarrow> 'a lmem" where
  "rt_list_insert_after l n h =
     (let h1 = set_prev (lnext (h l)) n h;
          h2 = set_next n (lnext (h1 l)) h1;
          h3 = set_next l n h2
      in set_prev n l h3)"

definition rt_list_insert_before :: "'a \<Rightarrow> 'a \<Rightarrow> 'a lmem \<Rightarrow> 'a lmem" where
  "rt_list_insert_before l n h =
     (let h1 = set_next (lprev (h l)) n h;
          h2 = set_prev n (lprev (h1 l)) h1;
          h3 = set_prev l n h2
      in set_next n l h3)"

definition rt_list_remove :: "'a \<Rightarrow> 'a lmem \<Rightarrow> 'a lmem" where
  "rt_list_remove n h =
     (let h1 = set_prev (lnext (h n)) (lprev (h n)) h;
          h2 = set_next (lprev (h1 n)) (lnext (h1 n)) h1
      in set_next n n (set_prev n n h2))"

definition rt_list_isempty :: "'a \<Rightarrow> 'a lmem \<Rightarrow> bool" where
  "rt_list_isempty l h \<longleftrightarrow> lnext (h l) = l"

subsection \<open>Rings\<close>

definition linked :: "'a lmem \<Rightarrow> 'a \<Rightarrow> 'a \<Rightarrow> bool" where
  "linked h a b \<longleftrightarrow> lnext (h a) = b \<and> lprev (h b) = a"

fun chain :: "'a lmem \<Rightarrow> 'a \<Rightarrow> 'a list \<Rightarrow> 'a \<Rightarrow> bool" where
  "chain h a [] b \<longleftrightarrow> linked h a b"
| "chain h a (x # xs) b \<longleftrightarrow> linked h a x \<and> chain h x xs b"

definition ring :: "'a lmem \<Rightarrow> 'a \<Rightarrow> 'a list \<Rightarrow> bool" where
  "ring h l xs \<longleftrightarrow> distinct (l # xs) \<and> chain h l xs l"

lemma chain_append:
  "chain h a (xs @ y # ys) b \<longleftrightarrow> chain h a xs y \<and> chain h y ys b"
  by (induction xs arbitrary: a) auto

lemma chain_frame:
  assumes "\<And>x. x \<in> set (a # xs) \<Longrightarrow> lnext (h' x) = lnext (h x)"
    and "\<And>x. x \<in> set (xs @ [b]) \<Longrightarrow> lprev (h' x) = lprev (h x)"
  shows "chain h' a xs b = chain h a xs b"
  using assms by (induction xs arbitrary: a) (auto simp: linked_def)

lemma ring_frame:
  assumes "\<And>x. x \<in> set (l # xs) \<Longrightarrow> h' x = h x"
  shows "ring h' l xs = ring h l xs"
  using chain_frame[of l xs h' h l] assms by (auto simp: ring_def)

lemma chain_first: "chain h a xs b \<Longrightarrow> lnext (h a) = hd (xs @ [b])"
  by (cases xs) (auto simp: linked_def)

lemma chain_last: "chain h a xs b \<Longrightarrow> lprev (h b) = last (a # xs)"
  by (induction xs arbitrary: a) (auto simp: linked_def)

lemma chain_cut:
  assumes "chain h l (xs @ ys) l"
  shows "chain h l xs (hd (ys @ [l]))"
  using assms by (cases ys) (auto simp: chain_append)

lemma ring_singleton_iff: "ring h l [] \<longleftrightarrow> lnext (h l) = l \<and> lprev (h l) = l"
  by (auto simp: ring_def linked_def)

lemma set_next_apply [simp]:
  "set_next p v h x = (if x = p then (h x)\<lparr>lnext := v\<rparr> else h x)"
  "set_prev p v h x = (if x = p then (h x)\<lparr>lprev := v\<rparr> else h x)"
  by (auto simp: set_next_def set_prev_def)

text \<open>The memory each operation writes, in terms of the two neighbours of the new node.\<close>

lemma insert_after_eq:
  assumes "linked h p q" "n \<noteq> p" "n \<noteq> q"
  shows "rt_list_insert_after p n h = set_prev n p (set_next n q (set_prev q n (set_next p n h)))"
  using assms by (intro ext) (auto simp: rt_list_insert_after_def Let_def linked_def)

lemma insert_before_eq:
  assumes "linked h p q" "n \<noteq> p" "n \<noteq> q"
  shows "rt_list_insert_before q n h = set_prev n p (set_next n q (set_prev q n (set_next p n h)))"
  using assms by (intro ext) (auto simp: rt_list_insert_before_def Let_def linked_def)

lemma remove_eq:
  assumes "linked h p n" "linked h n q" "n \<noteq> p" "n \<noteq> q"
  shows "rt_list_remove n h = set_prev n n (set_next n n (set_prev q p (set_next p q h)))"
  using assms by (intro ext) (auto simp: rt_list_remove_def Let_def linked_def)

text \<open>A chain as two equations between lists, one per direction.\<close>

lemma chain_map:
  "chain h a xs b \<longleftrightarrow>
     map (\<lambda>x. lnext (h x)) (a # xs) = xs @ [b] \<and> map (\<lambda>x. lprev (h x)) (xs @ [b]) = a # xs"
  by (induction xs arbitrary: a) (auto simp: linked_def)

lemma ring_link:
  assumes "ring h l (xs @ ys)"
  shows "linked h (last (l # xs)) (hd (ys @ [l]))"
proof (cases xs rule: rev_cases)
  case Nil
  then show ?thesis using assms by (cases ys) (auto simp: ring_def)
next
  case (snoc us p)
  then show ?thesis using assms by (cases ys) (auto simp: ring_def chain_append)
qed

lemma ring_insert:
  assumes r: "ring h l (xs @ ys)" and n: "n \<notin> set (l # xs @ ys)"
    and p: "p = last (l # xs)" and q: "q = hd (ys @ [l])"
  shows "ring (set_prev n p (set_next n q (set_prev q n (set_next p n h)))) l (xs @ n # ys)"
proof -
  define h' where "h' = set_prev n p (set_next n q (set_prev q n (set_next p n h)))"
  obtain us where us: "l # xs = us @ [p]"
    using p by (metis append_butlast_last_id list.discI)
  obtain vs where vs: "ys @ [l] = q # vs"
    using q by (cases ys) auto
  have e1: "l # xs @ ys = us @ p # ys" using us by simp
  have e2: "xs @ ys @ [l] = xs @ q # vs" using vs by simp
  have d: "distinct (l # xs @ ys)" "chain h l (xs @ ys) l"
    using r by (simp_all add: ring_def)
  then have m: "map (\<lambda>x. lnext (h x)) (us @ p # ys) = xs @ q # vs"
     "map (\<lambda>x. lprev (h x)) (xs @ q # vs) = us @ p # ys"
    unfolding chain_map append.assoc e1[symmetric] e2[symmetric] by simp_all
  have len: "length us = length xs"
    using us by (auto dest: arg_cong[where f=length])
  have mm: "map (\<lambda>x. lnext (h x)) us = xs" "lnext (h p) # map (\<lambda>x. lnext (h x)) ys = q # vs"
    "map (\<lambda>x. lprev (h x)) xs = us" "lprev (h q) # map (\<lambda>x. lprev (h x)) vs = p # ys"
    using m len by auto
  have dl: "distinct (us @ p # ys)" "n \<notin> set (us @ p # ys)"
    using d(1) n e1 by auto
  have "set (xs @ q # vs) = set (l # xs @ ys)" "distinct (xs @ q # vs)"
    using d(1) unfolding e2[symmetric] by auto
  with n have dr: "distinct (xs @ q # vs)" "n \<notin> set (xs @ q # vs)"
    by auto
  have N: "lnext (h' x) = (if x = n then q else if x = p then n else lnext (h x))" for x
    using dl by (auto simp: h'_def)
  have P: "lprev (h' x) = (if x = n then p else if x = q then n else lprev (h x))" for x
    using dr by (auto simp: h'_def)
  have "map (\<lambda>x. lnext (h' x)) us = map (\<lambda>x. lnext (h x)) us"
    "map (\<lambda>x. lnext (h' x)) ys = map (\<lambda>x. lnext (h x)) ys"
    using dl by (auto simp: N)
  then have 1: "map (\<lambda>x. lnext (h' x)) (us @ p # n # ys) = xs @ n # q # vs"
    using mm(1,2) N[of p] N[of n] dl by auto
  have "map (\<lambda>x. lprev (h' x)) xs = map (\<lambda>x. lprev (h x)) xs"
    "map (\<lambda>x. lprev (h' x)) vs = map (\<lambda>x. lprev (h x)) vs"
    using dr by (auto simp: P)
  then have 2: "map (\<lambda>x. lprev (h' x)) (xs @ n # q # vs) = us @ p # n # ys"
    using mm(3,4) P[of q] P[of n] dr by auto
  have "l # xs @ n # ys = us @ p # n # ys" "xs @ n # ys @ [l] = xs @ n # q # vs"
    using us vs by simp_all
  then have "chain h' l (xs @ n # ys) l"
    by (simp only: chain_map append.assoc append_Cons 1 2)
  with d(1) n show ?thesis by (auto simp: ring_def h'_def)
qed

lemma ring_remove:
  assumes r: "ring h l (xs @ n # ys)"
    and p: "p = last (l # xs)" and q: "q = hd (ys @ [l])"
  shows "ring (set_prev n n (set_next n n (set_prev q p (set_next p q h)))) l (xs @ ys)"
proof -
  define h' where "h' = set_prev n n (set_next n n (set_prev q p (set_next p q h)))"
  obtain us where us: "l # xs = us @ [p]"
    using p by (metis append_butlast_last_id list.discI)
  obtain vs where vs: "ys @ [l] = q # vs"
    using q by (cases ys) auto
  have e1: "l # xs @ n # ys = us @ p # n # ys" using us by simp
  have e2: "xs @ n # ys @ [l] = xs @ n # q # vs" using vs by simp
  have d: "distinct (l # xs @ n # ys)" "chain h l (xs @ n # ys) l"
    using r by (simp_all add: ring_def)
  then have m: "map (\<lambda>x. lnext (h x)) (us @ p # n # ys) = xs @ n # q # vs"
     "map (\<lambda>x. lprev (h x)) (xs @ n # q # vs) = us @ p # n # ys"
    unfolding chain_map append.assoc append_Cons e1[symmetric] e2[symmetric] by simp_all
  have len: "length us = length xs"
    using us by (auto dest: arg_cong[where f=length])
  have mm: "map (\<lambda>x. lnext (h x)) us = xs" "map (\<lambda>x. lnext (h x)) ys = vs"
    "map (\<lambda>x. lprev (h x)) xs = us" "map (\<lambda>x. lprev (h x)) vs = ys"
    using m len by auto
  have dl: "distinct (us @ p # ys)" "n \<notin> set (us @ p # ys)"
    using d(1) e1 by auto
  have "set (xs @ n # q # vs) = set (l # xs @ n # ys)" "distinct (xs @ n # q # vs)"
    using d(1) unfolding e2[symmetric] by auto
  then have dr: "distinct (xs @ q # vs)" "n \<notin> set (xs @ q # vs)"
    by auto
  have N: "lnext (h' x) = (if x = n then n else if x = p then q else lnext (h x))" for x
    using dl by (auto simp: h'_def)
  have P: "lprev (h' x) = (if x = n then n else if x = q then p else lprev (h x))" for x
    using dr by (auto simp: h'_def)
  have "map (\<lambda>x. lnext (h' x)) us = map (\<lambda>x. lnext (h x)) us"
    "map (\<lambda>x. lnext (h' x)) ys = map (\<lambda>x. lnext (h x)) ys"
    using dl by (auto simp: N)
  then have 1: "map (\<lambda>x. lnext (h' x)) (us @ p # ys) = xs @ q # vs"
    using mm(1,2) N[of p] dl by auto
  have "map (\<lambda>x. lprev (h' x)) xs = map (\<lambda>x. lprev (h x)) xs"
    "map (\<lambda>x. lprev (h' x)) vs = map (\<lambda>x. lprev (h x)) vs"
    using dr by (auto simp: P)
  then have 2: "map (\<lambda>x. lprev (h' x)) (xs @ q # vs) = us @ p # ys"
    using mm(3,4) P[of q] dr by auto
  have "l # xs @ ys = us @ p # ys" "xs @ ys @ [l] = xs @ q # vs"
    using us vs by simp_all
  then have "chain h' l (xs @ ys) l"
    by (simp only: chain_map append.assoc append_Cons 1 2)
  with d(1) show ?thesis by (auto simp: ring_def h'_def)
qed

text \<open>The operations on a ring that holds the neighbours of the node.\<close>

lemma neighbours_in_ring:
  "last (l # xs) \<in> set (l # xs @ ys)" "hd (ys @ [l]) \<in> set (l # xs @ ys)"
  by (cases ys; auto)+

lemma ring_insert_after:
  assumes "ring h l (xs @ ys)" "n \<notin> set (l # xs @ ys)" "p = last (l # xs)"
  shows "ring (rt_list_insert_after p n h) l (xs @ n # ys)"
proof -
  have "n \<noteq> last (l # xs)" "n \<noteq> hd (ys @ [l])"
    using assms(2) neighbours_in_ring by metis+
  then show ?thesis
    using ring_insert[OF assms(1,2) assms(3) refl] insert_after_eq[OF ring_link[OF assms(1)]] assms(3)
    by simp
qed

lemma ring_insert_before:
  assumes "ring h l (xs @ ys)" "n \<notin> set (l # xs @ ys)" "q = hd (ys @ [l])"
  shows "ring (rt_list_insert_before q n h) l (xs @ n # ys)"
proof -
  have "n \<noteq> last (l # xs)" "n \<noteq> hd (ys @ [l])"
    using assms(2) neighbours_in_ring by metis+
  then show ?thesis
    using ring_insert[OF assms(1,2) refl assms(3)] insert_before_eq[OF ring_link[OF assms(1)]] assms(3)
    by simp
qed

lemma ring_links_around:
  assumes "ring h l (xs @ n # ys)"
  shows "linked h (last (l # xs)) n" "linked h n (hd (ys @ [l]))"
    "n \<noteq> last (l # xs)" "n \<noteq> hd (ys @ [l])"
  using ring_link[of h l xs "n # ys"] ring_link[of h l "xs @ [n]" ys] assms
  by (cases ys; auto simp: ring_def)+

lemma ring_rt_list_remove:
  assumes "ring h l (xs @ n # ys)"
  shows "ring (rt_list_remove n h) l (xs @ ys)"
  using ring_remove[OF assms refl refl] remove_eq[OF ring_links_around[OF assms]] by simp

lemma removed_alone: "ring (rt_list_remove n h) n []"
  by (simp add: ring_singleton_iff rt_list_remove_def Let_def)

lemma remove_alone: "ring h n [] \<Longrightarrow> rt_list_remove n h = h"
  by (intro ext) (simp add: ring_singleton_iff rt_list_remove_def Let_def)

lemma ring_isempty: "ring h l xs \<Longrightarrow> rt_list_isempty l h \<longleftrightarrow> xs = []"
  by (cases xs) (auto simp: ring_def rt_list_isempty_def linked_def)

lemma ring_first: "ring h l (x # xs) \<Longrightarrow> lnext (h l) = x"
  by (auto simp: ring_def linked_def)

text \<open>Addresses outside the ring are not written.\<close>

lemma insert_after_frame:
  assumes "ring h l (xs @ ys)" "p = last (l # xs)" "x \<notin> set (n # l # xs @ ys)"
  shows "rt_list_insert_after p n h x = h x"
proof -
  have "x \<noteq> p" "x \<noteq> lnext (h p)"
    using assms ring_link[OF assms(1)] neighbours_in_ring[where l = l and xs = xs and ys = ys] by (auto simp: linked_def)
  then show ?thesis using assms(3) by (auto simp: rt_list_insert_after_def Let_def)
qed

lemma insert_before_frame:
  assumes "ring h l (xs @ ys)" "q = hd (ys @ [l])" "x \<notin> set (n # l # xs @ ys)"
  shows "rt_list_insert_before q n h x = h x"
proof -
  have "x \<noteq> q" "x \<noteq> lprev (h q)"
    using assms ring_link[OF assms(1)] neighbours_in_ring[where l = l and xs = xs and ys = ys] by (auto simp: linked_def)
  then show ?thesis using assms(3) by (auto simp: rt_list_insert_before_def Let_def)
qed

lemma remove_frame:
  assumes "ring h l (xs @ n # ys)" "x \<notin> set (l # xs @ n # ys)"
  shows "rt_list_remove n h x = h x"
proof -
  have "x \<noteq> lnext (h n)" "x \<noteq> lprev (h n)"
    using assms(2) ring_links_around[OF assms(1)] neighbours_in_ring[where l = l and xs = xs and ys = ys]
    by (auto simp: linked_def)
  then show ?thesis using assms(2) ring_links_around[OF assms(1)]
    by (auto simp: rt_list_remove_def Let_def linked_def)
qed

subsection \<open>The list store and its representation in memory\<close>

datatype ('h, 'n) laddr = Head 'h | Node 'n

definition unlinked :: "'n \<Rightarrow> ('h \<Rightarrow> 'n list) \<Rightarrow> bool" where
  "unlinked n L \<longleftrightarrow> (\<forall>l. n \<notin> set (L l))"

definition store_ok :: "('h \<Rightarrow> 'n list) \<Rightarrow> bool" where
  "store_ok L \<longleftrightarrow> (\<forall>l. distinct (L l)) \<and> (\<forall>l m. l \<noteq> m \<longrightarrow> set (L l) \<inter> set (L m) = {})"

definition represents :: "('h, 'n) laddr lmem \<Rightarrow> ('h \<Rightarrow> 'n list) \<Rightarrow> bool" where
  "represents h L \<longleftrightarrow> store_ok L
     \<and> (\<forall>l. ring h (Head l) (map Node (L l)))
     \<and> (\<forall>n. unlinked n L \<longrightarrow> ring h (Node n) [])"

definition list_push_front :: "'h \<Rightarrow> 'n \<Rightarrow> ('h \<Rightarrow> 'n list) \<Rightarrow> 'h \<Rightarrow> 'n list" where
  "list_push_front l n L = L(l := n # L l)"

definition list_push_back :: "'h \<Rightarrow> 'n \<Rightarrow> ('h \<Rightarrow> 'n list) \<Rightarrow> 'h \<Rightarrow> 'n list" where
  "list_push_back l n L = L(l := L l @ [n])"

definition list_place_before :: "'n \<Rightarrow> 'n \<Rightarrow> ('h \<Rightarrow> 'n list) \<Rightarrow> 'h \<Rightarrow> 'n list" where
  "list_place_before p n L = (\<lambda>l. if p \<in> set (L l) then insert_before p n (L l) else L l)"

definition list_unlink :: "'n \<Rightarrow> ('h \<Rightarrow> 'n list) \<Rightarrow> 'h \<Rightarrow> 'n list" where
  "list_unlink n L = (\<lambda>l. removeAll n (L l))"

lemma store_ok_upd:
  assumes "store_ok L" "distinct zs" "set zs \<subseteq> insert n (set (L l))" "\<forall>m. m \<noteq> l \<longrightarrow> n \<notin> set (L m)"
  shows "store_ok (L(l := zs))"
proof -
  have "set (L m) \<inter> set zs = {}" if "m \<noteq> l" for m
    using assms(1,3,4) that unfolding store_ok_def by blast
  then show ?thesis using assms(1,2) unfolding store_ok_def by (auto simp: Int_commute)
qed

lemma store_ok_same_list:
  "store_ok L \<Longrightarrow> n \<in> set (L l) \<Longrightarrow> n \<in> set (L m) \<Longrightarrow> l = m"
  unfolding store_ok_def by blast

lemma list_unlink_other:
  assumes "store_ok L" "n \<in> set (L l)"
  shows "list_unlink n L = L(l := removeAll n (L l))"
proof
  fix m show "list_unlink n L m = (L(l := removeAll n (L l))) m"
    using store_ok_same_list[OF assms, of m] by (cases "m = l") (auto simp: list_unlink_def removeAll_id)
qed

lemma list_unlink_unlinked: "unlinked n L \<Longrightarrow> list_unlink n L = L"
  by (intro ext) (auto simp: list_unlink_def unlinked_def)

lemma unlinked_after_unlink [simp]: "unlinked n (list_unlink n L)"
  by (simp add: unlinked_def list_unlink_def)

lemma list_place_before_in:
  assumes "store_ok L" "p \<in> set (L l)"
  shows "list_place_before p n L = L(l := insert_before p n (L l))"
proof
  fix m show "list_place_before p n L m = (L(l := insert_before p n (L l))) m"
    using store_ok_same_list[OF assms, of m] assms(2)
    by (cases "m = l") (auto simp: list_place_before_def)
qed

text \<open>A memory that changed only inside one ring represents the store with that list changed.\<close>

lemma represents_upd:
  assumes rep: "represents h L" and ring': "ring h' (Head l) (map Node zs)"
    and fr: "\<And>x. x \<notin> insert (Node n) (set (Head l # map Node (L l))) \<Longrightarrow> h' x = h x"
    and zs: "set (L l) - {n} \<subseteq> set zs" "set zs \<subseteq> insert n (set (L l))"
    and n: "\<forall>m. m \<noteq> l \<longrightarrow> n \<notin> set (L m)" and alone: "n \<notin> set zs \<Longrightarrow> ring h' (Node n) []"
  shows "represents h' (L(l := zs))"
proof -
  have ok: "store_ok L" and R: "\<And>m. ring h (Head m) (map Node (L m))"
    and U: "\<And>k. unlinked k L \<Longrightarrow> ring h (Node k) []"
    using rep by (auto simp: represents_def)
  have "distinct zs" using ring' by (auto simp: ring_def distinct_map)
  then have ok': "store_ok (L(l := zs))" using store_ok_upd[OF ok _ zs(2) n] by blast
  have "ring h' (Head m) (map Node (L m))" if "m \<noteq> l" for m
  proof -
    have "h' x = h x" if "x \<in> set (Head m # map Node (L m))" for x
    proof (rule fr)
      have "set (L m) \<inter> set (L l) = {}" using ok \<open>m \<noteq> l\<close> by (simp add: store_ok_def)
      moreover have "n \<notin> set (L m)" using n \<open>m \<noteq> l\<close> by blast
      ultimately show "x \<notin> insert (Node n) (set (Head l # map Node (L l)))"
        using \<open>m \<noteq> l\<close> \<open>x \<in> set (Head m # map Node (L m))\<close> by auto
    qed
    then show ?thesis using ring_frame[of "Head m" "map Node (L m)" h' h] R[of m] by blast
  qed
  moreover have "ring h' (Node k) []" if "unlinked k (L(l := zs))" for k
  proof (cases "k = n")
    case True
    then show ?thesis using that alone by (auto simp: unlinked_def split: if_splits)
  next
    case False
    then have k: "unlinked k L" using that zs by (auto simp: unlinked_def split: if_splits)
    then have "h' (Node k) = h (Node k)" using False by (intro fr) (auto simp: unlinked_def)
    then show ?thesis using U[OF k] by (simp add: ring_singleton_iff)
  qed
  ultimately show ?thesis using ok' ring' by (simp add: represents_def)
qed

lemma represents_ring: "represents h L \<Longrightarrow> ring h (Head l) (map Node (L l))"
  by (simp add: represents_def)

lemma represents_push_front:
  assumes "represents h L" "unlinked n L"
  shows "represents (rt_list_insert_after (Head l) (Node n) h) (list_push_front l n L)"
proof -
  have r: "ring h (Head l) ([] @ map Node (L l))" and n: "Node n \<notin> set (Head l # [] @ map Node (L l))"
    using assms represents_ring by (auto simp: unlinked_def)
  have "ring (rt_list_insert_after (Head l) (Node n) h) (Head l) (map Node (n # L l))"
    using ring_insert_after[OF r n] by simp
  then show ?thesis
    unfolding list_push_front_def using assms insert_after_frame[OF r, of "Head l"]
    by (intro represents_upd[where n = n and h = h]) (auto simp: unlinked_def)
qed

lemma represents_push_back:
  assumes "represents h L" "unlinked n L"
  shows "represents (rt_list_insert_before (Head l) (Node n) h) (list_push_back l n L)"
proof -
  have r: "ring h (Head l) (map Node (L l) @ [])" and n: "Node n \<notin> set (Head l # map Node (L l) @ [])"
    using assms represents_ring by (auto simp: unlinked_def)
  have "ring (rt_list_insert_before (Head l) (Node n) h) (Head l) (map Node (L l @ [n]))"
    using ring_insert_before[OF r n] by simp
  then show ?thesis
    unfolding list_push_back_def using assms insert_before_frame[OF r, of "Head l"]
    by (intro represents_upd[where n = n and h = h]) (auto simp: unlinked_def)
qed

lemma represents_place_before:
  assumes "represents h L" "unlinked n L" "p \<in> set (L l)"
  shows "represents (rt_list_insert_before (Node p) (Node n) h) (list_place_before p n L)"
proof -
  obtain us vs where L: "L l = us @ p # vs" "p \<notin> set us"
    using split_list_first[OF assms(3)] by blast
  have r: "ring h (Head l) (map Node us @ Node p # map Node vs)"
    and n: "Node n \<notin> set (Head l # map Node us @ Node p # map Node vs)"
    using assms(2) represents_ring[OF assms(1), of l] L by (auto simp: unlinked_def dest: spec[of _ l])
  have "ring (rt_list_insert_before (Node p) (Node n) h) (Head l) (map Node (insert_before p n (L l)))"
    using ring_insert_before[OF r n] L by (simp add: insert_before_split)
  moreover have "store_ok L" using assms(1) by (simp add: represents_def)
  ultimately show ?thesis
    unfolding list_place_before_in[OF \<open>store_ok L\<close> assms(3)]
    using assms insert_before_frame[OF r, of "Node p"] L
    by (intro represents_upd[where n = n and h = h]) (auto simp: unlinked_def)
qed

lemma represents_unlink:
  assumes "represents h L"
  shows "represents (rt_list_remove (Node n) h) (list_unlink n L)"
proof (cases "unlinked n L")
  case True
  then show ?thesis using assms by (simp add: represents_def remove_alone list_unlink_unlinked)
next
  case False
  then obtain l where l: "n \<in> set (L l)" by (auto simp: unlinked_def)
  have ok: "store_ok L" using assms by (simp add: represents_def)
  then have "distinct (L l)" by (simp add: store_ok_def)
  obtain us vs where L: "L l = us @ n # vs" using split_list[OF l] by blast
  have nn: "n \<notin> set us" "n \<notin> set vs" using \<open>distinct (L l)\<close> L by auto
  have r: "ring h (Head l) (map Node us @ Node n # map Node vs)"
    using represents_ring[OF assms, of l] L by simp
  have "ring (rt_list_remove (Node n) h) (Head l) (map Node (removeAll n (L l)))"
    using ring_rt_list_remove[OF r] L nn by simp
  then show ?thesis
    unfolding list_unlink_other[OF ok l]
    using assms remove_frame[OF r] L nn removed_alone store_ok_same_list[where L = L, OF ok l]
    by (intro represents_upd[where n = n and h = h]) (auto simp del: removeAll_append)
qed

subsection \<open>The interface the kernel uses\<close>

text \<open>
  What a user of the lists relies on: inserting an unlinked node and unlinking a node change
  the store as the list functions say, and a node is in one list at most. The client lemmas
  are the two compound moves of the kernel: a node sent to the back of a list (yield, resume,
  suspend on an IPC object) and a node pushed to the front of a list (the defunct list).
\<close>

datatype ('h, 'n) list_op = Push_front 'h 'n | Push_back 'h 'n | Place_before 'n 'n | Unlink 'n

text \<open>The operations on the store; inserting a node that is linked already, or in front of a node that
  is not, has no result.\<close>

fun store_op :: "('h, 'n) list_op \<Rightarrow> ('h \<Rightarrow> 'n list) \<Rightarrow> ('h \<Rightarrow> 'n list) option" where
  "store_op (Push_front l n) L = (if unlinked n L then Some (list_push_front l n L) else None)"
| "store_op (Push_back l n) L = (if unlinked n L then Some (list_push_back l n L) else None)"
| "store_op (Place_before p n) L = (if unlinked n L \<and> \<not> unlinked p L then Some (list_place_before p n L) else None)"
| "store_op (Unlink n) L = Some (list_unlink n L)"

fun store_run :: "('h, 'n) list_op list \<Rightarrow> ('h \<Rightarrow> 'n list) \<Rightarrow> ('h \<Rightarrow> 'n list) option" where
  "store_run [] L = Some L"
| "store_run (x # ops) L = do { L \<leftarrow> store_op x L; store_run ops L }"

locale list_store =
  fixes rep :: "'s \<Rightarrow> ('h \<Rightarrow> 'n list) \<Rightarrow> bool"
    and push_front :: "'h \<Rightarrow> 'n \<Rightarrow> 's \<Rightarrow> 's"
    and push_back :: "'h \<Rightarrow> 'n \<Rightarrow> 's \<Rightarrow> 's"
    and place_before :: "'n \<Rightarrow> 'n \<Rightarrow> 's \<Rightarrow> 's"
    and unlink :: "'n \<Rightarrow> 's \<Rightarrow> 's"
    and is_empty :: "'h \<Rightarrow> 's \<Rightarrow> bool"
  assumes rep_ok: "rep s L \<Longrightarrow> store_ok L"
    and rep_push_front: "rep s L \<Longrightarrow> unlinked n L \<Longrightarrow> rep (push_front l n s) (list_push_front l n L)"
    and rep_push_back: "rep s L \<Longrightarrow> unlinked n L \<Longrightarrow> rep (push_back l n s) (list_push_back l n L)"
    and rep_place_before: "rep s L \<Longrightarrow> unlinked n L \<Longrightarrow> p \<in> set (L l)
          \<Longrightarrow> rep (place_before p n s) (list_place_before p n L)"
    and rep_unlink: "rep s L \<Longrightarrow> rep (unlink n s) (list_unlink n L)"
    and rep_is_empty: "rep s L \<Longrightarrow> is_empty l s \<longleftrightarrow> L l = []"
begin

fun op_step :: "('h, 'n) list_op \<Rightarrow> 's \<Rightarrow> 's" where
  "op_step (Push_front l n) s = push_front l n s"
| "op_step (Push_back l n) s = push_back l n s"
| "op_step (Place_before p n) s = place_before p n s"
| "op_step (Unlink n) s = unlink n s"

lemma rep_op: "rep s L \<Longrightarrow> store_op x L = Some L' \<Longrightarrow> rep (op_step x s) L'"
  by (cases x) (auto simp: unlinked_def[of _ L] split: if_splits
      intro: rep_push_front rep_push_back rep_place_before rep_unlink)

lemma rep_run: "rep s L \<Longrightarrow> store_run ops L = Some L' \<Longrightarrow> rep (fold op_step ops s) L'"
  by (induction ops arbitrary: s L) (auto split: bind_splits dest: rep_op)

lemma rep_move_to_back:
  "rep s L \<Longrightarrow> rep (push_back l n (unlink n s)) (list_push_back l n (list_unlink n L))"
  by (rule rep_push_back[OF rep_unlink]) simp_all

lemma rep_move_to_front:
  "rep s L \<Longrightarrow> rep (push_front l n (unlink n s)) (list_push_front l n (list_unlink n L))"
  by (rule rep_push_front[OF rep_unlink]) simp_all

lemma move_keeps_nodes:
  assumes "rep s L" "n \<in> set (L k)"
  shows "\<exists>L'. rep (push_back l n (unlink n s)) L' \<and> (\<Union>m. set (L' m)) = (\<Union>m. set (L m))"
proof (intro exI conjI)
  show "rep (push_back l n (unlink n s)) (list_push_back l n (list_unlink n L))"
    using assms(1) by (rule rep_move_to_back)
  show "(\<Union>m. set (list_push_back l n (list_unlink n L) m)) = (\<Union>m. set (L m))"
    using assms(2) by (auto simp: list_push_back_def list_unlink_def split: if_splits) metis
qed

end

interpretation pointer_lists: list_store represents
  "\<lambda>l n. rt_list_insert_after (Head l) (Node n)"
  "\<lambda>l n. rt_list_insert_before (Head l) (Node n)"
  "\<lambda>p n. rt_list_insert_before (Node p) (Node n)"
  "\<lambda>n. rt_list_remove (Node n)"
  "\<lambda>l. rt_list_isempty (Head l)"
proof (unfold_locales, goal_cases)
  case (1 s L) then show ?case by (simp add: represents_def)
next
  case (2 s L n l) then show ?case by (rule represents_push_front)
next
  case (3 s L n l) then show ?case by (rule represents_push_back)
next
  case (4 s L n p l) then show ?case by (rule represents_place_before)
next
  case (5 s L n) then show ?case by (rule represents_unlink)
next
  case (6 s L l) then show ?case using ring_isempty[OF represents_ring] by fastforce
qed

definition store_rep :: "('h \<Rightarrow> 'n list) \<Rightarrow> ('h \<Rightarrow> 'n list) \<Rightarrow> bool" where
  "store_rep s L \<longleftrightarrow> s = L \<and> store_ok L"

lemma store_ok_push_front: "store_ok L \<Longrightarrow> unlinked n L \<Longrightarrow> store_ok (list_push_front l n L)"
  unfolding list_push_front_def
  by (rule store_ok_upd[where n = n]) (auto simp: unlinked_def store_ok_def)

lemma store_ok_push_back: "store_ok L \<Longrightarrow> unlinked n L \<Longrightarrow> store_ok (list_push_back l n L)"
  unfolding list_push_back_def
  by (rule store_ok_upd[where n = n]) (auto simp: unlinked_def store_ok_def)

lemma store_ok_place_before:
  assumes "store_ok L" "unlinked n L"
  shows "store_ok (list_place_before p n L)"
proof (cases "\<exists>l. p \<in> set (L l)")
  case True
  then obtain l where "p \<in> set (L l)" by blast
  then show ?thesis
    unfolding list_place_before_in[OF assms(1) \<open>p \<in> set (L l)\<close>] using assms
    by (intro store_ok_upd[where n = n]) (auto simp: unlinked_def store_ok_def)
next
  case False
  then have "list_place_before p n L = L" by (intro ext) (auto simp: list_place_before_def)
  then show ?thesis using assms by simp
qed

lemma store_ok_unlink: "store_ok L \<Longrightarrow> store_ok (list_unlink n L)"
  by (auto simp: store_ok_def list_unlink_def distinct_removeAll)

interpretation store_lists: list_store store_rep
  list_push_front list_push_back list_place_before list_unlink "\<lambda>l L. L l = []"
  by unfold_locales
    (auto simp: store_rep_def store_ok_push_front store_ok_push_back store_ok_place_before store_ok_unlink)


subsection \<open>Properties\<close>

text \<open>The nodes a loop over a list visits: \<open>k\<close> steps along the pointers \<open>f\<close>.\<close>

fun follow :: "('b \<Rightarrow> 'b) \<Rightarrow> nat \<Rightarrow> 'b \<Rightarrow> 'b list" where
  "follow f 0 a = []"
| "follow f (Suc k) a = f a # follow f k (f a)"

lemma follow_chain: "chain h a xs b \<Longrightarrow> follow (\<lambda>x. lnext (h x)) (Suc (length xs)) a = xs @ [b]"
  by (induction xs arbitrary: a) (simp_all add: linked_def)

lemma follow_back_chain: "chain h a xs b \<Longrightarrow> follow (\<lambda>x. lprev (h x)) (Suc (length xs)) b = rev xs @ [a]"
proof (induction xs arbitrary: b rule: rev_induct)
  case (snoc x xs)
  then have "lprev (h b) = x" "chain h a xs x" by (simp_all add: chain_append linked_def)
  then show ?case using snoc.IH[of x] by simp
qed (simp add: linked_def)

text \<open>C36: The pointer manipulations of \<^verbatim>\<open>rtservice.h\<close> implement the list store the rest of the kernel is stated
  over: after any sequence of insertions and removals, started from memory that represents the
  store, a loop along the \<^verbatim>\<open>next\<close> pointers from a head visits the nodes of its list in order and comes
  back to the head, a loop along \<^verbatim>\<open>prev\<close> visits them in reverse, and \<^verbatim>\<open>rt_list_isempty\<close> tells whether
  there are any.\<close>

theorem pointer_lists_refine_store:
  assumes "represents h L" "store_run ops L = Some L'"
  defines "h' \<equiv> fold pointer_lists.op_step ops h"
  shows "represents h' L'
    \<and> follow (\<lambda>a. lnext (h' a)) (Suc (length (L' l))) (Head l) = map Node (L' l) @ [Head l]
    \<and> follow (\<lambda>a. lprev (h' a)) (Suc (length (L' l))) (Head l) = rev (map Node (L' l)) @ [Head l]
    \<and> (rt_list_isempty (Head l) h' \<longleftrightarrow> L' l = [])"
proof -
  have r: "represents h' L'" unfolding h'_def using assms(1,2) by (rule pointer_lists.rep_run)
  then have "chain h' (Head l) (map Node (L' l)) (Head l)" using represents_ring[of h' L' l] by (simp add: ring_def)
  from follow_chain[OF this] follow_back_chain[OF this] show ?thesis
    using r pointer_lists.rep_is_empty[OF r, of l] by (simp del: follow.simps)
qed

theorem pointer_lists_refine_store_witness:
  "follow (\<lambda>a. lnext (fold pointer_lists.op_step [Push_back True 5, Push_front True 6, Place_before 5 7, Unlink 6]
       (\<lambda>a. \<lparr>lnext = a, lprev = a\<rparr>) a)) 3 (Head True) = [Node (7 :: nat), Node 5, Head True]"
proof -
  have r: "represents (\<lambda>a. \<lparr>lnext = a, lprev = a\<rparr>) (\<lambda>l :: bool. [] :: nat list)"
    by (simp add: represents_def store_ok_def ring_def linked_def)
  have o: "store_run [Push_back True 5, Push_front True 6, Place_before 5 7, Unlink 6] (\<lambda>l :: bool. [] :: nat list)
      = Some (\<lambda>l. if l then [7, 5] else [])"
    by (auto simp: unlinked_def list_push_back_def list_push_front_def list_place_before_def list_unlink_def fun_eq_iff)
  show ?thesis using pointer_lists_refine_store[OF r o, of True]
    by (simp only: if_True list.map list.size append.simps numeral_3_eq_3 add_0_right add_Suc_right)
qed

end
