(* ===== verification/Object.thy ===== *)
theory Object
  imports Mem RtList
begin

text \<open>
  The kernel object container, \<^verbatim>\<open>src/object.c\<close>: the header every kernel object starts with, and
  the list of the objects of each class, on the list store of \<^verbatim>\<open>RtList\<close>. An object is known by
  its address; a name is the array of \<open>RT_NAME_MAX\<close> bytes the header holds.
  \<open>object_size\<close> is the table of structure sizes of the container.
\<close>

record rt_object =
  o_name :: "8 word list"
  o_type :: rt_uint8_t
  o_flag :: rt_uint8_t

record obj_state = heap_state +
  objs :: "ptr \<Rightarrow> rt_object"
  object_list :: "rt_uint8_t \<Rightarrow> ptr list"
  object_size :: "rt_uint8_t \<Rightarrow> nat"

abbreviation (input) Class_Thread :: rt_uint8_t where "Class_Thread \<equiv> 0"
abbreviation (input) Class_Semaphore :: rt_uint8_t where "Class_Semaphore \<equiv> 1"
abbreviation (input) Class_Mutex :: rt_uint8_t where "Class_Mutex \<equiv> 2"
abbreviation (input) Class_Event :: rt_uint8_t where "Class_Event \<equiv> 3"
abbreviation (input) Class_MailBox :: rt_uint8_t where "Class_MailBox \<equiv> 4"
abbreviation (input) Class_MessageQueue :: rt_uint8_t where "Class_MessageQueue \<equiv> 5"
abbreviation (input) Class_MemPool :: rt_uint8_t where "Class_MemPool \<equiv> 6"
abbreviation (input) Class_Device :: rt_uint8_t where "Class_Device \<equiv> 7"
abbreviation (input) Class_Timer :: rt_uint8_t where "Class_Timer \<equiv> 8"
abbreviation (input) Class_Unknown :: rt_uint8_t where "Class_Unknown \<equiv> 9"
abbreviation (input) Class_Static :: rt_uint8_t where "Class_Static \<equiv> 0x80"

definition upd_obj :: "ptr \<Rightarrow> (rt_object \<Rightarrow> rt_object) \<Rightarrow> 'a obj_state_scheme \<Rightarrow> 'a obj_state_scheme" where
  "upd_obj p f s = s\<lparr>objs := (objs s)(p := f (objs s p))\<rparr>"

definition rt_object_init :: "ptr \<Rightarrow> rt_uint8_t \<Rightarrow> 8 word list \<Rightarrow> 'a obj_state_scheme
    \<Rightarrow> 'a obj_state_scheme option" where
  "rt_object_init p type name s =
     do { field \<leftarrow> rt_strncpy name RT_NAME_MAX;
          let s = upd_obj p (\<lambda>ob. ob\<lparr>o_type := type OR Class_Static, o_name := field\<rparr>) s;
          Some (s\<lparr>object_list := list_push_front type p (object_list s)\<rparr>) }"

definition rt_object_detach :: "ptr \<Rightarrow> 'a obj_state_scheme \<Rightarrow> 'a obj_state_scheme" where
  "rt_object_detach p s = s\<lparr>object_list := list_unlink p (object_list s)\<rparr>"

definition rt_object_allocate :: "rt_uint8_t \<Rightarrow> 8 word list \<Rightarrow> 'a obj_state_scheme
    \<Rightarrow> (nat option \<times> 'a obj_state_scheme) option" where
  "rt_object_allocate type name s =
     do { s \<leftarrow> RT_DEBUG_NOT_IN_INTERRUPT s;
          (a, s) \<leftarrow> rt_malloc (object_size s type) s;
          case a of
            None \<Rightarrow> Some (None, s)
          | Some p \<Rightarrow>
              do { field \<leftarrow> rt_strncpy name RT_NAME_MAX;
                   let s = upd_obj (At p) (\<lambda>ob. ob\<lparr>o_type := type, o_flag := 0, o_name := field\<rparr>) s;
                   Some (Some p, s\<lparr>object_list := list_push_front type (At p) (object_list s)\<rparr>) } }"

definition rt_object_delete :: "nat \<Rightarrow> 'a obj_state_scheme \<Rightarrow> 'a obj_state_scheme option" where
  "rt_object_delete p s =
     do { s \<leftarrow> RT_ASSERT (o_type (objs s (At p)) AND Class_Static = 0) s;
          let s = s\<lparr>object_list := list_unlink (At p) (object_list s)\<rparr>;
          rt_free (Some p) s }"

definition rt_object_is_systemobject :: "ptr \<Rightarrow> 'a obj_state_scheme \<Rightarrow> bool" where
  "rt_object_is_systemobject p s \<longleftrightarrow> o_type (objs s p) AND Class_Static \<noteq> 0"

text \<open>
  The walk over the list of a class that \<open>rt_object_find\<close>, \<open>rt_thread_find\<close> and
  \<open>rt_device_find\<close> share: the first object whose name compares equal.
\<close>

fun find_by_name :: "8 word list \<Rightarrow> ptr list \<Rightarrow> (ptr \<Rightarrow> rt_object) \<Rightarrow> ptr option option" where
  "find_by_name name [] ob = Some None"
| "find_by_name name (p # ps) ob =
     do { r \<leftarrow> rt_strncmp (o_name (ob p)) name RT_NAME_MAX;
          if r = 0 then Some (Some p) else find_by_name name ps ob }"

end
