(* ===== verification/Timer.thy ===== *)
theory Timer
  imports Object
begin

text \<open>
  Timers, \<^verbatim>\<open>src/timer.c\<close>, and the tick counter they compare with. The active timers are kept in
  a skip list: \<open>rt_timer_list\<close> holds its rows from the sparsest to the full one, the last, and
  the operations are written for any number of rows (\<^verbatim>\<open>RT_TIMER_SKIP_LIST_LEVEL\<close>, 1 in the
  configuration). The flags of a timer are those of its object header. A timeout function is
  called through the parameter \<open>dispatch\<close> of \<open>rt_timer_check\<close>, which maps the function pointer
  and its argument to what the call does to the state.
\<close>

datatype timeout_fn = Thread_timeout | Timeout_fn nat

record rt_timer =
  timeout_func :: timeout_fn
  timer_parameter :: nat
  timer_init_tick :: rt_tick_t
  timeout_tick :: rt_tick_t

record timer_state = obj_state +
  rt_tick :: rt_tick_t
  timers :: "ptr \<Rightarrow> rt_timer"
  rt_timer_list :: "ptr list list"
  random_nr :: rt_uint32_t

abbreviation (input) TIMER_ACTIVATED :: rt_uint8_t where "TIMER_ACTIVATED \<equiv> 1"
abbreviation (input) TIMER_PERIODIC :: rt_uint8_t where "TIMER_PERIODIC \<equiv> 2"
abbreviation (input) SKIP_LIST_MASK :: rt_uint32_t where "SKIP_LIST_MASK \<equiv> 3"

definition upd_timer :: "ptr \<Rightarrow> (rt_timer \<Rightarrow> rt_timer) \<Rightarrow> 'a timer_state_scheme \<Rightarrow> 'a timer_state_scheme" where
  "upd_timer p f s = s\<lparr>timers := (timers s)(p := f (timers s p))\<rparr>"

definition rt_tick_get :: "'a timer_state_scheme \<Rightarrow> rt_tick_t" where
  "rt_tick_get s = rt_tick s"

definition rt_tick_set :: "rt_tick_t \<Rightarrow> 'a timer_state_scheme \<Rightarrow> 'a timer_state_scheme" where
  "rt_tick_set tick s = s\<lparr>rt_tick := tick\<rparr>"

definition rt_tick_from_millisecond :: "rt_uint32_t \<Rightarrow> rt_tick_t" where
  "rt_tick_from_millisecond ms = (100 * ms + 999) div 1000"

definition rt_system_timer_init :: "'a timer_state_scheme \<Rightarrow> 'a timer_state_scheme" where
  "rt_system_timer_init s = s\<lparr>rt_timer_list := map (\<lambda>_. []) (rt_timer_list s)\<rparr>"

text \<open>\<^verbatim>\<open>_rt_timer_init\<close>, for a timer that is in no list.\<close>

definition do_rt_timer_init :: "ptr \<Rightarrow> timeout_fn \<Rightarrow> nat \<Rightarrow> rt_tick_t \<Rightarrow> rt_uint8_t
    \<Rightarrow> 'a timer_state_scheme \<Rightarrow> 'a timer_state_scheme" where
  "do_rt_timer_init p timeout param time flag s =
     upd_timer p (\<lambda>_. \<lparr>timeout_func = timeout, timer_parameter = param,
         timer_init_tick = time, timeout_tick = 0\<rparr>)
       (upd_obj p (\<lambda>ob. ob\<lparr>o_flag := flag AND NOT TIMER_ACTIVATED\<rparr>) s)"

definition rt_timer_init :: "ptr \<Rightarrow> 8 word list \<Rightarrow> timeout_fn \<Rightarrow> nat \<Rightarrow> rt_tick_t \<Rightarrow> rt_uint8_t
    \<Rightarrow> 'a timer_state_scheme \<Rightarrow> 'a timer_state_scheme option" where
  "rt_timer_init p name timeout param time flag s =
     do { s \<leftarrow> rt_object_init p Class_Timer name s;
          Some (do_rt_timer_init p timeout param time flag s) }"

definition rt_timer_remove :: "ptr \<Rightarrow> 'a timer_state_scheme \<Rightarrow> 'a timer_state_scheme" where
  "rt_timer_remove p s = s\<lparr>rt_timer_list := map (removeAll p) (rt_timer_list s)\<rparr>"

definition rt_timer_detach :: "ptr \<Rightarrow> 'a timer_state_scheme \<Rightarrow> 'a timer_state_scheme" where
  "rt_timer_detach p s = rt_object_detach p (rt_timer_remove p s)"

definition rt_timer_create :: "8 word list \<Rightarrow> timeout_fn \<Rightarrow> nat \<Rightarrow> rt_tick_t \<Rightarrow> rt_uint8_t
    \<Rightarrow> 'a timer_state_scheme \<Rightarrow> (nat option \<times> 'a timer_state_scheme) option" where
  "rt_timer_create name timeout param time flag s =
     do { (a, s) \<leftarrow> rt_object_allocate Class_Timer name s;
          case a of
            None \<Rightarrow> Some (None, s)
          | Some p \<Rightarrow> Some (Some p, do_rt_timer_init (At p) timeout param time flag s) }"

definition rt_timer_delete :: "nat \<Rightarrow> 'a timer_state_scheme \<Rightarrow> 'a timer_state_scheme option" where
  "rt_timer_delete p s = rt_object_delete p (rt_timer_remove (At p) s)"

subsection \<open>Starting a timer\<close>

text \<open>Whether an active timer stops the walk of the one being inserted.\<close>

definition timer_later :: "'a timer_state_scheme \<Rightarrow> rt_tick_t \<Rightarrow> ptr \<Rightarrow> bool" where
  "timer_later s tick t \<longleftrightarrow>
     (let d = timeout_tick (timers s t) - tick in d \<noteq> 0 \<and> d < RT_TICK_HALF)"

text \<open>
  The walk in one row, from the position the row above ended at: \<open>None\<close> is the head of the
  row, \<open>Some p\<close> the node of the timer \<open>p\<close>.
\<close>

definition row_walk :: "(ptr \<Rightarrow> bool) \<Rightarrow> ptr option \<Rightarrow> ptr list \<Rightarrow> ptr option" where
  "row_walk later h xs =
     (let rest = (case h of None \<Rightarrow> xs | Some p \<Rightarrow> tl (dropWhile (\<lambda>x. x \<noteq> p) xs));
          ys = takeWhile (\<lambda>x. \<not> later x) rest
      in if ys = [] then h else Some (last ys))"

fun row_heads :: "(ptr \<Rightarrow> bool) \<Rightarrow> ptr option \<Rightarrow> ptr list list \<Rightarrow> ptr option list" where
  "row_heads later h [] = []"
| "row_heads later h (xs # rows) =
     (let h' = row_walk later h xs in h' # row_heads later h' rows)"

fun insert_after :: "ptr option \<Rightarrow> ptr \<Rightarrow> ptr list \<Rightarrow> ptr list" where
  "insert_after None n xs = n # xs"
| "insert_after (Some p) n [] = [n]"
| "insert_after (Some p) n (x # xs) =
     (if x = p then x # n # xs else x # insert_after (Some p) n xs)"

text \<open>The rows above the full one, from below, as long as the counter bits are clear.\<close>

fun insert_upper :: "ptr \<Rightarrow> rt_uint32_t \<Rightarrow> (ptr option \<times> ptr list) list \<Rightarrow> ptr list list" where
  "insert_upper p tst_nr [] = []"
| "insert_upper p tst_nr ((h, xs) # up) =
     (if tst_nr AND SKIP_LIST_MASK = 0
      then insert_after h p xs # insert_upper p (drop_bit 2 tst_nr) up
      else xs # map snd up)"

definition insert_rows :: "ptr \<Rightarrow> rt_uint32_t \<Rightarrow> ptr option list \<Rightarrow> ptr list list \<Rightarrow> ptr list list" where
  "insert_rows p tst_nr heads rows =
     (case rev (zip heads rows) of
        [] \<Rightarrow> []
      | (h, xs) # up \<Rightarrow> rev (insert_after h p xs # insert_upper p tst_nr up))"

definition rt_timer_start :: "ptr \<Rightarrow> 'a timer_state_scheme \<Rightarrow> (rt_err_t \<times> 'a timer_state_scheme) option" where
  "rt_timer_start p s =
     (if o_flag (objs s p) AND TIMER_ACTIVATED \<noteq> 0 then Some (- RT_ERROR, s)
      else
        do { s \<leftarrow> RT_ASSERT (timer_init_tick (timers s p) < RT_TICK_HALF) s;
             let tick = rt_tick_get s + timer_init_tick (timers s p);
             let s = upd_timer p (\<lambda>t. t\<lparr>timeout_tick := tick\<rparr>) s;
             let heads = row_heads (timer_later s tick) None (rt_timer_list s);
             let s = s\<lparr>random_nr := random_nr s + 1\<rparr>;
             let s = s\<lparr>rt_timer_list := insert_rows p (random_nr s) heads (rt_timer_list s)\<rparr>;
             Some (- RT_EOK, upd_obj p (\<lambda>ob. ob\<lparr>o_flag := o_flag ob OR TIMER_ACTIVATED\<rparr>) s) })"

definition rt_timer_stop :: "ptr \<Rightarrow> 'a timer_state_scheme \<Rightarrow> rt_err_t \<times> 'a timer_state_scheme" where
  "rt_timer_stop p s =
     (if o_flag (objs s p) AND TIMER_ACTIVATED = 0 then (- RT_ERROR, s)
      else (RT_EOK, upd_obj p (\<lambda>ob. ob\<lparr>o_flag := o_flag ob AND NOT TIMER_ACTIVATED\<rparr>)
              (rt_timer_remove p s)))"

text \<open>The argument of a control command is the word it points to, returned as the call leaves it.\<close>

definition rt_timer_control :: "ptr \<Rightarrow> rt_uint8_t \<Rightarrow> rt_tick_t \<Rightarrow> 'a timer_state_scheme
    \<Rightarrow> rt_tick_t \<times> 'a timer_state_scheme" where
  "rt_timer_control p cmd arg s =
     (if cmd = 1 then (timer_init_tick (timers s p), s)
      else if cmd = 0 then (arg, upd_timer p (\<lambda>t. t\<lparr>timer_init_tick := arg\<rparr>) s)
      else if cmd = 2 then (arg, upd_obj p (\<lambda>ob. ob\<lparr>o_flag := o_flag ob AND NOT TIMER_PERIODIC\<rparr>) s)
      else if cmd = 3 then (arg, upd_obj p (\<lambda>ob. ob\<lparr>o_flag := o_flag ob OR TIMER_PERIODIC\<rparr>) s)
      else (arg, s))"

subsection \<open>The timer interrupt\<close>

definition active_timers :: "'a timer_state_scheme \<Rightarrow> ptr list" where
  "active_timers s = last (rt_timer_list s)"

partial_function (option) timer_check_loop :: "(timeout_fn \<Rightarrow> nat \<Rightarrow> 'a timer_state_scheme \<Rightarrow> 'a timer_state_scheme option)
    \<Rightarrow> rt_tick_t \<Rightarrow> 'a timer_state_scheme \<Rightarrow> 'a timer_state_scheme option" where
  "timer_check_loop dispatch current_tick s =
     (case active_timers s of
        [] \<Rightarrow> Some s
      | t # _ \<Rightarrow>
          if current_tick - timeout_tick (timers s t) < RT_TICK_HALF then
            do { s \<leftarrow> dispatch (timeout_func (timers s t)) (timer_parameter (timers s t))
                   (rt_timer_remove t s);
                 let flag = o_flag (objs s t);
                 let off = upd_obj t (\<lambda>ob. ob\<lparr>o_flag := o_flag ob AND NOT TIMER_ACTIVATED\<rparr>) s;
                 if flag AND TIMER_PERIODIC \<noteq> 0 \<and> flag AND TIMER_ACTIVATED \<noteq> 0 then
                   do { (r, s') \<leftarrow> rt_timer_start t off;
                        timer_check_loop dispatch (rt_tick_get s) s' }
                 else timer_check_loop dispatch (rt_tick_get s) off }
          else Some s)"

definition rt_timer_check :: "(timeout_fn \<Rightarrow> nat \<Rightarrow> 'a timer_state_scheme \<Rightarrow> 'a timer_state_scheme option)
    \<Rightarrow> 'a timer_state_scheme \<Rightarrow> 'a timer_state_scheme option" where
  "rt_timer_check dispatch s = timer_check_loop dispatch (rt_tick_get s) s"

definition rt_timer_next_timeout_tick :: "'a timer_state_scheme \<Rightarrow> rt_tick_t" where
  "rt_timer_next_timeout_tick s =
     (case active_timers s of [] \<Rightarrow> 0xffffffff | t # _ \<Rightarrow> timeout_tick (timers s t))"

definition rt_timer_count_height :: "ptr \<Rightarrow> 'a timer_state_scheme \<Rightarrow> nat" where
  "rt_timer_count_height p s = length (filter (\<lambda>row. p \<in> set row) (rt_timer_list s))"

text \<open>The numbers \<open>rt_timer_dump\<close> prints.\<close>

definition rt_timer_dump :: "'a timer_state_scheme \<Rightarrow> nat list" where
  "rt_timer_dump s = map (\<lambda>t. rt_timer_count_height t s) (active_timers s)"

lemma flag_on [simp]: "(f OR 1) AND 1 = (1 :: rt_uint8_t)"
  by (rule bit_word_eqI) (auto simp: bit_simps)

lemma flag_off [simp]:
  "(f AND - 2) AND 1 = (0 :: rt_uint8_t)" "(f AND - 2) AND 2 = f AND (2 :: rt_uint8_t)"
  by (simp_all add: and.assoc)

subsection \<open>Insertion into the rows\<close>

text \<open>
  \<open>timer_insert later n xs\<close> is where the source means to put a timer into a row: behind the
  timers that are not later. In a row whose later timers all come last, the walk finds that
  place, whichever position of the row above it starts from.
\<close>

definition timer_insert :: "(ptr \<Rightarrow> bool) \<Rightarrow> ptr \<Rightarrow> ptr list \<Rightarrow> ptr list" where
  "timer_insert later n xs = filter (\<lambda>x. \<not> later x) xs @ n # filter later xs"

definition row_mono :: "(ptr \<Rightarrow> bool) \<Rightarrow> ptr list \<Rightarrow> bool" where
  "row_mono later xs \<longleftrightarrow> xs = filter (\<lambda>x. \<not> later x) xs @ filter later xs"

definition row_pos :: "(ptr \<Rightarrow> bool) \<Rightarrow> ptr list \<Rightarrow> ptr option" where
  "row_pos later xs = (let ys = filter (\<lambda>x. \<not> later x) xs in if ys = [] then None else Some (last ys))"

lemma row_mono_takeWhile:
  assumes "row_mono later xs"
  shows "takeWhile (\<lambda>x. \<not> later x) xs = filter (\<lambda>x. \<not> later x) xs"
proof -
  let ?a = "filter (\<lambda>x. \<not> later x) xs" and ?b = "filter later xs"
  have "takeWhile (\<lambda>x. \<not> later x) (?a @ ?b) = ?a @ takeWhile (\<lambda>x. \<not> later x) ?b"
    by (rule takeWhile_append2) simp
  also have "takeWhile (\<lambda>x. \<not> later x) ?b = []" by (induction xs) auto
  finally have "takeWhile (\<lambda>x. \<not> later x) (?a @ ?b) = ?a" by simp
  with arg_cong[OF assms[unfolded row_mono_def], of "takeWhile (\<lambda>x. \<not> later x)"] show ?thesis
    by (rule trans)
qed

lemma row_walk_pos:
  assumes m: "row_mono later xs" and d: "distinct xs"
    and h: "h = None \<or> (\<exists>p. h = Some p \<and> p \<in> set xs \<and> \<not> later p)"
  shows "row_walk later h xs = row_pos later xs"
proof (cases h)
  case None
  then show ?thesis by (simp add: row_walk_def row_pos_def row_mono_takeWhile[OF m] Let_def)
next
  case (Some p)
  then have p: "p \<in> set xs" "\<not> later p" using h by auto
  let ?a = "filter (\<lambda>x. \<not> later x) xs" and ?b = "filter later xs"
  have pa: "p \<in> set ?a" using p by simp
  then obtain us vs where a: "?a = us @ p # vs" "p \<notin> set us" using split_list_first by metis
  have xs: "xs = us @ p # vs @ ?b" using m a(1) unfolding row_mono_def by simp
  have "dropWhile (\<lambda>x. x \<noteq> p) xs = p # vs @ ?b"
  proof -
    have "dropWhile (\<lambda>x. x \<noteq> p) (us @ p # vs @ ?b) = dropWhile (\<lambda>x. x \<noteq> p) (p # vs @ ?b)"
      using a(2) by (intro dropWhile_append2) auto
    with arg_cong[OF xs, of "dropWhile (\<lambda>x. x \<noteq> p)"] show ?thesis by simp
  qed
  moreover have "takeWhile (\<lambda>x. \<not> later x) (vs @ ?b) = vs"
  proof -
    have "\<not> later x" if "x \<in> set vs" for x
    proof -
      have "x \<in> set ?a" using a(1) that by simp
      then show ?thesis by simp
    qed
    then have "takeWhile (\<lambda>x. \<not> later x) (vs @ ?b) = vs @ takeWhile (\<lambda>x. \<not> later x) ?b"
      by (intro takeWhile_append2) auto
    moreover have "takeWhile (\<lambda>x. \<not> later x) (filter later ys) = []" for ys by (induction ys) auto
    ultimately show ?thesis by simp
  qed
  ultimately show ?thesis using Some a(1) by (simp add: row_walk_def row_pos_def Let_def)
qed

lemma insert_after_last:
  "distinct (us @ vs) \<Longrightarrow> us \<noteq> [] \<Longrightarrow> insert_after (Some (last us)) n (us @ vs) = us @ n # vs"
proof (induction us)
  case (Cons u us)
  show ?case
  proof (cases "us = []")
    case False
    then have "u \<noteq> last us" using Cons.prems by auto
    with False Cons show ?thesis by simp
  qed simp
qed simp

lemma insert_at_row_pos:
  assumes "row_mono later xs" "distinct xs"
  shows "insert_after (row_pos later xs) n xs = timer_insert later n xs"
proof -
  let ?a = "filter (\<lambda>x. \<not> later x) xs" and ?b = "filter later xs"
  have xs: "xs = ?a @ ?b" using assms(1) by (simp add: row_mono_def)
  show ?thesis
  proof (cases "?a = []")
    case True
    then have "filter later xs = xs" using xs by simp
    then show ?thesis using True by (simp add: row_pos_def timer_insert_def)
  next
    case False
    have "insert_after (Some (last ?a)) n (?a @ ?b) = ?a @ n # ?b"
      using insert_after_last[of ?a ?b n] False assms(2) xs by metis
    then show ?thesis using False xs by (simp add: row_pos_def timer_insert_def)
  qed
qed

lemma row_heads_pos:
  assumes "\<forall>xs\<in>set rows. row_mono later xs \<and> distinct xs" "sorted_wrt (\<lambda>xs ys. set xs \<subseteq> set ys) rows"
    "h = None \<or> (\<exists>p. h = Some p \<and> \<not> later p \<and> (\<forall>xs\<in>set rows. p \<in> set xs))"
  shows "row_heads later h rows = map (row_pos later) rows"
  using assms
proof (induction rows arbitrary: h)
  case (Cons xs rows)
  have w: "row_walk later h xs = row_pos later xs"
    using Cons.prems by (intro row_walk_pos) auto
  have "row_pos later xs = None \<or> (\<exists>p. row_pos later xs = Some p \<and> \<not> later p \<and> (\<forall>ys\<in>set rows. p \<in> set ys))"
  proof (cases "row_pos later xs")
    case (Some p)
    then have "p \<in> set (filter (\<lambda>x. \<not> later x) xs)"
      by (auto simp: row_pos_def Let_def split: if_splits dest: last_in_set)
    then show ?thesis using Some Cons.prems(2) by auto
  qed simp
  then have "row_heads later (row_pos later xs) rows = map (row_pos later) rows"
    using Cons.prems by (intro Cons.IH) auto
  then show ?case by (simp add: w Let_def)
qed simp

text \<open>The rows after an insertion: the new timer is in the lowest \<open>k\<close> rows, at least in the full one.\<close>

lemma insert_upper_prefix:
  assumes "\<forall>xs\<in>set ups. row_mono later xs \<and> distinct xs"
  shows "\<exists>k. insert_upper p tst (map (\<lambda>xs. (row_pos later xs, xs)) ups)
    = map (timer_insert later p) (take k ups) @ drop k ups"
  using assms
proof (induction ups arbitrary: tst)
  case (Cons xs ups)
  then obtain k where k: "insert_upper p (drop_bit 2 tst) (map (\<lambda>xs. (row_pos later xs, xs)) ups)
      = map (timer_insert later p) (take k ups) @ drop k ups"
    by (metis list.set_intros(2))
  show ?case
  proof (cases "tst AND SKIP_LIST_MASK = 0")
    case True
    then show ?thesis using k insert_at_row_pos[of later xs p] Cons.prems
      by (intro exI[of _ "Suc k"]) simp
  next
    case False
    have "map snd (map (\<lambda>xs. (row_pos later xs, xs)) ups) = ups" by (simp add: comp_def)
    then show ?thesis using False by (intro exI[of _ 0]) simp
  qed
qed simp

lemma insert_rows_result:
  assumes "\<forall>xs\<in>set rows. row_mono later xs \<and> distinct xs" "rows \<noteq> []"
  shows "\<exists>k. insert_rows p tst (map (row_pos later) rows) rows
    = rev (map (timer_insert later p) (take (Suc k) (rev rows)) @ drop (Suc k) (rev rows))"
proof -
  obtain xs ups where r: "rev rows = xs # ups" using assms(2) by (cases "rev rows") auto
  have "zip (map (row_pos later) rows) rows = map (\<lambda>xs. (row_pos later xs, xs)) rows"
    by (induction rows) auto
  then have z: "rev (zip (map (row_pos later) rows) rows) = map (\<lambda>xs. (row_pos later xs, xs)) (xs # ups)"
    by (simp only: rev_map r)
  have "set (xs # ups) = set rows" using r by (metis set_rev)
  then have ok: "\<forall>ys\<in>set (xs # ups). row_mono later ys \<and> distinct ys" using assms(1) by simp
  then obtain k where "insert_upper p tst (map (\<lambda>xs. (row_pos later xs, xs)) ups)
    = map (timer_insert later p) (take k ups) @ drop k ups"
    using insert_upper_prefix[of ups later p tst] by auto
  then show ?thesis using z r insert_at_row_pos[of later xs p] ok
    by (intro exI[of _ k]) (simp add: insert_rows_def)
qed

subsection \<open>The timer invariant\<close>

text \<open>
  Ticks wrap around, so timers are compared relative to a base: \<open>tkey b s t\<close> is how far the
  timeout of \<open>t\<close> lies beyond \<open>b\<close>. With the base one tick before now, a timer started now with
  an \<open>init_tick\<close> below half the range has a key from 1 to half the range, and a timer is
  expired when its key is at most 1.
\<close>

definition tkey :: "rt_tick_t \<Rightarrow> 'a timer_state_scheme \<Rightarrow> ptr \<Rightarrow> nat" where
  "tkey b s t = unat (timeout_tick (timers s t) - b)"

definition rows_ok :: "(ptr \<Rightarrow> nat) \<Rightarrow> ptr list list \<Rightarrow> bool" where
  "rows_ok key rows \<longleftrightarrow> rows \<noteq> [] \<and> sorted_wrt subseq rows
     \<and> distinct (last rows) \<and> sorted (map key (last rows))"

definition timer_inv :: "'a timer_state_scheme \<Rightarrow> bool" where
  "timer_inv s \<longleftrightarrow> rows_ok (tkey (rt_tick s - 1) s) (rt_timer_list s)
     \<and> (\<forall>t\<in>set (active_timers s). tkey (rt_tick s - 1) s t \<le> 0x7fffffff
          \<and> o_flag (objs s t) AND TIMER_ACTIVATED \<noteq> 0)"

definition expired :: "'a timer_state_scheme \<Rightarrow> ptr \<Rightarrow> bool" where
  "expired s t \<longleftrightarrow> rt_tick s - timeout_tick (timers s t) < RT_TICK_HALF"

lemma subseq_distinct_sorted:
  assumes "subseq xs ys"
  shows "distinct ys \<Longrightarrow> distinct xs" "sorted (map (key :: 'a \<Rightarrow> nat) ys) \<Longrightarrow> sorted (map key xs)"
  using assms
proof (induction rule: list_emb.induct)
  case (list_emb_Cons2 x y xs ys)
  then have "set xs \<subseteq> set ys" by (auto dest: list_emb_set)
  { case 1 with list_emb_Cons2 \<open>set xs \<subseteq> set ys\<close> show ?case by auto }
  { case 2 with list_emb_Cons2 \<open>set xs \<subseteq> set ys\<close> show ?case by auto }
qed auto

lemma rows_ok_rows:
  assumes "rows_ok key rows" "xs \<in> set rows"
  shows "subseq xs (last rows)" "distinct xs" "sorted (map key xs)"
proof -
  obtain us where r: "rows = us @ [last rows]"
    using assms(1) by (metis append_butlast_last_id rows_ok_def)
  then have "sorted_wrt subseq (us @ [last rows])" using assms(1) by (metis rows_ok_def)
  then have "xs \<in> set us \<Longrightarrow> subseq xs (last rows)" by (simp add: sorted_wrt_append)
  moreover have "xs \<in> set us \<or> xs = last rows" using assms(2) r by (metis Un_iff empty_iff empty_set insert_iff list.set(2) set_append)
  ultimately show s: "subseq xs (last rows)" by auto
  have "distinct (last rows)" "sorted (map key (last rows))" using assms(1) by (simp_all add: rows_ok_def)
  with s show "distinct xs" "sorted (map key xs)"
    using subseq_distinct_sorted by blast+
qed

lemma sorted_row_mono:
  assumes "sorted (map key xs)" "\<forall>x\<in>set xs. later x \<longleftrightarrow> c < (key x :: nat)"
  shows "row_mono later xs"
  using assms
proof (induction xs)
  case (Cons x xs)
  then have IH: "xs = filter (\<lambda>x. \<not> later x) xs @ filter later xs" by (simp add: row_mono_def)
  show ?case
  proof (cases "later x")
    case True
    then have "\<forall>y\<in>set xs. later y" using Cons.prems by fastforce
    then have "filter (\<lambda>x. \<not> later x) xs = []" "filter later xs = xs" by (auto simp: filter_empty_conv)
    then show ?thesis using True by (simp add: row_mono_def)
  next
    case False
    then show ?thesis using IH by (simp add: row_mono_def)
  qed
qed (simp add: row_mono_def)

lemma timer_insert_sorted:
  assumes "sorted (map key xs)" "\<forall>x\<in>set xs. later x \<longleftrightarrow> key n < (key x :: nat)"
  shows "sorted (map key (timer_insert later n xs))"
proof -
  have "sorted (map key (filter P xs))" for P
    using assms(1) by (simp add: sorted_filter)
  then show ?thesis using assms(2)
    by (fastforce simp: timer_insert_def sorted_append)
qed

lemma set_timer_insert [simp]: "set (timer_insert later n xs) = insert n (set xs)"
  by (auto simp: timer_insert_def)

lemma distinct_timer_insert: "distinct xs \<Longrightarrow> n \<notin> set xs \<Longrightarrow> distinct (timer_insert later n xs)"
  by (auto simp: timer_insert_def)

lemma subseq_timer_insert:
  "subseq xs ys \<Longrightarrow> subseq (timer_insert later n xs) (timer_insert later n ys)"
  unfolding timer_insert_def by (intro list_emb_append_mono) (auto intro: subseq_filter)

lemma subseq_into_insert:
  assumes "row_mono later ys" "subseq xs ys"
  shows "subseq xs (timer_insert later n ys)"
proof -
  have "subseq ys (timer_insert later n ys)"
    using assms(1) unfolding row_mono_def timer_insert_def
    by (metis list_emb_append_mono subseq_Cons' subseq_order.order_refl)
  then show ?thesis using assms(2) by (rule subseq_order.trans[rotated])
qed

subsection \<open>Arithmetic of ticks\<close>

lemma tick_diff_later:
  fixes a c :: rt_tick_t
  assumes "unat a \<le> 0x7fffffff" "unat c \<le> 0x7fffffff" "1 \<le> unat c"
  shows "a - c \<noteq> 0 \<and> a - c < RT_TICK_HALF \<longleftrightarrow> unat c < unat a"
proof (cases "c \<le> a")
  case True
  then have "unat (a - c) = unat a - unat c" by (rule unat_sub)
  moreover have "a - c = 0 \<longleftrightarrow> unat (a - c) = 0" by (simp add: unat_eq_0)
  ultimately show ?thesis using assms by (auto simp: word_less_nat_alt)
next
  case False
  then have "unat a < unat c" by (simp add: word_le_nat_alt not_le)
  moreover have "unat (a - c) = unat a + 2 ^ 32 - unat c"
    using \<open>unat a < unat c\<close> by (simp add: unat_sub_if_size word_size)
  ultimately show ?thesis using assms by (auto simp: word_less_nat_alt)
qed

lemma timer_later_key:
  assumes "tkey b s t \<le> 0x7fffffff" "unat (tick - b) \<le> 0x7fffffff" "1 \<le> unat (tick - b)"
  shows "timer_later s tick t \<longleftrightarrow> unat (tick - b) < tkey b s t"
proof -
  have "timeout_tick (timers s t) - tick = (timeout_tick (timers s t) - b) - (tick - b)" by simp
  then show ?thesis using tick_diff_later[OF _ assms(2,3)] assms(1)
    unfolding timer_later_def tkey_def Let_def by metis
qed

lemma expired_key:
  assumes "tkey (rt_tick s - 1) s t \<le> 0x7fffffff"
  shows "expired s t \<longleftrightarrow> tkey (rt_tick s - 1) s t \<le> 1"
proof -
  define a where "a = timeout_tick (timers s t) - (rt_tick s - 1)"
  have d: "rt_tick s - timeout_tick (timers s t) = 1 - a" by (simp add: a_def)
  have k: "tkey (rt_tick s - 1) s t = unat a" by (simp add: tkey_def a_def)
  show ?thesis
  proof (cases "unat a \<le> 1")
    case True
    then have "a \<le> 1" by (simp add: word_le_nat_alt)
    then have "unat (1 - a) \<le> 1" by (subst unat_sub) simp_all
    then show ?thesis using True by (simp add: expired_def d k word_less_nat_alt)
  next
    case False
    then have "unat (1 - a) = 1 + 2 ^ 32 - unat a" by (simp add: unat_sub_if_size word_size)
    then show ?thesis using False assms by (simp add: expired_def d k word_less_nat_alt)
  qed
qed

subsection \<open>The operations keep the invariant\<close>

lemma active_in_rows: "timer_inv s \<Longrightarrow> active_timers s \<in> set (rt_timer_list s)"
  by (auto simp: timer_inv_def rows_ok_def active_timers_def)

lemma timer_inv_rowsD:
  assumes "timer_inv s" "xs \<in> set (rt_timer_list s)"
  shows "distinct xs" "sorted (map (tkey (rt_tick s - 1) s) xs)" "set xs \<subseteq> set (active_timers s)"
  using rows_ok_rows[of "tkey (rt_tick s - 1) s" "rt_timer_list s" xs] assms
  by (auto simp: timer_inv_def active_timers_def dest: list_emb_set)

lemma timer_insert_cong:
  "(\<And>x. x \<in> set xs \<Longrightarrow> later x = later' x) \<Longrightarrow> timer_insert later n xs = timer_insert later' n xs"
  unfolding timer_insert_def by (auto cong: filter_cong)

lemma nested_insert:
  assumes "sorted_wrt (\<lambda>ys xs. subseq xs ys) rr" "\<forall>xs\<in>set rr. row_mono later xs"
  shows "sorted_wrt (\<lambda>ys xs. subseq xs ys) (map (timer_insert later p) (take k rr) @ drop k rr)"
proof -
  have "sorted_wrt (\<lambda>ys xs. subseq xs ys) (take k rr @ drop k rr)" using assms(1) by simp
  then have *: "sorted_wrt (\<lambda>ys xs. subseq xs ys) (take k rr)" "sorted_wrt (\<lambda>ys xs. subseq xs ys) (drop k rr)"
    "\<forall>xs\<in>set (take k rr). \<forall>ys\<in>set (drop k rr). subseq ys xs"
    unfolding sorted_wrt_append by blast+
  have "sorted_wrt (\<lambda>ys xs. subseq xs ys) (map (timer_insert later p) (take k rr))"
    unfolding sorted_wrt_map
    by (rule sorted_wrt_mono_rel[OF _ *(1)]) (rule subseq_timer_insert)
  moreover have "\<forall>xs\<in>set (take k rr). \<forall>ys\<in>set (drop k rr). subseq ys (timer_insert later p xs)"
    using *(3) assms(2) by (meson in_set_takeD subseq_into_insert)
  ultimately show ?thesis using *(2) by (simp add: sorted_wrt_append)
qed

text \<open>Inserting a timer into the rows: still rows of a skip list, the full one with the timer in its place.\<close>

lemma rows_insert:
  assumes ok: "rows_ok key rows" and p: "p \<notin> set (last rows)"
    and later: "\<forall>x\<in>set (last rows). later x \<longleftrightarrow> n < key x"
    and key': "\<forall>x\<in>set (last rows). key' x = key x" "key' p = n"
  shows "rows_ok key' (insert_rows p tst (row_heads later None rows) rows)"
    "last (insert_rows p tst (row_heads later None rows) rows) = timer_insert later p (last rows)"
proof -
  have ne: "rows \<noteq> []" and sub: "sorted_wrt subseq rows" using ok by (simp_all add: rows_ok_def)
  have rows: "\<forall>xs\<in>set rows. row_mono later xs \<and> distinct xs"
  proof
    fix xs assume "xs \<in> set rows"
    note R = rows_ok_rows[OF ok this]
    have "set xs \<subseteq> set (last rows)" using R(1) by (auto dest: list_emb_set)
    then show "row_mono later xs \<and> distinct xs" using R sorted_row_mono[OF R(3), of later n] later by blast
  qed
  have "sorted_wrt (\<lambda>xs ys. set xs \<subseteq> set ys) rows"
    by (rule sorted_wrt_mono_rel[OF _ sub]) (auto dest: list_emb_set)
  then have "row_heads later None rows = map (row_pos later) rows"
    using rows by (intro row_heads_pos) auto
  then obtain k where k: "insert_rows p tst (row_heads later None rows) rows
      = rev (map (timer_insert later p) (take (Suc k) (rev rows)) @ drop (Suc k) (rev rows))"
    using insert_rows_result[OF rows ne, of p tst] by metis
  obtain us where us: "rev rows = last rows # us" using ne by (metis append_butlast_last_id rev_eq_Cons_iff rev_rev_ident)
  show l: "last (insert_rows p tst (row_heads later None rows) rows) = timer_insert later p (last rows)"
    unfolding k us by (simp add: last_rev)
  have "sorted_wrt (\<lambda>ys xs. subseq xs ys) (rev rows)" using sub by (simp add: sorted_wrt_rev)
  then have "sorted_wrt subseq (insert_rows p tst (row_heads later None rows) rows)"
    unfolding k sorted_wrt_rev using rows by (intro nested_insert) (auto simp: sorted_wrt_rev)
  moreover have "sorted (map key' (timer_insert later p (last rows)))"
  proof (rule timer_insert_sorted)
    have "map key' (last rows) = map key (last rows)" using key'(1) by (intro map_cong) auto
    moreover have "sorted (map key (last rows))" using ok by (simp add: rows_ok_def)
    ultimately show "sorted (map key' (last rows))" by metis
    show "\<forall>x\<in>set (last rows). later x \<longleftrightarrow> key' p < key' x" using later key' by simp
  qed
  moreover have "distinct (timer_insert later p (last rows))"
    using ok p by (intro distinct_timer_insert) (simp_all add: rows_ok_def)
  moreover have "insert_rows p tst (row_heads later None rows) rows \<noteq> []" unfolding k us by simp
  ultimately show "rows_ok key' (insert_rows p tst (row_heads later None rows) rows)"
    by (simp add: rows_ok_def l)
qed

text \<open>The state \<open>rt_timer_start\<close> leaves, with the active timers in the order of their keys.\<close>

lemma rt_timer_start_ok:
  assumes inv: "timer_inv s" and off: "o_flag (objs s p) AND TIMER_ACTIVATED = 0"
    and init: "timer_init_tick (timers s p) < RT_TICK_HALF"
  defines "n \<equiv> unat (timer_init_tick (timers s p)) + 1"
  shows "\<exists>rows s'. rt_timer_start p s = Some (RT_EOK, s') \<and> timer_inv s'
    \<and> s' = s\<lparr>objs := (objs s)(p := (objs s p)\<lparr>o_flag := o_flag (objs s p) OR TIMER_ACTIVATED\<rparr>),
        timers := (timers s)(p := (timers s p)\<lparr>timeout_tick := rt_tick s + timer_init_tick (timers s p)\<rparr>),
        rt_timer_list := rows, random_nr := random_nr s + 1\<rparr>
    \<and> active_timers s' = timer_insert (\<lambda>t. n < tkey (rt_tick s - 1) s t) p (active_timers s)"
proof -
  define b where "b = rt_tick s - 1"
  define tick where "tick = rt_tick s + timer_init_tick (timers s p)"
  define s1 where "s1 = upd_timer p (\<lambda>t. t\<lparr>timeout_tick := tick\<rparr>) s"
  define rows where "rows = insert_rows p (random_nr s + 1) (row_heads (timer_later s1 tick) None (rt_timer_list s)) (rt_timer_list s)"
  define s' where "s' = upd_obj p (\<lambda>ob. ob\<lparr>o_flag := o_flag ob OR TIMER_ACTIVATED\<rparr>)
      (s1\<lparr>random_nr := random_nr s + 1, rt_timer_list := rows\<rparr>)"
  let ?A = "active_timers s"
  have A: "last (rt_timer_list s) = ?A" by (simp add: active_timers_def)
  have p: "p \<notin> set ?A" using inv off by (auto simp: timer_inv_def)
  have ub: "unat (timer_init_tick (timers s p)) < 0x7fffffff" using init by (simp add: word_less_nat_alt)
  have "tick - b = timer_init_tick (timers s p) + 1" by (simp add: tick_def b_def)
  then have kn: "unat (tick - b) = n" using ub by (simp add: n_def unat_add_small)
  have nM: "n \<le> 0x7fffffff" "1 \<le> n" using ub by (auto simp: n_def)
  have key1: "\<forall>t\<in>set ?A. tkey b s1 t = tkey b s t" "tkey b s1 p = n"
    using p kn by (auto simp: tkey_def s1_def upd_timer_def)
  have A7: "\<forall>t\<in>set ?A. tkey b s t \<le> 0x7fffffff" using inv by (simp add: timer_inv_def b_def)
  have later: "\<forall>t\<in>set ?A. timer_later s1 tick t \<longleftrightarrow> n < tkey b s t"
    using timer_later_key[of b s1 _ tick] A7 key1 kn nM by simp
  have ok: "rows_ok (tkey b s) (rt_timer_list s)" using inv by (simp add: timer_inv_def b_def)
  note I = rows_insert[OF ok, unfolded A, OF p later key1, of "random_nr s + 1", folded rows_def]
  have A': "active_timers s' = timer_insert (\<lambda>t. n < tkey b s t) p ?A"
    using I(2) timer_insert_cong[of ?A "timer_later s1 tick" "\<lambda>t. n < tkey b s t" p] later
    by (simp add: active_timers_def s'_def upd_obj_def)
  have k': "tkey b s' = tkey b s1" by (intro ext) (simp add: tkey_def s'_def upd_obj_def)
  have "rt_tick s' = rt_tick s" by (simp add: s'_def s1_def upd_obj_def upd_timer_def)
  moreover have "\<forall>t\<in>set (active_timers s'). o_flag (objs s' t) AND TIMER_ACTIVATED \<noteq> 0"
  proof
    fix t assume "t \<in> set (active_timers s')"
    then have "t = p \<or> t \<in> set ?A" by (simp add: A')
    then show "o_flag (objs s' t) AND TIMER_ACTIVATED \<noteq> 0"
      using inv by (auto simp: s'_def s1_def upd_obj_def upd_timer_def timer_inv_def)
  qed
  moreover have "\<forall>t\<in>set (active_timers s'). tkey b s' t \<le> 0x7fffffff"
    using A7 key1 nM by (auto simp: A' k')
  moreover have "rows_ok (tkey b s') (rt_timer_list s')"
    using I(1) by (simp add: k') (simp add: s'_def upd_obj_def)
  ultimately have inv': "timer_inv s'" by (simp add: timer_inv_def b_def)
  have "rt_timer_start p s = Some (RT_EOK, s')"
    using off init unfolding rt_timer_start_def
    by (simp add: rt_tick_get_def s'_def rows_def s1_def tick_def upd_timer_def upd_obj_def Let_def)
  with inv' A' show ?thesis
    by (intro exI[of _ rows] exI[of _ s']) (simp add: b_def s'_def s1_def upd_obj_def upd_timer_def tick_def)
qed

lemma rows_ok_remove:
  assumes "rows_ok key rows"
  shows "rows_ok key (map (removeAll p) rows)"
proof -
  have "sorted_wrt subseq (map (removeAll p) rows)"
    unfolding sorted_wrt_map
    by (rule sorted_wrt_mono_rel[of _ subseq]) (use assms in \<open>auto simp: rows_ok_def removeAll_filter_not_eq\<close>)
  then show ?thesis using assms
    by (simp add: rows_ok_def last_map distinct_removeAll removeAll_filter_not_eq sorted_filter)
qed

lemma active_remove: "timer_inv s \<Longrightarrow> active_timers (rt_timer_remove p s) = removeAll p (active_timers s)"
  by (simp add: active_timers_def rt_timer_remove_def timer_inv_def rows_ok_def last_map)

text \<open>The invariant depends on the rows and on the timeouts and flags of active timers only.\<close>

lemma timer_inv_cong:
  assumes "timer_inv s" "rt_tick s' = rt_tick s" "rt_timer_list s' = rt_timer_list s"
    "\<And>t. t \<in> set (active_timers s) \<Longrightarrow> timeout_tick (timers s' t) = timeout_tick (timers s t)
       \<and> o_flag (objs s' t) AND TIMER_ACTIVATED = o_flag (objs s t) AND TIMER_ACTIVATED"
  shows "timer_inv s'"
proof -
  let ?b = "rt_tick s - 1"
  have A: "active_timers s' = active_timers s" using assms(3) by (simp add: active_timers_def)
  have k: "tkey ?b s' t = tkey ?b s t" if "t \<in> set (active_timers s)" for t
    using assms(4)[OF that] by (simp add: tkey_def)
  then have m: "map (tkey ?b s') (active_timers s) = map (tkey ?b s) (active_timers s)" by auto
  have "rows_ok (tkey ?b s) (rt_timer_list s)" using assms(1) by (simp add: timer_inv_def)
  then have "rows_ok (tkey ?b s') (rt_timer_list s')"
    using m assms(3) unfolding rows_ok_def active_timers_def by metis
  then show ?thesis using assms(1,2,4) A k by (simp add: timer_inv_def)
qed

lemma timer_inv_remove:
  assumes "timer_inv s"
  shows "timer_inv (rt_timer_remove p s)"
proof -
  have "tkey b (rt_timer_remove p s) = tkey b s" for b
    by (intro ext) (simp add: tkey_def rt_timer_remove_def)
  moreover have "rt_tick (rt_timer_remove p s) = rt_tick s" "objs (rt_timer_remove p s) = objs s"
    "rt_timer_list (rt_timer_remove p s) = map (removeAll p) (rt_timer_list s)"
    by (simp_all add: rt_timer_remove_def)
  ultimately show ?thesis
    using assms rows_ok_remove[of "tkey (rt_tick s - 1) s" "rt_timer_list s" p] active_remove[OF assms, of p]
    by (simp add: timer_inv_def)
qed

lemma timer_inv_flag:
  "timer_inv s \<Longrightarrow> p \<notin> set (active_timers s) \<Longrightarrow> timer_inv (upd_obj p f s)"
  by (rule timer_inv_cong[of s]) (auto simp: upd_obj_def)

lemma rt_timer_stop_inv:
  assumes "timer_inv s"
  shows "timer_inv (snd (rt_timer_stop p s))"
    "active_timers (snd (rt_timer_stop p s)) = removeAll p (active_timers s)"
proof -
  have "p \<notin> set (active_timers s)" if "o_flag (objs s p) AND TIMER_ACTIVATED = 0"
    using that assms by (auto simp: timer_inv_def)
  moreover have "active_timers (upd_obj p f s') = active_timers s'" for f and s' :: "'a timer_state_scheme"
    by (simp add: upd_obj_def active_timers_def)
  ultimately show "timer_inv (snd (rt_timer_stop p s))"
    "active_timers (snd (rt_timer_stop p s)) = removeAll p (active_timers s)"
    using assms timer_inv_remove[OF assms, of p] active_remove[OF assms, of p]
    by (auto simp: rt_timer_stop_def intro!: timer_inv_flag)
qed

lemma rt_timer_stop_off: "o_flag (objs (snd (rt_timer_stop p s)) p) AND TIMER_ACTIVATED = 0"
  by (simp add: rt_timer_stop_def upd_obj_def)

lemma timer_inv_init:
  assumes "timer_inv s" "p \<notin> set (active_timers s)"
  shows "timer_inv (do_rt_timer_init p f a time flag s)"
  by (rule timer_inv_cong[OF assms(1)]) (use assms(2) in \<open>auto simp: do_rt_timer_init_def upd_obj_def upd_timer_def\<close>)

text \<open>
  One tick later every key is one less: the invariant survives when the last check left no
  timer with key 0, which \<open>timers_pending\<close> says.
\<close>

definition timers_pending :: "'a timer_state_scheme \<Rightarrow> bool" where
  "timers_pending s \<longleftrightarrow> (\<forall>t\<in>set (active_timers s). 1 \<le> tkey (rt_tick s - 1) s t)"

lemma timer_inv_tick:
  assumes "timer_inv s" "timers_pending s"
  shows "timer_inv (s\<lparr>rt_tick := rt_tick s + 1\<rparr>)"
proof -
  let ?s = "s\<lparr>rt_tick := rt_tick s + 1\<rparr>" and ?b = "rt_tick s - 1"
  have A: "active_timers ?s = active_timers s" by (simp add: active_timers_def)
  have k: "tkey (rt_tick s) ?s t = tkey ?b s t - 1" if "t \<in> set (active_timers s)" for t
  proof -
    define a where "a = timeout_tick (timers s t) - ?b"
    have "1 \<le> unat a" using assms(2) that by (simp add: timers_pending_def tkey_def a_def)
    then have "unat (a - 1) = unat a - 1" by (simp add: unat_sub word_le_nat_alt)
    moreover have "timeout_tick (timers s t) - rt_tick s = a - 1" by (simp add: a_def)
    then have "tkey (rt_tick s) ?s t = unat (a - 1)" by (simp add: tkey_def)
    moreover have "tkey ?b s t = unat a" by (simp only: tkey_def a_def)
    ultimately show ?thesis by simp
  qed
  have "sorted (map (tkey ?b s) (active_timers s))"
    using assms(1) by (simp add: timer_inv_def rows_ok_def active_timers_def)
  then have "sorted (map (\<lambda>t. tkey ?b s t - 1) (active_timers s))"
    unfolding sorted_wrt_map by (rule sorted_wrt_mono_rel[rotated]) (rule diff_le_mono)
  moreover have "map (tkey (rt_tick s) ?s) (active_timers s) = map (\<lambda>t. tkey ?b s t - 1) (active_timers s)"
    using k by auto
  ultimately have "sorted (map (tkey (rt_tick s) ?s) (active_timers s))" by (simp only:)
  then have "rows_ok (tkey (rt_tick s) ?s) (rt_timer_list ?s)"
    using assms(1) by (simp add: timer_inv_def rows_ok_def active_timers_def)
  moreover have "\<forall>t\<in>set (active_timers s). tkey (rt_tick s) ?s t \<le> 0x7fffffff"
  proof
    fix t assume t: "t \<in> set (active_timers s)"
    then have "tkey ?b s t \<le> 0x7fffffff" using assms(1) by (simp add: timer_inv_def)
    then show "tkey (rt_tick s) ?s t \<le> 0x7fffffff" unfolding k[OF t] by simp
  qed
  ultimately show ?thesis using assms(1) by (simp add: timer_inv_def A)
qed

subsection \<open>The check loop\<close>

text \<open>One round of the loop: the expired timer at the front is taken off and its function called.\<close>

definition timer_fire :: "(timeout_fn \<Rightarrow> nat \<Rightarrow> 'a timer_state_scheme \<Rightarrow> 'a timer_state_scheme option)
    \<Rightarrow> ptr \<Rightarrow> 'a timer_state_scheme \<Rightarrow> 'a timer_state_scheme option" where
  "timer_fire dispatch t s =
     do { s \<leftarrow> dispatch (timeout_func (timers s t)) (timer_parameter (timers s t)) (rt_timer_remove t s);
          let off = upd_obj t (\<lambda>ob. ob\<lparr>o_flag := o_flag ob AND NOT TIMER_ACTIVATED\<rparr>) s;
          if o_flag (objs s t) AND TIMER_PERIODIC \<noteq> 0 \<and> o_flag (objs s t) AND TIMER_ACTIVATED \<noteq> 0
          then do { (r, s') \<leftarrow> rt_timer_start t off; Some s' }
          else Some off }"

lemma rt_timer_start_tick: "rt_timer_start p s = Some (r, s') \<Longrightarrow> rt_tick s' = rt_tick s"
  by (auto simp: rt_timer_start_def RT_ASSERT_def upd_timer_def upd_obj_def Let_def split: if_splits)

lemma timer_check_loop_fire:
  "timer_check_loop dispatch (rt_tick s) s =
     (case active_timers s of
        [] \<Rightarrow> Some s
      | t # _ \<Rightarrow> if expired s t
          then do { s' \<leftarrow> timer_fire dispatch t s; timer_check_loop dispatch (rt_tick s') s' }
          else Some s)"
proof -
  have off: "rt_tick (upd_obj t f u) = rt_tick u" for t f and u :: "'a timer_state_scheme"
    by (simp add: upd_obj_def)
  have start: "Option.bind (rt_timer_start t u) (\<lambda>(r, s'). timer_check_loop dispatch k s')
      = Option.bind (Option.bind (rt_timer_start t u) (\<lambda>(r, s'). Some s'))
          (\<lambda>s'. timer_check_loop dispatch (rt_tick s') s')" if "k = rt_tick u" for t u k
    using that by (cases "rt_timer_start t u") (auto dest: rt_timer_start_tick)
  show ?thesis
    by (subst timer_check_loop.simps)
       (auto simp: timer_fire_def expired_def rt_tick_get_def Let_def off start
          split: list.splits bind_splits)
qed

definition expired_timers :: "'a timer_state_scheme \<Rightarrow> ptr list" where
  "expired_timers s = filter (expired s) (active_timers s)"

lemma front_not_expired:
  assumes inv: "timer_inv s" and front: "active_timers s = t # ts" "\<not> expired s t"
  shows "expired_timers s = []"
proof -
  let ?k = "tkey (rt_tick s - 1) s"
  have all: "\<forall>x\<in>set (active_timers s). ?k x \<le> 0x7fffffff" using inv by (simp add: timer_inv_def)
  have "sorted (map ?k (t # ts))"
    using inv front(1) by (simp add: timer_inv_def rows_ok_def active_timers_def)
  then have "\<forall>x\<in>set ts. ?k t \<le> ?k x" by simp
  moreover have "1 < ?k t" using expired_key[of s t] front all by (simp add: not_le)
  ultimately have "\<forall>x\<in>set (active_timers s). 1 < ?k x" using front(1) by fastforce
  then show ?thesis using expired_key[of s] all
    by (fastforce simp: expired_timers_def filter_empty_conv)
qed

lemma no_expired_pending:
  assumes "timer_inv s" "expired_timers s = []"
  shows "timers_pending s"
  using assms expired_key[of s]
  by (fastforce simp: timers_pending_def timer_inv_def expired_timers_def filter_empty_conv)

text \<open>
  What the check relies on: a client invariant that gives the timer invariant, and under it
  every call of the timeout function of an expired timer comes back with the invariant, the
  same tick, and fewer expired timers. A periodic timer of period 0, or a function that
  restarts a timer with timeout 0, does not obey the last law.
\<close>

locale timer_client =
  fixes dispatch :: "timeout_fn \<Rightarrow> nat \<Rightarrow> 'a timer_state_scheme \<Rightarrow> 'a timer_state_scheme option"
    and I :: "'a timer_state_scheme \<Rightarrow> bool"
  assumes I_timer_inv: "I s \<Longrightarrow> timer_inv s"
    and fire_ok: "I s \<Longrightarrow> active_timers s = t # ts \<Longrightarrow> expired s t \<Longrightarrow>
      \<exists>s'. timer_fire dispatch t s = Some s' \<and> I s' \<and> rt_tick s' = rt_tick s
        \<and> length (expired_timers s') < length (expired_timers s)"
begin

lemma check_loop_returns:
  assumes "I s"
  shows "\<exists>s'. timer_check_loop dispatch (rt_tick s) s = Some s' \<and> I s' \<and> rt_tick s' = rt_tick s
    \<and> expired_timers s' = [] \<and> timers_pending s'"
  using assms
proof (induction "length (expired_timers s)" arbitrary: s rule: less_induct)
  case less
  show ?case
  proof (cases "active_timers s")
    case Nil
    then show ?thesis using less.prems
      by (subst timer_check_loop_fire) (auto simp: expired_timers_def timers_pending_def)
  next
    case (Cons t ts)
    show ?thesis
    proof (cases "expired s t")
      case True
      then obtain s' where s': "timer_fire dispatch t s = Some s'" "I s'" "rt_tick s' = rt_tick s"
        "length (expired_timers s') < length (expired_timers s)"
        using fire_ok[OF less.prems Cons] by blast
      show ?thesis using less.hyps[OF s'(4,2)] s' Cons True
        by (subst timer_check_loop_fire) auto
    next
      case False
      then have "expired_timers s = []" using front_not_expired[OF I_timer_inv[OF less.prems] Cons] by blast
      then show ?thesis using Cons False less.prems no_expired_pending[OF I_timer_inv[OF less.prems]]
        by (subst timer_check_loop_fire) auto
    qed
  qed
qed

text \<open>An induction over the rounds of the loop, for what a client wants to know of its result.\<close>

lemma check_loop_rel:
  assumes "I s" "Q s" and step: "\<And>u t ts u'. I u \<Longrightarrow> Q u \<Longrightarrow> active_timers u = t # ts \<Longrightarrow> expired u t
      \<Longrightarrow> timer_fire dispatch t u = Some u' \<Longrightarrow> Q u'"
  shows "\<exists>s'. timer_check_loop dispatch (rt_tick s) s = Some s' \<and> Q s'"
  using assms(1,2)
proof (induction "length (expired_timers s)" arbitrary: s rule: less_induct)
  case less
  show ?case
  proof (cases "\<exists>t ts. active_timers s = t # ts \<and> expired s t")
    case True
    then obtain t ts where t: "active_timers s = t # ts" "expired s t" by blast
    then obtain s' where s': "timer_fire dispatch t s = Some s'" "I s'"
      "length (expired_timers s') < length (expired_timers s)"
      using fire_ok[OF less.prems(1)] by blast
    have "Q s'" using step[OF less.prems t s'(1)] .
    from less.hyps[OF s'(3,2) this] show ?thesis using t s'(1) by (subst timer_check_loop_fire) auto
  next
    case False
    then show ?thesis using less.prems
      by (subst timer_check_loop_fire) (auto split: list.splits)
  qed
qed

lemma timer_check_returns:
  assumes "I s"
  shows "\<exists>s'. rt_timer_check dispatch s = Some s' \<and> I s' \<and> rt_tick s' = rt_tick s
    \<and> expired_timers s' = [] \<and> timers_pending s'"
  using check_loop_returns[OF assms] by (simp add: rt_timer_check_def rt_tick_get_def)

end


subsection \<open>A periodic timer of period 0\<close>

definition zero_period :: "ptr \<Rightarrow> 'a timer_state_scheme \<Rightarrow> bool" where
  "zero_period t s \<longleftrightarrow> rt_timer_list s = [[t]] \<and> timer_init_tick (timers s t) = 0
     \<and> timeout_tick (timers s t) = rt_tick s
     \<and> o_flag (objs s t) AND TIMER_PERIODIC \<noteq> 0 \<and> o_flag (objs s t) AND TIMER_ACTIVATED \<noteq> 0"

lemma flag_restart: "((f AND - 2) OR 1) AND 2 = f AND (2 :: rt_uint8_t)"
  by (simp add: and.assoc bit.conj_disj_distrib2)

lemma zero_period_restarts:
  assumes "zero_period t s"
  shows "\<exists>s'. rt_timer_start t (upd_obj t (\<lambda>ob. ob\<lparr>o_flag := o_flag ob AND NOT TIMER_ACTIVATED\<rparr>)
      (rt_timer_remove t s)) = Some (RT_EOK, s') \<and> zero_period t s' \<and> rt_tick s' = rt_tick s"
  using assms
  by (auto simp: rt_timer_start_def zero_period_def upd_obj_def upd_timer_def rt_timer_remove_def
      rt_tick_get_def insert_rows_def row_walk_def Let_def flag_restart)

lemma zero_period_no_result:
  assumes "timer_check_loop dispatch k s = Some y"
  shows "dispatch = (\<lambda>_ _ s. Some s) \<longrightarrow> k = rt_tick s \<longrightarrow> \<not> zero_period t s"
proof (rule timer_check_loop.raw_induct[where P = "\<lambda>dispatch k s y. dispatch = (\<lambda>_ _ s. Some s)
    \<longrightarrow> k = rt_tick s \<longrightarrow> \<not> zero_period t s", OF _ assms], goal_cases)
  case (1 loop dispatch k s y)
  show ?case
  proof (intro impI notI)
    assume d: "dispatch = (\<lambda>_ _ s. Some s)" "k = rt_tick s" and z: "zero_period t s"
    obtain s' where s': "rt_timer_start t (upd_obj t (\<lambda>ob. ob\<lparr>o_flag := o_flag ob AND NOT TIMER_ACTIVATED\<rparr>)
      (rt_timer_remove t s)) = Some (RT_EOK, s')" "zero_period t s'" "rt_tick s' = rt_tick s"
      using zero_period_restarts[OF z] by blast
    have "active_timers s = [t]" "timeout_tick (timers s t) = rt_tick s"
      "o_flag (objs s t) AND TIMER_PERIODIC \<noteq> 0" "o_flag (objs s t) AND TIMER_ACTIVATED \<noteq> 0"
      using z by (simp_all add: zero_period_def active_timers_def)
    moreover have "rt_tick_get (rt_timer_remove t s) = rt_tick s" "objs (rt_timer_remove t s) = objs s"
      by (simp_all add: rt_tick_get_def rt_timer_remove_def)
    ultimately have "loop dispatch (rt_tick s) s' = Some y"
      using 1(2) s'(1) d by (simp add: Let_def)
    from 1(1)[OF this] d s' show False by simp
  qed
qed

subsection \<open>Properties\<close>

text \<open>C15: Starting an inactive timer with a timeout below half the tick range returns \<open>RT_EOK\<close> and
  puts it into the list of active timers behind every timer that expires no later and before
  every one that expires later, so that timers with equal timeouts fire in the order they
  were started; the rows of the skip list stay nested and sorted across the wrap-around of
  the tick counter.\<close>

theorem rt_timer_start_keeps_order:
  assumes "timer_inv s" "o_flag (objs s p) AND TIMER_ACTIVATED = 0"
    "timer_init_tick (timers s p) < RT_TICK_HALF"
  shows "\<exists>s'. rt_timer_start p s = Some (RT_EOK, s') \<and> timer_inv s'
    \<and> timeout_tick (timers s' p) = rt_tick s + timer_init_tick (timers s p)
    \<and> (let due = (\<lambda>t. tkey (rt_tick s - 1) s t) in
       active_timers s' =
         filter (\<lambda>t. due t \<le> unat (timer_init_tick (timers s p)) + 1) (active_timers s) @ p #
         filter (\<lambda>t. unat (timer_init_tick (timers s p)) + 1 < due t) (active_timers s))"
  using rt_timer_start_ok[OF assms] by (fastforce simp: timer_insert_def not_less Let_def)

text \<open>A periodic timer whose period is 0 keeps \<open>rt_timer_check\<close> from ever returning, even when
  its timeout function does nothing: each round restarts it already expired.\<close>

theorem zero_period_timer_hangs_check:
  assumes "zero_period t s"
  shows "rt_timer_check (\<lambda>_ _ s. Some s) s = None"
proof (cases "rt_timer_check (\<lambda>_ _ s. Some s) s")
  case (Some y)
  then show ?thesis using zero_period_no_result[of "\<lambda>_ _ s. Some s" "rt_tick s" s y t] assms
    by (simp add: rt_timer_check_def rt_tick_get_def)
qed

text \<open>Two timers for the witnesses: one active and due at tick 5, one periodic of period 0.\<close>

definition demo_timers :: "rt_tick_t \<Rightarrow> rt_uint8_t \<Rightarrow> timer_state" where
  "demo_timers due flag = \<lparr>rt_interrupt_nest = 0, heap_ptr = 0x20000000, heap_end = 0, lfree = 0,
     mem_size_aligned = 0, used_mem = 0, max_mem = 0,
     blk = (\<lambda>_. \<lparr>hm_magic = 0, hm_used = 0, hm_next = 0, hm_prev = 0\<rparr>), mdata = (\<lambda>_. 0),
     objs = (\<lambda>p. \<lparr>o_name = replicate 8 0, o_type = 0x88, o_flag = (if p = At 1 then flag else 0)\<rparr>),
     object_list = (\<lambda>_. []), object_size = (\<lambda>_. 0), rt_tick = 3,
     timers = (\<lambda>p. \<lparr>timeout_func = Timeout_fn 0, timer_parameter = 0,
       timer_init_tick = (if p = At 1 then 0 else 2), timeout_tick = (if p = At 1 then due else 0)\<rparr>),
     rt_timer_list = [[At 1]], random_nr = 0\<rparr>"

lemma demo_timers_inv: "timer_inv (demo_timers 5 1)"
  by (simp add: timer_inv_def rows_ok_def active_timers_def demo_timers_def tkey_def)

theorem rt_timer_start_keeps_order_witness:
  "\<exists>s'. rt_timer_start (At 2) (demo_timers 5 1) = Some (RT_EOK, s') \<and> timer_inv s'
     \<and> active_timers s' = [At 1, At 2]"
  using rt_timer_start_keeps_order[OF demo_timers_inv, of "At 2"]
  by (auto simp: demo_timers_def active_timers_def tkey_def Let_def)

theorem zero_period_timer_hangs_check_witness:
  "zero_period (At 1) (demo_timers 3 3) \<and> rt_timer_check (\<lambda>_ _ s. Some s) (demo_timers 3 3) = None"
proof -
  have z: "zero_period (At 1) (demo_timers 3 3)"
    by (simp add: zero_period_def demo_timers_def)
  then show ?thesis using zero_period_timer_hangs_check[OF z] by blast
qed
end
