(* ===== verification/Scheduler.thy ===== *)
theory Scheduler
  imports Timer
begin

text \<open>
  The scheduler, \<^verbatim>\<open>src/scheduler.c\<close>. Every list a thread's \<^verbatim>\<open>tlist\<close> node can be in is a list of the
  store \<open>tlists\<close>: the ready queue of each priority, the defunct list, and the queues of threads
  suspended on an object. A context switch is the change of \<open>rt_current_thread\<close>; the register
  and stack traffic of the assembly routine is not part of the model. Priorities are
  natural numbers (the source only copies and compares them). \<open>rt_thread_exit_addr\<close> is the link
  address of \<^verbatim>\<open>rt_thread_exit\<close>, which a new thread's stack frame holds.
\<close>

datatype thread_stat = THREAD_INIT | THREAD_READY | THREAD_SUSPEND | THREAD_RUNNING | THREAD_CLOSE

datatype lhead = Ready nat | Defunct | Suspend nat | SuspendSender nat

record rt_thread =
  sp :: nat
  thread_entry :: nat
  thread_param :: nat
  stack_addr :: nat
  stack_size :: rt_uint16_t
  thread_error :: rt_err_t
  stat :: thread_stat
  current_priority :: nat
  init_priority :: nat
  number_mask :: rt_uint32_t
  event_set :: rt_uint32_t
  event_info :: rt_uint8_t
  thread_init_tick :: rt_uint32_t
  remaining_tick :: rt_uint32_t
  cleanup :: "nat option"
  user_data :: rt_uint32_t

record sched_state = timer_state +
  threads :: "tid \<Rightarrow> rt_thread"
  tlists :: "lhead \<Rightarrow> tid list"
  rt_current_thread :: "tid option"
  rt_current_priority :: nat
  rt_thread_ready_priority_group :: rt_uint32_t
  rt_scheduler_lock_nest :: rt_uint16_t
  errno :: rt_err_t
  rt_thread_exit_addr :: nat

definition upd_thread :: "tid \<Rightarrow> (rt_thread \<Rightarrow> rt_thread) \<Rightarrow> 'a sched_state_scheme \<Rightarrow> 'a sched_state_scheme" where
  "upd_thread t f s = s\<lparr>threads := (threads s)(t := f (threads s t))\<rparr>"

definition upd_tlists :: "((lhead \<Rightarrow> tid list) \<Rightarrow> lhead \<Rightarrow> tid list) \<Rightarrow> 'a sched_state_scheme
    \<Rightarrow> 'a sched_state_scheme" where
  "upd_tlists f s = s\<lparr>tlists := f (tlists s)\<rparr>"

definition rt_scheduler_stack_check :: "tid \<Rightarrow> 'a sched_state_scheme \<Rightarrow> 'a sched_state_scheme option" where
  "rt_scheduler_stack_check t s =
     (let th = threads s t in
      if sp th \<le> stack_addr th \<or> sp th > add32 (stack_addr th) (unat (stack_size th)) then None
      else Some s)"

definition rt_system_scheduler_init :: "'a sched_state_scheme \<Rightarrow> 'a sched_state_scheme" where
  "rt_system_scheduler_init s =
     s\<lparr>rt_scheduler_lock_nest := 0,
       tlists := (\<lambda>l. case l of
           Ready p \<Rightarrow> (if p < RT_THREAD_PRIORITY_MAX then [] else tlists s l)
         | Defunct \<Rightarrow> []
         | _ \<Rightarrow> tlists s l),
       rt_current_priority := RT_THREAD_PRIORITY_MAX - 1,
       rt_current_thread := None,
       rt_thread_ready_priority_group := 0\<rparr>"

text \<open>
  The thread at the front of the queue of the lowest set bit. With no bit set the source
  indexes the table at -1, and an empty queue would yield the list head as a thread.
\<close>

definition highest_ready :: "'a sched_state_scheme \<Rightarrow> (nat \<times> tid) option" where
  "highest_ready s =
     (case rt_ffs (rt_thread_ready_priority_group s) of
        0 \<Rightarrow> None
      | Suc h \<Rightarrow> (case tlists s (Ready h) of [] \<Rightarrow> None | t # _ \<Rightarrow> Some (h, t)))"

definition rt_system_scheduler_start :: "'a sched_state_scheme \<Rightarrow> 'a sched_state_scheme option" where
  "rt_system_scheduler_start s =
     do { (h, to_thread) \<leftarrow> highest_ready s;
          Some (s\<lparr>rt_current_thread := Some to_thread\<rparr>) }"

text \<open>
  Switching away needs a thread to save the registers of; before the scheduler has started
  the source would store through a null pointer.
\<close>

definition rt_schedule :: "'a sched_state_scheme \<Rightarrow> 'a sched_state_scheme option" where
  "rt_schedule s =
     (if rt_scheduler_lock_nest s = 0 then
        do { (h, to_thread) \<leftarrow> highest_ready s;
             if rt_current_thread s \<noteq> Some to_thread then
               do { from_thread \<leftarrow> rt_current_thread s;
                    rt_scheduler_stack_check to_thread
                      (s\<lparr>rt_current_priority := h, rt_current_thread := Some to_thread\<rparr>) }
             else Some s }
      else Some s)"

definition rt_schedule_insert_thread :: "tid \<Rightarrow> 'a sched_state_scheme \<Rightarrow> 'a sched_state_scheme" where
  "rt_schedule_insert_thread t s =
     (let s = upd_thread t (\<lambda>th. th\<lparr>stat := THREAD_READY\<rparr>) s;
          s = upd_tlists (list_push_back (Ready (current_priority (threads s t))) t) s
      in s\<lparr>rt_thread_ready_priority_group :=
             rt_thread_ready_priority_group s OR number_mask (threads s t)\<rparr>)"

definition rt_schedule_remove_thread :: "tid \<Rightarrow> 'a sched_state_scheme \<Rightarrow> 'a sched_state_scheme" where
  "rt_schedule_remove_thread t s =
     (let s = upd_tlists (list_unlink t) s in
      if tlists s (Ready (current_priority (threads s t))) = []
      then s\<lparr>rt_thread_ready_priority_group :=
               rt_thread_ready_priority_group s AND NOT (number_mask (threads s t))\<rparr>
      else s)"

definition rt_enter_critical :: "'a sched_state_scheme \<Rightarrow> 'a sched_state_scheme" where
  "rt_enter_critical s = s\<lparr>rt_scheduler_lock_nest := rt_scheduler_lock_nest s + 1\<rparr>"

definition rt_exit_critical :: "'a sched_state_scheme \<Rightarrow> 'a sched_state_scheme option" where
  "rt_exit_critical s =
     (let s = s\<lparr>rt_scheduler_lock_nest := rt_scheduler_lock_nest s - 1\<rparr> in
      if sint (rt_scheduler_lock_nest s) \<le> 0
      then rt_schedule (s\<lparr>rt_scheduler_lock_nest := 0\<rparr>)
      else Some s)"

definition rt_critical_level :: "'a sched_state_scheme \<Rightarrow> rt_uint16_t" where
  "rt_critical_level s = rt_scheduler_lock_nest s"

definition rt_thread_self :: "'a sched_state_scheme \<Rightarrow> tid option" where
  "rt_thread_self s = rt_current_thread s"

definition RT_DEBUG_IN_THREAD_CONTEXT :: "'a sched_state_scheme \<Rightarrow> 'a sched_state_scheme option" where
  "RT_DEBUG_IN_THREAD_CONTEXT s =
     do { s \<leftarrow> RT_ASSERT (rt_thread_self s \<noteq> None) s; RT_DEBUG_NOT_IN_INTERRUPT s }"

subsection \<open>The operations of other files that use the scheduler lock and the current thread\<close>

text \<open>\<^verbatim>\<open>rt_get_errno\<close>, \<^verbatim>\<open>rt_set_errno\<close> of \<^verbatim>\<open>src/kservice.c\<close>.\<close>

definition rt_get_errno :: "'a sched_state_scheme \<Rightarrow> rt_err_t" where
  "rt_get_errno s =
     (if rt_interrupt_get_nest s \<noteq> 0 then errno s
      else case rt_thread_self s of None \<Rightarrow> errno s | Some t \<Rightarrow> thread_error (threads s t))"

definition rt_set_errno :: "rt_err_t \<Rightarrow> 'a sched_state_scheme \<Rightarrow> 'a sched_state_scheme" where
  "rt_set_errno e s =
     (if rt_interrupt_get_nest s \<noteq> 0 then s\<lparr>errno := e\<rparr>
      else case rt_thread_self s of
        None \<Rightarrow> s\<lparr>errno := e\<rparr>
      | Some t \<Rightarrow> upd_thread t (\<lambda>th. th\<lparr>thread_error := e\<rparr>) s)"

text \<open>
  \<^verbatim>\<open>rt_object_find\<close> of \<^verbatim>\<open>src/object.c\<close>. The class \<^verbatim>\<open>RT_Object_Class_Unknown\<close> passes the parameter
  check and reads past the container.
\<close>

definition rt_object_find :: "8 word list option \<Rightarrow> rt_uint8_t \<Rightarrow> 'a sched_state_scheme
    \<Rightarrow> (ptr option \<times> 'a sched_state_scheme) option" where
  "rt_object_find name type s =
     (case name of
        None \<Rightarrow> Some (None, s)
      | Some nm \<Rightarrow>
          if type > Class_Unknown then Some (None, s)
          else
            do { s \<leftarrow> RT_ASSERT (rt_interrupt_nest s = 0) s;
                 s \<leftarrow> RT_ASSERT (type \<noteq> Class_Unknown) s;
                 let s = rt_enter_critical s;
                 r \<leftarrow> find_by_name nm (object_list s type) (objs s);
                 s \<leftarrow> rt_exit_critical s;
                 Some (r, s) })"

text \<open>\<^verbatim>\<open>rt_thread_find\<close> of \<^verbatim>\<open>src/thread.c\<close>.\<close>

definition rt_thread_find :: "8 word list \<Rightarrow> 'a sched_state_scheme
    \<Rightarrow> (ptr option \<times> 'a sched_state_scheme) option" where
  "rt_thread_find name s =
     (let s = (if rt_thread_self s \<noteq> None then rt_enter_critical s else s) in
      do { r \<leftarrow> find_by_name name (object_list s Class_Thread) (objs s);
           s \<leftarrow> (if rt_thread_self s \<noteq> None then rt_exit_critical s else Some s);
           Some (r, s) })"

subsection \<open>The scheduler invariant\<close>

text \<open>
  \<open>sched_ok\<close>: a thread is in one list at most, and in a list of the kind its state says;
  the ready queue of a priority holds exactly the ready threads of that priority; started
  threads have the mask of their priority; and a bit of the priority group is set exactly
  when the queue is not empty.
\<close>

definition wf_thread :: "rt_thread \<Rightarrow> bool" where
  "wf_thread th \<longleftrightarrow> current_priority th < RT_THREAD_PRIORITY_MAX
     \<and> number_mask th = push_bit (current_priority th) 1"

fun list_stat :: "lhead \<Rightarrow> thread_stat" where
  "list_stat (Ready p) = THREAD_READY"
| "list_stat Defunct = THREAD_CLOSE"
| "list_stat (Suspend a) = THREAD_SUSPEND"
| "list_stat (SuspendSender a) = THREAD_SUSPEND"

definition sched_ok :: "(tid \<Rightarrow> rt_thread) \<Rightarrow> (lhead \<Rightarrow> tid list) \<Rightarrow> rt_uint32_t \<Rightarrow> bool" where
  "sched_ok th L g \<longleftrightarrow> store_ok L
     \<and> (\<forall>l t. t \<in> set (L l) \<longrightarrow> stat (th t) = list_stat l)
     \<and> (\<forall>p t. t \<in> set (L (Ready p)) \<longleftrightarrow> stat (th t) = THREAD_READY \<and> current_priority (th t) = p)
     \<and> (\<forall>t. stat (th t) \<in> {THREAD_READY, THREAD_SUSPEND} \<longrightarrow> wf_thread (th t))
     \<and> (\<forall>p<RT_THREAD_PRIORITY_MAX. bit g p \<longleftrightarrow> L (Ready p) \<noteq> [])"

definition sched_inv :: "'a sched_state_scheme \<Rightarrow> bool" where
  "sched_inv s \<longleftrightarrow> sched_ok (threads s) (tlists s) (rt_thread_ready_priority_group s)"

definition ready :: "'a sched_state_scheme \<Rightarrow> tid \<Rightarrow> bool" where
  "ready s t \<longleftrightarrow> stat (threads s t) = THREAD_READY"

lemma sched_ok_D:
  assumes "sched_ok th L g"
  shows "store_ok L" "t \<in> set (L l) \<Longrightarrow> stat (th t) = list_stat l"
    "t \<in> set (L (Ready p)) \<longleftrightarrow> stat (th t) = THREAD_READY \<and> current_priority (th t) = p"
    "stat (th t) = THREAD_READY \<or> stat (th t) = THREAD_SUSPEND \<Longrightarrow> wf_thread (th t)"
    "p < RT_THREAD_PRIORITY_MAX \<Longrightarrow> bit g p \<longleftrightarrow> L (Ready p) \<noteq> []"
  using assms by (auto simp: sched_ok_def)

lemma bit_number_mask:
  "wf_thread th \<Longrightarrow> bit (number_mask th) p \<longleftrightarrow> p = current_priority th"
  by (auto simp: wf_thread_def bit_exp_iff)

lemma sched_ok_insert:
  assumes ok: "sched_ok th L g" and un: "unlinked t L" and wf: "wf_thread (th t)"
    and th': "th' = th(t := (th t)\<lparr>stat := THREAD_READY\<rparr>)"
  shows "sched_ok th' (list_push_back (Ready (current_priority (th t))) t L) (g OR number_mask (th t))"
  unfolding sched_ok_def
proof (intro conjI allI impI)
  note D = sched_ok_D[OF ok]
  let ?L = "list_push_back (Ready (current_priority (th t))) t L"
  show "store_ok ?L" using D(1) un by (rule store_ok_push_back)
  have t: "t \<notin> set (L l)" for l using un by (auto simp: unlinked_def)
  show "stat (th' u) = list_stat l" if "u \<in> set (?L l)" for l u
    using that D(2)[of u l] t by (auto simp: list_push_back_def th' split: if_splits)
  show "u \<in> set (?L (Ready p)) \<longleftrightarrow> stat (th' u) = THREAD_READY \<and> current_priority (th' u) = p" for p u
    using D(3)[of u p] t by (auto simp: list_push_back_def th')
  show "wf_thread (th' u)" if "stat (th' u) \<in> {THREAD_READY, THREAD_SUSPEND}" for u
    using that D(4)[of u] wf by (auto simp: th' wf_thread_def split: if_splits)
  show "bit (g OR number_mask (th t)) p \<longleftrightarrow> ?L (Ready p) \<noteq> []" if "p < RT_THREAD_PRIORITY_MAX" for p
    using D(5)[OF that] wf by (auto simp: bit_or_iff bit_number_mask list_push_back_def)
qed

lemma sched_ok_remove:
  assumes ok: "sched_ok th L g" and wf: "wf_thread (th t)" and x: "x \<noteq> THREAD_READY"
    and th': "th' = th(t := (th t)\<lparr>stat := x\<rparr>)"
    and g': "g' = (if list_unlink t L (Ready (current_priority (th t))) = []
                   then g AND NOT (number_mask (th t)) else g)"
  shows "sched_ok th' (list_unlink t L) g'"
  unfolding sched_ok_def
proof (intro conjI allI impI)
  note D = sched_ok_D[OF ok]
  let ?L = "list_unlink t L" and ?p = "current_priority (th t)"
  show "store_ok ?L" using D(1) by (rule store_ok_unlink)
  show "stat (th' u) = list_stat l" if "u \<in> set (?L l)" for l u
    using that D(2)[of u l] by (auto simp: list_unlink_def th')
  show "u \<in> set (?L (Ready p)) \<longleftrightarrow> stat (th' u) = THREAD_READY \<and> current_priority (th' u) = p" for p u
    using D(3)[of u p] x by (auto simp: list_unlink_def th')
  show "wf_thread (th' u)" if "stat (th' u) \<in> {THREAD_READY, THREAD_SUSPEND}" for u
    using that D(4)[of u] wf by (auto simp: th' wf_thread_def split: if_splits)
  show "bit g' p \<longleftrightarrow> ?L (Ready p) \<noteq> []" if p: "p < RT_THREAD_PRIORITY_MAX" for p
  proof (cases "p = ?p")
    case True
    have "L (Ready p) \<noteq> []" if "?L (Ready p) \<noteq> []" using that by (auto simp: list_unlink_def)
    then show ?thesis using True D(5)[OF p] p wf
      by (auto simp: g' bit_and_iff bit_not_iff bit_number_mask)
  next
    case False
    have "t \<notin> set (L (Ready p))" using D(3)[of t p] False by blast
    then have "?L (Ready p) = L (Ready p)" by (simp add: list_unlink_def)
    then show ?thesis using False D(5)[OF p] p wf
      by (auto simp: g' bit_and_iff bit_not_iff bit_number_mask)
  qed
qed

text \<open>A change of fields the invariant does not look at, or a thread that stays off the lists.\<close>

lemma sched_ok_same:
  assumes "sched_ok th L g" "\<And>u. stat (th' u) = stat (th u)"
    "\<And>u. current_priority (th' u) = current_priority (th u)" "\<And>u. number_mask (th' u) = number_mask (th u)"
  shows "sched_ok th' L g"
  using assms by (simp add: sched_ok_def wf_thread_def)

lemma sched_ok_not_ready:
  assumes ok: "sched_ok th L g" and nr: "stat (th t) \<noteq> THREAD_READY" "stat v \<noteq> THREAD_READY"
    and lists: "\<And>l. t \<in> set (L l) \<Longrightarrow> stat v = list_stat l"
    and wf: "stat v = THREAD_SUSPEND \<Longrightarrow> wf_thread v"
  shows "sched_ok (th(t := v)) L g"
  unfolding sched_ok_def
proof (intro conjI allI impI)
  note D = sched_ok_D[OF ok]
  show "store_ok L" by (rule D(1))
  show "stat ((th(t := v)) u) = list_stat l" if "u \<in> set (L l)" for l u
    using that D(2)[of u l] lists by (cases "u = t") auto
  show "u \<in> set (L (Ready p)) \<longleftrightarrow> stat ((th(t := v)) u) = THREAD_READY \<and> current_priority ((th(t := v)) u) = p"
    for p u using D(3)[of u p] nr by auto
  show "wf_thread ((th(t := v)) u)" if "stat ((th(t := v)) u) \<in> {THREAD_READY, THREAD_SUSPEND}" for u
    using that D(4)[of u] nr(2) wf by (auto split: if_splits)
  show "bit g p \<longleftrightarrow> L (Ready p) \<noteq> []" if "p < RT_THREAD_PRIORITY_MAX" for p
    using D(5)[OF that] .
qed

lemma sched_ok_unlink:
  assumes "sched_ok th L g" "stat (th t) \<noteq> THREAD_READY"
  shows "sched_ok th (list_unlink t L) g"
proof -
  note D = sched_ok_D[OF assms(1)]
  have r: "list_unlink t L (Ready p) = L (Ready p)" for p
    using D(3)[of t p] assms(2) by (simp add: list_unlink_def)
  have "\<forall>l u. u \<in> set (list_unlink t L l) \<longrightarrow> stat (th u) = list_stat l"
    using D(2) by (auto simp: list_unlink_def)
  then show ?thesis using assms(1) r store_ok_unlink[OF D(1), of t] by (simp add: sched_ok_def)
qed

lemma sched_ok_unlinked:
  assumes "sched_ok th L g" "stat (th t) \<in> {THREAD_INIT, THREAD_RUNNING}"
  shows "unlinked t L"
proof -
  have "t \<notin> set (L l)" for l
    using sched_ok_D(2)[OF assms(1), of t l] assms(2) by (cases l) auto
  then show ?thesis by (simp add: unlinked_def)
qed

lemma sched_ok_requeue:
  assumes "sched_ok th L g" "stat (th t) = THREAD_READY"
  shows "sched_ok th (list_push_back (Ready (current_priority (th t))) t (list_unlink t L)) g"
proof -
  note D = sched_ok_D[OF assms(1)]
  let ?L = "list_push_back (Ready (current_priority (th t))) t (list_unlink t L)"
  have t: "t \<in> set (L (Ready (current_priority (th t))))" using D(3) assms(2) by blast
  have "t \<notin> set (L l)" if "l \<noteq> Ready (current_priority (th t))" for l
    using store_ok_same_list[OF D(1) t, of l] that by blast
  then have s: "set (?L l) = set (L l)" for l
    using t by (auto simp: list_push_back_def list_unlink_def)
  then have "?L l = [] \<longleftrightarrow> L l = []" for l by (metis set_empty)
  moreover have "store_ok ?L" using D(1) by (intro store_ok_push_back store_ok_unlink) simp_all
  ultimately show ?thesis using assms(1) s unfolding sched_ok_def by simp
qed

lemma sched_ok_enqueue:
  assumes "sched_ok th L g" "unlinked t L" "stat (th t) = list_stat l" "stat (th t) \<noteq> THREAD_READY"
    "store_ok L'" "\<And>m. set (L' m) = (if m = l then insert t (set (L l)) else set (L m))"
  shows "sched_ok th L' g"
proof -
  have l: "l \<noteq> Ready p" for p using assms(3,4) by auto
  then have "set (L' (Ready p)) = set (L (Ready p))" for p using assms(6)[of "Ready p"] by auto
  moreover from this have "L' (Ready p) = [] \<longleftrightarrow> L (Ready p) = []" for p by (metis set_empty)
  moreover have "\<forall>m u. u \<in> set (L' m) \<longrightarrow> stat (th u) = list_stat m"
    using assms(1,3,6) by (auto simp: sched_ok_def split: if_splits)
  ultimately show ?thesis using assms(1,5) unfolding sched_ok_def by auto
qed

subsection \<open>What the scheduler selects\<close>

lemma highest_ready_Some:
  assumes inv: "sched_inv s" and "highest_ready s = Some (h, t)"
  shows "t \<in> set (tlists s (Ready h))" "hd (tlists s (Ready h)) = t" "ready s t"
    "current_priority (threads s t) = h" "h < RT_THREAD_PRIORITY_MAX"
    "ready s u \<Longrightarrow> h \<le> current_priority (threads s u)"
proof -
  let ?g = "rt_thread_ready_priority_group s"
  note D = sched_ok_D[OF inv[unfolded sched_inv_def]]
  obtain rest where q: "rt_ffs ?g = Suc h" "tlists s (Ready h) = t # rest"
    using assms(2) by (auto simp: highest_ready_def split: nat.splits list.splits)
  then have "?g \<noteq> 0" by (auto simp: rt_ffs_def)
  then obtain k where k: "rt_ffs ?g = k + 1" "k < 32" "bit ?g k" "\<forall>i<k. \<not> bit ?g i"
    using rt_ffs_lowest by blast
  have h: "k = h" using k(1) q(1) by simp
  show "t \<in> set (tlists s (Ready h))" "hd (tlists s (Ready h)) = t" using q(2) by simp_all
  then show r: "ready s t" "current_priority (threads s t) = h"
    using D(3)[of t h] by (simp_all add: ready_def)
  show "h < RT_THREAD_PRIORITY_MAX" using k(2) h by simp
  show "h \<le> current_priority (threads s u)" if "ready s u"
  proof -
    have u: "u \<in> set (tlists s (Ready (current_priority (threads s u))))"
      "current_priority (threads s u) < RT_THREAD_PRIORITY_MAX"
      using D(3,4)[of u] that by (auto simp: ready_def wf_thread_def)
    then have "bit ?g (current_priority (threads s u))" using D(5) by (metis empty_iff empty_set)
    then show ?thesis using k(4) h not_less by blast
  qed
qed

lemma highest_ready_exists:
  assumes inv: "sched_inv s" and "ready s u"
  shows "\<exists>h t. highest_ready s = Some (h, t)"
proof -
  let ?g = "rt_thread_ready_priority_group s"
  note D = sched_ok_D[OF inv[unfolded sched_inv_def]]
  have u: "u \<in> set (tlists s (Ready (current_priority (threads s u))))"
    "current_priority (threads s u) < RT_THREAD_PRIORITY_MAX"
    using D(3,4)[of u] assms(2) by (auto simp: ready_def wf_thread_def)
  then have "bit ?g (current_priority (threads s u))" using D(5) by (metis empty_iff empty_set)
  then have "?g \<noteq> 0" by auto
  then obtain k where k: "rt_ffs ?g = k + 1" "k < 32" "bit ?g k" using rt_ffs_lowest by blast
  then have "tlists s (Ready k) \<noteq> []" using D(5) by blast
  then show ?thesis using k(1) by (cases "tlists s (Ready k)") (auto simp: highest_ready_def)
qed

definition stack_ok :: "rt_thread \<Rightarrow> bool" where
  "stack_ok th \<longleftrightarrow> stack_addr th < sp th \<and> sp th \<le> add32 (stack_addr th) (unat (stack_size th))"

lemma stack_check_iff:
  "rt_scheduler_stack_check t s = (if stack_ok (threads s t) then Some s else None)"
  by (auto simp: rt_scheduler_stack_check_def stack_ok_def Let_def not_le)

text \<open>Everything but the two current-thread variables is left alone by \<open>rt_schedule\<close>.\<close>

lemma rt_schedule_cases:
  assumes "rt_schedule s = Some s'"
  shows "s' = s \<or> (\<exists>h t. s' = s\<lparr>rt_current_priority := h, rt_current_thread := Some t\<rparr>)"
  using assms
  by (simp add: rt_schedule_def stack_check_iff split: if_splits bind_splits prod.splits) blast+

lemma rt_schedule_frame:
  assumes "rt_schedule s = Some s'"
  shows "\<exists>p c. s' = s\<lparr>rt_current_priority := p, rt_current_thread := c\<rparr>"
proof -
  have "s = s\<lparr>rt_current_priority := rt_current_priority s, rt_current_thread := rt_current_thread s\<rparr>"
    by simp
  then show ?thesis using rt_schedule_cases[OF assms] by metis
qed

lemma rt_schedule_sched_inv: "sched_inv s \<Longrightarrow> rt_schedule s = Some s' \<Longrightarrow> sched_inv s'"
  using rt_schedule_cases by (fastforce simp: sched_inv_def)

lemma rt_schedule_locked: "rt_scheduler_lock_nest s \<noteq> 0 \<Longrightarrow> rt_schedule s = Some s"
  by (simp add: rt_schedule_def)

lemma rt_schedule_selects:
  assumes "sched_inv s" "rt_scheduler_lock_nest s = 0" "rt_schedule s = Some s'"
  shows "\<exists>h t. highest_ready s = Some (h, t) \<and> rt_current_thread s' = Some t"
  using assms by (auto simp: rt_schedule_def stack_check_iff split: if_splits bind_splits)

lemma rt_schedule_returns:
  assumes "sched_inv s" "ready s u" "rt_current_thread s \<noteq> None" "\<forall>t. ready s t \<longrightarrow> stack_ok (threads s t)"
  shows "\<exists>s'. rt_schedule s = Some s'"
proof -
  obtain h t where t: "highest_ready s = Some (h, t)"
    using highest_ready_exists[OF assms(1,2)] by blast
  then have "stack_ok (threads s t)" using highest_ready_Some(3)[OF assms(1)] assms(4) by blast
  then show ?thesis using t assms(3) by (auto simp: rt_schedule_def stack_check_iff)
qed

subsection \<open>The ready queue operations keep the invariant\<close>

lemma insert_thread_inv:
  assumes "sched_inv s" "unlinked t (tlists s)" "wf_thread (threads s t)"
  shows "sched_inv (rt_schedule_insert_thread t s)"
  using sched_ok_insert[OF assms(1)[unfolded sched_inv_def] assms(2,3) refl]
  by (simp add: sched_inv_def rt_schedule_insert_thread_def upd_thread_def upd_tlists_def Let_def)

lemma remove_thread_inv:
  assumes "sched_inv s" "wf_thread (threads s t)" "x \<noteq> THREAD_READY"
  shows "sched_inv (upd_thread t (\<lambda>th. th\<lparr>stat := x\<rparr>) (rt_schedule_remove_thread t s))"
  using sched_ok_remove[OF assms(1)[unfolded sched_inv_def] assms(2,3) refl refl]
  by (auto simp: sched_inv_def rt_schedule_remove_thread_def upd_thread_def upd_tlists_def Let_def)

lemma remove_thread_upd_stat:
  "rt_schedule_remove_thread t (upd_thread t (\<lambda>th. th\<lparr>stat := x\<rparr>) s)
   = upd_thread t (\<lambda>th. th\<lparr>stat := x\<rparr>) (rt_schedule_remove_thread t s)"
  by (simp add: rt_schedule_remove_thread_def upd_thread_def upd_tlists_def Let_def)

lemma remove_thread_unlinked [simp]: "unlinked t (tlists (rt_schedule_remove_thread t s))"
  by (simp add: rt_schedule_remove_thread_def upd_tlists_def Let_def)

lemma remove_thread_tlists: "tlists (rt_schedule_remove_thread t s) = list_unlink t (tlists s)"
  by (simp add: rt_schedule_remove_thread_def upd_tlists_def Let_def)

lemma scheduler_init_inv:
  assumes "\<forall>t. stat (threads s t) \<notin> {THREAD_READY, THREAD_SUSPEND}" "\<forall>l. tlists s l = []"
  shows "sched_inv (rt_system_scheduler_init s)"
proof -
  have "tlists (rt_system_scheduler_init s) l = []" for l
    using assms(2) by (cases l) (simp_all add: rt_system_scheduler_init_def)
  then show ?thesis using assms(1)
    by (simp add: sched_inv_def sched_ok_def store_ok_def) (simp add: rt_system_scheduler_init_def)
qed

subsection \<open>Properties\<close>

text \<open>C6: With the scheduler unlocked and a thread ready, \<open>rt_schedule\<close> returns and the thread it
  leaves current is ready, stands first in the queue of its priority, and no ready thread
  has a higher priority (a smaller number); the invariant is kept.\<close>

theorem rt_schedule_runs_highest_priority:
  assumes "sched_inv s" "rt_scheduler_lock_nest s = 0" "ready s u" "rt_current_thread s \<noteq> None"
    "\<forall>t. ready s t \<longrightarrow> stack_ok (threads s t)"
  shows "\<exists>s' t. rt_schedule s = Some s' \<and> sched_inv s' \<and> rt_current_thread s' = Some t
    \<and> ready s' t \<and> hd (tlists s' (Ready (current_priority (threads s' t)))) = t
    \<and> (\<forall>v. ready s' v \<longrightarrow> current_priority (threads s' t) \<le> current_priority (threads s' v))"
proof -
  obtain s' where s': "rt_schedule s = Some s'" using rt_schedule_returns[OF assms(1,3,4,5)] by blast
  obtain h t where t: "highest_ready s = Some (h, t)" "rt_current_thread s' = Some t"
    using rt_schedule_selects[OF assms(1,2) s'] by blast
  have "threads s' = threads s" "tlists s' = tlists s" using rt_schedule_frame[OF s'] by auto
  then show ?thesis
    using s' t highest_ready_Some[OF assms(1) t(1)] rt_schedule_sched_inv[OF assms(1) s']
    by (auto simp: ready_def)
qed

text \<open>A small kernel state for the witnesses: thread 1 of priority 20 runs, thread 2 of priority 10
  is ready, every other thread is closed and every list but the two ready queues is empty.\<close>

definition demo_thread :: "nat \<Rightarrow> thread_stat \<Rightarrow> rt_thread" where
  "demo_thread p x = \<lparr>sp = 1152, thread_entry = 0, thread_param = 0, stack_addr = 1024,
     stack_size = 256, thread_error = 0, stat = x, current_priority = p, init_priority = p,
     number_mask = push_bit p 1, event_set = 0, event_info = 0, thread_init_tick = 10,
     remaining_tick = 10, cleanup = None, user_data = 0\<rparr>"

definition demo_threads :: "tid \<Rightarrow> rt_thread" where
  "demo_threads t = (if t = 1 then demo_thread 20 THREAD_READY
     else if t = 2 then demo_thread 10 THREAD_READY
     else if t = 3 then demo_thread 15 THREAD_SUSPEND
     else demo_thread 0 THREAD_CLOSE)"

definition demo_tlists :: "lhead \<Rightarrow> tid list" where
  "demo_tlists l = (if l = Ready 20 then [1] else if l = Ready 10 then [2] else [])"

definition demo_obj :: "ptr \<Rightarrow> rt_object" where
  "demo_obj p = \<lparr>o_name = replicate 8 0, o_type = 0x80, o_flag = 0\<rparr>"

definition demo_timer :: "ptr \<Rightarrow> rt_timer" where
  "demo_timer p = \<lparr>timeout_func = Thread_timeout,
     timer_parameter = (case p of ThreadTimer t \<Rightarrow> t | At a \<Rightarrow> a), timer_init_tick = 0, timeout_tick = 0\<rparr>"

definition demo_sched :: sched_state where
  "demo_sched = \<lparr>rt_interrupt_nest = 0, heap_ptr = 0x20000000, heap_end = 0, lfree = 0,
     mem_size_aligned = 0, used_mem = 0, max_mem = 0,
     blk = (\<lambda>_. \<lparr>hm_magic = 0, hm_used = 0, hm_next = 0, hm_prev = 0\<rparr>), mdata = (\<lambda>_. 0),
     objs = demo_obj, object_list = (\<lambda>_. []), object_size = (\<lambda>_. 0),
     rt_tick = 0, timers = demo_timer, rt_timer_list = [[]], random_nr = 0,
     threads = demo_threads, tlists = demo_tlists, rt_current_thread = Some 1,
     rt_current_priority = 20, rt_thread_ready_priority_group = 0x100400,
     rt_scheduler_lock_nest = 0, errno = 0, rt_thread_exit_addr = 0x08000000\<rparr>"

lemma bit_demo_group: "bit (0x100400 :: rt_uint32_t) p \<longleftrightarrow> p = 10 \<or> p = 20"
proof -
  have "(0x100400 :: rt_uint32_t) = push_bit 10 1 OR push_bit 20 1" by simp
  then show ?thesis by (simp only: bit_or_iff bit_push_bit_iff bit_1_iff) auto
qed

lemma demo_sched_inv: "sched_inv demo_sched"
  unfolding sched_inv_def sched_ok_def
proof (intro conjI allI impI)
  show "store_ok (tlists demo_sched)"
    by (auto simp: store_ok_def demo_sched_def demo_tlists_def)
  show "stat (threads demo_sched t) = list_stat l" if "t \<in> set (tlists demo_sched l)" for l t
    using that by (auto simp: demo_sched_def demo_tlists_def demo_threads_def demo_thread_def split: if_splits)
  show "t \<in> set (tlists demo_sched (Ready p)) \<longleftrightarrow>
      stat (threads demo_sched t) = THREAD_READY \<and> current_priority (threads demo_sched t) = p" for p t
    by (auto simp: demo_sched_def demo_tlists_def demo_threads_def demo_thread_def)
  show "wf_thread (threads demo_sched t)"
    if "stat (threads demo_sched t) \<in> {THREAD_READY, THREAD_SUSPEND}" for t
    using that by (auto simp: demo_sched_def demo_threads_def demo_thread_def wf_thread_def)
  show "bit (rt_thread_ready_priority_group demo_sched) p \<longleftrightarrow> tlists demo_sched (Ready p) \<noteq> []" for p
    using bit_demo_group[of p] by (auto simp: demo_sched_def demo_tlists_def)
qed

lemma demo_stacks: "stack_ok (threads demo_sched t)"
  by (simp add: demo_sched_def demo_threads_def demo_thread_def stack_ok_def add32_def)

theorem rt_schedule_runs_highest_priority_witness:
  "\<exists>s' t. rt_schedule demo_sched = Some s' \<and> sched_inv s' \<and> rt_current_thread s' = Some t
    \<and> ready s' t \<and> hd (tlists s' (Ready (current_priority (threads s' t)))) = t
    \<and> (\<forall>v. ready s' v \<longrightarrow> current_priority (threads s' t) \<le> current_priority (threads s' v))"
  using rt_schedule_runs_highest_priority[OF demo_sched_inv, of 1] demo_stacks
  by (simp add: demo_sched_def ready_def demo_threads_def demo_thread_def)
end
