(* ===== verification/Thread.thy ===== *)
theory Thread
  imports Scheduler
begin

text \<open>
  Threads, \<^verbatim>\<open>src/thread.c\<close>, with the initial stack frame of \<^verbatim>\<open>libcpu/arm/cortex-m3/cpuport.c\<close>, the
  idle thread's clean-up of \<^verbatim>\<open>src/idle.c\<close> and the tick interrupt of \<^verbatim>\<open>src/clock.c\<close>.
  An operation that may suspend the calling thread returns \<open>Wait\<close> when another thread was
  switched to; the code after its call of \<open>rt_schedule\<close> is then a definition of its own, which
  runs when the thread is current again.
\<close>

subsection \<open>The stack of a new thread\<close>

text \<open>The sixteen words of \<^verbatim>\<open>struct stack_frame\<close>, after the eight registers r4 to r11.\<close>

definition rt_hw_stack_init :: "nat \<Rightarrow> nat \<Rightarrow> nat \<Rightarrow> nat \<Rightarrow> bmem \<Rightarrow> nat \<times> bmem" where
  "rt_hw_stack_init tentry param stk_addr texit m =
     (let stk = add32 stk_addr 4;
          stk = unat (RT_ALIGN_DOWN (of_nat stk) 8);
          stk = sub32 stk 64;
          m = foldl (\<lambda>m i. store32 (stk + 4 * i) 0xdeadbeef m) m [0..<16];
          m = store32 (stk + 32) (of_nat param) m;
          m = store32 (stk + 36) 0 m;
          m = store32 (stk + 40) 0 m;
          m = store32 (stk + 44) 0 m;
          m = store32 (stk + 48) 0 m;
          m = store32 (stk + 52) (of_nat texit) m;
          m = store32 (stk + 56) (of_nat tentry) m;
          m = store32 (stk + 60) 0x01000000 m
      in (stk, m))"

subsection \<open>Suspending and resuming\<close>

definition rt_thread_suspend :: "tid \<Rightarrow> 'a sched_state_scheme \<Rightarrow> rt_err_t \<times> 'a sched_state_scheme" where
  "rt_thread_suspend t s =
     (if stat (threads s t) \<noteq> THREAD_READY then (- RT_ERROR, s)
      else (RT_EOK, rt_schedule_remove_thread t (upd_thread t (\<lambda>th. th\<lparr>stat := THREAD_SUSPEND\<rparr>) s)))"

definition rt_thread_resume :: "tid \<Rightarrow> 'a sched_state_scheme \<Rightarrow> rt_err_t \<times> 'a sched_state_scheme" where
  "rt_thread_resume t s =
     (if stat (threads s t) \<noteq> THREAD_SUSPEND then (- RT_ERROR, s)
      else
        let s = upd_tlists (list_unlink t) s;
            s = snd (rt_timer_stop (ThreadTimer t) s)
        in (RT_EOK, rt_schedule_insert_thread t s))"

definition rt_thread_timeout :: "tid \<Rightarrow> 'a sched_state_scheme \<Rightarrow> 'a sched_state_scheme option" where
  "rt_thread_timeout t s =
     do { s \<leftarrow> RT_ASSERT (stat (threads s t) = THREAD_SUSPEND) s;
          let s = upd_thread t (\<lambda>th. th\<lparr>thread_error := - RT_ETIMEOUT\<rparr>) s;
          let s = upd_tlists (list_unlink t) s;
          rt_schedule (rt_schedule_insert_thread t s) }"

subsection \<open>Life cycle\<close>

text \<open>\<^verbatim>\<open>_rt_thread_init\<close>, for a thread that is in no list. The priority mask is not set.\<close>

definition do_rt_thread_init :: "tid \<Rightarrow> nat \<Rightarrow> nat \<Rightarrow> nat \<Rightarrow> nat \<Rightarrow> nat \<Rightarrow> rt_uint32_t
    \<Rightarrow> 'a sched_state_scheme \<Rightarrow> 'a sched_state_scheme option" where
  "do_rt_thread_init t entry param stack_start stk_size priority tick s =
     (let ssz = (of_nat stk_size :: rt_uint16_t);
          m = rt_memset stack_start 0x23 (unat ssz) (mdata s);
          (stk, m) = rt_hw_stack_init entry param
            (sub32 (add32 stack_start (unat ssz)) 4) (rt_thread_exit_addr s) m;
          s = s\<lparr>mdata := m\<rparr>
      in do { s \<leftarrow> RT_ASSERT (priority < RT_THREAD_PRIORITY_MAX) s;
              let s = upd_thread t (\<lambda>th. th\<lparr>thread_entry := entry, thread_param := param,
                    stack_addr := stack_start, stack_size := ssz, sp := stk,
                    init_priority := priority, current_priority := priority,
                    thread_init_tick := tick, remaining_tick := tick,
                    thread_error := RT_EOK, stat := THREAD_INIT,
                    cleanup := None, user_data := 0\<rparr>) s;
              rt_timer_init (ThreadTimer t) (o_name (objs s (At t))) Thread_timeout t 0 0 s })"

definition rt_thread_init :: "tid \<Rightarrow> 8 word list \<Rightarrow> nat \<Rightarrow> nat \<Rightarrow> nat \<Rightarrow> nat \<Rightarrow> nat \<Rightarrow> rt_uint32_t
    \<Rightarrow> 'a sched_state_scheme \<Rightarrow> 'a sched_state_scheme option" where
  "rt_thread_init t name entry param stack_start stk_size priority tick s =
     do { s \<leftarrow> RT_ASSERT (stack_start \<noteq> 0) s;
          s \<leftarrow> rt_object_init (At t) Class_Thread name s;
          do_rt_thread_init t entry param stack_start stk_size priority tick s }"

definition rt_thread_create :: "8 word list \<Rightarrow> nat \<Rightarrow> nat \<Rightarrow> nat \<Rightarrow> nat \<Rightarrow> rt_uint32_t
    \<Rightarrow> 'a sched_state_scheme \<Rightarrow> (tid option \<times> 'a sched_state_scheme) option" where
  "rt_thread_create name entry param stk_size priority tick s =
     do { (a, s) \<leftarrow> rt_object_allocate Class_Thread name s;
          case a of
            None \<Rightarrow> Some (None, s)
          | Some t \<Rightarrow>
              do { (stk, s) \<leftarrow> rt_malloc stk_size s;
                   case stk of
                     None \<Rightarrow> do { s \<leftarrow> rt_object_delete t s; Some (None, s) }
                   | Some stack_start \<Rightarrow>
                       do { s \<leftarrow> do_rt_thread_init t entry param stack_start stk_size priority tick s;
                            Some (Some t, s) } } }"

definition rt_thread_startup :: "tid \<Rightarrow> 'a sched_state_scheme \<Rightarrow> (rt_err_t \<times> 'a sched_state_scheme) option" where
  "rt_thread_startup t s =
     do { s \<leftarrow> RT_ASSERT (stat (threads s t) = THREAD_INIT) s;
          let s = upd_thread t (\<lambda>th. th\<lparr>current_priority := init_priority th\<rparr>) s;
          let s = upd_thread t (\<lambda>th. th\<lparr>number_mask := push_bit (current_priority th) 1\<rparr>) s;
          let s = upd_thread t (\<lambda>th. th\<lparr>stat := THREAD_SUSPEND\<rparr>) s;
          let s = snd (rt_thread_resume t s);
          s \<leftarrow> (if rt_thread_self s \<noteq> None then rt_schedule s else Some s);
          Some (RT_EOK, s) }"

definition rt_thread_exit :: "'a sched_state_scheme \<Rightarrow> 'a sched_state_scheme option" where
  "rt_thread_exit s =
     do { t \<leftarrow> rt_current_thread s;
          let s = rt_schedule_remove_thread t s;
          let s = upd_thread t (\<lambda>th. th\<lparr>stat := THREAD_CLOSE\<rparr>) s;
          let s = rt_timer_detach (ThreadTimer t) s;
          let s = (if rt_object_is_systemobject (At t) s \<and> cleanup (threads s t) = None
                   then rt_object_detach (At t) s
                   else upd_tlists (list_push_front Defunct t) s);
          rt_schedule s }"

definition rt_thread_detach :: "tid \<Rightarrow> 'a sched_state_scheme \<Rightarrow> rt_err_t \<times> 'a sched_state_scheme" where
  "rt_thread_detach t s =
     (let s = rt_schedule_remove_thread t s;
          s = rt_timer_detach (ThreadTimer t) s;
          s = upd_thread t (\<lambda>th. th\<lparr>stat := THREAD_CLOSE\<rparr>) s;
          s = rt_object_detach (At t) s;
          s = (if cleanup (threads s t) \<noteq> None then upd_tlists (list_push_front Defunct t) s else s)
      in (RT_EOK, s))"

definition rt_thread_delete :: "tid \<Rightarrow> 'a sched_state_scheme \<Rightarrow> rt_err_t \<times> 'a sched_state_scheme" where
  "rt_thread_delete t s =
     (let s = rt_schedule_remove_thread t s;
          s = rt_timer_detach (ThreadTimer t) s;
          s = upd_thread t (\<lambda>th. th\<lparr>stat := THREAD_CLOSE\<rparr>) s
      in (RT_EOK, upd_tlists (list_push_front Defunct t) s))"

subsection \<open>Yielding, sleeping and changing priority\<close>

text \<open>
  The node of a ready thread has different neighbours exactly when its queue holds another
  thread, which is what the second condition of \<open>rt_thread_yield\<close> tests.
\<close>

definition rt_thread_yield :: "'a sched_state_scheme \<Rightarrow> (rt_err_t \<times> 'a sched_state_scheme) option" where
  "rt_thread_yield s =
     do { t \<leftarrow> rt_current_thread s;
          let q = Ready (current_priority (threads s t));
          if stat (threads s t) = THREAD_READY \<and> length (tlists s q) \<ge> 2 then
            do { s \<leftarrow> rt_schedule (upd_tlists (\<lambda>L. list_push_back q t (list_unlink t L)) s);
                 Some (RT_EOK, s) }
          else Some (RT_EOK, s) }"

definition rt_thread_sleep_end :: "tid \<Rightarrow> 'a sched_state_scheme \<Rightarrow> rt_err_t \<times> 'a sched_state_scheme" where
  "rt_thread_sleep_end t s =
     (RT_EOK, if thread_error (threads s t) = - RT_ETIMEOUT
              then upd_thread t (\<lambda>th. th\<lparr>thread_error := RT_EOK\<rparr>) s else s)"

definition rt_thread_sleep :: "rt_tick_t \<Rightarrow> 'a sched_state_scheme
    \<Rightarrow> ((rt_err_t, tid) outcome \<times> 'a sched_state_scheme) option" where
  "rt_thread_sleep tick s =
     do { t \<leftarrow> rt_current_thread s;
          let s = snd (rt_thread_suspend t s);
          let s = snd (rt_timer_control (ThreadTimer t) 0 tick s);
          (r, s) \<leftarrow> rt_timer_start (ThreadTimer t) s;
          s \<leftarrow> rt_schedule s;
          Some (if rt_current_thread s = Some t
                then (let (r, s) = rt_thread_sleep_end t s in (Ret r, s))
                else (Wait t, s)) }"

definition rt_thread_delay :: "rt_tick_t \<Rightarrow> 'a sched_state_scheme
    \<Rightarrow> ((rt_err_t, tid) outcome \<times> 'a sched_state_scheme) option" where
  "rt_thread_delay tick s = rt_thread_sleep tick s"

text \<open>A ready thread can only be moved to a queue the table has.\<close>

definition rt_thread_control :: "tid \<Rightarrow> rt_uint8_t \<Rightarrow> nat \<Rightarrow> 'a sched_state_scheme
    \<Rightarrow> (rt_err_t \<times> 'a sched_state_scheme) option" where
  "rt_thread_control t cmd arg s =
     (if cmd = 2 then
        let set_prio = upd_thread t (\<lambda>th. th\<lparr>current_priority := arg, number_mask := push_bit arg 1\<rparr>)
        in
        if stat (threads s t) = THREAD_READY then
          do { s \<leftarrow> RT_ASSERT (arg < RT_THREAD_PRIORITY_MAX) s;
               Some (RT_EOK, rt_schedule_insert_thread t (set_prio (rt_schedule_remove_thread t s))) }
        else Some (RT_EOK, set_prio s)
      else if cmd = 0 then rt_thread_startup t s
      else if cmd = 1 then Some (rt_thread_delete t s)
      else Some (RT_EOK, s))"

subsection \<open>The idle thread\<close>

text \<open>
  \<open>run_cleanup\<close> is the call through the pointer \<^verbatim>\<open>thread->cleanup\<close>. A thread that is a static object
  ends the loop.
\<close>

partial_function (option) rt_thread_idle_excute ::
    "(nat \<Rightarrow> tid \<Rightarrow> 'a sched_state_scheme \<Rightarrow> 'a sched_state_scheme option)
     \<Rightarrow> 'a sched_state_scheme \<Rightarrow> 'a sched_state_scheme option" where
  "rt_thread_idle_excute run_cleanup s =
     (case tlists s Defunct of
        [] \<Rightarrow> Some s
      | t # _ \<Rightarrow>
          do { s \<leftarrow> RT_DEBUG_NOT_IN_INTERRUPT s;
               let s = upd_tlists (list_unlink t) s;
               s \<leftarrow> (case cleanup (threads s t) of None \<Rightarrow> Some s | Some f \<Rightarrow> run_cleanup f t s);
               if rt_object_is_systemobject (At t) s then Some s
               else
                 do { s \<leftarrow> rt_free (Some (stack_addr (threads s t))) s;
                      s \<leftarrow> rt_object_delete t s;
                      rt_thread_idle_excute run_cleanup s } })"

definition rt_thread_idle_init :: "tid \<Rightarrow> nat \<Rightarrow> nat \<Rightarrow> 'a sched_state_scheme
    \<Rightarrow> 'a sched_state_scheme option" where
  "rt_thread_idle_init idle entry stack s =
     do { s \<leftarrow> rt_thread_init idle [0x74, 0x69, 0x64, 0x6c, 0x65, 0] entry 0 stack 256
            (RT_THREAD_PRIORITY_MAX - 1) 32 s;
          (r, s) \<leftarrow> rt_thread_startup idle s;
          Some s }"

subsection \<open>The tick interrupt\<close>

definition call_timeout :: "(nat \<Rightarrow> nat \<Rightarrow> 'a sched_state_scheme \<Rightarrow> 'a sched_state_scheme option)
    \<Rightarrow> timeout_fn \<Rightarrow> nat \<Rightarrow> 'a sched_state_scheme \<Rightarrow> 'a sched_state_scheme option" where
  "call_timeout user f param s =
     (case f of Thread_timeout \<Rightarrow> rt_thread_timeout param s | Timeout_fn n \<Rightarrow> user n param s)"

definition rt_tick_increase :: "(nat \<Rightarrow> nat \<Rightarrow> 'a sched_state_scheme \<Rightarrow> 'a sched_state_scheme option)
    \<Rightarrow> 'a sched_state_scheme \<Rightarrow> 'a sched_state_scheme option" where
  "rt_tick_increase user s =
     do { let s = s\<lparr>rt_tick := rt_tick s + 1\<rparr>;
          t \<leftarrow> rt_thread_self s;
          let s = upd_thread t (\<lambda>th. th\<lparr>remaining_tick := remaining_tick th - 1\<rparr>) s;
          s \<leftarrow> (if remaining_tick (threads s t) = 0 then
                  do { (r, s) \<leftarrow> rt_thread_yield
                         (upd_thread t (\<lambda>th. th\<lparr>remaining_tick := thread_init_tick th\<rparr>) s);
                       Some s }
                else Some s);
          rt_timer_check (call_timeout user) s }"

subsection \<open>The kernel invariant\<close>

text \<open>
  \<open>kinv\<close> joins the invariants of the scheduler and of the timers: the built-in timer of a
  started thread calls \<open>rt_thread_timeout\<close> for that thread and is not periodic, it is off while
  the thread is ready, and only a suspended thread has an active one. The last part is what
  keeps the assertion of \<open>rt_thread_timeout\<close> from failing in the tick interrupt.
\<close>

definition timer_of_thread :: "tid \<Rightarrow> rt_timer \<Rightarrow> rt_object \<Rightarrow> bool" where
  "timer_of_thread t tm ob \<longleftrightarrow> timeout_func tm = Thread_timeout \<and> timer_parameter tm = t
     \<and> o_flag ob AND TIMER_PERIODIC = 0"

abbreviation (input) thread_timer_ok :: "'a sched_state_scheme \<Rightarrow> tid \<Rightarrow> bool" where
  "thread_timer_ok s t \<equiv> timer_of_thread t (timers s (ThreadTimer t)) (objs s (ThreadTimer t))"

definition thread_timers :: "'a sched_state_scheme \<Rightarrow> bool" where
  "thread_timers s \<longleftrightarrow>
     (\<forall>t. (stat (threads s t) = THREAD_READY \<or> stat (threads s t) = THREAD_SUSPEND \<longrightarrow> thread_timer_ok s t)
        \<and> (stat (threads s t) = THREAD_READY \<longrightarrow> o_flag (objs s (ThreadTimer t)) AND TIMER_ACTIVATED = 0)
        \<and> (ThreadTimer t \<in> set (active_timers s) \<longrightarrow> stat (threads s t) = THREAD_SUSPEND))"

definition kinv :: "'a sched_state_scheme \<Rightarrow> bool" where
  "kinv s \<longleftrightarrow> sched_inv s \<and> timer_inv s \<and> thread_timers s"

lemma kinvD:
  assumes "kinv s"
  shows "sched_inv s" "timer_inv s" "thread_timers s"
    "sched_ok (threads s) (tlists s) (rt_thread_ready_priority_group s)"
    "stat (threads s t) = THREAD_READY \<or> stat (threads s t) = THREAD_SUSPEND \<Longrightarrow> wf_thread (threads s t)"
    "stat (threads s t) = THREAD_READY \<or> stat (threads s t) = THREAD_SUSPEND \<Longrightarrow> thread_timer_ok s t"
    "stat (threads s t) = THREAD_READY \<Longrightarrow> o_flag (objs s (ThreadTimer t)) AND TIMER_ACTIVATED = 0"
    "ThreadTimer t \<in> set (active_timers s) \<Longrightarrow> stat (threads s t) = THREAD_SUSPEND"
  using assms sched_ok_D(4)[of "threads s" "tlists s" "rt_thread_ready_priority_group s" t]
  by (auto simp: kinv_def sched_inv_def thread_timers_def)

text \<open>What the timer predicates see of a state of the scheduler.\<close>

lemma active_timers_frame [simp]:
  "active_timers (threads_update f s) = active_timers s"
  "active_timers (tlists_update g s) = active_timers s"
  "active_timers (rt_current_thread_update h s) = active_timers s"
  "active_timers (rt_current_priority_update i s) = active_timers s"
  "active_timers (rt_thread_ready_priority_group_update j s) = active_timers s"
  "active_timers (rt_scheduler_lock_nest_update k s) = active_timers s"
  "active_timers (errno_update l s) = active_timers s"
  "active_timers (objs_update m s) = active_timers s"
  "active_timers (timers_update n s) = active_timers s"
  "active_timers (object_list_update a s) = active_timers s"
  "active_timers (mdata_update b s) = active_timers s"
  "active_timers (rt_tick_update c s) = active_timers s"
  by (simp_all add: active_timers_def)

lemma timer_inv_frame [simp]:
  "timer_inv (threads_update f s) = timer_inv s"
  "timer_inv (tlists_update g s) = timer_inv s"
  "timer_inv (rt_current_thread_update h s) = timer_inv s"
  "timer_inv (rt_current_priority_update i s) = timer_inv s"
  "timer_inv (rt_thread_ready_priority_group_update j s) = timer_inv s"
  "timer_inv (rt_scheduler_lock_nest_update k s) = timer_inv s"
  "timer_inv (errno_update l s) = timer_inv s"
  "timer_inv (object_list_update a s) = timer_inv s"
  "timer_inv (mdata_update b s) = timer_inv s"
  by (auto intro!: timer_inv_cong elim!: timer_inv_cong simp: active_timers_def)

lemma kinv_frame [simp]:
  "kinv (rt_current_thread_update h s) = kinv s"
  "kinv (rt_current_priority_update i s) = kinv s"
  "kinv (rt_scheduler_lock_nest_update k s) = kinv s"
  "kinv (errno_update l s) = kinv s"
  "kinv (object_list_update a s) = kinv s"
  "kinv (mdata_update b s) = kinv s"
  by (simp_all add: kinv_def sched_inv_def thread_timers_def)

lemma rt_schedule_kinv: "kinv s \<Longrightarrow> rt_schedule s = Some s' \<Longrightarrow> kinv s'"
  using rt_schedule_cases by fastforce

text \<open>
  A change of one thread, of the lists and of the priority group that keeps the scheduler
  invariant keeps \<open>kinv\<close> when the new state of the thread agrees with its timer.
\<close>

lemma kinv_thread:
  assumes "kinv s" "sched_ok ((threads s)(t := v)) L g"
    "stat v = THREAD_READY \<or> stat v = THREAD_SUSPEND \<Longrightarrow> thread_timer_ok s t"
    "stat v = THREAD_READY \<Longrightarrow> o_flag (objs s (ThreadTimer t)) AND TIMER_ACTIVATED = 0"
    "stat v \<noteq> THREAD_SUSPEND \<Longrightarrow> ThreadTimer t \<notin> set (active_timers s)"
  shows "kinv (s\<lparr>threads := (threads s)(t := v), tlists := L, rt_thread_ready_priority_group := g\<rparr>)"
  using assms by (auto simp: kinv_def sched_inv_def thread_timers_def)

lemma insert_thread_eq:
  "rt_schedule_insert_thread t s = s\<lparr>threads := (threads s)(t := (threads s t)\<lparr>stat := THREAD_READY\<rparr>),
     tlists := list_push_back (Ready (current_priority (threads s t))) t (tlists s),
     rt_thread_ready_priority_group := rt_thread_ready_priority_group s OR number_mask (threads s t)\<rparr>"
  by (simp add: rt_schedule_insert_thread_def upd_thread_def upd_tlists_def Let_def)

definition group_without :: "tid \<Rightarrow> 'a sched_state_scheme \<Rightarrow> rt_uint32_t" where
  "group_without t s = (if list_unlink t (tlists s) (Ready (current_priority (threads s t))) = []
     then rt_thread_ready_priority_group s AND NOT (number_mask (threads s t))
     else rt_thread_ready_priority_group s)"

lemma remove_thread_eq:
  "rt_schedule_remove_thread t s = s\<lparr>tlists := list_unlink t (tlists s),
     rt_thread_ready_priority_group := group_without t s\<rparr>"
  by (simp add: rt_schedule_remove_thread_def upd_tlists_def group_without_def Let_def)

lemma sched_ok_group_without:
  assumes "sched_inv s" "wf_thread (threads s t)" "x \<noteq> THREAD_READY"
  shows "sched_ok ((threads s)(t := (threads s t)\<lparr>stat := x\<rparr>)) (list_unlink t (tlists s)) (group_without t s)"
  using sched_ok_remove[OF assms(1)[unfolded sched_inv_def] assms(2,3) refl]
  by (simp add: group_without_def)

subsection \<open>Suspending and resuming\<close>

lemma rt_thread_suspend_ready:
  assumes "stat (threads s t) = THREAD_READY"
  shows "rt_thread_suspend t s = (RT_EOK, s\<lparr>threads := (threads s)(t := (threads s t)\<lparr>stat := THREAD_SUSPEND\<rparr>),
    tlists := list_unlink t (tlists s), rt_thread_ready_priority_group := group_without t s\<rparr>)"
  using assms by (simp add: rt_thread_suspend_def remove_thread_upd_stat)
    (simp add: remove_thread_eq upd_thread_def)

lemma suspend_kinv: "kinv s \<Longrightarrow> kinv (snd (rt_thread_suspend t s))"
proof (cases "stat (threads s t) = THREAD_READY")
  case True
  assume k: "kinv s"
  note D = kinvD[OF k]
  have "ThreadTimer t \<notin> set (active_timers s)" using D(8)[of t] True by auto
  then show ?thesis unfolding rt_thread_suspend_ready[OF True] snd_conv
    using D(5,6)[of t] True by (intro kinv_thread[OF k] sched_ok_group_without D(1)) auto
qed (simp add: rt_thread_suspend_def)

text \<open>The timer of a thread is stopped before the thread is made ready.\<close>

lemma rt_timer_stop_frame:
  fixes s :: "'a sched_state_scheme" and p :: ptr
  defines "s' \<equiv> snd (rt_timer_stop p s)"
  shows "threads s' = threads s" "tlists s' = tlists s" "rt_tick s' = rt_tick s" "timers s' = timers s"
    "rt_thread_ready_priority_group s' = rt_thread_ready_priority_group s"
    "q \<noteq> p \<Longrightarrow> objs s' q = objs s q"
    "o_flag (objs s' p) AND TIMER_PERIODIC = o_flag (objs s p) AND TIMER_PERIODIC"
    "rt_current_thread s' = rt_current_thread s" "rt_scheduler_lock_nest s' = rt_scheduler_lock_nest s"
  by (auto simp: s'_def rt_timer_stop_def rt_timer_remove_def upd_obj_def)

lemma stop_kinv:
  assumes "kinv s"
  shows "kinv (snd (rt_timer_stop p s))"
proof -
  note F = rt_timer_stop_frame[where p = p and s = s] and T = rt_timer_stop_inv[OF kinvD(2)[OF assms], of p]
  have "thread_timers (snd (rt_timer_stop p s))"
    unfolding thread_timers_def
  proof
    fix t
    have "timer_of_thread t (timers (snd (rt_timer_stop p s)) (ThreadTimer t)) (objs (snd (rt_timer_stop p s)) (ThreadTimer t))
        \<longleftrightarrow> thread_timer_ok s t"
      using F by (cases "ThreadTimer t = p") (auto simp: timer_of_thread_def)
    moreover have "o_flag (objs (snd (rt_timer_stop p s)) (ThreadTimer t)) AND TIMER_ACTIVATED = 0"
      if "o_flag (objs s (ThreadTimer t)) AND TIMER_ACTIVATED = 0"
      using that F(6)[of "ThreadTimer t"] rt_timer_stop_off[of p s] by (cases "ThreadTimer t = p") auto
    ultimately show "(stat (threads (snd (rt_timer_stop p s)) t) = THREAD_READY \<or>
          stat (threads (snd (rt_timer_stop p s)) t) = THREAD_SUSPEND \<longrightarrow>
          thread_timer_ok (snd (rt_timer_stop p s)) t) \<and>
         (stat (threads (snd (rt_timer_stop p s)) t) = THREAD_READY \<longrightarrow>
          o_flag (objs (snd (rt_timer_stop p s)) (ThreadTimer t)) AND TIMER_ACTIVATED = 0) \<and>
         (ThreadTimer t \<in> set (active_timers (snd (rt_timer_stop p s))) \<longrightarrow>
          stat (threads (snd (rt_timer_stop p s)) t) = THREAD_SUSPEND)"
      using kinvD(6,7,8)[OF assms, of t] by (auto simp: F T)
  qed
  then show ?thesis using assms T by (simp add: kinv_def sched_inv_def F)
qed

lemma resume_kinv: "kinv s \<Longrightarrow> kinv (snd (rt_thread_resume t s))"
proof (cases "stat (threads s t) = THREAD_SUSPEND")
  case True
  assume k: "kinv s"
  define s1 where "s1 = upd_tlists (list_unlink t) s"
  define s2 where "s2 = snd (rt_timer_stop (ThreadTimer t) s1)"
  have "sched_ok (threads s) (list_unlink t (tlists s)) (rt_thread_ready_priority_group s)"
    using sched_ok_unlink[OF kinvD(4)[OF k]] True by simp
  then have "kinv s1" using k by (simp add: kinv_def sched_inv_def thread_timers_def s1_def upd_tlists_def)
  then have k2: "kinv s2" unfolding s2_def by (rule stop_kinv)
  have th: "threads s2 = threads s" "unlinked t (tlists s2)"
    by (simp_all add: s2_def s1_def rt_timer_stop_frame upd_tlists_def)
  have off: "o_flag (objs s2 (ThreadTimer t)) AND TIMER_ACTIVATED = 0"
    unfolding s2_def by (rule rt_timer_stop_off)
  then have "ThreadTimer t \<notin> set (active_timers s2)" using kinvD(2)[OF k2] by (auto simp: timer_inv_def)
  then have "kinv (rt_schedule_insert_thread t s2)"
    unfolding insert_thread_eq using kinvD(5,6)[OF k2, of t] True th off
    by (intro kinv_thread[OF k2] sched_ok_insert[OF kinvD(4)[OF k2] _ _ refl]) auto
  then show ?thesis using True by (simp add: rt_thread_resume_def s2_def s1_def Let_def)
qed (simp add: rt_thread_resume_def)

text \<open>What a resumed thread looks like: ready, at the end of the queue of its priority, its timer off.\<close>

lemma rt_thread_resume_effect:
  fixes s :: "'a sched_state_scheme"
  assumes "stat (threads s t) = THREAD_SUSPEND"
  defines "s' \<equiv> snd (rt_thread_resume t s)"
  shows "fst (rt_thread_resume t s) = RT_EOK"
    "threads s' = (threads s)(t := (threads s t)\<lparr>stat := THREAD_READY\<rparr>)"
    "tlists s' = list_push_back (Ready (current_priority (threads s t))) t (list_unlink t (tlists s))"
    "o_flag (objs s' (ThreadTimer t)) AND TIMER_ACTIVATED = 0"
    "rt_current_thread s' = rt_current_thread s" "rt_scheduler_lock_nest s' = rt_scheduler_lock_nest s"
    "rt_tick s' = rt_tick s" "timers s' = timers s" "object_list s' = object_list s"
    "q \<noteq> ThreadTimer t \<Longrightarrow> objs s' q = objs s q" "rt_interrupt_nest s' = rt_interrupt_nest s"
  using assms(1) rt_timer_stop_off[of "ThreadTimer t" "upd_tlists (list_unlink t) s"]
  unfolding s'_def
  by (simp_all add: rt_thread_resume_def insert_thread_eq Let_def rt_timer_stop_frame upd_tlists_def)
     (auto simp: rt_timer_stop_def rt_timer_remove_def upd_obj_def)

subsection \<open>The timer of a suspended thread\<close>

lemma set_time_kinv:
  "kinv s \<Longrightarrow> kinv (snd (rt_timer_control p 0 tick s))"
proof -
  assume k: "kinv s"
  have "timer_inv (upd_timer p (\<lambda>t. t\<lparr>timer_init_tick := tick\<rparr>) s)"
    by (rule timer_inv_cong[OF kinvD(2)[OF k]]) (auto simp: upd_timer_def)
  then show ?thesis using k
    by (auto simp: rt_timer_control_def kinv_def sched_inv_def thread_timers_def timer_of_thread_def upd_timer_def)
qed

lemma start_thread_timer_kinv:
  assumes k: "kinv s" and t: "stat (threads s t) = THREAD_SUSPEND"
    and off: "o_flag (objs s (ThreadTimer t)) AND TIMER_ACTIVATED = 0"
    and init: "timer_init_tick (timers s (ThreadTimer t)) < RT_TICK_HALF"
  shows "\<exists>s'. rt_timer_start (ThreadTimer t) s = Some (RT_EOK, s') \<and> kinv s'
    \<and> threads s' = threads s \<and> tlists s' = tlists s \<and> rt_current_thread s' = rt_current_thread s
    \<and> rt_scheduler_lock_nest s' = rt_scheduler_lock_nest s \<and> rt_tick s' = rt_tick s
    \<and> rt_thread_ready_priority_group s' = rt_thread_ready_priority_group s
    \<and> rt_interrupt_nest s' = rt_interrupt_nest s
    \<and> set (active_timers s') = insert (ThreadTimer t) (set (active_timers s))
    \<and> (\<forall>p. p \<noteq> ThreadTimer t \<longrightarrow> timers s' p = timers s p)
    \<and> timeout_tick (timers s' (ThreadTimer t)) = rt_tick s + timer_init_tick (timers s (ThreadTimer t))"
proof -
  obtain rows s' where s': "rt_timer_start (ThreadTimer t) s = Some (RT_EOK, s')" "timer_inv s'"
    "s' = s\<lparr>objs := (objs s)(ThreadTimer t := (objs s (ThreadTimer t))\<lparr>o_flag := o_flag (objs s (ThreadTimer t)) OR TIMER_ACTIVATED\<rparr>),
        timers := (timers s)(ThreadTimer t := (timers s (ThreadTimer t))\<lparr>timeout_tick := rt_tick s + timer_init_tick (timers s (ThreadTimer t))\<rparr>),
        rt_timer_list := rows, random_nr := random_nr s + 1\<rparr>"
    and A: "active_timers s' = timer_insert (\<lambda>x. unat (timer_init_tick (timers s (ThreadTimer t))) + 1
        < tkey (rt_tick s - 1) s x) (ThreadTimer t) (active_timers s)"
    using rt_timer_start_ok[OF kinvD(2)[OF k] off init] by blast
  have "(f OR 1) AND 2 = f AND (2 :: rt_uint8_t)" for f
    by (simp add: bit.conj_disj_distrib2)
  then have "thread_timers s'"
    using kinvD(3)[OF k] t by (auto simp: thread_timers_def A) (auto simp: s'(3) timer_of_thread_def)
  moreover have "sched_inv s'" using kinvD(1)[OF k] by (simp add: sched_inv_def s'(3))
  ultimately have "kinv s'" using s'(2) by (simp add: kinv_def)
  moreover have "set (active_timers s') = insert (ThreadTimer t) (set (active_timers s))" unfolding A by simp
  ultimately show ?thesis using s'(1,3) by auto
qed

lemma rt_thread_sleep_ok:
  assumes k: "kinv s" and c: "rt_current_thread s = Some t" and r: "stat (threads s t) = THREAD_READY"
    and tick: "tick < RT_TICK_HALF"
  shows "\<exists>s1. kinv s1 \<and> rt_thread_sleep tick s
      = do { s \<leftarrow> rt_schedule s1;
             Some (if rt_current_thread s = Some t
                   then (let (r, s) = rt_thread_sleep_end t s in (Ret r, s)) else (Wait t, s)) }
    \<and> threads s1 = (threads s)(t := (threads s t)\<lparr>stat := THREAD_SUSPEND\<rparr>)
    \<and> tlists s1 = list_unlink t (tlists s) \<and> rt_current_thread s1 = rt_current_thread s
    \<and> rt_scheduler_lock_nest s1 = rt_scheduler_lock_nest s
    \<and> set (active_timers s1) = insert (ThreadTimer t) (set (active_timers s))
    \<and> (\<forall>p. p \<noteq> ThreadTimer t \<longrightarrow> timers s1 p = timers s p) \<and> rt_tick s1 = rt_tick s
    \<and> timeout_tick (timers s1 (ThreadTimer t)) = rt_tick s + tick"
proof -
  define s0 where "s0 = snd (rt_timer_control (ThreadTimer t) 0 tick (snd (rt_thread_suspend t s)))"
  have s0: "s0 = s\<lparr>threads := (threads s)(t := (threads s t)\<lparr>stat := THREAD_SUSPEND\<rparr>),
    tlists := list_unlink t (tlists s), rt_thread_ready_priority_group := group_without t s,
    timers := (timers s)(ThreadTimer t := (timers s (ThreadTimer t))\<lparr>timer_init_tick := tick\<rparr>)\<rparr>"
    using r by (simp add: s0_def rt_thread_suspend_ready rt_timer_control_def upd_timer_def)
  have k0: "kinv s0" unfolding s0_def using k by (intro set_time_kinv suspend_kinv)
  have off: "o_flag (objs s0 (ThreadTimer t)) AND TIMER_ACTIVATED = 0"
    using kinvD(7)[OF k r] by (simp add: s0)
  obtain s1 where "rt_timer_start (ThreadTimer t) s0 = Some (RT_EOK, s1)" "kinv s1" and
    s1: "threads s1 = threads s0" "tlists s1 = tlists s0" "rt_current_thread s1 = rt_current_thread s0"
    "rt_scheduler_lock_nest s1 = rt_scheduler_lock_nest s0"
    "set (active_timers s1) = insert (ThreadTimer t) (set (active_timers s0))"
    "\<forall>p. p \<noteq> ThreadTimer t \<longrightarrow> timers s1 p = timers s0 p" "rt_tick s1 = rt_tick s0"
    "timeout_tick (timers s1 (ThreadTimer t)) = rt_tick s0 + timer_init_tick (timers s0 (ThreadTimer t))"
    using start_thread_timer_kinv[OF k0 _ off] tick by (auto simp: s0)
  then show ?thesis
    by (intro exI[of _ s1]) (simp add: rt_thread_sleep_def c flip: s0_def, simp add: s0 c)
qed

subsection \<open>Yielding and changing priority\<close>

lemma yield_requeue_kinv:
  assumes "kinv s" "stat (threads s t) = THREAD_READY"
  shows "kinv (upd_tlists (\<lambda>L. list_push_back (Ready (current_priority (threads s t))) t (list_unlink t L)) s)"
  using assms sched_ok_requeue[OF kinvD(4)[OF assms(1)] assms(2)]
  by (simp add: kinv_def sched_inv_def thread_timers_def upd_tlists_def)

lemma yield_kinv:
  assumes "kinv s" "rt_thread_yield s = Some (r, s')"
  shows "kinv s'"
  using assms yield_requeue_kinv[OF assms(1)]
  by (auto simp: rt_thread_yield_def Let_def split: bind_splits if_splits intro: rt_schedule_kinv)

lemma control_priority_kinv:
  assumes k: "kinv s" and p: "p < RT_THREAD_PRIORITY_MAX" and "rt_thread_control t 2 p s = Some (r, s')"
  shows "kinv s'"
proof (cases "stat (threads s t) = THREAD_READY")
  case True
  note D = kinvD[OF k]
  let ?u = "(threads s t)\<lparr>stat := THREAD_SUSPEND\<rparr>"
  let ?w = "?u\<lparr>current_priority := p, number_mask := push_bit p 1\<rparr>"
  let ?v = "?w\<lparr>stat := THREAD_READY\<rparr>" and ?L = "list_unlink t (tlists s)"
  have s': "s' = s\<lparr>threads := (threads s)(t := ?v), tlists := list_push_back (Ready p) t ?L,
      rt_thread_ready_priority_group := group_without t s OR push_bit p 1\<rparr>"
    using assms(3) True p
    by (simp add: rt_thread_control_def insert_thread_eq remove_thread_eq upd_thread_def Let_def)
  have "sched_ok ((threads s)(t := ?u)) ?L (group_without t s)"
    using D(5)[of t] True by (intro sched_ok_group_without D(1)) auto
  from sched_ok_not_ready[OF this, of t ?w]
  have "sched_ok ((threads s)(t := ?w)) ?L (group_without t s)"
    using p by (simp add: list_unlink_def wf_thread_def)
  from sched_ok_insert[OF this, of t]
  have "sched_ok ((threads s)(t := ?v)) (list_push_back (Ready p) t ?L) (group_without t s OR push_bit p 1)"
    using p by (simp add: wf_thread_def)
  then show ?thesis unfolding s' using D(6,7,8)[of t] True by (intro kinv_thread[OF k]) auto
next
  case False
  note D = kinvD[OF k]
  let ?v = "(threads s t)\<lparr>current_priority := p, number_mask := push_bit p 1\<rparr>"
  have s': "s' = s\<lparr>threads := (threads s)(t := ?v)\<rparr>"
    using assms(3) False by (simp add: rt_thread_control_def upd_thread_def)
  have "sched_ok ((threads s)(t := ?v)) (tlists s) (rt_thread_ready_priority_group s)"
  proof (rule sched_ok_not_ready[OF D(4)])
    show "stat ?v = list_stat l" if "t \<in> set (tlists s l)" for l
      using sched_ok_D(2)[OF D(4) that] by simp
  qed (use False p in \<open>simp_all add: wf_thread_def\<close>)
  then have "kinv (s\<lparr>threads := (threads s)(t := ?v), tlists := tlists s,
      rt_thread_ready_priority_group := rt_thread_ready_priority_group s\<rparr>)"
    using False D(6,8)[of t] by (intro kinv_thread[OF k]) auto
  then show ?thesis by (simp add: s')
qed

subsection \<open>Starting and closing threads\<close>

lemma remove_timer_frame [simp]:
  "threads (rt_timer_remove p s) = threads s" "tlists (rt_timer_remove p s) = tlists s"
  "rt_thread_ready_priority_group (rt_timer_remove p s) = rt_thread_ready_priority_group s"
  "timers (rt_timer_remove p s) = timers s" "objs (rt_timer_remove p s) = objs s"
  "rt_tick (rt_timer_remove p s) = rt_tick s" "rt_current_thread (rt_timer_remove p s) = rt_current_thread s"
  "rt_scheduler_lock_nest (rt_timer_remove p s) = rt_scheduler_lock_nest s"
  by (simp_all add: rt_timer_remove_def)

lemma remove_timer_kinv:
  assumes "kinv s"
  shows "kinv (rt_timer_remove p s)"
proof -
  have "thread_timers (rt_timer_remove p s)"
    using kinvD(3)[OF assms] by (simp add: thread_timers_def active_remove[OF kinvD(2)[OF assms]])
  then show ?thesis using assms timer_inv_remove[OF kinvD(2)[OF assms], of p]
    by (simp add: kinv_def sched_inv_def)
qed

lemma detach_timer_kinv:
  assumes "kinv s"
  shows "kinv (rt_timer_detach p s)" "p \<notin> set (active_timers (rt_timer_detach p s))"
  using remove_timer_kinv[OF assms, of p] active_remove[OF kinvD(2)[OF assms], of p]
  by (simp_all add: rt_timer_detach_def rt_object_detach_def)

lemma detach_timer_frame [simp]:
  "threads (rt_timer_detach p s) = threads s" "tlists (rt_timer_detach p s) = tlists s"
  "rt_thread_ready_priority_group (rt_timer_detach p s) = rt_thread_ready_priority_group s"
  "rt_current_thread (rt_timer_detach p s) = rt_current_thread s"
  "rt_scheduler_lock_nest (rt_timer_detach p s) = rt_scheduler_lock_nest s"
  by (simp_all add: rt_timer_detach_def rt_object_detach_def rt_timer_remove_def)

text \<open>Closing a thread: off its list, its timer detached, and possibly on the defunct list.\<close>

definition close_thread :: "bool \<Rightarrow> tid \<Rightarrow> 'a sched_state_scheme \<Rightarrow> 'a sched_state_scheme" where
  "close_thread defunct t s = (let s1 = rt_timer_detach (ThreadTimer t) s in
     s1\<lparr>threads := (threads s)(t := (threads s t)\<lparr>stat := THREAD_CLOSE\<rparr>),
       tlists := (if defunct then list_push_front Defunct t else id) (list_unlink t (tlists s)),
       rt_thread_ready_priority_group := group_without t s\<rparr>)"

lemma close_thread_kinv:
  assumes k: "kinv s" and wf: "wf_thread (threads s t)"
  shows "kinv (close_thread d t s)"
proof -
  define s1 where "s1 = rt_timer_detach (ThreadTimer t) s"
  have k1: "kinv s1" and na: "ThreadTimer t \<notin> set (active_timers s1)"
    unfolding s1_def by (rule detach_timer_kinv[OF k])+
  let ?th = "(threads s)(t := (threads s t)\<lparr>stat := THREAD_CLOSE\<rparr>)"
  let ?L = "(if d then list_push_front Defunct t else id) (list_unlink t (tlists s))"
  have ok: "sched_ok ?th (list_unlink t (tlists s)) (group_without t s)"
    using wf by (intro sched_ok_group_without kinvD(1)[OF k]) auto
  have "store_ok (list_push_front Defunct t (list_unlink t (tlists s)))"
    using sched_ok_D(1)[OF ok] by (rule store_ok_push_front) simp
  then have "sched_ok ?th (list_push_front Defunct t (list_unlink t (tlists s))) (group_without t s)"
    by (intro sched_ok_enqueue[OF ok, of t Defunct]) (auto simp: list_push_front_def)
  then have "sched_ok ?th ?L (group_without t s)" using ok by auto
  moreover have "threads s1 = threads s" by (simp add: s1_def)
  ultimately have "kinv (s1\<lparr>threads := ?th, tlists := ?L, rt_thread_ready_priority_group := group_without t s\<rparr>)"
    using kinv_thread[OF k1, of t "(threads s t)\<lparr>stat := THREAD_CLOSE\<rparr>" ?L "group_without t s"] na by simp
  then show ?thesis by (simp only: close_thread_def Let_def s1_def)
qed

lemma rt_thread_delete_eq: "rt_thread_delete t s = (RT_EOK, close_thread True t s)"
  by (simp add: rt_thread_delete_def close_thread_def remove_thread_eq rt_timer_detach_def rt_timer_remove_def
      rt_object_detach_def upd_thread_def upd_tlists_def Let_def)

lemma rt_thread_detach_eq:
  "rt_thread_detach t s = (RT_EOK, rt_object_detach (At t) (close_thread (cleanup (threads s t) \<noteq> None) t s))"
  by (simp add: rt_thread_detach_def close_thread_def remove_thread_eq rt_timer_detach_def rt_timer_remove_def
      rt_object_detach_def upd_thread_def upd_tlists_def Let_def)

lemma close_thread_steps:
  "rt_timer_detach (ThreadTimer t) (upd_thread t (\<lambda>th. th\<lparr>stat := THREAD_CLOSE\<rparr>)
     (rt_schedule_remove_thread t s)) = close_thread False t s"
  "upd_tlists (list_push_front Defunct t) (close_thread False t s) = close_thread True t s"
  "objs (close_thread d t s) = objs s"
  "cleanup (threads (upd_thread t (\<lambda>th. th\<lparr>stat := x\<rparr>) (rt_schedule_remove_thread t s)) t) = cleanup (threads s t)"
  by (simp_all add: close_thread_def remove_thread_eq rt_timer_detach_def rt_timer_remove_def
      rt_object_detach_def upd_thread_def upd_tlists_def Let_def)

lemma rt_thread_exit_eq:
  "rt_thread_exit s = do { t \<leftarrow> rt_current_thread s;
     rt_schedule (if rt_object_is_systemobject (At t) s \<and> cleanup (threads s t) = None
                  then rt_object_detach (At t) (close_thread False t s)
                  else close_thread True t s) }"
  by (simp add: rt_thread_exit_def close_thread_steps rt_object_is_systemobject_def Let_def cong: if_cong)

lemma object_detach_kinv [simp]: "kinv (rt_object_detach p s) = kinv s"
  by (simp add: rt_object_detach_def)

lemma exit_kinv:
  assumes "kinv s" "rt_thread_exit s = Some s'" "\<forall>t. rt_current_thread s = Some t \<longrightarrow> wf_thread (threads s t)"
  shows "kinv s'"
proof (cases "rt_current_thread s")
  case (Some t)
  then have "kinv (close_thread d t s)" for d using assms(1,3) by (simp add: close_thread_kinv)
  then have "kinv (close_thread True t s)" "kinv (rt_object_detach (At t) (close_thread False t s))" by simp_all
  from this[THEN rt_schedule_kinv] show ?thesis using assms(2) Some unfolding rt_thread_exit_eq
    by (auto split: if_splits)
qed (use assms(2) in \<open>simp add: rt_thread_exit_eq\<close>)

lemma startup_kinv:
  assumes k: "kinv s" and tm: "thread_timer_ok s t" and p: "init_priority (threads s t) < RT_THREAD_PRIORITY_MAX"
    and st: "rt_thread_startup t s = Some (r, s')"
  shows "kinv s'"
proof -
  note D = kinvD[OF k]
  have i: "stat (threads s t) = THREAD_INIT" using st by (auto simp: rt_thread_startup_def split: bind_splits)
  let ?p = "init_priority (threads s t)"
  let ?v = "(threads s t)\<lparr>current_priority := ?p, number_mask := push_bit ?p 1, stat := THREAD_SUSPEND\<rparr>"
  define s1 where "s1 = s\<lparr>threads := (threads s)(t := ?v)\<rparr>"
  have un: "unlinked t (tlists s)" using sched_ok_unlinked[OF D(4)] i by simp
  have "sched_ok ((threads s)(t := ?v)) (tlists s) (rt_thread_ready_priority_group s)"
    using i p un by (intro sched_ok_not_ready[OF D(4)]) (auto simp: wf_thread_def unlinked_def)
  then have "kinv s1"
    using kinv_thread[OF k, of t ?v "tlists s" "rt_thread_ready_priority_group s"] tm by (simp add: s1_def)
  then have "kinv (snd (rt_thread_resume t s1))" by (rule resume_kinv)
  moreover have "(if rt_thread_self (snd (rt_thread_resume t s1)) \<noteq> None
      then rt_schedule (snd (rt_thread_resume t s1)) else Some (snd (rt_thread_resume t s1))) = Some s'"
    using st i by (simp add: rt_thread_startup_def upd_thread_def s1_def Let_def split: bind_splits if_splits)
  ultimately show ?thesis by (auto split: if_splits intro: rt_schedule_kinv)
qed

subsection \<open>The tick interrupt\<close>

text \<open>
  When only threads' own timers are active, the timeout functions obey the laws the check
  loop relies on: the thread of an expired timer is suspended, so it becomes ready, its timer
  goes off, and no other timer is touched. The last hypothesis is that the stack check of the
  scheduler passes for every thread.
\<close>

definition only_thread_timers :: "'a sched_state_scheme \<Rightarrow> bool" where
  "only_thread_timers s \<longleftrightarrow> (\<forall>p\<in>set (active_timers s). \<exists>t. p = ThreadTimer t)"

definition tick_inv :: "'a sched_state_scheme \<Rightarrow> bool" where
  "tick_inv s \<longleftrightarrow> kinv s \<and> only_thread_timers s \<and> rt_current_thread s \<noteq> None
     \<and> (\<forall>t. stack_ok (threads s t))"

lemma timeout_state_kinv:
  assumes k: "kinv s" and t: "stat (threads s t) = THREAD_SUSPEND" and na: "ThreadTimer t \<notin> set (active_timers s)"
    and off: "o_flag (objs s (ThreadTimer t)) AND TIMER_ACTIVATED = 0"
  shows "kinv (rt_schedule_insert_thread t (upd_tlists (list_unlink t)
      (upd_thread t (\<lambda>th. th\<lparr>thread_error := e\<rparr>) s)))"
proof -
  note D = kinvD[OF k]
  let ?u = "(threads s t)\<lparr>thread_error := e\<rparr>"
  have wf: "wf_thread ?u" using D(5)[of t] t by (simp add: wf_thread_def)
  have "sched_ok ((threads s)(t := ?u)) (tlists s) (rt_thread_ready_priority_group s)"
    by (rule sched_ok_same[OF D(4)]) auto
  then have "sched_ok ((threads s)(t := ?u)) (list_unlink t (tlists s)) (rt_thread_ready_priority_group s)"
    using t by (intro sched_ok_unlink) auto
  from sched_ok_insert[OF this, of t] wf
  have "sched_ok ((threads s)(t := ?u\<lparr>stat := THREAD_READY\<rparr>))
      (list_push_back (Ready (current_priority (threads s t))) t (list_unlink t (tlists s)))
      (rt_thread_ready_priority_group s OR number_mask (threads s t))" by simp
  then show ?thesis
    using kinv_thread[OF k, of t "?u\<lparr>stat := THREAD_READY\<rparr>"] D(6)[of t] t na off
    by (simp add: insert_thread_eq upd_thread_def upd_tlists_def)
qed

lemma flag_off_kinv:
  assumes "kinv s" "p \<notin> set (active_timers s)"
  shows "kinv (upd_obj p (\<lambda>ob. ob\<lparr>o_flag := o_flag ob AND NOT TIMER_ACTIVATED\<rparr>) s)"
proof -
  have "timer_inv (upd_obj p (\<lambda>ob. ob\<lparr>o_flag := o_flag ob AND NOT TIMER_ACTIVATED\<rparr>) s)"
    using timer_inv_flag[OF kinvD(2)[OF assms(1)] assms(2)] .
  then show ?thesis using assms(1)
    by (auto simp: kinv_def sched_inv_def thread_timers_def timer_of_thread_def upd_obj_def)
qed

abbreviation (input) timer_off :: "ptr \<Rightarrow> 'a sched_state_scheme \<Rightarrow> 'a sched_state_scheme" where
  "timer_off p s \<equiv> upd_obj p (\<lambda>ob. ob\<lparr>o_flag := o_flag ob AND NOT TIMER_ACTIVATED\<rparr>) s"

lemma thread_timeout_returns:
  assumes inv: "tick_inv s" and a: "ThreadTimer t \<in> set (active_timers s)"
  shows "\<exists>B. rt_thread_timeout t (rt_timer_remove (ThreadTimer t) s) = Some B
    \<and> kinv (timer_off (ThreadTimer t) B) \<and> rt_current_thread B \<noteq> None
    \<and> active_timers B = removeAll (ThreadTimer t) (active_timers s) \<and> timers B = timers s
    \<and> rt_tick B = rt_tick s \<and> objs B = objs s
    \<and> threads B = (threads s)(t := (threads s t)\<lparr>thread_error := - RT_ETIMEOUT, stat := THREAD_READY\<rparr>)"
proof -
  note I = inv[unfolded tick_inv_def]
  have k: "kinv s" using I by simp
  have t: "stat (threads s t) = THREAD_SUSPEND" using kinvD(8)[OF k a] .
  let ?p = "ThreadTimer t"
  define s1 where "s1 = rt_timer_remove ?p s"
  define ins where "ins = (\<lambda>u :: 'a sched_state_scheme. rt_schedule_insert_thread t (upd_tlists (list_unlink t)
      (upd_thread t (\<lambda>th. th\<lparr>thread_error := - RT_ETIMEOUT\<rparr>) u)))"
  have A1: "active_timers s1 = removeAll ?p (active_timers s)"
    using active_remove[OF kinvD(2)[OF k]] by (simp add: s1_def)
  have "kinv (timer_off ?p s1)"
    using flag_off_kinv[OF remove_timer_kinv[OF k], of ?p ?p] A1 by (simp add: s1_def)
  then have k2: "kinv (ins (timer_off ?p s1))"
    unfolding ins_def using t A1 by (intro timeout_state_kinv) (auto simp: upd_obj_def s1_def)
  have comm: "ins (timer_off ?p s1) = timer_off ?p (ins s1)"
    by (simp add: ins_def insert_thread_eq upd_thread_def upd_tlists_def upd_obj_def)
  have "sched_inv (ins s1)" using kinvD(1)[OF k2] unfolding comm by (simp add: sched_inv_def upd_obj_def)
  moreover have r: "ready (ins s1) t" "rt_current_thread (ins s1) \<noteq> None" "\<forall>u. stack_ok (threads (ins s1) u)"
    using I by (auto simp: ins_def insert_thread_eq upd_thread_def upd_tlists_def ready_def s1_def stack_ok_def)
  ultimately obtain B where B: "rt_schedule (ins s1) = Some B"
    using rt_schedule_returns[of "ins s1" t] by blast
  obtain q c where Bq: "B = (ins s1)\<lparr>rt_current_priority := q, rt_current_thread := c\<rparr>"
    using rt_schedule_frame[OF B] by blast
  have "timer_off ?p B = (ins (timer_off ?p s1))\<lparr>rt_current_priority := q, rt_current_thread := c\<rparr>"
    unfolding comm Bq by (simp add: upd_obj_def)
  then have "kinv (timer_off ?p B)" using k2 by simp
  moreover have "rt_current_thread B \<noteq> None" using rt_schedule_cases[OF B] r(2) by auto
  moreover have "rt_thread_timeout t s1 = Some B"
    using B t by (simp add: rt_thread_timeout_def ins_def s1_def upd_thread_def Let_def)
  moreover have "active_timers B = removeAll ?p (active_timers s)"
    by (simp add: Bq ins_def insert_thread_eq upd_thread_def upd_tlists_def A1)
  ultimately show ?thesis
    by (intro exI[of _ B])
       (simp add: Bq ins_def insert_thread_eq upd_thread_def upd_tlists_def s1_def)
qed

lemma thread_timer_fire:
  assumes inv: "tick_inv s" and a: "active_timers s = p # ts"
  shows "\<exists>t s'. p = ThreadTimer t \<and> timer_fire (call_timeout user) p s = Some s' \<and> tick_inv s'
    \<and> rt_tick s' = rt_tick s \<and> timers s' = timers s \<and> active_timers s' = removeAll p (active_timers s)
    \<and> threads s' = (threads s)(t := (threads s t)\<lparr>thread_error := - RT_ETIMEOUT, stat := THREAD_READY\<rparr>)"
proof -
  note I = inv[unfolded tick_inv_def]
  obtain t where p: "p = ThreadTimer t" using I a by (auto simp: only_thread_timers_def)
  have t: "ThreadTimer t \<in> set (active_timers s)" using a p by simp
  then have tm: "thread_timer_ok s t" using I kinvD(6,8)[of s t] by blast
  obtain B where B: "rt_thread_timeout t (rt_timer_remove p s) = Some B" "kinv (timer_off p B)"
    "rt_current_thread B \<noteq> None" "active_timers B = removeAll p (active_timers s)" "timers B = timers s"
    "rt_tick B = rt_tick s" "objs B = objs s"
    "threads B = (threads s)(t := (threads s t)\<lparr>thread_error := - RT_ETIMEOUT, stat := THREAD_READY\<rparr>)"
    using thread_timeout_returns[OF inv t] p by blast
  let ?s' = "timer_off p B"
  have fire: "timer_fire (call_timeout user) p s = Some ?s'"
    using tm B(1,7) p by (simp add: timer_fire_def call_timeout_def timer_of_thread_def Let_def)
  have f: "active_timers ?s' = removeAll p (active_timers s)" "timers ?s' = timers s" "rt_tick ?s' = rt_tick s"
    "rt_current_thread ?s' = rt_current_thread B" "threads ?s' = threads B"
    using B(4,5,6) by (simp_all add: upd_obj_def)
  have "stack_ok (threads ?s' u) = stack_ok (threads s u)" for u
    unfolding f(5) B(8) by (simp add: stack_ok_def)
  then have "tick_inv ?s'" using I B(2,3) f by (auto simp: tick_inv_def only_thread_timers_def)
  with p fire f(3) f(2) f(1) f(5)[unfolded B(8)] show ?thesis
    by (intro exI[of _ t] exI[of _ ?s'] conjI)
qed

lemma thread_timeout_fires:
  assumes inv: "tick_inv s" and a: "active_timers s = p # ts" and ex: "expired s p"
  shows "\<exists>s'. timer_fire (call_timeout user) p s = Some s' \<and> tick_inv s' \<and> rt_tick s' = rt_tick s
    \<and> length (expired_timers s') < length (expired_timers s)"
proof -
  obtain s' where s': "timer_fire (call_timeout user) p s = Some s'" "tick_inv s'"
    "rt_tick s' = rt_tick s" "timers s' = timers s" "active_timers s' = removeAll p (active_timers s)"
    using thread_timer_fire[OF inv a] by blast
  have e: "expired s' = expired s" using s' by (intro ext) (simp only: expired_def)
  have "expired_timers s' = removeAll p (expired_timers s)"
    unfolding expired_timers_def s'(5) e by (simp add: removeAll_filter_not_eq conj_commute)
  then have "length (expired_timers s') < length (expired_timers s)"
    using a ex length_removeAll_less[of p "expired_timers s"] by (simp add: expired_timers_def)
  then show ?thesis using s' by blast
qed

interpretation thread_timer_check: timer_client "call_timeout user" tick_inv
  using thread_timeout_fires by unfold_locales (simp add: tick_inv_def kinv_def, blast)

lemma yield_returns:
  assumes "kinv s" "rt_current_thread s \<noteq> None" "\<forall>t. stack_ok (threads s t)"
  shows "\<exists>s'. rt_thread_yield s = Some (RT_EOK, s') \<and> kinv s' \<and> rt_current_thread s' \<noteq> None
    \<and> (\<exists>L p c. s' = s\<lparr>tlists := L, rt_current_priority := p, rt_current_thread := c\<rparr>)"
proof -
  obtain t where t: "rt_current_thread s = Some t" using assms(2) by blast
  let ?q = "Ready (current_priority (threads s t))"
  define s1 where "s1 = upd_tlists (\<lambda>L. list_push_back ?q t (list_unlink t L)) s"
  have refl: "\<exists>L p c. s = s\<lparr>tlists := L, rt_current_priority := p, rt_current_thread := c\<rparr>"
    by (rule exI[of _ "tlists s"], rule exI[of _ "rt_current_priority s"], rule exI[of _ "rt_current_thread s"]) simp
  show ?thesis
  proof (cases "stat (threads s t) = THREAD_READY \<and> length (tlists s ?q) \<ge> 2")
    case True
    have k1: "kinv s1" unfolding s1_def using True by (intro yield_requeue_kinv assms(1)) simp
    moreover have "ready s1 t" "rt_current_thread s1 \<noteq> None" "\<forall>t. stack_ok (threads s1 t)"
      using True assms t by (simp_all add: s1_def upd_tlists_def ready_def)
    ultimately obtain s' where s': "rt_schedule s1 = Some s'" using rt_schedule_returns kinvD(1) by blast
    have "rt_current_thread s' \<noteq> None" using rt_schedule_cases[OF s'] t by (auto simp: s1_def upd_tlists_def)
    moreover obtain p c where "s' = s1\<lparr>rt_current_priority := p, rt_current_thread := c\<rparr>"
      using rt_schedule_frame[OF s'] by blast
    then have "s' = s\<lparr>tlists := tlists s1, rt_current_priority := p, rt_current_thread := c\<rparr>"
      by (simp add: s1_def upd_tlists_def)
    ultimately show ?thesis using s' True t rt_schedule_kinv[OF k1 s']
      by (auto simp: rt_thread_yield_def Let_def s1_def)
  next
    case False
    then have "rt_thread_yield s = Some (RT_EOK, s)" using t by (auto simp: rt_thread_yield_def Let_def)
    then show ?thesis using assms refl by blast
  qed
qed

lemma tick_inv_frame:
  assumes "tick_inv s" "kinv s'" "rt_current_thread s' \<noteq> None" "active_timers s' = active_timers s"
    "\<And>t. stack_ok (threads s' t) = stack_ok (threads s t)"
  shows "tick_inv s'"
  using assms by (simp add: tick_inv_def only_thread_timers_def)

text \<open>What the interrupt has done before it checks the timers: one tick more, and the time slice.\<close>

lemma tick_slice:
  assumes inv: "tick_inv s" and pend: "timers_pending s"
  shows "\<exists>s1. tick_inv s1 \<and> rt_tick_increase user s = rt_timer_check (call_timeout user) s1
    \<and> rt_tick s1 = rt_tick s + 1 \<and> timers s1 = timers s \<and> active_timers s1 = active_timers s
    \<and> (\<forall>u. stat (threads s1 u) = stat (threads s u)) \<and> objs s1 = objs s"
proof -
  note I = inv[unfolded tick_inv_def]
  obtain t where t: "rt_current_thread s = Some t" using I by blast
  define s0 where "s0 = upd_thread t (\<lambda>th. th\<lparr>remaining_tick := remaining_tick th - 1\<rparr>) (s\<lparr>rt_tick := rt_tick s + 1\<rparr>)"
  have kupd: "kinv (upd_thread t f u)" if "kinv u" "\<And>th. stat (f th) = stat th"
    "\<And>th. current_priority (f th) = current_priority th" "\<And>th. number_mask (f th) = number_mask th"
    for f and u :: "'a sched_state_scheme"
  proof -
    have "sched_ok ((threads u)(t := f (threads u t))) (tlists u) (rt_thread_ready_priority_group u)"
      using that by (intro sched_ok_same[OF kinvD(4)[OF that(1)]]) auto
    then show ?thesis using that(1,2) by (auto simp: kinv_def sched_inv_def thread_timers_def upd_thread_def)
  qed
  have "kinv (s\<lparr>rt_tick := rt_tick s + 1\<rparr>)"
    using I timer_inv_tick[OF _ pend] by (auto simp: kinv_def sched_inv_def thread_timers_def)
  then have k0: "kinv s0" unfolding s0_def by (intro kupd) simp_all
  define y where "y = upd_thread t (\<lambda>th. th\<lparr>remaining_tick := thread_init_tick th\<rparr>) s0"
  have ky: "kinv y" unfolding y_def by (intro kupd k0) simp_all
  have so: "\<forall>u. stack_ok (threads s0 u)" "\<forall>u. stack_ok (threads y u)"
    using I by (auto simp: s0_def y_def upd_thread_def stack_ok_def)
  have c: "rt_current_thread s0 = Some t" "rt_current_thread y = Some t"
    using t by (simp_all add: y_def s0_def upd_thread_def)
  obtain z L p d where z: "rt_thread_yield y = Some (RT_EOK, z)" "kinv z" "rt_current_thread z \<noteq> None"
    "z = y\<lparr>tlists := L, rt_current_priority := p, rt_current_thread := d\<rparr>"
    using yield_returns[OF ky _ so(2)] c by auto
  let ?s1 = "if remaining_tick (threads s0 t) = 0 then z else s0"
  have "rt_tick_increase user s = rt_timer_check (call_timeout user) ?s1"
    using t z(1) by (simp add: rt_tick_increase_def rt_thread_self_def flip: s0_def y_def)
  moreover have "stack_ok (threads ?s1 u) = stack_ok (threads s u)" for u
    by (simp add: z(4) y_def s0_def upd_thread_def stack_ok_def)
  moreover have "active_timers ?s1 = active_timers s" by (simp add: z(4) y_def s0_def upd_thread_def)
  then have "tick_inv ?s1" using z(2,3) k0 c calculation by (intro tick_inv_frame[OF inv]) auto
  ultimately show ?thesis using z(4)
    by (intro exI[of _ ?s1]) (auto simp: y_def s0_def upd_thread_def)
qed

text \<open>
  The whole check: the threads whose timers had expired are ready with a timeout error, their
  timers are off the list, and nothing else changed for the other threads.
\<close>

definition woken_by :: "'a sched_state_scheme \<Rightarrow> ptr set \<Rightarrow> 'a sched_state_scheme \<Rightarrow> bool" where
  "woken_by s D u \<longleftrightarrow> timers u = timers s \<and> rt_tick u = rt_tick s
     \<and> active_timers u = filter (\<lambda>p. p \<notin> D) (active_timers s)
     \<and> (\<forall>t. threads u t = (if ThreadTimer t \<in> D
           then (threads s t)\<lparr>thread_error := - RT_ETIMEOUT, stat := THREAD_READY\<rparr> else threads s t))"

lemma check_wakes:
  assumes "tick_inv s"
  shows "\<exists>s'. rt_timer_check (call_timeout user) s = Some s' \<and> tick_inv s' \<and> timers_pending s'
    \<and> woken_by s (set (expired_timers s)) s'"
proof -
  let ?Q = "\<lambda>u. \<exists>D. D \<subseteq> set (expired_timers s) \<and> woken_by s D u"
  have "woken_by s {} s" by (simp add: woken_by_def)
  then have Q0: "?Q s" by blast
  have step: "?Q u'" if u: "tick_inv u" "?Q u" "active_timers u = p # ts" "expired u p"
    "timer_fire (call_timeout user) p u = Some u'" for u p ts u'
  proof -
    obtain D where D: "D \<subseteq> set (expired_timers s)" "woken_by s D u" using u(2) by blast
    obtain t where t: "p = ThreadTimer t" "timers u' = timers u" "rt_tick u' = rt_tick u"
      "active_timers u' = removeAll p (active_timers u)"
      "threads u' = (threads u)(t := (threads u t)\<lparr>thread_error := - RT_ETIMEOUT, stat := THREAD_READY\<rparr>)"
      using thread_timer_fire[OF u(1,3), of user] u(5) by auto
    have "active_timers u = filter (\<lambda>p. p \<notin> D) (active_timers s)" using D(2) by (simp add: woken_by_def)
    then have "p \<in> set (filter (\<lambda>p. p \<notin> D) (active_timers s))" using u(3) by (metis list.set_intros(1))
    then have "p \<in> set (active_timers s)" "p \<notin> D" by simp_all
    moreover have "expired s p" using u(4) D(2) by (simp add: woken_by_def expired_def)
    ultimately have "insert p D \<subseteq> set (expired_timers s)" using D(1) by (simp add: expired_timers_def)
    moreover have "woken_by s (insert p D) u'"
      using D(2) t \<open>p \<notin> D\<close> by (auto simp: woken_by_def removeAll_filter_not_eq intro!: filter_cong)
    ultimately show ?thesis by blast
  qed
  have "\<exists>s'. timer_check_loop (call_timeout user) (rt_tick s) s = Some s' \<and> ?Q s'"
    by (rule thread_timer_check.check_loop_rel[of s ?Q user, OF assms Q0]) (rule step)
  then obtain s' where s': "timer_check_loop (call_timeout user) (rt_tick s) s = Some s'" "?Q s'" by blast
  have R: "tick_inv s'" "expired_timers s' = []" "timers_pending s'"
    using thread_timer_check.check_loop_returns[OF assms, of user] s'(1) by auto
  obtain D where D: "D \<subseteq> set (expired_timers s)" "woken_by s D s'" using s'(2) by blast
  have "set (expired_timers s) \<subseteq> D"
    using D(2) R(2) by (auto simp: woken_by_def expired_timers_def expired_def filter_empty_conv)
  then have "woken_by s (set (expired_timers s)) s'" using D by (metis subset_antisym)
  then show ?thesis using s'(1) R by (auto simp: rt_timer_check_def rt_tick_get_def)
qed

lemma tick_increase_wakes:
  assumes inv: "tick_inv s" and pend: "timers_pending s"
  shows "\<exists>s'. rt_tick_increase user s = Some s' \<and> tick_inv s' \<and> timers_pending s'
    \<and> rt_tick s' = rt_tick s + 1 \<and> timers s' = timers s
    \<and> (\<forall>t. ThreadTimer t \<in> set (active_timers s) \<longrightarrow>
          (if tkey (rt_tick s) s (ThreadTimer t) \<le> 1
           then stat (threads s' t) = THREAD_READY \<and> thread_error (threads s' t) = - RT_ETIMEOUT
           else stat (threads s' t) = THREAD_SUSPEND \<and> ThreadTimer t \<in> set (active_timers s')))"
proof -
  obtain s1 where s1: "tick_inv s1" "rt_tick_increase user s = rt_timer_check (call_timeout user) s1"
    "rt_tick s1 = rt_tick s + 1" "timers s1 = timers s" "active_timers s1 = active_timers s"
    "\<forall>u. stat (threads s1 u) = stat (threads s u)"
    using tick_slice[OF inv pend] by blast
  obtain s' where s': "rt_timer_check (call_timeout user) s1 = Some s'" "tick_inv s'" "timers_pending s'"
    "woken_by s1 (set (expired_timers s1)) s'"
    using check_wakes[OF s1(1)] by blast
  have k1: "kinv s1" using s1(1) by (simp add: tick_inv_def)
  have key: "tkey (rt_tick s1 - 1) s1 p = tkey (rt_tick s) s p" for p
    using s1(3,4) by (simp add: tkey_def)
  have ex: "p \<in> set (expired_timers s1) \<longleftrightarrow> tkey (rt_tick s) s p \<le> 1" if "p \<in> set (active_timers s)" for p
  proof -
    have "tkey (rt_tick s1 - 1) s1 p \<le> 0x7fffffff"
      using kinvD(2)[OF k1] that s1(5) by (simp add: timer_inv_def)
    then show ?thesis using expired_key[of s1 p] that s1(5) by (simp add: expired_timers_def key)
  qed
  have sus: "stat (threads s1 t) = THREAD_SUSPEND" if "ThreadTimer t \<in> set (active_timers s)" for t
    using kinvD(8)[OF k1, of t] that s1(5) by simp
  show ?thesis
    using s' s1 ex sus by (intro exI[of _ s']) (auto simp: woken_by_def)
qed

text \<open>Several ticks in a row, with nothing else happening in between.\<close>

fun ticks :: "(nat \<Rightarrow> nat \<Rightarrow> 'a sched_state_scheme \<Rightarrow> 'a sched_state_scheme option)
    \<Rightarrow> nat \<Rightarrow> 'a sched_state_scheme \<Rightarrow> 'a sched_state_scheme option" where
  "ticks user 0 s = Some s"
| "ticks user (Suc n) s = Option.bind (rt_tick_increase user s) (ticks user n)"

lemma ticks_wake:
  assumes "tick_inv s" "timers_pending s" "ThreadTimer t \<in> set (active_timers s)"
    "unat (timeout_tick (timers s (ThreadTimer t)) - rt_tick s) = n" "0 < n"
  shows "(\<forall>m<n. \<exists>s'. ticks user m s = Some s' \<and> stat (threads s' t) = THREAD_SUSPEND)
    \<and> (\<exists>s'. ticks user n s = Some s' \<and> tick_inv s' \<and> stat (threads s' t) = THREAD_READY
         \<and> thread_error (threads s' t) = - RT_ETIMEOUT)"
  using assms
proof (induction n arbitrary: s)
  case (Suc n)
  let ?p = "ThreadTimer t"
  have sus: "stat (threads s t) = THREAD_SUSPEND"
    using Suc.prems(1,3) kinvD(8)[of s t] by (simp add: tick_inv_def)
  obtain s1 where s1: "rt_tick_increase user s = Some s1" "tick_inv s1" "timers_pending s1"
    "rt_tick s1 = rt_tick s + 1" "timers s1 = timers s" and
    w: "if tkey (rt_tick s) s ?p \<le> 1
        then stat (threads s1 t) = THREAD_READY \<and> thread_error (threads s1 t) = - RT_ETIMEOUT
        else stat (threads s1 t) = THREAD_SUSPEND \<and> ?p \<in> set (active_timers s1)"
    using tick_increase_wakes[OF Suc.prems(1,2), of user] Suc.prems(3) by blast
  have key: "tkey (rt_tick s) s ?p = Suc n" using Suc.prems(4) by (simp add: tkey_def)
  show ?case
  proof (cases "n = 0")
    case True
    then show ?thesis using s1 w key sus by simp
  next
    case False
    define a where "a = timeout_tick (timers s ?p) - rt_tick s"
    have "unat a = Suc n" using Suc.prems(4) by (simp add: a_def)
    moreover have "timeout_tick (timers s1 ?p) - rt_tick s1 = a - 1" using s1(4,5) by (simp add: a_def)
    ultimately have "unat (timeout_tick (timers s1 ?p) - rt_tick s1) = n"
      by (simp add: unat_sub word_le_nat_alt)
    moreover have "?p \<in> set (active_timers s1)" using w key False by simp
    ultimately have IH: "\<forall>m<n. \<exists>s'. ticks user m s1 = Some s' \<and> stat (threads s' t) = THREAD_SUSPEND"
      "\<exists>s'. ticks user n s1 = Some s' \<and> tick_inv s' \<and> stat (threads s' t) = THREAD_READY
         \<and> thread_error (threads s' t) = - RT_ETIMEOUT"
      using Suc.IH[OF s1(2,3)] False by blast+
    have "\<exists>s'. ticks user m s = Some s' \<and> stat (threads s' t) = THREAD_SUSPEND" if "m < Suc n" for m
      using IH(1) s1(1) sus that by (cases m) simp_all
    then show ?thesis using IH(2) s1(1) by auto
  qed
qed simp

subsection \<open>The stack of a new thread\<close>

lemma align_down_8: "unat (RT_ALIGN_DOWN w 8) = unat w div 8 * 8"
proof -
  have m: "(7 :: rt_uint32_t) = mask 3" by (simp add: mask_eq_exp_minus_1)
  have e: "3 \<le> n \<Longrightarrow> Suc (Suc (Suc (n - 3))) = n" for n by simp
  have "unat (w AND NOT 7) = push_bit 3 (drop_bit 3 (unat w))"
    by (rule bit_eqI) (auto simp: m bit_unsigned_iff bit_and_iff bit_not_iff bit_mask_iff
        bit_push_bit_iff bit_drop_bit_eq not_less e simp del: mask_numeral dest: bit_imp_le_length)
  then show ?thesis by (simp add: RT_ALIGN_DOWN_def push_bit_eq_mult drop_bit_eq_div)
qed

lemma stack_init_sp:
  assumes "start + n < 2 ^ 32" "72 \<le> n" "0 < start"
  shows "fst (rt_hw_stack_init e p (sub32 (add32 start n) 4) x m) = (start + n) div 8 * 8 - 64"
proof -
  have "add32 start n = start + n" using assms by (simp add: add32_small)
  moreover have "sub32 (start + n) 4 = start + n - 4" using assms by (intro sub32_small) auto
  moreover have "add32 (start + n - 4) 4 = start + n" using assms by (simp add: add32_def)
  moreover have "unat (word_of_nat (start + n) :: rt_uint32_t) = start + n"
    using assms by (simp add: unat_of_nat del: of_nat_add)
  moreover have "sub32 ((start + n) div 8 * 8) 64 = (start + n) div 8 * 8 - 64"
    using assms by (intro sub32_small) auto
  ultimately show ?thesis by (simp add: rt_hw_stack_init_def Let_def align_down_8 del: of_nat_add)
qed

text \<open>The sixteen words of the frame, and the memory around it.\<close>

definition first_frame :: "nat \<Rightarrow> nat \<Rightarrow> nat \<Rightarrow> rt_uint32_t list" where
  "first_frame entry param texit = replicate 8 0xdeadbeef @ [of_nat param, 0, 0, 0, 0, of_nat texit, of_nat entry, 0x01000000]"

lemma store_words: "i < n \<Longrightarrow> load32 (a + 4 * i) (foldl (\<lambda>m i. store32 (a + 4 * i) w m) m [0..<n]) = w"
proof (induction n)
  case (Suc n)
  then show ?case by (cases "i = n") (simp_all add: load32_store32 load32_store32_other)
qed simp

lemma store_words_other: "x < a \<or> a + 4 * n \<le> x \<Longrightarrow> foldl (\<lambda>m i. store32 (a + 4 * i) w m) m [0..<n] x = m x"
proof (induction n)
  case (Suc n)
  then show ?case by (elim disjE; simp add: store32_other)
qed simp

lemma stack_init_frame:
  fixes e p q x :: nat and m :: bmem
  defines "r \<equiv> rt_hw_stack_init e p q x m"
  shows "map (\<lambda>i. load32 (fst r + 4 * i) (snd r)) [0..<16] = first_frame e p x"
    "a < fst r \<or> fst r + 64 \<le> a \<Longrightarrow> snd r a = m a"
proof -
  define stk where "stk = fst r"
  define m0 where "m0 = foldl (\<lambda>m i. store32 (stk + 4 * i) 0xdeadbeef m) m [0..<16]"
  have f: "load32 (stk + 4 * i) m0 = 0xdeadbeef" if "i < 16" for i unfolding m0_def using that by (rule store_words)
  have r: "snd r = store32 (stk + 60) 0x01000000 (store32 (stk + 56) (of_nat e) (store32 (stk + 52) (of_nat x)
      (store32 (stk + 48) 0 (store32 (stk + 44) 0 (store32 (stk + 40) 0 (store32 (stk + 36) 0 (store32 (stk + 32) (of_nat p) m0)))))))"
    by (simp add: r_def rt_hw_stack_init_def Let_def stk_def m0_def)
  have "load32 (stk + 4 * i) (snd r) = first_frame e p x ! i" if "i < 16" for i
  proof -
    consider "i < 8" | "i \<in> {8, 9, 10, 11, 12, 13, 14, 15}" using \<open>i < 16\<close> by fastforce
    then show ?thesis
    proof cases
      case 1
      then show ?thesis using f[of i] by (simp add: r load32_store32_other first_frame_def nth_append)
    next
      case 2
      then show ?thesis by (auto simp: r load32_store32 load32_store32_other first_frame_def nth_append)
    qed
  qed
  then show "map (\<lambda>i. load32 (fst r + 4 * i) (snd r)) [0..<16] = first_frame e p x"
    by (intro nth_equalityI) (simp_all add: first_frame_def stk_def)
  show "snd r a = m a" if "a < fst r \<or> fst r + 64 \<le> a"
    using that store_words_other[of a stk 16 "0xdeadbeef" m] unfolding stk_def[symmetric]
    by (elim disjE; simp add: r store32_other m0_def)
qed

lemma thread_init_effect:
  assumes "do_rt_thread_init t e p start n prio tick s = Some s'"
  shows "prio < RT_THREAD_PRIORITY_MAX" "stack_addr (threads s' t) = start"
    "stack_size (threads s' t) = of_nat n" "stat (threads s' t) = THREAD_INIT"
    "init_priority (threads s' t) = prio" "number_mask (threads s' t) = number_mask (threads s t)"
    "sp (threads s' t) = fst (rt_hw_stack_init e p (sub32 (add32 start (unat (of_nat n :: rt_uint16_t))) 4)
        (rt_thread_exit_addr s) (rt_memset start 0x23 (unat (of_nat n :: rt_uint16_t)) (mdata s)))"
    "thread_timer_ok s' t" "u \<noteq> t \<Longrightarrow> threads s' u = threads s u" "tlists s' = tlists s"
    "o_flag (objs s' (ThreadTimer t)) AND TIMER_ACTIVATED = 0"
    "mdata s' = snd (rt_hw_stack_init e p (sub32 (add32 start (unat (of_nat n :: rt_uint16_t))) 4)
        (rt_thread_exit_addr s) (rt_memset start 0x23 (unat (of_nat n :: rt_uint16_t)) (mdata s)))"
  using assms
  by (auto simp: do_rt_thread_init_def rt_timer_init_def rt_object_init_def do_rt_timer_init_def upd_obj_def
      upd_timer_def upd_thread_def timer_of_thread_def Let_def split: prod.splits bind_splits)

lemma rt_thread_init_returns:
  assumes "0 < start" "prio < RT_THREAD_PRIORITY_MAX" "0 \<in> set name"
  shows "\<exists>s'. rt_thread_init t name e p start n prio tick s = Some s'"
proof -
  obtain f where f: "rt_strncpy name 8 = Some f" "length f = 8"
    using rt_strncpy_eq[OF assms(3), of 8] by simp
  then obtain g where g: "rt_strncpy f 8 = Some g" using rt_strncpy_array[of 8 f] by auto
  show ?thesis using assms(1,2) f(1) g
    by (auto simp: rt_thread_init_def rt_object_init_def do_rt_thread_init_def rt_timer_init_def upd_obj_def
        upd_thread_def Let_def split: prod.splits)
qed

subsection \<open>Properties\<close>

text \<open>C27: A thread initialised with \<open>n\<close> bytes of stack has the first \<open>n mod 65536\<close> of them (the size is kept in 16 bits; a larger
  one is cut off). When these are at least 72, the frame of sixteen words the thread starts from lies with all
  its bytes inside them, at an address divisible by 8: it holds the entry function, its parameter, the address of \<^verbatim>\<open>rt_thread_exit\<close> and
  the status word; the rest of the stack is filled with \<^verbatim>\<open>#\<close>, and no byte outside it is written.
  The thread passes the scheduler's stack check.\<close>

theorem new_thread_stack_ok:
  assumes "rt_thread_init t name e p start n prio tick s = Some s'"
    and "72 \<le> n mod 2 ^ 16" "start + n mod 2 ^ 16 < 2 ^ 32"
  defines "k \<equiv> n mod 2 ^ 16" and "b \<equiv> sp (threads s' t)"
  shows "stack_addr (threads s' t) = start \<and> unat (stack_size (threads s' t)) = k
    \<and> start < b \<and> b + 64 \<le> start + k \<and> 8 dvd b
    \<and> map (\<lambda>i. load32 (b + 4 * i) (mdata s')) [0..<16] = first_frame e p (rt_thread_exit_addr s)
    \<and> (\<forall>a. start \<le> a \<and> a < start + k \<and> \<not> (b \<le> a \<and> a < b + 64) \<longrightarrow> mdata s' a = 0x23)
    \<and> (\<forall>a. \<not> (start \<le> a \<and> a < start + k) \<longrightarrow> mdata s' a = mdata s a)
    \<and> rt_scheduler_stack_check t s' = Some s'"
proof -
  obtain s0 where s0: "0 < start" "do_rt_thread_init t e p start n prio tick s0 = Some s'" "mdata s0 = mdata s"
      "rt_thread_exit_addr s0 = rt_thread_exit_addr s"
    using assms(1) by (auto simp: rt_thread_init_def rt_object_init_def upd_obj_def split: bind_splits)
  have n: "unat (word_of_nat n :: rt_uint16_t) = k" by (simp add: unat_of_nat k_def)
  note E = thread_init_effect[OF s0(2)]
  define r where "r = rt_hw_stack_init e p (sub32 (add32 start k) 4) (rt_thread_exit_addr s) (rt_memset start 0x23 k (mdata s))"
  have r: "b = fst r" "mdata s' = snd r" using E(7,12) n s0(3,4) by (simp_all add: b_def r_def)
  have b: "b = (start + k) div 8 * 8 - 64"
    using stack_init_sp[OF assms(3)[folded k_def] assms(2)[folded k_def] s0(1)] by (simp add: r(1) r_def)
  have "72 \<le> k" using assms(2) by (simp add: k_def)
  then have i: "start < b" "b + 64 \<le> start + k" "8 dvd b"
    unfolding b by (linarith, linarith, simp add: dvd_diff_nat)
  have out: "mdata s' a = mem_fill start k 0x23 (mdata s) a" if "\<not> (b \<le> a \<and> a < b + 64)" for a
    using stack_init_frame(2)[of a e p "sub32 (add32 start k) 4" "rt_thread_exit_addr s"] that
    by (simp add: r not_le not_less r_def rt_memset_fill)
  have "stack_ok (threads s' t)" using E(2,3) i n assms(3) by (simp add: stack_ok_def add32_small k_def flip: b_def)
  then show ?thesis using E(2,3) n i out stack_init_frame(1)[of e p "sub32 (add32 start k) 4"]
    by (auto simp: r r_def mem_fill_def stack_check_iff simp flip: b_def)
qed

text \<open>C26: Yielding is round robin: the current thread goes to the end of the ready queue of its
  priority and the one that was next in the queue runs, when no higher priority is ready.\<close>

theorem rt_thread_yield_round_robin:
  assumes "kinv s" "rt_scheduler_lock_nest s = 0" "rt_current_thread s = Some t"
    "tlists s (Ready p) = t # u # rest" "\<forall>v. ready s v \<longrightarrow> p \<le> current_priority (threads s v)"
    "stack_ok (threads s u)"
  shows "\<exists>s'. rt_thread_yield s = Some (RT_EOK, s') \<and> kinv s' \<and> rt_current_thread s' = Some u
    \<and> tlists s' (Ready p) = u # rest @ [t]"
proof -
  note D = sched_ok_D[OF kinvD(4)[OF assms(1)]]
  have t: "stat (threads s t) = THREAD_READY" "current_priority (threads s t) = p"
    using D(3)[of t p] assms(4) by simp_all
  have d: "t \<noteq> u" "t \<notin> set rest" using D(1) assms(4) by (auto simp: store_ok_def dest!: spec[of _ "Ready p"])
  define s1 where "s1 = upd_tlists (\<lambda>L. list_push_back (Ready p) t (list_unlink t L)) s"
  have k1: "kinv s1" using yield_requeue_kinv[OF assms(1) t(1)] t(2) by (simp add: s1_def)
  have q: "tlists s1 (Ready p) = u # rest @ [t]"
    using assms(4) d by (simp add: s1_def upd_tlists_def list_push_back_def list_unlink_def)
  have th: "threads s1 = threads s" "rt_current_thread s1 = Some t" "rt_scheduler_lock_nest s1 = 0"
    using assms by (simp_all add: s1_def upd_tlists_def)
  obtain h v where h: "highest_ready s1 = Some (h, v)"
    using highest_ready_exists[OF kinvD(1)[OF k1], of t] t th by (auto simp: ready_def)
  note H = highest_ready_Some[OF kinvD(1)[OF k1] h]
  have "h = p" using H(3,4) H(6)[of t] assms(5) t th by (fastforce simp: ready_def)
  then have v: "v = u" using H(2) q by simp
  have "rt_schedule s1 = Some (s1\<lparr>rt_current_priority := h, rt_current_thread := Some u\<rparr>)"
    using h v th assms(6) d(1) by (simp add: rt_schedule_def stack_check_iff)
  moreover have "rt_thread_yield s = Option.bind (rt_schedule s1) (\<lambda>s. Some (RT_EOK, s))"
    using assms(3,4) t by (simp add: rt_thread_yield_def s1_def)
  ultimately show ?thesis using k1 q by simp
qed

lemma sleep_wakes:
  assumes "tick_inv s" "timers_pending s" "rt_scheduler_lock_nest s = 0"
    "rt_current_thread s = Some t" "ready s t" "ready s idle" "idle \<noteq> t" "0 < n" "n < RT_TICK_HALF"
  shows "\<exists>s'. rt_thread_sleep n s = Some (Wait t, s')
    \<and> (\<forall>m<unat n. \<exists>v. ticks user m s' = Some v \<and> stat (threads v t) = THREAD_SUSPEND)
    \<and> (\<exists>v. ticks user (unat n) s' = Some v \<and> tick_inv v \<and> ready v t)"
proof -
  have k: "kinv s" using assms(1) by (simp add: tick_inv_def)
  obtain s1 where k1: "kinv s1" and sl: "rt_thread_sleep n s
      = do { s \<leftarrow> rt_schedule s1;
             Some (if rt_current_thread s = Some t
                   then (let (r, s) = rt_thread_sleep_end t s in (Ret r, s)) else (Wait t, s)) }"
    and th: "threads s1 = (threads s)(t := (threads s t)\<lparr>stat := THREAD_SUSPEND\<rparr>)"
    and f: "rt_current_thread s1 = Some t" "rt_scheduler_lock_nest s1 = 0"
    and tm: "set (active_timers s1) = insert (ThreadTimer t) (set (active_timers s))"
      "\<forall>p. p \<noteq> ThreadTimer t \<longrightarrow> timers s1 p = timers s p" "rt_tick s1 = rt_tick s"
      "timeout_tick (timers s1 (ThreadTimer t)) = rt_tick s + n"
    using rt_thread_sleep_ok[OF k assms(4) _ assms(9)] assms(3-5) by (auto simp: ready_def)
  have st: "\<forall>u. stack_ok (threads s1 u)" using assms(1) by (simp add: tick_inv_def th stack_ok_def)
  have ri: "ready s1 idle" "\<not> ready s1 t" using assms(6,7) by (simp_all add: ready_def th)
  obtain s' where s': "rt_schedule s1 = Some s'"
    using rt_schedule_returns[OF kinvD(1)[OF k1] ri(1)] f st by auto
  obtain h u where u: "highest_ready s1 = Some (h, u)" "rt_current_thread s' = Some u"
    using rt_schedule_selects[OF kinvD(1)[OF k1] f(2) s'] by blast
  then have "u \<noteq> t" using highest_ready_Some(3)[OF kinvD(1)[OF k1]] ri(2) by blast
  then have sleeps: "rt_thread_sleep n s = Some (Wait t, s')" using sl s' u(2) by simp
  obtain q c where s'q: "s' = s1\<lparr>rt_current_priority := q, rt_current_thread := c\<rparr>"
    using rt_schedule_frame[OF s'] by blast
  have ti: "tick_inv s'"
    using assms(1) rt_schedule_kinv[OF k1 s'] u(2) tm(1) st
    by (auto simp: tick_inv_def only_thread_timers_def s'q)
  have due: "timeout_tick (timers s' (ThreadTimer t)) - rt_tick s' = n" using tm by (simp add: s'q)
  have "timers_pending s'"
    unfolding timers_pending_def
  proof
    fix p assume p: "p \<in> set (active_timers s')"
    show "1 \<le> tkey (rt_tick s' - 1) s' p"
    proof (cases "p = ThreadTimer t")
      case True
      have "timeout_tick (timers s' p) - (rt_tick s' - 1) = n + 1" using due True by (simp add: algebra_simps)
      then have "tkey (rt_tick s' - 1) s' p = unat (n + 1)" by (simp only: tkey_def)
      moreover have "unat n < 0x7fffffff" using assms(9) by (simp add: word_less_nat_alt)
      ultimately show ?thesis by (simp add: unat_add_small)
    next
      case False
      then show ?thesis using p assms(2) tm by (auto simp: timers_pending_def tkey_def s'q)
    qed
  qed
  moreover have "ThreadTimer t \<in> set (active_timers s')" using tm(1) by (simp add: s'q)
  moreover have "0 < unat n" using assms(8) by (simp add: unat_gt_0)
  ultimately show ?thesis
    using ticks_wake[OF ti, of t "unat n" user] due sleeps by (auto simp: ready_def)
qed

text \<open>C9: A thread that sleeps for \<open>n\<close> ticks gives up the processor, stays suspended through the
  first \<open>n - 1\<close> tick interrupts, and the \<open>n\<close>-th one makes it ready; no interrupt hangs or trips
  an assertion on the way.\<close>

theorem rt_thread_sleep_wakes_on_time:
  assumes "tick_inv s" "timers_pending s" "rt_scheduler_lock_nest s = 0"
    "rt_current_thread s = Some t" "ready s t" "ready s idle" "idle \<noteq> t" "0 < n" "n < RT_TICK_HALF"
  shows "\<exists>s'. rt_thread_sleep n s = Some (Wait t, s')
    \<and> (\<forall>m<unat n. \<exists>v. ticks user m s' = Some v \<and> stat (threads v t) = THREAD_SUSPEND)
    \<and> (\<exists>v. ticks user (unat n) s' = Some v \<and> tick_inv v \<and> ready v t)"
  by (rule sleep_wakes[OF assms])

text \<open>The operations on threads keep the kernel invariant: suspending and resuming any thread,
  yielding, changing the priority of a thread to a legal value, starting an initialised
  thread, and closing (exit, delete, detach) a thread that was started.\<close>

theorem thread_operations_keep_kinv:
  assumes "kinv s"
  shows "kinv (snd (rt_thread_suspend t s)) \<and> kinv (snd (rt_thread_resume t s))
   \<and> (\<forall>r s'. rt_thread_yield s = Some (r, s') \<longrightarrow> kinv s')
   \<and> (\<forall>p r s'. p < RT_THREAD_PRIORITY_MAX \<longrightarrow> rt_thread_control t 2 p s = Some (r, s') \<longrightarrow> kinv s')
   \<and> (\<forall>r s'. thread_timer_ok s t \<longrightarrow> init_priority (threads s t) < RT_THREAD_PRIORITY_MAX
        \<longrightarrow> rt_thread_startup t s = Some (r, s') \<longrightarrow> kinv s')
   \<and> (stat (threads s t) = THREAD_READY \<or> stat (threads s t) = THREAD_SUSPEND \<longrightarrow>
        kinv (snd (rt_thread_delete t s)) \<and> kinv (snd (rt_thread_detach t s))
        \<and> (\<forall>s'. rt_current_thread s = Some t \<longrightarrow> rt_thread_exit s = Some s' \<longrightarrow> kinv s'))"
proof (intro conjI allI impI)
  show "kinv (snd (rt_thread_suspend t s))" "kinv (snd (rt_thread_resume t s))"
    using assms by (rule suspend_kinv resume_kinv)+
next
  fix r s' assume "rt_thread_yield s = Some (r, s')" then show "kinv s'" by (rule yield_kinv[OF assms])
next
  fix p r s' assume "p < RT_THREAD_PRIORITY_MAX" "rt_thread_control t 2 p s = Some (r, s')"
  then show "kinv s'" by (rule control_priority_kinv[OF assms])
next
  fix r s' assume "thread_timer_ok s t" "init_priority (threads s t) < RT_THREAD_PRIORITY_MAX"
    "rt_thread_startup t s = Some (r, s')"
  then show "kinv s'" by (rule startup_kinv[OF assms])
next
  assume "stat (threads s t) = THREAD_READY \<or> stat (threads s t) = THREAD_SUSPEND"
  then have wf: "wf_thread (threads s t)" by (rule kinvD(5)[OF assms])
  then show "kinv (snd (rt_thread_delete t s))" "kinv (snd (rt_thread_detach t s))"
    by (simp_all add: rt_thread_delete_eq rt_thread_detach_eq close_thread_kinv[OF assms])
  fix s' assume "rt_current_thread s = Some t" "rt_thread_exit s = Some s'"
  then show "kinv s'" using wf exit_kinv[OF assms] by simp
qed

subsection \<open>Witnesses\<close>

lemma demo_kinv: "kinv demo_sched"
proof -
  have "timer_inv demo_sched"
    by (simp add: timer_inv_def rows_ok_def active_timers_def demo_sched_def)
  moreover have "thread_timers demo_sched"
    by (simp add: thread_timers_def active_timers_def demo_sched_def timer_of_thread_def demo_timer_def demo_obj_def)
  ultimately show ?thesis using demo_sched_inv by (simp add: kinv_def)
qed

lemma demo_tick_inv: "tick_inv demo_sched" "timers_pending demo_sched"
  using demo_kinv demo_stacks
  by (simp_all add: tick_inv_def only_thread_timers_def timers_pending_def active_timers_def demo_sched_def)

lemma demo_ready: "ready demo_sched t \<longleftrightarrow> t = 1 \<or> t = 2"
  by (simp add: ready_def demo_sched_def demo_threads_def demo_thread_def)

theorem rt_thread_sleep_wakes_on_time_witness:
  "\<exists>s'. rt_thread_sleep 5 demo_sched = Some (Wait 1, s')
    \<and> (\<forall>m<5. \<exists>v. ticks (\<lambda>_ _ s. Some s) m s' = Some v \<and> stat (threads v 1) = THREAD_SUSPEND)
    \<and> (\<exists>v. ticks (\<lambda>_ _ s. Some s) 5 s' = Some v \<and> tick_inv v \<and> ready v 1)"
  using rt_thread_sleep_wakes_on_time[OF demo_tick_inv, of 1 2 5 "\<lambda>_ _ s. Some s"] demo_ready
  by (simp add: demo_sched_def)

theorem thread_operations_keep_kinv_witness:
  "kinv (snd (rt_thread_suspend 2 demo_sched)) \<and> kinv (snd (rt_thread_delete 2 demo_sched))"
  using thread_operations_keep_kinv[OF demo_kinv, of 2] demo_ready[of 2] by (auto simp: ready_def)

text \<open>Two threads of equal priority for the round robin: thread 2 is moved behind thread 1.\<close>

definition demo_pair :: sched_state where
  "demo_pair = snd (the (rt_thread_control 2 2 20 demo_sched))"

lemma demo_pair_eq: "rt_thread_control 2 2 20 demo_sched = Some (RT_EOK, demo_pair)"
  using demo_ready[of 2] by (simp add: demo_pair_def rt_thread_control_def ready_def)

lemma demo_pair_facts:
  "kinv demo_pair" "tlists demo_pair (Ready 20) = [1, 2]" "rt_current_thread demo_pair = Some 1"
  "rt_scheduler_lock_nest demo_pair = 0" "ready demo_pair v \<longleftrightarrow> v = 1 \<or> v = 2"
  "ready demo_pair v \<Longrightarrow> current_priority (threads demo_pair v) = 20" "stack_ok (threads demo_pair v)"
proof -
  show "kinv demo_pair" using control_priority_kinv[OF demo_kinv _ demo_pair_eq] by simp
  have eq: "demo_pair = rt_schedule_insert_thread 2 (upd_thread 2 (\<lambda>th. th\<lparr>current_priority := 20,
      number_mask := push_bit 20 1\<rparr>) (rt_schedule_remove_thread 2 demo_sched))"
    using demo_ready[of 2] by (simp add: demo_pair_def rt_thread_control_def ready_def)
  have p: "threads demo_pair = demo_threads(2 := (demo_thread 20 THREAD_READY)\<lparr>init_priority := 10\<rparr>)"
    "tlists demo_pair (Ready 20) = [1, 2]" "rt_current_thread demo_pair = Some 1"
    "rt_scheduler_lock_nest demo_pair = 0"
    unfolding eq
    by (simp_all add: insert_thread_eq remove_thread_eq upd_thread_def list_push_back_def list_unlink_def
        demo_sched_def demo_tlists_def) (simp add: demo_threads_def demo_thread_def)
  then show "tlists demo_pair (Ready 20) = [1, 2]" "rt_current_thread demo_pair = Some 1"
    "rt_scheduler_lock_nest demo_pair = 0" "ready demo_pair v \<longleftrightarrow> v = 1 \<or> v = 2"
    "ready demo_pair v \<Longrightarrow> current_priority (threads demo_pair v) = 20" "stack_ok (threads demo_pair v)"
    by (auto simp: p(1) ready_def stack_ok_def demo_threads_def demo_thread_def add32_def split: if_splits)
qed

theorem rt_thread_yield_round_robin_witness:
  "\<exists>s'. rt_thread_yield demo_pair = Some (RT_EOK, s') \<and> kinv s' \<and> rt_current_thread s' = Some 2
    \<and> tlists s' (Ready 20) = [2, 1]"
  using rt_thread_yield_round_robin[OF demo_pair_facts(1,4,3), of 20 2 "[]"] demo_pair_facts by auto

theorem new_thread_stack_ok_witness:
  "\<exists>s'. rt_thread_init 7 [0x61, 0] 0x08000100 5 0x20001000 256 12 10 demo_sched = Some s'
     \<and> sp (threads s' 7) + 64 \<le> 0x20001100 \<and> load32 (sp (threads s' 7) + 56) (mdata s') = 0x08000100"
proof -
  obtain s' where s': "rt_thread_init 7 [0x61, 0] 0x08000100 5 0x20001000 256 12 10 demo_sched = Some s'"
    using rt_thread_init_returns[where start = "0x20001000" and prio = 12 and name = "[0x61, 0]"] by fastforce
  have "map (\<lambda>i. load32 (sp (threads s' 7) + 4 * i) (mdata s')) [0..<16] ! 14 = first_frame 0x08000100 5 (rt_thread_exit_addr demo_sched) ! 14"
    "sp (threads s' 7) + 64 \<le> 0x20001100"
    using new_thread_stack_ok[OF s'] by simp_all
  moreover have "first_frame e p x ! 14 = of_nat e" for e p x by (simp add: first_frame_def nth_append)
  ultimately show ?thesis using s' by simp
qed

subsection \<open>Deleting a thread that was never started\<close>

text \<open>The mask of a thread is set by \<open>rt_thread_startup\<close> only. Deleting a thread that was
  initialised but never started clears the bits of whatever its mask field held: when that
  includes the bit of a ready thread's priority, and no thread is ready at the deleted
  thread's own priority, the ready thread is lost to the scheduler.\<close>

theorem delete_unstarted_thread_hides_ready_thread:
  assumes "kinv s" "stat (threads s t) = THREAD_INIT"
    "tlists s (Ready (current_priority (threads s t))) = []"
    "ready s u" "bit (number_mask (threads s t)) (current_priority (threads s u))"
  defines "s' \<equiv> snd (rt_thread_delete t s)"
  shows "ready s' u \<and> \<not> bit (rt_thread_ready_priority_group s') (current_priority (threads s' u))
    \<and> \<not> sched_inv s'"
proof -
  have u: "u \<noteq> t" using assms(2,4) by (auto simp: ready_def)
  have th: "threads s' = (threads s)(t := (threads s t)\<lparr>stat := THREAD_CLOSE\<rparr>)"
    and g: "rt_thread_ready_priority_group s' = group_without t s"
    by (simp_all add: s'_def rt_thread_delete_eq close_thread_def Let_def)
  have r: "ready s' u" "threads s' u = threads s u" using u assms(4) by (simp_all add: ready_def th)
  have "list_unlink t (tlists s) (Ready (current_priority (threads s t))) = []"
    using assms(3) by (simp add: list_unlink_def)
  then have nb: "\<not> bit (rt_thread_ready_priority_group s') (current_priority (threads s' u))"
    using assms(5) r(2) by (simp add: g group_without_def bit_and_iff bit_not_iff)
  have "\<not> sched_inv s'"
  proof
    assume "sched_inv s'"
    note D = sched_ok_D[OF this[unfolded sched_inv_def]]
    have "u \<in> set (tlists s' (Ready (current_priority (threads s' u))))"
      "current_priority (threads s' u) < RT_THREAD_PRIORITY_MAX"
      using D(3,4)[of u] r(1) by (auto simp: ready_def wf_thread_def)
    then show False using D(5) nb by (metis empty_iff empty_set)
  qed
  then show ?thesis using r(1) nb by blast
qed

definition demo_stale :: sched_state where
  "demo_stale = demo_sched\<lparr>threads := (threads demo_sched)
     (4 := (demo_thread 5 THREAD_INIT)\<lparr>number_mask := push_bit 10 1\<rparr>)\<rparr>"

lemma demo_stale_kinv: "kinv demo_stale"
proof -
  let ?v = "(demo_thread 5 THREAD_INIT)\<lparr>number_mask := push_bit 10 1\<rparr>"
  have "4 \<notin> set (tlists demo_sched l)" for l by (simp add: demo_sched_def demo_tlists_def)
  then have "sched_ok ((threads demo_sched)(4 := ?v)) (tlists demo_sched) (rt_thread_ready_priority_group demo_sched)"
    using demo_ready[of 4] by (intro sched_ok_not_ready[OF kinvD(4)[OF demo_kinv]]) (auto simp: ready_def demo_thread_def)
  from kinv_thread[OF demo_kinv this] show ?thesis
    by (simp add: demo_stale_def demo_thread_def) (simp add: demo_sched_def active_timers_def)
qed

theorem delete_unstarted_thread_hides_ready_thread_witness:
  "kinv demo_stale \<and> ready (snd (rt_thread_delete 4 demo_stale)) 2
   \<and> \<not> sched_inv (snd (rt_thread_delete 4 demo_stale))
   \<and> highest_ready (snd (rt_thread_delete 4 demo_stale)) = Some (20, 1)"
proof -
  have "rt_thread_ready_priority_group (snd (rt_thread_delete 4 demo_stale)) = 0x100000"
    "tlists (snd (rt_thread_delete 4 demo_stale)) (Ready 20) = [1]"
    by (simp_all add: rt_thread_delete_eq close_thread_def group_without_def list_unlink_def list_push_front_def
        demo_stale_def demo_sched_def demo_tlists_def demo_thread_def Let_def)
  moreover have "rt_ffs 0x100000 = 21" by (simp add: rt_ffs_def lowest_bit_bitmap_def)
  ultimately have "highest_ready (snd (rt_thread_delete 4 demo_stale)) = Some (20, 1)"
    by (simp add: highest_ready_def)
  moreover have "ready demo_stale 2" using demo_ready[of 2] by (simp add: demo_stale_def ready_def)
  moreover have "stat (threads demo_stale 4) = THREAD_INIT"
    "tlists demo_stale (Ready (current_priority (threads demo_stale 4))) = []"
    "bit (number_mask (threads demo_stale 4)) (current_priority (threads demo_stale 2))"
    by (simp_all add: demo_stale_def demo_sched_def demo_tlists_def demo_threads_def demo_thread_def)
  ultimately show ?thesis
    using delete_unstarted_thread_hides_ready_thread[OF demo_stale_kinv, of 4 2] demo_stale_kinv by blast
qed

end
