(* ===== verification/Ipc.thy ===== *)
theory Ipc
  imports Thread
begin

text \<open>
  What the IPC objects of \<^verbatim>\<open>src/ipc.c\<close> share: suspending the current thread on the list of an
  object, in FIFO or priority order, resuming the first or all threads of a list, and the
  sequence of statements every blocking call goes through. The threads waiting for the object
  at address \<open>a\<close> are in the list \<open>Suspend a\<close>, the threads waiting to send in \<open>SuspendSender a\<close>.
  A waiting time is a signed 32-bit number; a negative one waits forever.
\<close>

abbreviation (input) IPC_FLAG_FIFO :: rt_uint8_t where "IPC_FLAG_FIFO \<equiv> 0"
abbreviation (input) IPC_FLAG_PRIO :: rt_uint8_t where "IPC_FLAG_PRIO \<equiv> 1"

text \<open>\<^verbatim>\<open>rt_ipc_object_init\<close>: the list of waiting threads is made empty.\<close>

definition rt_ipc_object_init :: "lhead \<Rightarrow> 'a sched_state_scheme \<Rightarrow> 'a sched_state_scheme" where
  "rt_ipc_object_init l s = upd_tlists (\<lambda>L. L(l := [])) s"

definition rt_ipc_list_suspend :: "lhead \<Rightarrow> tid \<Rightarrow> rt_uint8_t \<Rightarrow> 'a sched_state_scheme
    \<Rightarrow> 'a sched_state_scheme" where
  "rt_ipc_list_suspend l t flag s =
     (let s = snd (rt_thread_suspend t s);
          prio = (\<lambda>u. current_priority (threads s u))
      in
      if flag = IPC_FLAG_FIFO then upd_tlists (list_push_back l t) s
      else if flag = IPC_FLAG_PRIO then
        (case find (\<lambda>u. prio t < prio u) (tlists s l) of
           Some u \<Rightarrow> upd_tlists (list_place_before u t) s
         | None \<Rightarrow> upd_tlists (list_push_back l t) s)
      else s)"

definition rt_ipc_list_resume :: "lhead \<Rightarrow> 'a sched_state_scheme \<Rightarrow> 'a sched_state_scheme option" where
  "rt_ipc_list_resume l s =
     (case tlists s l of [] \<Rightarrow> None | t # _ \<Rightarrow> Some (snd (rt_thread_resume t s)))"

partial_function (option) rt_ipc_list_resume_all :: "lhead \<Rightarrow> 'a sched_state_scheme
    \<Rightarrow> 'a sched_state_scheme option" where
  "rt_ipc_list_resume_all l s =
     (case tlists s l of
        [] \<Rightarrow> Some s
      | t # _ \<Rightarrow> rt_ipc_list_resume_all l
          (snd (rt_thread_resume t (upd_thread t (\<lambda>th. th\<lparr>thread_error := - RT_ERROR\<rparr>) s))))"

text \<open>Starting the timer of the calling thread when it waits for a limited time.\<close>

definition start_wait_timer :: "tid \<Rightarrow> rt_uint32_t \<Rightarrow> 'a sched_state_scheme
    \<Rightarrow> 'a sched_state_scheme option" where
  "start_wait_timer t time s =
     (if 0 < sint time then
        do { (r, s) \<leftarrow> rt_timer_start (ThreadTimer t) (snd (rt_timer_control (ThreadTimer t) 0 time s));
             Some s }
      else Some s)"

text \<open>Suspend on a list, start the timer, schedule: from the check of availability to the switch.\<close>

definition ipc_wait :: "lhead \<Rightarrow> tid \<Rightarrow> rt_uint8_t \<Rightarrow> rt_uint32_t \<Rightarrow> 'a sched_state_scheme
    \<Rightarrow> 'a sched_state_scheme option" where
  "ipc_wait l t flag time s =
     do { s \<leftarrow> start_wait_timer t time (rt_ipc_list_suspend l t flag s); rt_schedule s }"

text \<open>Waking the first thread of a list, if there is one, and rescheduling: the end of many calls.\<close>

definition wake_first :: "lhead \<Rightarrow> 'a sched_state_scheme \<Rightarrow> 'a sched_state_scheme option" where
  "wake_first l s =
     (if tlists s l \<noteq> [] then do { s \<leftarrow> rt_ipc_list_resume l s; rt_schedule s } else Some s)"

text \<open>The time left after a wake-up: the subtraction wraps in unsigned arithmetic and is read as signed.\<close>

definition remaining_time :: "rt_uint32_t \<Rightarrow> rt_tick_t \<Rightarrow> 'a sched_state_scheme \<Rightarrow> rt_uint32_t" where
  "remaining_time timeout tick_delta s =
     (if 0 < sint timeout then
        (let timeout = timeout - (rt_tick_get s - tick_delta) in if sint timeout < 0 then 0 else timeout)
      else timeout)"

subsection \<open>Suspending on a list\<close>

definition wait_list :: "lhead \<Rightarrow> bool" where
  "wait_list l \<longleftrightarrow> list_stat l = THREAD_SUSPEND"

definition enqueue :: "(tid \<Rightarrow> nat) \<Rightarrow> rt_uint8_t \<Rightarrow> tid \<Rightarrow> tid list \<Rightarrow> tid list" where
  "enqueue prio flag t xs =
     (if flag = IPC_FLAG_PRIO
      then takeWhile (\<lambda>u. prio u \<le> prio t) xs @ t # dropWhile (\<lambda>u. prio u \<le> prio t) xs
      else xs @ [t])"

lemma insert_before_found:
  assumes "find P xs = Some u" "distinct xs"
  shows "insert_before u t xs = takeWhile (\<lambda>x. \<not> P x) xs @ t # dropWhile (\<lambda>x. \<not> P x) xs"
  using assms by (induction xs) (auto split: if_splits simp: find_Some_iff)

lemma find_None_while: "find P xs = None \<Longrightarrow> takeWhile (\<lambda>x. \<not> P x) xs = xs \<and> dropWhile (\<lambda>x. \<not> P x) xs = []"
  by (auto simp: find_None_iff)

lemma ipc_list_suspend_eq:
  assumes k: "kinv s" and r: "stat (threads s t) = THREAD_READY" and f: "flag = 0 \<or> flag = 1"
  shows "rt_ipc_list_suspend l t flag s = s\<lparr>threads := (threads s)(t := (threads s t)\<lparr>stat := THREAD_SUSPEND\<rparr>),
    tlists := (list_unlink t (tlists s))(l := enqueue (\<lambda>u. current_priority (threads s u)) flag t (list_unlink t (tlists s) l)),
    rt_thread_ready_priority_group := group_without t s\<rparr>"
proof -
  let ?L = "list_unlink t (tlists s)" and ?pr = "\<lambda>u. current_priority (threads s u)"
  have ok: "store_ok ?L" using sched_ok_D(1)[OF kinvD(4)[OF k]] by (rule store_ok_unlink)
  define s1 where "s1 = snd (rt_thread_suspend t s)"
  have s1: "s1 = s\<lparr>threads := (threads s)(t := (threads s t)\<lparr>stat := THREAD_SUSPEND\<rparr>), tlists := ?L,
      rt_thread_ready_priority_group := group_without t s\<rparr>"
    by (simp add: s1_def rt_thread_suspend_ready[OF r])
  have pr: "current_priority (threads s1 u) = ?pr u" for u by (simp add: s1)
  have L: "tlists s1 = ?L" by (simp add: s1)
  have step: "rt_ipc_list_suspend l t flag s = upd_tlists (\<lambda>L. L(l := enqueue ?pr flag t (L l))) s1"
  proof (cases "find (\<lambda>u. ?pr t < ?pr u) (?L l)")
    case None
    have e: "enqueue ?pr flag t (?L l) = ?L l @ [t]"
      using find_None_while[OF None] by (simp add: enqueue_def not_less)
    have "rt_ipc_list_suspend l t flag s = upd_tlists (list_push_back l t) s1"
      using f None unfolding rt_ipc_list_suspend_def s1_def[symmetric] Let_def pr L by auto
    then show ?thesis by (simp only: upd_tlists_def list_push_back_def L e)
  next
    case (Some u)
    then have u: "u \<in> set (?L l)" by (auto simp: find_Some_iff)
    have "list_place_before u t ?L = ?L(l := insert_before u t (?L l))"
      using list_place_before_in[OF ok u] .
    moreover have "insert_before u t (?L l) = enqueue ?pr 1 t (?L l)"
      using insert_before_found[OF Some, of t] ok by (simp add: enqueue_def not_less store_ok_def)
    moreover have "rt_ipc_list_suspend l t flag s
        = (if flag = 0 then upd_tlists (list_push_back l t) s1 else upd_tlists (list_place_before u t) s1)"
      using f Some unfolding rt_ipc_list_suspend_def s1_def[symmetric] Let_def pr L by auto
    moreover have "enqueue ?pr 0 t (?L l) = ?L l @ [t]" by (simp add: enqueue_def)
    ultimately show ?thesis using f by (auto simp: upd_tlists_def list_push_back_def L)
  qed
  then show ?thesis by (simp add: upd_tlists_def L) (simp add: s1)
qed

lemma set_enqueue [simp]: "set (enqueue prio flag t xs) = insert t (set xs)"
  by (auto simp: enqueue_def dest: set_takeWhileD set_dropWhileD)
     (metis Un_iff set_append takeWhile_dropWhile_id)

lemma enqueue_Nil [simp]: "enqueue prio flag t [] = [t]"
  by (simp add: enqueue_def)

lemma distinct_enqueue: "distinct xs \<Longrightarrow> t \<notin> set xs \<Longrightarrow> distinct (enqueue prio flag t xs)"
proof -
  assume d: "distinct xs" "t \<notin> set xs"
  let ?P = "\<lambda>u. prio u \<le> prio t"
  have "distinct (takeWhile ?P xs @ dropWhile ?P xs)" using d(1) by simp
  moreover have "t \<notin> set (takeWhile ?P xs)" "t \<notin> set (dropWhile ?P xs)"
    using d(2) by (auto dest: set_takeWhileD set_dropWhileD)
  ultimately show ?thesis using d by (auto simp: enqueue_def simp del: takeWhile_dropWhile_id)
qed

text \<open>Thread \<open>t\<close> suspended on the list \<open>l\<close>, which then holds the threads \<open>q\<close>.\<close>

definition suspended_on :: "lhead \<Rightarrow> tid \<Rightarrow> tid list \<Rightarrow> 'a sched_state_scheme \<Rightarrow> 'a sched_state_scheme" where
  "suspended_on l t q s = s\<lparr>threads := (threads s)(t := (threads s t)\<lparr>stat := THREAD_SUSPEND\<rparr>),
     tlists := (list_unlink t (tlists s))(l := q), rt_thread_ready_priority_group := group_without t s\<rparr>"

definition queued :: "tid \<Rightarrow> tid list \<Rightarrow> tid list \<Rightarrow> bool" where
  "queued t ws q \<longleftrightarrow> distinct q \<and> set q = insert t (set ws)"

lemma ready_not_waiting:
  "kinv s \<Longrightarrow> stat (threads s t) = THREAD_READY \<Longrightarrow> wait_list l \<Longrightarrow> t \<notin> set (tlists s l)"
  using sched_ok_D(2)[OF kinvD(4), of s t l] by (auto simp: wait_list_def)

lemma suspended_on_kinv:
  assumes k: "kinv s" and r: "stat (threads s t) = THREAD_READY" and l: "wait_list l" and q: "queued t (tlists s l) q"
  shows "kinv (suspended_on l t q s)"
proof -
  note D = kinvD[OF k]
  let ?L = "list_unlink t (tlists s)" and ?th = "(threads s)(t := (threads s t)\<lparr>stat := THREAD_SUSPEND\<rparr>)"
  have ok: "sched_ok ?th ?L (group_without t s)"
    using D(5)[of t] r by (intro sched_ok_group_without D(1)) auto
  have un: "unlinked t ?L" by simp
  have q': "distinct q" "set q = insert t (set (?L l))"
    using q ready_not_waiting[OF k r l] by (auto simp: queued_def list_unlink_def)
  have "store_ok (?L(l := q))"
    using sched_ok_D(1)[OF ok] q'(1) by (rule store_ok_upd[where n = t]) (use q' in \<open>auto simp: list_unlink_def\<close>)
  then have "sched_ok ?th (?L(l := q)) (group_without t s)"
    using l q' by (intro sched_ok_enqueue[OF ok un, of l]) (auto simp: wait_list_def)
  then show ?thesis unfolding suspended_on_def using D(6,7,8)[of t] r by (intro kinv_thread[OF k]) auto
qed

lemma queued_enqueue: "distinct ws \<Longrightarrow> t \<notin> set ws \<Longrightarrow> queued t ws (enqueue prio flag t ws)"
  using distinct_enqueue by (simp add: queued_def)

lemma ipc_list_suspend_on:
  assumes k: "kinv s" and r: "stat (threads s t) = THREAD_READY" and f: "flag = 0 \<or> flag = 1" and l: "wait_list l"
  shows "rt_ipc_list_suspend l t flag s
    = suspended_on l t (enqueue (\<lambda>u. current_priority (threads s u)) flag t (tlists s l)) s"
  using ready_not_waiting[OF k r l] unfolding ipc_list_suspend_eq[OF k r f] by (simp add: suspended_on_def list_unlink_def)

subsection \<open>What blocking and waking leave alone\<close>

text \<open>
  \<open>kframe s s'\<close>: the two states differ in threads, thread lists, timers and the flags of the
  timers of threads at most. In particular the tick, the heap, the scheduler lock, the headers
  of the other objects and everything a component adds to the record are the same.
\<close>

definition timers_of :: "(ptr \<Rightarrow> 'b) \<Rightarrow> (ptr \<Rightarrow> 'b) \<Rightarrow> ptr \<Rightarrow> 'b" where
  "timers_of f g p = (case p of At a \<Rightarrow> g p | ThreadTimer t \<Rightarrow> f p)"

lemma timers_of_simps [simp]:
  "timers_of f f = f" "timers_of f (timers_of g h) = timers_of f h"
  "timers_of f (g(ThreadTimer t := x)) = timers_of f g" "timers_of f g (At a) = g (At a)"
  by (auto simp: timers_of_def fun_eq_iff split: ptr.splits)

definition kernel_as :: "'a sched_state_scheme \<Rightarrow> 'a sched_state_scheme \<Rightarrow> 'a sched_state_scheme" where
  "kernel_as s s' = s'\<lparr>threads := threads s, tlists := tlists s,
     rt_thread_ready_priority_group := rt_thread_ready_priority_group s, timers := timers_of (timers s) (timers s'),
     objs := timers_of (objs s) (objs s'), rt_timer_list := rt_timer_list s, random_nr := random_nr s,
     rt_current_priority := rt_current_priority s, rt_current_thread := rt_current_thread s\<rparr>"

definition kframe :: "'a sched_state_scheme \<Rightarrow> 'a sched_state_scheme \<Rightarrow> bool" where
  "kframe s s' \<longleftrightarrow> kernel_as s s' = s"

lemma kframe_refl [simp]: "kframe s s"
  by (simp add: kframe_def kernel_as_def)

lemma kframe_trans:
  assumes "kframe s s'" "kframe s' s''"
  shows "kframe s s''"
proof -
  have "kernel_as s s'' = kernel_as s (kernel_as s' s'')" by (simp add: kernel_as_def)
  also have "\<dots> = s" using assms by (simp add: kframe_def)
  finally show ?thesis by (simp add: kframe_def)
qed

lemma kframe_upd:
  assumes "kframe s s'"
  shows "kframe s (s'\<lparr>threads := th\<rparr>)" "kframe s (s'\<lparr>tlists := L\<rparr>)"
    "kframe s (s'\<lparr>rt_thread_ready_priority_group := g\<rparr>)"
    "kframe s (s'\<lparr>timers := (timers s')(ThreadTimer t := x)\<rparr>)"
    "kframe s (s'\<lparr>objs := (objs s')(ThreadTimer t := y)\<rparr>)" "kframe s (s'\<lparr>rt_timer_list := rows\<rparr>)"
    "kframe s (s'\<lparr>random_nr := n\<rparr>)" "kframe s (s'\<lparr>rt_current_priority := p\<rparr>)"
    "kframe s (s'\<lparr>rt_current_thread := c\<rparr>)"
  using assms by (simp_all add: kframe_def kernel_as_def)

lemma kframeD:
  assumes "kframe s s'"
  shows "rt_tick s' = rt_tick s" "rt_scheduler_lock_nest s' = rt_scheduler_lock_nest s"
    "rt_interrupt_nest s' = rt_interrupt_nest s" "object_list s' = object_list s" "mdata s' = mdata s"
    "errno s' = errno s" "blk s' = blk s" "objs s' (At a) = objs s (At a)"
proof -
  note A = arg_cong[OF assms[unfolded kframe_def]]
  show "rt_tick s' = rt_tick s" using A[of rt_tick] by (simp add: kernel_as_def)
  show "rt_scheduler_lock_nest s' = rt_scheduler_lock_nest s"
    using A[of rt_scheduler_lock_nest] by (simp add: kernel_as_def)
  show "rt_interrupt_nest s' = rt_interrupt_nest s" using A[of rt_interrupt_nest] by (simp add: kernel_as_def)
  show "object_list s' = object_list s" using A[of object_list] by (simp add: kernel_as_def)
  show "mdata s' = mdata s" using A[of mdata] by (simp add: kernel_as_def)
  show "errno s' = errno s" using A[of errno] by (simp add: kernel_as_def)
  show "blk s' = blk s" using A[of blk] by (simp add: kernel_as_def)
  show "objs s' (At a) = objs s (At a)" using A[of "\<lambda>s. objs s (At a)"] by (simp add: kernel_as_def)
qed

lemma rt_schedule_kframe: "rt_schedule s = Some s' \<Longrightarrow> kframe s s'"
  using rt_schedule_frame by (metis kframe_refl kframe_upd(8,9))

lemma upd_thread_kframe [simp]: "kframe s (upd_thread t f s)" "kframe s (upd_tlists h s)"
  by (simp_all add: upd_thread_def upd_tlists_def kframe_upd)

lemma suspend_kframe: "kframe s (snd (rt_thread_suspend t s))"
  by (simp add: rt_thread_suspend_def remove_thread_eq upd_thread_def kframe_upd)

lemma timer_stop_kframe: "kframe s (snd (rt_timer_stop (ThreadTimer t) s))"
  by (simp add: rt_timer_stop_def rt_timer_remove_def upd_obj_def kframe_def kernel_as_def)

lemma resume_kframe: "kframe s (snd (rt_thread_resume t s))"
proof -
  have "kframe s (snd (rt_timer_stop (ThreadTimer t) (upd_tlists (list_unlink t) s)))"
    using kframe_trans[OF upd_thread_kframe(2) timer_stop_kframe] .
  then show ?thesis by (simp add: rt_thread_resume_def insert_thread_eq Let_def kframe_upd)
qed

lemma timer_start_kframe: "rt_timer_start (ThreadTimer t) s = Some (r, s') \<Longrightarrow> kframe s s'"
  by (auto simp: rt_timer_start_def upd_timer_def upd_obj_def Let_def RT_ASSERT_def kframe_def kernel_as_def
      split: if_splits)

lemma timer_control_kframe: "kframe s (snd (rt_timer_control (ThreadTimer t) c a s))"
  by (simp add: rt_timer_control_def upd_timer_def upd_obj_def kframe_def kernel_as_def)

lemma list_suspend_kframe: "kframe s (rt_ipc_list_suspend l t flag s)"
  by (auto simp: rt_ipc_list_suspend_def Let_def upd_tlists_def kframe_upd suspend_kframe split: option.splits)

lemma control_kframe: "rt_thread_control t 2 p s = Some (r, s') \<Longrightarrow> kframe s s'"
  by (auto simp: rt_thread_control_def Let_def insert_thread_eq remove_thread_eq upd_thread_def kframe_upd
      split: if_splits bind_splits)

subsection \<open>Waiting\<close>

definition legal_time :: "rt_uint32_t \<Rightarrow> bool" where
  "legal_time time \<longleftrightarrow> sint time \<le> 0 \<or> time < RT_TICK_HALF"

lemma start_wait_timer_ok:
  assumes k: "kinv s" and t: "stat (threads s t) = THREAD_SUSPEND"
    and off: "o_flag (objs s (ThreadTimer t)) AND TIMER_ACTIVATED = 0" and time: "legal_time time"
  shows "\<exists>s'. start_wait_timer t time s = Some s' \<and> kinv s' \<and> kframe s s' \<and> threads s' = threads s
    \<and> tlists s' = tlists s \<and> rt_current_thread s' = rt_current_thread s"
proof (cases "0 < sint time")
  case True
  define s0 where "s0 = snd (rt_timer_control (ThreadTimer t) 0 time s)"
  have k0: "kinv s0" unfolding s0_def using k by (rule set_time_kinv)
  have f: "threads s0 = threads s" "tlists s0 = tlists s" "objs s0 = objs s" "rt_current_thread s0 = rt_current_thread s"
    "timer_init_tick (timers s0 (ThreadTimer t)) = time"
    by (simp_all add: s0_def rt_timer_control_def upd_timer_def)
  obtain s' where "rt_timer_start (ThreadTimer t) s0 = Some (RT_EOK, s')" "kinv s'" "threads s' = threads s0"
    "tlists s' = tlists s0" "rt_current_thread s' = rt_current_thread s0"
    using start_thread_timer_kinv[OF k0, of t] t off time True f by (auto simp: legal_time_def)
  moreover have "kframe s s'"
    using kframe_trans[OF timer_control_kframe timer_start_kframe] calculation(1) by (metis s0_def)
  ultimately show ?thesis using True f by (auto simp: start_wait_timer_def simp flip: s0_def)
qed (use k in \<open>simp add: start_wait_timer_def\<close>)

text \<open>The state in which the waiting thread calls the scheduler.\<close>

lemma suspended_on_wait:
  assumes k: "kinv s" and r: "stat (threads s t) = THREAD_READY" and l: "wait_list l" and q: "queued t (tlists s l) q"
    and time: "legal_time time"
  shows "\<exists>s1. start_wait_timer t time (suspended_on l t q s) = Some s1 \<and> kinv s1 \<and> kframe s s1
    \<and> threads s1 = (threads s)(t := (threads s t)\<lparr>stat := THREAD_SUSPEND\<rparr>)
    \<and> tlists s1 = (list_unlink t (tlists s))(l := q) \<and> rt_current_thread s1 = rt_current_thread s"
proof -
  define s0 where "s0 = suspended_on l t q s"
  have k0: "kinv s0" unfolding s0_def by (rule suspended_on_kinv[OF k r l q])
  have off: "o_flag (objs s0 (ThreadTimer t)) AND TIMER_ACTIVATED = 0"
    using kinvD(7)[OF k r] by (simp add: s0_def suspended_on_def)
  have f: "kframe s s0" unfolding s0_def suspended_on_def by (simp add: kframe_upd)
  obtain s1 where "start_wait_timer t time s0 = Some s1" "kinv s1" "kframe s0 s1" "threads s1 = threads s0"
    "tlists s1 = tlists s0" "rt_current_thread s1 = rt_current_thread s0"
    using start_wait_timer_ok[OF k0 _ off time] by (auto simp: s0_def suspended_on_def)
  then show ?thesis using kframe_trans[OF f] by (intro exI[of _ s1]) (simp add: s0_def suspended_on_def)
qed

lemma ipc_wait_ok:
  assumes k: "kinv s" and r: "stat (threads s t) = THREAD_READY" and f: "flag = 0 \<or> flag = 1"
    and l: "wait_list l" and time: "legal_time time"
  shows "\<exists>s1. ipc_wait l t flag time s = rt_schedule s1 \<and> kinv s1 \<and> kframe s s1
    \<and> threads s1 = (threads s)(t := (threads s t)\<lparr>stat := THREAD_SUSPEND\<rparr>)
    \<and> tlists s1 = (list_unlink t (tlists s))(l := enqueue (\<lambda>u. current_priority (threads s u)) flag t (tlists s l))
    \<and> rt_current_thread s1 = rt_current_thread s"
proof -
  have "queued t (tlists s l) (enqueue (\<lambda>u. current_priority (threads s u)) flag t (tlists s l))"
    using sched_ok_D(1)[OF kinvD(4)[OF k]] ready_not_waiting[OF k r l] by (intro queued_enqueue) (auto simp: store_ok_def)
  from suspended_on_wait[OF k r l this time] show ?thesis
    by (auto simp: ipc_wait_def ipc_list_suspend_on[OF k r f l])
qed

subsection \<open>Waking\<close>

lemma wait_list_simps [simp]: "wait_list (Suspend a)" "wait_list (SuspendSender a)" "\<not> wait_list (Ready p)" "\<not> wait_list Defunct"
  by (simp_all add: wait_list_def)

lemma waiting_stat: "kinv s \<Longrightarrow> wait_list l \<Longrightarrow> t \<in> set (tlists s l) \<Longrightarrow> stat (threads s t) = THREAD_SUSPEND"
  using sched_ok_D(2)[OF kinvD(4)] by (metis wait_list_def)

lemma waiting_distinct: "kinv s \<Longrightarrow> distinct (tlists s l)"
  using sched_ok_D(1)[OF kinvD(4)] unfolding store_ok_def by blast

lemma waiting_once: "kinv s \<Longrightarrow> t \<in> set (tlists s l) \<Longrightarrow> t \<in> set (tlists s m) \<Longrightarrow> l = m"
  using store_ok_same_list[OF sched_ok_D(1)[OF kinvD(4)]] by metis

text \<open>What waking a suspended thread does to the lists of waiting threads.\<close>

lemma resume_waiting:
  assumes k: "kinv s" and t: "t \<in> set (tlists s l)" and l: "wait_list l"
  defines "s' \<equiv> snd (rt_thread_resume t s)"
  shows "kinv s'" "kframe s s'" "threads s' = (threads s)(t := (threads s t)\<lparr>stat := THREAD_READY\<rparr>)"
    "tlists s' l = removeAll t (tlists s l)" "wait_list m \<Longrightarrow> m \<noteq> l \<Longrightarrow> tlists s' m = tlists s m"
    "rt_current_thread s' = rt_current_thread s" "fst (rt_thread_resume t s) = RT_EOK"
proof -
  note st = waiting_stat[OF k l t]
  note E = rt_thread_resume_effect[OF st]
  show "kinv s'" unfolding s'_def by (rule resume_kinv[OF k])
  show "kframe s s'" unfolding s'_def by (rule resume_kframe)
  show "threads s' = (threads s)(t := (threads s t)\<lparr>stat := THREAD_READY\<rparr>)"
    "rt_current_thread s' = rt_current_thread s" "fst (rt_thread_resume t s) = RT_EOK"
    unfolding s'_def by (rule E)+
  have "l \<noteq> Ready p" for p using l by auto
  then show "tlists s' l = removeAll t (tlists s l)"
    unfolding s'_def E(3) by (simp add: list_push_back_def list_unlink_def)
  show "tlists s' m = tlists s m" if "wait_list m" "m \<noteq> l"
  proof -
    have "t \<notin> set (tlists s m)" using waiting_once[OF k t] that(2) by blast
    moreover have "m \<noteq> Ready p" for p using that(1) by auto
    ultimately show ?thesis unfolding s'_def E(3) by (simp add: list_push_back_def list_unlink_def)
  qed
qed

lemma ipc_list_resume_ok:
  assumes k: "kinv s" and l: "wait_list l" and q: "tlists s l = t # ts"
  shows "\<exists>s'. rt_ipc_list_resume l s = Some s' \<and> kinv s' \<and> kframe s s'
    \<and> threads s' = (threads s)(t := (threads s t)\<lparr>stat := THREAD_READY\<rparr>)
    \<and> tlists s' l = ts \<and> (\<forall>m. wait_list m \<and> m \<noteq> l \<longrightarrow> tlists s' m = tlists s m)
    \<and> rt_current_thread s' = rt_current_thread s"
proof -
  have "t \<in> set (tlists s l)" "t \<notin> set ts" using q waiting_distinct[OF k, of l] by auto
  then show ?thesis using resume_waiting[OF k _ l, of t] q by (simp add: rt_ipc_list_resume_def)
qed

text \<open>The error field of a thread is not part of the invariant.\<close>

lemma kinv_cong:
  assumes "kinv s" "tlists s' = tlists s" "rt_thread_ready_priority_group s' = rt_thread_ready_priority_group s"
    "rt_timer_list s' = rt_timer_list s" "timers s' = timers s" "objs s' = objs s" "rt_tick s' = rt_tick s"
    "\<And>u. stat (threads s' u) = stat (threads s u)"
    "\<And>u. current_priority (threads s' u) = current_priority (threads s u)"
    "\<And>u. number_mask (threads s' u) = number_mask (threads s u)"
  shows "kinv s'"
proof -
  have "timer_inv s'"
    using kinvD(2)[OF assms(1)] assms(4-7) by (intro timer_inv_cong[of s s']) (auto simp: active_timers_def)
  moreover have "sched_inv s'"
    using sched_ok_same[OF kinvD(4)[OF assms(1)], of "threads s'"] assms(2,3,8-10) by (simp add: sched_inv_def)
  ultimately show ?thesis
    using kinvD(3)[OF assms(1)] assms by (simp add: kinv_def thread_timers_def active_timers_def)
qed

lemma error_kinv [simp]: "kinv (upd_thread t (\<lambda>th. th\<lparr>thread_error := e\<rparr>) s) = kinv s"
proof
  assume "kinv (upd_thread t (\<lambda>th. th\<lparr>thread_error := e\<rparr>) s)"
  then show "kinv s" by (rule kinv_cong) (auto simp: upd_thread_def)
next
  assume "kinv s"
  then show "kinv (upd_thread t (\<lambda>th. th\<lparr>thread_error := e\<rparr>) s)" by (rule kinv_cong) (auto simp: upd_thread_def)
qed

lemma ipc_list_resume_all_ok:
  fixes s :: "'a sched_state_scheme"
  assumes "kinv s" "wait_list l"
  shows "\<exists>s'. rt_ipc_list_resume_all l s = Some s' \<and> kinv s' \<and> kframe s s' \<and> tlists s' l = []
    \<and> (\<forall>t. threads s' t = (if t \<in> set (tlists s l)
             then (threads s t)\<lparr>thread_error := - RT_ERROR, stat := THREAD_READY\<rparr> else threads s t))
    \<and> (\<forall>m. wait_list m \<and> m \<noteq> l \<longrightarrow> tlists s' m = tlists s m)
    \<and> rt_current_thread s' = rt_current_thread s"
  using assms
proof (induction "length (tlists s l)" arbitrary: s)
  case 0
  then show ?case by (subst rt_ipc_list_resume_all.simps) simp
next
  case (Suc n)
  then obtain t ts where q: "tlists s l = t # ts" by (metis length_Suc_conv)
  define s1 where "s1 = upd_thread t (\<lambda>th. th\<lparr>thread_error := - RT_ERROR\<rparr>) s"
  define s2 where "s2 = snd (rt_thread_resume t s1)"
  have s1: "kinv s1" "tlists s1 = tlists s" "rt_current_thread s1 = rt_current_thread s" "kframe s s1"
    "threads s1 = (threads s)(t := (threads s t)\<lparr>thread_error := - RT_ERROR\<rparr>)"
    using Suc.prems(1) by (simp_all add: s1_def) (simp_all add: upd_thread_def)
  note R = resume_waiting[OF s1(1) _ Suc.prems(2), of t, folded s2_def, unfolded s1(2) q]
  have nt: "t \<notin> set ts" using waiting_distinct[OF Suc.prems(1), of l] q by simp
  then have q2: "tlists s2 l = ts" using R(4) by simp
  have "length ts = n" using Suc.hyps(2) q by simp
  then obtain s' where s': "rt_ipc_list_resume_all l s2 = Some s'" "kinv s'" "kframe s2 s'" "tlists s' l = []"
    "\<forall>u. threads s' u = (if u \<in> set ts then (threads s2 u)\<lparr>thread_error := - RT_ERROR, stat := THREAD_READY\<rparr> else threads s2 u)"
    "\<forall>m. wait_list m \<and> m \<noteq> l \<longrightarrow> tlists s' m = tlists s2 m" "rt_current_thread s' = rt_current_thread s2"
    using Suc.hyps(1)[of s2] R(1) Suc.prems(2) q2 by auto
  have "rt_ipc_list_resume_all l s = Some s'"
    using s'(1) q by (subst rt_ipc_list_resume_all.simps) (simp add: s2_def s1_def)
  moreover have "kframe s s'" using kframe_trans[OF s1(4) kframe_trans[OF _ s'(3)]] R(2) by simp
  moreover have "tlists s2 m = tlists s m" if "wait_list m" "m \<noteq> l" for m using R(5)[OF _ that] by simp
  ultimately show ?case using s' R(3,6) s1(3,5) nt q by (intro exI[of _ s']) auto
qed

subsection \<open>The running thread blocks or carries on\<close>

text \<open>
  \<open>running s t\<close>: the thread \<open>t\<close> executes in thread context with the scheduler unlocked, and every
  stack passes the overflow check. \<open>waits_as s s' l q\<close>: the list \<open>l\<close> has become \<open>q\<close> and the other
  lists of waiting threads are as before.
\<close>

definition running :: "'a sched_state_scheme \<Rightarrow> tid \<Rightarrow> bool" where
  "running s t \<longleftrightarrow> kinv s \<and> rt_current_thread s = Some t \<and> ready s t \<and> rt_scheduler_lock_nest s = 0
     \<and> rt_interrupt_nest s = 0 \<and> (\<forall>u. stack_ok (threads s u))"

definition waits_as :: "'a sched_state_scheme \<Rightarrow> 'a sched_state_scheme \<Rightarrow> lhead \<Rightarrow> tid list \<Rightarrow> bool" where
  "waits_as s s' l q \<longleftrightarrow> (\<forall>m. wait_list m \<longrightarrow> tlists s' m = (if m = l then q else tlists s m))"

lemma runningD:
  assumes "running s t"
  shows "kinv s" "rt_current_thread s = Some t" "ready s t" "stat (threads s t) = THREAD_READY"
    "rt_scheduler_lock_nest s = 0" "rt_interrupt_nest s = 0" "stack_ok (threads s u)"
    "RT_DEBUG_IN_THREAD_CONTEXT s = Some s" "rt_thread_self s = Some t"
  using assms
  by (simp_all add: running_def ready_def RT_DEBUG_IN_THREAD_CONTEXT_def rt_thread_self_def RT_ASSERT_def)

lemma running_error [simp]: "running (upd_thread t (\<lambda>th. th\<lparr>thread_error := e\<rparr>) s) u = running s u"
  unfolding running_def error_kinv
  by (auto simp: upd_thread_def ready_def stack_ok_def)

lemma upd_thread_error_simps [simp]:
  "tlists (upd_thread t f s) = tlists s" "objs (upd_thread t f s) = objs s"
  "rt_current_thread (upd_thread t f s) = rt_current_thread s"
  "threads (upd_thread t f s) = (threads s)(t := f (threads s t))"
  by (simp_all add: upd_thread_def)

lemma wait_switches:
  assumes r: "running s t" and i: "ready s i" "i \<noteq> t" and l: "wait_list l" and q: "queued t (tlists s l) q"
    and time: "legal_time time"
  shows "\<exists>s1 s' u. start_wait_timer t time (suspended_on l t q s) = Some s1 \<and> rt_schedule s1 = Some s' \<and> kinv s'
    \<and> kframe s s' \<and> threads s' = (threads s)(t := (threads s t)\<lparr>stat := THREAD_SUSPEND\<rparr>)
    \<and> waits_as s s' l q \<and> rt_current_thread s' = Some u \<and> u \<noteq> t \<and> running s' u"
proof -
  note D = runningD[OF r]
  obtain s1 where s1: "start_wait_timer t time (suspended_on l t q s) = Some s1" "kinv s1" "kframe s s1"
    "threads s1 = (threads s)(t := (threads s t)\<lparr>stat := THREAD_SUSPEND\<rparr>)"
    "tlists s1 = (list_unlink t (tlists s))(l := q)" "rt_current_thread s1 = Some t"
    using suspended_on_wait[OF D(1,4) l q time] D(2) by auto
  have lock: "rt_scheduler_lock_nest s1 = 0" "rt_interrupt_nest s1 = 0"
    using kframeD[OF s1(3)] D(5,6) by auto
  have st: "stack_ok (threads s1 u)" for u using D(7)[of u] by (auto simp: s1(4) stack_ok_def)
  have ri: "ready s1 i" "\<not> ready s1 t" using i by (simp_all add: ready_def s1(4))
  obtain s' where s': "rt_schedule s1 = Some s'"
    using rt_schedule_returns[OF kinvD(1)[OF s1(2)] ri(1)] s1(6) st by auto
  obtain h u where u: "highest_ready s1 = Some (h, u)" "rt_current_thread s' = Some u"
    using rt_schedule_selects[OF kinvD(1)[OF s1(2)] lock(1) s'] by blast
  have ru: "ready s1 u" using highest_ready_Some(3)[OF kinvD(1)[OF s1(2)] u(1)] .
  have fr: "threads s' = threads s1" "tlists s' = tlists s1" "rt_scheduler_lock_nest s' = 0" "rt_interrupt_nest s' = 0"
    using rt_schedule_frame[OF s'] lock by auto
  have "waits_as s s' l q" unfolding waits_as_def using ready_not_waiting[OF D(1,4)]
    by (auto simp: fr s1(5) list_unlink_def)
  moreover have "u \<noteq> t" using ru ri(2) by auto
  moreover have k': "kinv s'" by (rule rt_schedule_kinv[OF s1(2) s'])
  moreover have "running s' u" using k' u(2) ru fr st by (simp add: running_def ready_def)
  moreover have "kframe s s'" using kframe_trans[OF s1(3) rt_schedule_kframe[OF s']] .
  ultimately show ?thesis using s1(1) s' u(2) fr(1) s1(4) by auto
qed

lemma ipc_wait_blocks:
  assumes r: "running s t" and i: "ready s i" "i \<noteq> t" and f: "flag = 0 \<or> flag = 1"
    and l: "wait_list l" and time: "legal_time time"
  shows "\<exists>s' u. ipc_wait l t flag time s = Some s' \<and> kinv s' \<and> kframe s s'
    \<and> threads s' = (threads s)(t := (threads s t)\<lparr>stat := THREAD_SUSPEND\<rparr>)
    \<and> waits_as s s' l (enqueue (\<lambda>v. current_priority (threads s v)) flag t (tlists s l))
    \<and> rt_current_thread s' = Some u \<and> u \<noteq> t \<and> running s' u"
proof -
  note D = runningD[OF r]
  have "queued t (tlists s l) (enqueue (\<lambda>v. current_priority (threads s v)) flag t (tlists s l))"
    using waiting_distinct[OF D(1)] ready_not_waiting[OF D(1,4) l] by (intro queued_enqueue) auto
  from wait_switches[OF r i l this time] show ?thesis
    by (auto simp: ipc_wait_def ipc_list_suspend_on[OF D(1,4) f l])
qed

text \<open>After threads were woken the scheduler switches to one of the highest priority.\<close>

lemma running_schedule:
  assumes r: "running s t"
  shows "\<exists>s' u. rt_schedule s = Some s' \<and> kframe s s' \<and> threads s' = threads s \<and> tlists s' = tlists s
    \<and> rt_current_thread s' = Some u \<and> running s' u
    \<and> (\<forall>v. ready s v \<longrightarrow> current_priority (threads s u) \<le> current_priority (threads s v))"
proof -
  note D = runningD[OF r]
  obtain s' where s': "rt_schedule s = Some s'"
    using rt_schedule_returns[OF kinvD(1)[OF D(1)] D(3)] D(2,7) by auto
  obtain h u where u: "highest_ready s = Some (h, u)" "rt_current_thread s' = Some u"
    using rt_schedule_selects[OF kinvD(1)[OF D(1)] D(5) s'] by blast
  note H = highest_ready_Some[OF kinvD(1)[OF D(1)] u(1)]
  have fr: "threads s' = threads s" "tlists s' = tlists s" "rt_scheduler_lock_nest s' = 0" "rt_interrupt_nest s' = 0"
    using rt_schedule_frame[OF s'] D(5,6) by auto
  moreover have "running s' u"
    using rt_schedule_kinv[OF D(1) s'] u(2) H(3) fr D(7) by (simp add: running_def ready_def)
  ultimately show ?thesis using s' u(2) H(4,6) rt_schedule_kframe[OF s'] by auto
qed

lemma running_kframe:
  assumes "running s t" "kinv s'" "kframe s s'" "ready s' t" "rt_current_thread s' = Some t"
    "\<And>u. sp (threads s' u) = sp (threads s u) \<and> stack_addr (threads s' u) = stack_addr (threads s u)
      \<and> stack_size (threads s' u) = stack_size (threads s u)"
  shows "running s' t"
  using assms kframeD(2,3)[OF assms(3)] by (simp add: running_def stack_ok_def)

subsection \<open>Waking one thread and rescheduling\<close>

lemma wake_first_ok:
  assumes r: "running s t" and l: "wait_list l"
  shows "\<exists>s' u. wake_first l s = Some s' \<and> running s' u \<and> kframe s s' \<and> waits_as s s' l (tl (tlists s l))
    \<and> (\<forall>w. tlists s l \<noteq> [] \<and> w = hd (tlists s l)
         \<longrightarrow> ready s' w \<and> current_priority (threads s' u) \<le> current_priority (threads s' w))"
proof (cases "tlists s l")
  case Nil
  then show ?thesis using r by (intro exI[of _ s] exI[of _ t]) (simp add: wake_first_def waits_as_def)
next
  case (Cons w ws)
  note D = runningD[OF r]
  obtain s1 where s1: "rt_ipc_list_resume l s = Some s1" "kinv s1" "kframe s s1"
    "threads s1 = (threads s)(w := (threads s w)\<lparr>stat := THREAD_READY\<rparr>)" "tlists s1 l = ws"
    "\<forall>m. wait_list m \<and> m \<noteq> l \<longrightarrow> tlists s1 m = tlists s m" "rt_current_thread s1 = Some t"
    using ipc_list_resume_ok[OF D(1) l Cons] D(2) by auto
  have r1: "running s1 t"
    using D(3) s1 by (intro running_kframe[OF r]) (auto simp: ready_def)
  obtain s' u where s': "rt_schedule s1 = Some s'" "kframe s1 s'" "threads s' = threads s1" "tlists s' = tlists s1"
    "running s' u" "\<forall>v. ready s1 v \<longrightarrow> current_priority (threads s1 u) \<le> current_priority (threads s1 v)"
    using running_schedule[OF r1] by blast
  have "ready s1 w" by (simp add: ready_def s1(4))
  then have "ready s' w" "current_priority (threads s' u) \<le> current_priority (threads s' w)"
    using s'(3,6) by (simp_all add: ready_def)
  moreover have "waits_as s s' l ws" using s'(4) s1(5,6) by (simp add: waits_as_def)
  ultimately show ?thesis using Cons s1(1) s'(1,5) kframe_trans[OF s1(3) s'(2)]
    by (intro exI[of _ s'] exI[of _ u]) (simp add: wake_first_def)
qed

text \<open>A thread that finds nothing available and may wait.\<close>

lemma thread_waits:
  assumes r: "running s t" and i: "ready s i" "i \<noteq> t" and time: "legal_time time" and l: "wait_list l"
    and fl: "flag = IPC_FLAG_FIFO \<or> flag = IPC_FLAG_PRIO"
  defines "s0 \<equiv> upd_thread t (\<lambda>th. th\<lparr>thread_error := RT_EOK\<rparr>) s"
  shows "\<exists>s' u. ipc_wait l t flag time s0 = Some s' \<and> rt_current_thread s' = Some u \<and> u \<noteq> t \<and> running s' u \<and> kframe s s'
    \<and> waits_as s s' l (enqueue (\<lambda>v. current_priority (threads s v)) flag t (tlists s l))"
proof -
  have s0: "running s0 t" "ready s0 i" "tlists s0 = tlists s" "kframe s s0"
    "current_priority (threads s0 v) = current_priority (threads s v)" for v
    using r i by (simp_all add: s0_def ready_def)
  obtain s' u where s': "ipc_wait l t flag time s0 = Some s'" "kframe s0 s'"
    "waits_as s0 s' l (enqueue (\<lambda>v. current_priority (threads s0 v)) flag t (tlists s0 l))"
    "rt_current_thread s' = Some u" "u \<noteq> t" "running s' u"
    using ipc_wait_blocks[OF s0(1,2) i(2) fl l time] by auto
  then show ?thesis using s0(3,5) kframe_trans[OF s0(4) s'(2)]
    by (intro exI[of _ s'] exI[of _ u]) (simp add: waits_as_def)
qed

lemma context_reset:
  "running s t \<Longrightarrow> RT_DEBUG_IN_THREAD_CONTEXT (upd_thread t (\<lambda>th. th\<lparr>thread_error := e\<rparr>) s)
     = Some (upd_thread t (\<lambda>th. th\<lparr>thread_error := e\<rparr>) s)"
  by (rule runningD(8)[of _ t]) simp

lemma sint_neg_iff: "sint (w :: 32 word) < 0 \<longleftrightarrow> 2 ^ 31 \<le> unat w"
proof -
  have "sint w < 0 \<longleftrightarrow> bit (uint w) 31"
    by (simp add: sint_uint signed_take_bit_negative_iff)
  also have "\<dots> \<longleftrightarrow> 2 ^ 31 \<le> uint w"
  proof -
    have "uint w < 2 ^ 32" using uint_lt2p[of w] by simp
    then have "uint w div 2 ^ 31 < 2" "0 \<le> uint w div 2 ^ 31" by (auto intro: div_int_pos_iff[THEN iffD2])
    then have "odd (uint w div 2 ^ 31) \<longleftrightarrow> uint w div 2 ^ 31 = 1" by (cases "uint w div 2 ^ 31 = 0") auto
    also have "\<dots> \<longleftrightarrow> 2 ^ 31 \<le> uint w" using \<open>uint w < 2 ^ 32\<close> by auto
    finally show ?thesis by (simp add: bit_iff_odd)
  qed
  also have "\<dots> \<longleftrightarrow> 2 ^ 31 \<le> unat w"
    using word_le_def[of "0x80000000" w] word_le_nat_alt[of "0x80000000" w] by simp
  finally show ?thesis .
qed

subsection \<open>The data a component adds\<close>

text \<open>
  Each kernel component keeps one structure per object, by address, in a field it adds to the
  state. The kernel operations above leave it alone, and a change of it is invisible to them.
\<close>

locale kernel_field =
  fixes get_field :: "'a sched_state_scheme \<Rightarrow> nat \<Rightarrow> 'v"
    and upd_field :: "nat \<Rightarrow> ('v \<Rightarrow> 'v) \<Rightarrow> 'a sched_state_scheme \<Rightarrow> 'a sched_state_scheme"
  assumes get_upd: "get_field (upd_field a f s) b = (if b = a then f (get_field s a) else get_field s b)"
    and get_kernel_as: "get_field (kernel_as s s') = get_field s'"
    and upd_threads: "threads (upd_field a f s) = threads s"
    and upd_tlists: "tlists (upd_field a f s) = tlists s"
    and upd_group: "rt_thread_ready_priority_group (upd_field a f s) = rt_thread_ready_priority_group s"
    and upd_rows: "rt_timer_list (upd_field a f s) = rt_timer_list s"
    and upd_timers: "timers (upd_field a f s) = timers s"
    and upd_objs: "objs (upd_field a f s) = objs s"
    and upd_tick: "rt_tick (upd_field a f s) = rt_tick s"
    and upd_current: "rt_current_thread (upd_field a f s) = rt_current_thread s"
    and upd_lock: "rt_scheduler_lock_nest (upd_field a f s) = rt_scheduler_lock_nest s"
    and upd_nest: "rt_interrupt_nest (upd_field a f s) = rt_interrupt_nest s"
begin

lemmas upd_simps = upd_threads upd_tlists upd_objs upd_tick upd_current upd_lock upd_nest

lemma get_kframe: "kframe s s' \<Longrightarrow> get_field s' = get_field s"
  unfolding kframe_def using get_kernel_as by metis

lemma upd_kinv: "kinv s \<Longrightarrow> kinv (upd_field a f s)"
  by (rule kinv_cong)
     (simp_all add: upd_threads upd_tlists upd_group upd_rows upd_timers upd_objs upd_tick)

lemma upd_running: "running s t \<Longrightarrow> running (upd_field a f s) t"
  by (simp add: running_def ready_def upd_kinv upd_simps)

lemma upd_waits: "waits_as (upd_field a f s) s' l q = waits_as s s' l q"
  by (simp add: waits_as_def upd_tlists)

end

subsection \<open>A state for the witnesses\<close>

text \<open>The state \<open>demo_sched\<close> of the scheduler with any further fields.\<close>

definition demo_kernel :: "'a \<Rightarrow> 'a sched_state_scheme" where
  "demo_kernel m = sched_state.extend demo_sched m"

lemma demo_kernel_simps [simp]:
  "threads (demo_kernel m) = demo_threads" "tlists (demo_kernel m) = demo_tlists" "objs (demo_kernel m) = demo_obj"
  "rt_current_thread (demo_kernel m) = Some 1" "rt_scheduler_lock_nest (demo_kernel m) = 0"
  "rt_interrupt_nest (demo_kernel m) = 0" "rt_timer_list (demo_kernel m) = [[]]" "timers (demo_kernel m) = demo_timer"
  "rt_thread_ready_priority_group (demo_kernel m) = 0x100400" "sched_state.more (demo_kernel m) = m"
  by (simp_all add: demo_kernel_def sched_state.defs demo_sched_def)

lemma demo_kernel_kinv: "kinv (demo_kernel m)"
proof -
  have "sched_inv (demo_kernel m)"
    using demo_sched_inv by (simp add: sched_inv_def demo_sched_def)
  moreover have "timer_inv (demo_kernel m)" by (simp add: timer_inv_def rows_ok_def active_timers_def)
  moreover have "thread_timers (demo_kernel m)"
    by (simp add: thread_timers_def active_timers_def timer_of_thread_def demo_timer_def demo_obj_def)
  ultimately show ?thesis by (simp add: kinv_def)
qed

lemma demo_kernel_running: "running (demo_kernel m) 1" "ready (demo_kernel m) 2"
  using demo_kernel_kinv[of m] demo_stacks
  by (simp_all add: running_def ready_def) (simp_all add: demo_sched_def demo_threads_def demo_thread_def)

end
