(* ===== verification/Semaphore.thy ===== *)
theory Semaphore
  imports Ipc
begin

text \<open>
  Semaphores, \<^verbatim>\<open>src/ipc.c\<close>. The value is the 16-bit field of the structure; the threads waiting
  for the semaphore at address \<open>a\<close> are the list \<open>Suspend a\<close>.
\<close>

record sem_state = sched_state +
  sems :: "nat \<Rightarrow> rt_uint16_t"

definition upd_sem :: "nat \<Rightarrow> (rt_uint16_t \<Rightarrow> rt_uint16_t) \<Rightarrow> 'a sem_state_scheme \<Rightarrow> 'a sem_state_scheme" where
  "upd_sem a f s = s\<lparr>sems := (sems s)(a := f (sems s a))\<rparr>"

definition rt_sem_init :: "nat \<Rightarrow> 8 word list \<Rightarrow> rt_uint32_t \<Rightarrow> rt_uint8_t \<Rightarrow> 'a sem_state_scheme
    \<Rightarrow> 'a sem_state_scheme option" where
  "rt_sem_init sem name val flag s =
     do { s \<leftarrow> rt_object_init (At sem) Class_Semaphore name s;
          let s = rt_ipc_object_init (Suspend sem) s;
          let s = upd_sem sem (\<lambda>_. ucast val) s;
          Some (upd_obj (At sem) (\<lambda>ob. ob\<lparr>o_flag := flag\<rparr>) s) }"

definition rt_sem_detach :: "nat \<Rightarrow> 'a sem_state_scheme \<Rightarrow> 'a sem_state_scheme option" where
  "rt_sem_detach sem s =
     do { s \<leftarrow> rt_ipc_list_resume_all (Suspend sem) s;
          Some (rt_object_detach (At sem) s) }"

definition rt_sem_create :: "8 word list \<Rightarrow> rt_uint32_t \<Rightarrow> rt_uint8_t \<Rightarrow> 'a sem_state_scheme
    \<Rightarrow> (nat option \<times> 'a sem_state_scheme) option" where
  "rt_sem_create name val flag s =
     do { s \<leftarrow> RT_DEBUG_NOT_IN_INTERRUPT s;
          (a, s) \<leftarrow> rt_object_allocate Class_Semaphore name s;
          case a of
            None \<Rightarrow> Some (None, s)
          | Some sem \<Rightarrow>
              (let s = rt_ipc_object_init (Suspend sem) s;
                   s = upd_sem sem (\<lambda>_. ucast val) s
               in Some (Some sem, upd_obj (At sem) (\<lambda>ob. ob\<lparr>o_flag := flag\<rparr>) s)) }"

definition rt_sem_delete :: "nat \<Rightarrow> 'a sem_state_scheme \<Rightarrow> 'a sem_state_scheme option" where
  "rt_sem_delete sem s =
     do { s \<leftarrow> RT_DEBUG_NOT_IN_INTERRUPT s;
          s \<leftarrow> rt_ipc_list_resume_all (Suspend sem) s;
          rt_object_delete sem s }"

text \<open>The end of \<open>rt_sem_take\<close>, after the thread was switched back to.\<close>

definition rt_sem_take_end :: "tid \<Rightarrow> 'a sem_state_scheme \<Rightarrow> rt_err_t" where
  "rt_sem_take_end t s =
     (if thread_error (threads s t) \<noteq> RT_EOK then thread_error (threads s t) else RT_EOK)"

definition rt_sem_take :: "nat \<Rightarrow> rt_uint32_t \<Rightarrow> 'a sem_state_scheme
    \<Rightarrow> ((rt_err_t, tid) outcome \<times> 'a sem_state_scheme) option" where
  "rt_sem_take sem time s =
     (if sems s sem > 0 then Some (Ret RT_EOK, upd_sem sem (\<lambda>v. v - 1) s)
      else if time = 0 then Some (Ret (- RT_ETIMEOUT), s)
      else
        do { s \<leftarrow> RT_DEBUG_IN_THREAD_CONTEXT s;
             t \<leftarrow> rt_thread_self s;
             let s = upd_thread t (\<lambda>th. th\<lparr>thread_error := RT_EOK\<rparr>) s;
             s \<leftarrow> ipc_wait (Suspend sem) t (o_flag (objs s (At sem))) time s;
             Some (if rt_current_thread s = Some t then (Ret (rt_sem_take_end t s), s) else (Wait t, s)) })"

definition rt_sem_trytake :: "nat \<Rightarrow> 'a sem_state_scheme
    \<Rightarrow> ((rt_err_t, tid) outcome \<times> 'a sem_state_scheme) option" where
  "rt_sem_trytake sem s = rt_sem_take sem 0 s"

definition rt_sem_release :: "nat \<Rightarrow> 'a sem_state_scheme \<Rightarrow> (rt_err_t \<times> 'a sem_state_scheme) option" where
  "rt_sem_release sem s =
     (if tlists s (Suspend sem) \<noteq> [] then
        do { s \<leftarrow> rt_ipc_list_resume (Suspend sem) s;
             s \<leftarrow> rt_schedule s;
             Some (RT_EOK, s) }
      else Some (RT_EOK, upd_sem sem (\<lambda>v. v + 1) s))"

definition rt_sem_control :: "nat \<Rightarrow> rt_uint8_t \<Rightarrow> rt_uint32_t \<Rightarrow> 'a sem_state_scheme
    \<Rightarrow> (rt_err_t \<times> 'a sem_state_scheme) option" where
  "rt_sem_control sem cmd arg s =
     (if cmd = 1 then
        do { s \<leftarrow> rt_ipc_list_resume_all (Suspend sem) s;
             let s = upd_sem sem (\<lambda>_. ucast arg) s;
             s \<leftarrow> rt_schedule s;
             Some (RT_EOK, s) }
      else Some (- RT_ERROR, s))"

subsection \<open>The counting semaphore it implements\<close>

text \<open>
  The specification: a number of permits and a queue of waiting threads. A permit is taken, or
  the caller is told there is none, or it joins the queue; a release goes to the first thread
  of the queue, or adds a permit.
\<close>

datatype take_result = Taken | No_permit | Queued

definition sem_take_spec :: "(tid \<Rightarrow> nat) \<Rightarrow> rt_uint8_t \<Rightarrow> tid \<Rightarrow> bool \<Rightarrow> nat \<times> tid list
    \<Rightarrow> take_result \<times> nat \<times> tid list" where
  "sem_take_spec prio flag t may_wait a =
     (case a of (n, q) \<Rightarrow>
        if 0 < n then (Taken, n - 1, q)
        else if may_wait then (Queued, 0, enqueue prio flag t q)
        else (No_permit, 0, q))"

fun sem_release_spec :: "nat \<times> tid list \<Rightarrow> tid option \<times> nat \<times> tid list" where
  "sem_release_spec (n, []) = (None, n + 1, [])"
| "sem_release_spec (n, t # q) = (Some t, n, q)"

definition sem_view :: "nat \<Rightarrow> 'a sem_state_scheme \<Rightarrow> nat \<times> tid list" where
  "sem_view sem s = (unat (sems s sem), tlists s (Suspend sem))"

definition take_outcome :: "tid \<Rightarrow> take_result \<Rightarrow> (rt_err_t, tid) outcome" where
  "take_outcome t r = (case r of Taken \<Rightarrow> Ret RT_EOK | No_permit \<Rightarrow> Ret (- RT_ETIMEOUT) | Queued \<Rightarrow> Wait t)"

text \<open>No thread waits while there are permits.\<close>

definition sem_ok :: "'a sem_state_scheme \<Rightarrow> nat \<Rightarrow> bool" where
  "sem_ok s sem \<longleftrightarrow> (sems s sem = 0 \<or> tlists s (Suspend sem) = [])
     \<and> (o_flag (objs s (At sem)) = IPC_FLAG_FIFO \<or> o_flag (objs s (At sem)) = IPC_FLAG_PRIO)"

interpretation sem_field: kernel_field sems upd_sem
  by unfold_locales (simp_all add: upd_sem_def kernel_as_def)

lemma unat_succ: "v \<noteq> - 1 \<Longrightarrow> unat (v + 1) = unat v + 1"
  using unatSuc[of v] by (simp add: add.commute eq_neg_iff_add_eq_0)

lemma uint16_max: "(- 1 :: 16 word) = 0xffff"
  by code_simp

subsection \<open>Properties\<close>

lemma sem_take_blocks:
  assumes "running s t" "ready s i" "i \<noteq> t" "sem_ok s sem" "legal_time time" and z: "sems s sem = 0" and time: "time \<noteq> 0"
  shows "\<exists>s' u. rt_sem_take sem time s = Some (Wait t, s') \<and> running s' u \<and> u \<noteq> t \<and> sem_ok s' sem \<and> sems s' sem = 0
    \<and> tlists s' (Suspend sem) = enqueue (\<lambda>v. current_priority (threads s v)) (o_flag (objs s (At sem))) t (tlists s (Suspend sem))"
proof -
  let ?flag = "o_flag (objs s (At sem))"
  define s1 where "s1 = upd_thread t (\<lambda>th. th\<lparr>thread_error := RT_EOK\<rparr>) s"
  have s1: "running s1 t" "ready s1 i" "tlists s1 = tlists s" "sems s1 = sems s"
    "objs s1 = objs s" "current_priority (threads s1 v) = current_priority (threads s v)" for v
    using assms(1-3) by (simp_all add: s1_def ready_def) (simp add: upd_thread_def)
  obtain s' u where s': "ipc_wait (Suspend sem) t ?flag time s1 = Some s'" "kframe s1 s'"
    "waits_as s1 s' (Suspend sem) (enqueue (\<lambda>v. current_priority (threads s v)) ?flag t (tlists s (Suspend sem)))"
    "rt_current_thread s' = Some u" "u \<noteq> t" "running s' u"
    using ipc_wait_blocks[OF s1(1,2) assms(3) _ _ assms(5), of ?flag "Suspend sem"] assms(4) s1(3,6)
    by (auto simp: sem_ok_def)
  have v: "sems s' sem = 0" using sem_field.get_kframe[OF s'(2)] s1(4) z by simp
  have "rt_sem_take sem time s = Some (Wait t, s')"
    using z time s'(1,4,5) runningD(8,9)[OF assms(1)] s1(5) by (simp add: rt_sem_take_def flip: s1_def)
  moreover have "tlists s' (Suspend sem) = enqueue (\<lambda>v. current_priority (threads s v)) ?flag t (tlists s (Suspend sem))"
    using s'(3) by (simp add: waits_as_def)
  moreover have "sem_ok s' sem" using v assms(4) kframeD(8)[OF s'(2)] s1(5) by (simp add: sem_ok_def)
  ultimately show ?thesis using s'(5,6) v by blast
qed

text \<open>C10: For a running thread \<open>rt_sem_take\<close> is the take of the counting semaphore: with a permit it
  returns at once, without one it returns a timeout if asked not to wait, and otherwise the
  thread joins the queue (in arrival or priority order, as the flag says) and another thread
  runs. The kernel invariant and the invariant of the semaphore are kept.\<close>

theorem rt_sem_take_refines:
  assumes "running s t" "ready s i" "i \<noteq> t" "sem_ok s sem" "legal_time time"
  shows "\<exists>s' u r. rt_sem_take sem time s = Some (take_outcome t r, s') \<and> running s' u \<and> sem_ok s' sem
    \<and> sem_take_spec (\<lambda>v. current_priority (threads s v)) (o_flag (objs s (At sem))) t (time \<noteq> 0) (sem_view sem s)
        = (r, sem_view sem s')
    \<and> (u = t \<longleftrightarrow> r \<noteq> Queued)"
proof (cases "sems s sem > 0")
  case True
  have "unat (sems s sem - 1) = unat (sems s sem) - 1" using True by (simp add: unat_minus_one word_gt_0)
  moreover have "0 < unat (sems s sem)" using True by (simp add: unat_gt_0 word_gt_0)
  ultimately have "sem_take_spec (\<lambda>v. current_priority (threads s v)) (o_flag (objs s (At sem))) t (time \<noteq> 0)
      (sem_view sem s) = (Taken, sem_view sem (upd_sem sem (\<lambda>v. v - 1) s))"
    by (simp add: sem_take_spec_def sem_view_def sem_field.get_upd sem_field.upd_simps)
  moreover have "sem_ok (upd_sem sem (\<lambda>v. v - 1) s) sem"
    using assms(4) True by (auto simp: sem_ok_def sem_field.upd_simps)
  ultimately show ?thesis
    using True sem_field.upd_running[OF assms(1)]
    by (intro exI[of _ "upd_sem sem (\<lambda>v. v - 1) s"] exI[of _ t] exI[of _ Taken])
       (simp add: rt_sem_take_def take_outcome_def)
next
  case False
  then have z: "sems s sem = 0" by (simp add: word_gt_0)
  show ?thesis
  proof (cases "time = 0")
    case True
    then show ?thesis using z assms(1,4)
      by (intro exI[of _ s] exI[of _ t] exI[of _ No_permit])
         (simp add: rt_sem_take_def take_outcome_def sem_take_spec_def sem_view_def)
  next
    case time: False
    obtain s' u where "rt_sem_take sem time s = Some (Wait t, s')" "running s' u" "u \<noteq> t" "sem_ok s' sem" "sems s' sem = 0"
      "tlists s' (Suspend sem) = enqueue (\<lambda>v. current_priority (threads s v)) (o_flag (objs s (At sem))) t (tlists s (Suspend sem))"
      using sem_take_blocks[OF assms z time] by blast
    then show ?thesis using time z
      by (intro exI[of _ s'] exI[of _ u] exI[of _ Queued])
         (simp add: take_outcome_def sem_take_spec_def sem_view_def)
  qed
qed

text \<open>C11: Releasing a semaphore is the release of the counting semaphore as long as the 16-bit
  value does not overflow: the first waiting thread, if there is one, becomes ready and the
  value is left alone, otherwise there is one permit more; afterwards a thread of the highest
  priority among the ready ones runs.\<close>

theorem rt_sem_release_refines:
  assumes "running s t" "sem_ok s sem" "sems s sem \<noteq> 0xffff"
  shows "\<exists>s' u w. rt_sem_release sem s = Some (RT_EOK, s') \<and> running s' u \<and> sem_ok s' sem
    \<and> sem_release_spec (sem_view sem s) = (w, sem_view sem s')
    \<and> (case w of None \<Rightarrow> u = t
        | Some v \<Rightarrow> \<not> ready s v \<and> ready s' v \<and> current_priority (threads s' u) \<le> current_priority (threads s' v))"
proof (cases "tlists s (Suspend sem)")
  case Nil
  have "unat (sems s sem + 1) = unat (sems s sem) + 1"
    using assms(3) by (intro unat_succ) (simp add: uint16_max)
  then show ?thesis using Nil sem_field.upd_running[OF assms(1)] assms(2)
    by (intro exI[of _ "upd_sem sem (\<lambda>v. v + 1) s"] exI[of _ t] exI[of _ None])
       (simp add: rt_sem_release_def sem_view_def sem_field.get_upd sem_field.upd_simps sem_ok_def)
next
  case (Cons w ws)
  note D = runningD[OF assms(1)]
  obtain s1 where s1: "rt_ipc_list_resume (Suspend sem) s = Some s1" "kinv s1" "kframe s s1"
    "threads s1 = (threads s)(w := (threads s w)\<lparr>stat := THREAD_READY\<rparr>)" "tlists s1 (Suspend sem) = ws"
    "rt_current_thread s1 = Some t"
    using ipc_list_resume_ok[OF D(1) _ Cons] D(2) by auto
  have w: "\<not> ready s w" using waiting_stat[OF D(1), of "Suspend sem" w] Cons by (simp add: ready_def)
  have r1: "running s1 t"
    using D(3) s1 by (intro running_kframe[OF assms(1)]) (auto simp: ready_def)
  obtain s' u where s': "rt_schedule s1 = Some s'" "kframe s1 s'" "threads s' = threads s1" "tlists s' = tlists s1"
    "running s' u" "\<forall>v. ready s1 v \<longrightarrow> current_priority (threads s1 u) \<le> current_priority (threads s1 v)"
    using running_schedule[OF r1] by blast
  have f: "kframe s s'" using kframe_trans[OF s1(3) s'(2)] .
  have v: "sems s' = sems s" using sem_field.get_kframe[OF f] .
  have z: "sems s sem = 0" using assms(2) Cons by (simp add: sem_ok_def)
  have "ready s1 w" by (simp add: ready_def s1(4))
  then have "ready s' w" "current_priority (threads s' u) \<le> current_priority (threads s' w)"
    using s'(3,6) by (simp_all add: ready_def)
  then show ?thesis using s1(1,5) s'(1,4,5) v z w assms(2) Cons kframeD(8)[OF f]
    by (intro exI[of _ s'] exI[of _ u] exI[of _ "Some w"]) (simp add: rt_sem_release_def sem_view_def sem_ok_def)
qed

text \<open>C28: Resetting or detaching a semaphore makes every thread that waits for it ready, with the
  error \<open>-RT_ERROR\<close> as the result of its take, and leaves the queue empty; a reset sets the value
  to the low 16 bits of the argument.\<close>

theorem sem_reset_and_detach_wake_all:
  assumes "running s t"
  shows "\<exists>s1 s2 u. rt_sem_control sem 1 n s = Some (RT_EOK, s1) \<and> running s1 u \<and> sem_view sem s1 = (unat n mod 2 ^ 16, [])
    \<and> rt_sem_detach sem s = Some s2 \<and> kinv s2 \<and> sem_view sem s2 = (unat (sems s sem), [])
    \<and> (\<forall>v \<in> set (tlists s (Suspend sem)). ready s1 v \<and> rt_sem_take_end v s1 = - RT_ERROR
         \<and> ready s2 v \<and> rt_sem_take_end v s2 = - RT_ERROR)"
proof -
  note D = runningD[OF assms]
  obtain s0 where s0: "rt_ipc_list_resume_all (Suspend sem) s = Some s0" "kinv s0" "kframe s s0"
    "tlists s0 (Suspend sem) = []" "rt_current_thread s0 = Some t"
    "\<And>v. threads s0 v = (if v \<in> set (tlists s (Suspend sem))
       then (threads s v)\<lparr>thread_error := - RT_ERROR, stat := THREAD_READY\<rparr> else threads s v)"
    using ipc_list_resume_all_ok[OF D(1), of "Suspend sem"] D(2) by auto
  have "running s0 t"
    using D(3) s0 by (intro running_kframe[OF assms s0(2,3)]) (auto simp: ready_def)
  from sem_field.upd_running[OF this, of sem "\<lambda>_. ucast n"]
  have r0: "running (upd_sem sem (\<lambda>_. ucast n) s0) t" .
  obtain s1 u where s1: "rt_schedule (upd_sem sem (\<lambda>_. ucast n) s0) = Some s1" "running s1 u"
    "kframe (upd_sem sem (\<lambda>_. ucast n) s0) s1" "threads s1 = threads s0" "tlists s1 = tlists s0"
    using running_schedule[OF r0] by (auto simp: sem_field.upd_simps)
  have "sems s1 sem = ucast n" using sem_field.get_kframe[OF s1(3)] by (simp add: sem_field.get_upd)
  moreover have "unat (ucast n :: rt_uint16_t) = unat n mod 2 ^ 16" by (simp add: unsigned_ucast_eq take_bit_eq_mod)
  ultimately have "sem_view sem s1 = (unat n mod 2 ^ 16, [])" using s0(4) s1(5) by (simp add: sem_view_def)
  moreover have "rt_sem_control sem 1 n s = Some (RT_EOK, s1)" using s0(1) s1(1) by (simp add: rt_sem_control_def)
  moreover have "sem_view sem (rt_object_detach (At sem) s0) = (unat (sems s sem), [])"
    using s0(4) sem_field.get_kframe[OF s0(3)] by (simp add: sem_view_def rt_object_detach_def)
  ultimately show ?thesis using s0 s1(2,4)
    by (intro exI[of _ s1] exI[of _ "rt_object_detach (At sem) s0"] exI[of _ u])
       (simp add: rt_sem_detach_def ready_def rt_sem_take_end_def rt_object_detach_def)
qed

text \<open>With the scheduler locked a take that finds no permit puts the calling thread into the
  queue but cannot switch away: it returns success at once, with no permit taken, while the
  thread that goes on running is suspended.\<close>

theorem sem_take_under_scheduler_lock:
  assumes "kinv s" "rt_current_thread s = Some t" "ready s t" "rt_interrupt_nest s = 0"
    "rt_scheduler_lock_nest s \<noteq> 0" "sem_ok s sem" "sems s sem = 0" "time \<noteq> 0" "legal_time time"
  shows "\<exists>s'. rt_sem_take sem time s = Some (Ret RT_EOK, s') \<and> sems s' sem = 0
    \<and> rt_current_thread s' = Some t \<and> \<not> ready s' t \<and> t \<in> set (tlists s' (Suspend sem))"
proof -
  define s0 where "s0 = upd_thread t (\<lambda>th. th\<lparr>thread_error := RT_EOK\<rparr>) s"
  have s0: "kinv s0" "stat (threads s0 t) = THREAD_READY" "sems s0 = sems s" "objs s0 = objs s" "rt_current_thread s0 = Some t"
    "thread_error (threads s0 t) = RT_EOK" "rt_scheduler_lock_nest s0 = rt_scheduler_lock_nest s"
    using assms(1-3) by (simp_all add: s0_def ready_def) (simp_all add: upd_thread_def)
  have w: "wait_list (Suspend sem)" "o_flag (objs s (At sem)) = 0 \<or> o_flag (objs s (At sem)) = 1"
    using assms(6) by (auto simp: sem_ok_def)
  obtain s1 where s1: "ipc_wait (Suspend sem) t (o_flag (objs s (At sem))) time s0 = rt_schedule s1" "kframe s0 s1"
    "threads s1 = (threads s0)(t := (threads s0 t)\<lparr>stat := THREAD_SUSPEND\<rparr>)"
    "t \<in> set (tlists s1 (Suspend sem))" "rt_current_thread s1 = Some t"
    using ipc_wait_ok[OF s0(1,2) w(2,1) assms(9)] s0(5) by auto
  have "rt_schedule s1 = Some s1"
    using kframeD(2)[OF s1(2)] s0(7) assms(5) by (intro rt_schedule_locked) simp
  moreover have "RT_DEBUG_IN_THREAD_CONTEXT s = Some s"
    using assms(2,4) by (simp add: RT_DEBUG_IN_THREAD_CONTEXT_def rt_thread_self_def RT_ASSERT_def)
  ultimately have "rt_sem_take sem time s = Some (Ret (rt_sem_take_end t s1), s1)"
    using assms(2,7,8) s1(1,5) s0(4)
    by (simp add: rt_sem_take_def rt_thread_self_def flip: s0_def)
  then show ?thesis using s1(3-5) s0(3,6) sem_field.get_kframe[OF s1(2)] assms(7)
    by (simp add: rt_sem_take_end_def ready_def)
qed

subsection \<open>Witnesses\<close>

definition demo_sem :: "rt_uint16_t \<Rightarrow> sem_state" where
  "demo_sem v = demo_kernel \<lparr>sems = (\<lambda>_. v)\<rparr>"

lemma demo_sem_facts [simp]:
  "running (demo_sem v) 1" "ready (demo_sem v) 2" "sems (demo_sem v) a = v" "sem_ok (demo_sem v) a"
  "sem_view a (demo_sem v) = (unat v, [])" "rt_current_thread (demo_sem v) = Some 1"
  using demo_kernel_running
  by (simp_all add: demo_sem_def sem_ok_def sem_view_def)
     (simp_all add: demo_kernel_def sched_state.defs demo_tlists_def demo_sched_def demo_obj_def)

lemma sem_view_demo: "tlists (demo_sem v) (Suspend a) = []"
  using demo_sem_facts(5)[of a v] by (simp add: sem_view_def)

lemma legal_time_5: "legal_time 5"
  by (simp add: legal_time_def)

theorem rt_sem_take_refines_witness:
  "\<exists>s' u. rt_sem_take 7 5 (demo_sem 0) = Some (Wait 1, s') \<and> running s' u \<and> u \<noteq> 1 \<and> sem_view 7 s' = (0, [1])"
  using rt_sem_take_refines[OF demo_sem_facts(1,2) _ demo_sem_facts(4) legal_time_5, of 7 0]
  by (auto simp: sem_take_spec_def take_outcome_def)

theorem rt_sem_release_refines_witness:
  "\<exists>s'. rt_sem_release 7 (demo_sem 3) = Some (RT_EOK, s') \<and> sem_view 7 s' = (4, [])"
  using rt_sem_release_refines[OF demo_sem_facts(1,4), of 3 7] by auto

text \<open>Thread 1 has gone to sleep on the semaphore, which is then reset.\<close>

theorem sem_reset_and_detach_wake_all_witness:
  "\<exists>s0 s1. rt_sem_take 7 5 (demo_sem 0) = Some (Wait 1, s0) \<and> sem_view 7 s0 = (0, [1])
     \<and> rt_sem_control 7 1 0x10002 s0 = Some (RT_EOK, s1) \<and> sem_view 7 s1 = (2, [])
     \<and> ready s1 1 \<and> rt_sem_take_end 1 s1 = - RT_ERROR"
proof -
  obtain s0 u where s0: "rt_sem_take 7 5 (demo_sem 0) = Some (Wait 1, s0)" "running s0 u" "sems s0 7 = 0" "tlists s0 (Suspend 7) = [1]"
    using sem_take_blocks[OF demo_sem_facts(1,2) _ demo_sem_facts(4) legal_time_5, of 0 7] sem_view_demo by auto
  then show ?thesis using sem_reset_and_detach_wake_all[OF s0(2), where sem = 7 and n = "0x10002"]
    by (auto simp: sem_view_def)
qed

theorem sem_take_under_scheduler_lock_witness:
  "\<exists>s'. rt_sem_take 7 5 (demo_sem 0\<lparr>rt_scheduler_lock_nest := 1\<rparr>) = Some (Ret RT_EOK, s') \<and> sems s' 7 = 0
    \<and> rt_current_thread s' = Some 1 \<and> \<not> ready s' 1 \<and> 1 \<in> set (tlists s' (Suspend 7))"
  using sem_take_under_scheduler_lock[of "demo_sem 0\<lparr>rt_scheduler_lock_nest := 1\<rparr>" 1 7 5]
    runningD(1,3,6)[OF demo_sem_facts(1)[of 0]] demo_sem_facts(4)[of 0 7] legal_time_5
  by (simp add: ready_def sem_ok_def)

end
