(* ===== verification/Mutex.thy ===== *)
theory Mutex
  imports Semaphore
begin

text \<open>
  Mutexes with priority inheritance, \<^verbatim>\<open>src/ipc.c\<close>. A mutex counts the nested takes of its owner in
  an 8-bit field; \<^verbatim>\<open>original_priority\<close> is the priority the owner had when it took the mutex.
\<close>

record rt_mutex =
  m_value :: rt_uint16_t
  m_original_priority :: nat
  m_hold :: rt_uint8_t
  m_owner :: "tid option"

record mutex_state = sem_state +
  mutexes :: "nat \<Rightarrow> rt_mutex"

definition upd_mutex :: "nat \<Rightarrow> (rt_mutex \<Rightarrow> rt_mutex) \<Rightarrow> 'a mutex_state_scheme \<Rightarrow> 'a mutex_state_scheme" where
  "upd_mutex a f s = s\<lparr>mutexes := (mutexes s)(a := f (mutexes s a))\<rparr>"

definition rt_mutex_init :: "nat \<Rightarrow> 8 word list \<Rightarrow> rt_uint8_t \<Rightarrow> 'a mutex_state_scheme
    \<Rightarrow> 'a mutex_state_scheme option" where
  "rt_mutex_init mutex name flag s =
     do { s \<leftarrow> rt_object_init (At mutex) Class_Mutex name s;
          let s = rt_ipc_object_init (Suspend mutex) s;
          let s = upd_mutex mutex (\<lambda>m. m\<lparr>m_value := 1, m_owner := None, m_original_priority := 0xff, m_hold := 0\<rparr>) s;
          Some (upd_obj (At mutex) (\<lambda>ob. ob\<lparr>o_flag := flag\<rparr>) s) }"

definition rt_mutex_detach :: "nat \<Rightarrow> 'a mutex_state_scheme \<Rightarrow> 'a mutex_state_scheme option" where
  "rt_mutex_detach mutex s =
     do { s \<leftarrow> rt_ipc_list_resume_all (Suspend mutex) s;
          Some (rt_object_detach (At mutex) s) }"

definition rt_mutex_create :: "8 word list \<Rightarrow> rt_uint8_t \<Rightarrow> 'a mutex_state_scheme
    \<Rightarrow> (nat option \<times> 'a mutex_state_scheme) option" where
  "rt_mutex_create name flag s =
     do { s \<leftarrow> RT_DEBUG_NOT_IN_INTERRUPT s;
          (a, s) \<leftarrow> rt_object_allocate Class_Mutex name s;
          case a of
            None \<Rightarrow> Some (None, s)
          | Some mutex \<Rightarrow>
              (let s = rt_ipc_object_init (Suspend mutex) s;
                   s = upd_mutex mutex (\<lambda>m. m\<lparr>m_value := 1, m_owner := None, m_original_priority := 0xff, m_hold := 0\<rparr>) s
               in Some (Some mutex, upd_obj (At mutex) (\<lambda>ob. ob\<lparr>o_flag := flag\<rparr>) s)) }"

definition rt_mutex_delete :: "nat \<Rightarrow> 'a mutex_state_scheme \<Rightarrow> 'a mutex_state_scheme option" where
  "rt_mutex_delete mutex s =
     do { s \<leftarrow> RT_DEBUG_NOT_IN_INTERRUPT s;
          s \<leftarrow> rt_ipc_list_resume_all (Suspend mutex) s;
          rt_object_delete mutex s }"

definition rt_mutex_take_end :: "tid \<Rightarrow> 'a mutex_state_scheme \<Rightarrow> rt_err_t" where
  "rt_mutex_take_end t s =
     (if thread_error (threads s t) \<noteq> RT_EOK then thread_error (threads s t) else RT_EOK)"

text \<open>The change of the owner's priority before the caller waits.\<close>

definition inherit_priority :: "tid \<Rightarrow> tid \<Rightarrow> 'a mutex_state_scheme \<Rightarrow> 'a mutex_state_scheme option" where
  "inherit_priority t owner s =
     (if current_priority (threads s t) < current_priority (threads s owner)
      then do { (r, s) \<leftarrow> rt_thread_control owner 2 (current_priority (threads s t)) s; Some s }
      else Some s)"

definition rt_mutex_take :: "nat \<Rightarrow> rt_uint32_t \<Rightarrow> 'a mutex_state_scheme
    \<Rightarrow> ((rt_err_t, tid) outcome \<times> 'a mutex_state_scheme) option" where
  "rt_mutex_take mutex time s =
     do { s \<leftarrow> RT_DEBUG_IN_THREAD_CONTEXT s;
          t \<leftarrow> rt_thread_self s;
          let s = upd_thread t (\<lambda>th. th\<lparr>thread_error := RT_EOK\<rparr>) s;
          if m_owner (mutexes s mutex) = Some t then
            Some (Ret RT_EOK, upd_mutex mutex (\<lambda>m. m\<lparr>m_hold := m_hold m + 1\<rparr>) s)
          else if m_value (mutexes s mutex) > 0 then
            Some (Ret RT_EOK, upd_mutex mutex (\<lambda>m. m\<lparr>m_value := m_value m - 1, m_owner := Some t,
              m_original_priority := current_priority (threads s t), m_hold := m_hold m + 1\<rparr>) s)
          else if time = 0 then
            Some (Ret (- RT_ETIMEOUT), upd_thread t (\<lambda>th. th\<lparr>thread_error := - RT_ETIMEOUT\<rparr>) s)
          else
            do { owner \<leftarrow> m_owner (mutexes s mutex);
                 s \<leftarrow> inherit_priority t owner s;
                 s \<leftarrow> ipc_wait (Suspend mutex) t (o_flag (objs s (At mutex))) time s;
                 Some (if rt_current_thread s = Some t then (Ret (rt_mutex_take_end t s), s) else (Wait t, s)) } }"

text \<open>The owner gives the mutex up for good: the part of \<open>rt_mutex_release\<close> for a hold count of zero.\<close>

definition mutex_give_up :: "nat \<Rightarrow> tid \<Rightarrow> 'a mutex_state_scheme
    \<Rightarrow> (rt_err_t \<times> 'a mutex_state_scheme) option" where
  "mutex_give_up mutex t s =
     do { s \<leftarrow> (if m_original_priority (mutexes s mutex) \<noteq> current_priority (threads s t)
                then do { (r, s) \<leftarrow> rt_thread_control t 2 (m_original_priority (mutexes s mutex)) s; Some s }
                else Some s);
          case tlists s (Suspend mutex) of
            w # _ \<Rightarrow>
              do { s \<leftarrow> rt_ipc_list_resume (Suspend mutex)
                     (upd_mutex mutex (\<lambda>m. m\<lparr>m_owner := Some w,
                        m_original_priority := current_priority (threads s w), m_hold := m_hold m + 1\<rparr>) s);
                   s \<leftarrow> rt_schedule s;
                   Some (RT_EOK, s) }
          | [] \<Rightarrow> Some (RT_EOK, upd_mutex mutex (\<lambda>m. m\<lparr>m_value := m_value m + 1, m_owner := None,
                     m_original_priority := 0xff\<rparr>) s) }"

definition rt_mutex_release :: "nat \<Rightarrow> 'a mutex_state_scheme \<Rightarrow> (rt_err_t \<times> 'a mutex_state_scheme) option" where
  "rt_mutex_release mutex s =
     do { s \<leftarrow> RT_DEBUG_IN_THREAD_CONTEXT s;
          t \<leftarrow> rt_thread_self s;
          if m_owner (mutexes s mutex) \<noteq> Some t then
            Some (- RT_ERROR, upd_thread t (\<lambda>th. th\<lparr>thread_error := - RT_ERROR\<rparr>) s)
          else
            (let s = upd_mutex mutex (\<lambda>m. m\<lparr>m_hold := m_hold m - 1\<rparr>) s in
             if m_hold (mutexes s mutex) = 0 then mutex_give_up mutex t s else Some (RT_EOK, s)) }"

definition rt_mutex_control :: "nat \<Rightarrow> rt_uint8_t \<Rightarrow> nat \<Rightarrow> 'a mutex_state_scheme
    \<Rightarrow> rt_err_t \<times> 'a mutex_state_scheme" where
  "rt_mutex_control mutex cmd arg s = (- RT_ERROR, s)"

subsection \<open>The lock it implements\<close>

text \<open>
  The specification: an owner with a count of nested takes, and a queue of waiting threads.
\<close>

type_synonym lock = "tid option \<times> nat \<times> tid list"

definition mutex_take_spec :: "(tid \<Rightarrow> nat) \<Rightarrow> rt_uint8_t \<Rightarrow> tid \<Rightarrow> bool \<Rightarrow> lock \<Rightarrow> take_result \<times> lock" where
  "mutex_take_spec prio flag t may_wait l =
     (case l of
        (None, h, q) \<Rightarrow> (Taken, Some t, 1, q)
      | (Some ow, h, q) \<Rightarrow>
          if ow = t then (Taken, Some t, h + 1, q)
          else if may_wait then (Queued, Some ow, h, enqueue prio flag t q)
          else (No_permit, Some ow, h, q))"

definition mutex_release_spec :: "lock \<Rightarrow> lock" where
  "mutex_release_spec l =
     (case l of (ow, h, q) \<Rightarrow>
        if 1 < h then (ow, h - 1, q)
        else case q of [] \<Rightarrow> (None, 0, []) | w # ws \<Rightarrow> (Some w, 1, ws))"

definition mutex_view :: "nat \<Rightarrow> 'a mutex_state_scheme \<Rightarrow> lock" where
  "mutex_view mutex s = (m_owner (mutexes s mutex), unat (m_hold (mutexes s mutex)), tlists s (Suspend mutex))"

definition mutex_held :: "'a mutex_state_scheme \<Rightarrow> nat \<Rightarrow> tid \<Rightarrow> bool" where
  "mutex_held s mutex ow \<longleftrightarrow>
     (let m = mutexes s mutex in
      m_owner m = Some ow \<and> m_value m = 0 \<and> m_hold m \<noteq> 0
      \<and> (stat (threads s ow) = THREAD_READY \<or> stat (threads s ow) = THREAD_SUSPEND)
      \<and> m_original_priority m < RT_THREAD_PRIORITY_MAX \<and> ow \<notin> set (tlists s (Suspend mutex)))"

definition mutex_free :: "'a mutex_state_scheme \<Rightarrow> nat \<Rightarrow> bool" where
  "mutex_free s mutex \<longleftrightarrow>
     (let m = mutexes s mutex in
      m_owner m = None \<and> m_value m = 1 \<and> m_hold m = 0 \<and> tlists s (Suspend mutex) = [])"

definition mutex_ok :: "'a mutex_state_scheme \<Rightarrow> nat \<Rightarrow> bool" where
  "mutex_ok s mutex \<longleftrightarrow> (mutex_free s mutex \<or> (\<exists>ow. mutex_held s mutex ow))
     \<and> (o_flag (objs s (At mutex)) = IPC_FLAG_FIFO \<or> o_flag (objs s (At mutex)) = IPC_FLAG_PRIO)"

interpretation mutex_field: kernel_field mutexes upd_mutex
  by unfold_locales (simp_all add: upd_mutex_def kernel_as_def)

lemma uint8_max: "(- 1 :: 8 word) = 0xff"
  by code_simp

subsection \<open>Changing the priority of a thread\<close>

lemma change_priority_ok:
  assumes k: "kinv s" and p: "p < RT_THREAD_PRIORITY_MAX"
    and st: "stat (threads s t) = THREAD_READY \<or> stat (threads s t) = THREAD_SUSPEND"
  shows "\<exists>s'. rt_thread_control t 2 p s = Some (RT_EOK, s') \<and> kinv s' \<and> kframe s s'
    \<and> threads s' = (threads s)(t := (threads s t)\<lparr>current_priority := p, number_mask := push_bit p 1\<rparr>)
    \<and> (\<forall>m. wait_list m \<longrightarrow> tlists s' m = tlists s m) \<and> rt_current_thread s' = rt_current_thread s"
proof -
  let ?th = "(threads s)(t := (threads s t)\<lparr>current_priority := p, number_mask := push_bit p 1\<rparr>)"
  have "\<exists>s'. rt_thread_control t 2 p s = Some (RT_EOK, s') \<and> threads s' = ?th
    \<and> (\<forall>m. wait_list m \<longrightarrow> tlists s' m = tlists s m) \<and> rt_current_thread s' = rt_current_thread s"
  proof (cases "stat (threads s t) = THREAD_READY")
    case True
    then have "(threads s t)\<lparr>stat := THREAD_READY\<rparr> = threads s t" by (cases "threads s t") simp
    moreover have "t \<notin> set (tlists s m)" "m \<noteq> Ready p" if "wait_list m" for m
      using waiting_stat[OF k that, of t] True that by auto
    ultimately show ?thesis using True p
      by (auto simp: rt_thread_control_def RT_ASSERT_def insert_thread_eq remove_thread_eq upd_thread_def
          list_push_back_def list_unlink_def fun_eq_iff)
  next
    case False
    then show ?thesis by (simp add: rt_thread_control_def)
  qed
  then show ?thesis using control_priority_kinv[OF k p] control_kframe by blast
qed

lemma enqueue_cong:
  assumes "prio t = prio' t" "\<And>v. v \<in> set q \<Longrightarrow> prio v = prio' v"
  shows "enqueue prio flag t q = enqueue prio' flag t q"
proof -
  have "takeWhile (\<lambda>u. prio u \<le> prio t) q = takeWhile (\<lambda>u. prio' u \<le> prio' t) q"
    "dropWhile (\<lambda>u. prio u \<le> prio t) q = dropWhile (\<lambda>u. prio' u \<le> prio' t) q"
    using assms by (auto intro!: takeWhile_cong dropWhile_cong)
  then show ?thesis by (simp add: enqueue_def)
qed

lemma inherit_priority_ok:
  assumes r: "running s t" and ow: "stat (threads s ow) = THREAD_READY \<or> stat (threads s ow) = THREAD_SUSPEND"
    and ne: "ow \<noteq> t"
  shows "\<exists>s'. inherit_priority t ow s = Some s' \<and> running s' t \<and> kframe s s'
    \<and> (\<forall>m. wait_list m \<longrightarrow> tlists s' m = tlists s m)
    \<and> (\<forall>v. stat (threads s' v) = stat (threads s v) \<and> current_priority (threads s' v)
         = (if v = ow then min (current_priority (threads s ow)) (current_priority (threads s t))
            else current_priority (threads s v)))"
proof (cases "current_priority (threads s t) < current_priority (threads s ow)")
  case True
  note D = runningD[OF r]
  have p: "current_priority (threads s t) < RT_THREAD_PRIORITY_MAX"
    using kinvD(5)[OF D(1), of t] D(4) by (simp add: wf_thread_def)
  obtain s' where s': "rt_thread_control ow 2 (current_priority (threads s t)) s = Some (RT_EOK, s')" "kinv s'"
    "kframe s s'" "threads s' = (threads s)(ow := (threads s ow)\<lparr>current_priority := current_priority (threads s t),
       number_mask := push_bit (current_priority (threads s t)) 1\<rparr>)"
    "\<forall>m. wait_list m \<longrightarrow> tlists s' m = tlists s m" "rt_current_thread s' = rt_current_thread s"
    using change_priority_ok[OF D(1) p ow] by blast
  have "running s' t"
    using D(2,3) s'(4,6) by (intro running_kframe[OF r s'(2,3)]) (auto simp: ready_def)
  then show ?thesis using True s' by (intro exI[of _ s']) (simp add: inherit_priority_def)
qed (use r in \<open>simp add: inherit_priority_def\<close>)

subsection \<open>Properties\<close>

lemma mutex_ok_cases:
  assumes "mutex_ok s mutex"
  obtains (free) "mutex_free s mutex" | (held) ow where "mutex_held s mutex ow"
  using assms by (auto simp: mutex_ok_def)

text \<open>The blocking case of a take, from the state in which the error field has been reset.\<close>

lemma mutex_take_blocks:
  assumes r: "running s t" and i: "ready s i" "i \<noteq> t" and ok: "mutex_ok s mutex" and h: "mutex_held s mutex ow" "ow \<noteq> t"
    and time: "legal_time time"
  shows "\<exists>s1 s' u. inherit_priority t ow s = Some s1 \<and> ipc_wait (Suspend mutex) t (o_flag (objs s1 (At mutex))) time s1 = Some s'
    \<and> rt_current_thread s' = Some u \<and> u \<noteq> t \<and> running s' u \<and> mutex_ok s' mutex
    \<and> mutex_view mutex s' = (Some ow, unat (m_hold (mutexes s mutex)),
        enqueue (\<lambda>v. current_priority (threads s v)) (o_flag (objs s (At mutex))) t (tlists s (Suspend mutex)))
    \<and> (\<forall>v. current_priority (threads s' v)
         = (if v = ow then min (current_priority (threads s ow)) (current_priority (threads s t))
            else current_priority (threads s v)))"
proof -
  let ?flag = "o_flag (objs s (At mutex))"
  have alive: "stat (threads s ow) = THREAD_READY \<or> stat (threads s ow) = THREAD_SUSPEND"
    and nw: "ow \<notin> set (tlists s (Suspend mutex))" using h(1) by (auto simp: mutex_held_def Let_def)
  obtain s1 where s1: "inherit_priority t ow s = Some s1" "running s1 t" "kframe s s1"
    "\<And>m. wait_list m \<Longrightarrow> tlists s1 m = tlists s m" "\<And>v. stat (threads s1 v) = stat (threads s v)"
    "\<And>v. current_priority (threads s1 v) = (if v = ow then min (current_priority (threads s ow))
       (current_priority (threads s t)) else current_priority (threads s v))"
    using inherit_priority_ok[OF r alive h(2)] by blast
  have fl: "objs s1 (At mutex) = objs s (At mutex)" by (rule kframeD(8)[OF s1(3)])
  have f: "?flag = 0 \<or> ?flag = 1" using ok by (simp add: mutex_ok_def)
  have r1: "ready s1 i" using i(1) s1(5) by (simp add: ready_def)
  obtain s' u where s': "ipc_wait (Suspend mutex) t ?flag time s1 = Some s'" "kframe s1 s'"
    "threads s' = (threads s1)(t := (threads s1 t)\<lparr>stat := THREAD_SUSPEND\<rparr>)"
    "waits_as s1 s' (Suspend mutex) (enqueue (\<lambda>v. current_priority (threads s1 v)) ?flag t (tlists s1 (Suspend mutex)))"
    "rt_current_thread s' = Some u" "u \<noteq> t" "running s' u"
    using ipc_wait_blocks[OF s1(2) r1 i(2) f _ time, of "Suspend mutex"] by auto
  have q: "enqueue (\<lambda>v. current_priority (threads s1 v)) ?flag t (tlists s (Suspend mutex))
      = enqueue (\<lambda>v. current_priority (threads s v)) ?flag t (tlists s (Suspend mutex))"
    using nw h(2) s1(6) by (intro enqueue_cong) auto
  have m: "mutexes s' = mutexes s" using mutex_field.get_kframe[OF kframe_trans[OF s1(3) s'(2)]] .
  have w: "tlists s' (Suspend mutex) = enqueue (\<lambda>v. current_priority (threads s v)) ?flag t (tlists s (Suspend mutex))"
    using s'(4) q s1(4) by (simp add: waits_as_def)
  have "mutex_held s' mutex ow" using h alive w s'(3) s1(5) m by (simp add: mutex_held_def Let_def)
  moreover have "objs s' (At mutex) = objs s (At mutex)" by (rule kframeD(8)[OF kframe_trans[OF s1(3) s'(2)]])
  ultimately have "mutex_ok s' mutex" using ok by (auto simp: mutex_ok_def)
  moreover have "mutex_view mutex s' = (Some ow, unat (m_hold (mutexes s mutex)), tlists s' (Suspend mutex))"
    using m h(1) by (simp add: mutex_view_def mutex_held_def Let_def)
  ultimately show ?thesis using s1(1,6) s' fl w by auto
qed

text \<open>
  \<open>take_step s t mutex time r s' u\<close>: \<open>rt_mutex_take\<close> did what the lock does, with result \<open>r\<close>, and left
  the thread \<open>u\<close> running.
\<close>

definition take_step :: "'a mutex_state_scheme \<Rightarrow> tid \<Rightarrow> nat \<Rightarrow> rt_uint32_t \<Rightarrow> take_result \<Rightarrow> 'a mutex_state_scheme
    \<Rightarrow> tid \<Rightarrow> bool" where
  "take_step s t mutex time r s' u \<longleftrightarrow>
     rt_mutex_take mutex time s = Some (take_outcome t r, s') \<and> running s' u \<and> mutex_ok s' mutex
     \<and> mutex_take_spec (\<lambda>v. current_priority (threads s v)) (o_flag (objs s (At mutex))) t (time \<noteq> 0)
         (mutex_view mutex s) = (r, mutex_view mutex s')
     \<and> (u = t \<longleftrightarrow> r \<noteq> Queued)
     \<and> (\<forall>v. current_priority (threads s' v)
          = (if r = Queued \<and> m_owner (mutexes s mutex) = Some v
             then min (current_priority (threads s v)) (current_priority (threads s t))
             else current_priority (threads s v)))"

lemma reset_error:
  fixes t :: tid and e :: rt_err_t and s :: "'a mutex_state_scheme"
  defines "s0 \<equiv> upd_thread t (\<lambda>th. th\<lparr>thread_error := e\<rparr>) s"
  shows "tlists s0 = tlists s" "mutexes s0 = mutexes s" "objs s0 = objs s" "ready s0 i = ready s i"
    "current_priority (threads s0 v) = current_priority (threads s v)" "stat (threads s0 v) = stat (threads s v)"
    "running s0 u = running s u" "mutex_ok s0 mutex = mutex_ok s mutex" "mutex_held s0 mutex ow = mutex_held s mutex ow"
proof -
  show 1: "tlists s0 = tlists s" "mutexes s0 = mutexes s" "objs s0 = objs s" "ready s0 i = ready s i"
    and 2: "current_priority (threads s0 v) = current_priority (threads s v)" "stat (threads s0 v) = stat (threads s v)"
    and "running s0 u = running s u" for v
    by (auto simp: s0_def ready_def) (simp add: upd_thread_def)
  show "mutex_held s0 mutex ow = mutex_held s mutex ow" for ow by (simp add: mutex_held_def 1 2)
  then show "mutex_ok s0 mutex = mutex_ok s mutex" by (simp add: mutex_ok_def mutex_free_def 1)
qed

lemma mutex_take_free:
  assumes r: "running s t" and ok: "mutex_ok s mutex" and free: "mutex_free s mutex"
  shows "\<exists>s'. take_step s t mutex time Taken s' t"
proof -
  note D = runningD[OF r] and m = free[unfolded mutex_free_def Let_def]
  define s0 where "s0 = upd_thread t (\<lambda>th. th\<lparr>thread_error := RT_EOK\<rparr>) s"
  note s0 = reset_error[of t RT_EOK s, folded s0_def]
  define s' where "s' = upd_mutex mutex (\<lambda>m. m\<lparr>m_value := m_value m - 1, m_owner := Some t,
    m_original_priority := current_priority (threads s0 t), m_hold := m_hold m + 1\<rparr>) s0"
  have p: "current_priority (threads s t) < RT_THREAD_PRIORITY_MAX"
    using kinvD(5)[OF D(1), of t] D(4) by (simp add: wf_thread_def)
  have "rt_mutex_take mutex time s = Some (Ret RT_EOK, s')"
    using m D(8,9) by (simp add: rt_mutex_take_def s0 s'_def flip: s0_def)
  moreover have "mutex_held s' mutex t"
    using m D(4) p by (simp add: mutex_held_def s'_def mutex_field.get_upd mutex_field.upd_simps s0)
  then have "mutex_ok s' mutex" using ok by (auto simp: mutex_ok_def s'_def mutex_field.upd_simps s0)
  moreover have "running s' t" unfolding s'_def using r s0(7) by (simp add: mutex_field.upd_running)
  ultimately show ?thesis using m
    by (intro exI[of _ s'])
       (simp add: take_step_def take_outcome_def mutex_take_spec_def mutex_view_def s'_def mutex_field.get_upd
         mutex_field.upd_simps s0)
qed

lemma mutex_take_nested:
  assumes r: "running s t" and ok: "mutex_ok s mutex" and held: "mutex_held s mutex t" and n: "m_hold (mutexes s mutex) \<noteq> 0xff"
  shows "\<exists>s'. take_step s t mutex time Taken s' t"
proof -
  note D = runningD[OF r] and m = held[unfolded mutex_held_def Let_def]
  define s0 where "s0 = upd_thread t (\<lambda>th. th\<lparr>thread_error := RT_EOK\<rparr>) s"
  note s0 = reset_error[of t RT_EOK s, folded s0_def]
  define s' where "s' = upd_mutex mutex (\<lambda>m. m\<lparr>m_hold := m_hold m + 1\<rparr>) s0"
  have u: "unat (m_hold (mutexes s mutex) + 1) = unat (m_hold (mutexes s mutex)) + 1"
    using n by (intro unat_succ) (simp add: uint8_max)
  then have "m_hold (mutexes s mutex) + 1 \<noteq> 0" by (metis add_is_0 one_neq_zero unat_0)
  then have "mutex_held s' mutex t"
    using m by (simp add: mutex_held_def s'_def mutex_field.get_upd mutex_field.upd_simps s0)
  then have "mutex_ok s' mutex" using ok by (auto simp: mutex_ok_def s'_def mutex_field.upd_simps s0)
  moreover have "rt_mutex_take mutex time s = Some (Ret RT_EOK, s')"
    using m D(8,9) by (simp add: rt_mutex_take_def s0 s'_def flip: s0_def)
  moreover have "running s' t" unfolding s'_def using r s0(7) by (simp add: mutex_field.upd_running)
  ultimately show ?thesis using m u
    by (intro exI[of _ s'])
       (simp add: take_step_def take_outcome_def mutex_take_spec_def mutex_view_def s'_def mutex_field.get_upd
         mutex_field.upd_simps s0)
qed

lemma mutex_take_refused:
  assumes r: "running s t" and ok: "mutex_ok s mutex" and held: "mutex_held s mutex ow" and ne: "ow \<noteq> t"
  shows "\<exists>s'. take_step s t mutex 0 No_permit s' t"
proof -
  note D = runningD[OF r] and m = held[unfolded mutex_held_def Let_def]
  define s0 where "s0 = upd_thread t (\<lambda>th. th\<lparr>thread_error := RT_EOK\<rparr>) s"
  note s0 = reset_error[of t RT_EOK s, folded s0_def]
  define s' where "s' = upd_thread t (\<lambda>th. th\<lparr>thread_error := - RT_ETIMEOUT\<rparr>) s0"
  note s' = reset_error[of t "- RT_ETIMEOUT" s0, folded s'_def]
  have "rt_mutex_take mutex 0 s = Some (Ret (- RT_ETIMEOUT), s')"
    using m ne D(8,9) by (simp add: rt_mutex_take_def s0 s'_def flip: s0_def)
  then show ?thesis using m ne r ok
    by (intro exI[of _ s']) (simp add: take_step_def take_outcome_def mutex_take_spec_def mutex_view_def s' s0)
qed

lemma mutex_take_waits:
  assumes r: "running s t" and i: "ready s i" "i \<noteq> t" and ok: "mutex_ok s mutex" and held: "mutex_held s mutex ow"
    and ne: "ow \<noteq> t" and time: "legal_time time" "time \<noteq> 0"
  shows "\<exists>s' u. take_step s t mutex time Queued s' u"
proof -
  note D = runningD[OF r] and m = held[unfolded mutex_held_def Let_def]
  define s0 where "s0 = upd_thread t (\<lambda>th. th\<lparr>thread_error := RT_EOK\<rparr>) s"
  note s0 = reset_error[of t RT_EOK s, folded s0_def]
  obtain s1 s' u where s': "inherit_priority t ow s0 = Some s1"
    "ipc_wait (Suspend mutex) t (o_flag (objs s1 (At mutex))) time s1 = Some s'"
    "rt_current_thread s' = Some u" "u \<noteq> t" "running s' u" "mutex_ok s' mutex"
    "mutex_view mutex s' = (Some ow, unat (m_hold (mutexes s mutex)),
       enqueue (\<lambda>v. current_priority (threads s v)) (o_flag (objs s (At mutex))) t (tlists s (Suspend mutex)))"
    "\<And>v. current_priority (threads s' v)
       = (if v = ow then min (current_priority (threads s ow)) (current_priority (threads s t))
          else current_priority (threads s v))"
    using mutex_take_blocks[of s0 t i mutex ow time] assms unfolding s0 by blast
  have "rt_mutex_take mutex time s = Some (Wait t, s')"
    using m ne time D(8,9) s'(1-4) by (simp add: rt_mutex_take_def s0 flip: s0_def)
  moreover have "mutex_view mutex s = (Some ow, unat (m_hold (mutexes s mutex)), tlists s (Suspend mutex))"
    using m by (simp add: mutex_view_def)
  ultimately show ?thesis using m ne time s'(4-8)
    by (intro exI[of _ s'] exI[of _ u]) (simp add: take_step_def take_outcome_def mutex_take_spec_def)
qed

text \<open>C12: For a running thread \<open>rt_mutex_take\<close> is the take of a recursive lock: a free mutex is
  acquired, the owner nests, and another thread is refused at once or joins the queue. A
  thread that waits lends the owner its priority: the owner's becomes the smaller of the two
  numbers, and no other thread's changes.\<close>

theorem rt_mutex_take_refines:
  assumes "running s t" "ready s i" "i \<noteq> t" "mutex_ok s mutex" "legal_time time" "m_hold (mutexes s mutex) \<noteq> 0xff"
  shows "\<exists>s' u r. rt_mutex_take mutex time s = Some (take_outcome t r, s') \<and> running s' u \<and> mutex_ok s' mutex
    \<and> mutex_take_spec (\<lambda>v. current_priority (threads s v)) (o_flag (objs s (At mutex))) t (time \<noteq> 0)
        (mutex_view mutex s) = (r, mutex_view mutex s')
    \<and> (u = t \<longleftrightarrow> r \<noteq> Queued)
    \<and> (\<forall>v. current_priority (threads s' v)
         = (if r = Queued \<and> m_owner (mutexes s mutex) = Some v
            then min (current_priority (threads s v)) (current_priority (threads s t))
            else current_priority (threads s v)))"
proof -
  have "\<exists>s' u r. take_step s t mutex time r s' u"
    using assms(4)
  proof (cases rule: mutex_ok_cases)
    case free
    then show ?thesis using mutex_take_free assms by blast
  next
    case (held ow)
    consider "ow = t" | "ow \<noteq> t" "time = 0" | "ow \<noteq> t" "time \<noteq> 0" by blast
    then show ?thesis
    proof cases
      case 1
      then show ?thesis using mutex_take_nested[OF assms(1,4) _ assms(6)] held by blast
    next
      case 2
      then show ?thesis using mutex_take_refused[OF assms(1,4) held] by blast
    next
      case 3
      then show ?thesis using mutex_take_waits[OF assms(1-4) held _ assms(5)] by blast
    qed
  qed
  then show ?thesis unfolding take_step_def by blast
qed

text \<open>The owner's last release, from the state in which the hold count has become zero.\<close>

lemma mutex_restore_priority:
  assumes r: "running s t" and p: "p < RT_THREAD_PRIORITY_MAX"
  shows "\<exists>s'. (if p \<noteq> current_priority (threads s t)
        then do { (r, s) \<leftarrow> rt_thread_control t 2 p s; Some s } else Some s) = Some s'
    \<and> running s' t \<and> kframe s s' \<and> (\<forall>m. wait_list m \<longrightarrow> tlists s' m = tlists s m)
    \<and> (\<forall>v. stat (threads s' v) = stat (threads s v)
        \<and> current_priority (threads s' v) = (if v = t then p else current_priority (threads s v)))"
proof (cases "p = current_priority (threads s t)")
  case False
  note D = runningD[OF r]
  obtain s' where s': "rt_thread_control t 2 p s = Some (RT_EOK, s')" "kinv s'" "kframe s s'"
    "threads s' = (threads s)(t := (threads s t)\<lparr>current_priority := p, number_mask := push_bit p 1\<rparr>)"
    "\<forall>m. wait_list m \<longrightarrow> tlists s' m = tlists s m" "rt_current_thread s' = rt_current_thread s"
    using change_priority_ok[OF D(1) p, of t] D(4) by auto
  have "running s' t"
    using D(2,3) s'(4,6) by (intro running_kframe[OF r s'(2,3)]) (auto simp: ready_def)
  then show ?thesis using False s' by (intro exI[of _ s']) auto
qed (use r in auto)

lemma mutex_hand_over:
  assumes r: "running s t" and q: "tlists s (Suspend mutex) = w # ws" and m: "m_hold (mutexes s mutex) = 0" "m_value (mutexes s mutex) = 0"
    and fl: "o_flag (objs s (At mutex)) = 0 \<or> o_flag (objs s (At mutex)) = 1"
  shows "\<exists>s1 s' u. rt_ipc_list_resume (Suspend mutex) (upd_mutex mutex (\<lambda>m. m\<lparr>m_owner := Some w,
        m_original_priority := current_priority (threads s w), m_hold := m_hold m + 1\<rparr>) s) = Some s1
    \<and> rt_schedule s1 = Some s' \<and> running s' u \<and> mutex_ok s' mutex \<and> mutex_view mutex s' = (Some w, 1, ws) \<and> ready s' w
    \<and> (\<forall>v. current_priority (threads s' v) = current_priority (threads s v))
    \<and> current_priority (threads s' u) \<le> current_priority (threads s' w)"
proof -
  define s0 where "s0 = upd_mutex mutex (\<lambda>m. m\<lparr>m_owner := Some w,
        m_original_priority := current_priority (threads s w), m_hold := m_hold m + 1\<rparr>) s"
  have r0: "running s0 t" unfolding s0_def by (rule mutex_field.upd_running[OF r])
  note D = runningD[OF r0] and S = mutex_field.upd_simps mutex_field.get_upd
  have q0: "tlists s0 (Suspend mutex) = w # ws" using q by (simp add: s0_def S)
  have p: "current_priority (threads s w) < RT_THREAD_PRIORITY_MAX"
    using kinvD(5)[OF runningD(1)[OF r], of w] waiting_stat[OF runningD(1)[OF r], of "Suspend mutex" w] q
    by (simp add: wf_thread_def)
  obtain s1 where s1: "rt_ipc_list_resume (Suspend mutex) s0 = Some s1" "kinv s1" "kframe s0 s1"
    "threads s1 = (threads s0)(w := (threads s0 w)\<lparr>stat := THREAD_READY\<rparr>)" "tlists s1 (Suspend mutex) = ws"
    "rt_current_thread s1 = Some t"
    using ipc_list_resume_ok[OF D(1) _ q0] D(2) by auto
  have r1: "running s1 t"
    using D(3) s1 by (intro running_kframe[OF r0]) (auto simp: ready_def)
  obtain s' u where s': "rt_schedule s1 = Some s'" "kframe s1 s'" "threads s' = threads s1" "tlists s' = tlists s1"
    "running s' u" "\<forall>v. ready s1 v \<longrightarrow> current_priority (threads s1 u) \<le> current_priority (threads s1 v)"
    using running_schedule[OF r1] by blast
  note F = kframe_trans[OF s1(3) s'(2)]
  have th: "threads s' = (threads s)(w := (threads s w)\<lparr>stat := THREAD_READY\<rparr>)" using s'(3) s1(4) by (simp add: s0_def S)
  have w: "w \<notin> set ws" "ready s1 w" using waiting_distinct[OF D(1), of "Suspend mutex"] q0 s1(4) by (auto simp: ready_def)
  have mu: "mutexes s' mutex = (mutexes s mutex)\<lparr>m_owner := Some w, m_original_priority := current_priority (threads s w),
      m_hold := 1\<rparr>"
    using mutex_field.get_kframe[OF F] m by (simp add: s0_def S)
  have "mutex_held s' mutex w"
    using th s'(4) s1(5) w(1) p m(2) by (simp add: mutex_held_def mu)
  moreover have "objs s' (At mutex) = objs s (At mutex)" using kframeD(8)[OF F] by (simp add: s0_def S)
  ultimately have "mutex_ok s' mutex" using fl by (auto simp: mutex_ok_def)
  moreover have "mutex_view mutex s' = (Some w, 1, ws)" using mu s'(4) s1(5) by (simp add: mutex_view_def)
  moreover have "ready s' w" "current_priority (threads s' u) \<le> current_priority (threads s' w)"
    using w(2) s'(3,6) by (auto simp: ready_def)
  moreover have "\<forall>v. current_priority (threads s' v) = current_priority (threads s v)" by (simp add: th)
  ultimately show ?thesis using s1(1) s'(1,5) unfolding s0_def by blast
qed

lemma mutex_give_up_ok:
  assumes r: "running s t" and h: "m_hold (mutexes s mutex) = 0" "m_value (mutexes s mutex) = 0"
    "m_original_priority (mutexes s mutex) < RT_THREAD_PRIORITY_MAX"
    and fl: "o_flag (objs s (At mutex)) = 0 \<or> o_flag (objs s (At mutex)) = 1"
  shows "\<exists>s' u. mutex_give_up mutex t s = Some (RT_EOK, s') \<and> running s' u \<and> mutex_ok s' mutex
    \<and> mutex_view mutex s' = (case tlists s (Suspend mutex) of [] \<Rightarrow> (None, 0, []) | w # ws \<Rightarrow> (Some w, 1, ws))
    \<and> (\<forall>v. current_priority (threads s' v)
         = (if v = t then m_original_priority (mutexes s mutex) else current_priority (threads s v)))
    \<and> (\<forall>w. m_owner (mutexes s' mutex) = Some w \<longrightarrow> ready s' w \<and> current_priority (threads s' u) \<le> current_priority (threads s' w))"
proof -
  let ?p = "m_original_priority (mutexes s mutex)"
  obtain s1 where s1: "(if ?p \<noteq> current_priority (threads s t)
        then do { (r, s) \<leftarrow> rt_thread_control t 2 ?p s; Some s } else Some s) = Some s1"
    "running s1 t" "kframe s s1" "\<forall>m. wait_list m \<longrightarrow> tlists s1 m = tlists s m"
    "\<And>v. current_priority (threads s1 v) = (if v = t then ?p else current_priority (threads s v))"
    using mutex_restore_priority[OF r h(3)] by blast
  have f1: "mutexes s1 = mutexes s" "objs s1 (At mutex) = objs s (At mutex)" "tlists s1 (Suspend mutex) = tlists s (Suspend mutex)"
    using mutex_field.get_kframe[OF s1(3)] kframeD(8)[OF s1(3)] s1(4) by simp_all
  show ?thesis
  proof (cases "tlists s (Suspend mutex)")
    case Nil
    define s' where "s' = upd_mutex mutex (\<lambda>m. m\<lparr>m_value := m_value m + 1, m_owner := None, m_original_priority := 0xff\<rparr>) s1"
    have "mutex_give_up mutex t s = Some (RT_EOK, s')" unfolding mutex_give_up_def s1(1) using Nil f1(3) by (simp add: s'_def)
    moreover have "mutexes s' mutex = (mutexes s mutex)\<lparr>m_value := 1, m_owner := None, m_original_priority := 0xff\<rparr>"
      using h(2) f1(1) by (simp add: s'_def mutex_field.get_upd)
    moreover have "tlists s' = tlists s1" "threads s' = threads s1" "objs s' = objs s1" "running s' t"
      using mutex_field.upd_running[OF s1(2)] by (simp_all add: s'_def mutex_field.upd_simps)
    ultimately show ?thesis using Nil f1 s1(5) h fl
      by (intro exI[of _ s'] exI[of _ t]) (simp add: mutex_view_def mutex_ok_def mutex_free_def)
  next
    case (Cons w ws)
    obtain s2 s' u where s': "rt_ipc_list_resume (Suspend mutex) (upd_mutex mutex (\<lambda>m. m\<lparr>m_owner := Some w,
        m_original_priority := current_priority (threads s1 w), m_hold := m_hold m + 1\<rparr>) s1) = Some s2"
      "rt_schedule s2 = Some s'" "running s' u" "mutex_ok s' mutex" "mutex_view mutex s' = (Some w, 1, ws)" "ready s' w"
      "\<And>v. current_priority (threads s' v) = current_priority (threads s1 v)"
      "current_priority (threads s' u) \<le> current_priority (threads s' w)"
      using mutex_hand_over[OF s1(2), of mutex w ws] Cons f1 h fl by auto
    have "mutex_give_up mutex t s = Some (RT_EOK, s')"
      unfolding mutex_give_up_def s1(1) using Cons f1(3) s'(1,2) by simp
    moreover have "m_owner (mutexes s' mutex) = Some w" using s'(5) by (simp add: mutex_view_def)
    ultimately show ?thesis using Cons s'(3-8) s1(5) by (intro exI[of _ s'] exI[of _ u]) simp
  qed
qed

text \<open>C13: Releasing a mutex is the release of the recursive lock: the owner's last release restores
  the priority it had when it took the mutex and hands the mutex to the first waiting thread,
  which becomes ready, or frees it; a thread of a priority at least as high as the new owner's
  runs. A thread that does not own the mutex gets an error and changes nothing but its own
  error field.\<close>

theorem rt_mutex_release_refines:
  assumes "running s t" "mutex_ok s mutex"
  shows "if m_owner (mutexes s mutex) = Some t then
      \<exists>s' u. rt_mutex_release mutex s = Some (RT_EOK, s') \<and> running s' u \<and> mutex_ok s' mutex
        \<and> mutex_view mutex s' = mutex_release_spec (mutex_view mutex s)
        \<and> (\<forall>v. current_priority (threads s' v)
             = (if v = t \<and> m_hold (mutexes s mutex) = 1 then m_original_priority (mutexes s mutex)
                else current_priority (threads s v)))
        \<and> (\<forall>w. m_owner (mutexes s' mutex) = Some w \<and> w \<noteq> t
             \<longrightarrow> ready s' w \<and> current_priority (threads s' u) \<le> current_priority (threads s' w))
    else rt_mutex_release mutex s = Some (- RT_ERROR, upd_thread t (\<lambda>th. th\<lparr>thread_error := - RT_ERROR\<rparr>) s)"
proof (cases "m_owner (mutexes s mutex) = Some t")
  case True
  note D = runningD[OF assms(1)]
  let ?h = "m_hold (mutexes s mutex)"
  have held: "mutex_held s mutex t" using assms(2) True
    by (auto simp: mutex_ok_def mutex_free_def mutex_held_def Let_def)
  note m = held[unfolded mutex_held_def Let_def]
  define s0 where "s0 = upd_mutex mutex (\<lambda>m. m\<lparr>m_hold := m_hold m - 1\<rparr>) s"
  have r0: "running s0 t" unfolding s0_def by (rule mutex_field.upd_running[OF assms(1)])
  have s0: "mutexes s0 mutex = (mutexes s mutex)\<lparr>m_hold := ?h - 1\<rparr>" "tlists s0 = tlists s" "threads s0 = threads s" "objs s0 = objs s"
    by (simp_all add: s0_def mutex_field.get_upd mutex_field.upd_simps)
  have hu: "unat (?h - 1) = unat ?h - 1" "0 < unat ?h" using m by (simp_all add: unat_minus_one unat_gt_0)
  have rel: "rt_mutex_release mutex s = (if ?h = 1 then mutex_give_up mutex t s0 else Some (RT_EOK, s0))"
    using True D(8,9) s0(1) by (simp add: rt_mutex_release_def flip: s0_def)
  have fl: "o_flag (objs s0 (At mutex)) = 0 \<or> o_flag (objs s0 (At mutex)) = 1"
    using assms(2) by (simp add: mutex_ok_def s0)
  show ?thesis
  proof (cases "?h = 1")
    case one: True
    obtain s' u where s': "mutex_give_up mutex t s0 = Some (RT_EOK, s')" "running s' u" "mutex_ok s' mutex"
      "mutex_view mutex s' = (case tlists s (Suspend mutex) of [] \<Rightarrow> (None, 0, []) | w # ws \<Rightarrow> (Some w, 1, ws))"
      "\<And>v. current_priority (threads s' v)
         = (if v = t then m_original_priority (mutexes s mutex) else current_priority (threads s v))"
      "\<And>w. m_owner (mutexes s' mutex) = Some w \<Longrightarrow> ready s' w \<and> current_priority (threads s' u) \<le> current_priority (threads s' w)"
      using mutex_give_up_ok[OF r0 _ _ _ fl, unfolded s0] m one by fastforce
    moreover have "mutex_release_spec (mutex_view mutex s)
        = (case tlists s (Suspend mutex) of [] \<Rightarrow> (None, 0, []) | w # ws \<Rightarrow> (Some w, 1, ws))"
      using one by (simp add: mutex_release_spec_def mutex_view_def)
    ultimately show ?thesis unfolding rel if_P[OF True] if_P[OF one] using one by metis
  next
    case False
    have n1: "unat ?h \<noteq> 1" using False by (metis unat_1 unsigned_word_eqI)
    have "mutex_held s0 mutex t" using m False by (simp add: mutex_held_def s0)
    then have "mutex_ok s0 mutex" using fl by (auto simp: mutex_ok_def)
    moreover have "mutex_view mutex s0 = mutex_release_spec (mutex_view mutex s)"
      using hu n1 True by (simp add: mutex_release_spec_def mutex_view_def s0)
    ultimately show ?thesis using True False rel r0 s0
      by (auto intro!: exI[of _ s0])
  qed
next
  case False
  then show ?thesis using runningD(8,9)[OF assms(1)] by (simp add: rt_mutex_release_def)
qed

subsection \<open>Witnesses\<close>

text \<open>The mutex at address 7 is held once by thread 3, which is suspended, of priority 15; thread 1 of priority 20
  runs. At address 8, thread 1 holds it twice and has a raised priority.\<close>

definition demo_mutexes :: "nat \<Rightarrow> rt_mutex" where
  "demo_mutexes a = (if a = 7 then \<lparr>m_value = 0, m_original_priority = 15, m_hold = 1, m_owner = Some 3\<rparr>
     else \<lparr>m_value = 0, m_original_priority = 25, m_hold = 1, m_owner = Some 1\<rparr>)"

definition demo_mutex :: mutex_state where
  "demo_mutex = demo_kernel \<lparr>sems = (\<lambda>_. 0), mutexes = demo_mutexes\<rparr>"

lemma demo_mutex_facts:
  "running demo_mutex 1" "ready demo_mutex 2" "mutexes demo_mutex = demo_mutexes" "tlists demo_mutex (Suspend a) = []"
  "mutex_ok demo_mutex 7" "mutex_ok demo_mutex 8"
proof -
  show *: "running demo_mutex 1" "ready demo_mutex 2" "mutexes demo_mutex = demo_mutexes"
    unfolding demo_mutex_def by (rule demo_kernel_running)+ (simp add: demo_kernel_def sched_state.defs)
  show q: "tlists demo_mutex (Suspend a) = []" for a by (simp add: demo_mutex_def demo_tlists_def)
  have fl: "o_flag (objs demo_mutex (At a)) = 0" for a by (simp add: demo_mutex_def demo_obj_def)
  have "mutex_held demo_mutex 7 3" "mutex_held demo_mutex 8 1"
    using *(3) q by (simp_all add: mutex_held_def demo_mutexes_def)
      (simp_all add: demo_mutex_def demo_threads_def demo_thread_def)
  then show "mutex_ok demo_mutex 7" "mutex_ok demo_mutex 8" using fl by (auto simp: mutex_ok_def)
qed

theorem rt_mutex_take_refines_witness:
  "\<exists>s' u. rt_mutex_take 7 5 demo_mutex = Some (Wait 1, s') \<and> running s' u \<and> mutex_view 7 s' = (Some 3, 1, [1])"
  using rt_mutex_take_refines[OF demo_mutex_facts(1,2) _ demo_mutex_facts(5) legal_time_5]
  by (auto simp: mutex_take_spec_def mutex_view_def demo_mutex_facts(3,4) take_outcome_def demo_mutexes_def)

theorem rt_mutex_release_refines_witness:
  "\<exists>s'. rt_mutex_release 8 demo_mutex = Some (RT_EOK, s') \<and> mutex_view 8 s' = (None, 0, [])
    \<and> current_priority (threads s' 1) = 25"
  using rt_mutex_release_refines[OF demo_mutex_facts(1,6)]
  by (auto simp: mutex_release_spec_def mutex_view_def demo_mutex_facts(3,4) demo_mutexes_def)

end
