(* ===== verification/Event.thy ===== *)
theory Event
  imports Mutex
begin

text \<open>
  Event sets, \<^verbatim>\<open>src/ipc.c\<close>. A waiting thread keeps the bits it waits for and its options in its own
  structure; a send walks the queue and wakes every thread whose condition holds.
\<close>

record event_state = mutex_state +
  events :: "nat \<Rightarrow> rt_uint32_t"

abbreviation (input) EVENT_FLAG_AND :: rt_uint8_t where "EVENT_FLAG_AND \<equiv> 1"
abbreviation (input) EVENT_FLAG_OR :: rt_uint8_t where "EVENT_FLAG_OR \<equiv> 2"
abbreviation (input) EVENT_FLAG_CLEAR :: rt_uint8_t where "EVENT_FLAG_CLEAR \<equiv> 4"

definition upd_event :: "nat \<Rightarrow> (rt_uint32_t \<Rightarrow> rt_uint32_t) \<Rightarrow> 'a event_state_scheme \<Rightarrow> 'a event_state_scheme" where
  "upd_event a f s = s\<lparr>events := (events s)(a := f (events s a))\<rparr>"

definition rt_event_init :: "nat \<Rightarrow> 8 word list \<Rightarrow> rt_uint8_t \<Rightarrow> 'a event_state_scheme
    \<Rightarrow> 'a event_state_scheme option" where
  "rt_event_init event name flag s =
     do { s \<leftarrow> rt_object_init (At event) Class_Event name s;
          let s = upd_obj (At event) (\<lambda>ob. ob\<lparr>o_flag := flag\<rparr>) s;
          let s = rt_ipc_object_init (Suspend event) s;
          Some (upd_event event (\<lambda>_. 0) s) }"

definition rt_event_detach :: "nat \<Rightarrow> 'a event_state_scheme \<Rightarrow> 'a event_state_scheme option" where
  "rt_event_detach event s =
     do { s \<leftarrow> rt_ipc_list_resume_all (Suspend event) s;
          Some (rt_object_detach (At event) s) }"

definition rt_event_create :: "8 word list \<Rightarrow> rt_uint8_t \<Rightarrow> 'a event_state_scheme
    \<Rightarrow> (nat option \<times> 'a event_state_scheme) option" where
  "rt_event_create name flag s =
     do { s \<leftarrow> RT_DEBUG_NOT_IN_INTERRUPT s;
          (a, s) \<leftarrow> rt_object_allocate Class_Event name s;
          case a of
            None \<Rightarrow> Some (None, s)
          | Some event \<Rightarrow>
              (let s = upd_obj (At event) (\<lambda>ob. ob\<lparr>o_flag := flag\<rparr>) s;
                   s = rt_ipc_object_init (Suspend event) s
               in Some (Some event, upd_event event (\<lambda>_. 0) s)) }"

definition rt_event_delete :: "nat \<Rightarrow> 'a event_state_scheme \<Rightarrow> 'a event_state_scheme option" where
  "rt_event_delete event s =
     do { s \<leftarrow> RT_DEBUG_NOT_IN_INTERRUPT s;
          s \<leftarrow> rt_ipc_list_resume_all (Suspend event) s;
          rt_object_delete event s }"

text \<open>Waking one thread whose condition holds, and the walk over the queue. The loop moves on before
  it wakes a thread, so it visits the threads that were in the queue when it began.\<close>

definition event_hit :: "nat \<Rightarrow> tid \<Rightarrow> 'a event_state_scheme \<Rightarrow> 'a event_state_scheme" where
  "event_hit event t s =
     (let s = (if event_info (threads s t) AND EVENT_FLAG_CLEAR \<noteq> 0
               then upd_event event (\<lambda>v. v AND NOT (event_set (threads s t))) s else s)
      in snd (rt_thread_resume t s))"

fun event_send_loop :: "nat \<Rightarrow> tid list \<Rightarrow> bool \<Rightarrow> 'a event_state_scheme \<Rightarrow> bool \<times> 'a event_state_scheme" where
  "event_send_loop event [] need_schedule s = (need_schedule, s)"
| "event_send_loop event (t # ts) need_schedule s =
     (let th = threads s t in
      if event_info th AND EVENT_FLAG_AND \<noteq> 0 then
        if event_set th AND events s event = event_set th
        then event_send_loop event ts True (event_hit event t s)
        else event_send_loop event ts need_schedule s
      else if event_info th AND EVENT_FLAG_OR \<noteq> 0 then
        if event_set th AND events s event \<noteq> 0
        then event_send_loop event ts True (event_hit event t
               (upd_thread t (\<lambda>th. th\<lparr>event_set := event_set th AND events s event\<rparr>) s))
        else event_send_loop event ts need_schedule s
      else event_send_loop event ts need_schedule s)"

definition rt_event_send :: "nat \<Rightarrow> rt_uint32_t \<Rightarrow> 'a event_state_scheme
    \<Rightarrow> (rt_err_t \<times> 'a event_state_scheme) option" where
  "rt_event_send event bits s =
     (if bits = 0 then Some (- RT_ERROR, s)
      else
        let s = upd_event event (\<lambda>v. v OR bits) s;
            (need_schedule, s) = event_send_loop event (tlists s (Suspend event)) False s
        in do { s \<leftarrow> (if need_schedule then rt_schedule s else Some s);
                Some (RT_EOK, s) })"

definition rt_event_recv_end :: "tid \<Rightarrow> 'a event_state_scheme \<Rightarrow> rt_err_t \<times> rt_uint32_t option" where
  "rt_event_recv_end t s =
     (thread_error (threads s t),
      if thread_error (threads s t) \<noteq> RT_EOK then None else Some (event_set (threads s t)))"

text \<open>The condition of a receive with the given options.\<close>

definition event_cond :: "rt_uint8_t \<Rightarrow> rt_uint32_t \<Rightarrow> rt_uint32_t \<Rightarrow> bool" where
  "event_cond opt want have_set \<longleftrightarrow>
     (if opt AND EVENT_FLAG_AND \<noteq> 0 then have_set AND want = want
      else opt AND EVENT_FLAG_OR \<noteq> 0 \<and> have_set AND want \<noteq> 0)"

definition rt_event_recv :: "nat \<Rightarrow> rt_uint32_t \<Rightarrow> rt_uint8_t \<Rightarrow> rt_uint32_t \<Rightarrow> 'a event_state_scheme
    \<Rightarrow> ((rt_err_t \<times> rt_uint32_t option, tid) outcome \<times> 'a event_state_scheme) option" where
  "rt_event_recv event bits opt timeout s =
     do { s \<leftarrow> RT_DEBUG_IN_THREAD_CONTEXT s;
          if bits = 0 then Some (Ret (- RT_ERROR, None), s)
          else
            do { t \<leftarrow> rt_thread_self s;
                 let s = upd_thread t (\<lambda>th. th\<lparr>thread_error := RT_EOK\<rparr>) s;
                 s \<leftarrow> RT_ASSERT (opt AND EVENT_FLAG_AND \<noteq> 0 \<or> opt AND EVENT_FLAG_OR \<noteq> 0) s;
                 if event_cond opt bits (events s event) then
                   Some (Ret (thread_error (threads s t), Some (events s event AND bits)),
                     if opt AND EVENT_FLAG_CLEAR \<noteq> 0 then upd_event event (\<lambda>v. v AND NOT bits) s else s)
                 else if timeout = 0 then
                   (let s = upd_thread t (\<lambda>th. th\<lparr>thread_error := - RT_ETIMEOUT\<rparr>) s
                    in Some (Ret (thread_error (threads s t), None), s))
                 else
                   do { let s = upd_thread t (\<lambda>th. th\<lparr>event_set := bits, event_info := opt\<rparr>) s;
                        s \<leftarrow> ipc_wait (Suspend event) t (o_flag (objs s (At event))) timeout s;
                        Some (if rt_current_thread s = Some t
                              then (Ret (rt_event_recv_end t s), s) else (Wait t, s)) } } }"

definition rt_event_control :: "nat \<Rightarrow> rt_uint8_t \<Rightarrow> nat \<Rightarrow> 'a event_state_scheme
    \<Rightarrow> (rt_err_t \<times> 'a event_state_scheme) option" where
  "rt_event_control event cmd arg s =
     (if cmd = 1 then
        do { s \<leftarrow> rt_ipc_list_resume_all (Suspend event) s;
             s \<leftarrow> rt_schedule (upd_event event (\<lambda>_. 0) s);
             Some (RT_EOK, s) }
      else Some (- RT_ERROR, s))"

interpretation event_field: kernel_field events upd_event
  by unfold_locales (simp_all add: upd_event_def kernel_as_def)

subsection \<open>No wake-up is lost\<close>

text \<open>
  \<open>satisfied s event t\<close>: the condition the thread \<open>t\<close> waits with holds of the event's set.
  \<open>event_quiet\<close>: no thread that waits for the event is satisfied. \<open>got th set r\<close>: \<open>r\<close> is a legal
  result for a thread that waits as \<open>th\<close> says when the event's set is \<open>set\<close>.
\<close>

definition satisfied :: "'a event_state_scheme \<Rightarrow> nat \<Rightarrow> tid \<Rightarrow> bool" where
  "satisfied s event t \<longleftrightarrow> event_cond (event_info (threads s t)) (event_set (threads s t)) (events s event)"

definition event_quiet :: "'a event_state_scheme \<Rightarrow> nat \<Rightarrow> bool" where
  "event_quiet s event \<longleftrightarrow> (\<forall>t \<in> set (tlists s (Suspend event)). \<not> satisfied s event t)"

definition got :: "rt_thread \<Rightarrow> rt_uint32_t \<Rightarrow> rt_uint32_t \<Rightarrow> bool" where
  "got th have_set r \<longleftrightarrow> r AND (event_set th AND have_set) = r
     \<and> (if event_info th AND EVENT_FLAG_AND \<noteq> 0 then r = event_set th else r \<noteq> 0)"

text \<open>Fewer bits satisfy no more threads.\<close>

lemma event_cond_mono:
  assumes "event_cond opt want x" "x AND y = x"
  shows "event_cond opt want y"
proof -
  have x: "x AND want = x AND (y AND want)" using assms(2) by (simp flip: and.assoc)
  have "y AND want = want" if "x AND want = want"
    using x that by (metis and.assoc and.commute and.idem)
  moreover have "y AND want \<noteq> 0" if "x AND want \<noteq> 0" using x that by auto
  ultimately show ?thesis using assms(1) by (auto simp: event_cond_def split: if_splits)
qed

text \<open>One visit of the loop to a satisfied thread.\<close>

definition visit :: "nat \<Rightarrow> tid \<Rightarrow> 'a event_state_scheme \<Rightarrow> 'a event_state_scheme" where
  "visit event t s = event_hit event t
     (if event_info (threads s t) AND EVENT_FLAG_AND \<noteq> 0 then s
      else upd_thread t (\<lambda>th. th\<lparr>event_set := event_set th AND events s event\<rparr>) s)"

lemma event_send_loop_step:
  "event_send_loop event (t # ts) need s =
     (if satisfied s event t then event_send_loop event ts True (visit event t s)
      else event_send_loop event ts need s)"
proof -
  have "satisfied s event t \<longleftrightarrow>
    (if event_info (threads s t) AND EVENT_FLAG_AND \<noteq> 0 then event_set (threads s t) AND events s event = event_set (threads s t)
     else event_info (threads s t) AND EVENT_FLAG_OR \<noteq> 0 \<and> event_set (threads s t) AND events s event \<noteq> 0)"
    unfolding satisfied_def event_cond_def and.commute[of "events s event"] ..
  then show ?thesis by (simp add: visit_def Let_def)
qed

lemma wait_info_kinv [simp]:
  "kinv (upd_thread t (\<lambda>th. th\<lparr>event_set := f th\<rparr>) s) = kinv s"
  "kinv (upd_thread t (\<lambda>th. th\<lparr>event_set := f th, event_info := g th\<rparr>) s) = kinv s"
proof -
  have "kinv s \<Longrightarrow> kinv (upd_thread t (\<lambda>th. th\<lparr>event_set := f th\<rparr>) s)"
    "kinv (upd_thread t (\<lambda>th. th\<lparr>event_set := f th\<rparr>) s) \<Longrightarrow> kinv s"
    "kinv s \<Longrightarrow> kinv (upd_thread t (\<lambda>th. th\<lparr>event_set := f th, event_info := g th\<rparr>) s)"
    "kinv (upd_thread t (\<lambda>th. th\<lparr>event_set := f th, event_info := g th\<rparr>) s) \<Longrightarrow> kinv s"
    by (erule kinv_cong; auto simp: upd_thread_def)+
  then show "kinv (upd_thread t (\<lambda>th. th\<lparr>event_set := f th\<rparr>) s) = kinv s"
    "kinv (upd_thread t (\<lambda>th. th\<lparr>event_set := f th, event_info := g th\<rparr>) s) = kinv s" by blast+
qed

lemma wait_info_running [simp]:
  "running (upd_thread t (\<lambda>th. th\<lparr>event_set := f th\<rparr>) s) u = running s u"
  "running (upd_thread t (\<lambda>th. th\<lparr>event_set := f th, event_info := g th\<rparr>) s) u = running s u"
  unfolding running_def wait_info_kinv by (auto simp: upd_thread_def ready_def stack_ok_def)

lemma visit_ok:
  assumes r: "running s c" and q: "tlists s (Suspend event) = pre @ t # ts" and sat: "satisfied s event t"
  defines "s' \<equiv> visit event t s"
  shows "running s' c" "tlists s' (Suspend event) = pre @ ts" "ready s' t" "v \<noteq> t \<Longrightarrow> threads s' v = threads s v"
    "got (threads s t) (events s event) (event_set (threads s' t))" "events s' event AND events s event = events s' event"
    "event_info (threads s' t) = event_info (threads s t)" "objs s' (At a) = objs s (At a)"
    "thread_error (threads s' t) = thread_error (threads s t)"
proof -
  let ?and = "event_info (threads s t) AND EVENT_FLAG_AND \<noteq> 0"
  define s0 where "s0 = (if ?and then s else upd_thread t (\<lambda>th. th\<lparr>event_set := event_set th AND events s event\<rparr>) s)"
  define s1 where "s1 = (if event_info (threads s0 t) AND EVENT_FLAG_CLEAR \<noteq> 0
    then upd_event event (\<lambda>v. v AND NOT (event_set (threads s0 t))) s0 else s0)"
  have s': "s' = snd (rt_thread_resume t s1)" by (simp add: s'_def visit_def event_hit_def Let_def s0_def s1_def)
  have s0: "running s0 c" "tlists s0 = tlists s" "events s0 = events s" "objs s0 = objs s"
    "threads s0 v = (if v = t \<and> \<not> ?and then (threads s t)\<lparr>event_set := event_set (threads s t) AND events s event\<rparr>
       else threads s v)" for v
    using r by (auto simp: s0_def) (simp add: upd_thread_def)
  have s1: "running s1 c" "tlists s1 = tlists s" "threads s1 = threads s0" "objs s1 = objs s"
    "events s1 event AND events s event = events s1 event"
    using s0 by (simp_all add: s1_def event_field.upd_running event_field.upd_simps event_field.get_upd)
      (simp add: and.commute and.left_commute)
  note k = runningD(1)[OF s1(1)]
  have t: "t \<in> set (tlists s1 (Suspend event))" using q s1(2) by simp
  note R = resume_waiting[OF k t, simplified, folded s']
  have "t \<notin> set pre" "t \<notin> set ts" using waiting_distinct[OF runningD(1)[OF r], of "Suspend event"] q by auto
  then show "tlists s' (Suspend event) = pre @ ts" using R(4) q s1(2) by simp
  show "ready s' t" by (simp add: ready_def R(3))
  show "threads s' v = threads s v" if "v \<noteq> t" using that by (simp add: R(3) s1(3) s0(5))
  have "c \<noteq> t" using waiting_stat[OF k _ t] runningD(4)[OF s1(1)] by auto
  then show "running s' c"
    using R runningD(2,3)[OF s1(1)] by (intro running_kframe[OF s1(1)]) (auto simp: ready_def)
  show "events s' event AND events s event = events s' event"
    using event_field.get_kframe[OF R(2)] s1(5) by simp
  show "got (threads s t) (events s event) (event_set (threads s' t))"
    using sat by (auto simp: got_def R(3) s1(3) s0(5) satisfied_def event_cond_def and.commute and.left_commute)
  show "event_info (threads s' t) = event_info (threads s t)" "thread_error (threads s' t) = thread_error (threads s t)"
    by (simp_all add: R(3) s1(3) s0(5))
  show "objs s' (At a) = objs s (At a)" using kframeD(8)[OF R(2)] s1(4) by simp
qed

lemma got_mono:
  assumes "got th x r" "x AND y = x"
  shows "got th y r"
proof -
  have g: "r AND (event_set th AND x) = r" using assms(1) by (simp add: got_def)
  have "r AND (event_set th AND y) = r"
  proof (rule bit_word_eqI)
    fix n assume "n < LENGTH(32)"
    show "bit (r AND (event_set th AND y)) n = bit r n"
      using arg_cong[OF assms(2), of "\<lambda>w. bit w n"] arg_cong[OF g, of "\<lambda>w. bit w n"]
      by (auto simp: bit_and_iff)
  qed
  then show ?thesis using assms(1) by (simp add: got_def)
qed

text \<open>What the loop does to the waiting threads \<open>ts\<close>: those of \<open>keep\<close> still wait, the others are
  ready with a legal result.\<close>

definition served :: "nat \<Rightarrow> tid list \<Rightarrow> tid list \<Rightarrow> 'a event_state_scheme \<Rightarrow> 'a event_state_scheme \<Rightarrow> bool" where
  "served event ts keep s s' \<longleftrightarrow> event_quiet s' event \<and> events s' event AND events s event = events s' event \<and> set keep \<subseteq> set ts
     \<and> (\<forall>v \<in> set ts - set keep. ready s' v \<and> got (threads s v) (events s event) (event_set (threads s' v))
          \<and> thread_error (threads s' v) = thread_error (threads s v))
     \<and> (\<forall>v. v \<notin> set ts \<or> v \<in> set keep \<longrightarrow> threads s' v = threads s v)"

lemma served_visit:
  assumes r: "running s c" and q: "tlists s (Suspend event) = pre @ t # ts" and sat: "satisfied s event t"
    and v: "served event ts keep (visit event t s) s'"
  shows "served event (t # ts) keep s s' \<and> set keep \<noteq> set (t # ts)"
proof -
  note V = visit_ok[OF r q sat]
  let ?v = "visit event t s"
  have IH: "event_quiet s' event" "events s' event AND events ?v event = events s' event" "set keep \<subseteq> set ts"
    "\<And>v. v \<in> set ts - set keep \<Longrightarrow> ready s' v \<and> got (threads ?v v) (events ?v event) (event_set (threads s' v))
        \<and> thread_error (threads s' v) = thread_error (threads ?v v)"
    "\<And>v. v \<notin> set ts \<or> v \<in> set keep \<Longrightarrow> threads s' v = threads ?v v" using v by (auto simp: served_def)
  have "distinct (pre @ t # ts)" using waiting_distinct[OF runningD(1)[OF r], of "Suspend event"] q by simp
  then have t: "t \<notin> set ts" "t \<notin> set keep" using IH(3) by auto
  have tt: "threads s' t = threads ?v t" using IH(5) t by blast
  have 1: "ready s' v \<and> got (threads s v) (events s event) (event_set (threads s' v))
      \<and> thread_error (threads s' v) = thread_error (threads s v)" if "v \<in> set (t # ts) - set keep" for v
  proof (cases "v = t")
    case True
    then show ?thesis using V(3,5,9) tt by (simp add: ready_def)
  next
    case False
    then show ?thesis using IH(4)[of v] V(4)[OF False] got_mono[OF _ V(6)] that by auto
  qed
  have 2: "threads s' v = threads s v" if "v \<notin> set (t # ts) \<or> v \<in> set keep" for v
  proof -
    have "v \<noteq> t" "v \<notin> set ts \<or> v \<in> set keep" using that t by auto
    then show ?thesis using IH(5) V(4) by metis
  qed
  have "events s' event AND events s event = events s' event" using IH(2) V(6) by (metis and.assoc)
  moreover have "set keep \<noteq> set (t # ts)" using t by auto
  ultimately show ?thesis using IH(1,3) 1 2 unfolding served_def by auto
qed

lemma event_send_loop_ok:
  assumes "running s c" "tlists s (Suspend event) = pre @ ts" "\<And>v. v \<in> set pre \<Longrightarrow> \<not> satisfied s event v"
    "event_send_loop event ts need s = (need', s')"
  shows "running s' c \<and> (\<exists>keep. tlists s' (Suspend event) = pre @ keep \<and> served event ts keep s s'
    \<and> (need' \<longleftrightarrow> need \<or> set keep \<noteq> set ts))"
  using assms
proof (induction ts arbitrary: s pre need)
  case Nil
  then show ?case by (auto simp: event_quiet_def served_def)
next
  case (Cons t ts)
  have d: "distinct (pre @ t # ts)" using waiting_distinct[OF runningD(1)[OF Cons.prems(1)], of "Suspend event"] Cons.prems(2) by simp
  show ?case
  proof (cases "satisfied s event t")
    case True
    note V = visit_ok[OF Cons.prems(1,2) True]
    have pre: "\<not> satisfied (visit event t s) event v" if "v \<in> set pre" for v
    proof -
      have "v \<noteq> t" using d that by auto
      then have "threads (visit event t s) v = threads s v" by (rule V(4))
      then show ?thesis using Cons.prems(3)[OF that] event_cond_mono[OF _ V(6)] by (auto simp: satisfied_def)
    qed
    have "event_send_loop event ts True (visit event t s) = (need', s')"
      using Cons.prems(4) True unfolding event_send_loop_step by simp
    from Cons.IH[OF V(1,2) pre this] show ?thesis using served_visit[OF Cons.prems(1,2) True] by blast
  next
    case False
    have q: "tlists s (Suspend event) = (pre @ [t]) @ ts" using Cons.prems(2) by simp
    have "event_send_loop event ts need s = (need', s')"
      using Cons.prems(4) False unfolding event_send_loop_step by simp
    from Cons.IH[OF Cons.prems(1) q _ this] Cons.prems(3) False obtain keep where
      IH: "running s' c" "tlists s' (Suspend event) = (pre @ [t]) @ keep" "served event ts keep s s'"
      "need' \<longleftrightarrow> need \<or> set keep \<noteq> set ts" by auto
    have "t \<notin> set ts" "set keep \<subseteq> set ts" using d IH(3) by (auto simp: served_def)
    then have "served event (t # ts) (t # keep) s s'" "set (t # keep) \<noteq> set (t # ts) \<longleftrightarrow> set keep \<noteq> set ts"
      using IH(3) by (auto simp: served_def)
    then show ?thesis using IH by (intro conjI exI[of _ "t # keep"]) auto
  qed
qed

subsection \<open>Properties\<close>

text \<open>C30: Sending events loses no wake-up: afterwards no thread that still waits has its condition
  satisfied; every thread that left the queue is ready and holds a legal result, all the bits
  it waits for with the AND option, a non-empty part of the sent ones with OR; the threads that
  still wait are untouched, and the one that runs has a priority at least as high as any
  thread woken.\<close>

theorem rt_event_send_loses_no_wakeup:
  assumes "running s t" "bits \<noteq> 0"
  shows "\<exists>s' u. rt_event_send event bits s = Some (RT_EOK, s') \<and> running s' u \<and> event_quiet s' event
    \<and> set (tlists s' (Suspend event)) \<subseteq> set (tlists s (Suspend event))
    \<and> (\<forall>v \<in> set (tlists s (Suspend event)). if v \<in> set (tlists s' (Suspend event)) then threads s' v = threads s v
         else ready s' v \<and> got (threads s v) (events s event OR bits) (event_set (threads s' v))
           \<and> current_priority (threads s' u) \<le> current_priority (threads s' v))
    \<and> events s' event AND (events s event OR bits) = events s' event"
proof -
  define s0 where "s0 = upd_event event (\<lambda>v. v OR bits) s"
  have s0: "running s0 t" "tlists s0 = tlists s" "threads s0 = threads s" "events s0 event = events s event OR bits"
    using event_field.upd_running[OF assms(1)] by (simp_all add: s0_def event_field.upd_simps event_field.get_upd)
  obtain need s1 where l: "event_send_loop event (tlists s (Suspend event)) False s0 = (need, s1)" by fastforce
  have q: "tlists s0 (Suspend event) = [] @ tlists s (Suspend event)" by (simp add: s0)
  from event_send_loop_ok[OF s0(1) q _ l] obtain keep where
    L: "running s1 t" "event_quiet s1 event" "events s1 event AND (events s event OR bits) = events s1 event"
    "tlists s1 (Suspend event) = keep" "set keep \<subseteq> set (tlists s (Suspend event))"
    "\<And>v. v \<in> set (tlists s (Suspend event)) - set keep \<Longrightarrow> ready s1 v
        \<and> got (threads s v) (events s event OR bits) (event_set (threads s1 v))"
    "\<And>v. v \<in> set keep \<Longrightarrow> threads s1 v = threads s v" "need \<longleftrightarrow> set keep \<noteq> set (tlists s (Suspend event))"
    by (auto simp: s0 served_def)
  show ?thesis
  proof (cases need)
    case True
    obtain s' u where s': "rt_schedule s1 = Some s'" "kframe s1 s'" "threads s' = threads s1" "tlists s' = tlists s1"
      "running s' u" "\<forall>v. ready s1 v \<longrightarrow> current_priority (threads s1 u) \<le> current_priority (threads s1 v)"
      using running_schedule[OF L(1)] by blast
    have e: "events s' = events s1" by (rule event_field.get_kframe[OF s'(2)])
    have "rt_event_send event bits s = Some (RT_EOK, s')"
      using assms(2) l True s'(1) s0(2) by (simp add: rt_event_send_def flip: s0_def)
    moreover have "event_quiet s' event" using L(2) s'(3,4) e by (simp add: event_quiet_def satisfied_def)
    ultimately show ?thesis using s' L(3-7) e by (intro exI[of _ s'] exI[of _ u]) (auto simp: ready_def)
  next
    case False
    then have "rt_event_send event bits s = Some (RT_EOK, s1)"
      using assms(2) l s0(2) by (simp add: rt_event_send_def flip: s0_def)
    then show ?thesis using False L by (intro exI[of _ s1] exI[of _ t]) auto
  qed
qed

text \<open>Receiving, after the parameter checks and the reset of the error field.\<close>

lemma event_recv_start:
  assumes "running s t" "bits \<noteq> 0" "opt AND EVENT_FLAG_AND \<noteq> 0 \<or> opt AND EVENT_FLAG_OR \<noteq> 0"
  defines "s0 \<equiv> upd_thread t (\<lambda>th. th\<lparr>thread_error := RT_EOK\<rparr>) s"
  shows "rt_event_recv event bits opt time s =
      (if event_cond opt bits (events s event) then
         Some (Ret (RT_EOK, Some (events s event AND bits)),
           if opt AND EVENT_FLAG_CLEAR \<noteq> 0 then upd_event event (\<lambda>v. v AND NOT bits) s0 else s0)
       else if time = 0 then Some (Ret (- RT_ETIMEOUT, None), upd_thread t (\<lambda>th. th\<lparr>thread_error := - RT_ETIMEOUT\<rparr>) s0)
       else do { s \<leftarrow> ipc_wait (Suspend event) t (o_flag (objs s (At event))) time
                   (upd_thread t (\<lambda>th. th\<lparr>event_set := bits, event_info := opt\<rparr>) s0);
                 Some (if rt_current_thread s = Some t then (Ret (rt_event_recv_end t s), s) else (Wait t, s)) })"
proof -
  have s0: "tlists s0 = tlists s" "events s0 = events s" "objs s0 = objs s"
    "threads s0 = (threads s)(t := (threads s t)\<lparr>thread_error := RT_EOK\<rparr>)"
    by (simp_all add: s0_def) (simp add: upd_thread_def)
  show ?thesis
    using assms(2,3) runningD(8,9)[OF assms(1)]
    by (auto simp: rt_event_recv_def RT_ASSERT_def s0(1-3) simp flip: s0_def) (simp_all add: s0)
qed

lemma event_quiet_keep:
  assumes "event_quiet s event" "t \<notin> set (tlists s (Suspend event))" "tlists v (Suspend event) = tlists s (Suspend event)"
    "\<And>u. u \<noteq> t \<Longrightarrow> threads v u = threads s u" "events v event AND events s event = events v event"
  shows "event_quiet v event"
  using assms event_cond_mono[OF _ assms(5)] unfolding event_quiet_def satisfied_def by (metis (no_types, lifting))

lemma event_recv_waits:
  assumes r: "running s t" and i: "ready s i" "i \<noteq> t" and q: "event_quiet s event" and time: "legal_time time"
    and fl: "o_flag (objs s (At event)) = IPC_FLAG_FIFO \<or> o_flag (objs s (At event)) = IPC_FLAG_PRIO"
    and c: "\<not> event_cond opt bits (events s event)"
  defines "s1 \<equiv> upd_thread t (\<lambda>th. th\<lparr>event_set := bits, event_info := opt\<rparr>) (upd_thread t (\<lambda>th. th\<lparr>thread_error := RT_EOK\<rparr>) s)"
  shows "\<exists>s' u. ipc_wait (Suspend event) t (o_flag (objs s (At event))) time s1 = Some s' \<and> rt_current_thread s' = Some u \<and> u \<noteq> t
    \<and> running s' u \<and> event_quiet s' event \<and> events s' = events s \<and> event_set (threads s' t) = bits \<and> event_info (threads s' t) = opt
    \<and> set (tlists s' (Suspend event)) = insert t (set (tlists s (Suspend event)))"
proof -
  have s1: "running s1 t" "tlists s1 = tlists s" "events s1 = events s" "ready s1 i"
    "threads s1 = (threads s)(t := (threads s t)\<lparr>thread_error := RT_EOK, event_set := bits, event_info := opt\<rparr>)"
    using r i by (simp_all add: s1_def ready_def) (simp add: upd_thread_def)
  obtain s' u where s': "ipc_wait (Suspend event) t (o_flag (objs s (At event))) time s1 = Some s'" "kframe s1 s'"
    "threads s' = (threads s1)(t := (threads s1 t)\<lparr>stat := THREAD_SUSPEND\<rparr>)"
    "waits_as s1 s' (Suspend event) (enqueue (\<lambda>v. current_priority (threads s1 v)) (o_flag (objs s (At event))) t (tlists s1 (Suspend event)))"
    "rt_current_thread s' = Some u" "u \<noteq> t" "running s' u"
    using ipc_wait_blocks[OF s1(1,4) i(2) fl _ time, of "Suspend event"] by auto
  have e: "events s' = events s" using event_field.get_kframe[OF s'(2)] s1(3) by simp
  have w: "set (tlists s' (Suspend event)) = insert t (set (tlists s (Suspend event)))"
    using s'(4) by (simp add: waits_as_def s1(2))
  have th: "event_set (threads s' t) = bits" "event_info (threads s' t) = opt" "\<And>v. v \<noteq> t \<Longrightarrow> threads s' v = threads s v"
    by (simp_all add: s'(3) s1(5))
  have "\<not> satisfied s' event v" if "v \<in> set (tlists s' (Suspend event))" for v
    using that q c th w e by (cases "v = t") (auto simp: event_quiet_def satisfied_def)
  then have "event_quiet s' event" by (simp add: event_quiet_def)
  then show ?thesis using s'(1,5-7) e w th by (intro exI[of _ s'] exI[of _ u]) simp
qed

text \<open>C31: For a running thread \<open>rt_event_recv\<close> with a satisfied condition returns the bits received
  and takes them out of the set when asked to; otherwise it reports a timeout, or the thread
  waits with its bits and options recorded. Neither creates a waiting thread whose condition
  is satisfied.\<close>

theorem rt_event_recv_correct:
  assumes "running s t" "ready s i" "i \<noteq> t" "event_quiet s event" "legal_time time" "bits \<noteq> 0"
    "opt AND EVENT_FLAG_AND \<noteq> 0 \<or> opt AND EVENT_FLAG_OR \<noteq> 0"
    "o_flag (objs s (At event)) = IPC_FLAG_FIFO \<or> o_flag (objs s (At event)) = IPC_FLAG_PRIO"
  shows "\<exists>s' u. running s' u \<and> event_quiet s' event \<and>
    (if event_cond opt bits (events s event) then
       rt_event_recv event bits opt time s = Some (Ret (RT_EOK, Some (events s event AND bits)), s') \<and> u = t
       \<and> events s' event = (if opt AND EVENT_FLAG_CLEAR \<noteq> 0 then events s event AND NOT bits else events s event)
       \<and> tlists s' (Suspend event) = tlists s (Suspend event)
     else if time = 0 then
       rt_event_recv event bits opt time s = Some (Ret (- RT_ETIMEOUT, None), s') \<and> u = t
       \<and> events s' = events s \<and> tlists s' (Suspend event) = tlists s (Suspend event)
     else
       rt_event_recv event bits opt time s = Some (Wait t, s') \<and> u \<noteq> t \<and> events s' = events s
       \<and> event_set (threads s' t) = bits \<and> event_info (threads s' t) = opt
       \<and> set (tlists s' (Suspend event)) = insert t (set (tlists s (Suspend event))))"
proof -
  note D = runningD[OF assms(1)] and start = event_recv_start[OF assms(1,6,7)]
  have nt: "t \<notin> set (tlists s (Suspend event))" using waiting_stat[OF D(1), of "Suspend event" t] D(4) by auto
  define s0 where "s0 = upd_thread t (\<lambda>th. th\<lparr>thread_error := RT_EOK\<rparr>) s"
  have s0: "running s0 t" "tlists s0 = tlists s" "events s0 = events s" "\<And>u. u \<noteq> t \<Longrightarrow> threads s0 u = threads s u"
    using assms(1) by (simp_all add: s0_def) (simp add: upd_thread_def)
  consider (hit) "event_cond opt bits (events s event)" | (now) "\<not> event_cond opt bits (events s event)" "time = 0"
    | (wait) "\<not> event_cond opt bits (events s event)" "time \<noteq> 0" by blast
  then show ?thesis
  proof cases
    case hit
    define s' where "s' = (if opt AND EVENT_FLAG_CLEAR \<noteq> 0 then upd_event event (\<lambda>v. v AND NOT bits) s0 else s0)"
    have s': "running s' t" "tlists s' = tlists s" "threads s' = threads s0"
      "events s' event = (if opt AND EVENT_FLAG_CLEAR \<noteq> 0 then events s event AND NOT bits else events s event)"
      using s0 by (simp_all add: s'_def event_field.upd_running event_field.upd_simps event_field.get_upd)
    have "(events s event AND NOT bits) AND events s event = events s event AND NOT bits"
      by (metis and.assoc and.commute and.idem)
    then have "event_quiet s' event" using s' s0(4) by (intro event_quiet_keep[OF assms(4) nt]) auto
    then show ?thesis unfolding start using hit s' by (auto simp: s'_def s0_def intro!: exI[of _ s'] exI[of _ t])
  next
    case now
    define s' where "s' = upd_thread t (\<lambda>th. th\<lparr>thread_error := - RT_ETIMEOUT\<rparr>) s0"
    have s': "running s' t" "tlists s' = tlists s" "events s' = events s" "\<And>u. u \<noteq> t \<Longrightarrow> threads s' u = threads s u"
      using s0 by (simp_all add: s'_def) (simp add: upd_thread_def)
    then have "event_quiet s' event" by (intro event_quiet_keep[OF assms(4) nt]) auto
    then show ?thesis unfolding start using now s' by (auto simp: s'_def s0_def intro!: exI[of _ s'] exI[of _ t])
  next
    case wait
    then show ?thesis unfolding start using event_recv_waits[OF assms(1-5,8) wait(1)] by fastforce
  qed
qed

subsection \<open>Witnesses\<close>

definition demo_event :: event_state where
  "demo_event = demo_kernel \<lparr>sems = (\<lambda>_. 0), mutexes = demo_mutexes, events = (\<lambda>_. 6)\<rparr>"

lemma demo_event_facts:
  "running demo_event 1" "ready demo_event 2" "events demo_event a = 6" "tlists demo_event (Suspend a) = []"
  "event_quiet demo_event a" "o_flag (objs demo_event (At a)) = 0"
proof -
  show "running demo_event 1" "ready demo_event 2" "events demo_event a = 6"
    unfolding demo_event_def by (rule demo_kernel_running)+ (simp add: demo_kernel_def sched_state.defs)
  show "tlists demo_event (Suspend a) = []" "o_flag (objs demo_event (At a)) = 0"
    by (simp_all add: demo_event_def demo_tlists_def demo_obj_def)
  then show "event_quiet demo_event a" by (simp add: event_quiet_def)
qed

theorem rt_event_send_loses_no_wakeup_witness:
  "\<exists>s' u. rt_event_send 7 1 demo_event = Some (RT_EOK, s') \<and> running s' u \<and> event_quiet s' 7"
  using rt_event_send_loses_no_wakeup[OF demo_event_facts(1), of 1 7] by auto

theorem rt_event_recv_correct_witness:
  "\<exists>s' u. rt_event_recv 7 3 2 5 demo_event = Some (Ret (RT_EOK, Some 2), s') \<and> running s' u"
  using rt_event_recv_correct[OF demo_event_facts(1,2) _ demo_event_facts(5) legal_time_5, of 3 2 7]
  by (auto simp: event_cond_def demo_event_facts)

end
