(* ===== verification/Fifo.thy ===== *)
theory Fifo
  imports Prelude
begin

text \<open>
  Bounded first-in first-out queues: the arithmetic of circular buffers, and the interface
  \<open>fifo\<close> that the mailbox, the message queue, the data queue and the ring buffer implement, with
  the order theorem proved once for all of them.
\<close>

subsection \<open>Circular buffers\<close>

text \<open>The \<open>n\<close> entries of a circular buffer of \<open>sz\<close> slots, from the slot \<open>i\<close> on.\<close>

definition ring_list :: "(nat \<Rightarrow> 'v) \<Rightarrow> nat \<Rightarrow> nat \<Rightarrow> nat \<Rightarrow> 'v list" where
  "ring_list buf i n sz = map (\<lambda>k. buf ((i + k) mod sz)) [0..<n]"

lemma length_ring_list [simp]: "length (ring_list buf i n sz) = n"
  by (simp add: ring_list_def)

lemma ring_list_0 [simp]: "ring_list buf i 0 sz = []"
  by (simp add: ring_list_def)

lemma ring_list_eq_Nil [simp]: "ring_list buf i n sz = [] \<longleftrightarrow> n = 0"
  by (simp add: ring_list_def)

lemma ring_slot_neq:
  assumes "k < n" "n < sz"
  shows "(i + k) mod sz \<noteq> (i + n) mod (sz :: nat)"
proof
  assume "(i + k) mod sz = (i + n) mod sz"
  then have "(i + n) mod sz = (i + k) mod sz" by simp
  then have "sz dvd (i + n) - (i + k)" using assms by (subst mod_eq_dvd_iff_nat[symmetric]) auto
  then show False using assms by (auto dest: dvd_imp_le)
qed

lemma ring_push:
  assumes "n < sz" "j = (i + n) mod sz"
  shows "ring_list (buf(j := v)) i (Suc n) sz = ring_list buf i n sz @ [v]"
  using assms ring_slot_neq[OF _ assms(1), of _ i] by (simp add: ring_list_def)

lemma ring_pop:
  assumes "0 < n" "i < sz"
  shows "ring_list buf i n sz = buf i # ring_list buf (Suc i mod sz) (n - 1) sz"
proof -
  have "[0..<n] = 0 # map Suc [0..<n - 1]" using assms(1) by (metis Suc_pred' map_Suc_upt upt_conv_Cons)
  moreover have "(Suc i mod sz + k) mod sz = (i + Suc k) mod sz" for k
    by (simp add: mod_add_left_eq)
  ultimately show ?thesis using assms(2) by (simp add: ring_list_def)
qed

lemma unat_succ_less: "i < (sz :: 'b::len word) \<Longrightarrow> unat (i + 1) = Suc (unat i)"
proof -
  assume "i < sz"
  then have "i \<noteq> - 1" using word_n1_ge[of sz] by auto
  then have "1 + i \<noteq> 0" by (simp add: add.commute eq_neg_iff_add_eq_0)
  then show ?thesis using unatSuc[of i] by (simp add: add.commute)
qed

text \<open>A C index that is incremented and set back to zero at the end.\<close>

lemma wrap_index:
  assumes "i < (sz :: nat)"
  shows "(if Suc i \<ge> sz then 0 else Suc i) = Suc i mod sz"
  using assms by (cases "Suc i = sz") auto

subsection \<open>The interface\<close>

datatype 'v qop = Put 'v | Get

text \<open>
  \<open>run\<close> applies a sequence of operations; a put into a full queue and a get from an empty one
  are refused. It collects what was accepted and what was delivered.
\<close>

locale fifo =
  fixes inv :: "'s \<Rightarrow> bool"
    and items :: "'s \<Rightarrow> 'v list"
    and capacity :: "'s \<Rightarrow> nat"
    and put :: "'v \<Rightarrow> 's \<Rightarrow> 's"
    and get :: "'s \<Rightarrow> 'v \<times> 's"
  assumes put_inv: "inv s \<Longrightarrow> length (items s) < capacity s \<Longrightarrow> inv (put v s)"
    and put_items: "inv s \<Longrightarrow> length (items s) < capacity s \<Longrightarrow> items (put v s) = items s @ [v]"
    and put_capacity: "capacity (put v s) = capacity s"
    and get_inv: "inv s \<Longrightarrow> items s \<noteq> [] \<Longrightarrow> inv (snd (get s))"
    and get_items: "inv s \<Longrightarrow> items s \<noteq> [] \<Longrightarrow> items s = fst (get s) # items (snd (get s))"
    and get_capacity: "capacity (snd (get s)) = capacity s"
    and bounded: "inv s \<Longrightarrow> length (items s) \<le> capacity s"
begin

fun run :: "'v qop list \<Rightarrow> 's \<Rightarrow> 'v list \<times> 'v list \<times> 's" where
  "run [] s = ([], [], s)"
| "run (Put v # ops) s =
     (if length (items s) < capacity s
      then (case run ops (put v s) of (ins, outs, s) \<Rightarrow> (v # ins, outs, s))
      else run ops s)"
| "run (Get # ops) s =
     (if items s = [] then run ops s
      else case run ops (snd (get s)) of (ins, outs, s') \<Rightarrow> (ins, fst (get s) # outs, s'))"

lemma run_order:
  assumes "inv s" "run ops s = (ins, outs, s')"
  shows "inv s' \<and> capacity s' = capacity s \<and> items s @ ins = outs @ items s'"
  using assms
proof (induction ops s arbitrary: ins outs rule: run.induct)
  case (2 v ops s)
  then show ?case
    by (cases "length (items s) < capacity s")
       (auto simp: put_inv put_items put_capacity split: prod.splits)
next
  case (3 ops s)
  show ?case
  proof (cases "items s = []")
    case False
    obtain ins' outs' where r: "run ops (snd (get s)) = (ins', outs', s')" "ins = ins'" "outs = fst (get s) # outs'"
      using 3(4) False by (auto split: prod.splits)
    show ?thesis using 3(2)[OF False get_inv[OF 3(3) False] r(1)] get_items[OF 3(3) False] r(2,3)
      by (simp add: get_capacity)
  qed (use 3 in simp)
qed auto

lemma put_get:
  assumes "inv s" "items s = []" "0 < capacity s"
  shows "fst (get (put v s)) = v" "items (snd (get (put v s))) = []"
proof -
  have "items (put v s) = [v]" "inv (put v s)" using put_items put_inv assms by auto
  then show "fst (get (put v s)) = v" "items (snd (get (put v s))) = []" using get_items[of "put v s"] by auto
qed

end

end
