(* ===== verification/Mailbox.thy ===== *)
theory Mailbox
  imports Event Fifo
begin

text \<open>
  Mailboxes, \<^verbatim>\<open>src/ipc.c\<close>: a circular buffer of 32-bit mails with a queue of waiting receivers
  (\<open>Suspend mb\<close>) and one of waiting senders (\<open>SuspendSender mb\<close>). The buffer belongs to the mailbox;
  \<open>mb_pool\<close> gives its words by index. A blocking call loops: a thread that was woken without an
  error tries again with the time that is left.
\<close>

record rt_mailbox =
  mb_msg_pool :: nat
  mb_pool :: "nat \<Rightarrow> rt_uint32_t"
  mb_size :: rt_uint16_t
  mb_entry :: rt_uint16_t
  mb_in_offset :: rt_uint16_t
  mb_out_offset :: rt_uint16_t

record mb_state = event_state +
  mailboxes :: "nat \<Rightarrow> rt_mailbox"

definition upd_mb :: "nat \<Rightarrow> (rt_mailbox \<Rightarrow> rt_mailbox) \<Rightarrow> 'a mb_state_scheme \<Rightarrow> 'a mb_state_scheme" where
  "upd_mb a f s = s\<lparr>mailboxes := (mailboxes s)(a := f (mailboxes s a))\<rparr>"

definition rt_mb_init :: "nat \<Rightarrow> 8 word list \<Rightarrow> nat \<Rightarrow> rt_uint32_t \<Rightarrow> rt_uint8_t \<Rightarrow> 'a mb_state_scheme
    \<Rightarrow> 'a mb_state_scheme option" where
  "rt_mb_init mb name msgpool sz flag s =
     do { s \<leftarrow> rt_object_init (At mb) Class_MailBox name s;
          let s = upd_obj (At mb) (\<lambda>ob. ob\<lparr>o_flag := flag\<rparr>) s;
          let s = rt_ipc_object_init (Suspend mb) s;
          let s = upd_mb mb (\<lambda>m. m\<lparr>mb_msg_pool := msgpool, mb_size := ucast sz, mb_entry := 0,
                mb_in_offset := 0, mb_out_offset := 0\<rparr>) s;
          Some (rt_ipc_object_init (SuspendSender mb) s) }"

definition rt_mb_detach :: "nat \<Rightarrow> 'a mb_state_scheme \<Rightarrow> 'a mb_state_scheme option" where
  "rt_mb_detach mb s =
     do { s \<leftarrow> rt_ipc_list_resume_all (Suspend mb) s;
          s \<leftarrow> rt_ipc_list_resume_all (SuspendSender mb) s;
          Some (rt_object_detach (At mb) s) }"

definition rt_mb_create :: "8 word list \<Rightarrow> rt_uint32_t \<Rightarrow> rt_uint8_t \<Rightarrow> 'a mb_state_scheme
    \<Rightarrow> (nat option \<times> 'a mb_state_scheme) option" where
  "rt_mb_create name sz flag s =
     do { s \<leftarrow> RT_DEBUG_NOT_IN_INTERRUPT s;
          (a, s) \<leftarrow> rt_object_allocate Class_MailBox name s;
          case a of
            None \<Rightarrow> Some (None, s)
          | Some mb \<Rightarrow>
              do { let s = upd_obj (At mb) (\<lambda>ob. ob\<lparr>o_flag := flag\<rparr>) s;
                   let s = rt_ipc_object_init (Suspend mb) s;
                   let s = upd_mb mb (\<lambda>m. m\<lparr>mb_size := ucast sz\<rparr>) s;
                   (p, s) \<leftarrow> rt_malloc (unat (mb_size (mailboxes s mb)) * 4) s;
                   case p of
                     None \<Rightarrow> do { s \<leftarrow> rt_object_delete mb s; Some (None, s) }
                   | Some pool \<Rightarrow>
                       (let s = upd_mb mb (\<lambda>m. m\<lparr>mb_msg_pool := pool, mb_entry := 0,
                              mb_in_offset := 0, mb_out_offset := 0\<rparr>) s
                        in Some (Some mb, rt_ipc_object_init (SuspendSender mb) s)) } }"

definition rt_mb_delete :: "nat \<Rightarrow> 'a mb_state_scheme \<Rightarrow> 'a mb_state_scheme option" where
  "rt_mb_delete mb s =
     do { s \<leftarrow> RT_DEBUG_NOT_IN_INTERRUPT s;
          s \<leftarrow> rt_ipc_list_resume_all (Suspend mb) s;
          s \<leftarrow> rt_ipc_list_resume_all (SuspendSender mb) s;
          s \<leftarrow> rt_free (Some (mb_msg_pool (mailboxes s mb))) s;
          rt_object_delete mb s }"

text \<open>Writing a mail into the buffer and reading one, on the structure alone.\<close>

definition mb_store :: "rt_uint32_t \<Rightarrow> rt_mailbox \<Rightarrow> rt_mailbox" where
  "mb_store val m =
     (let m = m\<lparr>mb_pool := (mb_pool m)(unat (mb_in_offset m) := val), mb_in_offset := mb_in_offset m + 1\<rparr>;
          m = (if mb_in_offset m \<ge> mb_size m then m\<lparr>mb_in_offset := 0\<rparr> else m)
      in m\<lparr>mb_entry := mb_entry m + 1\<rparr>)"

definition mb_fetch :: "rt_mailbox \<Rightarrow> rt_uint32_t \<times> rt_mailbox" where
  "mb_fetch m =
     (let val = mb_pool m (unat (mb_out_offset m));
          m = m\<lparr>mb_out_offset := mb_out_offset m + 1\<rparr>;
          m = (if mb_out_offset m \<ge> mb_size m then m\<lparr>mb_out_offset := 0\<rparr> else m)
      in (val, m\<lparr>mb_entry := mb_entry m - 1\<rparr>))"

text \<open>The end of a send and of a receive: move the mail, then wake the first thread of the other side.\<close>

definition mb_put :: "nat \<Rightarrow> rt_uint32_t \<Rightarrow> 'a mb_state_scheme \<Rightarrow> (rt_err_t \<times> 'a mb_state_scheme) option" where
  "mb_put mb val s = do { s \<leftarrow> wake_first (Suspend mb) (upd_mb mb (mb_store val) s); Some (RT_EOK, s) }"

definition mb_get :: "nat \<Rightarrow> 'a mb_state_scheme \<Rightarrow> ((rt_err_t \<times> rt_uint32_t option) \<times> 'a mb_state_scheme) option" where
  "mb_get mb s =
     (let (val, m) = mb_fetch (mailboxes s mb) in
      do { s \<leftarrow> wake_first (SuspendSender mb) (upd_mb mb (\<lambda>_. m) s); Some ((RT_EOK, Some val), s) })"

text \<open>
  The loops. \<open>Wait (t, timeout, tick_delta)\<close> is the state of the local variables of the thread \<open>t\<close>
  that was switched away from.
\<close>

partial_function (option) mb_send_loop :: "nat \<Rightarrow> rt_uint32_t \<Rightarrow> rt_uint32_t \<Rightarrow> 'a mb_state_scheme
    \<Rightarrow> ((rt_err_t, tid \<times> rt_uint32_t \<times> rt_tick_t) outcome \<times> 'a mb_state_scheme) option" where
  "mb_send_loop mb val timeout s =
     (if mb_entry (mailboxes s mb) = mb_size (mailboxes s mb) then
        do { t \<leftarrow> rt_thread_self s;
             let s = upd_thread t (\<lambda>th. th\<lparr>thread_error := RT_EOK\<rparr>) s;
             if timeout = 0 then Some (Ret (- RT_EFULL), s)
             else
               do { s \<leftarrow> RT_DEBUG_IN_THREAD_CONTEXT s;
                    let tick_delta = (if 0 < sint timeout then rt_tick_get s else 0);
                    s \<leftarrow> ipc_wait (SuspendSender mb) t (o_flag (objs s (At mb))) timeout s;
                    if rt_current_thread s \<noteq> Some t then Some (Wait (t, timeout, tick_delta), s)
                    else if thread_error (threads s t) \<noteq> RT_EOK then Some (Ret (thread_error (threads s t)), s)
                    else mb_send_loop mb val (remaining_time timeout tick_delta s) s } }
      else do { (r, s) \<leftarrow> mb_put mb val s; Some (Ret r, s) })"

definition rt_mb_send_wait :: "nat \<Rightarrow> rt_uint32_t \<Rightarrow> rt_uint32_t \<Rightarrow> 'a mb_state_scheme
    \<Rightarrow> ((rt_err_t, tid \<times> rt_uint32_t \<times> rt_tick_t) outcome \<times> 'a mb_state_scheme) option" where
  "rt_mb_send_wait mb val timeout s =
     (if mb_entry (mailboxes s mb) = mb_size (mailboxes s mb) \<and> timeout = 0 then Some (Ret (- RT_EFULL), s)
      else mb_send_loop mb val timeout s)"

definition rt_mb_send_resume :: "nat \<Rightarrow> rt_uint32_t \<Rightarrow> tid \<times> rt_uint32_t \<times> rt_tick_t \<Rightarrow> 'a mb_state_scheme
    \<Rightarrow> ((rt_err_t, tid \<times> rt_uint32_t \<times> rt_tick_t) outcome \<times> 'a mb_state_scheme) option" where
  "rt_mb_send_resume mb val c s =
     (case c of (t, timeout, tick_delta) \<Rightarrow>
        if thread_error (threads s t) \<noteq> RT_EOK then Some (Ret (thread_error (threads s t)), s)
        else mb_send_loop mb val (remaining_time timeout tick_delta s) s)"

definition rt_mb_send :: "nat \<Rightarrow> rt_uint32_t \<Rightarrow> 'a mb_state_scheme
    \<Rightarrow> ((rt_err_t, tid \<times> rt_uint32_t \<times> rt_tick_t) outcome \<times> 'a mb_state_scheme) option" where
  "rt_mb_send mb val s = rt_mb_send_wait mb val 0 s"

partial_function (option) mb_recv_loop :: "nat \<Rightarrow> rt_uint32_t \<Rightarrow> 'a mb_state_scheme
    \<Rightarrow> ((rt_err_t \<times> rt_uint32_t option, tid \<times> rt_uint32_t \<times> rt_tick_t) outcome \<times> 'a mb_state_scheme) option" where
  "mb_recv_loop mb timeout s =
     (if mb_entry (mailboxes s mb) = 0 then
        do { t \<leftarrow> rt_thread_self s;
             let s = upd_thread t (\<lambda>th. th\<lparr>thread_error := RT_EOK\<rparr>) s;
             if timeout = 0
             then Some (Ret (- RT_ETIMEOUT, None), upd_thread t (\<lambda>th. th\<lparr>thread_error := - RT_ETIMEOUT\<rparr>) s)
             else
               do { s \<leftarrow> RT_DEBUG_IN_THREAD_CONTEXT s;
                    let tick_delta = (if 0 < sint timeout then rt_tick_get s else 0);
                    s \<leftarrow> ipc_wait (Suspend mb) t (o_flag (objs s (At mb))) timeout s;
                    if rt_current_thread s \<noteq> Some t then Some (Wait (t, timeout, tick_delta), s)
                    else if thread_error (threads s t) \<noteq> RT_EOK then Some (Ret (thread_error (threads s t), None), s)
                    else mb_recv_loop mb (remaining_time timeout tick_delta s) s } }
      else do { (r, s) \<leftarrow> mb_get mb s; Some (Ret r, s) })"

definition rt_mb_recv :: "nat \<Rightarrow> rt_uint32_t \<Rightarrow> 'a mb_state_scheme
    \<Rightarrow> ((rt_err_t \<times> rt_uint32_t option, tid \<times> rt_uint32_t \<times> rt_tick_t) outcome \<times> 'a mb_state_scheme) option" where
  "rt_mb_recv mb timeout s =
     (if mb_entry (mailboxes s mb) = 0 \<and> timeout = 0 then Some (Ret (- RT_ETIMEOUT, None), s)
      else mb_recv_loop mb timeout s)"

definition rt_mb_recv_resume :: "nat \<Rightarrow> tid \<times> rt_uint32_t \<times> rt_tick_t \<Rightarrow> 'a mb_state_scheme
    \<Rightarrow> ((rt_err_t \<times> rt_uint32_t option, tid \<times> rt_uint32_t \<times> rt_tick_t) outcome \<times> 'a mb_state_scheme) option" where
  "rt_mb_recv_resume mb c s =
     (case c of (t, timeout, tick_delta) \<Rightarrow>
        if thread_error (threads s t) \<noteq> RT_EOK then Some (Ret (thread_error (threads s t), None), s)
        else mb_recv_loop mb (remaining_time timeout tick_delta s) s)"

definition rt_mb_control :: "nat \<Rightarrow> rt_uint8_t \<Rightarrow> nat \<Rightarrow> 'a mb_state_scheme
    \<Rightarrow> (rt_err_t \<times> 'a mb_state_scheme) option" where
  "rt_mb_control mb cmd arg s =
     (if cmd = 1 then
        do { s \<leftarrow> rt_ipc_list_resume_all (Suspend mb) s;
             s \<leftarrow> rt_ipc_list_resume_all (SuspendSender mb) s;
             s \<leftarrow> rt_schedule (upd_mb mb (\<lambda>m. m\<lparr>mb_entry := 0, mb_in_offset := 0, mb_out_offset := 0\<rparr>) s);
             Some (RT_EOK, s) }
      else Some (- RT_ERROR, s))"

interpretation mb_field: kernel_field mailboxes upd_mb
  by unfold_locales (simp_all add: upd_mb_def kernel_as_def)

subsection \<open>The circular buffer is a bounded queue\<close>

definition mb_ok :: "rt_mailbox \<Rightarrow> bool" where
  "mb_ok m \<longleftrightarrow> mb_entry m \<le> mb_size m \<and> mb_in_offset m < mb_size m \<and> mb_out_offset m < mb_size m
     \<and> unat (mb_in_offset m) = (unat (mb_out_offset m) + unat (mb_entry m)) mod unat (mb_size m)"

definition mails :: "rt_mailbox \<Rightarrow> rt_uint32_t list" where
  "mails m = ring_list (mb_pool m) (unat (mb_out_offset m)) (unat (mb_entry m)) (unat (mb_size m))"

lemma word_index_succ:
  assumes "i < (sz :: 16 word)"
  shows "unat (if i + 1 \<ge> sz then 0 else i + 1) = Suc (unat i) mod unat sz"
proof -
  note s = unat_succ_less[OF assms]
  have "unat i < unat sz" using assms by (simp add: word_less_nat_alt)
  then show ?thesis using wrap_index[of "unat i" "unat sz"] s by (auto simp: word_le_nat_alt split: if_splits)
qed

lemma mb_store_simps:
  "mb_pool (mb_store v m) = (mb_pool m)(unat (mb_in_offset m) := v)" "mb_size (mb_store v m) = mb_size m"
  "mb_entry (mb_store v m) = mb_entry m + 1" "mb_out_offset (mb_store v m) = mb_out_offset m"
  "mb_in_offset (mb_store v m) = (if mb_in_offset m + 1 \<ge> mb_size m then 0 else mb_in_offset m + 1)"
  by (simp_all add: mb_store_def Let_def)

lemma mb_fetch_simps:
  "fst (mb_fetch m) = mb_pool m (unat (mb_out_offset m))" "mb_size (snd (mb_fetch m)) = mb_size m"
  "mb_pool (snd (mb_fetch m)) = mb_pool m" "mb_entry (snd (mb_fetch m)) = mb_entry m - 1"
  "mb_in_offset (snd (mb_fetch m)) = mb_in_offset m"
  "mb_out_offset (snd (mb_fetch m)) = (if mb_out_offset m + 1 \<ge> mb_size m then 0 else mb_out_offset m + 1)"
  by (simp_all add: mb_fetch_def Let_def)

lemma mb_store_ok:
  assumes ok: "mb_ok m" and room: "mb_entry m < mb_size m"
  shows "mb_ok (mb_store v m)" "mails (mb_store v m) = mails m @ [v]"
proof -
  note e = unat_succ_less[OF room]
  have n: "unat (mb_entry m) < unat (mb_size m)" using room by (simp add: word_less_nat_alt)
  have i: "unat (mb_in_offset (mb_store v m)) = Suc (unat (mb_in_offset m)) mod unat (mb_size m)"
    unfolding mb_store_simps using ok by (intro word_index_succ) (simp add: mb_ok_def)
  then have "mb_in_offset (mb_store v m) < mb_size m" using n by (simp add: word_less_nat_alt)
  then show "mb_ok (mb_store v m)"
    using ok i e n by (simp add: mb_ok_def mb_store_simps(2-4) word_le_nat_alt mod_Suc_eq)
  show "mails (mb_store v m) = mails m @ [v]"
    using ok ring_push[OF n, of "unat (mb_in_offset m)" "unat (mb_out_offset m)" "mb_pool m" v] e
    by (simp add: mails_def mb_store_simps mb_ok_def)
qed

lemma mb_fetch_ok:
  assumes ok: "mb_ok m" and some: "mb_entry m \<noteq> 0"
  shows "mb_ok (snd (mb_fetch m))" "mails m = fst (mb_fetch m) # mails (snd (mb_fetch m))"
proof -
  have e: "unat (mb_entry m - 1) = unat (mb_entry m) - 1" "0 < unat (mb_entry m)"
    using some by (simp_all add: unat_minus_one unat_gt_0)
  have o: "unat (mb_out_offset m) < unat (mb_size m)" using ok by (simp add: mb_ok_def word_less_nat_alt)
  have i: "unat (mb_out_offset (snd (mb_fetch m))) = Suc (unat (mb_out_offset m)) mod unat (mb_size m)"
    unfolding mb_fetch_simps using ok by (intro word_index_succ) (simp add: mb_ok_def)
  then have lt: "mb_out_offset (snd (mb_fetch m)) < mb_size m" using o by (simp add: word_less_nat_alt)
  have "(Suc (unat (mb_out_offset m)) mod unat (mb_size m) + (unat (mb_entry m) - 1)) mod unat (mb_size m)
      = (unat (mb_out_offset m) + unat (mb_entry m)) mod unat (mb_size m)"
    unfolding mod_add_left_eq using e(2) by simp
  then show "mb_ok (snd (mb_fetch m))"
    using ok i e lt by (auto simp: mb_ok_def mb_fetch_simps(2-5) word_le_nat_alt)
  show "mails m = fst (mb_fetch m) # mails (snd (mb_fetch m))"
    using ring_pop[OF e(2) o, of "mb_pool m"] i e(1) by (simp add: mails_def mb_fetch_simps(1-5))
qed

interpretation mailbox_fifo: fifo mb_ok mails "\<lambda>m. unat (mb_size m)" mb_store mb_fetch
proof (unfold_locales, goal_cases)
  case (1 m v)
  then show ?case using mb_store_ok(1) by (simp add: mails_def word_less_nat_alt)
next
  case (2 m v)
  then show ?case using mb_store_ok(2) by (simp add: mails_def word_less_nat_alt)
next
  case (4 m)
  then show ?case using mb_fetch_ok(1) by (auto simp: mails_def unat_eq_0)
next
  case (5 m)
  then show ?case using mb_fetch_ok(2) by (auto simp: mails_def unat_eq_0)
qed (simp_all add: mb_store_simps mb_fetch_simps mails_def mb_ok_def word_le_nat_alt)

subsection \<open>Properties\<close>

text \<open>For a running thread \<open>rt_mb_send_wait\<close> appends the mail to a mailbox with room and wakes
  the first waiting receiver; a full mailbox refuses the mail at once, or the thread joins the
  queue of senders and another thread runs. The mails already there are never touched.\<close>

theorem rt_mb_send_wait_correct:
  assumes "running s t" "ready s i" "i \<noteq> t" "mb_ok (mailboxes s mb)" "legal_time time"
    "o_flag (objs s (At mb)) = IPC_FLAG_FIFO \<or> o_flag (objs s (At mb)) = IPC_FLAG_PRIO"
  shows "\<exists>s' u. running s' u \<and> mb_ok (mailboxes s' mb) \<and>
    (if length (mails (mailboxes s mb)) < unat (mb_size (mailboxes s mb)) then
       rt_mb_send_wait mb val time s = Some (Ret RT_EOK, s')
       \<and> mails (mailboxes s' mb) = mails (mailboxes s mb) @ [val]
       \<and> waits_as s s' (Suspend mb) (tl (tlists s (Suspend mb)))
       \<and> (\<forall>w. tlists s (Suspend mb) \<noteq> [] \<and> w = hd (tlists s (Suspend mb)) \<longrightarrow> ready s' w)
     else if time = 0 then rt_mb_send_wait mb val time s = Some (Ret (- RT_EFULL), s') \<and> s' = s
     else (\<exists>d. rt_mb_send_wait mb val time s = Some (Wait (t, time, d), s')) \<and> u \<noteq> t
       \<and> mailboxes s' = mailboxes s
       \<and> waits_as s s' (SuspendSender mb)
           (enqueue (\<lambda>v. current_priority (threads s v)) (o_flag (objs s (At mb))) t (tlists s (SuspendSender mb))))"
proof -
  let ?m = "mailboxes s mb"
  have room: "length (mails ?m) < unat (mb_size ?m) \<longleftrightarrow> mb_entry ?m < mb_size ?m" by (simp add: mails_def word_less_nat_alt)
  have full: "mb_entry ?m = mb_size ?m" if "\<not> mb_entry ?m < mb_size ?m" using assms(4) that by (auto simp: mb_ok_def)
  consider (room) "mb_entry ?m < mb_size ?m" | (now) "\<not> mb_entry ?m < mb_size ?m" "time = 0"
    | (wait) "\<not> mb_entry ?m < mb_size ?m" "time \<noteq> 0" by blast
  then show ?thesis
  proof cases
    case 1: room
    define s1 where "s1 = upd_mb mb (mb_store val) s"
    have s1: "running s1 t" "tlists s1 = tlists s" "mailboxes s1 mb = mb_store val ?m"
      using mb_field.upd_running[OF assms(1)] by (simp_all add: s1_def mb_field.upd_simps mb_field.get_upd)
    obtain s' u where s': "wake_first (Suspend mb) s1 = Some s'" "running s' u" "kframe s1 s'"
      "waits_as s1 s' (Suspend mb) (tl (tlists s1 (Suspend mb)))"
      "\<forall>w. tlists s1 (Suspend mb) \<noteq> [] \<and> w = hd (tlists s1 (Suspend mb)) \<longrightarrow> ready s' w"
      using wake_first_ok[OF s1(1), of "Suspend mb"] by auto
    have "mailboxes s' mb = mb_store val ?m" using mb_field.get_kframe[OF s'(3)] s1(3) by simp
    moreover have "rt_mb_send_wait mb val time s = Some (Ret RT_EOK, s')"
      using 1 s'(1) by (subst rt_mb_send_wait_def, subst mb_send_loop.simps) (auto simp: mb_put_def s1_def)
    ultimately show ?thesis using 1 room s'(2,4,5) s1(2) mb_store_ok[OF assms(4) 1]
      by (intro exI[of _ s'] exI[of _ u]) (simp add: waits_as_def)
  next
    case now
    then show ?thesis using room full assms(1,4) by (intro exI[of _ s] exI[of _ t]) (simp add: rt_mb_send_wait_def)
  next
    case wait
    obtain s' u where s': "ipc_wait (SuspendSender mb) t (o_flag (objs s (At mb))) time
        (upd_thread t (\<lambda>th. th\<lparr>thread_error := RT_EOK\<rparr>) s) = Some s'"
      "rt_current_thread s' = Some u" "u \<noteq> t" "running s' u" "kframe s s'"
      "waits_as s s' (SuspendSender mb)
        (enqueue (\<lambda>v. current_priority (threads s v)) (o_flag (objs s (At mb))) t (tlists s (SuspendSender mb)))"
      using thread_waits[OF assms(1-3,5) _ assms(6), of "SuspendSender mb"] by auto
    have m: "mailboxes s' = mailboxes s" by (rule mb_field.get_kframe[OF s'(5)])
    have "\<exists>d. rt_mb_send_wait mb val time s = Some (Wait (t, time, d), s')"
      using wait full s'(1-3) runningD(9)[OF assms(1)] context_reset[OF assms(1)]
      by (subst rt_mb_send_wait_def, subst mb_send_loop.simps) (simp add: Let_def)
    then show ?thesis using wait room assms(4) s'(3,4,6) m by (intro exI[of _ s'] exI[of _ u]) simp
  qed
qed

text \<open>For a running thread \<open>rt_mb_recv\<close> takes the oldest mail out of a mailbox that has one and
  wakes the first waiting sender; an empty mailbox gives a timeout at once, or the thread
  joins the queue of receivers and another thread runs.\<close>

theorem rt_mb_recv_correct:
  assumes "running s t" "ready s i" "i \<noteq> t" "mb_ok (mailboxes s mb)" "legal_time time"
    "o_flag (objs s (At mb)) = IPC_FLAG_FIFO \<or> o_flag (objs s (At mb)) = IPC_FLAG_PRIO"
  shows "\<exists>s' u. running s' u \<and> mb_ok (mailboxes s' mb) \<and>
    (case mails (mailboxes s mb) of
       val # rest \<Rightarrow>
         rt_mb_recv mb time s = Some (Ret (RT_EOK, Some val), s') \<and> mails (mailboxes s' mb) = rest
         \<and> waits_as s s' (SuspendSender mb) (tl (tlists s (SuspendSender mb)))
         \<and> (\<forall>w. tlists s (SuspendSender mb) \<noteq> [] \<and> w = hd (tlists s (SuspendSender mb)) \<longrightarrow> ready s' w)
     | [] \<Rightarrow>
         if time = 0 then rt_mb_recv mb time s = Some (Ret (- RT_ETIMEOUT, None), s') \<and> s' = s
         else (\<exists>d. rt_mb_recv mb time s = Some (Wait (t, time, d), s')) \<and> u \<noteq> t \<and> mailboxes s' = mailboxes s
           \<and> waits_as s s' (Suspend mb)
               (enqueue (\<lambda>v. current_priority (threads s v)) (o_flag (objs s (At mb))) t (tlists s (Suspend mb))))"
proof (cases "mb_entry (mailboxes s mb) = 0")
  case some: False
  let ?m = "mailboxes s mb"
  define s1 where "s1 = upd_mb mb (\<lambda>_. snd (mb_fetch ?m)) s"
  have s1: "running s1 t" "tlists s1 = tlists s" "mailboxes s1 mb = snd (mb_fetch ?m)"
    using mb_field.upd_running[OF assms(1)] by (simp_all add: s1_def mb_field.upd_simps mb_field.get_upd)
  obtain s' u where s': "wake_first (SuspendSender mb) s1 = Some s'" "running s' u" "kframe s1 s'"
    "waits_as s1 s' (SuspendSender mb) (tl (tlists s1 (SuspendSender mb)))"
    "\<forall>w. tlists s1 (SuspendSender mb) \<noteq> [] \<and> w = hd (tlists s1 (SuspendSender mb)) \<longrightarrow> ready s' w"
    using wake_first_ok[OF s1(1), of "SuspendSender mb"] by auto
  have "mailboxes s' mb = snd (mb_fetch ?m)" using mb_field.get_kframe[OF s'(3)] s1(3) by simp
  moreover have "rt_mb_recv mb time s = Some (Ret (RT_EOK, Some (fst (mb_fetch ?m))), s')"
    using some s'(1) by (subst rt_mb_recv_def, subst mb_recv_loop.simps) (simp add: mb_get_def s1_def split_def Let_def)
  ultimately show ?thesis using s'(2,4,5) s1(2) mb_fetch_ok[OF assms(4) some]
    by (intro exI[of _ s'] exI[of _ u]) (simp add: waits_as_def)
next
  case empty: True
  then have m: "mails (mailboxes s mb) = []" by (simp add: mails_def)
  show ?thesis
  proof (cases "time = 0")
    case True
    then show ?thesis using empty m assms(1,4) by (intro exI[of _ s] exI[of _ t]) (simp add: rt_mb_recv_def)
  next
    case wait: False
    obtain s' u where s': "ipc_wait (Suspend mb) t (o_flag (objs s (At mb))) time
        (upd_thread t (\<lambda>th. th\<lparr>thread_error := RT_EOK\<rparr>) s) = Some s'"
      "rt_current_thread s' = Some u" "u \<noteq> t" "running s' u" "kframe s s'"
      "waits_as s s' (Suspend mb)
        (enqueue (\<lambda>v. current_priority (threads s v)) (o_flag (objs s (At mb))) t (tlists s (Suspend mb)))"
      using thread_waits[OF assms(1-3,5) _ assms(6), of "Suspend mb"] by auto
    have m': "mailboxes s' = mailboxes s" by (rule mb_field.get_kframe[OF s'(5)])
    have "\<exists>d. rt_mb_recv mb time s = Some (Wait (t, time, d), s')"
      using wait empty s'(1-3) runningD(9)[OF assms(1)] context_reset[OF assms(1)]
      by (subst rt_mb_recv_def, subst mb_recv_loop.simps) (simp add: Let_def)
    then show ?thesis using wait m m' assms(4) s'(3,4,6) by (intro exI[of _ s'] exI[of _ u]) simp
  qed
qed

text \<open>C16: Through any sequence of stores and fetches on the buffer of a mailbox, with stores into a
  full and fetches from an empty one refused, the mails delivered followed by the mails still
  in the buffer are the mails there at first followed by the mails accepted, in this order.\<close>

theorem mailbox_delivers_in_order:
  assumes "mb_ok m" "mailbox_fifo.run ops m = (ins, outs, m')"
  shows "mb_ok m' \<and> mb_size m' = mb_size m \<and> mails m @ ins = outs @ mails m'"
  using mailbox_fifo.run_order[OF assms] by (simp add: word_unat_eq_iff)

text \<open>The time a woken thread has left is its timeout less the ticks it waited, and zero once
  they exceed it; no wrap-around of the tick counter spoils the computation as long as fewer
  than half its range has passed.\<close>

theorem remaining_time_exact:
  assumes "0 < sint timeout" "unat (rt_tick s - start) < 2 ^ 31"
  shows "unat (remaining_time timeout start s) = unat timeout - unat (rt_tick s - start)"
proof -
  let ?d = "rt_tick s - start"
  have t: "unat timeout < 2 ^ 31" "unat timeout \<noteq> 0"
    using assms(1) sint_neg_iff[of timeout] by (auto simp: unat_eq_0 not_less)
  have r: "remaining_time timeout start s = (if sint (timeout - ?d) < 0 then 0 else timeout - ?d)"
    using assms(1) by (simp add: remaining_time_def rt_tick_get_def Let_def)
  show ?thesis
  proof (cases "?d \<le> timeout")
    case True
    then have "unat (timeout - ?d) = unat timeout - unat ?d" by (simp add: unat_sub)
    then show ?thesis using r t sint_neg_iff[of "timeout - ?d"] by auto
  next
    case False
    then have lt: "unat timeout < unat ?d" by (simp add: word_le_nat_alt)
    have "unat (timeout - ?d) = unat timeout + 2 ^ 32 - unat ?d"
      using lt by (simp add: unat_sub_if_size word_size)
    then show ?thesis using r lt assms(2) sint_neg_iff[of "timeout - ?d"] by simp
  qed
qed

subsection \<open>Witnesses\<close>

text \<open>A mailbox of two mails, at address 7 with one mail in it, at address 8 full.\<close>

definition demo_mailboxes :: "nat \<Rightarrow> rt_mailbox" where
  "demo_mailboxes a = \<lparr>mb_msg_pool = 0, mb_pool = (\<lambda>k. if k = 0 then 11 else 22), mb_size = 2,
     mb_entry = (if a = 7 then 1 else 2), mb_in_offset = (if a = 7 then 0 else 1), mb_out_offset = 1\<rparr>"

definition demo_mb :: mb_state where
  "demo_mb = demo_kernel \<lparr>sems = (\<lambda>_. 0), mutexes = demo_mutexes, events = (\<lambda>_. 6), mailboxes = demo_mailboxes\<rparr>"

lemma demo_mb_facts:
  "running demo_mb 1" "ready demo_mb 2" "mailboxes demo_mb = demo_mailboxes" "tlists demo_mb (SuspendSender a) = []"
  "o_flag (objs demo_mb (At a)) = 0 \<or> o_flag (objs demo_mb (At a)) = 1" "mb_ok (mailboxes demo_mb 7)" "mb_ok (mailboxes demo_mb 8)"
proof -
  show *: "running demo_mb 1" "ready demo_mb 2" "mailboxes demo_mb = demo_mailboxes"
    unfolding demo_mb_def by (rule demo_kernel_running)+ (simp add: demo_kernel_def sched_state.defs)
  show "tlists demo_mb (SuspendSender a) = []" "o_flag (objs demo_mb (At a)) = 0 \<or> o_flag (objs demo_mb (At a)) = 1"
    by (simp_all add: demo_mb_def demo_tlists_def demo_obj_def)
  show "mb_ok (mailboxes demo_mb 7)" "mb_ok (mailboxes demo_mb 8)"
    by (simp_all add: *(3) demo_mailboxes_def mb_ok_def)
qed

lemma demo_mails:
  "mails (mailboxes demo_mb 7) = [22]" "mails (mailboxes demo_mb 8) = [22, 11]" "mb_size (mailboxes demo_mb a) = 2"
  by (simp_all add: demo_mb_facts(3) mails_def ring_list_def demo_mailboxes_def upt_rec)

theorem rt_mb_send_wait_correct_witness:
  "(\<exists>s'. rt_mb_send_wait 7 33 5 demo_mb = Some (Ret RT_EOK, s') \<and> mails (mailboxes s' 7) = [22, 33])
   \<and> (\<exists>s' d. rt_mb_send_wait 8 33 5 demo_mb = Some (Wait (1, 5, d), s'))"
proof
  show "\<exists>s'. rt_mb_send_wait 7 33 5 demo_mb = Some (Ret RT_EOK, s') \<and> mails (mailboxes s' 7) = [22, 33]"
    using rt_mb_send_wait_correct[OF demo_mb_facts(1,2) _ demo_mb_facts(6) legal_time_5 demo_mb_facts(5), of 33]
    by (auto simp: demo_mails)
  show "\<exists>s' d. rt_mb_send_wait 8 33 5 demo_mb = Some (Wait (1, 5, d), s')"
    using rt_mb_send_wait_correct[OF demo_mb_facts(1,2) _ demo_mb_facts(7) legal_time_5 demo_mb_facts(5), of 33]
    by (auto simp: demo_mails)
qed

theorem rt_mb_recv_correct_witness:
  "\<exists>s'. rt_mb_recv 8 0 demo_mb = Some (Ret (RT_EOK, Some 22), s') \<and> mails (mailboxes s' 8) = [11]"
  using rt_mb_recv_correct[OF demo_mb_facts(1,2) _ demo_mb_facts(7) _ demo_mb_facts(5), of 0]
  by (auto simp: demo_mails legal_time_def)

theorem mailbox_delivers_in_order_witness:
  "\<exists>ins outs m'. mailbox_fifo.run [Put 33, Get, Put 44, Get, Get] (mailboxes demo_mb 7) = (ins, outs, m')
     \<and> mb_ok m' \<and> 22 # ins = outs @ mails m'"
proof -
  obtain ins outs m' where r: "mailbox_fifo.run [Put 33, Get, Put 44, Get, Get] (mailboxes demo_mb 7) = (ins, outs, m')"
    by (metis prod_cases3)
  show ?thesis using mailbox_delivers_in_order[OF demo_mb_facts(6) r] r demo_mails(1) by auto
qed

theorem remaining_time_exact_witness:
  "unat (remaining_time 10 0xfffffffe (demo_mb\<lparr>rt_tick := 1\<rparr>)) = 7"
  using remaining_time_exact[of 10 "demo_mb\<lparr>rt_tick := 1\<rparr>" "0xfffffffe"] by simp

end
