(* ===== verification/MessageQueue.thy ===== *)
theory MessageQueue
  imports Mailbox
begin

text \<open>
  Message queues, \<^verbatim>\<open>src/ipc.c\<close>. The pool is cut into nodes, a link word followed by
  \<open>mq_msg_size\<close> bytes; a node is in the list of messages, in the list of free nodes, or in the
  hands of a call that is copying its contents with interrupts enabled. The link words are
  \<open>mq_next\<close>, by the address of the node, \<open>None\<close> for \<^verbatim>\<open>RT_NULL\<close>; the bytes are in \<open>mdata\<close>.
\<close>

record rt_messagequeue =
  mq_msg_pool :: nat
  mq_msg_size :: rt_uint16_t
  mq_max_msgs :: rt_uint16_t
  mq_entry :: rt_uint16_t
  mq_head :: "nat option"
  mq_tail :: "nat option"
  mq_free :: "nat option"
  mq_next :: "nat \<Rightarrow> nat option"

record mq_state = mb_state +
  mqs :: "nat \<Rightarrow> rt_messagequeue"

definition upd_mq :: "nat \<Rightarrow> (rt_messagequeue \<Rightarrow> rt_messagequeue) \<Rightarrow> 'a mq_state_scheme \<Rightarrow> 'a mq_state_scheme" where
  "upd_mq a f s = s\<lparr>mqs := (mqs s)(a := f (mqs s a))\<rparr>"

abbreviation (input) MQ_LINK_SIZE :: nat where "MQ_LINK_SIZE \<equiv> 4"

text \<open>Putting a node on the free list, and the loop that does so for all nodes of the pool.\<close>

definition mq_put_free :: "nat \<Rightarrow> rt_messagequeue \<Rightarrow> rt_messagequeue" where
  "mq_put_free msg m = m\<lparr>mq_next := (mq_next m)(msg := mq_free m), mq_free := Some msg\<rparr>"

definition mq_node :: "rt_messagequeue \<Rightarrow> nat \<Rightarrow> nat" where
  "mq_node m i = mq_msg_pool m + i * (unat (mq_msg_size m) + MQ_LINK_SIZE)"

definition mq_free_nodes :: "rt_messagequeue \<Rightarrow> rt_messagequeue" where
  "mq_free_nodes m =
     foldl (\<lambda>m i. mq_put_free (mq_node m i) m)
       (m\<lparr>mq_head := None, mq_tail := None, mq_free := None\<rparr>) [0..<unat (mq_max_msgs m)]"

definition rt_mq_init :: "nat \<Rightarrow> 8 word list \<Rightarrow> nat \<Rightarrow> rt_uint32_t \<Rightarrow> rt_uint32_t \<Rightarrow> rt_uint8_t \<Rightarrow> 'a mq_state_scheme
    \<Rightarrow> 'a mq_state_scheme option" where
  "rt_mq_init mq name msgpool msg_size pool_size flag s =
     do { s \<leftarrow> rt_object_init (At mq) Class_MessageQueue name s;
          let s = upd_obj (At mq) (\<lambda>ob. ob\<lparr>o_flag := flag\<rparr>) s;
          let s = rt_ipc_object_init (Suspend mq) s;
          let s = upd_mq mq (\<lambda>m. m\<lparr>mq_msg_pool := msgpool, mq_msg_size := ucast (RT_ALIGN msg_size 4)\<rparr>) s;
          let s = upd_mq mq (\<lambda>m. m\<lparr>mq_max_msgs :=
                of_nat (unat pool_size div (unat (mq_msg_size m) + MQ_LINK_SIZE))\<rparr>) s;
          Some (upd_mq mq (\<lambda>m. (mq_free_nodes m)\<lparr>mq_entry := 0\<rparr>) s) }"

definition rt_mq_detach :: "nat \<Rightarrow> 'a mq_state_scheme \<Rightarrow> 'a mq_state_scheme option" where
  "rt_mq_detach mq s =
     do { s \<leftarrow> rt_ipc_list_resume_all (Suspend mq) s;
          Some (rt_object_detach (At mq) s) }"

text \<open>The pool pointer is 0 after a failed allocation in \<open>rt_mq_create\<close>.\<close>

definition rt_mq_delete :: "nat \<Rightarrow> 'a mq_state_scheme \<Rightarrow> 'a mq_state_scheme option" where
  "rt_mq_delete mq s =
     do { s \<leftarrow> RT_DEBUG_NOT_IN_INTERRUPT s;
          s \<leftarrow> rt_ipc_list_resume_all (Suspend mq) s;
          s \<leftarrow> rt_free (if mq_msg_pool (mqs s mq) = 0 then None else Some (mq_msg_pool (mqs s mq))) s;
          rt_object_delete mq s }"

definition rt_mq_create :: "8 word list \<Rightarrow> rt_uint32_t \<Rightarrow> rt_uint32_t \<Rightarrow> rt_uint8_t \<Rightarrow> 'a mq_state_scheme
    \<Rightarrow> (nat option \<times> 'a mq_state_scheme) option" where
  "rt_mq_create name msg_size max_msgs flag s =
     do { s \<leftarrow> RT_DEBUG_NOT_IN_INTERRUPT s;
          (a, s) \<leftarrow> rt_object_allocate Class_MessageQueue name s;
          case a of
            None \<Rightarrow> Some (None, s)
          | Some mq \<Rightarrow>
              do { let s = upd_obj (At mq) (\<lambda>ob. ob\<lparr>o_flag := flag\<rparr>) s;
                   let s = rt_ipc_object_init (Suspend mq) s;
                   let s = upd_mq mq (\<lambda>m. m\<lparr>mq_msg_size := ucast (RT_ALIGN msg_size 4),
                         mq_max_msgs := ucast max_msgs\<rparr>) s;
                   (p, s) \<leftarrow> rt_malloc ((unat (mq_msg_size (mqs s mq)) + MQ_LINK_SIZE)
                         * unat (mq_max_msgs (mqs s mq)) mod 2 ^ 32) s;
                   case p of
                     None \<Rightarrow> do { s \<leftarrow> rt_mq_delete mq (upd_mq mq (\<lambda>m. m\<lparr>mq_msg_pool := 0\<rparr>) s); Some (None, s) }
                   | Some pool \<Rightarrow>
                       Some (Some mq, upd_mq mq (\<lambda>m. (mq_free_nodes (m\<lparr>mq_msg_pool := pool\<rparr>))\<lparr>mq_entry := 0\<rparr>) s) } }"

subsection \<open>Moving nodes\<close>

text \<open>Taking a node off the free list, linking it at either end and taking the first message out:
  with \<open>mq_put_free\<close> the sections with interrupts disabled.\<close>

definition mq_take_free :: "rt_messagequeue \<Rightarrow> (nat \<times> rt_messagequeue) option" where
  "mq_take_free m =
     (case mq_free m of None \<Rightarrow> None | Some msg \<Rightarrow> Some (msg, m\<lparr>mq_free := mq_next m msg\<rparr>))"

definition mq_link_tail :: "nat \<Rightarrow> rt_messagequeue \<Rightarrow> rt_messagequeue" where
  "mq_link_tail msg m =
     (let m = (case mq_tail m of None \<Rightarrow> m | Some t \<Rightarrow> m\<lparr>mq_next := (mq_next m)(t := Some msg)\<rparr>);
          m = m\<lparr>mq_tail := Some msg\<rparr>;
          m = (if mq_head m = None then m\<lparr>mq_head := Some msg\<rparr> else m)
      in m\<lparr>mq_entry := mq_entry m + 1\<rparr>)"

definition mq_link_head :: "nat \<Rightarrow> rt_messagequeue \<Rightarrow> rt_messagequeue" where
  "mq_link_head msg m =
     (let m = m\<lparr>mq_next := (mq_next m)(msg := mq_head m), mq_head := Some msg\<rparr>;
          m = (if mq_tail m = None then m\<lparr>mq_tail := Some msg\<rparr> else m)
      in m\<lparr>mq_entry := mq_entry m + 1\<rparr>)"

definition mq_unlink_head :: "nat \<Rightarrow> rt_messagequeue \<Rightarrow> rt_messagequeue" where
  "mq_unlink_head msg m =
     (let m = m\<lparr>mq_head := mq_next m msg\<rparr>
      in if mq_tail m = Some msg then m\<lparr>mq_tail := None\<rparr> else m)"

subsection \<open>Sending\<close>

text \<open>What \<open>rt_mq_send\<close> and \<open>rt_mq_urgent\<close> share; \<open>link\<close> is the part that differs.\<close>

definition mq_post :: "(nat \<Rightarrow> rt_messagequeue \<Rightarrow> rt_messagequeue) \<Rightarrow> nat \<Rightarrow> nat \<Rightarrow> nat \<Rightarrow> 'a mq_state_scheme
    \<Rightarrow> (rt_err_t \<times> 'a mq_state_scheme) option" where
  "mq_post link mq buffer sz s =
     do { s \<leftarrow> RT_ASSERT (buffer \<noteq> 0) s;
          s \<leftarrow> RT_ASSERT (sz \<noteq> 0) s;
          if sz > unat (mq_msg_size (mqs s mq)) then Some (- RT_ERROR, s)
          else case mq_take_free (mqs s mq) of
            None \<Rightarrow> Some (- RT_EFULL, s)
          | Some (msg, m) \<Rightarrow>
              do { let s = upd_mq mq (\<lambda>_. m) s;
                   let s = s\<lparr>mdata := rt_memcpy (msg + MQ_LINK_SIZE) buffer sz (mdata s)\<rparr>;
                   s \<leftarrow> wake_first (Suspend mq) (upd_mq mq (link msg) s);
                   Some (RT_EOK, s) } }"

definition rt_mq_send :: "nat \<Rightarrow> nat \<Rightarrow> nat \<Rightarrow> 'a mq_state_scheme \<Rightarrow> (rt_err_t \<times> 'a mq_state_scheme) option" where
  "rt_mq_send = mq_post (\<lambda>msg m. mq_link_tail msg (m\<lparr>mq_next := (mq_next m)(msg := None)\<rparr>))"

definition rt_mq_urgent :: "nat \<Rightarrow> nat \<Rightarrow> nat \<Rightarrow> 'a mq_state_scheme \<Rightarrow> (rt_err_t \<times> 'a mq_state_scheme) option" where
  "rt_mq_urgent = mq_post mq_link_head"

subsection \<open>Receiving\<close>

text \<open>The end of \<open>rt_mq_recv\<close>: an entry count without a first message would be a null pointer.\<close>

definition mq_take :: "nat \<Rightarrow> nat \<Rightarrow> nat \<Rightarrow> 'a mq_state_scheme \<Rightarrow> (rt_err_t \<times> 'a mq_state_scheme) option" where
  "mq_take mq buffer sz s =
     do { msg \<leftarrow> mq_head (mqs s mq);
          let s = upd_mq mq (\<lambda>m. (mq_unlink_head msg m)\<lparr>mq_entry := mq_entry m - 1\<rparr>) s;
          let n = (if sz > unat (mq_msg_size (mqs s mq)) then unat (mq_msg_size (mqs s mq)) else sz);
          let s = s\<lparr>mdata := rt_memcpy buffer (msg + MQ_LINK_SIZE) n (mdata s)\<rparr>;
          Some (RT_EOK, upd_mq mq (mq_put_free msg) s) }"

partial_function (option) mq_recv_loop :: "nat \<Rightarrow> nat \<Rightarrow> nat \<Rightarrow> rt_uint32_t \<Rightarrow> 'a mq_state_scheme
    \<Rightarrow> ((rt_err_t, tid \<times> rt_uint32_t \<times> rt_tick_t) outcome \<times> 'a mq_state_scheme) option" where
  "mq_recv_loop mq buffer sz timeout s =
     (if mq_entry (mqs s mq) = 0 then
        do { s \<leftarrow> RT_DEBUG_IN_THREAD_CONTEXT s;
             t \<leftarrow> rt_thread_self s;
             let s = upd_thread t (\<lambda>th. th\<lparr>thread_error := RT_EOK\<rparr>) s;
             if timeout = 0
             then Some (Ret (- RT_ETIMEOUT), upd_thread t (\<lambda>th. th\<lparr>thread_error := - RT_ETIMEOUT\<rparr>) s)
             else
               do { let tick_delta = (if 0 < sint timeout then rt_tick_get s else 0);
                    s \<leftarrow> ipc_wait (Suspend mq) t (o_flag (objs s (At mq))) timeout s;
                    if rt_current_thread s \<noteq> Some t then Some (Wait (t, timeout, tick_delta), s)
                    else if thread_error (threads s t) \<noteq> RT_EOK then Some (Ret (thread_error (threads s t)), s)
                    else mq_recv_loop mq buffer sz (remaining_time timeout tick_delta s) s } }
      else do { (r, s) \<leftarrow> mq_take mq buffer sz s; Some (Ret r, s) })"

definition rt_mq_recv :: "nat \<Rightarrow> nat \<Rightarrow> nat \<Rightarrow> rt_uint32_t \<Rightarrow> 'a mq_state_scheme
    \<Rightarrow> ((rt_err_t, tid \<times> rt_uint32_t \<times> rt_tick_t) outcome \<times> 'a mq_state_scheme) option" where
  "rt_mq_recv mq buffer sz timeout s =
     do { s \<leftarrow> RT_ASSERT (buffer \<noteq> 0) s;
          s \<leftarrow> RT_ASSERT (sz \<noteq> 0) s;
          if mq_entry (mqs s mq) = 0 \<and> timeout = 0 then Some (Ret (- RT_ETIMEOUT), s)
          else mq_recv_loop mq buffer sz timeout s }"

definition rt_mq_recv_resume :: "nat \<Rightarrow> nat \<Rightarrow> nat \<Rightarrow> tid \<times> rt_uint32_t \<times> rt_tick_t \<Rightarrow> 'a mq_state_scheme
    \<Rightarrow> ((rt_err_t, tid \<times> rt_uint32_t \<times> rt_tick_t) outcome \<times> 'a mq_state_scheme) option" where
  "rt_mq_recv_resume mq buffer sz c s =
     (case c of (t, timeout, tick_delta) \<Rightarrow>
        if thread_error (threads s t) \<noteq> RT_EOK then Some (Ret (thread_error (threads s t)), s)
        else mq_recv_loop mq buffer sz (remaining_time timeout tick_delta s) s)"

partial_function (option) mq_release_all :: "rt_messagequeue \<Rightarrow> rt_messagequeue option" where
  "mq_release_all m =
     (case mq_head m of
        None \<Rightarrow> Some m
      | Some msg \<Rightarrow> mq_release_all (mq_put_free msg (mq_unlink_head msg m)))"

definition rt_mq_control :: "nat \<Rightarrow> rt_uint8_t \<Rightarrow> nat \<Rightarrow> 'a mq_state_scheme
    \<Rightarrow> (rt_err_t \<times> 'a mq_state_scheme) option" where
  "rt_mq_control mq cmd arg s =
     (if cmd = 1 then
        do { s \<leftarrow> rt_ipc_list_resume_all (Suspend mq) s;
             m \<leftarrow> mq_release_all (mqs s mq);
             s \<leftarrow> rt_schedule (upd_mq mq (\<lambda>_. m\<lparr>mq_entry := 0\<rparr>) s);
             Some (RT_EOK, s) }
      else Some (- RT_ERROR, s))"

interpretation mq_field: kernel_field mqs upd_mq
  by unfold_locales (simp_all add: upd_mq_def kernel_as_def)

subsection \<open>The two lists of nodes\<close>

fun node_chain :: "(nat \<Rightarrow> nat option) \<Rightarrow> nat option \<Rightarrow> nat list \<Rightarrow> bool" where
  "node_chain nxt p [] \<longleftrightarrow> p = None"
| "node_chain nxt p (x # xs) \<longleftrightarrow> p = Some x \<and> node_chain nxt (nxt x) xs"

lemma node_chain_upd [simp]: "x \<notin> set xs \<Longrightarrow> node_chain (nxt(x := v)) p xs = node_chain nxt p xs"
  by (induction xs arbitrary: p) auto

lemma node_chain_snoc:
  "node_chain nxt p xs \<Longrightarrow> distinct xs \<Longrightarrow> x \<notin> set xs \<Longrightarrow> nxt x = None \<Longrightarrow>
   xs \<noteq> [] \<Longrightarrow> node_chain (nxt(last xs := Some x)) p (xs @ [x])"
proof (induction xs arbitrary: p)
  case (Cons y ys)
  then show ?case by (cases "ys = []") auto
qed simp

text \<open>
  \<open>mq_lists m q f x\<close>: the messages are the nodes \<open>q\<close> in order, the free nodes are \<open>f\<close>, and \<open>x\<close> are
  the nodes held by calls in progress; together they are the nodes of the pool. \<open>mq_rep\<close> adds
  that the entry count is right.
\<close>

definition mq_lists :: "rt_messagequeue \<Rightarrow> nat list \<Rightarrow> nat list \<Rightarrow> nat set \<Rightarrow> bool" where
  "mq_lists m q f x \<longleftrightarrow> node_chain (mq_next m) (mq_head m) q \<and> node_chain (mq_next m) (mq_free m) f
     \<and> mq_tail m = (if q = [] then None else Some (last q))
     \<and> distinct (q @ f) \<and> set (q @ f) \<inter> x = {}
     \<and> set (q @ f) \<union> x = mq_node m ` {..<unat (mq_max_msgs m)}"

definition mq_rep :: "rt_messagequeue \<Rightarrow> nat list \<Rightarrow> nat list \<Rightarrow> nat set \<Rightarrow> bool" where
  "mq_rep m q f x \<longleftrightarrow> mq_lists m q f x \<and> unat (mq_entry m) = length q"

lemma mq_listsD:
  assumes "mq_lists m q f x"
  shows "node_chain (mq_next m) (mq_head m) q" "node_chain (mq_next m) (mq_free m) f"
    "mq_tail m = (if q = [] then None else Some (last q))" "distinct (q @ f)" "set (q @ f) \<inter> x = {}"
    "set (q @ f) \<union> x = mq_node m ` {..<unat (mq_max_msgs m)}"
    "y \<in> x \<Longrightarrow> y \<notin> set q \<and> y \<notin> set f"
  using assms by (auto simp: mq_lists_def)

lemma mq_node_cong: "mq_msg_pool m' = mq_msg_pool m \<Longrightarrow> mq_msg_size m' = mq_msg_size m \<Longrightarrow> mq_node m' = mq_node m"
  by (simp add: mq_node_def fun_eq_iff)

lemma mq_node_simps [simp]:
  "mq_node (m\<lparr>mq_next := n\<rparr>) = mq_node m" "mq_node (m\<lparr>mq_free := a\<rparr>) = mq_node m"
  "mq_node (m\<lparr>mq_head := a\<rparr>) = mq_node m" "mq_node (m\<lparr>mq_tail := a\<rparr>) = mq_node m"
  "mq_node (m\<lparr>mq_entry := e\<rparr>) = mq_node m"
  by (rule mq_node_cong; simp)+

lemma mq_lists_entry [simp]: "mq_lists (m\<lparr>mq_entry := e\<rparr>) = mq_lists m"
  by (simp add: mq_lists_def fun_eq_iff)

text \<open>The pool has \<open>mq_max_msgs\<close> nodes, so the entry count cannot overflow while one is not queued.\<close>

lemma mq_rep_length:
  assumes "mq_rep m q f x" "y \<in> x"
  shows "unat (mq_entry m + 1) = length q + 1"
proof -
  have l: "mq_lists m q f x" and e: "unat (mq_entry m) = length q" using assms(1) by (simp_all add: mq_rep_def)
  note R = mq_listsD[OF l]
  have fin: "finite (mq_node m ` {..<unat (mq_max_msgs m)})" by simp
  have "insert y (set q) \<subseteq> mq_node m ` {..<unat (mq_max_msgs m)}" using R(6) assms(2) by auto
  then have "card (insert y (set q)) \<le> card (mq_node m ` {..<unat (mq_max_msgs m)})" by (rule card_mono[OF fin])
  also have "\<dots> \<le> unat (mq_max_msgs m)" using card_image_le[of "{..<unat (mq_max_msgs m)}" "mq_node m"] by simp
  finally have "card (insert y (set q)) \<le> unat (mq_max_msgs m)" .
  moreover have "card (insert y (set q)) = Suc (length q)"
    using R(4) R(7)[OF assms(2)] distinct_card[of q] by (subst card_insert_disjoint) auto
  ultimately have "mq_entry m < mq_max_msgs m" using e by (simp add: word_less_nat_alt)
  from unat_succ_less[OF this] show ?thesis using e by simp
qed

lemma mq_take_free_ok:
  assumes "mq_lists m q (y # f) x"
  shows "mq_take_free m = Some (y, m\<lparr>mq_free := mq_next m y\<rparr>)" "mq_lists (m\<lparr>mq_free := mq_next m y\<rparr>) q f (insert y x)"
  using mq_listsD[OF assms] by (auto simp: mq_take_free_def mq_lists_def)

lemma mq_take_free_empty: "mq_lists m q [] x \<Longrightarrow> mq_take_free m = None"
  by (simp add: mq_lists_def mq_take_free_def)

lemma mq_clear_next:
  assumes "mq_lists m q f x" "y \<in> x"
  shows "mq_lists (m\<lparr>mq_next := (mq_next m)(y := v)\<rparr>) q f x"
  using assms mq_listsD(7)[OF assms] by (simp add: mq_lists_def)

lemma mq_link_tail_ok:
  assumes r: "mq_lists m q f x" and y: "y \<in> x" and n: "mq_next m y = None"
  shows "mq_lists (mq_link_tail y m) (q @ [y]) f (x - {y})" "mq_entry (mq_link_tail y m) = mq_entry m + 1"
proof -
  note R = mq_listsD[OF r]
  have d: "distinct ((q @ [y]) @ f)" using R(4) R(7)[OF y] by auto
  have c: "set ((q @ [y]) @ f) \<union> (x - {y}) = mq_node m ` {..<unat (mq_max_msgs m)}" "set ((q @ [y]) @ f) \<inter> (x - {y}) = {}"
    using R(5,6) y by auto
  show "mq_entry (mq_link_tail y m) = mq_entry m + 1" by (simp add: mq_link_tail_def Let_def split: option.split)
  show "mq_lists (mq_link_tail y m) (q @ [y]) f (x - {y})"
  proof (cases "q = []")
    case True
    then have "mq_link_tail y m = m\<lparr>mq_tail := Some y, mq_head := Some y, mq_entry := mq_entry m + 1\<rparr>"
      using R(1,3) by (simp add: mq_link_tail_def Let_def)
    then show ?thesis using True R n d c by (simp add: mq_lists_def)
  next
    case False
    have h: "mq_head m \<noteq> None" using R(1) False by (cases q) auto
    have eq: "mq_link_tail y m = m\<lparr>mq_next := (mq_next m)(last q := Some y), mq_tail := Some y, mq_entry := mq_entry m + 1\<rparr>"
      using R(3) False h by (simp add: mq_link_tail_def Let_def)
    have "last q \<notin> set f" using R(4) last_in_set[OF False] by (metis disjoint_iff distinct_append)
    then show ?thesis unfolding eq using node_chain_snoc[OF R(1) _ _ n False] R R(7)[OF y] d c by (simp add: mq_lists_def)
  qed
qed

lemma mq_link_head_ok:
  assumes r: "mq_lists m q f x" and y: "y \<in> x"
  shows "mq_lists (mq_link_head y m) (y # q) f (x - {y})" "mq_entry (mq_link_head y m) = mq_entry m + 1"
proof -
  note R = mq_listsD[OF r]
  have c: "set ((y # q) @ f) \<union> (x - {y}) = mq_node m ` {..<unat (mq_max_msgs m)}" "set ((y # q) @ f) \<inter> (x - {y}) = {}"
    using R(5,6) y by auto
  have eq: "mq_link_head y m = m\<lparr>mq_next := (mq_next m)(y := mq_head m), mq_head := Some y,
      mq_tail := (if q = [] then Some y else Some (last q)), mq_entry := mq_entry m + 1\<rparr>"
    using R(3) by (auto simp: mq_link_head_def Let_def)
  show "mq_lists (mq_link_head y m) (y # q) f (x - {y})" unfolding eq using R R(7)[OF y] c by (simp add: mq_lists_def)
  show "mq_entry (mq_link_head y m) = mq_entry m + 1" by (simp add: eq)
qed

lemma mq_unlink_head_ok:
  assumes r: "mq_lists m (y # q) f x"
  shows "mq_head m = Some y" "mq_lists (mq_unlink_head y m) q f (insert y x)"
proof -
  note R = mq_listsD[OF r]
  show "mq_head m = Some y" using R(1) by simp
  have "mq_tail m = Some y \<longleftrightarrow> q = []" using R(3,4) last_in_set[of q] by auto
  then have eq: "mq_unlink_head y m = m\<lparr>mq_head := mq_next m y, mq_tail := (if q = [] then None else mq_tail m)\<rparr>"
    by (simp add: mq_unlink_head_def Let_def)
  show "mq_lists (mq_unlink_head y m) q f (insert y x)" unfolding eq using R by (auto simp: mq_lists_def)
qed

lemma mq_put_free_ok:
  assumes r: "mq_lists m q f x" and y: "y \<in> x"
  shows "mq_lists (mq_put_free y m) q (y # f) (x - {y})"
proof -
  note R = mq_listsD[OF r]
  have "set (q @ y # f) \<union> (x - {y}) = mq_node m ` {..<unat (mq_max_msgs m)}" "set (q @ y # f) \<inter> (x - {y}) = {}"
    using R(5,6) y by auto
  then show ?thesis using R R(7)[OF y] by (simp add: mq_lists_def mq_put_free_def)
qed

lemma mq_put_free_simps [simp]:
  "mq_node (mq_put_free y m) = mq_node m" "mq_max_msgs (mq_put_free y m) = mq_max_msgs m"
  "mq_head (mq_put_free y m) = mq_head m" "mq_tail (mq_put_free y m) = mq_tail m"
  by (simp_all add: mq_put_free_def)

lemma mq_free_nodes_keeps:
  "mq_node (mq_free_nodes m) = mq_node m" "mq_max_msgs (mq_free_nodes m) = mq_max_msgs m"
  "mq_msg_size (mq_free_nodes m) = mq_msg_size m"
proof -
  define K where "K m' \<longleftrightarrow> mq_msg_pool m' = mq_msg_pool m \<and> mq_max_msgs m' = mq_max_msgs m \<and> mq_msg_size m' = mq_msg_size m" for m' :: rt_messagequeue
  have "K (foldl (\<lambda>m i. mq_put_free (mq_node m i) m) m0 ns)" if "K m0" for m0 ns
    using that by (induction ns arbitrary: m0) (simp_all add: mq_put_free_def K_def)
  then have "K (mq_free_nodes m)" by (simp add: mq_free_nodes_def K_def)
  then show "mq_node (mq_free_nodes m) = mq_node m" "mq_max_msgs (mq_free_nodes m) = mq_max_msgs m"
    "mq_msg_size (mq_free_nodes m) = mq_msg_size m" unfolding K_def by (blast intro: mq_node_cong)+
qed

lemma mq_free_nodes_ok:
  "mq_rep ((mq_free_nodes m)\<lparr>mq_entry := 0\<rparr>) [] (rev (map (mq_node m) [0..<unat (mq_max_msgs m)])) {}"
proof -
  have inj: "mq_node m i = mq_node m j \<longleftrightarrow> i = j" for i j by (auto simp: mq_node_def)
  define r where "r n = foldl (\<lambda>m i. mq_put_free (mq_node m i) m) (m\<lparr>mq_head := None, mq_tail := None, mq_free := None\<rparr>) [0..<n]" for n
  have "node_chain (mq_next (r n)) (mq_free (r n)) (rev (map (mq_node m) [0..<n])) \<and> mq_node (r n) = mq_node m
      \<and> mq_head (r n) = None \<and> mq_tail (r n) = None \<and> mq_max_msgs (r n) = mq_max_msgs m" for n
  proof (induction n)
    case (Suc n)
    have "r (Suc n) = mq_put_free (mq_node m n) (r n)" using Suc by (simp add: r_def)
    moreover have "mq_node m n \<notin> set (rev (map (mq_node m) [0..<n]))" using inj by auto
    then have "node_chain ((mq_next (r n))(mq_node m n := mq_free (r n))) (mq_free (r n)) (rev (map (mq_node m) [0..<n]))"
      using Suc node_chain_upd by blast
    ultimately show ?case using Suc by (simp add: mq_put_free_def fun_upd_def)
  qed (simp add: r_def)
  from this[of "unat (mq_max_msgs m)"] show ?thesis using inj
    by (simp add: mq_rep_def mq_lists_def mq_free_nodes_def r_def distinct_map inj_on_def atLeast0LessThan)
qed

lemma mq_release_all_ok:
  assumes "mq_lists m q f x"
  shows "\<exists>m'. mq_release_all m = Some m' \<and> mq_lists m' [] (rev q @ f) x"
  using assms
proof (induction q arbitrary: m f)
  case Nil
  then show ?case by (subst mq_release_all.simps) (simp add: mq_lists_def)
next
  case (Cons y q)
  note U = mq_unlink_head_ok[OF Cons.prems]
  have "y \<notin> x" using mq_listsD(5)[OF Cons.prems] by auto
  then have "mq_lists (mq_put_free y (mq_unlink_head y m)) q (y # f) x" using mq_put_free_ok[OF U(2), of y] by simp
  from Cons.IH[OF this] show ?case using U(1) by (subst mq_release_all.simps) simp
qed

subsection \<open>The contents of messages\<close>

definition bytes_at :: "bmem \<Rightarrow> nat \<Rightarrow> nat \<Rightarrow> 8 word list" where
  "bytes_at mem a n = map (\<lambda>i. mem (a + i)) [0..<n]"

definition message :: "bmem \<Rightarrow> rt_messagequeue \<Rightarrow> nat \<Rightarrow> 8 word list" where
  "message mem m y = bytes_at mem (y + MQ_LINK_SIZE) (unat (mq_msg_size m))"

text \<open>A buffer of the caller that does not overlap the pool.\<close>

definition outside_pool :: "rt_messagequeue \<Rightarrow> nat \<Rightarrow> nat \<Rightarrow> bool" where
  "outside_pool m a n \<longleftrightarrow> a + n \<le> mq_msg_pool m \<or> mq_node m (unat (mq_max_msgs m)) \<le> a"

lemma take_bytes_at: "take k (bytes_at mem a n) = bytes_at mem a (min k n)"
  by (simp add: bytes_at_def take_map min_def)

lemma bytes_at_copy:
  "k \<le> n \<Longrightarrow> bytes_at (mem_copy d a n mem) d k = bytes_at mem a k"
  "b + k \<le> d \<or> d + n \<le> b \<Longrightarrow> bytes_at (mem_copy d a n mem) b k = bytes_at mem b k"
  by (auto simp: bytes_at_def mem_copy_def)

lemma mq_node_step: "i < j \<Longrightarrow> mq_node m i + MQ_LINK_SIZE + unat (mq_msg_size m) \<le> mq_node m j"
proof -
  assume "i < j"
  then have "Suc i * (unat (mq_msg_size m) + 4) \<le> j * (unat (mq_msg_size m) + 4)" by (intro mult_le_mono1) simp
  then show ?thesis by (simp add: mq_node_def)
qed

lemma pool_nodes_apart:
  assumes "mq_lists m q f x" "y \<in> set (q @ f) \<union> x" "z \<in> set (q @ f) \<union> x" "y \<noteq> z"
  shows "y + MQ_LINK_SIZE + unat (mq_msg_size m) \<le> z \<or> z + MQ_LINK_SIZE + unat (mq_msg_size m) \<le> y"
proof -
  obtain i j where "y = mq_node m i" "z = mq_node m j"
    using assms(2,3) unfolding mq_listsD(6)[OF assms(1)] by blast
  then show ?thesis using mq_node_step[of i j m] mq_node_step[of j i m] assms(4) by (cases i j rule: linorder_cases) auto
qed

lemma node_outside:
  assumes "mq_lists m q f x" "y \<in> set (q @ f) \<union> x" "outside_pool m a n" "0 < n"
  shows "a + n \<le> y \<or> y + MQ_LINK_SIZE + unat (mq_msg_size m) \<le> a"
proof -
  obtain i where i: "y = mq_node m i" "i < unat (mq_max_msgs m)"
    using assms(2) unfolding mq_listsD(6)[OF assms(1)] by blast
  then show ?thesis using assms(3) mq_node_step[OF i(2), of m] by (auto simp: outside_pool_def mq_node_def)
qed

lemma message_frame:
  assumes "mq_lists m q f x" "y \<in> set (q @ f) \<union> x" "z \<in> set (q @ f) \<union> x" "y \<noteq> z" "n \<le> unat (mq_msg_size m)"
  shows "message (mem_copy (y + MQ_LINK_SIZE) a n mem) m z = message mem m z"
  unfolding message_def using pool_nodes_apart[OF assms(1-4)] assms(5) by (intro bytes_at_copy(2)) auto

subsection \<open>Properties\<close>

lemma mq_post_fits:
  assumes r: "running s t" and rep: "mq_rep (mqs s mq) q (y # f) x" and b: "buffer \<noteq> 0" "0 < sz" "sz \<le> unat (mq_msg_size (mqs s mq))"
    and out: "outside_pool (mqs s mq) buffer sz"
    and link: "\<And>m. mq_lists m q f (insert y x) \<Longrightarrow> mq_lists (link y m) q' f x \<and> mq_entry (link y m) = mq_entry m + 1
        \<and> mq_msg_size (link y m) = mq_msg_size m \<and> mq_msg_pool (link y m) = mq_msg_pool m"
    and len: "length q' = length q + 1"
  shows "\<exists>s' u. mq_post link mq buffer sz s = Some (RT_EOK, s') \<and> running s' u \<and> mq_rep (mqs s' mq) q' f x
    \<and> waits_as s s' (Suspend mq) (tl (tlists s (Suspend mq)))
    \<and> take sz (message (mdata s') (mqs s' mq) y) = bytes_at (mdata s) buffer sz
    \<and> (\<forall>z \<in> set q. message (mdata s') (mqs s' mq) z = message (mdata s) (mqs s mq) z)"
proof -
  let ?m = "mqs s mq"
  have l: "mq_lists ?m q (y # f) x" and e: "unat (mq_entry ?m) = length q" using rep by (simp_all add: mq_rep_def)
  note T = mq_take_free_ok[OF l]
  let ?m1 = "?m\<lparr>mq_free := mq_next ?m y\<rparr>" and ?mem = "mem_copy (y + MQ_LINK_SIZE) buffer sz (mdata s)"
  have L: "mq_lists (link y ?m1) q' f x" "mq_entry (link y ?m1) = mq_entry ?m + 1"
    "mq_msg_size (link y ?m1) = mq_msg_size ?m" "mq_msg_pool (link y ?m1) = mq_msg_pool ?m"
    using link[OF T(2)] by simp_all
  have "mq_rep ?m1 q f (insert y x)" using T(2) e by (simp add: mq_rep_def)
  from mq_rep_length[OF this, of y] have rep': "mq_rep (link y ?m1) q' f x" using L len by (simp add: mq_rep_def)
  have far: "buffer + sz \<le> y \<or> y + MQ_LINK_SIZE + unat (mq_msg_size ?m) \<le> buffer"
    using node_outside[OF l _ out b(2), of y] by simp
  then have cp: "rt_memcpy (y + MQ_LINK_SIZE) buffer sz (mdata s) = ?mem"
    using b(3) by (intro rt_memcpy_copy) auto
  define s1 where "s1 = upd_mq mq (link y) (upd_mq mq (\<lambda>_. ?m1) s\<lparr>mdata := ?mem\<rparr>)"
  have "running (upd_mq mq (\<lambda>_. ?m1) s\<lparr>mdata := ?mem\<rparr>) t"
    using mq_field.upd_running[OF r] by (simp add: running_def ready_def)
  then have "running s1 t" unfolding s1_def by (rule mq_field.upd_running)
  moreover have "tlists s1 = tlists s" "mqs s1 mq = link y ?m1" "mdata s1 = ?mem" by (simp_all add: s1_def upd_mq_def)
  ultimately have s1: "running s1 t" "tlists s1 = tlists s" "mqs s1 mq = link y ?m1" "mdata s1 = ?mem" by blast+
  obtain s' u where s': "wake_first (Suspend mq) s1 = Some s'" "running s' u" "kframe s1 s'"
    "waits_as s1 s' (Suspend mq) (tl (tlists s1 (Suspend mq)))"
    using wake_first_ok[OF s1(1), of "Suspend mq"] by auto
  have f': "mqs s' mq = link y ?m1" "mdata s' = ?mem" using mq_field.get_kframe[OF s'(3)] kframeD(5)[OF s'(3)] s1 by simp_all
  have "mq_post link mq buffer sz s = Some (RT_EOK, s')"
    using b T(1) s'(1) by (simp add: mq_post_def s1_def upd_mq_def) (simp add: cp)
  moreover have "take sz (message (mdata s') (mqs s' mq) y) = bytes_at (mdata s) buffer sz"
    using b(3) bytes_at_copy(1)[of sz sz "y + MQ_LINK_SIZE" buffer "mdata s"]
    by (simp add: f' message_def L(3) bytes_at_def take_map)
  moreover have "message (mdata s') (mqs s' mq) z = message (mdata s) ?m z" if "z \<in> set q" for z
  proof -
    have "z \<noteq> y" using mq_listsD(4)[OF l] that by auto
    then show ?thesis using message_frame[OF l, of y z sz] that b(3) by (simp add: f' message_def L(3))
  qed
  ultimately show ?thesis using s'(2,4) s1(2) rep' f'(1) by (intro exI[of _ s'] exI[of _ u]) (simp add: waits_as_def)
qed

lemma mq_post_refused:
  assumes "buffer \<noteq> 0" "0 < sz"
  shows "sz > unat (mq_msg_size (mqs s mq)) \<Longrightarrow> mq_post link mq buffer sz s = Some (- RT_ERROR, s)"
    "sz \<le> unat (mq_msg_size (mqs s mq)) \<Longrightarrow> mq_rep (mqs s mq) q [] x \<Longrightarrow> mq_post link mq buffer sz s = Some (- RT_EFULL, s)"
  using assms mq_take_free_empty[of "mqs s mq" q x] by (simp_all add: mq_post_def mq_rep_def)

lemma send_link:
  assumes "mq_lists m q f (insert y x)" "y \<notin> x"
  shows "mq_lists (mq_link_tail y (m\<lparr>mq_next := (mq_next m)(y := None)\<rparr>)) (q @ [y]) f x
    \<and> mq_entry (mq_link_tail y (m\<lparr>mq_next := (mq_next m)(y := None)\<rparr>)) = mq_entry m + 1
    \<and> mq_msg_size (mq_link_tail y (m\<lparr>mq_next := (mq_next m)(y := None)\<rparr>)) = mq_msg_size m
    \<and> mq_msg_pool (mq_link_tail y (m\<lparr>mq_next := (mq_next m)(y := None)\<rparr>)) = mq_msg_pool m"
  using mq_link_tail_ok[OF mq_clear_next[OF assms(1), of y None], of y] assms(2)
  by (simp add: mq_link_tail_def Let_def split: option.split)

lemma urgent_link:
  assumes "mq_lists m q f (insert y x)" "y \<notin> x"
  shows "mq_lists (mq_link_head y m) (y # q) f x \<and> mq_entry (mq_link_head y m) = mq_entry m + 1
    \<and> mq_msg_size (mq_link_head y m) = mq_msg_size m \<and> mq_msg_pool (mq_link_head y m) = mq_msg_pool m"
  using mq_link_head_ok[OF assms(1), of y] assms(2) by (simp add: mq_link_head_def Let_def)

text \<open>C32: Sending to a message queue appends a message that holds the bytes of the buffer, an urgent
  send puts it first; the first waiting receiver is woken and no queued message changes. A
  message longer than the queue's message size is refused, and so is any message when all the
  nodes of the pool are in use.\<close>

theorem mq_send_and_urgent_correct:
  assumes "running s t" "mq_rep (mqs s mq) q f x" "buffer \<noteq> 0" "0 < sz" "outside_pool (mqs s mq) buffer sz"
  shows "\<forall>urgent. \<exists>s' u. running s' u \<and>
    (let r = (if urgent then rt_mq_urgent else rt_mq_send) mq buffer sz s in
     if sz > unat (mq_msg_size (mqs s mq)) then r = Some (- RT_ERROR, s)
     else case f of
       [] \<Rightarrow> r = Some (- RT_EFULL, s)
     | y # f' \<Rightarrow> r = Some (RT_EOK, s') \<and> mq_rep (mqs s' mq) (if urgent then y # q else q @ [y]) f' x
         \<and> waits_as s s' (Suspend mq) (tl (tlists s (Suspend mq)))
         \<and> take sz (message (mdata s') (mqs s' mq) y) = bytes_at (mdata s) buffer sz
         \<and> (\<forall>z \<in> set q. message (mdata s') (mqs s' mq) z = message (mdata s) (mqs s mq) z))"
proof
  fix urgent
  define link where "link = (if urgent then mq_link_head else (\<lambda>msg m. mq_link_tail msg (m\<lparr>mq_next := (mq_next m)(msg := None)\<rparr>)))"
  have r: "(if urgent then rt_mq_urgent else rt_mq_send) mq buffer sz s = mq_post link mq buffer sz s"
    by (simp add: rt_mq_urgent_def rt_mq_send_def link_def)
  show "\<exists>s' u. running s' u \<and>
    (let r = (if urgent then rt_mq_urgent else rt_mq_send) mq buffer sz s in
     if sz > unat (mq_msg_size (mqs s mq)) then r = Some (- RT_ERROR, s)
     else case f of
       [] \<Rightarrow> r = Some (- RT_EFULL, s)
     | y # f' \<Rightarrow> r = Some (RT_EOK, s') \<and> mq_rep (mqs s' mq) (if urgent then y # q else q @ [y]) f' x
         \<and> waits_as s s' (Suspend mq) (tl (tlists s (Suspend mq)))
         \<and> take sz (message (mdata s') (mqs s' mq) y) = bytes_at (mdata s) buffer sz
         \<and> (\<forall>z \<in> set q. message (mdata s') (mqs s' mq) z = message (mdata s) (mqs s mq) z))"
  proof (cases "sz > unat (mq_msg_size (mqs s mq))")
    case True
    then show ?thesis using mq_post_refused(1)[OF assms(3,4) True] assms(1) by (auto simp: r)
  next
    case fits: False
    show ?thesis
    proof (cases f)
      case Nil
      then show ?thesis using mq_post_refused(2)[OF assms(3,4), of s mq q x link] fits assms(1,2) by (auto simp: r)
    next
      case (Cons y f')
      have ny: "y \<notin> x" using assms(2) Cons by (auto simp: mq_rep_def mq_lists_def)
      have lnk: "mq_lists (link y m) (if urgent then y # q else q @ [y]) f' x \<and> mq_entry (link y m) = mq_entry m + 1
          \<and> mq_msg_size (link y m) = mq_msg_size m \<and> mq_msg_pool (link y m) = mq_msg_pool m"
        if "mq_lists m q f' (insert y x)" for m
        using send_link[OF that ny] urgent_link[OF that ny] by (simp add: link_def)
      have "sz \<le> unat (mq_msg_size (mqs s mq))" using fits by simp
      moreover have "length (if urgent then y # q else q @ [y]) = length q + 1" by simp
      ultimately
      obtain s' u where s': "mq_post link mq buffer sz s = Some (RT_EOK, s')" "running s' u"
        "mq_rep (mqs s' mq) (if urgent then y # q else q @ [y]) f' x" "waits_as s s' (Suspend mq) (tl (tlists s (Suspend mq)))"
        "take sz (message (mdata s') (mqs s' mq) y) = bytes_at (mdata s) buffer sz"
        "\<forall>z \<in> set q. message (mdata s') (mqs s' mq) z = message (mdata s) (mqs s mq) z"
        using mq_post_fits[where link = link and q' = "if urgent then y # q else q @ [y]",
          OF assms(1) assms(2)[unfolded Cons] assms(3,4) _ assms(5) lnk] by blast
      show ?thesis unfolding r Let_def using s' fits Cons by (intro exI[of _ s'] exI[of _ u]) simp
    qed
  qed
qed

lemma mq_take_first:
  assumes r: "mq_rep (mqs s mq) (y # q) f x" and run: "running s t" and sz: "0 < sz" and o: "outside_pool (mqs s mq) buffer sz"
  shows "\<exists>s'. mq_take mq buffer sz s = Some (RT_EOK, s') \<and> running s' t \<and> mq_rep (mqs s' mq) q (y # f) x
    \<and> bytes_at (mdata s') buffer (min sz (unat (mq_msg_size (mqs s mq)))) = take sz (message (mdata s) (mqs s mq) y)
    \<and> (\<forall>z \<in> set q. message (mdata s') (mqs s' mq) z = message (mdata s) (mqs s mq) z)"
proof -
  let ?m = "mqs s mq"
  have l: "mq_lists ?m (y # q) f x" and e: "unat (mq_entry ?m) = Suc (length q)" using r by (simp_all add: mq_rep_def)
  note U = mq_unlink_head_ok[OF l]
  let ?m1 = "(mq_unlink_head y ?m)\<lparr>mq_entry := mq_entry ?m - 1\<rparr>" and ?n = "min sz (unat (mq_msg_size ?m))"
  let ?mem = "mem_copy buffer (y + MQ_LINK_SIZE) ?n (mdata s)"
  have ne: "mq_entry ?m \<noteq> 0" using e by auto
  have sz1: "mq_msg_size (mq_unlink_head y ?m) = mq_msg_size ?m" by (simp add: mq_unlink_head_def Let_def)
  have "y \<notin> x" using mq_listsD(5)[OF l] by auto
  then have "mq_lists (mq_put_free y ?m1) q (y # f) x" using mq_put_free_ok[of ?m1 q f "insert y x" y] U(2) by simp
  moreover have "unat (mq_entry ?m - 1) = length q" using e ne by (simp add: unat_minus_one)
  ultimately have rep: "mq_rep (mq_put_free y ?m1) q (y # f) x" by (simp add: mq_rep_def mq_put_free_def)
  have far: "buffer + sz \<le> z \<or> z + MQ_LINK_SIZE + unat (mq_msg_size ?m) \<le> buffer" if "z \<in> set (y # q)" for z
    using node_outside[OF l _ o sz, of z] that by auto
  have cp: "rt_memcpy buffer (y + MQ_LINK_SIZE) ?n (mdata s) = ?mem" using far[of y] by (intro rt_memcpy_copy) auto
  define s' where "s' = upd_mq mq (mq_put_free y) (upd_mq mq (\<lambda>_. ?m1) s\<lparr>mdata := ?mem\<rparr>)"
  have "running (upd_mq mq (\<lambda>_. ?m1) s\<lparr>mdata := ?mem\<rparr>) t"
    using mq_field.upd_running[OF run] by (simp add: running_def ready_def)
  then have "running s' t" unfolding s'_def by (rule mq_field.upd_running)
  moreover have s': "mqs s' mq = mq_put_free y ?m1" "mdata s' = ?mem" by (simp_all add: s'_def upd_mq_def)
  moreover have "mq_take mq buffer sz s = Some (RT_EOK, s')"
    using U(1) cp by (cases "unat (mq_msg_size ?m) < sz") (simp_all add: mq_take_def Let_def s'_def upd_mq_def sz1 min_def)
  moreover have "bytes_at (mdata s') buffer ?n = take sz (message (mdata s) ?m y)"
    using bytes_at_copy(1)[of ?n ?n buffer "y + MQ_LINK_SIZE" "mdata s"] by (simp add: s'(2) message_def take_bytes_at)
  moreover have "message (mdata s') (mqs s' mq) z = message (mdata s) ?m z" if "z \<in> set q" for z
  proof -
    have "mq_msg_size (mqs s' mq) = mq_msg_size ?m" using sz1 by (simp add: s'(1) mq_put_free_def)
    then show ?thesis using far[of z] that by (simp add: s'(2) message_def) (intro bytes_at_copy(2), auto)
  qed
  ultimately show ?thesis using rep by auto
qed

text \<open>C33: Receiving takes the first message: the buffer gets its bytes, at most the message size of
  them, and the node goes back to the free list. From an empty queue the call reports a
  timeout, or the thread joins the queue of receivers and another thread runs.\<close>

theorem rt_mq_recv_correct:
  assumes "running s t" "ready s i" "i \<noteq> t" "mq_rep (mqs s mq) q f x" "buffer \<noteq> 0" "0 < sz"
    "outside_pool (mqs s mq) buffer sz" "legal_time time"
    "o_flag (objs s (At mq)) = IPC_FLAG_FIFO \<or> o_flag (objs s (At mq)) = IPC_FLAG_PRIO"
  shows "\<exists>s' u. running s' u \<and>
    (case q of
       y # q' \<Rightarrow> rt_mq_recv mq buffer sz time s = Some (Ret RT_EOK, s') \<and> u = t \<and> mq_rep (mqs s' mq) q' (y # f) x
         \<and> bytes_at (mdata s') buffer (min sz (unat (mq_msg_size (mqs s mq)))) = take sz (message (mdata s) (mqs s mq) y)
         \<and> (\<forall>z \<in> set q'. message (mdata s') (mqs s' mq) z = message (mdata s) (mqs s mq) z)
     | [] \<Rightarrow>
         if time = 0 then rt_mq_recv mq buffer sz time s = Some (Ret (- RT_ETIMEOUT), s') \<and> s' = s
         else (\<exists>d. rt_mq_recv mq buffer sz time s = Some (Wait (t, time, d), s')) \<and> u \<noteq> t \<and> mqs s' = mqs s
           \<and> waits_as s s' (Suspend mq)
               (enqueue (\<lambda>v. current_priority (threads s v)) (o_flag (objs s (At mq))) t (tlists s (Suspend mq))))"
proof (cases q)
  case (Cons y q')
  have "mq_entry (mqs s mq) \<noteq> 0" using assms(4) Cons by (auto simp: mq_rep_def)
  then have "rt_mq_recv mq buffer sz time s = map_option (\<lambda>(r, s'). (Ret r, s')) (mq_take mq buffer sz s)"
    using assms(5,6) by (simp add: rt_mq_recv_def) (subst mq_recv_loop.simps, auto split: option.splits simp: map_option_case)
  then show ?thesis using mq_take_first[OF assms(4)[unfolded Cons] assms(1,6,7)] Cons by auto
next
  case Nil
  then have z: "mq_entry (mqs s mq) = 0" using assms(4) by (simp add: mq_rep_def unat_eq_0)
  show ?thesis
  proof (cases "time = 0")
    case True
    then show ?thesis using Nil z assms(1,5,6) by (intro exI[of _ s] exI[of _ t]) (simp add: rt_mq_recv_def)
  next
    case False
    obtain s' u where s': "ipc_wait (Suspend mq) t (o_flag (objs s (At mq))) time
        (upd_thread t (\<lambda>th. th\<lparr>thread_error := RT_EOK\<rparr>) s) = Some s'"
      "rt_current_thread s' = Some u" "u \<noteq> t" "running s' u" "kframe s s'"
      "waits_as s s' (Suspend mq)
        (enqueue (\<lambda>v. current_priority (threads s v)) (o_flag (objs s (At mq))) t (tlists s (Suspend mq)))"
      using thread_waits[OF assms(1-3,8) _ assms(9), of "Suspend mq"] by auto
    have "\<exists>d. rt_mq_recv mq buffer sz time s = Some (Wait (t, time, d), s')"
      using False z s'(1-3) runningD(8,9)[OF assms(1)] assms(5,6)
      by (subst rt_mq_recv_def, subst mq_recv_loop.simps) (simp add: Let_def)
    then show ?thesis using False Nil s'(3,4,6) mq_field.get_kframe[OF s'(5)] by (intro exI[of _ s'] exI[of _ u]) simp
  qed
qed

lemma mq_max_msgs_fit: "unat (of_nat (n div d) :: rt_uint16_t) * d \<le> n"
proof -
  have "unat (of_nat (n div d) :: rt_uint16_t) \<le> n div d" by (simp add: unat_of_nat)
  then have "unat (of_nat (n div d) :: rt_uint16_t) * d \<le> n div d * d" by (rule mult_le_mono1)
  also have "\<dots> \<le> n" by (simp add: mult.commute)
  finally show ?thesis .
qed

text \<open>A message queue starts out with no message and all its nodes free, and the nodes lie one
  behind the other within the memory the caller gave for the pool.\<close>

theorem rt_mq_init_nodes_in_pool:
  assumes "rt_mq_init mq name pool msg_size pool_size flag s = Some s'"
  shows "mq_rep (mqs s' mq) [] (rev (map (mq_node (mqs s' mq)) [0..<unat (mq_max_msgs (mqs s' mq))])) {}
    \<and> (\<forall>i < unat (mq_max_msgs (mqs s' mq)). pool \<le> mq_node (mqs s' mq) i
        \<and> mq_node (mqs s' mq) i + MQ_LINK_SIZE + unat (mq_msg_size (mqs s' mq)) \<le> pool + unat pool_size)"
proof -
  define m where "m = (mqs s mq)\<lparr>mq_msg_pool := pool, mq_msg_size := ucast (RT_ALIGN msg_size 4),
    mq_max_msgs := of_nat (unat pool_size div (unat (ucast (RT_ALIGN msg_size 4) :: rt_uint16_t) + MQ_LINK_SIZE))\<rparr>"
  have m': "mqs s' mq = (mq_free_nodes m)\<lparr>mq_entry := 0\<rparr>"
    using assms by (auto simp: rt_mq_init_def m_def upd_mq_def rt_object_init_def upd_obj_def rt_ipc_object_init_def
        upd_tlists_def bind_eq_Some_conv Let_def)
  note F = mq_free_nodes_keeps[of m]
  have "mq_node m i + MQ_LINK_SIZE + unat (mq_msg_size m) \<le> pool + unat pool_size" if "i < unat (mq_max_msgs m)" for i
  proof -
    have "mq_node m (unat (mq_max_msgs m)) \<le> pool + unat pool_size"
      using mq_max_msgs_fit by (simp add: m_def mq_node_def)
    then show ?thesis using mq_node_step[OF that, of m] by simp
  qed
  moreover have "pool \<le> mq_node m i" for i by (simp add: m_def mq_node_def)
  ultimately show ?thesis using mq_free_nodes_ok[of m] F by (simp add: m')
qed

text \<open>Resetting a message queue moves every queued message to the free list, so no node is lost,
  and wakes every receiver that waits with the error \<open>-RT_ERROR\<close>.\<close>

theorem rt_mq_reset_frees_all:
  assumes "running s t" "mq_rep (mqs s mq) q f x"
  shows "\<exists>s' u. rt_mq_control mq 1 arg s = Some (RT_EOK, s') \<and> running s' u \<and> mq_rep (mqs s' mq) [] (rev q @ f) x
    \<and> tlists s' (Suspend mq) = []
    \<and> (\<forall>v \<in> set (tlists s (Suspend mq)). ready s' v \<and> thread_error (threads s' v) = - RT_ERROR)"
proof -
  note D = runningD[OF assms(1)]
  obtain s0 where s0: "rt_ipc_list_resume_all (Suspend mq) s = Some s0" "kinv s0" "kframe s s0"
    "tlists s0 (Suspend mq) = []" "rt_current_thread s0 = Some t"
    "\<And>v. threads s0 v = (if v \<in> set (tlists s (Suspend mq))
       then (threads s v)\<lparr>thread_error := - RT_ERROR, stat := THREAD_READY\<rparr> else threads s v)"
    using ipc_list_resume_all_ok[OF D(1), of "Suspend mq"] D(2) by auto
  have "running s0 t" using D(3) s0 by (intro running_kframe[OF assms(1) s0(2,3)]) (auto simp: ready_def)
  have m0: "mqs s0 mq = mqs s mq" using mq_field.get_kframe[OF s0(3)] by simp
  obtain m where m: "mq_release_all (mqs s mq) = Some m" "mq_lists m [] (rev q @ f) x"
    using mq_release_all_ok assms(2) unfolding mq_rep_def by blast
  define s1 where "s1 = upd_mq mq (\<lambda>_. m\<lparr>mq_entry := 0\<rparr>) s0"
  have "running s1 t" unfolding s1_def using \<open>running s0 t\<close> by (rule mq_field.upd_running)
  then obtain s' u where s': "rt_schedule s1 = Some s'" "running s' u" "kframe s1 s'" "threads s' = threads s1"
    "tlists s' = tlists s1" using running_schedule[of s1 t] by blast
  have "mqs s' mq = m\<lparr>mq_entry := 0\<rparr>" using mq_field.get_kframe[OF s'(3)] by (simp add: s1_def mq_field.get_upd)
  then have "mq_rep (mqs s' mq) [] (rev q @ f) x" using m(2) by (simp add: mq_rep_def)
  moreover have "rt_mq_control mq 1 arg s = Some (RT_EOK, s')"
    using s0(1) m(1) m0 s'(1) by (simp add: rt_mq_control_def s1_def)
  ultimately show ?thesis using s0(4,6) s'(2,4,5)
    by (intro exI[of _ s'] exI[of _ u]) (simp add: ready_def s1_def mq_field.upd_simps)
qed

subsection \<open>Witnesses\<close>

text \<open>A queue at address 9 of two messages of four bytes: one is queued at 300, the node at 308 is
  free. At address 10 a queue whose pool of one message is in use.\<close>

definition demo_mqs :: "nat \<Rightarrow> rt_messagequeue" where
  "demo_mqs a = \<lparr>mq_msg_pool = 300, mq_msg_size = 4, mq_max_msgs = (if a = 9 then 2 else 1), mq_entry = 1,
     mq_head = Some 300, mq_tail = Some 300, mq_free = (if a = 9 then Some 308 else None), mq_next = (\<lambda>_. None)\<rparr>"

definition demo_mq :: mq_state where
  "demo_mq = demo_kernel \<lparr>sems = (\<lambda>_. 0), mutexes = demo_mutexes, events = (\<lambda>_. 6), mailboxes = demo_mailboxes,
     mqs = demo_mqs\<rparr>"

lemma demo_mq_facts:
  "running demo_mq 1" "ready demo_mq 2" "mqs demo_mq = demo_mqs"
  "o_flag (objs demo_mq (At a)) = IPC_FLAG_FIFO \<or> o_flag (objs demo_mq (At a)) = IPC_FLAG_PRIO"
  "mq_rep (mqs demo_mq 9) [300] [308] {}" "mq_rep (mqs demo_mq 10) [300] [] {}"
  "outside_pool (mqs demo_mq a) 500 n"
proof -
  show *: "running demo_mq 1" "ready demo_mq 2" "mqs demo_mq = demo_mqs"
    unfolding demo_mq_def by (rule demo_kernel_running)+ (simp add: demo_kernel_def sched_state.defs)
  show "o_flag (objs demo_mq (At a)) = IPC_FLAG_FIFO \<or> o_flag (objs demo_mq (At a)) = IPC_FLAG_PRIO"
    by (simp add: demo_mq_def demo_obj_def)
  have "{..<2::nat} = {0, 1}" by auto
  then show "mq_rep (mqs demo_mq 9) [300] [308] {}" "mq_rep (mqs demo_mq 10) [300] [] {}"
    by (auto simp: *(3) demo_mqs_def mq_rep_def mq_lists_def mq_node_def lessThan_Suc)
  show "outside_pool (mqs demo_mq a) 500 n" by (simp add: *(3) demo_mqs_def outside_pool_def mq_node_def)
qed

lemma demo_mq_size: "unat (mq_msg_size (mqs demo_mq a)) = 4"
  by (simp add: demo_mq_facts(3) demo_mqs_def)

theorem mq_send_and_urgent_correct_witness:
  "(\<exists>s'. rt_mq_send 9 500 3 demo_mq = Some (RT_EOK, s') \<and> mq_rep (mqs s' 9) [300, 308] [] {})
   \<and> (\<exists>s'. rt_mq_urgent 9 500 3 demo_mq = Some (RT_EOK, s') \<and> mq_rep (mqs s' 9) [308, 300] [] {})
   \<and> rt_mq_send 10 500 3 demo_mq = Some (- RT_EFULL, demo_mq)"
proof (intro conjI)
  note send = mq_send_and_urgent_correct[OF demo_mq_facts(1,5) _ _ demo_mq_facts(7), of 3]
  show "\<exists>s'. rt_mq_send 9 500 3 demo_mq = Some (RT_EOK, s') \<and> mq_rep (mqs s' 9) [300, 308] [] {}"
    using spec[OF send, of False] by (auto simp: demo_mq_size Let_def)
  show "\<exists>s'. rt_mq_urgent 9 500 3 demo_mq = Some (RT_EOK, s') \<and> mq_rep (mqs s' 9) [308, 300] [] {}"
    using spec[OF send, of True] by (auto simp: demo_mq_size Let_def)
  show "rt_mq_send 10 500 3 demo_mq = Some (- RT_EFULL, demo_mq)"
    using spec[OF mq_send_and_urgent_correct[OF demo_mq_facts(1,6) _ _ demo_mq_facts(7), of 3], of False]
    by (auto simp: demo_mq_size Let_def)
qed

theorem rt_mq_init_nodes_in_pool_witness:
  "\<exists>s'. rt_mq_init 9 [0x6d, 0x71, 0] 300 6 24 0 demo_mq = Some s' \<and> mq_node (mqs s' 9) 1 + 12 \<le> 324"
proof -
  have n: "rt_strncpy [0x6d, 0x71, 0] RT_NAME_MAX = Some [0x6d, 0x71, 0, 0, 0, 0, 0, 0]" by code_simp
  have a: "unat (ucast (RT_ALIGN 6 4) :: rt_uint16_t) = 8" by code_simp
  obtain s' where s': "rt_mq_init 9 [0x6d, 0x71, 0] 300 6 24 0 demo_mq = Some s'"
    "unat (mq_max_msgs (mqs s' 9)) = 2" "unat (mq_msg_size (mqs s' 9)) = 8"
    using n a by (auto simp: rt_mq_init_def rt_object_init_def upd_mq_def mq_free_nodes_keeps Let_def)
  then show ?thesis using rt_mq_init_nodes_in_pool[OF s'(1)] by auto
qed

theorem rt_mq_reset_frees_all_witness:
  "\<exists>s'. rt_mq_control 9 1 0 demo_mq = Some (RT_EOK, s') \<and> mq_rep (mqs s' 9) [] [300, 308] {}"
  using rt_mq_reset_frees_all[OF demo_mq_facts(1,5), of 0] by auto

theorem rt_mq_recv_correct_witness:
  "\<exists>s'. rt_mq_recv 9 500 4 0 demo_mq = Some (Ret RT_EOK, s') \<and> mq_rep (mqs s' 9) [] [300, 308] {}"
  using rt_mq_recv_correct[OF demo_mq_facts(1,2) _ demo_mq_facts(5) _ _ demo_mq_facts(7) _ demo_mq_facts(4), of 4 0]
  by (auto simp: legal_time_def)

end
