(* ===== verification/MemPool.thy ===== *)
theory MemPool
  imports MessageQueue
begin

text \<open>
  Memory pools of blocks of one size, \<^verbatim>\<open>src/mempool.c\<close>. The word in front of a block is the next
  free block while the block is free, and the address of its pool while it is in use; \<open>mp_links\<close>
  holds these words by address, 0 for \<^verbatim>\<open>RT_NULL\<close>. Reading the word at \<^verbatim>\<open>RT_NULL\<close>, dividing by zero
  and taking a thread from an empty list are undefined in the code and \<open>None\<close> here.
\<close>

record rt_mempool =
  mp_start_address :: nat
  mp_size :: rt_uint32_t
  mp_block_size :: rt_uint32_t
  mp_block_list :: nat
  mp_block_total_count :: rt_uint32_t
  mp_block_free_count :: rt_uint32_t
  mp_suspend_thread_count :: rt_uint32_t

record mp_state = mq_state +
  mps :: "nat \<Rightarrow> rt_mempool"
  mp_links :: "nat \<Rightarrow> nat"

definition upd_mp :: "nat \<Rightarrow> (rt_mempool \<Rightarrow> rt_mempool) \<Rightarrow> 'a mp_state_scheme \<Rightarrow> 'a mp_state_scheme" where
  "upd_mp a f s = s\<lparr>mps := (mps s)(a := f (mps s a))\<rparr>"

definition upd_link :: "nat \<Rightarrow> (nat \<Rightarrow> nat) \<Rightarrow> 'a mp_state_scheme \<Rightarrow> 'a mp_state_scheme" where
  "upd_link a f s = s\<lparr>mp_links := (mp_links s)(a := f (mp_links s a))\<rparr>"

abbreviation (input) BLOCK_HEAD :: nat where "BLOCK_HEAD \<equiv> 4"

subsection \<open>Creation and deletion\<close>

text \<open>The address of block \<open>i\<close>, and the loop that links all blocks.\<close>

definition block_at :: "nat \<Rightarrow> rt_uint32_t \<Rightarrow> rt_uint32_t \<Rightarrow> nat" where
  "block_at block_ptr block_size i = (block_ptr + unat (i * (block_size + 4))) mod 2 ^ 32"

definition mp_link_blocks :: "nat \<Rightarrow> 'a mp_state_scheme \<Rightarrow> 'a mp_state_scheme" where
  "mp_link_blocks mp s =
     (let p = mps s mp; blk = block_at (mp_start_address p) (mp_block_size p);
          s = foldl (\<lambda>s i. upd_link (blk (of_nat i)) (\<lambda>_. blk (of_nat i + 1)) s) s [0..<unat (mp_block_total_count p)];
          s = upd_link (blk (mp_block_total_count p - 1)) (\<lambda>_. 0) s
      in upd_mp mp (\<lambda>p. p\<lparr>mp_block_list := mp_start_address p\<rparr>) s)"

definition rt_mp_init :: "nat \<Rightarrow> 8 word list \<Rightarrow> nat \<Rightarrow> rt_uint32_t \<Rightarrow> rt_uint32_t \<Rightarrow> 'a mp_state_scheme
    \<Rightarrow> 'a mp_state_scheme option" where
  "rt_mp_init mp name start sz block_size s =
     do { s \<leftarrow> rt_object_init (At mp) Class_MemPool name s;
          let s = upd_mp mp (\<lambda>p. p\<lparr>mp_start_address := start, mp_size := RT_ALIGN_DOWN sz 4,
                mp_block_size := RT_ALIGN block_size 4\<rparr>) s;
          if mp_block_size (mps s mp) + 4 = 0 then None
          else
            do { let s = upd_mp mp (\<lambda>p. p\<lparr>mp_block_total_count := mp_size p div (mp_block_size p + 4)\<rparr>) s;
                 let s = upd_mp mp (\<lambda>p. p\<lparr>mp_block_free_count := mp_block_total_count p\<rparr>) s;
                 let s = upd_tlists (\<lambda>L. L(Suspend mp := [])) s;
                 let s = upd_mp mp (\<lambda>p. p\<lparr>mp_suspend_thread_count := 0\<rparr>) s;
                 Some (mp_link_blocks mp s) } }"

partial_function (option) mp_wake_all :: "nat \<Rightarrow> 'a mp_state_scheme \<Rightarrow> 'a mp_state_scheme option" where
  "mp_wake_all mp s =
     (case tlists s (Suspend mp) of
        [] \<Rightarrow> Some s
      | t # _ \<Rightarrow> mp_wake_all mp (upd_mp mp (\<lambda>p. p\<lparr>mp_suspend_thread_count := mp_suspend_thread_count p - 1\<rparr>)
          (snd (rt_thread_resume t (upd_thread t (\<lambda>th. th\<lparr>thread_error := - RT_ERROR\<rparr>) s)))))"

definition rt_mp_detach :: "nat \<Rightarrow> 'a mp_state_scheme \<Rightarrow> 'a mp_state_scheme option" where
  "rt_mp_detach mp s = do { s \<leftarrow> mp_wake_all mp s; Some (rt_object_detach (At mp) s) }"

definition rt_mp_create :: "8 word list \<Rightarrow> rt_uint32_t \<Rightarrow> rt_uint32_t \<Rightarrow> 'a mp_state_scheme
    \<Rightarrow> (nat option \<times> 'a mp_state_scheme) option" where
  "rt_mp_create name block_count block_size s =
     do { s \<leftarrow> RT_DEBUG_NOT_IN_INTERRUPT s;
          (a, s) \<leftarrow> rt_object_allocate Class_MemPool name s;
          case a of
            None \<Rightarrow> Some (None, s)
          | Some mp \<Rightarrow>
              do { let block_size = RT_ALIGN block_size 4;
                   let s = upd_mp mp (\<lambda>p. p\<lparr>mp_block_size := block_size, mp_size := (block_size + 4) * block_count\<rparr>) s;
                   (m, s) \<leftarrow> rt_malloc (unat ((block_size + 4) * block_count)) s;
                   case m of
                     None \<Rightarrow> do { s \<leftarrow> rt_object_delete mp s; Some (None, s) }
                   | Some start \<Rightarrow>
                       do { let s = upd_mp mp (\<lambda>p. p\<lparr>mp_start_address := start, mp_block_total_count := block_count,
                                  mp_block_free_count := block_count, mp_suspend_thread_count := 0\<rparr>) s;
                            let s = upd_tlists (\<lambda>L. L(Suspend mp := [])) s;
                            Some (Some mp, mp_link_blocks mp s) } } }"

definition rt_mp_delete :: "nat \<Rightarrow> 'a mp_state_scheme \<Rightarrow> 'a mp_state_scheme option" where
  "rt_mp_delete mp s =
     do { s \<leftarrow> RT_DEBUG_NOT_IN_INTERRUPT s;
          s \<leftarrow> mp_wake_all mp s;
          s \<leftarrow> rt_free (Some (mp_start_address (mps s mp))) s;
          rt_object_delete mp s }"

subsection \<open>Allocation\<close>

text \<open>Taking the first free block; a call that went to sleep goes on with \<open>rt_mp_alloc_resume\<close>.\<close>

definition mp_take :: "nat \<Rightarrow> 'a mp_state_scheme \<Rightarrow> (nat \<times> 'a mp_state_scheme) option" where
  "mp_take mp s =
     (let s = upd_mp mp (\<lambda>p. p\<lparr>mp_block_free_count := mp_block_free_count p - 1\<rparr>) s;
          block_ptr = mp_block_list (mps s mp)
      in if block_ptr = 0 then None
         else let s = upd_mp mp (\<lambda>p. p\<lparr>mp_block_list := mp_links s block_ptr\<rparr>) s
              in Some (block_ptr, upd_link block_ptr (\<lambda>_. mp) s))"

definition rt_mp_alloc_resume :: "nat \<Rightarrow> tid \<Rightarrow> 'a mp_state_scheme \<Rightarrow> (nat option \<times> 'a mp_state_scheme) option" where
  "rt_mp_alloc_resume mp t s =
     (if thread_error (threads s t) \<noteq> RT_EOK then Some (None, s)
      else do { (block_ptr, s) \<leftarrow> mp_take mp s; Some (Some (block_ptr + BLOCK_HEAD), s) })"

definition rt_mp_alloc :: "nat \<Rightarrow> rt_uint32_t \<Rightarrow> 'a mp_state_scheme
    \<Rightarrow> ((nat option, tid) outcome \<times> 'a mp_state_scheme) option" where
  "rt_mp_alloc mp time s =
     (if mp_block_free_count (mps s mp) \<noteq> 0 then
        do { (block_ptr, s) \<leftarrow> mp_take mp s; Some (Ret (Some (block_ptr + BLOCK_HEAD)), s) }
      else if time = 0 then Some (Ret None, s)
      else
        do { s \<leftarrow> RT_DEBUG_NOT_IN_INTERRUPT s;
             t \<leftarrow> rt_thread_self s;
             let s = snd (rt_thread_suspend t s);
             let s = upd_tlists (list_push_front (Suspend mp) t) s;
             let s = upd_mp mp (\<lambda>p. p\<lparr>mp_suspend_thread_count := mp_suspend_thread_count p + 1\<rparr>) s;
             s \<leftarrow> start_wait_timer t time s;
             s \<leftarrow> rt_schedule s;
             if rt_current_thread s \<noteq> Some t then Some (Wait t, s)
             else do { (r, s) \<leftarrow> rt_mp_alloc_resume mp t s; Some (Ret r, s) } })"

definition rt_mp_free :: "nat \<Rightarrow> 'a mp_state_scheme \<Rightarrow> 'a mp_state_scheme option" where
  "rt_mp_free block s =
     (let block_ptr = sub32 block BLOCK_HEAD;
          mp = mp_links s block_ptr;
          s = upd_mp mp (\<lambda>p. p\<lparr>mp_block_free_count := mp_block_free_count p + 1\<rparr>) s;
          s = upd_link block_ptr (\<lambda>_. mp_block_list (mps s mp)) s;
          s = upd_mp mp (\<lambda>p. p\<lparr>mp_block_list := block_ptr\<rparr>) s
      in if 0 < mp_suspend_thread_count (mps s mp) then
           case tlists s (Suspend mp) of
             [] \<Rightarrow> None
           | t # _ \<Rightarrow>
               let s = upd_thread t (\<lambda>th. th\<lparr>thread_error := RT_EOK\<rparr>) s;
                   s = snd (rt_thread_resume t s)
               in rt_schedule (upd_mp mp (\<lambda>p. p\<lparr>mp_suspend_thread_count := mp_suspend_thread_count p - 1\<rparr>) s)
         else Some s)"

interpretation mp_field: kernel_field mps upd_mp
  by unfold_locales (simp_all add: upd_mp_def kernel_as_def)

interpretation mp_word: kernel_field mp_links upd_link
  by unfold_locales (simp_all add: upd_link_def kernel_as_def)

lemma mp_frames [simp]:
  "mps (upd_link a h s) = mps s" "mp_links (upd_mp b g s) = mp_links s"
  by (simp_all add: upd_link_def upd_mp_def)

subsection \<open>Free and used blocks\<close>

fun word_chain :: "(nat \<Rightarrow> nat) \<Rightarrow> nat \<Rightarrow> nat list \<Rightarrow> bool" where
  "word_chain w p [] \<longleftrightarrow> p = 0"
| "word_chain w p (x # xs) \<longleftrightarrow> p = x \<and> x \<noteq> 0 \<and> word_chain w (w x) xs"

lemma word_chain_upd [simp]: "x \<notin> set xs \<Longrightarrow> word_chain (w(x := v)) p xs = word_chain w p xs"
  by (induction xs arbitrary: p) auto

definition pool_blocks :: "rt_mempool \<Rightarrow> nat set" where
  "pool_blocks p = (\<lambda>i. block_at (mp_start_address p) (mp_block_size p) (of_nat i)) ` {..<unat (mp_block_total_count p)}"

text \<open>\<open>mp_rep s mp f u\<close>: the free list is \<open>f\<close>, the blocks in use are \<open>u\<close>, each with the address of the
  pool in front of it, and together they are the blocks of the pool, none of them twice.\<close>

definition mp_rep :: "'a mp_state_scheme \<Rightarrow> nat \<Rightarrow> nat list \<Rightarrow> nat set \<Rightarrow> bool" where
  "mp_rep s mp f u \<longleftrightarrow> word_chain (mp_links s) (mp_block_list (mps s mp)) f
     \<and> unat (mp_block_free_count (mps s mp)) = length f \<and> (\<forall>b \<in> u. b \<noteq> 0 \<and> mp_links s b = mp)
     \<and> distinct f \<and> set f \<inter> u = {} \<and> set f \<union> u = pool_blocks (mps s mp)"

lemma mp_repD:
  assumes "mp_rep s mp f u"
  shows "word_chain (mp_links s) (mp_block_list (mps s mp)) f" "unat (mp_block_free_count (mps s mp)) = length f"
    "b \<in> u \<Longrightarrow> mp_links s b = mp" "distinct f" "set f \<inter> u = {}" "set f \<union> u = pool_blocks (mps s mp)"
    "b \<in> u \<Longrightarrow> b \<noteq> 0"
  using assms by (auto simp: mp_rep_def)

lemma mp_rep_cong:
  "mps s' mp = mps s mp \<Longrightarrow> mp_links s' = mp_links s \<Longrightarrow> mp_rep s' mp f u = mp_rep s mp f u"
  by (simp add: mp_rep_def)

lemma pool_blocks_simps [simp]:
  "pool_blocks (p\<lparr>mp_block_list := x\<rparr>) = pool_blocks p" "pool_blocks (p\<lparr>mp_block_free_count := n\<rparr>) = pool_blocks p"
  "pool_blocks (p\<lparr>mp_suspend_thread_count := n\<rparr>) = pool_blocks p"
  by (simp_all add: pool_blocks_def)

lemma mp_rep_waiters [simp]:
  "mp_rep (upd_mp mp (\<lambda>p. p\<lparr>mp_suspend_thread_count := h p\<rparr>) s) mp f u = mp_rep s mp f u"
  by (simp add: mp_rep_def mp_field.get_upd)

lemma pool_block_less: "b \<in> pool_blocks p \<Longrightarrow> b < 2 ^ 32"
  by (auto simp: pool_blocks_def block_at_def)

lemma mp_take_ok:
  assumes r: "mp_rep s mp (b # f) u"
  shows "\<exists>s'. mp_take mp s = Some (b, s') \<and> mp_rep s' mp f (insert b u)
    \<and> s' = upd_link b (\<lambda>_. mp) (upd_mp mp (\<lambda>p. p\<lparr>mp_block_free_count := mp_block_free_count p - 1, mp_block_list := mp_links s b\<rparr>) s)"
proof -
  note R = mp_repD[OF r]
  define s' where "s' = upd_link b (\<lambda>_. mp) (upd_mp mp (\<lambda>p. p\<lparr>mp_block_free_count := mp_block_free_count p - 1, mp_block_list := mp_links s b\<rparr>) s)"
  have b: "mp_block_list (mps s mp) = b" "b \<noteq> 0" using R(1) by simp_all
  then have "mp_take mp s = Some (b, s')"
    by (simp add: mp_take_def Let_def s'_def upd_mp_def upd_link_def)
  moreover have "mp_block_free_count (mps s mp) \<noteq> 0" using R(2) by auto
  then have "unat (mp_block_free_count (mps s mp) - 1) = length f" using R(2) by (simp add: unat_minus_one)
  then have "mp_rep s' mp f (insert b u)"
    using R b unfolding mp_rep_def by (auto simp: s'_def upd_mp_def upd_link_def)
  ultimately show ?thesis unfolding s'_def by blast
qed

definition mp_put :: "nat \<Rightarrow> nat \<Rightarrow> 'a mp_state_scheme \<Rightarrow> 'a mp_state_scheme" where
  "mp_put mp b s = upd_mp mp (\<lambda>p. p\<lparr>mp_block_free_count := mp_block_free_count p + 1, mp_block_list := b\<rparr>)
     (upd_link b (\<lambda>_. mp_block_list (mps s mp)) s)"

lemma mp_put_ok:
  assumes r: "mp_rep s mp f u" and b: "b \<in> u"
  shows "mp_rep (mp_put mp b s) mp (b # f) (u - {b})"
proof -
  note R = mp_repD[OF r]
  have "insert b (set f) \<subseteq> pool_blocks (mps s mp)" using R(6) b by auto
  then have "card (insert b (set f)) \<le> card (pool_blocks (mps s mp))" by (rule card_mono[rotated]) (simp add: pool_blocks_def)
  also have "\<dots> \<le> unat (mp_block_total_count (mps s mp))"
    unfolding pool_blocks_def using card_image_le[of "{..<unat (mp_block_total_count (mps s mp))}"] by simp
  finally have "card (insert b (set f)) \<le> unat (mp_block_total_count (mps s mp))" .
  moreover have "b \<notin> set f" using R(5) b by blast
  then have "card (insert b (set f)) = Suc (length f)" using R(4) distinct_card[of f] by simp
  ultimately have "mp_block_free_count (mps s mp) < mp_block_total_count (mps s mp)" using R(2) by (simp add: word_less_nat_alt)
  from unat_succ_less[OF this] have "unat (mp_block_free_count (mps s mp) + 1) = length (b # f)" using R(2) by simp
  then show ?thesis using R(1,4-6) R(3,7) b \<open>b \<notin> set f\<close>
    unfolding mp_rep_def by (auto simp: mp_put_def upd_mp_def upd_link_def)
qed

lemma rt_mp_free_eq:
  assumes r: "mp_rep s mp f u" and b: "b \<in> u"
  shows "rt_mp_free (b + BLOCK_HEAD) s =
    (if 0 < mp_suspend_thread_count (mps s mp) then
       case tlists s (Suspend mp) of
         [] \<Rightarrow> None
       | t # _ \<Rightarrow> rt_schedule (upd_mp mp (\<lambda>p. p\<lparr>mp_suspend_thread_count := mp_suspend_thread_count p - 1\<rparr>)
           (snd (rt_thread_resume t (upd_thread t (\<lambda>th. th\<lparr>thread_error := RT_EOK\<rparr>) (mp_put mp b s)))))
     else Some (mp_put mp b s))"
proof -
  have "b < 2 ^ 32" using mp_repD(6)[OF r] b pool_block_less by blast
  then have "sub32 (b + BLOCK_HEAD) BLOCK_HEAD = b" by (simp add: sub32_def)
  moreover have "mp_links s b = mp" using mp_repD(3)[OF r b] .
  ultimately show ?thesis
    by (simp add: rt_mp_free_def Let_def mp_put_def upd_mp_def upd_link_def split: list.split)
qed

subsection \<open>Allocating and freeing\<close>

definition mp_waiters :: "'a mp_state_scheme \<Rightarrow> nat \<Rightarrow> bool" where
  "mp_waiters s mp \<longleftrightarrow> unat (mp_suspend_thread_count (mps s mp)) = length (tlists s (Suspend mp))"

lemma push_front_suspended:
  assumes "kinv s" "stat (threads s t) = THREAD_READY" "wait_list l"
  shows "upd_tlists (list_push_front l t) (snd (rt_thread_suspend t s)) = suspended_on l t (t # tlists s l) s"
  using ready_not_waiting[OF assms]
  by (simp add: rt_thread_suspend_ready[OF assms(2)] suspended_on_def upd_tlists_def list_push_front_def list_unlink_def)

lemma upd_mp_suspended: "upd_mp mp h (suspended_on l t q s) = suspended_on l t q (upd_mp mp h s)"
  by (simp add: upd_mp_def suspended_on_def group_without_def)

text \<open>Allocating from a memory pool takes the first free block and gives the caller the address
  behind its head word; the block was in no other hands, and the other blocks stay as they are.
  From a pool with no free block the call gives a null pointer, or the thread is queued in front
  of the other waiting threads, is counted, and another thread runs.\<close>

theorem rt_mp_alloc_correct:
  assumes "running s t" "ready s i" "i \<noteq> t" "mp_rep s mp f u" "legal_time time"
  shows "\<exists>s' v. running s' v \<and>
    (case f of
       b # f' \<Rightarrow> rt_mp_alloc mp time s = Some (Ret (Some (b + BLOCK_HEAD)), s') \<and> v = t \<and> b \<notin> u
         \<and> mp_rep s' mp f' (insert b u) \<and> (\<forall>x. x \<noteq> b \<longrightarrow> mp_links s' x = mp_links s x)
     | [] \<Rightarrow>
         if time = 0 then rt_mp_alloc mp time s = Some (Ret None, s') \<and> s' = s
         else rt_mp_alloc mp time s = Some (Wait t, s') \<and> v \<noteq> t \<and> mp_rep s' mp [] u
           \<and> waits_as s s' (Suspend mp) (t # tlists s (Suspend mp))
           \<and> mp_suspend_thread_count (mps s' mp) = mp_suspend_thread_count (mps s mp) + 1)"
proof (cases f)
  case (Cons b f')
  obtain s' where s': "mp_take mp s = Some (b, s')" "mp_rep s' mp f' (insert b u)"
    "s' = upd_link b (\<lambda>_. mp) (upd_mp mp (\<lambda>p. p\<lparr>mp_block_free_count := mp_block_free_count p - 1, mp_block_list := mp_links s b\<rparr>) s)"
    using mp_take_ok[of s mp b f' u] assms(4) Cons by blast
  have "running s' t" unfolding s'(3) by (intro mp_word.upd_running mp_field.upd_running assms(1))
  moreover have "b \<notin> u" using mp_repD(5)[OF assms(4)] Cons by auto
  moreover have "mp_block_free_count (mps s mp) \<noteq> 0" using mp_repD(2)[OF assms(4)] Cons by auto
  moreover have "mp_links s' x = mp_links s x" if "x \<noteq> b" for x using that by (simp add: s'(3) mp_word.get_upd)
  ultimately show ?thesis using Cons s'(1,2) by (intro exI[of _ s'] exI[of _ t]) (simp add: rt_mp_alloc_def)
next
  case Nil
  note D = runningD[OF assms(1)]
  have z: "mp_block_free_count (mps s mp) = 0" using mp_repD(2)[OF assms(4)] Nil by (simp add: unat_eq_0)
  show ?thesis
  proof (cases "time = 0")
    case True
    then show ?thesis using Nil z assms(1) by (intro exI[of _ s] exI[of _ t]) (simp add: rt_mp_alloc_def)
  next
    case False
    define s0 where "s0 = upd_mp mp (\<lambda>p. p\<lparr>mp_suspend_thread_count := mp_suspend_thread_count p + 1\<rparr>) s"
    let ?q = "t # tlists s (Suspend mp)"
    have r0: "running s0 t" unfolding s0_def by (rule mp_field.upd_running[OF assms(1)])
    have e0: "tlists s0 = tlists s" "ready s0 i" using assms(2) by (simp_all add: s0_def mp_field.upd_simps ready_def)
    have q: "queued t (tlists s0 (Suspend mp)) ?q"
      using waiting_distinct[OF D(1)] ready_not_waiting[OF D(1,4)] by (simp add: queued_def e0)
    obtain s1 s' v where s': "start_wait_timer t time (suspended_on (Suspend mp) t ?q s0) = Some s1" "rt_schedule s1 = Some s'"
      "kframe s0 s'" "waits_as s0 s' (Suspend mp) ?q" "rt_current_thread s' = Some v" "v \<noteq> t" "running s' v"
      using wait_switches[OF r0 e0(2) assms(3) _ q assms(5)] by auto
    have m: "mps s' = mps s0" "mp_links s' = mp_links s0"
      using mp_field.get_kframe[OF s'(3)] mp_word.get_kframe[OF s'(3)] by simp_all
    have "mp_rep s' mp [] u" using assms(4) Nil m unfolding mp_rep_cong[of s' mp s0, OF _ m(2), unfolded m(1), OF refl]
      by (simp add: s0_def)
    moreover have "rt_mp_alloc mp time s = Some (Wait t, s')"
      using z False s'(1,2,5,6) D(6,9)
      by (simp add: rt_mp_alloc_def push_front_suspended[OF D(1,4)] upd_mp_suspended not_in_interrupt_eq flip: s0_def)
    moreover have "waits_as s s' (Suspend mp) ?q" using s'(4) e0(1) by (simp add: waits_as_def)
    ultimately show ?thesis using Nil False s'(6,7) m
      by (intro exI[of _ s'] exI[of _ v]) (simp add: s0_def mp_field.get_upd)
  qed
qed

lemma mp_wake_first:
  assumes r0: "running s0 t" and rep0: "mp_rep s0 mp f u" and wt0: "mp_waiters s0 mp" and l0: "tlists s0 (Suspend mp) = w # ws"
  shows "\<exists>s' v. rt_schedule (upd_mp mp (\<lambda>p. p\<lparr>mp_suspend_thread_count := mp_suspend_thread_count p - 1\<rparr>)
      (snd (rt_thread_resume w (upd_thread w (\<lambda>th. th\<lparr>thread_error := RT_EOK\<rparr>) s0)))) = Some s'
    \<and> running s' v \<and> mp_rep s' mp f u \<and> mp_waiters s' mp \<and> waits_as s0 s' (Suspend mp) ws
    \<and> ready s' w \<and> thread_error (threads s' w) = RT_EOK"
proof -
  let ?l = "Suspend mp"
  have n: "unat (mp_suspend_thread_count (mps s0 mp)) = Suc (length ws)" using wt0 l0 by (simp add: mp_waiters_def)
  then have pos: "0 < mp_suspend_thread_count (mps s0 mp)" "mp_suspend_thread_count (mps s0 mp) \<noteq> 0"
    by (auto simp: word_less_nat_alt)
  define s1 where "s1 = upd_thread w (\<lambda>th. th\<lparr>thread_error := RT_EOK\<rparr>) s0"
  have r1: "running s1 t" using r0 by (simp add: s1_def)
  note D1 = runningD[OF r1]
  have e1: "tlists s1 ?l = w # ws" "kframe s0 s1" "thread_error (threads s1 w) = RT_EOK" using l0 by (simp_all add: s1_def)
  define s2 where "s2 = snd (rt_thread_resume w s1)"
  have w: "w \<in> set (tlists s1 ?l)" using e1(1) by simp
  note W = resume_waiting[OF D1(1) w, folded s2_def, simplified]
  have "w \<notin> set ws" using waiting_distinct[OF D1(1), of ?l] e1(1) by simp
  then have l2: "tlists s2 ?l = ws" using W(4) e1(1) by simp
  define s3 where "s3 = upd_mp mp (\<lambda>p. p\<lparr>mp_suspend_thread_count := mp_suspend_thread_count p - 1\<rparr>) s2"
  have "running s2 t" using W D1(2,3) by (intro running_kframe[OF r1]) (auto simp: ready_def)
  then have r3: "running s3 t" unfolding s3_def by (rule mp_field.upd_running)
  obtain s' v where s': "rt_schedule s3 = Some s'" "kframe s3 s'" "threads s' = threads s3" "tlists s' = tlists s3" "running s' v"
    using running_schedule[OF r3] by blast
  have f2: "kframe s0 s2" using kframe_trans[OF e1(2) W(2)] .
  have m2: "mps s2 = mps s0" "mp_links s2 = mp_links s0" using mp_field.get_kframe[OF f2] mp_word.get_kframe[OF f2] by simp_all
  have m': "mps s' = mps s3" "mp_links s' = mp_links s0"
    using mp_field.get_kframe[OF s'(2)] mp_word.get_kframe[OF s'(2)] m2(2) by (simp_all add: s3_def)
  have "mp_rep s3 mp f u" using rep0 m2 by (simp add: s3_def mp_rep_cong[of s2 mp s0])
  then have rep': "mp_rep s' mp f u" using m' m2(2) mp_rep_cong[of s' mp s3] by (simp add: s3_def)
  have "unat (mp_suspend_thread_count (mps s' mp)) = length ws"
    using n pos(2) by (simp add: m' s3_def mp_field.get_upd m2 unat_minus_one)
  then have wt: "mp_waiters s' mp" by (simp add: mp_waiters_def s'(4) s3_def mp_field.upd_simps l2)
  have wa: "waits_as s0 s' ?l ws" unfolding waits_as_def
    using W(5) l2 by (auto simp: s'(4) s3_def mp_field.upd_simps s1_def)
  have th: "threads s' w = (threads s1 w)\<lparr>stat := THREAD_READY\<rparr>" by (simp add: s'(3) s3_def mp_field.upd_simps W(3))
  have "ready s' w" "thread_error (threads s' w) = RT_EOK" using th e1(3) by (simp_all add: ready_def)
  then show ?thesis using rep' wt wa s'(1,5) unfolding s3_def s2_def s1_def by blast
qed

lemma mp_free_effect:
  assumes "running s t" "mp_rep s mp f u" "b \<in> u" "mp_waiters s mp"
  shows "\<exists>s' v. rt_mp_free (b + BLOCK_HEAD) s = Some s' \<and> running s' v \<and> mp_rep s' mp (b # f) (u - {b})
    \<and> mp_waiters s' mp \<and> waits_as s s' (Suspend mp) (tl (tlists s (Suspend mp)))
    \<and> (\<forall>w. tlists s (Suspend mp) \<noteq> [] \<and> w = hd (tlists s (Suspend mp))
        \<longrightarrow> ready s' w \<and> thread_error (threads s' w) = RT_EOK)"
proof -
  let ?l = "Suspend mp"
  define s0 where "s0 = mp_put mp b s"
  have r0: "running s0 t" unfolding s0_def mp_put_def by (intro mp_word.upd_running mp_field.upd_running assms(1))
  have rep0: "mp_rep s0 mp (b # f) (u - {b})" unfolding s0_def by (rule mp_put_ok[OF assms(2,3)])
  have e0: "tlists s0 = tlists s" "mp_suspend_thread_count (mps s0 mp) = mp_suspend_thread_count (mps s mp)"
    by (simp_all add: s0_def mp_put_def mp_field.upd_simps mp_word.upd_simps mp_field.get_upd)
  note F = rt_mp_free_eq[OF assms(2,3), folded s0_def]
  show ?thesis
  proof (cases "tlists s ?l")
    case Nil
    then have z: "mp_suspend_thread_count (mps s mp) = 0" using assms(4) by (simp add: mp_waiters_def unat_eq_0)
    then have "rt_mp_free (b + BLOCK_HEAD) s = Some s0" using F by simp
    then show ?thesis using Nil r0 rep0 e0 z by (intro exI[of _ s0] exI[of _ t]) (simp add: waits_as_def mp_waiters_def)
  next
    case (Cons w ws)
    have w0: "mp_waiters s0 mp" "tlists s0 ?l = w # ws" using assms(4) Cons e0 by (simp_all add: mp_waiters_def)
    then have pos: "0 < mp_suspend_thread_count (mps s mp)" using e0(2) by (simp add: mp_waiters_def word_less_nat_alt)
    obtain s' v where s': "rt_schedule (upd_mp mp (\<lambda>p. p\<lparr>mp_suspend_thread_count := mp_suspend_thread_count p - 1\<rparr>)
        (snd (rt_thread_resume w (upd_thread w (\<lambda>th. th\<lparr>thread_error := RT_EOK\<rparr>) s0)))) = Some s'" "running s' v"
      "mp_rep s' mp (b # f) (u - {b})" "mp_waiters s' mp" "waits_as s0 s' ?l ws" "ready s' w" "thread_error (threads s' w) = RT_EOK"
      using mp_wake_first[OF r0 rep0 w0] by blast
    have "rt_mp_free (b + BLOCK_HEAD) s = Some s'" using F pos s'(1) Cons by simp
    moreover have "waits_as s s' ?l ws" using s'(5) e0(1) by (simp add: waits_as_def)
    ultimately show ?thesis using Cons s' by (intro exI[of _ s'] exI[of _ v]) simp
  qed
qed

text \<open>C17: Freeing a block that is in use puts it in front of the free list of its pool. With a thread
  waiting for a block, the first one is made ready and, if it runs next, its allocation returns
  that very block; the count of waiting threads stays exact.\<close>

theorem rt_mp_free_correct:
  assumes "running s t" "mp_rep s mp f u" "b \<in> u" "mp_waiters s mp"
  shows "\<exists>s' v. rt_mp_free (b + BLOCK_HEAD) s = Some s' \<and> running s' v \<and> mp_rep s' mp (b # f) (u - {b})
    \<and> mp_waiters s' mp \<and> waits_as s s' (Suspend mp) (tl (tlists s (Suspend mp)))
    \<and> (tlists s (Suspend mp) \<noteq> [] \<longrightarrow> ready s' (hd (tlists s (Suspend mp)))
        \<and> (\<exists>s2. rt_mp_alloc_resume mp (hd (tlists s (Suspend mp))) s' = Some (Some (b + BLOCK_HEAD), s2) \<and> mp_rep s2 mp f u))"
proof -
  obtain s' v where s': "rt_mp_free (b + BLOCK_HEAD) s = Some s'" "running s' v" "mp_rep s' mp (b # f) (u - {b})"
    "mp_waiters s' mp" "waits_as s s' (Suspend mp) (tl (tlists s (Suspend mp)))"
    "tlists s (Suspend mp) \<noteq> [] \<Longrightarrow> ready s' (hd (tlists s (Suspend mp)))
       \<and> thread_error (threads s' (hd (tlists s (Suspend mp)))) = RT_EOK"
    using mp_free_effect[OF assms] by blast
  obtain s2 where s2: "mp_take mp s' = Some (b, s2)" "mp_rep s2 mp f (insert b (u - {b}))"
    using mp_take_ok[OF s'(3)] by blast
  moreover have "insert b (u - {b}) = u" using assms(3) by auto
  ultimately show ?thesis using s' by (intro exI[of _ s'] exI[of _ v]) (auto simp: rt_mp_alloc_resume_def)
qed

text \<open>A thread woken by a free does not own the freed block. If another thread allocates before
  it runs, its allocation goes on with an empty free list and reads the word at the null
  pointer.\<close>

theorem mp_woken_thread_loses_block:
  assumes "running s t" "mp_rep s mp [] u" "b \<in> u" "mp_waiters s mp" "tlists s (Suspend mp) = w # ws"
  shows "\<exists>s1 s2. rt_mp_free (b + BLOCK_HEAD) s = Some s1
    \<and> rt_mp_alloc mp time s1 = Some (Ret (Some (b + BLOCK_HEAD)), s2) \<and> rt_mp_alloc_resume mp w s2 = None"
proof -
  obtain s1 where s1: "rt_mp_free (b + BLOCK_HEAD) s = Some s1" "mp_rep s1 mp [b] (u - {b})"
    "thread_error (threads s1 w) = RT_EOK"
    using mp_free_effect[OF assms(1-4)] assms(5) by auto
  obtain s2 where s2: "mp_take mp s1 = Some (b, s2)" "mp_rep s2 mp [] (insert b (u - {b}))" "threads s2 = threads s1"
    using mp_take_ok[OF s1(2)] by (auto simp: mp_word.upd_simps mp_field.upd_simps)
  have "mp_block_free_count (mps s1 mp) \<noteq> 0" using mp_repD(2)[OF s1(2)] by auto
  then have "rt_mp_alloc mp time s1 = Some (Ret (Some (b + BLOCK_HEAD)), s2)" using s2(1) by (simp add: rt_mp_alloc_def)
  moreover have "mp_block_list (mps s2 mp) = 0" using mp_repD(1)[OF s2(2)] by simp
  then have "rt_mp_alloc_resume mp w s2 = None"
    using s1(3) s2(3) by (simp add: rt_mp_alloc_resume_def mp_take_def Let_def mp_field.get_upd)
  ultimately show ?thesis using s1(1) by blast
qed

text \<open>The count of waiting threads is not corrected when a wait times out. After the only waiting
  thread timed out, the next free of a block takes a thread out of the empty list.\<close>

theorem mp_timeout_breaks_free:
  assumes "tlists s (Suspend mp) = [w]" "mp_waiters s mp" "mp_rep s mp f u" "b \<in> u" "rt_thread_timeout w s = Some s'"
  shows "mp_rep s' mp f u \<and> tlists s' (Suspend mp) = [] \<and> \<not> mp_waiters s' mp \<and> rt_mp_free (b + BLOCK_HEAD) s' = None"
proof -
  define s1 where "s1 = upd_tlists (list_unlink w) (upd_thread w (\<lambda>th. th\<lparr>thread_error := - RT_ETIMEOUT\<rparr>) s)"
  have sch: "rt_schedule (rt_schedule_insert_thread w s1) = Some s'"
    using assms(5) by (simp add: rt_thread_timeout_def s1_def Let_def RT_ASSERT_def split: if_splits)
  have "tlists s' = tlists (rt_schedule_insert_thread w s1)" "mps s' = mps s" "mp_links s' = mp_links s"
    using rt_schedule_frame[OF sch] by (auto simp: insert_thread_eq s1_def upd_tlists_def upd_thread_def)
  then have e: "tlists s' (Suspend mp) = []" "mps s' = mps s" "mp_links s' = mp_links s"
    using assms(1) by (simp_all add: insert_thread_eq list_push_back_def s1_def upd_tlists_def list_unlink_def)
  have rep: "mp_rep s' mp f u" using assms(3) e mp_rep_cong[of s' mp s] by simp
  have one: "unat (mp_suspend_thread_count (mps s mp)) = 1" using assms(1,2) by (simp add: mp_waiters_def)
  then have "0 < mp_suspend_thread_count (mps s' mp)" by (simp add: e(2) word_less_nat_alt)
  then show ?thesis using rep rt_mp_free_eq[OF rep assms(4)] e one by (simp add: mp_waiters_def)
qed

subsection \<open>The layout of a new pool\<close>

lemma block_at_small:
  assumes "i * (unat bs + 4) < 2 ^ 32" "start + i * (unat bs + 4) < 2 ^ 32" "bs + 4 \<noteq> 0"
  shows "block_at start bs (of_nat i) = start + i * (unat bs + 4)"
proof (cases i)
  case (Suc n)
  have "unat bs + 4 \<le> i * (unat bs + 4)" using Suc by simp
  then have "unat bs + 4 < 2 ^ 32" using assms(1) by (rule le_less_trans)
  then have "unat (bs + 4) = unat bs + 4" by (subst unat_add_lem[THEN iffD1]) simp_all
  moreover have "i * 4 \<le> i * (unat bs + 4)" by simp
  then have "i < 2 ^ 32" using assms(1) by linarith
  ultimately have "unat (of_nat i * (bs + 4)) = i * (unat bs + 4)"
    using assms(1) by (simp add: unat_word_ariths unat_of_nat)
  then show ?thesis using assms(2) by (simp add: block_at_def)
qed (use assms in \<open>simp add: block_at_def\<close>)

lemma word_chain_map:
  assumes "\<And>i. i < n \<Longrightarrow> w (g i) = (if Suc i = n then 0 else g (Suc i)) \<and> g i \<noteq> 0"
  shows "word_chain w (if j < n then g j else 0) (map g [j..<n])"
proof (induction "n - j" arbitrary: j)
  case (Suc m)
  then have j: "j < n" by simp
  have "word_chain w (if Suc j < n then g (Suc j) else 0) (map g [Suc j..<n])" using Suc by simp
  moreover have "w (g j) = (if Suc j < n then g (Suc j) else 0)" using assms[OF j] j by auto
  ultimately show ?case using j assms[OF j] by (simp add: upt_rec[of j n])
qed simp

lemma link_loop:
  assumes "inj_on A {..<n}"
  shows "(\<forall>i < n. mp_links (foldl (\<lambda>s i. upd_link (A i) (\<lambda>_. B i) s) s [0..<n]) (A i) = B i)
    \<and> mps (foldl (\<lambda>s i. upd_link (A i) (\<lambda>_. B i) s) s [0..<n]) = mps s
    \<and> tlists (foldl (\<lambda>s i. upd_link (A i) (\<lambda>_. B i) s) s [0..<n]) = tlists s"
  using assms
proof (induction n)
  case (Suc n)
  have "A i \<noteq> A n" if "i < n" for i using Suc.prems that by (auto simp: inj_on_def)
  then show ?case using Suc by (simp add: mp_word.get_upd mp_word.upd_simps less_Suc_eq inj_on_subset[OF Suc.prems] lessThan_Suc)
qed simp

lemma mp_link_blocks_ok:
  fixes s :: "'a mp_state_scheme"
  assumes p: "mps s mp = p" and n: "unat (mp_block_total_count p) = Suc n" "mp_block_free_count p = mp_block_total_count p"
    and blk: "\<And>i. i \<le> n \<Longrightarrow> block_at (mp_start_address p) (mp_block_size p) (of_nat i) = mp_start_address p + i * k"
    and k: "0 < k" "0 < mp_start_address p"
  shows "mp_rep (mp_link_blocks mp s) mp (map (\<lambda>i. mp_start_address p + i * k) [0..<Suc n]) {}"
proof -
  define B where "B i = block_at (mp_start_address p) (mp_block_size p) (of_nat i)" for i
  define A where "A i = mp_start_address p + i * k" for i
  have B: "B i = A i" if "i \<le> n" for i using blk[OF that] by (simp add: A_def B_def)
  have inj: "inj_on B {..<Suc n}" using k by (auto simp: inj_on_def B A_def)
  define s1 where "s1 = foldl (\<lambda>s i. upd_link (B i) (\<lambda>_. B (Suc i)) s) s [0..<Suc n]"
  have last: "B n = block_at (mp_start_address p) (mp_block_size p) (mp_block_total_count p - 1)"
  proof -
    have "mp_block_total_count p = of_nat (Suc n)" using n(1) by (metis of_nat_unat ucast_id)
    then show ?thesis by (simp add: B_def)
  qed
  have sc: "of_nat i + 1 = (of_nat (Suc i) :: rt_uint32_t)" for i by simp
  have s2: "mp_link_blocks mp s = upd_mp mp (\<lambda>p. p\<lparr>mp_block_list := mp_start_address p\<rparr>) (upd_link (B n) (\<lambda>_. 0) s1)"
    unfolding mp_link_blocks_def Let_def p n(1) last[symmetric] s1_def sc B_def[symmetric] by (rule refl)
  have m1: "mps s1 mp = p" "\<And>i. i \<le> n \<Longrightarrow> mp_links s1 (B i) = B (Suc i)"
    using link_loop[OF inj, where B = "\<lambda>i. B (Suc i)" and s = s] p by (simp_all add: s1_def)
  have links: "mp_links (mp_link_blocks mp s) (A i) = (if Suc i = Suc n then 0 else A (Suc i)) \<and> A i \<noteq> 0" if "i < Suc n" for i
  proof -
    have "B i = B n \<longleftrightarrow> i = n" using inj that by (auto simp: inj_on_def)
    then show ?thesis using that m1(2)[of i] k B[of i] B[of n] B[of "Suc i"]
      by (auto simp: s2 mp_word.get_upd A_def)
  qed
  have "word_chain (mp_links (mp_link_blocks mp s)) (A 0) (map A [0..<Suc n])"
    using word_chain_map[of "Suc n", OF links, of 0] by simp
  moreover have "mps (mp_link_blocks mp s) mp = p\<lparr>mp_block_list := A 0\<rparr>"
    by (simp add: s2 mp_field.get_upd m1 A_def)
  moreover have "distinct (map A [0..<Suc n])" using k by (auto simp: distinct_map inj_on_def A_def)
  moreover have "set (map A [0..<Suc n]) = pool_blocks p"
    unfolding pool_blocks_def n(1) by (auto simp: A_def blk less_Suc_eq_le atLeast0LessThan image_iff)
  ultimately show ?thesis using n unfolding mp_rep_def A_def[symmetric] by (simp add: A_def)
qed

lemma mp_link_blocks_keeps:
  "mps (mp_link_blocks mp s) mp = (mps s mp)\<lparr>mp_block_list := mp_start_address (mps s mp)\<rparr>"
  "tlists (mp_link_blocks mp s) = tlists s"
proof -
  have "mps (foldl (\<lambda>s i. upd_link (A i) (\<lambda>_. B i) s) s ns) = mps s
      \<and> tlists (foldl (\<lambda>s i. upd_link (A i) (\<lambda>_. B i) s) s ns) = tlists s" for A B :: "nat \<Rightarrow> nat" and ns
    by (induction ns arbitrary: s) (simp_all add: mp_word.upd_simps)
  then show "mps (mp_link_blocks mp s) mp = (mps s mp)\<lparr>mp_block_list := mp_start_address (mps s mp)\<rparr>"
    "tlists (mp_link_blocks mp s) = tlists s"
    by (simp_all add: mp_link_blocks_def Let_def mp_field.get_upd mp_field.upd_simps mp_word.upd_simps)
qed

lemma align_plus_4: "RT_ALIGN b 4 + 4 \<noteq> 0 \<Longrightarrow> unat (RT_ALIGN b 4 + 4) = unat (RT_ALIGN b 4) + 4"
proof -
  assume ne: "RT_ALIGN b 4 + 4 \<noteq> 0"
  have "unat (RT_ALIGN b 4) = unat (b + 3) div 4 * 4" using and_not_3[of "b + 3"] by (simp add: RT_ALIGN_def algebra_simps)
  then obtain q where q: "unat (RT_ALIGN b 4) = q * 4" by blast
  have lt: "q * 4 < 2 ^ 32" using unsigned_less[of "RT_ALIGN b 4", where ?'a = nat] unfolding q by simp
  show ?thesis
  proof (cases "q * 4 + 4 < 2 ^ 32")
    case True
    then show ?thesis using q by (subst unat_add_lem[THEN iffD1]) simp_all
  next
    case False
    then have "q * 4 + 4 = 2 ^ 32" using lt by simp
    then have "unat (RT_ALIGN b 4 + 4) = 0" using q by (simp add: unat_word_ariths)
    then show ?thesis using ne by (simp add: unat_eq_0)
  qed
qed

lemma align_down_le: "unat (RT_ALIGN_DOWN a 4) \<le> unat a"
  using and_not_3[of a] by (simp add: RT_ALIGN_DOWN_def)

text \<open>The blocks of a new memory pool lie one behind the other within the memory the caller gave,
  each behind a head word; all are free and no thread waits.\<close>

theorem rt_mp_init_blocks_in_pool:
  assumes "rt_mp_init mp name start sz bs s = Some s'" "0 < start" "start + unat sz \<le> 2 ^ 32"
    "mp_block_total_count (mps s' mp) \<noteq> 0"
  defines "k \<equiv> unat (mp_block_size (mps s' mp)) + BLOCK_HEAD" and "n \<equiv> unat (mp_block_total_count (mps s' mp))"
  shows "mp_rep s' mp (map (\<lambda>i. start + i * k) [0..<n]) {} \<and> mp_waiters s' mp \<and> start + n * k \<le> start + unat sz"
proof -
  define m where "m = RT_ALIGN bs 4"
  define c where "c = RT_ALIGN_DOWN sz 4 div (m + 4)"
  obtain s0 where s0: "s' = mp_link_blocks mp s0" "m + 4 \<noteq> 0" "tlists s0 (Suspend mp) = []"
    and p: "mps s0 mp = (mps s mp)\<lparr>mp_start_address := start, mp_size := RT_ALIGN_DOWN sz 4, mp_block_size := m,
      mp_block_total_count := c, mp_block_free_count := c, mp_suspend_thread_count := 0\<rparr>"
    using assms(1) by (auto simp: rt_mp_init_def m_def c_def Let_def mp_field.get_upd bind_eq_Some_conv rt_object_init_def
        upd_obj_def upd_mp_def upd_tlists_def split: if_splits)
  have keep: "mp_block_size (mps s' mp) = m" "mp_block_total_count (mps s' mp) = c"
    "mp_suspend_thread_count (mps s' mp) = 0" "tlists s' = tlists s0"
    using mp_link_blocks_keeps[of mp s0] p by (simp_all add: s0(1))
  have kn: "k = unat m + 4" "n = unat c" by (simp_all add: k_def n_def keep)
  have k4: "unat (m + 4) = k" unfolding kn m_def using s0(2) by (intro align_plus_4) (simp add: m_def)
  have "n * k \<le> unat (RT_ALIGN_DOWN sz 4)" by (simp add: kn(2) c_def unat_div k4 mult.commute)
  then have fit: "n * k \<le> unat sz" using align_down_le[of sz] by (rule le_trans)
  obtain j where j: "n = Suc j" using assms(4) by (cases n) (auto simp: n_def unat_eq_0)
  have "block_at start m (of_nat i) = start + i * k" if "i \<le> j" for i
  proof -
    have "i * k < n * k" using that j kn(1) by (intro mult_less_mono1) simp_all
    moreover have "unat sz < 2 ^ 32" using unsigned_less[of sz, where ?'a = nat] by simp
    ultimately have "i * k < 2 ^ 32" "start + i * k < 2 ^ 32" using fit assms(3) by linarith+
    then show ?thesis using s0(2) unfolding kn(1) by (intro block_at_small)
  qed
  then have "mp_rep s' mp (map (\<lambda>i. start + i * k) [0..<n]) {}"
    unfolding s0(1) j using mp_link_blocks_ok[OF p, of j k] kn(1) kn(2)[symmetric, unfolded j] assms(2) by simp
  then show ?thesis using keep s0(3) fit by (simp add: mp_waiters_def)
qed

subsection \<open>Witnesses\<close>

text \<open>A pool at address 11 with two blocks of eight bytes, at 400 and 412: the first is free. In the
  pool at 12 both are in use, and thread 3 waits for one in the second state.\<close>

definition demo_mps :: "nat \<Rightarrow> nat \<Rightarrow> rt_mempool" where
  "demo_mps n a = \<lparr>mp_start_address = (if a = 11 then 400 else 500), mp_size = 24, mp_block_size = 8,
     mp_block_list = (if a = 11 then 400 else 0), mp_block_total_count = 2,
     mp_block_free_count = (if a = 11 then 1 else 0), mp_suspend_thread_count = (if a = 12 then of_nat n else 0)\<rparr>"

definition demo_mp :: mp_state where
  "demo_mp = demo_kernel \<lparr>sems = (\<lambda>_. 0), mutexes = demo_mutexes, events = (\<lambda>_. 6), mailboxes = demo_mailboxes,
     mqs = demo_mqs, mps = demo_mps 0, mp_links = (\<lambda>a. if a = 400 then 0 else if a < 500 then 11 else 12)\<rparr>"

definition demo_mp_waiting :: mp_state where
  "demo_mp_waiting = suspended_on (Suspend 12) 2 [2] (demo_mp\<lparr>mps := demo_mps 1\<rparr>)"

lemma demo_mp_facts:
  "running demo_mp 1" "ready demo_mp 2" "mps demo_mp = demo_mps 0" "tlists demo_mp (Suspend a) = []"
  "mp_rep demo_mp 11 [400] {412}" "mp_rep demo_mp 12 [] {500, 512}" "mp_waiters demo_mp a"
proof -
  show *: "running demo_mp 1" "ready demo_mp 2" "mps demo_mp = demo_mps 0"
    unfolding demo_mp_def by (rule demo_kernel_running)+ (simp add: demo_kernel_def sched_state.defs)
  have l: "mp_links demo_mp = (\<lambda>a. if a = 400 then 0 else if a < 500 then 11 else 12)"
    by (simp add: demo_mp_def demo_kernel_def sched_state.defs)
  have "{..<2::nat} = {0, 1}" by auto
  then show "mp_rep demo_mp 11 [400] {412}" "mp_rep demo_mp 12 [] {500, 512}"
    by (auto simp: mp_rep_def *(3) l demo_mps_def pool_blocks_def block_at_def)
  show "tlists demo_mp (Suspend a) = []" by (simp add: demo_mp_def demo_tlists_def)
  then show "mp_waiters demo_mp a" by (simp add: mp_waiters_def *(3) demo_mps_def)
qed

theorem rt_mp_alloc_correct_witness:
  "(\<exists>s'. rt_mp_alloc 11 0 demo_mp = Some (Ret (Some 404), s') \<and> mp_rep s' 11 [] {400, 412})
   \<and> (\<exists>s'. rt_mp_alloc 12 5 demo_mp = Some (Wait 1, s') \<and> tlists s' (Suspend 12) = [1])"
proof
  show "\<exists>s'. rt_mp_alloc 11 0 demo_mp = Some (Ret (Some 404), s') \<and> mp_rep s' 11 [] {400, 412}"
    using rt_mp_alloc_correct[OF demo_mp_facts(1,2) _ demo_mp_facts(5), of 0] by (auto simp: legal_time_def)
  show "\<exists>s'. rt_mp_alloc 12 5 demo_mp = Some (Wait 1, s') \<and> tlists s' (Suspend 12) = [1]"
    using rt_mp_alloc_correct[OF demo_mp_facts(1,2) _ demo_mp_facts(6) legal_time_5] demo_mp_facts(4)
    by (auto simp: waits_as_def)
qed

theorem rt_mp_free_correct_witness:
  "\<exists>s'. rt_mp_free 416 demo_mp = Some s' \<and> mp_rep s' 11 [412, 400] {}"
  using rt_mp_free_correct[OF demo_mp_facts(1,5) _ demo_mp_facts(7), of 412] by auto

lemma demo_mp_waiting_facts:
  "running demo_mp_waiting 1" "tlists demo_mp_waiting (Suspend 12) = [2]" "mp_rep demo_mp_waiting 12 [] {500, 512}"
  "mp_waiters demo_mp_waiting 12" "stat (threads demo_mp_waiting 2) = THREAD_SUSPEND"
proof -
  define s where "s = demo_mp\<lparr>mps := demo_mps 1\<rparr>"
  have k: "kinv s" using runningD(1)[OF demo_mp_facts(1)] unfolding s_def by (rule kinv_cong) simp_all
  have r: "ready s 2" "ready s 1" using demo_mp_facts(1,2) runningD(3) by (simp_all add: s_def ready_def running_def)
  have q: "queued 2 (tlists s (Suspend 12)) [2]" by (simp add: queued_def s_def demo_mp_facts(4))
  have k': "kinv demo_mp_waiting" unfolding demo_mp_waiting_def s_def[symmetric]
    by (rule suspended_on_kinv[OF k _ _ q]) (use r in \<open>simp_all add: ready_def\<close>)
  then show "running demo_mp_waiting 1" using runningD[OF demo_mp_facts(1)]
    by (auto simp: running_def demo_mp_waiting_def suspended_on_def ready_def stack_ok_def)
  show "tlists demo_mp_waiting (Suspend 12) = [2]" "stat (threads demo_mp_waiting 2) = THREAD_SUSPEND"
    by (simp_all add: demo_mp_waiting_def suspended_on_def)
  show "mp_waiters demo_mp_waiting 12" by (simp add: mp_waiters_def demo_mp_waiting_def suspended_on_def demo_mps_def)
  have "mp_rep (upd_mp 12 (\<lambda>p. p\<lparr>mp_suspend_thread_count := 1\<rparr>) demo_mp) 12 [] {500, 512}"
    using demo_mp_facts(6) by simp
  moreover have "mps demo_mp_waiting 12 = mps (upd_mp 12 (\<lambda>p. p\<lparr>mp_suspend_thread_count := 1\<rparr>) demo_mp) 12"
    "mp_links demo_mp_waiting = mp_links (upd_mp 12 (\<lambda>p. p\<lparr>mp_suspend_thread_count := 1\<rparr>) demo_mp)"
    by (simp_all add: demo_mp_waiting_def suspended_on_def mp_field.get_upd demo_mp_facts(3) demo_mps_def)
  ultimately show "mp_rep demo_mp_waiting 12 [] {500, 512}" using mp_rep_cong by blast
qed

theorem mp_woken_thread_loses_block_witness:
  "\<exists>s1 s2. rt_mp_free 504 demo_mp_waiting = Some s1 \<and> rt_mp_alloc 12 0 s1 = Some (Ret (Some 504), s2)
    \<and> rt_mp_alloc_resume 12 2 s2 = None"
  using mp_woken_thread_loses_block[OF demo_mp_waiting_facts(1,3) _ demo_mp_waiting_facts(4,2), of 500 0] by simp

theorem mp_timeout_breaks_free_witness:
  "\<exists>s'. rt_thread_timeout 2 (demo_mp_waiting\<lparr>rt_scheduler_lock_nest := 1\<rparr>) = Some s' \<and> rt_mp_free 504 s' = None"
proof -
  let ?s = "demo_mp_waiting\<lparr>rt_scheduler_lock_nest := 1\<rparr>"
  obtain s' where s': "rt_thread_timeout 2 ?s = Some s'" using demo_mp_waiting_facts(5)
    by (simp add: rt_thread_timeout_def Let_def RT_ASSERT_def rt_schedule_def insert_thread_eq upd_tlists_def upd_thread_def)
  have "tlists ?s (Suspend 12) = [2]" "mp_waiters ?s 12" "mp_rep ?s 12 [] {500, 512}"
    using demo_mp_waiting_facts(2-4) mp_rep_cong[of ?s 12 demo_mp_waiting] by (simp_all add: mp_waiters_def)
  from mp_timeout_breaks_free[OF this _ s', of 500] show ?thesis using s' by simp
qed

theorem rt_mp_init_blocks_in_pool_witness:
  "\<exists>s'. rt_mp_init 11 [0x6d, 0x70, 0] 400 27 6 demo_mp = Some s' \<and> mp_rep s' 11 [400, 412] {}"
proof -
  have n: "rt_strncpy [0x6d, 0x70, 0] RT_NAME_MAX = Some [0x6d, 0x70, 0, 0, 0, 0, 0, 0]" by code_simp
  have a: "RT_ALIGN 6 4 = 8" "RT_ALIGN_DOWN 27 4 = 24" by code_simp+
  obtain s' where s': "rt_mp_init 11 [0x6d, 0x70, 0] 400 27 6 demo_mp = Some s'"
    "mp_block_total_count (mps s' 11) = 2" "mp_block_size (mps s' 11) = 8"
    using n a by (auto simp: rt_mp_init_def rt_object_init_def mp_link_blocks_keeps Let_def mp_field.get_upd upd_tlists_def)
  then show ?thesis using rt_mp_init_blocks_in_pool[OF s'(1)] by (auto simp: upt_rec)
qed

end
