(* ===== verification/Timeout.thy ===== *)
theory Timeout
  imports MemPool
begin

text \<open>
  Blocking calls with a limited waiting time: the part of the system where the IPC objects, the
  timers, the tick interrupt and the scheduler work together. A thread that waits starts its
  timer; each tick interrupt checks the timers; the time-out function of the thread takes it off
  the waiting list and makes it ready, with \<open>-RT_ETIMEOUT\<close> as the result of the call.
\<close>

lemma tick_half_pos: "0 < n \<Longrightarrow> n < RT_TICK_HALF \<Longrightarrow> 0 < sint (n :: rt_uint32_t) \<and> legal_time n"
proof -
  assume n: "0 < n" "n < RT_TICK_HALF"
  then have "unat n < 2 ^ 31" by (simp add: word_less_nat_alt)
  then have "\<not> sint n < 0" by (simp add: sint_neg_iff)
  moreover have "sint n \<noteq> 0" using n(1) by (auto simp: signed_eq_0_iff)
  ultimately show ?thesis using n by (simp add: legal_time_def)
qed

lemma timer_started:
  assumes k: "kinv s" and r: "stat (threads s t) = THREAD_READY" and l: "wait_list l" and q: "queued t (tlists s l) q"
    and n: "0 < n" "n < RT_TICK_HALF"
    and s1: "start_wait_timer t n (suspended_on l t q s) = Some s1"
  shows "set (active_timers s1) = insert (ThreadTimer t) (set (active_timers s))"
    "p \<noteq> ThreadTimer t \<Longrightarrow> timers s1 p = timers s p" "rt_tick s1 = rt_tick s"
    "timeout_tick (timers s1 (ThreadTimer t)) = rt_tick s + n"
proof -
  define s0 where "s0 = snd (rt_timer_control (ThreadTimer t) 0 n (suspended_on l t q s))"
  have s0: "s0 = (suspended_on l t q s)\<lparr>timers := (timers s)(ThreadTimer t := (timers s (ThreadTimer t))\<lparr>timer_init_tick := n\<rparr>)\<rparr>"
    by (simp add: s0_def rt_timer_control_def upd_timer_def suspended_on_def)
  have k0: "kinv s0" unfolding s0_def by (intro set_time_kinv suspended_on_kinv[OF k r l q])
  have off: "o_flag (objs s0 (ThreadTimer t)) AND TIMER_ACTIVATED = 0"
    using kinvD(7)[OF k r] by (simp add: s0 suspended_on_def)
  obtain s' where s': "rt_timer_start (ThreadTimer t) s0 = Some (RT_EOK, s')" "rt_tick s' = rt_tick s0"
    "set (active_timers s') = insert (ThreadTimer t) (set (active_timers s0))"
    "\<forall>p. p \<noteq> ThreadTimer t \<longrightarrow> timers s' p = timers s0 p"
    "timeout_tick (timers s' (ThreadTimer t)) = rt_tick s0 + timer_init_tick (timers s0 (ThreadTimer t))"
    using start_thread_timer_kinv[OF k0 _ off] n by (auto simp: s0 suspended_on_def)
  have "s1 = s'" using s1 s'(1) tick_half_pos[OF n] by (simp add: start_wait_timer_def flip: s0_def)
  then show "set (active_timers s1) = insert (ThreadTimer t) (set (active_timers s))"
    "p \<noteq> ThreadTimer t \<Longrightarrow> timers s1 p = timers s p" "rt_tick s1 = rt_tick s"
    "timeout_tick (timers s1 (ThreadTimer t)) = rt_tick s + n"
    using s' by (auto simp: s0 suspended_on_def active_timers_def)
qed

text \<open>The wait of any blocking call, followed by tick interrupts.\<close>

lemma ipc_wait_times_out:
  assumes r: "running s t" and i: "ready s i" "i \<noteq> t" and fl: "flag = 0 \<or> flag = 1" and l: "wait_list l"
    and n: "0 < n" "n < RT_TICK_HALF" and tm: "only_thread_timers s" "timers_pending s"
  shows "\<exists>s' u. ipc_wait l t flag n s = Some s' \<and> rt_current_thread s' = Some u \<and> u \<noteq> t
    \<and> (\<forall>m < unat n. \<exists>v. ticks user m s' = Some v \<and> stat (threads v t) = THREAD_SUSPEND)
    \<and> (\<exists>v. ticks user (unat n) s' = Some v \<and> tick_inv v \<and> ready v t \<and> thread_error (threads v t) = - RT_ETIMEOUT)"
proof -
  note D = runningD[OF r]
  let ?q = "enqueue (\<lambda>v. current_priority (threads s v)) flag t (tlists s l)"
  have q: "queued t (tlists s l) ?q"
    using waiting_distinct[OF D(1)] ready_not_waiting[OF D(1,4) l] by (intro queued_enqueue) auto
  obtain s1 s' u where s1: "start_wait_timer t n (suspended_on l t ?q s) = Some s1" "rt_schedule s1 = Some s'"
    and s': "kinv s'" "kframe s s'" "rt_current_thread s' = Some u" "u \<noteq> t" "running s' u"
    using wait_switches[OF r i l q] tick_half_pos[OF n] by blast
  note T = timer_started[OF D(1,4) l q n s1(1)]
  obtain pr c where f: "s' = s1\<lparr>rt_current_priority := pr, rt_current_thread := c\<rparr>"
    using rt_schedule_frame[OF s1(2)] by blast
  have wait: "ipc_wait l t flag n s = Some s'"
    using s1 by (simp add: ipc_wait_def ipc_list_suspend_on[OF D(1,4) fl l])
  have act: "set (active_timers s') = insert (ThreadTimer t) (set (active_timers s))" using T(1) by (simp add: f active_timers_def)
  have ti: "tick_inv s'" using s' act tm(1) runningD(7)[OF s'(5)] by (auto simp: tick_inv_def only_thread_timers_def)
  have due: "timeout_tick (timers s' (ThreadTimer t)) - rt_tick s' = n" using T(3,4) by (simp add: f)
  have "1 \<le> tkey (rt_tick s' - 1) s' p" if p: "p \<in> set (active_timers s')" for p
  proof (cases "p = ThreadTimer t")
    case True
    have "timeout_tick (timers s' p) - (rt_tick s' - 1) = n + 1" using due True by (simp add: algebra_simps)
    then have "tkey (rt_tick s' - 1) s' p = unat (n + 1)" by (simp only: tkey_def)
    moreover have "unat n < 0x7fffffff" using n(2) by (simp add: word_less_nat_alt)
    ultimately show ?thesis by (simp add: unat_add_small)
  next
    case False
    then show ?thesis using p act tm(2) T(2,3) by (auto simp: timers_pending_def tkey_def f)
  qed
  then have "timers_pending s'" by (simp add: timers_pending_def)
  moreover have "ThreadTimer t \<in> set (active_timers s')" "0 < unat n" using act n(1) by (simp_all add: unat_gt_0)
  ultimately show ?thesis using ticks_wake[OF ti, of t "unat n" user] due wait s'(3,4) by (auto simp: ready_def)
qed

lemma timers_upd_thread [simp]:
  "only_thread_timers (upd_thread t f s) = only_thread_timers s" "timers_pending (upd_thread t f s) = timers_pending s"
  by (simp_all add: only_thread_timers_def timers_pending_def active_timers_def upd_thread_def tkey_def)

text \<open>C14: A thread that takes a semaphore without permits, or waits for events that are not there, with a
  limit of \<open>n\<close> ticks stays suspended through the first \<open>n - 1\<close> tick interrupts if nobody wakes it;
  the \<open>n\<close>-th one makes it ready and the call ends with \<open>-RT_ETIMEOUT\<close>. No interrupt hangs or trips an
  assertion on the way.\<close>

theorem blocked_calls_time_out:
  assumes "running s t" "ready s i" "i \<noteq> t" "0 < n" "n < RT_TICK_HALF" "only_thread_timers s" "timers_pending s"
    and "sems s sem = 0" "o_flag (objs s (At sem)) = IPC_FLAG_FIFO \<or> o_flag (objs s (At sem)) = IPC_FLAG_PRIO"
    and "bits \<noteq> 0" "opt AND EVENT_FLAG_AND \<noteq> 0 \<or> opt AND EVENT_FLAG_OR \<noteq> 0" "\<not> event_cond opt bits (events s ev)"
    and "o_flag (objs s (At ev)) = IPC_FLAG_FIFO \<or> o_flag (objs s (At ev)) = IPC_FLAG_PRIO"
  shows "(\<exists>s'. rt_sem_take sem n s = Some (Wait t, s')
      \<and> (\<forall>m < unat n. \<exists>v. ticks user m s' = Some v \<and> stat (threads v t) = THREAD_SUSPEND)
      \<and> (\<exists>v. ticks user (unat n) s' = Some v \<and> tick_inv v \<and> ready v t \<and> rt_sem_take_end t v = - RT_ETIMEOUT))
    \<and> (\<exists>s'. rt_event_recv ev bits opt n s = Some (Wait t, s')
      \<and> (\<forall>m < unat n. \<exists>v. ticks user m s' = Some v \<and> stat (threads v t) = THREAD_SUSPEND)
      \<and> (\<exists>v. ticks user (unat n) s' = Some v \<and> tick_inv v \<and> ready v t \<and> rt_event_recv_end t v = (- RT_ETIMEOUT, None)))"
proof
  note D = runningD[OF assms(1)]
  have nz: "n \<noteq> 0" using assms(4) by auto
  define s0 where "s0 = upd_thread t (\<lambda>th. th\<lparr>thread_error := RT_EOK\<rparr>) s"
  have s0: "running s0 t" "ready s0 i" "only_thread_timers s0" "timers_pending s0"
    using assms(1,2,3,6,7) by (simp_all add: s0_def ready_def)
  obtain s' u where s': "ipc_wait (Suspend sem) t (o_flag (objs s (At sem))) n s0 = Some s'" "rt_current_thread s' = Some u" "u \<noteq> t"
    "\<forall>m < unat n. \<exists>v. ticks user m s' = Some v \<and> stat (threads v t) = THREAD_SUSPEND"
    "\<exists>v. ticks user (unat n) s' = Some v \<and> tick_inv v \<and> ready v t \<and> thread_error (threads v t) = - RT_ETIMEOUT"
    using ipc_wait_times_out[OF s0(1,2) assms(3,9) _ assms(4,5) s0(3,4), of "Suspend sem" user] by auto
  have "rt_sem_take sem n s = Some (Wait t, s')"
    using assms(8) nz s'(1-3) D(8,9) by (simp add: rt_sem_take_def flip: s0_def)
  then show "\<exists>s'. rt_sem_take sem n s = Some (Wait t, s')
      \<and> (\<forall>m < unat n. \<exists>v. ticks user m s' = Some v \<and> stat (threads v t) = THREAD_SUSPEND)
      \<and> (\<exists>v. ticks user (unat n) s' = Some v \<and> tick_inv v \<and> ready v t \<and> rt_sem_take_end t v = - RT_ETIMEOUT)"
    using s'(4,5) by (auto simp: rt_sem_take_end_def)
  define s1 where "s1 = upd_thread t (\<lambda>th. th\<lparr>event_set := bits, event_info := opt\<rparr>) s0"
  have s1: "running s1 t" "ready s1 i" "only_thread_timers s1" "timers_pending s1"
    using s0 assms(3) by (simp_all add: s1_def ready_def)
  obtain s' u where s': "ipc_wait (Suspend ev) t (o_flag (objs s (At ev))) n s1 = Some s'" "rt_current_thread s' = Some u" "u \<noteq> t"
    "\<forall>m < unat n. \<exists>v. ticks user m s' = Some v \<and> stat (threads v t) = THREAD_SUSPEND"
    "\<exists>v. ticks user (unat n) s' = Some v \<and> tick_inv v \<and> ready v t \<and> thread_error (threads v t) = - RT_ETIMEOUT"
    using ipc_wait_times_out[OF s1(1,2) assms(3,13) _ assms(4,5) s1(3,4), of "Suspend ev" user] by auto
  have ev: "events s0 = events s" by (simp add: s0_def upd_thread_def)
  have "rt_event_recv ev bits opt n s = Some (Wait t, s')"
    using assms(10,11,12) nz s'(1-3) D(8,9) ev
    by (simp add: rt_event_recv_def Let_def RT_ASSERT_def flip: s0_def) (simp add: s0_def s1_def)
  then show "\<exists>s'. rt_event_recv ev bits opt n s = Some (Wait t, s')
      \<and> (\<forall>m < unat n. \<exists>v. ticks user m s' = Some v \<and> stat (threads v t) = THREAD_SUSPEND)
      \<and> (\<exists>v. ticks user (unat n) s' = Some v \<and> tick_inv v \<and> ready v t \<and> rt_event_recv_end t v = (- RT_ETIMEOUT, None))"
    using s'(4,5) by (auto simp: rt_event_recv_end_def)
qed

theorem blocked_calls_time_out_witness:
  "(\<exists>s' v. rt_sem_take 7 5 demo_mp = Some (Wait 1, s') \<and> ticks (\<lambda>_ _ s. Some s) 5 s' = Some v
      \<and> rt_sem_take_end 1 v = - RT_ETIMEOUT)
   \<and> (\<exists>s' v. rt_event_recv 8 9 1 5 demo_mp = Some (Wait 1, s') \<and> ticks (\<lambda>_ _ s. Some s) 5 s' = Some v
      \<and> rt_event_recv_end 1 v = (- RT_ETIMEOUT, None))"
proof -
  have f: "sems demo_mp 7 = 0" "events demo_mp 8 = 6" "o_flag (objs demo_mp (At a)) = 0"
    "only_thread_timers demo_mp" "timers_pending demo_mp" for a
    by (simp_all add: demo_mp_def demo_kernel_def sched_state.defs demo_sched_def demo_obj_def only_thread_timers_def
        timers_pending_def active_timers_def)
  have "(1 :: rt_uint8_t) AND EVENT_FLAG_AND \<noteq> 0" "\<not> event_cond 1 9 (events demo_mp 8)"
    unfolding f event_cond_def by code_simp+
  then show ?thesis
    using blocked_calls_time_out[OF demo_mp_facts(1,2), of 5 7 9 1 8 "\<lambda>_ _ s. Some s"] f by auto
qed

end
