(* ===== verification/Heap.thy ===== *)
theory Heap
  imports Mem
begin

text \<open>
  Correctness of the small-memory heap of \<^verbatim>\<open>src/mem.c\<close>. The heap is a row of segments, each a
  header followed by data, known by its size and by whether it is in use; the headers link the
  segments in both directions. The operations of \<^verbatim>\<open>Mem\<close> keep this representation, and what they
  do to the row of segments is a first-fit allocator that joins free neighbours.
\<close>

type_synonym seg = "nat \<times> bool"

definition slen :: "seg list \<Rightarrow> nat" where
  "slen xs = sum_list (map fst xs)"

definition used_len :: "seg list \<Rightarrow> nat" where
  "used_len xs = slen (filter snd xs)"

lemma slen_simps [simp]: "slen [] = 0" "slen (x # xs) = fst x + slen xs" "slen (xs @ ys) = slen xs + slen ys"
  by (simp_all add: slen_def)

lemma used_len_simps [simp]:
  "used_len [] = 0" "used_len (x # xs) = (if snd x then fst x else 0) + used_len xs"
  "used_len (xs @ ys) = used_len xs + used_len ys"
  by (simp_all add: used_len_def)

lemma used_len_le: "used_len xs \<le> slen xs"
  by (induction xs) auto

subsection \<open>The chain of headers\<close>

definition hdr_ok :: "heap_mem \<Rightarrow> nat \<Rightarrow> nat \<Rightarrow> bool \<Rightarrow> bool" where
  "hdr_ok b pr nx u \<longleftrightarrow> hm_prev b = pr \<and> hm_next b = nx \<and> (hm_used b \<noteq> 0) = u \<and> (u \<longrightarrow> hm_magic b = HEAP_MAGIC)"

fun chain :: "(nat \<Rightarrow> heap_mem) \<Rightarrow> nat \<Rightarrow> nat \<Rightarrow> seg list \<Rightarrow> bool" where
  "chain B pr a [] \<longleftrightarrow> True"
| "chain B pr a ((n, u) # xs) \<longleftrightarrow> hdr_ok (B a) pr (a + n) u \<and> 12 \<le> n \<and> 4 dvd n \<and> chain B a (a + n) xs"

fun last_at :: "nat \<Rightarrow> nat \<Rightarrow> seg list \<Rightarrow> nat" where
  "last_at pr a [] = pr"
| "last_at pr a ((n, u) # xs) = last_at a (a + n) xs"

lemma seg_chain_append: "chain B pr a (xs @ ys) \<longleftrightarrow> chain B pr a xs \<and> chain B (last_at pr a xs) (a + slen xs) ys"
  by (induction xs arbitrary: pr a) (auto simp: add.assoc)

lemma last_at_snoc [simp]: "last_at pr a (xs @ [x]) = a + slen xs"
proof (induction xs arbitrary: pr a)
  case Nil
  then show ?case by (cases x) simp
qed (auto simp: add.assoc)

lemma chain_cong: "(\<And>x. a \<le> x \<Longrightarrow> x < a + slen xs \<Longrightarrow> B' x = B x) \<Longrightarrow> chain B' pr a xs = chain B pr a xs"
proof (induction B pr a xs rule: chain.induct)
  case (2 B pr a n u xs)
  have "chain B' a (a + n) xs = chain B a (a + n) xs" using 2(2) by (intro 2(1)) auto
  then show ?case using 2(2)[of a] by (cases "n = 0") auto
qed simp

lemma chain_upd [simp]:
  "x < a \<or> a + slen xs \<le> x \<Longrightarrow> chain (B(x := v)) pr a xs = chain B pr a xs"
  by (rule chain_cong) auto

lemma chain_prev:
  assumes "chain B pr a xs"
  shows "chain (B(a := (B a)\<lparr>hm_prev := p\<rparr>)) p a xs"
  using assms by (cases xs) (auto simp: hdr_ok_def)

lemma chain_dvd: "chain B pr a xs \<Longrightarrow> 4 dvd slen xs"
  by (induction xs arbitrary: pr a) auto

lemma chain_member: "chain B pr a (xs @ (n, u) # ys) \<Longrightarrow> hdr_ok (B (a + slen xs)) (last_at pr a xs) (a + slen xs + n) u \<and> 12 \<le> n \<and> 4 dvd n"
  by (simp add: seg_chain_append)

text \<open>No two free neighbours.\<close>

fun joined :: "seg list \<Rightarrow> bool" where
  "joined (x # y # zs) \<longleftrightarrow> (snd x \<or> snd y) \<and> joined (y # zs)"
| "joined xs \<longleftrightarrow> True"

lemma joined_Cons: "joined (x # xs) \<longleftrightarrow> (xs \<noteq> [] \<longrightarrow> snd x \<or> snd (hd xs)) \<and> joined xs"
  by (cases xs) auto

lemma joined_append:
  "joined (xs @ ys) \<longleftrightarrow> joined xs \<and> joined ys \<and> (xs \<noteq> [] \<and> ys \<noteq> [] \<longrightarrow> snd (last xs) \<or> snd (hd ys))"
  by (induction xs) (auto simp: joined_Cons)

subsection \<open>The invariant\<close>

text \<open>
  \<open>heap_inv low s xs\<close>: the heap is the row \<open>xs\<close>. The hint \<^verbatim>\<open>lfree\<close> is a free segment or the end; with
  \<open>low\<close> it is the first one.
\<close>

definition lfree_ok :: "bool \<Rightarrow> nat \<Rightarrow> seg list \<Rightarrow> bool" where
  "lfree_ok low l xs \<longleftrightarrow> (\<exists>ys zs. xs = ys @ zs \<and> l = slen ys \<and> (zs \<noteq> [] \<longrightarrow> \<not> snd (hd zs)) \<and> (low \<longrightarrow> (\<forall>y \<in> set ys. snd y)))"

definition heap_inv :: "bool \<Rightarrow> 'a heap_state_scheme \<Rightarrow> seg list \<Rightarrow> bool" where
  "heap_inv low s xs \<longleftrightarrow> chain (blk s) 0 0 xs \<and> joined xs \<and> slen xs = heap_end s \<and> 24 \<le> heap_end s
     \<and> mem_size_aligned s = heap_end s - 12 \<and> hm_used (blk s (heap_end s)) = 1
     \<and> heap_ptr s mod 4 = 0 \<and> heap_ptr s + heap_end s + 12 < 2 ^ 32
     \<and> used_mem s = used_len xs \<and> lfree_ok low (lfree s) xs"

lemma heap_invD:
  assumes "heap_inv low s xs"
  shows "chain (blk s) 0 0 xs" "joined xs" "slen xs = heap_end s" "24 \<le> heap_end s"
    "mem_size_aligned s = heap_end s - 12" "hm_used (blk s (heap_end s)) = 1"
    "heap_ptr s mod 4 = 0" "heap_ptr s + heap_end s + 12 < 2 ^ 32" "used_mem s = used_len xs"
    "lfree_ok low (lfree s) xs"
  using assms by (simp_all add: heap_inv_def)

subsection \<open>The search for a free segment\<close>

fun first_fit :: "nat \<Rightarrow> nat \<Rightarrow> nat \<Rightarrow> seg list \<Rightarrow> nat option" where
  "first_fit lim sz a [] = None"
| "first_fit lim sz a ((n, u) # xs) =
     (if lim \<le> a then None else if \<not> u \<and> sz + 12 \<le> n then Some a else first_fit lim sz (a + n) xs)"

lemma malloc_search_eq:
  assumes h: "heap_inv low s (ys @ zs)" and sz: "sz \<le> mem_size_aligned s"
  shows "malloc_search (slen ys) sz s = Some (first_fit (mem_size_aligned s - sz) sz (slen ys) zs)"
  using h
proof (induction zs arbitrary: ys)
  case Nil
  note H = heap_invD[OF h]
  have "\<not> slen ys < sub32 (mem_size_aligned s) sz"
    using heap_invD(3,4,5,8)[OF Nil] sz by (simp add: sub32_small)
  then show ?case by (subst malloc_search.simps) simp
next
  case (Cons z zs)
  obtain n u where z: "z = (n, u)" by (cases z)
  note H = heap_invD[OF Cons.prems]
  have m: "hm_next (blk s (slen ys)) = slen ys + n" "hm_used (blk s (slen ys)) = 0 \<longleftrightarrow> \<not> u" "12 \<le> n"
    using chain_member[of "blk s" 0 0 ys n u zs] H(1) by (auto simp: z hdr_ok_def)
  have b: "slen ys + n \<le> heap_end s" "heap_end s < 2 ^ 32" using H(3,8) z by auto
  have e: "sub32 (mem_size_aligned s) sz = mem_size_aligned s - sz" "add32 (slen ys) 12 = slen ys + 12"
    "sub32 (slen ys + n) (slen ys + 12) = n - 12"
    using sz H(5) b m(3) by (simp_all add: sub32_small add32_small)
  have "malloc_search (slen (ys @ [z])) sz s = Some (first_fit (mem_size_aligned s - sz) sz (slen (ys @ [z])) zs)"
    by (rule Cons.IH) (use Cons.prems in simp)
  then show ?case using m e by (subst malloc_search.simps) (auto simp: z Let_def)
qed

lemma first_fit_Some:
  assumes "first_fit lim sz a zs = Some p"
  shows "\<exists>vs n ws. zs = vs @ (n, False) # ws \<and> p = a + slen vs \<and> sz + 12 \<le> n \<and> p < lim
    \<and> (\<forall>(m, u) \<in> set vs. u \<or> m < sz + 12)"
  using assms
proof (induction lim sz a zs rule: first_fit.induct)
  case (2 lim sz a n u xs)
  show ?case
  proof (cases "\<not> u \<and> sz + 12 \<le> n")
    case True
    then show ?thesis using 2(2) by (intro exI[of _ "[]"]) (auto split: if_splits)
  next
    case False
    then obtain vs m ws where "xs = vs @ (m, False) # ws \<and> p = a + n + slen vs \<and> sz + 12 \<le> m \<and> p < lim
        \<and> (\<forall>(m, u) \<in> set vs. u \<or> m < sz + 12)"
      using 2 by (auto split: if_splits)
    then show ?thesis using False by (intro exI[of _ "(n, u) # vs"] exI[of _ m] exI[of _ ws]) auto
  qed
qed simp

lemma first_fit_None:
  assumes "first_fit lim sz a (vs @ (n, False) # ws) = None"
  shows "n < sz + 12 \<or> lim \<le> a + slen vs"
  using assms
proof (induction vs arbitrary: a)
  case (Cons v vs)
  obtain m u where v: "v = (m, u)" by (cases v)
  show ?case using Cons.prems Cons.IH[of "a + m"] by (auto simp: v add.assoc split: if_splits)
qed (auto split: if_splits)

lemma next_free_eq:
  assumes "chain (blk s) 0 0 (ys @ zs)" "slen (ys @ zs) = heap_end s"
  shows "next_free (slen ys) s = Some (slen ys + slen (takeWhile snd zs))"
  using assms
proof (induction zs arbitrary: ys)
  case Nil
  then show ?case by (subst next_free.simps) simp
next
  case (Cons z zs)
  obtain n u where z: "z = (n, u)" by (cases z)
  have m: "hm_next (blk s (slen ys)) = slen ys + n" "hm_used (blk s (slen ys)) = 0 \<longleftrightarrow> \<not> u" "slen ys \<noteq> heap_end s"
    using chain_member[of "blk s" 0 0 ys n u zs] Cons.prems by (auto simp: z hdr_ok_def)
  have "next_free (slen (ys @ [z])) s = Some (slen (ys @ [z]) + slen (takeWhile snd zs))"
    by (rule Cons.IH) (use Cons.prems in simp_all)
  then show ?case using m by (subst next_free.simps) (simp add: z add.assoc)
qed

lemma chain_slen_0: "chain B pr a xs \<Longrightarrow> slen xs = 0 \<longleftrightarrow> xs = []"
  by (cases xs) auto

subsection \<open>Taking a segment\<close>

text \<open>The segment that is taken, and what is left of it when it is large enough to be split.\<close>

definition cut :: "nat \<Rightarrow> nat \<Rightarrow> seg list" where
  "cut sz n = (if sz + 36 \<le> n then [(sz + 12, True), (n - (sz + 12), False)] else [(n, True)])"

lemma cut_simps [simp]:
  "slen (cut sz n) = n" "sz + 12 \<le> n \<Longrightarrow> used_len (cut sz n) = (if sz + 36 \<le> n then sz + 12 else n)"
  "cut sz n \<noteq> []" "snd (hd (cut sz n))" "snd (last (cut sz n)) \<or> sz + 36 \<le> n"
  "joined (cut sz n)"
  by (auto simp: cut_def)

lemma malloc_take_split:
  assumes h: "heap_inv low s (ys @ (n, False) # zs)" and sz: "sz + 36 \<le> n" "4 dvd sz"
  defines "s' \<equiv> malloc_take (slen ys) sz s"
  shows "chain (blk s') 0 0 (ys @ (sz + 12, True) # (n - (sz + 12), False) # zs)"
    "hm_used (blk s' (heap_end s)) = 1" "used_mem s' = used_mem s + (sz + 12)" "lfree s' = lfree s"
    "heap_end s' = heap_end s" "heap_ptr s' = heap_ptr s" "mem_size_aligned s' = mem_size_aligned s"
    "rt_interrupt_nest s' = rt_interrupt_nest s"
proof -
  note H = heap_invD[OF h]
  let ?p = "slen ys" and ?q = "slen ys + 12 + sz" and ?x = "slen ys + n"
  have c: "chain (blk s) 0 0 ys" "hdr_ok (blk s ?p) (last_at 0 0 ys) ?x False" "12 \<le> n" "4 dvd n" "chain (blk s) ?p ?x zs"
    using H(1) by (auto simp: seg_chain_append)
  have b: "?x + slen zs = heap_end s" "heap_end s < 2 ^ 32" using H(3,8) by auto
  have nx: "hm_next (blk s ?p) = ?x" using c(2) by (simp add: hdr_ok_def)
  have e: "sub32 ?x (add32 ?p 12) = n - 12" "add32 (add32 sz 12) 12 = sz + 24" "add32 (add32 ?p 12) sz = ?q"
    "add32 sz 12 = sz + 12" "add32 (mem_size_aligned s) 12 = heap_end s"
    using b c(3) sz H(4,5) by (simp_all add: sub32_small add32_small)
  define s1 where "s1 = upd_blk ?p (\<lambda>b. b\<lparr>hm_next := ?q, hm_used := 1\<rparr>)
    (upd_blk ?q (\<lambda>b. b\<lparr>hm_used := 0, hm_next := ?x, hm_prev := ?p\<rparr>) s)"
  define s2 where "s2 = (if ?x \<noteq> heap_end s then upd_blk ?x (\<lambda>b. b\<lparr>hm_prev := ?q\<rparr>) s1 else s1)"
  have s': "s' = upd_blk ?p (\<lambda>b. b\<lparr>hm_magic := HEAP_MAGIC\<rparr>) (count_used (sz + 12) s2)"
    using sz b(1) e nx by (simp add: s'_def malloc_take_def Let_def s1_def s2_def upd_blk_def)
  show "lfree s' = lfree s" "heap_end s' = heap_end s" "heap_ptr s' = heap_ptr s" "mem_size_aligned s' = mem_size_aligned s"
    "rt_interrupt_nest s' = rt_interrupt_nest s"
    by (simp_all add: s' s1_def s2_def upd_blk_def count_used_def Let_def)
  have "used_mem s + (sz + 12) < 2 ^ 32"
    using used_len_le[of "ys @ zs"] b sz by (simp add: H(9))
  then show "used_mem s' = used_mem s + (sz + 12)"
    by (simp add: s' s1_def s2_def upd_blk_def count_used_def Let_def add32_small)
  have B: "blk s' = (blk s1)(?x := (if ?x \<noteq> heap_end s then (blk s1 ?x)\<lparr>hm_prev := ?q\<rparr> else blk s1 ?x),
      ?p := (blk s1 ?p)\<lparr>hm_magic := HEAP_MAGIC\<rparr>)"
    using sz by (simp add: s' s2_def upd_blk_def count_used_def Let_def fun_eq_iff)
  show "hm_used (blk s' (heap_end s)) = 1"
    using H(6) sz b(1) by (auto simp: B s1_def upd_blk_def)
  have tail: "chain (blk s') ?q ?x zs"
  proof (cases "zs = []")
    case False
    then have "slen zs \<noteq> 0" using c(5) by (cases zs) auto
    then have "?x \<noteq> heap_end s" using b(1) by simp
    then have "chain (blk s') ?q ?x zs = chain ((blk s)(?x := (blk s ?x)\<lparr>hm_prev := ?q\<rparr>)) ?q ?x zs"
      using sz by (intro chain_cong) (auto simp: B s1_def upd_blk_def)
    then show ?thesis using chain_prev[OF c(5)] by simp
  qed simp
  have front: "chain (blk s') 0 0 ys = chain (blk s) 0 0 ys"
    using sz by (intro chain_cong) (auto simp: B s1_def upd_blk_def)
  have "4 dvd n - (sz + 12)" using c(4) sz by (intro dvd_diff_nat dvd_add) auto
  then show "chain (blk s') 0 0 (ys @ (sz + 12, True) # (n - (sz + 12), False) # zs)"
    using c sz tail front by (simp add: seg_chain_append hdr_ok_def B s1_def upd_blk_def add.assoc add.commute[of 12])
qed

lemma malloc_take_whole:
  assumes h: "heap_inv low s (ys @ (n, False) # zs)" and sz: "sz + 12 \<le> n" "\<not> sz + 36 \<le> n"
  defines "s' \<equiv> malloc_take (slen ys) sz s"
  shows "chain (blk s') 0 0 (ys @ (n, True) # zs)"
    "hm_used (blk s' (heap_end s)) = 1" "used_mem s' = used_mem s + n" "lfree s' = lfree s"
    "heap_end s' = heap_end s" "heap_ptr s' = heap_ptr s" "mem_size_aligned s' = mem_size_aligned s"
    "rt_interrupt_nest s' = rt_interrupt_nest s"
proof -
  note H = heap_invD[OF h]
  let ?p = "slen ys" and ?x = "slen ys + n"
  have c: "chain (blk s) 0 0 ys" "hdr_ok (blk s ?p) (last_at 0 0 ys) ?x False" "12 \<le> n" "4 dvd n" "chain (blk s) ?p ?x zs"
    using H(1) by (auto simp: seg_chain_append)
  have b: "?x + slen zs = heap_end s" "heap_end s + 12 < 2 ^ 32" using H(3,8) by auto
  have e: "sub32 ?x (add32 ?p 12) = n - 12" "add32 (add32 sz 12) 12 = sz + 24" "sub32 ?x ?p = n" "hm_next (blk s ?p) = ?x"
    using b c(2,3) sz by (simp_all add: sub32_small add32_small hdr_ok_def)
  have s': "s' = upd_blk ?p (\<lambda>b. b\<lparr>hm_magic := HEAP_MAGIC\<rparr>) (count_used n (upd_blk ?p (\<lambda>b. b\<lparr>hm_used := 1\<rparr>) s))"
    using sz c(3) e by (simp add: s'_def malloc_take_def Let_def)
  have "used_mem s + n < 2 ^ 32" using used_len_le[of "ys @ zs"] b by (simp add: H(9))
  then show "used_mem s' = used_mem s + n" by (simp add: s' upd_blk_def count_used_def Let_def add32_small)
  show "lfree s' = lfree s" "heap_end s' = heap_end s" "heap_ptr s' = heap_ptr s" "mem_size_aligned s' = mem_size_aligned s"
    "rt_interrupt_nest s' = rt_interrupt_nest s"
    by (simp_all add: s' upd_blk_def count_used_def Let_def)
  have B: "blk s' = (blk s)(?p := (blk s ?p)\<lparr>hm_used := 1, hm_magic := HEAP_MAGIC\<rparr>)"
    by (simp add: s' upd_blk_def count_used_def Let_def)
  show "hm_used (blk s' (heap_end s)) = 1" using H(6) by (simp add: B)
  show "chain (blk s') 0 0 (ys @ (n, True) # zs)" using c by (simp add: seg_chain_append B hdr_ok_def)
qed

lemma dvd4_gap: "4 dvd n \<Longrightarrow> 4 dvd sz \<Longrightarrow> sz + 12 \<le> n \<Longrightarrow> 4 dvd n - (sz + 12)" for n :: nat
  by (intro dvd_diff_nat dvd_add) auto

lemma malloc_take_ok:
  assumes h: "heap_inv low s (ys @ (n, False) # zs)" and sz: "sz + 12 \<le> n" "4 dvd sz"
  defines "s' \<equiv> malloc_take (slen ys) sz s"
  shows "chain (blk s') 0 0 (ys @ cut sz n @ zs)" "joined (ys @ cut sz n @ zs)" "hm_used (blk s' (heap_end s)) = 1"
    "used_mem s' = used_len (ys @ cut sz n @ zs)" "lfree s' = lfree s"
    "heap_end s' = heap_end s" "heap_ptr s' = heap_ptr s" "mem_size_aligned s' = mem_size_aligned s"
    "rt_interrupt_nest s' = rt_interrupt_nest s"
proof -
  note H = heap_invD[OF h]
  note S = malloc_take_split[OF h _ sz(2), folded s'_def]
  note W = malloc_take_whole[OF h sz(1), folded s'_def]
  show "chain (blk s') 0 0 (ys @ cut sz n @ zs)" "hm_used (blk s' (heap_end s)) = 1" "lfree s' = lfree s"
    "heap_end s' = heap_end s" "heap_ptr s' = heap_ptr s" "mem_size_aligned s' = mem_size_aligned s"
    "rt_interrupt_nest s' = rt_interrupt_nest s"
    by (cases "sz + 36 \<le> n"; use S W in \<open>simp add: cut_def\<close>)+
  show "used_mem s' = used_len (ys @ cut sz n @ zs)"
    using S(3) W(3) sz(1) by (cases "sz + 36 \<le> n") (simp_all add: H(9))
  show "joined (ys @ cut sz n @ zs)" using H(2) by (auto simp: joined_append joined_Cons cut_def)
qed

lemma lfree_ok_scan:
  assumes "low \<longrightarrow> (\<forall>y \<in> set us. snd y)"
  shows "lfree_ok low (slen us + slen (takeWhile snd xs)) (us @ xs)"
proof -
  have "us @ xs = (us @ takeWhile snd xs) @ dropWhile snd xs" by simp
  moreover have "dropWhile snd xs \<noteq> [] \<longrightarrow> \<not> snd (hd (dropWhile snd xs))" using hd_dropWhile by blast
  moreover have "low \<longrightarrow> (\<forall>y \<in> set (us @ takeWhile snd xs). snd y)" using assms set_takeWhileD by fastforce
  ultimately show ?thesis unfolding lfree_ok_def by (metis slen_simps(3))
qed

text \<open>The search for the next free segment after the one at the hint was taken.\<close>

lemma advance_lfree_ok:
  assumes c: "chain (blk s) 0 0 (us @ ws @ cut m n @ zs)" "slen (us @ ws @ cut m n @ zs) = heap_end s"
    and l: "lfree s = slen us" "ws \<noteq> [] \<longrightarrow> \<not> snd (hd ws)" "low \<longrightarrow> (\<forall>y \<in> set us. snd y)"
  shows "\<exists>l'. advance_lfree (slen (us @ ws)) s = Some (s\<lparr>lfree := l'\<rparr>) \<and> lfree_ok low l' (us @ ws @ cut m n @ zs)"
proof (cases "ws = []")
  case True
  let ?xs = "cut m n @ zs"
  let ?l = "slen us + slen (takeWhile snd ?xs)"
  have nf: "next_free (slen us) s = Some ?l" using c True by (intro next_free_eq) simp_all
  have "lfree_ok low ?l (us @ ?xs)" using l(3) by (rule lfree_ok_scan)
  moreover have "?l = heap_end s \<or> hm_used (blk s ?l) = 0"
  proof (cases "dropWhile snd ?xs")
    case Nil
    then have "takeWhile snd ?xs = ?xs" by (metis append_Nil2 takeWhile_dropWhile_id)
    then have "?l = slen (us @ ?xs)" by (simp only: slen_simps(3))
    also have "\<dots> = heap_end s" using c(2) True by simp
    finally show ?thesis ..
  next
    case (Cons y ys)
    have ny: "\<not> snd y" using hd_dropWhile[of snd ?xs] Cons by simp
    have "us @ ?xs = (us @ takeWhile snd ?xs) @ y # ys" using Cons by (metis append.assoc takeWhile_dropWhile_id)
    then have "hdr_ok (blk s (slen (us @ takeWhile snd ?xs))) (last_at 0 0 (us @ takeWhile snd ?xs))
        (slen (us @ takeWhile snd ?xs) + fst y) (snd y)"
      using c(1) True chain_member[of "blk s" 0 0 "us @ takeWhile snd ?xs" "fst y" "snd y" ys] by simp
    then show ?thesis using ny by (simp add: hdr_ok_def)
  qed
  ultimately show ?thesis using True l(1) nf by (auto simp: advance_lfree_def RT_ASSERT_def)
next
  case False
  have "slen ws \<noteq> 0" using c(1) False chain_slen_0[of "blk s" "last_at 0 0 us" "slen us" ws] by (auto simp: seg_chain_append)
  then have "advance_lfree (slen (us @ ws)) s = Some (s\<lparr>lfree := lfree s\<rparr>)" by (simp add: advance_lfree_def l(1))
  moreover have "lfree_ok low (lfree s) (us @ ws @ cut m n @ zs)"
    unfolding lfree_ok_def using l False by (intro exI[of _ us] exI[of _ "ws @ cut m n @ zs"]) auto
  ultimately show ?thesis by blast
qed

text \<open>What \<^verbatim>\<open>rt_malloc\<close> returns: the segment that was found, or nothing.\<close>

lemma align_up_dvd: "4 dvd align_up n"
  using and_not_3[of "of_nat n + 3"] by (simp add: align_up_def RT_ALIGN_def algebra_simps)

lemma rt_malloc_takes:
  assumes h: "heap_inv low s xs" and nest: "rt_interrupt_nest s = 0"
    and sz: "sz \<noteq> 0" "align_up sz \<le> mem_size_aligned s" and m: "m = max 12 (align_up sz)"
    and l: "xs = us @ vs" "lfree s = slen us" "vs \<noteq> [] \<longrightarrow> \<not> snd (hd vs)" "low \<longrightarrow> (\<forall>y \<in> set us. snd y)"
    and f: "first_fit (mem_size_aligned s - m) m (slen us) vs = Some p"
  shows "\<exists>ys n zs s'. xs = ys @ (n, False) # zs \<and> m + 12 \<le> n
    \<and> rt_malloc sz s = Some (Some (heap_ptr s + slen ys + 12), s')
    \<and> heap_inv low s' (ys @ cut m n @ zs) \<and> heap_ptr s' = heap_ptr s \<and> heap_end s' = heap_end s
    \<and> rt_interrupt_nest s' = 0"
proof -
  note H = heap_invD[OF h]
  have m4: "4 dvd m" "m \<le> mem_size_aligned s" using align_up_dvd[of sz] sz(2) H(4,5) by (auto simp: m max_def)
  obtain ws n zs where w: "vs = ws @ (n, False) # zs" "p = slen us + slen ws" "m + 12 \<le> n"
    using first_fit_Some[OF f] by blast
  let ?ys = "us @ ws" and ?xs = "(us @ ws) @ cut m n @ zs"
  have h': "heap_inv low s (?ys @ (n, False) # zs)" using h l(1) w(1) by simp
  note T = malloc_take_ok[OF h' w(3) m4(1)]
  define s1 where "s1 = malloc_take (slen ?ys) m s"
  have c1: "chain (blk s1) 0 0 (us @ ws @ cut m n @ zs)" "slen (us @ ws @ cut m n @ zs) = heap_end s1"
    using T(1,6) H(3) l(1) w(1) by (simp_all add: s1_def)
  obtain l' where l': "advance_lfree (slen ?ys) s1 = Some (s1\<lparr>lfree := l'\<rparr>)" "lfree_ok low l' (us @ ws @ cut m n @ zs)"
    using advance_lfree_ok[OF c1, of low] T(5) l w(1) by (auto simp: s1_def hd_append split: if_splits)
  define s' where "s' = s1\<lparr>lfree := l'\<rparr>"
  have inv: "heap_inv low s' ?xs"
    unfolding heap_inv_def using T H l'(2) c1(2) by (simp add: s'_def s1_def)
  have b: "slen ?ys + n \<le> heap_end s" using H(3) l(1) w(1) by simp
  have "4 dvd slen ?ys" using H(1) l(1) w(1) chain_dvd[of "blk s" 0 0 ?ys] by (simp add: seg_chain_append)
  then have al: "(heap_ptr s + slen ?ys) mod 4 = 0" using H(7) by (simp add: mod_eq_0_iff_dvd)
  then have al2: "(heap_ptr s + slen ?ys + 12) mod 4 = 0" by presburger
  have "add32 (add32 (heap_ptr s + slen ?ys) 12) m \<le> heap_ptr s + heap_end s"
    using b w(3) H(8) by (simp add: add32_small)
  moreover have "malloc_search (lfree s) m s = Some (Some (slen ?ys))"
    using malloc_search_eq[of low s us vs m] h l m4(2) f w(2) by simp
  ultimately have "rt_malloc sz s = Some (Some (heap_ptr s + slen ?ys + 12), s')"
    using nest sz al al2 l'(1) T(6,7)
    by (simp add: rt_malloc_def not_in_interrupt_eq Let_def m max_def s1_def s'_def RT_ASSERT_def split: if_splits)
  then show ?thesis using inv w T(6,7,9) l(1) nest
    by (intro exI[of _ ?ys] exI[of _ n] exI[of _ zs] exI[of _ s']) (simp add: s'_def s1_def)
qed

lemma rt_malloc_cases:
  assumes h: "heap_inv low s xs" and nest: "rt_interrupt_nest s = 0"
  obtains (none) "rt_malloc sz s = Some (None, s)"
  | (some) ys n zs s' where "sz \<noteq> 0" "xs = ys @ (n, False) # zs" "max 12 (align_up sz) + 12 \<le> n"
      "rt_malloc sz s = Some (Some (heap_ptr s + slen ys + 12), s')" "heap_inv low s' (ys @ cut (max 12 (align_up sz)) n @ zs)"
      "heap_ptr s' = heap_ptr s" "rt_interrupt_nest s' = 0"
proof (cases "sz = 0 \<or> mem_size_aligned s < align_up sz")
  case True
  then show thesis using nest by (intro none) (auto simp: rt_malloc_def not_in_interrupt_eq Let_def)
next
  case False
  define m where "m = max 12 (align_up sz)"
  note H = heap_invD[OF h]
  obtain us vs where l: "xs = us @ vs" "lfree s = slen us" "vs \<noteq> [] \<longrightarrow> \<not> snd (hd vs)" "low \<longrightarrow> (\<forall>y \<in> set us. snd y)"
    using H(10) unfolding lfree_ok_def by blast
  have sz: "sz \<noteq> 0" "align_up sz \<le> mem_size_aligned s" "m \<le> mem_size_aligned s" using False H(4,5) by (simp_all add: m_def)
  show thesis
  proof (cases "first_fit (mem_size_aligned s - m) m (slen us) vs")
    case None
    then show thesis using malloc_search_eq[of low s us vs m] h nest l sz
      by (intro none) (simp add: rt_malloc_def not_in_interrupt_eq Let_def m_def max_def split: if_splits)
  next
    case (Some p)
    then show thesis using rt_malloc_takes[OF h nest sz(1,2) m_def l Some] some sz(1) unfolding m_def by blast
  qed
qed

lemma segment_after:
  assumes "chain B 0 0 xs" "xs = us @ vs" "xs = ys @ (n, u) # zs" "slen us \<le> slen ys"
  shows "\<exists>ws. ys = us @ ws \<and> vs = ws @ (n, u) # zs"
proof -
  have "us @ vs = ys @ (n, u) # zs" using assms by simp
  then consider ws where "ys = us @ ws" "vs = ws @ (n, u) # zs" | ws where "us = ys @ ws" "ws @ vs = (n, u) # zs"
    by (auto simp: append_eq_append_conv2)
  then show ?thesis
  proof cases
    case 2
    then have "slen ws = 0" using assms(4) by simp
    then have "ws = []" using assms(1,2) 2(1) chain_slen_0 by (fastforce simp: seg_chain_append)
    then show ?thesis using 2 by auto
  qed blast
qed

text \<open>What \<^verbatim>\<open>rt_malloc\<close> returns, and when it finds nothing.\<close>

lemma rt_malloc_outcome:
  assumes "heap_inv low s xs" "rt_interrupt_nest s = 0" "0 < sz" "sz \<le> 2 ^ 32 - 4"
  defines "m \<equiv> max 12 ((sz + 3) div 4 * 4)"
  shows "(\<exists>ys n zs s'. xs = ys @ (n, False) # zs \<and> m + 12 \<le> n
      \<and> rt_malloc sz s = Some (Some (heap_ptr s + slen ys + 12), s') \<and> (heap_ptr s + slen ys + 12) mod 4 = 0
      \<and> heap_inv low s' (ys @ (if m + 36 \<le> n then [(m + 12, True), (n - (m + 12), False)] else [(n, True)]) @ zs)
      \<and> heap_ptr s' = heap_ptr s \<and> rt_interrupt_nest s' = 0)
    \<or> (rt_malloc sz s = Some (None, s)
      \<and> (\<forall>ys n zs. xs = ys @ (n, False) # zs \<and> lfree s \<le> slen ys \<longrightarrow> n < m + 12 \<or> n = m + 12 \<and> zs = []))"
proof -
  note H = heap_invD[OF assms(1)]
  have al: "align_up sz = (sz + 3) div 4 * 4" using assms(4) by (rule align_up_eq)
  obtain us vs where l: "xs = us @ vs" "lfree s = slen us" "vs \<noteq> [] \<longrightarrow> \<not> snd (hd vs)" "low \<longrightarrow> (\<forall>y \<in> set us. snd y)"
    using H(10) unfolding lfree_ok_def by blast
  show ?thesis
  proof (cases "align_up sz \<le> mem_size_aligned s")
    case False
    then have "rt_malloc sz s = Some (None, s)" using assms(2,3) by (simp add: rt_malloc_def not_in_interrupt_eq Let_def)
    moreover have "n \<le> heap_end s" if "xs = ys @ (n, False) # zs" for ys n zs using H(3) that by simp
    then have "n < m + 12" if "xs = ys @ (n, False) # zs" for ys n zs
      using that False H(4,5) al by (fastforce simp: m_def max_def)
    ultimately show ?thesis by blast
  next
    case fits: True
    have m: "m = max 12 (align_up sz)" "m \<le> mem_size_aligned s" using fits al H(4,5) by (simp_all add: m_def)
    show ?thesis
    proof (cases "first_fit (mem_size_aligned s - m) m (slen us) vs")
      case None
      then have r: "rt_malloc sz s = Some (None, s)"
        using malloc_search_eq[of low s us vs m] assms(1-3) l fits m
        by (simp add: rt_malloc_def not_in_interrupt_eq Let_def max_def split: if_splits)
      have "n < m + 12 \<or> n = m + 12 \<and> zs = []" if x: "xs = ys @ (n, False) # zs" "lfree s \<le> slen ys" for ys n zs
      proof -
        obtain ws where ws: "ys = us @ ws" "vs = ws @ (n, False) # zs" using segment_after[OF H(1) l(1) x(1)] x(2) l(2) by auto
        have "n < m + 12 \<or> mem_size_aligned s - m \<le> slen us + slen ws" using first_fit_None[of _ m] None ws(2) by blast
        moreover have e: "slen us + slen ws + n + slen zs = heap_end s" using H(3) x(1) ws(1) by simp
        moreover have "slen zs = 0 \<Longrightarrow> zs = []" using H(1) x(1) chain_slen_0 by (fastforce simp: seg_chain_append)
        ultimately show ?thesis using H(4,5) m(2) by (cases "n < m + 12") auto
      qed
      then show ?thesis using r by blast
    next
      case (Some p)
      have nz: "sz \<noteq> 0" using assms(3) by simp
      obtain ys n zs s' where r: "xs = ys @ (n, False) # zs" "m + 12 \<le> n"
        "rt_malloc sz s = Some (Some (heap_ptr s + slen ys + 12), s')" "heap_inv low s' (ys @ cut m n @ zs)"
        "heap_ptr s' = heap_ptr s" "rt_interrupt_nest s' = 0"
        using rt_malloc_takes[OF assms(1,2) nz fits m(1) l Some] by blast
      have "4 dvd slen ys" using H(1) r(1) chain_dvd[of "blk s" 0 0 ys] by (simp add: seg_chain_append)
      then have "(heap_ptr s + slen ys + 12) mod 4 = 0" using H(7) by (simp add: mod_eq_0_iff_dvd)
      then show ?thesis using r(1-3,5,6) r(4)[unfolded cut_def]
        by (intro disjI1) (rule exI[of _ ys], rule exI[of _ n], rule exI[of _ zs], rule exI[of _ s'], simp)
    qed
  qed
qed

text \<open>C7: \<^verbatim>\<open>rt_malloc\<close> returns, and keeps the heap well formed. Either it hands out the data of a segment
  that was free, aligned and at least as large as was asked for, splitting off what is left, or
  no free segment from the hint on is large enough. A segment that fits exactly and is the last
  of the heap counts as too small.\<close>

theorem rt_malloc_correct:
  assumes "heap_inv low s xs" "rt_interrupt_nest s = 0" "0 < sz" "sz \<le> 2 ^ 32 - 4"
  defines "m \<equiv> max 12 ((sz + 3) div 4 * 4)"
  shows "(\<exists>ys n zs s'. xs = ys @ (n, False) # zs \<and> m + 12 \<le> n
      \<and> rt_malloc sz s = Some (Some (heap_ptr s + slen ys + 12), s') \<and> (heap_ptr s + slen ys + 12) mod 4 = 0
      \<and> heap_inv low s' (ys @ (if m + 36 \<le> n then [(m + 12, True), (n - (m + 12), False)] else [(n, True)]) @ zs)
      \<and> heap_ptr s' = heap_ptr s \<and> rt_interrupt_nest s' = 0)
    \<or> (rt_malloc sz s = Some (None, s)
      \<and> (\<forall>ys n zs. xs = ys @ (n, False) # zs \<and> lfree s \<le> slen ys \<longrightarrow> n < m + 12 \<or> n = m + 12 \<and> zs = []))"
  unfolding m_def by (rule rt_malloc_outcome[OF assms(1-4)])

subsection \<open>Joining free neighbours\<close>

text \<open>What the two halves of \<^verbatim>\<open>plug_holes\<close> do to a segment and its successor.\<close>

definition join_seg :: "nat \<Rightarrow> 'a heap_state_scheme \<Rightarrow> 'a heap_state_scheme" where
  "join_seg a s =
     (let b = hm_next (blk s a);
          s = (if lfree s = b then s\<lparr>lfree := a\<rparr> else s);
          s = upd_blk a (\<lambda>h. h\<lparr>hm_next := hm_next (blk s b)\<rparr>) s
      in upd_blk (hm_next (blk s b)) (\<lambda>h. h\<lparr>hm_prev := a\<rparr>) s)"

text \<open>The invariant without the claim that free neighbours are joined.\<close>

definition heap_row :: "bool \<Rightarrow> 'a heap_state_scheme \<Rightarrow> seg list \<Rightarrow> bool" where
  "heap_row low s xs \<longleftrightarrow> chain (blk s) 0 0 xs \<and> slen xs = heap_end s \<and> 24 \<le> heap_end s
     \<and> mem_size_aligned s = heap_end s - 12 \<and> hm_used (blk s (heap_end s)) = 1
     \<and> heap_ptr s mod 4 = 0 \<and> heap_ptr s + heap_end s + 12 < 2 ^ 32
     \<and> used_mem s = used_len xs \<and> lfree_ok low (lfree s) xs"

lemma heap_row_inv: "heap_inv low s xs \<longleftrightarrow> heap_row low s xs \<and> joined xs"
  by (auto simp: heap_inv_def heap_row_def)

lemma lfree_ok_join:
  assumes "lfree_ok low l (ys @ (n, False) # (k, False) # zs)" "0 < n" "0 < k"
  shows "lfree_ok low (if l = slen ys + n then slen ys else l) (ys @ (n + k, False) # zs)"
proof -
  obtain us vs where u: "us @ vs = ys @ (n, False) # (k, False) # zs" "l = slen us"
    "vs \<noteq> [] \<longrightarrow> \<not> snd (hd vs)" "low \<longrightarrow> (\<forall>y \<in> set us. snd y)"
    using assms(1) unfolding lfree_ok_def by metis
  consider (before) ws where "ys = us @ ws" "vs = ws @ (n, False) # (k, False) # zs"
    | (between) "us = ys @ [(n, False)]" | (after) ws where "us = ys @ (n, False) # (k, False) # ws" "zs = ws @ vs"
    using u(1) by (auto simp: append_eq_append_conv2 Cons_eq_append_conv append_eq_Cons_conv)
  then show ?thesis
  proof cases
    case before
    then show ?thesis unfolding lfree_ok_def using u assms(2,3)
      by (intro exI[of _ us] exI[of _ "ws @ (n + k, False) # zs"]) (auto simp: hd_append)
  next
    case between
    then show ?thesis unfolding lfree_ok_def using u
      by (intro exI[of _ ys] exI[of _ "(n + k, False) # zs"]) auto
  next
    case after
    have "\<not> low" using after u(4) by auto
    then show ?thesis unfolding lfree_ok_def using u(2,3) after assms(3)
      by (intro exI[of _ "ys @ (n + k, False) # ws"] exI[of _ vs]) auto
  qed
qed

lemma join_seg_ok:
  assumes h: "heap_row low s (ys @ (n, False) # (k, False) # zs)"
  shows "heap_row low (join_seg (slen ys) s) (ys @ (n + k, False) # zs)"
    "heap_end (join_seg (slen ys) s) = heap_end s" "heap_ptr (join_seg (slen ys) s) = heap_ptr s"
    "rt_interrupt_nest (join_seg (slen ys) s) = rt_interrupt_nest s"
proof -
  let ?p = "slen ys" and ?q = "slen ys + n" and ?x = "slen ys + n + k" and ?s = "join_seg (slen ys) s"
  have c: "chain (blk s) 0 0 ys" "hdr_ok (blk s ?p) (last_at 0 0 ys) ?q False" "12 \<le> n" "4 dvd n"
    "hdr_ok (blk s ?q) ?p ?x False" "12 \<le> k" "4 dvd k" "chain (blk s) ?q ?x zs" "?x + slen zs = heap_end s"
    using h by (auto simp: heap_row_def seg_chain_append)
  have nx: "hm_next (blk s ?p) = ?q" "hm_next (blk s ?q) = ?x" using c(2,5) by (simp_all add: hdr_ok_def)
  have B: "blk ?s = (blk s)(?p := (blk s ?p)\<lparr>hm_next := ?x\<rparr>, ?x := (blk s ?x)\<lparr>hm_prev := ?p\<rparr>)"
    using c(3,6) by (simp add: join_seg_def Let_def nx upd_blk_def fun_eq_iff)
  show e: "heap_end ?s = heap_end s" "heap_ptr ?s = heap_ptr s" "rt_interrupt_nest ?s = rt_interrupt_nest s"
    by (simp_all add: join_seg_def Let_def upd_blk_def)
  have f: "mem_size_aligned ?s = mem_size_aligned s" "used_mem ?s = used_mem s" "lfree ?s = (if lfree s = ?q then ?p else lfree s)"
    by (simp_all add: join_seg_def Let_def upd_blk_def nx)
  have "chain (blk ?s) ?p ?x zs = chain ((blk s)(?x := (blk s ?x)\<lparr>hm_prev := ?p\<rparr>)) ?p ?x zs"
    using c(3) by (intro chain_cong) (auto simp: B)
  then have tail: "chain (blk ?s) ?p ?x zs" using chain_prev[OF c(8)] by simp
  have "chain (blk ?s) 0 0 ys = chain (blk s) 0 0 ys" by (rule chain_cong) (auto simp: B)
  then have "chain (blk ?s) 0 0 (ys @ (n + k, False) # zs)"
    using c tail by (simp add: seg_chain_append hdr_ok_def B add.assoc)
  moreover have "lfree_ok low (lfree ?s) (ys @ (n + k, False) # zs)"
    unfolding f(3) using h c(3,6) by (intro lfree_ok_join) (auto simp: heap_row_def)
  moreover have "hm_used (blk ?s (heap_end s)) = 1" using h c(3) by (auto simp: heap_row_def B)
  ultimately show "heap_row low ?s (ys @ (n + k, False) # zs)"
    using h c(9) unfolding heap_row_def e f by simp
qed

definition join_right :: "nat \<Rightarrow> seg list \<Rightarrow> seg list" where
  "join_right n zs = (if zs \<noteq> [] \<and> \<not> snd (hd zs) then (n + fst (hd zs), False) # tl zs else (n, False) # zs)"

definition join_both :: "seg list \<Rightarrow> nat \<Rightarrow> seg list \<Rightarrow> seg list" where
  "join_both ys n zs =
     (let r = join_right n zs in
      if ys \<noteq> [] \<and> \<not> snd (last ys) then butlast ys @ (fst (last ys) + fst (hd r), False) # tl r else ys @ r)"

lemma plug_forward_ok:
  assumes h: "heap_row low s (ys @ (n, False) # zs)"
  shows "heap_row low (plug_forward (slen ys) s) (ys @ join_right n zs)
    \<and> heap_end (plug_forward (slen ys) s) = heap_end s \<and> heap_ptr (plug_forward (slen ys) s) = heap_ptr s
    \<and> rt_interrupt_nest (plug_forward (slen ys) s) = rt_interrupt_nest s"
proof -
  have nx: "hm_next (blk s (slen ys)) = slen ys + n" "12 \<le> n" using h by (auto simp: heap_row_def seg_chain_append hdr_ok_def)
  show ?thesis
  proof (cases "zs \<noteq> [] \<and> \<not> snd (hd zs)")
    case True
    then obtain k r where z: "zs = (k, False) # r" by (cases zs) auto
    have "hm_used (blk s (slen ys + n)) = 0" "slen ys + n \<noteq> heap_end s"
      using h z by (auto simp: heap_row_def seg_chain_append hdr_ok_def)
    then have "plug_forward (slen ys) s = join_seg (slen ys) s"
      using nx by (simp add: plug_forward_def join_seg_def Let_def)
    then show ?thesis using join_seg_ok[of low s ys n k r] h z by (simp add: join_right_def)
  next
    case False
    have "hm_used (blk s (slen ys + n)) \<noteq> 0 \<or> slen ys + n = heap_end s"
    proof (cases zs)
      case Nil
      then show ?thesis using h by (simp add: heap_row_def)
    next
      case (Cons z r)
      obtain k u where z: "z = (k, u)" by (cases z)
      then show ?thesis using h False Cons by (auto simp: heap_row_def seg_chain_append hdr_ok_def)
    qed
    then have "plug_forward (slen ys) s = s" using nx by (auto simp: plug_forward_def Let_def)
    then show ?thesis using h False by (auto simp: join_right_def)
  qed
qed

lemma plug_backward_ok:
  assumes h: "heap_row low s (ys @ (n, False) # zs)"
  shows "heap_row low (plug_backward (slen ys) s)
      (if ys \<noteq> [] \<and> \<not> snd (last ys) then butlast ys @ (fst (last ys) + n, False) # zs else ys @ (n, False) # zs)
    \<and> heap_end (plug_backward (slen ys) s) = heap_end s \<and> heap_ptr (plug_backward (slen ys) s) = heap_ptr s
    \<and> rt_interrupt_nest (plug_backward (slen ys) s) = rt_interrupt_nest s"
proof (cases ys rule: rev_cases)
  case Nil
  then have "hm_prev (blk s 0) = 0" using h by (simp add: heap_row_def hdr_ok_def)
  then show ?thesis using Nil h by (simp add: plug_backward_def Let_def)
next
  case (snoc ws w)
  obtain j u where w: "w = (j, u)" by (cases w)
  have p: "hm_prev (blk s (slen ys)) = slen ws" "slen ys = slen ws + j" "12 \<le> j"
    "hm_used (blk s (slen ws)) = 0 \<longleftrightarrow> \<not> u" "hm_next (blk s (slen ws)) = slen ys"
    using h snoc w by (auto simp: heap_row_def seg_chain_append hdr_ok_def)
  show ?thesis
  proof (cases u)
    case True
    then have "plug_backward (slen ys) s = s" using p by (simp add: plug_backward_def Let_def)
    then show ?thesis using h snoc w True by simp
  next
    case False
    then have "plug_backward (slen ys) s = join_seg (slen ws) s"
      using p by (simp add: plug_backward_def join_seg_def Let_def)
    then show ?thesis using join_seg_ok[of low s ws j n zs] h snoc w False by simp
  qed
qed

subsection \<open>Freeing\<close>

lemma lfree_ok_mark:
  assumes "lfree_ok low l (ys @ (n, True) # zs)" "\<forall>x \<in> set (ys @ (n, True) # zs). 0 < fst x"
  shows "lfree_ok low (if slen ys < l then slen ys else l) (ys @ (n, False) # zs)"
proof -
  obtain us vs where u: "us @ vs = ys @ (n, True) # zs" "l = slen us"
    "vs \<noteq> [] \<longrightarrow> \<not> snd (hd vs)" "low \<longrightarrow> (\<forall>y \<in> set us. snd y)"
    using assms(1) unfolding lfree_ok_def by metis
  consider (before) ws where "ys = us @ ws" "vs = ws @ (n, True) # zs" | (after) ws where "us = ys @ (n, True) # ws"
    using u(1) by (auto simp: append_eq_append_conv2 Cons_eq_append_conv append_eq_Cons_conv)
  then show ?thesis
  proof cases
    case before
    then show ?thesis unfolding lfree_ok_def using u
      by (intro exI[of _ us] exI[of _ "ws @ (n, False) # zs"]) (auto simp: hd_append)
  next
    case after
    then show ?thesis unfolding lfree_ok_def using u assms(2)
      by (intro exI[of _ ys] exI[of _ "(n, False) # zs"]) auto
  qed
qed

lemma chain_pos: "chain B pr a xs \<Longrightarrow> \<forall>x \<in> set xs. 0 < fst x"
  by (induction B pr a xs rule: chain.induct) auto

lemma mark_free_ok:
  assumes h: "heap_inv low s (ys @ (n, True) # zs)"
  defines "s1 \<equiv> upd_blk (slen ys) (\<lambda>b. b\<lparr>hm_used := 0, hm_magic := 0\<rparr>) s"
  defines "s' \<equiv> s1\<lparr>lfree := (if slen ys < lfree s then slen ys else lfree s), used_mem := used_mem s - n\<rparr>"
  shows "heap_row low s' (ys @ (n, False) # zs)"
proof -
  note H = heap_invD[OF h]
  have B: "blk s' = (blk s)(slen ys := (blk s (slen ys))\<lparr>hm_used := 0, hm_magic := 0\<rparr>)"
    by (simp add: s'_def s1_def upd_blk_def)
  have f: "heap_end s' = heap_end s" "mem_size_aligned s' = mem_size_aligned s" "heap_ptr s' = heap_ptr s"
    "used_mem s' = used_mem s - n" "lfree s' = (if slen ys < lfree s then slen ys else lfree s)"
    by (simp_all add: s'_def s1_def upd_blk_def)
  have "12 \<le> n" using H(1) by (simp add: seg_chain_append)
  then have "chain (blk s') 0 0 (ys @ (n, False) # zs)"
    using H(1) by (simp add: seg_chain_append B hdr_ok_def)
  moreover have "hm_used (blk s' (heap_end s)) = 1" using H(3,6) \<open>12 \<le> n\<close> by (auto simp: B)
  moreover have "lfree_ok low (lfree s') (ys @ (n, False) # zs)"
    unfolding f using lfree_ok_mark[OF H(10) chain_pos[OF H(1)]] .
  ultimately show ?thesis using H unfolding heap_row_def f by simp
qed

lemma joined_both:
  assumes "joined (ys @ (n, True) # zs)"
  shows "joined (join_both ys n zs)"
proof -
  have z: "joined (join_right n zs)" "\<not> snd (hd (join_right n zs))" "join_right n zs \<noteq> []"
    using assms by (cases zs; auto simp: join_right_def joined_append joined_Cons)+
  show ?thesis
  proof (cases ys rule: rev_cases)
    case (snoc ws w)
    then show ?thesis using assms z by (cases "join_right n zs") (auto simp: join_both_def Let_def joined_append joined_Cons)
  qed (use z in \<open>simp add: join_both_def\<close>)
qed

lemma rt_free_joins:
  assumes h: "heap_inv low s (ys @ (n, True) # zs)" and nest: "rt_interrupt_nest s = 0" and d: "12 < n \<or> zs \<noteq> []"
  shows "\<exists>s'. rt_free (Some (heap_ptr s + slen ys + 12)) s = Some s' \<and> heap_inv low s' (join_both ys n zs)
    \<and> heap_ptr s' = heap_ptr s \<and> used_mem s' = used_mem s - n"
proof -
  note H = heap_invD[OF h]
  let ?p = "slen ys" and ?a = "heap_ptr s + slen ys + 12"
  define s1 where "s1 = (upd_blk ?p (\<lambda>b. b\<lparr>hm_used := 0, hm_magic := 0\<rparr>) s)
    \<lparr>lfree := (if ?p < lfree s then ?p else lfree s), used_mem := used_mem s - n\<rparr>"
  have c: "hdr_ok (blk s ?p) (last_at 0 0 ys) (?p + n) True" "12 \<le> n" "4 dvd ?p" "?p + n + slen zs = heap_end s"
    using H(1,3) chain_dvd[of "blk s" 0 0 ys] by (auto simp: seg_chain_append)
  have u: "n \<le> used_mem s" "used_mem s < 2 ^ 32" using used_len_le[of "ys @ (n, True) # zs"] H(3,8) by (simp_all add: H(9))
  have r1: "heap_row low s1 (ys @ (n, False) # zs)" unfolding s1_def by (rule mark_free_ok[OF h])
  define s2 where "s2 = plug_forward ?p s1"
  note F = plug_forward_ok[OF r1, folded s2_def]
  obtain k r where j: "join_right n zs = (k, False) # r"
    by (cases "zs \<noteq> [] \<and> \<not> snd (hd zs)") (auto simp: join_right_def)
  define s' where "s' = plug_backward ?p s2"
  have r2: "heap_row low s2 (ys @ (k, False) # r)" using F j by simp
  note G = plug_backward_ok[OF r2, folded s'_def]
  have row: "heap_row low s' (join_both ys n zs)" using G j by (auto simp: join_both_def Let_def split: if_splits)
  then have inv: "heap_inv low s' (join_both ys n zs)" using joined_both[OF H(2)] by (simp add: heap_row_inv)
  have "used_len (join_both ys n zs) = used_mem s - n"
  proof -
    have "used_len (join_right n zs) = used_len zs" by (cases zs) (auto simp: join_right_def)
    then show ?thesis unfolding H(9) using j
      by (cases ys rule: rev_cases) (auto simp: join_both_def Let_def)
  qed
  then have um: "used_mem s' = used_mem s - n" using inv by (simp add: heap_inv_def)
  have e: "sub32 (?p + n) ?p = n" "sub32 (used_mem s) n = used_mem s - n"
    using c H(8) u by (simp_all add: sub32_small)
  have al: "?a mod 4 = 0" using c(3) H(7) by (simp add: mod_eq_0_iff_dvd)
  have hs: "heap_ptr s' = heap_ptr s" using G F by (simp add: s1_def upd_blk_def)
  have "zs \<noteq> [] \<Longrightarrow> 0 < slen zs" using chain_pos[OF H(1)] by (cases zs) auto
  then have "?p + 12 < heap_end s" using d c(2,4) by auto
  moreover have "plug_holes ?p s1 = Some s'"
    using c by (simp add: plug_holes_def s'_def s2_def RT_ASSERT_def s1_def upd_blk_def)
  ultimately have "rt_free (Some ?a) s = Some s'"
    using nest al c H(8) e
    by (simp add: rt_free_def not_in_interrupt_eq Let_def RT_ASSERT_def hdr_ok_def s1_def upd_blk_def split: if_splits)
  then show ?thesis using inv hs um by blast
qed

lemma mdata_upd_heap [simp]: "heap_inv low (s\<lparr>mdata := x\<rparr>) xs = heap_inv low s xs"
  by (simp add: heap_inv_def)

text \<open>What \<^verbatim>\<open>rt_malloc\<close> hands out, and that freeing it undoes the allocation, whatever was written into memory
  in between.\<close>

lemma malloc_block:
  assumes "heap_inv low s xs" "rt_interrupt_nest s = 0" "rt_malloc sz s = Some (Some a, s1)"
  shows "\<exists>ys k zs. a = heap_ptr s + slen ys + 12 \<and> heap_inv low s1 (ys @ (k, True) # zs) \<and> heap_ptr s1 = heap_ptr s
    \<and> max 12 (align_up sz) + 12 \<le> k \<and> a mod 4 = 0 \<and> a + k < 2 ^ 32
    \<and> (\<forall>m. \<exists>s2. rt_free (Some a) (s1\<lparr>mdata := m\<rparr>) = Some s2 \<and> heap_inv low s2 xs \<and> used_mem s2 = used_mem s)"
proof -
  note H = heap_invD[OF assms(1)]
  define m where "m = max 12 (align_up sz)"
  obtain ys n zs s' where r: "xs = ys @ (n, False) # zs" "m + 12 \<le> n"
    "rt_malloc sz s = Some (Some (heap_ptr s + slen ys + 12), s')" "heap_inv low s' (ys @ cut m n @ zs)"
    "heap_ptr s' = heap_ptr s" "rt_interrupt_nest s' = 0"
    using assms(3) by (cases rule: rt_malloc_cases[OF assms(1,2), of sz]) (auto simp: m_def)
  have s1: "s1 = s'" "a = heap_ptr s1 + slen ys + 12" using assms(3) r(3,5) by simp_all
  obtain k ws where k: "cut m n = (k, True) # ws" by (cases "m + 36 \<le> n") (auto simp: cut_def)
  have k12: "12 < k" "m + 12 \<le> k" "k \<le> n" using k r(2) by (auto simp: cut_def m_def split: if_splits)
  have dv: "4 dvd slen ys" using H(1) r(1) chain_dvd[of "blk s" 0 0 ys] by (simp add: seg_chain_append)
  have join: "join_both ys k (ws @ zs) = xs"
  proof -
    have ys: "ys \<noteq> [] \<Longrightarrow> snd (last ys)" and zs: "zs \<noteq> [] \<Longrightarrow> snd (hd zs)"
      using H(2) r(1) by (auto simp: joined_append joined_Cons)
    have "join_right k (ws @ zs) = (n, False) # zs"
      using k r(2) zs by (auto simp: cut_def join_right_def split: if_splits)
    then show ?thesis using ys r(1) by (auto simp: join_both_def Let_def)
  qed
  have "\<exists>s2. rt_free (Some a) (s1\<lparr>mdata := x\<rparr>) = Some s2 \<and> heap_inv low s2 xs \<and> used_mem s2 = used_mem s" for x
  proof -
    obtain s2 where s2: "rt_free (Some a) (s1\<lparr>mdata := x\<rparr>) = Some s2" "heap_inv low s2 xs"
      using rt_free_joins[of low "s1\<lparr>mdata := x\<rparr>" ys k "ws @ zs"] r(4,6) k k12(1) s1 join by auto
    then show ?thesis using heap_invD(9)[OF s2(2)] H(9) by auto
  qed
  moreover have "a mod 4 = 0" using dv H(7) s1(2) r(5) s1(1) by (simp add: mod_eq_0_iff_dvd)
  moreover have "a + k < 2 ^ 32" using H(3,8) r(1,5) s1 k12(3) by simp
  ultimately show ?thesis using r(4,5) k s1 k12(2)
    by (intro exI[of _ ys] exI[of _ k] exI[of _ "ws @ zs"]) (simp add: m_def)
qed

text \<open>C8: \<^verbatim>\<open>rt_free\<close> of a pointer to a segment in use returns: the segment becomes free and is joined with
  the free segments next to it on both sides, so that no two free segments are neighbours, all
  other segments stay where they are, and the count of used memory drops by its size.\<close>

theorem rt_free_correct:
  assumes "heap_inv low s (ys @ (n, True) # zs)" "rt_interrupt_nest s = 0" "12 < n \<or> zs \<noteq> []"
  shows "\<exists>s'. rt_free (Some (heap_ptr s + slen ys + 12)) s = Some s' \<and> heap_inv low s' (join_both ys n zs)
    \<and> used_mem s' = used_mem s - n"
  using rt_free_joins[OF assms] by blast

text \<open>Freeing what was just allocated brings the heap back to the row of segments it had, with the
  same amount of used memory: nothing is lost to splitting.\<close>

theorem malloc_free_roundtrip:
  assumes "heap_inv low s xs" "rt_interrupt_nest s = 0" "rt_malloc sz s = Some (Some a, s1)"
  shows "\<exists>s2. rt_free (Some a) s1 = Some s2 \<and> heap_inv low s2 xs \<and> used_mem s2 = used_mem s"
proof -
  have "s1 = s1\<lparr>mdata := mdata s1\<rparr>" by simp
  then show ?thesis using malloc_block[OF assms] by metis
qed

text \<open>A new heap is one free segment that fills the memory between the two addresses, which are
  brought to multiples of four, up to the header that marks its end.\<close>

theorem rt_system_heap_init_correct:
  assumes "rt_interrupt_nest s = 0" "used_mem s = 0" "b \<le> 2 ^ 32 - 4" "e < 2 ^ 32" "(b + 3) div 4 * 4 + 36 \<le> e div 4 * 4"
  shows "\<exists>s'. rt_system_heap_init b e s = Some s' \<and> heap_ptr s' = (b + 3) div 4 * 4
    \<and> heap_inv True s' [(e div 4 * 4 - (b + 3) div 4 * 4 - 12, False)]"
proof -
  define B E where "B = (b + 3) div 4 * 4" and "E = e div 4 * 4"
  have le: "E < 2 ^ 32" "B + 36 \<le> E" "4 dvd B" "4 dvd E" using assms(4,5) by (simp_all add: B_def E_def)
  have al: "align_up b = B" "align_down e = E" using assms(3,4) align_up_eq align_down_eq by (simp_all add: B_def E_def)
  have x: "sub32 E 24 = E - 24" "sub32 (sub32 E B) 24 = E - B - 12 - 12" "add32 (E - B - 12 - 12) 12 = E - B - 12"
    using le by (simp_all add: sub32_small add32_small)
  let ?n = "E - B - 12"
  define s' where "s' = s\<lparr>mem_size_aligned := ?n - 12, heap_ptr := B, heap_end := ?n, lfree := 0,
     blk := (blk s)(0 := \<lparr>hm_magic = HEAP_MAGIC, hm_used = 0, hm_next = ?n, hm_prev = 0\<rparr>,
       ?n := \<lparr>hm_magic = HEAP_MAGIC, hm_used = 1, hm_next = ?n, hm_prev = ?n\<rparr>)\<rparr>"
  have "rt_system_heap_init b e s = Some s'"
    using assms(1) le x by (simp add: rt_system_heap_init_def not_in_interrupt_eq Let_def al s'_def)
  moreover have "4 dvd ?n" using le by (intro dvd_diff_nat) auto
  moreover have "lfree_ok True 0 [(?n, False)]"
    using lfree_ok_scan[of True "[]" "[(?n, False)]"] by simp
  moreover have "12 \<le> ?n" "24 \<le> ?n" using le by simp_all
  ultimately show ?thesis using assms(2) le unfolding B_def[symmetric] E_def[symmetric]
    by (intro exI[of _ s']) (simp add: heap_inv_def hdr_ok_def s'_def mod_eq_0_iff_dvd)
qed

subsection \<open>Changing the size of a segment\<close>

lemma heap_inv_weaken: "heap_inv low s xs \<Longrightarrow> heap_inv False s xs"
  unfolding heap_inv_def lfree_ok_def by blast

lemma lfree_ok_shrink:
  assumes "lfree_ok low l (ys @ (n, True) # zs)"
  shows "\<exists>us vs. ys @ (k, True) # (n - k, False) # zs = us @ vs \<and> (k \<le> n \<longrightarrow> l = slen us) \<and> (vs \<noteq> [] \<longrightarrow> \<not> snd (hd vs))"
proof -
  obtain us vs where u: "us @ vs = ys @ (n, True) # zs" "l = slen us" "vs \<noteq> [] \<longrightarrow> \<not> snd (hd vs)"
    using assms unfolding lfree_ok_def by metis
  consider (before) ws where "ys = us @ ws" "vs = ws @ (n, True) # zs" | (after) ws where "us = ys @ (n, True) # ws" "zs = ws @ vs"
    using u(1) by (auto simp: append_eq_append_conv2 Cons_eq_append_conv append_eq_Cons_conv)
  then show ?thesis
  proof cases
    case before
    then show ?thesis using u(2,3)
      by (intro exI[of _ us] exI[of _ "ws @ (k, True) # (n - k, False) # zs"]) (auto simp: hd_append)
  next
    case after
    then show ?thesis using u(2,3)
      by (intro exI[of _ "ys @ (k, True) # (n - k, False) # ws"] exI[of _ vs]) auto
  qed
qed

text \<open>The headers written when a segment is made smaller.\<close>

definition shrink_seg :: "nat \<Rightarrow> nat \<Rightarrow> nat \<Rightarrow> 'a heap_state_scheme \<Rightarrow> 'a heap_state_scheme" where
  "shrink_seg ptr sz w s =
     (let nxt = hm_next (blk s ptr);
          s = s\<lparr>used_mem := sub32 (used_mem s) (sub32 sz w)\<rparr>;
          ptr2 = add32 (add32 ptr 12) w;
          s = upd_blk ptr2 (\<lambda>b. b\<lparr>hm_magic := HEAP_MAGIC, hm_used := 0, hm_next := nxt, hm_prev := ptr\<rparr>) s;
          s = upd_blk ptr (\<lambda>b. b\<lparr>hm_next := ptr2\<rparr>) s
      in if nxt \<noteq> add32 (mem_size_aligned s) 12 then upd_blk nxt (\<lambda>b. b\<lparr>hm_prev := ptr2\<rparr>) s else s)"

lemma shrink_seg_row:
  assumes h: "heap_inv low s (ys @ (n, True) # zs)" and w: "w + 36 < n" "4 dvd w"
  defines "s' \<equiv> shrink_seg (slen ys) (n - 12) w s"
  shows "heap_row False s' ((ys @ [(w + 12, True)]) @ (n - (w + 12), False) # zs)"
    "heap_ptr s' = heap_ptr s" "heap_end s' = heap_end s" "mdata s' = mdata s"
proof -
  note H = heap_invD[OF h]
  let ?p = "slen ys" and ?q = "slen ys + 12 + w" and ?x = "slen ys + n"
  have c: "chain (blk s) 0 0 ys" "hdr_ok (blk s ?p) (last_at 0 0 ys) ?x True" "12 \<le> n" "4 dvd n" "chain (blk s) ?p ?x zs"
    using H(1) by (auto simp: seg_chain_append)
  have b: "?x + slen zs = heap_end s" "heap_end s < 2 ^ 32" using H(3,8) by auto
  have nx: "hm_next (blk s ?p) = ?x" using c(2) by (simp add: hdr_ok_def)
  have u: "n \<le> used_mem s" "used_mem s < 2 ^ 32" using used_len_le[of "ys @ (n, True) # zs"] H(3,8) by (simp_all add: H(9))
  have e: "sub32 (n - 12) w = n - (12 + w)" "sub32 (used_mem s) (n - (12 + w)) = used_mem s - (n - (12 + w))"
    "add32 (add32 ?p 12) w = ?q" "add32 (mem_size_aligned s) 12 = heap_end s"
    using b u w H(4,5) by (simp_all add: sub32_small add32_small)
  show f: "heap_ptr s' = heap_ptr s" "heap_end s' = heap_end s" "mdata s' = mdata s"
    by (simp_all add: s'_def shrink_seg_def Let_def upd_blk_def)
  have g: "mem_size_aligned s' = mem_size_aligned s" "lfree s' = lfree s" "used_mem s' = used_mem s - (n - (12 + w))"
    by (simp_all add: s'_def shrink_seg_def Let_def upd_blk_def e)
  define B1 where "B1 = (blk s)(?q := (blk s ?q)\<lparr>hm_magic := HEAP_MAGIC, hm_used := 0, hm_next := ?x, hm_prev := ?p\<rparr>,
    ?p := (blk s ?p)\<lparr>hm_next := ?q\<rparr>)"
  have B: "blk s' = (if ?x \<noteq> heap_end s then B1(?x := (B1 ?x)\<lparr>hm_prev := ?q\<rparr>) else B1)"
    using w by (simp add: s'_def shrink_seg_def Let_def upd_blk_def e nx B1_def)
  have tail: "chain (blk s') ?q ?x zs"
  proof (cases "zs = []")
    case False
    then have "?x \<noteq> heap_end s" using b(1) c(5) chain_slen_0 by fastforce
    then have "chain (blk s') ?q ?x zs = chain ((blk s)(?x := (blk s ?x)\<lparr>hm_prev := ?q\<rparr>)) ?q ?x zs"
      using w by (intro chain_cong) (auto simp: B B1_def)
    then show ?thesis using chain_prev[OF c(5)] by simp
  qed simp
  have "chain (blk s') 0 0 ys = chain (blk s) 0 0 ys" using w by (intro chain_cong) (auto simp: B B1_def)
  moreover have "4 dvd n - (w + 12)" using c(4) w by (intro dvd_diff_nat dvd_add) auto
  moreover have "blk s' ?p = (blk s ?p)\<lparr>hm_next := ?q\<rparr>" using w by (simp add: B B1_def)
  moreover have "hdr_ok (blk s' ?q) ?p ?x False" using w by (simp add: B B1_def hdr_ok_def)
  ultimately have ch: "chain (blk s') 0 0 ((ys @ [(w + 12, True)]) @ (n - (w + 12), False) # zs)"
    using c w tail by (simp add: seg_chain_append hdr_ok_def add.assoc add.commute[of 12])
  obtain us vs where "ys @ (w + 12, True) # (n - (w + 12), False) # zs = us @ vs" "lfree s = slen us" "vs \<noteq> [] \<longrightarrow> \<not> snd (hd vs)"
    using lfree_ok_shrink[OF H(10), of "w + 12"] w by auto
  then have lf: "lfree_ok False (lfree s') ((ys @ [(w + 12, True)]) @ (n - (w + 12), False) # zs)"
    unfolding lfree_ok_def g by (intro exI[of _ us] exI[of _ vs]) simp
  have "hm_used (blk s' (heap_end s)) = 1" using H(6) w b by (auto simp: B B1_def)
  then show "heap_row False s' ((ys @ [(w + 12, True)]) @ (n - (w + 12), False) # zs)"
    unfolding heap_row_def f g using ch lf[unfolded g] H w b by simp
qed

text \<open>A segment in use keeps its place when another one is taken.\<close>

lemma used_stays:
  assumes "ys @ (n, True) # zs = us @ (k, False) # vs" "slen r = k" "r \<noteq> []"
  shows "\<exists>ys' zs'. us @ r @ vs = ys' @ (n, True) # zs' \<and> slen ys' = slen ys \<and> (zs \<noteq> [] \<longrightarrow> zs' \<noteq> [])"
proof -
  consider ws where "ys = us @ (k, False) # ws" "vs = ws @ (n, True) # zs"
    | ws where "us = ys @ (n, True) # ws" "zs = ws @ (k, False) # vs"
    using assms(1) by (auto simp: append_eq_append_conv2 Cons_eq_append_conv append_eq_Cons_conv)
  then show ?thesis
  proof cases
    case 1
    then show ?thesis using assms(2) by (intro exI[of _ "us @ r @ ws"] exI[of _ zs]) simp
  next
    case (2 ws)
    then show ?thesis using assms(3) by (intro exI[of _ ys] exI[of _ "ws @ r @ vs"]) simp
  qed
qed

lemma segs_apart:
  assumes "ys @ x # zs = us @ y # vs" "x \<noteq> y"
  shows "slen ys + fst x \<le> slen us \<or> slen us + fst y \<le> slen ys"
  using assms by (auto simp: append_eq_append_conv2 Cons_eq_append_conv append_eq_Cons_conv)

lemma join_right_append: "r \<noteq> [] \<or> snd (hd x) \<Longrightarrow> x \<noteq> [] \<Longrightarrow> join_right n (r @ x) = join_right n r @ x"
  by (cases r) (auto simp: join_right_def)

lemma join_both_append:
  assumes "r \<noteq> [] \<or> snd (hd x)" "x \<noteq> []"
  shows "join_both ys n (r @ x) = join_both ys n r @ x"
proof -
  have "join_right n r \<noteq> []" by (simp add: join_right_def)
  then show ?thesis by (auto simp: join_both_def Let_def join_right_append[OF assms] tl_append split: list.splits)
qed

lemma join_both_prepend: "r \<noteq> [] \<or> snd (last y) \<Longrightarrow> y \<noteq> [] \<Longrightarrow> join_both (y @ r) n zs = y @ join_both r n zs"
  by (auto simp: join_both_def Let_def butlast_append)

lemma slen_join_both: "slen (join_both ys n zs) = slen ys + n + slen zs"
proof -
  have r: "slen (join_right n zs) = n + slen zs" "join_right n zs \<noteq> []" by (cases zs; simp add: join_right_def)+
  then show ?thesis
    by (cases ys rule: rev_cases; cases "join_right n zs") (auto simp: join_both_def Let_def)
qed

text \<open>Another segment in use keeps its place when a segment is freed.\<close>

lemma used_survives_join:
  assumes "ys @ (n, True) # zs = us @ (k, True) # vs" "slen us \<noteq> slen ys"
  shows "\<exists>us' vs'. join_both ys n zs = us' @ (k, True) # vs' \<and> slen us' = slen us"
proof -
  consider r where "ys = us @ (k, True) # r" | r where "us = ys @ (n, True) # r" "zs = r @ (k, True) # vs"
    using assms by (auto simp: append_eq_append_conv2 Cons_eq_append_conv append_eq_Cons_conv)
  then show ?thesis
  proof cases
    case (1 r)
    then have "join_both ys n zs = (us @ [(k, True)]) @ join_both r n zs"
      using join_both_prepend[of r "us @ [(k, True)]"] by simp
    then show ?thesis by (intro exI[of _ us] exI[of _ "join_both r n zs"]) simp
  next
    case (2 r)
    then have "join_both ys n zs = join_both ys n r @ (k, True) # vs" using join_both_append[of r "(k, True) # vs"] by simp
    then show ?thesis using 2 by (intro exI[of _ "join_both ys n r"] exI[of _ vs]) (simp add: slen_join_both)
  qed
qed

lemma upd_blk_mdata [simp]: "mdata (upd_blk a f s) = mdata s"
  by (simp add: upd_blk_def)

lemma plug_mdata [simp]: "mdata (plug_forward a s) = mdata s" "mdata (plug_backward a s) = mdata s"
  by (simp_all add: plug_forward_def plug_backward_def Let_def)

lemma malloc_take_mdata [simp]: "mdata (malloc_take a sz s) = mdata s"
  by (simp add: malloc_take_def count_used_def Let_def)

lemma advance_lfree_mdata: "advance_lfree a s = Some s' \<Longrightarrow> mdata s' = mdata s"
  by (auto simp: advance_lfree_def bind_eq_Some_conv split: if_splits)

lemma rt_malloc_mdata: "rt_malloc sz s = Some (r, s') \<Longrightarrow> mdata s' = mdata s"
  by (auto simp: rt_malloc_def Let_def bind_eq_Some_conv dest!: advance_lfree_mdata split: if_splits option.splits)

lemma rt_free_mdata: "rt_free q s = Some s' \<Longrightarrow> mdata s' = mdata s"
  by (auto simp: rt_free_def Let_def plug_holes_def bind_eq_Some_conv split: if_splits option.splits)

text \<open>The three ways \<^verbatim>\<open>rt_realloc\<close> goes on once the pointer is known to be in the heap.\<close>

lemma rt_realloc_eq:
  assumes h: "heap_inv low s (ys @ (n, True) # zs)" and nest: "rt_interrupt_nest s = 0" and d: "12 < n \<or> zs \<noteq> []"
    and w: "align_up newsize \<le> mem_size_aligned s"
  defines "a \<equiv> heap_ptr s + slen ys + 12" and "w \<equiv> align_up newsize"
  shows "rt_realloc (Some a) newsize s =
    (if n - 12 = w then Some (Some a, s)
     else if w + 36 < n then map_option (Pair (Some a)) (plug_holes (slen ys + 12 + w) (shrink_seg (slen ys) (n - 12) w s))
     else do { (nmem, s) \<leftarrow> rt_malloc w s;
               case nmem of
                 None \<Rightarrow> Some (None, s)
               | Some b \<Rightarrow> do { s \<leftarrow> rt_free (Some a) (s\<lparr>mdata := rt_memcpy b a (min (n - 12) w) (mdata s)\<rparr>); Some (Some b, s) } })"
proof -
  note H = heap_invD[OF h]
  have c: "hm_next (blk s (slen ys)) = slen ys + n" "12 \<le> n" "slen ys + n + slen zs = heap_end s"
    using H(1,3) by (auto simp: seg_chain_append hdr_ok_def)
  have "zs \<noteq> [] \<Longrightarrow> 0 < slen zs" using chain_pos[OF H(1)] by (cases zs) auto
  then have inside: "\<not> (a < heap_ptr s \<or> heap_ptr s + heap_end s \<le> a)" "heap_ptr s + 12 \<le> a" "a - 12 - heap_ptr s = slen ys"
    using d c by (auto simp: a_def)
  have e: "sub32 (sub32 (slen ys + n) (slen ys)) 12 = n - 12" "add32 (add32 w 12) 12 = w + 24"
    "add32 (add32 (slen ys) 12) w = slen ys + 12 + w \<or> n \<le> w + 36"
    using c H(4,5,8) w by (auto simp: sub32_small add32_small w_def)
  have lt: "w + 24 < n - 12 \<longleftrightarrow> w + 36 < n" by auto
  have mn: "(if n - 12 < w then n - 12 else w) = min (n - 12) w" by simp
  have start: "rt_realloc (Some a) newsize s =
    (let ptr = slen ys; nxt = slen ys + n; sz = n - 12 in
     if sz = w then Some (Some a, s)
     else if w + 24 < sz then do { s \<leftarrow> plug_holes (add32 (add32 ptr 12) w) (shrink_seg ptr sz w s); Some (Some a, s) }
     else do { (nmem, s) \<leftarrow> rt_malloc w s;
               case nmem of
                 None \<Rightarrow> Some (None, s)
               | Some b \<Rightarrow> do { let s = s\<lparr>mdata := rt_memcpy b a (if sz < w then sz else w) (mdata s)\<rparr>;
                              s \<leftarrow> rt_free (Some a) s; Some (Some b, s) } })"
  proof -
    have c': "RT_DEBUG_NOT_IN_INTERRUPT s = Some s" "RT_ASSERT (heap_ptr s + 12 \<le> a) s = Some s"
      "(mem_size_aligned s < w) = False" "(a < heap_ptr s \<or> heap_ptr s + heap_end s \<le> a) = False"
      using nest w inside by (simp_all add: not_in_interrupt_eq w_def)
    show ?thesis
      unfolding rt_realloc_def c'(1) Option.bind_lunit Let_def w_def[symmetric] c'(3) if_False option.case c'(4) c'(2)
        inside(3) c(1) e(1,2) shrink_seg_def by (rule refl)
  qed
  show ?thesis
    using e(3) unfolding start Let_def lt mn
    by (cases "n - 12 = w"; cases "w + 36 < n") (auto simp: map_option_case bind_split split: option.splits)
qed

lemma realloc_shrinks:
  assumes h: "heap_inv low s (ys @ (n, True) # zs)" and w: "w + 36 < n" "4 dvd w"
  shows "\<exists>s'. plug_holes (slen ys + 12 + w) (shrink_seg (slen ys) (n - 12) w s) = Some s'
    \<and> heap_inv False s' (ys @ (w + 12, True) # join_right (n - (w + 12)) zs) \<and> heap_ptr s' = heap_ptr s \<and> mdata s' = mdata s"
proof -
  let ?ys = "ys @ [(w + 12, True)]"
  define s1 where "s1 = shrink_seg (slen ys) (n - 12) w s"
  note R = shrink_seg_row[OF h w, folded s1_def]
  have q: "slen ?ys = slen ys + 12 + w" by simp
  define s2 where "s2 = plug_forward (slen ?ys) s1"
  note F = plug_forward_ok[OF R(1), folded s2_def]
  obtain k r where j: "join_right (n - (w + 12)) zs = (k, False) # r"
    by (cases "zs \<noteq> [] \<and> \<not> snd (hd zs)") (auto simp: join_right_def)
  define s' where "s' = plug_backward (slen ?ys) s2"
  have "heap_row False s2 (?ys @ (k, False) # r)" using F j by simp
  note G = plug_backward_ok[OF this, folded s'_def]
  have "joined (join_both ?ys (n - (w + 12)) zs)"
    using heap_invD(2)[OF h] by (intro joined_both) (auto simp: joined_append joined_Cons)
  then have "joined (ys @ (w + 12, True) # join_right (n - (w + 12)) zs)" by (simp add: join_both_def)
  moreover have "heap_row False s' (ys @ (w + 12, True) # join_right (n - (w + 12)) zs)" using G j by simp
  moreover have "slen ys + n + slen zs = heap_end s" using heap_invD(3)[OF h] by simp
  then have "slen ?ys < heap_end s1" using w R(3) by simp
  moreover have "hm_used (blk s1 (slen ?ys)) = 0" using R(1) by (simp add: heap_row_def seg_chain_append hdr_ok_def)
  ultimately have "plug_holes (slen ?ys) s1 = Some s' \<and> heap_inv False s' (ys @ (w + 12, True) # join_right (n - (w + 12)) zs)"
    by (simp add: plug_holes_def s'_def s2_def heap_row_inv RT_ASSERT_def)
  moreover have "heap_ptr s' = heap_ptr s" "mdata s' = mdata s" using G F R(2,4) by (simp_all add: s'_def s2_def)
  ultimately show ?thesis unfolding q s1_def by blast
qed

lemma align_up_idem: "align_up sz \<le> 2 ^ 32 - 4 \<Longrightarrow> align_up (align_up sz) = align_up sz"
  using align_up_eq[of "align_up sz"] align_up_dvd[of sz] by auto

lemma realloc_moves:
  assumes inv: "heap_inv low s (ys @ (n, True) # zs)" and last: "12 < n \<or> zs \<noteq> []"
    and p: "ys @ (n, True) # zs = us @ (k, False) # vs" and m: "w \<le> m" "m + 12 \<le> k"
    and mal: "rt_malloc w s = Some (Some b, s1)" and b: "b = heap_ptr s + slen us + 12"
    and i1: "heap_inv low s1 (us @ cut m k @ vs)" and s1: "heap_ptr s1 = heap_ptr s" "rt_interrupt_nest s1 = 0"
  defines "a \<equiv> heap_ptr s + slen ys + 12"
  shows "\<exists>s' ys' zs' us' k' vs'. rt_free (Some a) (s1\<lparr>mdata := rt_memcpy b a (min (n - 12) w) (mdata s1)\<rparr>) = Some s'
    \<and> us @ cut m k @ vs = ys' @ (n, True) # zs' \<and> slen ys' = slen ys
    \<and> heap_inv low s' (join_both ys' n zs')
    \<and> join_both ys' n zs' = us' @ (k', True) # vs' \<and> slen us' = slen us \<and> w + 12 \<le> k'
    \<and> mdata s' = mem_copy b a (min (n - 12) w) (mdata s)"
proof -
  define s2 where "s2 = s1\<lparr>mdata := rt_memcpy b a (min (n - 12) w) (mdata s1)\<rparr>"
  have n: "12 \<le> n" using heap_invD(1)[OF inv] by (auto simp: seg_chain_append)
  obtain ys' zs' where y: "us @ cut m k @ vs = ys' @ (n, True) # zs'" "slen ys' = slen ys" "zs \<noteq> [] \<longrightarrow> zs' \<noteq> []"
    using used_stays[OF p, of "cut m k"] by auto
  have i2: "heap_inv low s2 (ys' @ (n, True) # zs')" using i1 y(1) by (simp add: s2_def)
  obtain s' where s': "rt_free (Some a) s2 = Some s'" "heap_inv low s' (join_both ys' n zs')"
    using rt_free_joins[OF i2] s1 last y(2,3) by (auto simp: s2_def a_def)
  obtain k1 r where k1: "cut m k = (k1, True) # r" "w + 12 \<le> k1"
    using m by (cases "m + 36 \<le> k") (auto simp: cut_def)
  have apart: "slen ys + n \<le> slen us \<or> slen us + k \<le> slen ys" using segs_apart[OF p] by simp
  then have "slen us \<noteq> slen ys'" using y(2) n m by auto
  moreover have "ys' @ (n, True) # zs' = us @ (k1, True) # r @ vs" using y(1) k1(1) by simp
  ultimately obtain us' vs' where u: "join_both ys' n zs' = us' @ (k1, True) # vs'" "slen us' = slen us"
    using used_survives_join by blast
  have "rt_memcpy b a (min (n - 12) w) (mdata s1) = mem_copy b a (min (n - 12) w) (mdata s1)"
    using apart n m by (intro rt_memcpy_copy) (auto simp: a_def b)
  then have "mdata s' = mem_copy b a (min (n - 12) w) (mdata s)"
    using rt_malloc_mdata[OF mal] rt_free_mdata[OF s'(1)] by (simp add: s2_def)
  then show ?thesis using s' y(1,2) u k1(2) unfolding s2_def by blast
qed

text \<open>C34: \<^verbatim>\<open>rt_realloc\<close> of a pointer to a segment in use, with the new size rounded up to \<open>w\<close>. A size beyond
  the heap is refused and changes nothing; the size the segment has changes nothing; a segment with more than
  24 bytes to spare is cut in place, and what is cut off becomes free and is joined with a free segment
  behind it. Otherwise the data moves to a free segment large enough, with the rest split off: the smaller
  of the two sizes is copied, no other byte changes, and the old segment is free and joined with its free neighbours. Only when
  the new size is 0 or no free segment from the hint on is large enough does the call return null, and
  then nothing changes. (A segment that fits exactly and is the last of the heap counts as too small.)\<close>

theorem rt_realloc_correct:
  assumes "heap_inv low s (ys @ (n, True) # zs)" "rt_interrupt_nest s = 0" "12 < n \<or> zs \<noteq> []" "newsize \<le> 2 ^ 32 - 4"
  defines "a \<equiv> heap_ptr s + slen ys + 12" and "w \<equiv> (newsize + 3) div 4 * 4" and "m \<equiv> max 12 ((newsize + 3) div 4 * 4)"
  shows "if mem_size_aligned s < w then rt_realloc (Some a) newsize s = Some (None, s)
    else if n = w + 12 then rt_realloc (Some a) newsize s = Some (Some a, s)
    else if w + 36 < n then
      (\<exists>s'. rt_realloc (Some a) newsize s = Some (Some a, s') \<and> mdata s' = mdata s
         \<and> heap_inv False s' (ys @ (w + 12, True) # join_right (n - (w + 12)) zs))
    else
      (\<exists>us k vs s' ys' zs' us' k' vs'. ys @ (n, True) # zs = us @ (k, False) # vs \<and> m + 12 \<le> k
         \<and> rt_realloc (Some a) newsize s = Some (Some (heap_ptr s + slen us + 12), s')
         \<and> us @ cut m k @ vs = ys' @ (n, True) # zs' \<and> slen ys' = slen ys \<and> heap_inv low s' (join_both ys' n zs')
         \<and> join_both ys' n zs' = us' @ (k', True) # vs' \<and> slen us' = slen us \<and> w + 12 \<le> k'
         \<and> mdata s' = mem_copy (heap_ptr s + slen us + 12) a (min (n - 12) w) (mdata s))
      \<or> rt_realloc (Some a) newsize s = Some (None, s)
         \<and> (w = 0 \<or> (\<forall>us k vs. ys @ (n, True) # zs = us @ (k, False) # vs \<and> lfree s \<le> slen us \<longrightarrow> k < m + 12 \<or> k = m + 12 \<and> vs = []))"
proof -
  note H = heap_invD[OF assms(1)]
  have w: "align_up newsize = w" using align_up_eq[OF assms(4)] by (simp add: w_def)
  have w4: "4 dvd w" "12 \<le> n" using H(1) by (auto simp: w_def seg_chain_append)
  consider (big) "mem_size_aligned s < w" | (same) "\<not> mem_size_aligned s < w" "n = w + 12"
    | (shrink) "\<not> mem_size_aligned s < w" "n \<noteq> w + 12" "w + 36 < n"
    | (move) "\<not> mem_size_aligned s < w" "n \<noteq> w + 12" "\<not> w + 36 < n" by blast
  then show ?thesis
  proof cases
    case big
    then show ?thesis using assms(2) w by (simp add: rt_realloc_def not_in_interrupt_eq Let_def)
  next
    case same
    then show ?thesis using rt_realloc_eq[OF assms(1-3), of newsize] w by (simp add: a_def)
  next
    case shrink
    then show ?thesis using rt_realloc_eq[OF assms(1-3), of newsize] w realloc_shrinks[OF assms(1) shrink(3) w4(1)]
      by (auto simp: a_def)
  next
    case move
    have eq: "rt_realloc (Some a) newsize s = do { (nmem, s) \<leftarrow> rt_malloc w s;
               case nmem of
                 None \<Rightarrow> Some (None, s)
               | Some b \<Rightarrow> do { s \<leftarrow> rt_free (Some a) (s\<lparr>mdata := rt_memcpy b a (min (n - 12) w) (mdata s)\<rparr>); Some (Some b, s) } }"
    proof -
      have "n - 12 \<noteq> w" using move(2) w4(2) by auto
      then show ?thesis using rt_realloc_eq[OF assms(1-3), of newsize, unfolded w, folded a_def] move by simp
    qed
    have mw: "m = max 12 ((w + 3) div 4 * 4)" "w \<le> m" using w4(1) by (auto simp: m_def w_def)
    show ?thesis
    proof (cases "w = 0")
      case True
      then show ?thesis using move assms(2) by (simp add: eq rt_malloc_def not_in_interrupt_eq)
    next
      case False
      have "w \<le> 2 ^ 32 - 4" using move(1) H(5,8) by simp
      from rt_malloc_outcome[OF assms(1,2) _ this, folded mw(1)] False consider
        (some) us k vs s1 where "ys @ (n, True) # zs = us @ (k, False) # vs" "m + 12 \<le> k"
          "rt_malloc w s = Some (Some (heap_ptr s + slen us + 12), s1)" "heap_inv low s1 (us @ cut m k @ vs)"
          "heap_ptr s1 = heap_ptr s" "rt_interrupt_nest s1 = 0"
        | (none) "rt_malloc w s = Some (None, s)"
          "\<forall>us k vs. ys @ (n, True) # zs = us @ (k, False) # vs \<and> lfree s \<le> slen us \<longrightarrow> k < m + 12 \<or> k = m + 12 \<and> vs = []"
        unfolding cut_def by blast
      then show ?thesis
      proof cases
        case some
        obtain s' ys' zs' us' k' vs' where F: "rt_free (Some a) (s1\<lparr>mdata := rt_memcpy (heap_ptr s + slen us + 12) a (min (n - 12) w) (mdata s1)\<rparr>) = Some s'"
          "us @ cut m k @ vs = ys' @ (n, True) # zs'" "slen ys' = slen ys" "heap_inv low s' (join_both ys' n zs')"
          "join_both ys' n zs' = us' @ (k', True) # vs'" "slen us' = slen us" "w + 12 \<le> k'"
          "mdata s' = mem_copy (heap_ptr s + slen us + 12) a (min (n - 12) w) (mdata s)"
          using realloc_moves[OF assms(1,3) some(1) mw(2) some(2,3) refl some(4-6)] unfolding a_def by blast
        have R: "rt_realloc (Some a) newsize s = Some (Some (heap_ptr s + slen us + 12), s')" using some(3) F(1) by (simp add: eq)
        show ?thesis unfolding if_not_P[OF move(1)] if_not_P[OF move(2)] if_not_P[OF move(3)]
          by (intro disjI1, rule exI[of _ us], rule exI[of _ k], rule exI[of _ vs], rule exI[of _ s'], rule exI[of _ ys'],
              rule exI[of _ zs'], rule exI[of _ us'], rule exI[of _ k'], rule exI[of _ vs'])
             (intro conjI some(1,2) R F(2-8))
      next
        case none
        then have "rt_realloc (Some a) newsize s = Some (None, s)" by (simp add: eq)
        then show ?thesis unfolding if_not_P[OF move(1)] if_not_P[OF move(2)] if_not_P[OF move(3)]
          using none(2) by (intro disjI2 conjI)
      qed
    qed
  qed
qed

text \<open>Rounding the size up wraps around: a request for one of the three largest sizes is served like
  a request for one byte, with a segment of twelve.\<close>

theorem rt_malloc_huge_size_wraps:
  assumes "heap_inv low s xs" "2 ^ 32 - 4 < sz" "sz < 2 ^ 32"
  shows "rt_malloc sz s = rt_malloc 1 s"
proof -
  have "align_up sz = 0" using assms(2,3) by (rule align_up_wraps)
  moreover have "align_up 1 = 4" using align_up_eq[of 1] by simp
  moreover have "4 \<le> mem_size_aligned s" using heap_invD(4,5)[OF assms(1)] by simp
  ultimately show ?thesis using assms(2) by (simp add: rt_malloc_def Let_def not_in_interrupt_eq)
qed

subsection \<open>Witnesses\<close>

text \<open>A heap of 96 bytes at 1000: a segment in use, then a free one.\<close>

definition demo_heap :: heap_state where
  "demo_heap = \<lparr>rt_interrupt_nest = 0, heap_ptr = 1000, heap_end = 96, lfree = 36, mem_size_aligned = 84,
     used_mem = 36, max_mem = 36,
     blk = (\<lambda>a. if a = 0 then \<lparr>hm_magic = HEAP_MAGIC, hm_used = 1, hm_next = 36, hm_prev = 0\<rparr>
       else if a = 36 then \<lparr>hm_magic = 0, hm_used = 0, hm_next = 96, hm_prev = 0\<rparr>
       else \<lparr>hm_magic = HEAP_MAGIC, hm_used = 1, hm_next = 96, hm_prev = 96\<rparr>),
     mdata = (\<lambda>_. 0)\<rparr>"

lemma demo_heap_inv: "heap_inv True demo_heap ([] @ (36, True) # [(60, False)])" "heap_inv True demo_heap [(36, True), (60, False)]"
proof -
  have "lfree_ok True 36 [(36, True), (60, False)]"
    using lfree_ok_scan[of True "[]" "[(36, True), (60, False)]"] by simp
  then show *: "heap_inv True demo_heap ([] @ (36, True) # [(60, False)])"
    by (simp add: heap_inv_def demo_heap_def hdr_ok_def)
  then show "heap_inv True demo_heap [(36, True), (60, False)]" by simp
qed

lemma demo_heap_simps: "rt_interrupt_nest demo_heap = 0" "heap_ptr demo_heap = 1000" "used_mem demo_heap = 36" "lfree demo_heap = 36"
  by (simp_all add: demo_heap_def)

lemma two_segments:
  "[(36, True), (60, False)] = ys @ (n, False) # zs \<longleftrightarrow> ys = [(36, True)] \<and> n = (60::nat) \<and> zs = []"
  by (auto simp: Cons_eq_append_conv)

theorem rt_malloc_correct_witness:
  "\<exists>s'. rt_malloc 10 demo_heap = Some (Some 1048, s') \<and> heap_inv True s' [(36, True), (24, True), (36, False)]"
  using rt_malloc_correct[OF demo_heap_inv(2) demo_heap_simps(1), of 10]
  by (auto simp: two_segments demo_heap_simps)

theorem rt_free_correct_witness:
  "\<exists>s'. rt_free (Some 1012) demo_heap = Some s' \<and> heap_inv True s' [(96, False)] \<and> used_mem s' = 0"
  using rt_free_correct[OF demo_heap_inv(1) demo_heap_simps(1)]
  by (auto simp: demo_heap_simps join_both_def join_right_def)

lemma demo_heap_malloc: "\<exists>s1. rt_malloc 10 demo_heap = Some (Some 1048, s1)"
  using demo_heap_inv(2) demo_heap_simps(1)
proof (cases rule: rt_malloc_cases[where sz = 10])
  case none
  have "align_up 10 = 12" using align_up_eq[of 10] by simp
  moreover have "malloc_search 36 12 demo_heap = Some (Some 36)"
    by (subst malloc_search.simps) (simp add: demo_heap_def sub32_def add32_def)
  ultimately show ?thesis using none by (simp add: rt_malloc_def not_in_interrupt_eq demo_heap_simps Let_def demo_heap_def bind_eq_Some_conv)
next
  case (some ys n zs s')
  then show ?thesis by (auto simp: two_segments demo_heap_simps)
qed

theorem malloc_free_roundtrip_witness:
  "\<exists>s1 s2. rt_malloc 10 demo_heap = Some (Some 1048, s1) \<and> rt_free (Some 1048) s1 = Some s2 \<and> used_mem s2 = 36"
proof -
  obtain s1 where s1: "rt_malloc 10 demo_heap = Some (Some 1048, s1)" using demo_heap_malloc by blast
  show ?thesis using malloc_free_roundtrip[OF demo_heap_inv(2) demo_heap_simps(1) s1] s1 demo_heap_simps(3) by auto
qed

theorem rt_system_heap_init_correct_witness:
  "\<exists>s'. rt_system_heap_init 1001 1999 (demo_heap\<lparr>used_mem := 0\<rparr>) = Some s' \<and> heap_inv True s' [(980, False)]"
  using rt_system_heap_init_correct[of "demo_heap\<lparr>used_mem := 0\<rparr>" 1001 1999] by (auto simp: demo_heap_simps)

text \<open>Growing the block of 24 bytes to 30 moves it to the other segment and frees the first one.\<close>

theorem rt_realloc_correct_witness:
  "\<exists>s'. rt_realloc (Some 1012) 30 demo_heap = Some (Some 1048, s') \<and> heap_inv True s' [(36, False), (60, True)]
     \<and> mdata s' = mem_copy 1048 1012 24 (\<lambda>_. 0)"
proof -
  have c: "[(36, True), (60, False)] = us @ (k, False) # vs \<longleftrightarrow> us = [(36, True)] \<and> k = (60::nat) \<and> vs = []" for us k vs
    by (rule two_segments)
  have j: "[(36, True), (60, True)] = ys' @ (36, True) # zs' \<longleftrightarrow> ys' = [] \<and> zs' = [(60::nat, True)]" for ys' zs'
    by (auto simp: Cons_eq_append_conv)
  have "mem_size_aligned demo_heap = 84" "mdata demo_heap = (\<lambda>_. 0)" by (simp_all add: demo_heap_def)
  then show ?thesis
    using rt_realloc_correct[OF demo_heap_inv(1) demo_heap_simps(1), of 30] demo_heap_simps
    by (auto simp: c j cut_def join_both_def join_right_def)
qed

theorem rt_malloc_huge_size_wraps_witness: "rt_malloc 0xffffffff demo_heap = rt_malloc 1 demo_heap"
  using rt_malloc_huge_size_wraps[OF demo_heap_inv(2), of "0xffffffff"] by simp

end
