(* ===== verification/RingBuffer.thy ===== *)
theory RingBuffer
  imports Fifo
begin

text \<open>
  The ring buffer of the device drivers, \<^verbatim>\<open>components/drivers/src/ringbuffer.c\<close> and the inline
  functions of \<^verbatim>\<open>rtdevice.h\<close>. The indices are bit fields of 15 bits, each with a mirror bit that is
  flipped when the index starts over; the size is a signed 16-bit number. Expressions are
  evaluated in \<^verbatim>\<open>int\<close>, as the integer promotions of C have it. \<open>rb_buffer\<close> is the memory at
  \<^verbatim>\<open>buffer_ptr\<close>; the bytes at \<^verbatim>\<open>ptr\<close> are a list.
\<close>

record rt_ringbuffer =
  rb_buffer :: "nat \<Rightarrow> 8 word"
  rb_read_mirror :: bool
  rb_read_index :: "15 word"
  rb_write_mirror :: bool
  rb_write_index :: "15 word"
  rb_buffer_size :: "16 word"

datatype rt_ringbuffer_state = RT_RINGBUFFER_EMPTY | RT_RINGBUFFER_FULL | RT_RINGBUFFER_HALFFULL

definition rt_ringbuffer_init :: "(nat \<Rightarrow> 8 word) \<Rightarrow> 16 word \<Rightarrow> rt_ringbuffer option" where
  "rt_ringbuffer_init pool sz =
     RT_ASSERT (0 < sint sz)
       \<lparr>rb_buffer = pool, rb_read_mirror = False, rb_read_index = 0, rb_write_mirror = False, rb_write_index = 0,
        rb_buffer_size = sz AND NOT 3\<rparr>"

definition rt_ringbuffer_status :: "rt_ringbuffer \<Rightarrow> rt_ringbuffer_state" where
  "rt_ringbuffer_status rb =
     (if rb_read_index rb = rb_write_index rb then
        if rb_read_mirror rb = rb_write_mirror rb then RT_RINGBUFFER_EMPTY else RT_RINGBUFFER_FULL
      else RT_RINGBUFFER_HALFFULL)"

definition rt_ringbuffer_get_size :: "rt_ringbuffer \<Rightarrow> rt_uint16_t" where
  "rt_ringbuffer_get_size rb = rb_buffer_size rb"

definition rt_ringbuffer_data_len :: "rt_ringbuffer \<Rightarrow> rt_uint16_t" where
  "rt_ringbuffer_data_len rb =
     (case rt_ringbuffer_status rb of
        RT_RINGBUFFER_EMPTY \<Rightarrow> 0
      | RT_RINGBUFFER_FULL \<Rightarrow> rb_buffer_size rb
      | RT_RINGBUFFER_HALFFULL \<Rightarrow>
          if rb_write_index rb > rb_read_index rb
          then word_of_int (uint (rb_write_index rb) - uint (rb_read_index rb))
          else word_of_int (sint (rb_buffer_size rb) - (uint (rb_read_index rb) - uint (rb_write_index rb))))"

definition rt_ringbuffer_space_len :: "rt_ringbuffer \<Rightarrow> int" where
  "rt_ringbuffer_space_len rb = sint (rb_buffer_size rb) - uint (rt_ringbuffer_data_len rb)"

text \<open>\<^verbatim>\<open>memcpy\<close> into the buffer at an index.\<close>

definition buf_write :: "nat \<Rightarrow> 8 word list \<Rightarrow> (nat \<Rightarrow> 8 word) \<Rightarrow> nat \<Rightarrow> 8 word" where
  "buf_write i xs buf = (\<lambda>j. if i \<le> j \<and> j < i + length xs then xs ! (j - i) else buf j)"

definition buf_read :: "nat \<Rightarrow> nat \<Rightarrow> (nat \<Rightarrow> 8 word) \<Rightarrow> 8 word list" where
  "buf_read i n buf = map (\<lambda>k. buf (i + k)) [0..<n]"

text \<open>The copy of \<open>len\<close> bytes at the write index, in one or two pieces, that \<open>rt_ringbuffer_put\<close> and
  \<open>rt_ringbuffer_put_force\<close> share; the flag says whether the index went into the other mirror.\<close>

definition rb_copy_in :: "8 word list \<Rightarrow> rt_uint16_t \<Rightarrow> rt_ringbuffer \<Rightarrow> bool \<times> rt_ringbuffer" where
  "rb_copy_in ptr len rb =
     (let rest = sint (rb_buffer_size rb) - uint (rb_write_index rb) in
      if rest > uint len then
        (False, rb\<lparr>rb_buffer := buf_write (unat (rb_write_index rb)) (take (unat len) ptr) (rb_buffer rb),
           rb_write_index := rb_write_index rb + ucast len\<rparr>)
      else
        let buf = buf_write (unat (rb_write_index rb)) (take (nat rest) ptr) (rb_buffer rb);
            buf = buf_write 0 (take (nat (uint len - rest)) (drop (nat rest) ptr)) buf
        in (True, rb\<lparr>rb_buffer := buf, rb_write_mirror := \<not> rb_write_mirror rb, rb_write_index := word_of_int (uint len - rest)\<rparr>))"

definition rt_ringbuffer_put :: "8 word list \<Rightarrow> rt_uint16_t \<Rightarrow> rt_ringbuffer \<Rightarrow> rt_uint16_t \<times> rt_ringbuffer" where
  "rt_ringbuffer_put ptr len rb =
     (let sz = (word_of_int (rt_ringbuffer_space_len rb) :: rt_uint16_t) in
      if sz = 0 then (0, rb)
      else let len = (if sz < len then sz else len) in (len, snd (rb_copy_in ptr len rb)))"

definition rt_ringbuffer_put_force :: "8 word list \<Rightarrow> rt_uint16_t \<Rightarrow> rt_ringbuffer \<Rightarrow> rt_uint16_t \<times> rt_ringbuffer" where
  "rt_ringbuffer_put_force ptr len rb =
     (let old_state = rt_ringbuffer_status rb;
          len = (if uint len > sint (rb_buffer_size rb) then rb_buffer_size rb else len);
          (flip, rb) = rb_copy_in ptr len rb;
          rb = (if old_state = RT_RINGBUFFER_FULL
                then if flip then rb\<lparr>rb_read_mirror := \<not> rb_read_mirror rb, rb_read_index := rb_write_index rb\<rparr>
                     else rb\<lparr>rb_read_index := rb_write_index rb\<rparr>
                else rb)
      in (len, rb))"

definition rt_ringbuffer_get :: "rt_uint16_t \<Rightarrow> rt_ringbuffer \<Rightarrow> rt_uint16_t \<times> 8 word list \<times> rt_ringbuffer" where
  "rt_ringbuffer_get len rb =
     (let sz = rt_ringbuffer_data_len rb in
      if sz = 0 then (0, [], rb)
      else
        let len = (if sz < len then sz else len);
            rest = sint (rb_buffer_size rb) - uint (rb_read_index rb)
        in if rest > uint len then
             (len, buf_read (unat (rb_read_index rb)) (unat len) (rb_buffer rb),
              rb\<lparr>rb_read_index := rb_read_index rb + ucast len\<rparr>)
           else
             (len, buf_read (unat (rb_read_index rb)) (nat rest) (rb_buffer rb) @ buf_read 0 (nat (uint len - rest)) (rb_buffer rb),
              rb\<lparr>rb_read_mirror := \<not> rb_read_mirror rb, rb_read_index := word_of_int (uint len - rest)\<rparr>))"

text \<open>Moving the write index on by one, for both ways to put a character.\<close>

definition rb_store_char :: "8 word \<Rightarrow> rt_ringbuffer \<Rightarrow> bool \<times> rt_ringbuffer" where
  "rb_store_char ch rb =
     (let rb = rb\<lparr>rb_buffer := (rb_buffer rb)(unat (rb_write_index rb) := ch)\<rparr> in
      if uint (rb_write_index rb) = sint (rb_buffer_size rb) - 1
      then (True, rb\<lparr>rb_write_mirror := \<not> rb_write_mirror rb, rb_write_index := 0\<rparr>)
      else (False, rb\<lparr>rb_write_index := rb_write_index rb + 1\<rparr>))"

definition rt_ringbuffer_putchar :: "8 word \<Rightarrow> rt_ringbuffer \<Rightarrow> rt_uint16_t \<times> rt_ringbuffer" where
  "rt_ringbuffer_putchar ch rb =
     (if rt_ringbuffer_space_len rb = 0 then (0, rb) else (1, snd (rb_store_char ch rb)))"

definition rt_ringbuffer_putchar_force :: "8 word \<Rightarrow> rt_ringbuffer \<Rightarrow> rt_uint16_t \<times> rt_ringbuffer" where
  "rt_ringbuffer_putchar_force ch rb =
     (let old_state = rt_ringbuffer_status rb;
          (flip, rb) = rb_store_char ch rb;
          rb = (if old_state = RT_RINGBUFFER_FULL
                then if flip then rb\<lparr>rb_read_mirror := \<not> rb_read_mirror rb, rb_read_index := rb_write_index rb\<rparr>
                     else rb\<lparr>rb_read_index := rb_write_index rb\<rparr>
                else rb)
      in (1, rb))"

definition rt_ringbuffer_getchar :: "rt_ringbuffer \<Rightarrow> rt_uint16_t \<times> 8 word option \<times> rt_ringbuffer" where
  "rt_ringbuffer_getchar rb =
     (if rt_ringbuffer_data_len rb = 0 then (0, None, rb)
      else
        (1, Some (rb_buffer rb (unat (rb_read_index rb))),
         if uint (rb_read_index rb) = sint (rb_buffer_size rb) - 1
         then rb\<lparr>rb_read_mirror := \<not> rb_read_mirror rb, rb_read_index := 0\<rparr>
         else rb\<lparr>rb_read_index := rb_read_index rb + 1\<rparr>))"

subsection \<open>The bytes in the buffer\<close>

text \<open>The size as a number, and the invariant: the write index is ahead of the read index within the
  same mirror, and not ahead of it in the other.\<close>

definition rb_size :: "rt_ringbuffer \<Rightarrow> nat" where
  "rb_size rb = unat (rb_buffer_size rb)"

definition rb_ok :: "rt_ringbuffer \<Rightarrow> bool" where
  "rb_ok rb \<longleftrightarrow> 0 < rb_size rb \<and> rb_size rb < 2 ^ 15
     \<and> unat (rb_read_index rb) < rb_size rb \<and> unat (rb_write_index rb) < rb_size rb
     \<and> (if rb_read_mirror rb = rb_write_mirror rb then rb_read_index rb \<le> rb_write_index rb
        else rb_write_index rb \<le> rb_read_index rb)"

definition rb_count :: "rt_ringbuffer \<Rightarrow> nat" where
  "rb_count rb =
     (if rb_read_mirror rb = rb_write_mirror rb then unat (rb_write_index rb) - unat (rb_read_index rb)
      else rb_size rb - (unat (rb_read_index rb) - unat (rb_write_index rb)))"

definition rb_items :: "rt_ringbuffer \<Rightarrow> 8 word list" where
  "rb_items rb = ring_list (rb_buffer rb) (unat (rb_read_index rb)) (rb_count rb) (rb_size rb)"

lemma rb_okD:
  assumes "rb_ok rb"
  shows "0 < rb_size rb" "rb_size rb < 2 ^ 15" "unat (rb_read_index rb) < rb_size rb" "unat (rb_write_index rb) < rb_size rb"
    "rb_read_mirror rb = rb_write_mirror rb \<Longrightarrow> unat (rb_read_index rb) \<le> unat (rb_write_index rb)"
    "rb_read_mirror rb \<noteq> rb_write_mirror rb \<Longrightarrow> unat (rb_write_index rb) \<le> unat (rb_read_index rb)"
    "sint (rb_buffer_size rb) = int (rb_size rb)"
proof -
  show *: "rb_size rb < 2 ^ 15" using assms by (simp add: rb_ok_def)
  show "0 < rb_size rb" "unat (rb_read_index rb) < rb_size rb" "unat (rb_write_index rb) < rb_size rb"
    "rb_read_mirror rb = rb_write_mirror rb \<Longrightarrow> unat (rb_read_index rb) \<le> unat (rb_write_index rb)"
    "rb_read_mirror rb \<noteq> rb_write_mirror rb \<Longrightarrow> unat (rb_write_index rb) \<le> unat (rb_read_index rb)"
    using assms by (auto simp: rb_ok_def word_le_nat_alt)
  have "uint (rb_buffer_size rb) = int (rb_size rb)" by (simp add: rb_size_def)
  then have "uint (rb_buffer_size rb) < 2 ^ 15" using * by simp
  then have "signed_take_bit 15 (uint (rb_buffer_size rb)) = uint (rb_buffer_size rb)"
    using uint_ge_0[of "rb_buffer_size rb"] by (intro signed_take_bit_int_eq_self) linarith+
  then show "sint (rb_buffer_size rb) = int (rb_size rb)" by (simp add: sint_uint rb_size_def)
qed

lemma unat_of_int_16: "0 \<le> k \<Longrightarrow> k < 2 ^ 16 \<Longrightarrow> unat (word_of_int k :: 16 word) = nat k"
proof -
  assume "0 \<le> k" "k < 2 ^ 16"
  then have "uint (word_of_int k :: 16 word) = k" by (simp add: uint_word_of_int take_bit_int_eq_self)
  then show ?thesis by (metis nat_uint_eq)
qed

lemma data_len_half:
  assumes "rb_read_index rb \<noteq> rb_write_index rb" "rb_size rb < 2 ^ 15" "unat (rb_read_index rb) < rb_size rb"
    "unat (rb_write_index rb) < rb_size rb" "sint (rb_buffer_size rb) = int (rb_size rb)"
  shows "unat (rt_ringbuffer_data_len rb) =
    (if unat (rb_read_index rb) < unat (rb_write_index rb) then unat (rb_write_index rb) - unat (rb_read_index rb)
     else rb_size rb - (unat (rb_read_index rb) - unat (rb_write_index rb)))"
proof -
  define r w where "r = unat (rb_read_index rb)" and "w = unat (rb_write_index rb)"
  have u: "uint (rb_read_index rb) = int r" "uint (rb_write_index rb) = int w" by (simp_all add: r_def w_def)
  have lt: "rb_write_index rb > rb_read_index rb \<longleftrightarrow> r < w" by (simp add: r_def w_def word_less_nat_alt)
  have b: "r < rb_size rb" "w < rb_size rb" using assms(3,4) by (simp_all add: r_def w_def)
  have "unat (word_of_int (int w - int r) :: 16 word) = w - r" if "r < w"
    using that assms(2) b unat_of_int_16[of "int w - int r"] by simp
  moreover have "unat (word_of_int (int (rb_size rb) - (int r - int w)) :: 16 word) = rb_size rb - (r - w)" if "\<not> r < w"
    using that assms(2) b unat_of_int_16[of "int (rb_size rb) - (int r - int w)"] by simp
  ultimately show ?thesis
    unfolding rt_ringbuffer_data_len_def rt_ringbuffer_status_def assms(5) u lt r_def[symmetric] w_def[symmetric]
    using assms(1) by simp
qed

lemma rb_counts:
  assumes "rb_ok rb"
  shows "unat (rt_ringbuffer_data_len rb) = rb_count rb" "rb_count rb \<le> rb_size rb"
    "rt_ringbuffer_space_len rb = int (rb_size rb - rb_count rb)"
    "unat (rb_write_index rb) = (unat (rb_read_index rb) + rb_count rb) mod rb_size rb"
proof -
  note R = rb_okD[OF assms]
  show le: "rb_count rb \<le> rb_size rb" using R by (auto simp: rb_count_def)
  show dl: "unat (rt_ringbuffer_data_len rb) = rb_count rb"
    using R data_len_half[OF _ R(2-4,7)] unfolding rb_count_def
    by (cases "rb_read_index rb = rb_write_index rb"; cases "rb_read_mirror rb = rb_write_mirror rb")
       (auto simp: rt_ringbuffer_data_len_def rt_ringbuffer_status_def rb_size_def word_unat_eq_iff)
  show "rt_ringbuffer_space_len rb = int (rb_size rb - rb_count rb)"
    using le by (simp add: rt_ringbuffer_space_len_def R(7) of_nat_diff flip: dl)
  show "unat (rb_write_index rb) = (unat (rb_read_index rb) + rb_count rb) mod rb_size rb"
    using R by (auto simp: rb_count_def mod_if)
qed

subsection \<open>Copying in and out\<close>

lemma ring_append:
  assumes "\<And>k. k < n \<Longrightarrow> buf' ((i + k) mod sz) = buf ((i + k) mod sz)" "\<And>k. k < length xs \<Longrightarrow> buf' ((i + n + k) mod sz) = xs ! k"
  shows "ring_list buf' i (n + length xs) sz = ring_list buf i n sz @ xs"
  by (rule nth_equalityI) (use assms in \<open>auto simp: ring_list_def nth_append\<close>, metis add.assoc add_diff_cancel_left' le_add_diff_inverse nat_add_left_cancel_less not_le)

lemma ring_take_drop:
  assumes "m \<le> n"
  shows "take m (ring_list buf i n sz) = ring_list buf i m sz" "drop m (ring_list buf i n sz) = ring_list buf ((i + m) mod sz) (n - m) sz"
proof -
  show "take m (ring_list buf i n sz) = ring_list buf i m sz" using assms by (simp add: ring_list_def take_map)
  have "(i + (m + k)) mod sz = ((i + m) mod sz + k) mod sz" for k by (simp add: mod_add_left_eq add.assoc)
  then show "drop m (ring_list buf i n sz) = ring_list buf ((i + m) mod sz) (n - m) sz"
    using assms by (intro nth_equalityI) (auto simp: ring_list_def)
qed

lemma bulk_write:
  fixes sz w :: nat and buf :: "nat \<Rightarrow> 8 word"
  assumes "w < sz" "length xs \<le> sz" "k < sz"
  defines "buf' \<equiv> buf_write 0 (drop (sz - w) xs) (buf_write w (take (sz - w) xs) buf)"
  shows "buf' ((w + k) mod sz) = (if k < length xs then xs ! k else buf ((w + k) mod sz))"
proof (cases "w + k < sz")
  case True
  then show ?thesis using assms by (auto simp: buf_write_def)
next
  case False
  then have "(w + k) mod sz = w + k - sz" using assms(1,3) by (simp add: mod_if)
  then show ?thesis using False assms by (auto simp: buf_write_def not_less)
qed

lemma index_plus:
  fixes i :: "15 word" and len :: rt_uint16_t
  assumes "unat i + unat len < 2 ^ 15"
  shows "unat (i + ucast len) = unat i + unat len"
proof -
  have "unat (ucast len :: 15 word) = unat len" using assms by (simp add: unsigned_ucast_eq take_bit_eq_mod)
  then show ?thesis using assms by (subst unat_add_lem[THEN iffD1]) simp_all
qed

lemma index_over:
  assumes "(sz :: nat) \<le> i + l" "i < sz" "l \<le> sz" "sz < 2 ^ 15"
  shows "unat (word_of_int (int l - (int sz - int i)) :: 15 word) = i + l - sz"
proof -
  define d where "d = int l - (int sz - int i)"
  have d: "0 \<le> d" "d < 2 ^ 15" "nat d = i + l - sz" using assms by (auto simp: d_def)
  then have "uint (word_of_int d :: 15 word) = d" by (simp add: uint_word_of_int take_bit_int_eq_self)
  then show ?thesis using d(3) by (metis nat_uint_eq d_def)
qed

lemma rb_copy_in_eq:
  assumes ok: "rb_ok rb" and len: "unat len \<le> rb_size rb" "unat len \<le> length ptr"
  defines "w \<equiv> unat (rb_write_index rb)" and "sz \<equiv> rb_size rb" and "xs \<equiv> take (unat len) ptr"
  shows "\<exists>i. rb_copy_in ptr len rb = (sz \<le> w + unat len, rb\<lparr>
      rb_buffer := buf_write 0 (drop (sz - w) xs) (buf_write w (take (sz - w) xs) (rb_buffer rb)),
      rb_write_mirror := (if sz \<le> w + unat len then \<not> rb_write_mirror rb else rb_write_mirror rb), rb_write_index := i\<rparr>)
    \<and> unat i = (w + unat len) mod sz"
proof -
  note R = rb_okD[OF ok]
  have b: "w < sz" "sz < 2 ^ 15" using R by (simp_all add: w_def sz_def)
  have u: "uint (rb_write_index rb) = int w" "uint len = int (unat len)" by (simp_all add: w_def)
  define l where "l = unat len"
  show ?thesis
  proof (cases "sz \<le> w + l")
    case False
    have "unat (rb_write_index rb + ucast len) = w + l" using False b index_plus[of "rb_write_index rb" len] by (simp add: w_def l_def)
    moreover have "drop (sz - w) xs = []" "take (sz - w) xs = xs" using False by (simp_all add: xs_def l_def)
    moreover have "buf_write 0 [] f = f" for f by (simp add: buf_write_def)
    ultimately show ?thesis using False b
      by (intro exI[of _ "rb_write_index rb + ucast len"])
         (simp add: rb_copy_in_def Let_def R(7) u w_def[symmetric] sz_def[symmetric] xs_def l_def[symmetric])
  next
    case True
    have "unat (word_of_int (int l - (int sz - int w)) :: 15 word) = w + l - sz"
      using index_over[OF True b(1) _ b(2)] len(1) by (simp add: sz_def l_def)
    moreover have "(w + l) mod sz = w + l - sz" using True b len(1) by (simp add: mod_if sz_def[symmetric] l_def[symmetric])
    moreover have "nat (int sz - int w) = sz - w" "nat (int l - (int sz - int w)) = w + l - sz" using True b by simp_all
    moreover have "take (sz - w) xs = take (sz - w) ptr" "drop (sz - w) xs = take (w + l - sz) (drop (sz - w) ptr)"
      using True b by (simp_all add: xs_def l_def[symmetric] drop_take min_def add.commute)
    ultimately show ?thesis using True b
      by (intro exI[of _ "word_of_int (int l - (int sz - int w))"])
         (simp add: rb_copy_in_def Let_def R(7) u w_def[symmetric] sz_def[symmetric] l_def[symmetric])
  qed
qed

lemma copy_in_items:
  assumes ok: "rb_ok rb" and len: "unat len \<le> rb_size rb - rb_count rb" "unat len \<le> length ptr"
  shows "rb_ok (snd (rb_copy_in ptr len rb)) \<and> rb_items (snd (rb_copy_in ptr len rb)) = rb_items rb @ take (unat len) ptr
    \<and> rb_size (snd (rb_copy_in ptr len rb)) = rb_size rb"
proof -
  note R = rb_okD[OF ok]
  note C = rb_counts[OF ok]
  let ?w = "unat (rb_write_index rb)" and ?r = "unat (rb_read_index rb)" and ?sz = "rb_size rb" and ?n = "rb_count rb"
    and ?l = "unat len" and ?rb = "snd (rb_copy_in ptr len rb)"
  define xs where "xs = take (unat len) ptr"
  let ?buf = "buf_write 0 (drop (?sz - ?w) xs) (buf_write ?w (take (?sz - ?w) xs) (rb_buffer rb))"
  have lsz: "?l \<le> ?sz" using len(1) by simp
  obtain i where i: "?rb = rb\<lparr>rb_buffer := ?buf,
      rb_write_mirror := (if ?sz \<le> ?w + ?l then \<not> rb_write_mirror rb else rb_write_mirror rb), rb_write_index := i\<rparr>"
    "unat i = (?w + ?l) mod ?sz"
    using rb_copy_in_eq[OF ok lsz len(2)] unfolding xs_def by auto
  have sz: "rb_size ?rb = ?sz" by (simp add: i rb_size_def)
  have im: "unat i = (if ?sz \<le> ?w + ?l then ?w + ?l - ?sz else ?w + ?l)" using R(4) lsz i(2) by (simp add: mod_if)
  have ok': "rb_ok ?rb" using R len(1) im unfolding rb_ok_def sz rb_count_def
    by (auto simp: i(1) word_le_nat_alt split: if_splits)
  have cnt: "rb_count ?rb = ?n + ?l" using R len(1) im lsz unfolding rb_count_def sz
    by (auto simp: i(1) split: if_splits)
  have lx: "length xs = ?l" using len(2) by (simp add: xs_def)
  have W: "?buf ((?w + k) mod ?sz) = (if k < ?l then xs ! k else rb_buffer rb ((?w + k) mod ?sz))" if "k < ?sz" for k
    using bulk_write[OF R(4), of xs k "rb_buffer rb"] that lsz lx by simp
  have "ring_list ?buf ?r (?n + length xs) ?sz = ring_list (rb_buffer rb) ?r ?n ?sz @ xs"
  proof (rule ring_append)
    fix k assume k: "k < length xs"
    have "(?r + ?n + k) mod ?sz = (?w + k) mod ?sz" using C(4) by (simp add: mod_add_left_eq)
    then show "?buf ((?r + ?n + k) mod ?sz) = xs ! k" using W[of k] k lx lsz by simp
  next
    fix k assume k: "k < ?n"
    have "(?w + (?sz - ?n + k)) mod ?sz = (?r + ?n + (?sz - ?n + k)) mod ?sz" by (simp add: C(4) mod_add_left_eq)
    also have "\<dots> = (?r + k + ?sz) mod ?sz" using C(2) by (simp add: ac_simps)
    finally have e: "(?w + (?sz - ?n + k)) mod ?sz = (?r + k) mod ?sz" by simp
    have "\<not> ?sz - ?n + k < ?l" "?sz - ?n + k < ?sz" using k len(1) C(2) by auto
    then show "?buf ((?r + k) mod ?sz) = rb_buffer rb ((?r + k) mod ?sz)" using W[of "?sz - ?n + k"] e by simp
  qed
  then have "rb_items ?rb = rb_items rb @ xs" unfolding rb_items_def cnt sz lx by (simp add: i(1))
  then show ?thesis using ok' sz by (simp add: xs_def)
qed

text \<open>Moving the read index on, as \<open>rt_ringbuffer_get\<close> does.\<close>

definition rb_skip :: "rt_uint16_t \<Rightarrow> rt_ringbuffer \<Rightarrow> rt_ringbuffer" where
  "rb_skip len rb =
     (let rest = sint (rb_buffer_size rb) - uint (rb_read_index rb) in
      if rest > uint len then rb\<lparr>rb_read_index := rb_read_index rb + ucast len\<rparr>
      else rb\<lparr>rb_read_mirror := \<not> rb_read_mirror rb, rb_read_index := word_of_int (uint len - rest)\<rparr>)"

lemma rb_skip_eq:
  assumes ok: "rb_ok rb" and len: "unat len \<le> rb_size rb"
  defines "r \<equiv> unat (rb_read_index rb)" and "sz \<equiv> rb_size rb"
  shows "\<exists>i. rb_skip len rb = rb\<lparr>rb_read_mirror := (if sz \<le> r + unat len then \<not> rb_read_mirror rb else rb_read_mirror rb),
      rb_read_index := i\<rparr> \<and> unat i = (r + unat len) mod sz"
proof -
  note R = rb_okD[OF ok]
  define l where "l = unat len"
  have b: "r < sz" "sz < 2 ^ 15" "l \<le> sz" using R len by (simp_all add: r_def sz_def l_def)
  have u: "uint (rb_read_index rb) = int r" "uint len = int l" by (simp_all add: r_def l_def)
  show ?thesis
  proof (cases "sz \<le> r + l")
    case False
    then show ?thesis using b index_plus[of "rb_read_index rb" len]
      by (intro exI[of _ "rb_read_index rb + ucast len"])
         (simp add: rb_skip_def Let_def R(7) u sz_def[symmetric] l_def[symmetric] r_def[symmetric])
  next
    case True
    then show ?thesis using b index_over[of sz r l]
      by (intro exI[of _ "word_of_int (int l - (int sz - int r))"])
         (simp add: rb_skip_def Let_def R(7) u sz_def[symmetric] l_def[symmetric] mod_if)
  qed
qed

lemma skip_items:
  assumes ok: "rb_ok rb" and len: "unat len \<le> rb_count rb"
  shows "rb_ok (rb_skip len rb)" "rb_items (rb_skip len rb) = drop (unat len) (rb_items rb)"
    "rb_count (rb_skip len rb) = rb_count rb - unat len" "rb_size (rb_skip len rb) = rb_size rb"
proof -
  note R = rb_okD[OF ok]
  note C = rb_counts[OF ok]
  let ?r = "unat (rb_read_index rb)" and ?sz = "rb_size rb" and ?l = "unat len" and ?rb = "rb_skip len rb"
  have lsz: "?l \<le> ?sz" using len C(2) by simp
  obtain i where i: "?rb = rb\<lparr>rb_read_mirror := (if ?sz \<le> ?r + ?l then \<not> rb_read_mirror rb else rb_read_mirror rb), rb_read_index := i\<rparr>"
    "unat i = (?r + ?l) mod ?sz"
    using rb_skip_eq[OF ok lsz] by auto
  show sz: "rb_size ?rb = ?sz" by (simp add: i rb_size_def)
  have im: "unat i = (if ?sz \<le> ?r + ?l then ?r + ?l - ?sz else ?r + ?l)" using R(3) lsz i(2) by (simp add: mod_if)
  show "rb_ok ?rb" using R len im unfolding rb_ok_def sz rb_count_def
    by (auto simp: i(1) word_le_nat_alt split: if_splits)
  show cnt: "rb_count ?rb = rb_count rb - ?l" using R len im lsz unfolding rb_count_def sz
    by (auto simp: i(1) split: if_splits)
  show "rb_items ?rb = drop ?l (rb_items rb)"
    unfolding rb_items_def cnt sz ring_take_drop(2)[OF len] by (simp add: i)
qed

text \<open>Putting a block of bytes into a ring buffer appends as many of them as there is room for, in
  order, and says how many.\<close>

theorem rt_ringbuffer_put_correct:
  assumes "rb_ok rb" "unat len \<le> length ptr"
  shows "\<exists>n rb'. rt_ringbuffer_put ptr len rb = (n, rb') \<and> unat n = min (unat len) (rb_size rb - length (rb_items rb))
    \<and> rb_ok rb' \<and> rb_items rb' = rb_items rb @ take (unat n) ptr"
proof -
  note R = rb_okD[OF assms(1)]
  note C = rb_counts[OF assms(1)]
  have n: "length (rb_items rb) = rb_count rb" by (simp add: rb_items_def)
  define sz where "sz = (word_of_int (rt_ringbuffer_space_len rb) :: rt_uint16_t)"
  have sz: "unat sz = rb_size rb - rb_count rb"
    using unat_of_int_16[of "int (rb_size rb - rb_count rb)"] R(2) by (simp add: sz_def C(3) del: of_nat_diff)
  define l where "l = (if sz = 0 then 0 else if sz < len then sz else len)"
  have l: "unat l = min (unat len) (rb_size rb - rb_count rb)"
    using sz by (auto simp: l_def word_less_nat_alt unat_eq_0 not_less)
  have p: "rt_ringbuffer_put ptr len rb = (l, if sz = 0 then rb else snd (rb_copy_in ptr l rb))"
    by (simp add: rt_ringbuffer_put_def Let_def l_def flip: sz_def)
  show ?thesis
  proof (cases "sz = 0")
    case True
    then show ?thesis using p l n assms(1) sz by (auto simp: l_def)
  next
    case False
    then show ?thesis using p l n copy_in_items[OF assms(1), of l ptr] assms(2) by auto
  qed
qed

lemma ringbuffer_get_takes:
  assumes "rb_ok rb"
  shows "\<exists>n rb'. rt_ringbuffer_get len rb = (n, take (unat len) (rb_items rb), rb')
    \<and> unat n = min (unat len) (length (rb_items rb)) \<and> rb_ok rb' \<and> rb_items rb' = drop (unat len) (rb_items rb)"
proof -
  note R = rb_okD[OF assms]
  note C = rb_counts[OF assms]
  have n: "length (rb_items rb) = rb_count rb" by (simp add: rb_items_def)
  define l where "l = (if rt_ringbuffer_data_len rb < len then rt_ringbuffer_data_len rb else len)"
  have l: "unat l = min (unat len) (rb_count rb)" using C(1) by (simp add: l_def word_less_nat_alt)
  show ?thesis
  proof (cases "rt_ringbuffer_data_len rb = 0")
    case True
    then have "rb_count rb = 0" using C(1) by simp
    then have "rb_items rb = []" by (simp add: rb_items_def)
    then show ?thesis using True assms by (simp add: rt_ringbuffer_get_def)
  next
    case False
    let ?buf = "rb_buffer rb"
    define r sz u where "r = unat (rb_read_index rb)" and "sz = rb_size rb" and "u = unat l"
    have lc: "unat l \<le> rb_count rb" "u \<le> sz" "r < sz" using l C(2) R(3) by (simp_all add: u_def sz_def r_def)
    have tk: "take (unat len) (rb_items rb) = ring_list ?buf r u sz"
      using l C(2) by (simp add: rb_items_def r_def sz_def u_def ring_list_def take_map min_def)
    have dr: "drop (unat len) (rb_items rb) = drop (unat l) (rb_items rb)" using l n by (simp add: min_def)
    have ui: "uint (rb_read_index rb) = int r" "uint l = int u" by (simp_all add: u_def r_def)
    have get: "rt_ringbuffer_get len rb =
      (l, if sz \<le> r + u then buf_read r (sz - r) ?buf @ buf_read 0 (r + u - sz) ?buf else buf_read r u ?buf, rb_skip l rb)"
    proof -
      have e: "int sz - int r > int u \<longleftrightarrow> \<not> sz \<le> r + u" "nat (int sz - int r) = sz - r"
        "sz \<le> r + u \<Longrightarrow> nat (int u - (int sz - int r)) = r + u - sz"
        using lc by auto
      show ?thesis using False e
        by (simp add: rt_ringbuffer_get_def Let_def rb_skip_def R(7) ui flip: l_def r_def sz_def u_def)
    qed
    have "(if sz \<le> r + u then buf_read r (sz - r) ?buf @ buf_read 0 (r + u - sz) ?buf else buf_read r u ?buf) = ring_list ?buf r u sz"
      using lc(2,3) by (intro nth_equalityI) (auto simp: buf_read_def ring_list_def nth_append mod_if add.commute)
    then show ?thesis using get skip_items[OF assms lc(1)] tk dr l n by simp
  qed
qed

text \<open>Getting a block of bytes from a ring buffer takes the oldest ones out, as many as asked for and
  present, and leaves the others.\<close>

theorem rt_ringbuffer_get_correct:
  assumes "rb_ok rb"
  shows "\<exists>n rb'. rt_ringbuffer_get len rb = (n, take (unat len) (rb_items rb), rb')
    \<and> unat n = min (unat len) (length (rb_items rb)) \<and> rb_ok rb' \<and> rb_items rb' = drop (unat len) (rb_items rb)"
  using assms by (rule ringbuffer_get_takes)

subsection \<open>Overwriting\<close>

text \<open>On a full buffer a force put is a skip of the oldest bytes followed by a copy.\<close>

lemma put_force_eq:
  assumes "rb_ok rb" "unat len \<le> rb_size rb"
  shows "rt_ringbuffer_put_force ptr len rb = (len, let rb' = snd (rb_copy_in ptr len rb) in
        if rt_ringbuffer_status rb = RT_RINGBUFFER_FULL then
          if fst (rb_copy_in ptr len rb) then rb'\<lparr>rb_read_mirror := \<not> rb_read_mirror rb', rb_read_index := rb_write_index rb'\<rparr>
          else rb'\<lparr>rb_read_index := rb_write_index rb'\<rparr>
        else rb')"
proof -
  have "int (unat len) \<le> int (rb_size rb)" using assms(2) by (simp only: of_nat_le_iff)
  then have "\<not> uint len > sint (rb_buffer_size rb)" by (simp add: rb_okD(7)[OF assms(1)])
  then show ?thesis by (simp add: rt_ringbuffer_put_force_def Let_def split: prod.split)
qed

lemma rb_full:
  "rt_ringbuffer_status rb = RT_RINGBUFFER_FULL \<longleftrightarrow> rb_read_index rb = rb_write_index rb \<and> rb_read_mirror rb \<noteq> rb_write_mirror rb"
  by (simp add: rt_ringbuffer_status_def)

lemma rb_full_count: "rb_ok rb \<Longrightarrow> rt_ringbuffer_status rb = RT_RINGBUFFER_FULL \<longleftrightarrow> rb_count rb = rb_size rb"
  using rb_okD[of rb] by (auto simp: rb_full rb_count_def word_unat_eq_iff)

lemma copy_in_read:
  "rb_copy_in ptr len (rb\<lparr>rb_read_mirror := m\<rparr>)
     = (fst (rb_copy_in ptr len rb), (snd (rb_copy_in ptr len rb))\<lparr>rb_read_mirror := m\<rparr>)"
  "rb_copy_in ptr len (rb\<lparr>rb_read_index := j\<rparr>)
     = (fst (rb_copy_in ptr len rb), (snd (rb_copy_in ptr len rb))\<lparr>rb_read_index := j\<rparr>)"
  by (simp_all add: rb_copy_in_def Let_def)

lemma put_force_full:
  assumes ok: "rb_ok rb" and full: "rt_ringbuffer_status rb = RT_RINGBUFFER_FULL" and len: "unat len \<le> rb_size rb" "unat len \<le> length ptr"
  shows "snd (rt_ringbuffer_put_force ptr len rb) = snd (rb_copy_in ptr len (rb_skip len rb))"
proof -
  note R = rb_okD[OF ok]
  have e: "rb_read_index rb = rb_write_index rb" using full by (simp add: rb_full)
  obtain i where i: "rb_skip len rb = rb\<lparr>rb_read_mirror := (if rb_size rb \<le> unat (rb_read_index rb) + unat len then \<not> rb_read_mirror rb
      else rb_read_mirror rb), rb_read_index := i\<rparr>" "unat i = (unat (rb_read_index rb) + unat len) mod rb_size rb"
    using rb_skip_eq[OF ok len(1)] by auto
  obtain j where j: "fst (rb_copy_in ptr len rb) = (rb_size rb \<le> unat (rb_write_index rb) + unat len)"
    "rb_read_mirror (snd (rb_copy_in ptr len rb)) = rb_read_mirror rb" "rb_write_index (snd (rb_copy_in ptr len rb)) = j"
    "unat j = (unat (rb_write_index rb) + unat len) mod rb_size rb"
    using rb_copy_in_eq[OF ok len] by auto
  have "i = j" using i(2) j(4) e by (simp add: word_unat_eq_iff)
  then show ?thesis using full e i j by (simp add: put_force_eq[OF ok len(1)] Let_def copy_in_read)
qed

text \<open>A force put of bytes for which there is room appends them; on a full buffer it drops exactly as
  many of the oldest bytes as it appends.\<close>

theorem rt_ringbuffer_put_force_correct:
  assumes "rb_ok rb" "unat len \<le> length ptr" "unat len \<le> rb_size rb"
    "unat len \<le> rb_size rb - length (rb_items rb) \<or> rt_ringbuffer_status rb = RT_RINGBUFFER_FULL"
  shows "\<exists>rb'. rt_ringbuffer_put_force ptr len rb = (len, rb') \<and> rb_ok rb'
    \<and> rb_items rb' = drop (length (rb_items rb) + unat len - rb_size rb) (rb_items rb) @ take (unat len) ptr"
proof -
  have n: "length (rb_items rb) = rb_count rb" by (simp add: rb_items_def)
  note F = put_force_eq[OF assms(1,3), of ptr]
  show ?thesis
  proof (cases "rt_ringbuffer_status rb = RT_RINGBUFFER_FULL")
    case True
    then have c: "rb_count rb = rb_size rb" using rb_full_count[OF assms(1)] by simp
    note S = skip_items[OF assms(1), of len, unfolded c, OF assms(3)]
    have "rb_ok (snd (rb_copy_in ptr len (rb_skip len rb)))"
      "rb_items (snd (rb_copy_in ptr len (rb_skip len rb))) = drop (unat len) (rb_items rb) @ take (unat len) ptr"
      using copy_in_items[OF S(1), of len ptr] S assms(2,3) by auto
    then show ?thesis using F put_force_full[OF assms(1) True assms(3,2)] n c by (auto simp: prod_eq_iff)
  next
    case False
    moreover have "rb_count rb + unat len - rb_size rb = 0" using False assms(4) n rb_counts(2)[OF assms(1)] by simp
    ultimately show ?thesis using F copy_in_items[OF assms(1) _ assms(2)] assms(4) n by (simp only: n) simp
  qed
qed

text \<open>A force put of more bytes than there is room for into a buffer that is not yet full overruns
  the read index: the buffer then pretends to hold only the excess, and the invariant is broken.\<close>

theorem rt_ringbuffer_put_force_overruns:
  assumes "rb_ok rb" "unat len \<le> length ptr" "unat len \<le> rb_size rb" "rb_size rb < rb_count rb + unat len"
    "rt_ringbuffer_status rb \<noteq> RT_RINGBUFFER_FULL"
  shows "unat (rt_ringbuffer_data_len (snd (rt_ringbuffer_put_force ptr len rb))) = rb_count rb + unat len - rb_size rb
    \<and> \<not> rb_ok (snd (rt_ringbuffer_put_force ptr len rb))"
proof -
  note R = rb_okD[OF assms(1)]
  define r w sz l where "r = unat (rb_read_index rb)" and "w = unat (rb_write_index rb)" and "sz = rb_size rb" and "l = unat len"
  define rb' where "rb' = snd (rt_ringbuffer_put_force ptr len rb)"
  have "rb' = snd (rb_copy_in ptr len rb)" using put_force_eq[OF assms(1,3), of ptr] assms(5) by (simp add: rb'_def Let_def)
  then obtain i where i: "rb_read_index rb' = rb_read_index rb" "rb_read_mirror rb' = rb_read_mirror rb" "rb_write_index rb' = i"
    "rb_buffer_size rb' = rb_buffer_size rb" "rb_write_mirror rb' = (if sz \<le> w + l then \<not> rb_write_mirror rb else rb_write_mirror rb)"
    "unat i = (w + l) mod sz"
    using rb_copy_in_eq[OF assms(1,3,2)] by (auto simp: w_def sz_def l_def)
  have b: "r < sz" "w < sz" "sz < 2 ^ 15" "l \<le> sz" "sz < rb_count rb + l"
    using R assms(3,4) by (simp_all add: r_def w_def sz_def l_def)
  have iw: "unat i = (if sz \<le> w + l then w + l - sz else w + l)" using b i(6) by (simp add: mod_if)
  have sz': "rb_size rb' = sz" "sint (rb_buffer_size rb') = int sz" using R(7) by (simp_all add: rb_size_def i(4) sz_def)
  have nf: "r = w \<Longrightarrow> rb_read_mirror rb = rb_write_mirror rb" using assms(5) by (auto simp: rb_full word_unat_eq_iff r_def w_def)
  have cnt: "rb_count rb = (if rb_read_mirror rb = rb_write_mirror rb then w - r else sz - (r - w))"
    by (simp add: rb_count_def r_def w_def sz_def)
  have le: "rb_read_mirror rb = rb_write_mirror rb \<Longrightarrow> r \<le> w" "rb_read_mirror rb \<noteq> rb_write_mirror rb \<Longrightarrow> w \<le> r"
    using R(5,6) by (simp_all add: r_def w_def)
  have lt: "w < r" if "rb_read_mirror rb \<noteq> rb_write_mirror rb" using le(2)[OF that] nf that by fastforce
  have ne: "unat i \<noteq> r" using iw b le(1) lt cnt by (cases "rb_read_mirror rb = rb_write_mirror rb") (auto split: if_splits)
  have "unat (rt_ringbuffer_data_len rb') = (if r < unat i then unat i - r else sz - (r - unat i))"
    using data_len_half[of rb'] ne b sz' iw by (simp add: i word_unat_eq_iff r_def split: if_splits)
  also have "\<dots> = rb_count rb + l - sz"
    using iw b le(1) lt cnt by (cases "rb_read_mirror rb = rb_write_mirror rb"; cases "sz \<le> w + l") auto
  finally have dl: "unat (rt_ringbuffer_data_len rb') = rb_count rb + l - sz" .
  have "\<not> rb_ok rb'"
    using iw b le(1) lt cnt ne by (cases "rb_read_mirror rb = rb_write_mirror rb"; cases "sz \<le> w + l")
      (auto simp: rb_ok_def i word_le_nat_alt r_def)
  then show ?thesis using dl by (simp add: rb'_def l_def sz_def)
qed

subsection \<open>Single characters\<close>

lemma rb_store_char_eq:
  assumes "rb_ok rb"
  shows "rb_store_char ch rb = rb_copy_in [ch] 1 rb"
proof -
  note R = rb_okD[OF assms]
  define w where "w = unat (rb_write_index rb)"
  have b: "w < rb_size rb" using R(4) by (simp add: w_def)
  have u: "uint (rb_write_index rb) = int w" by (simp add: w_def)
  have "int w = int (rb_size rb) - 1 \<longleftrightarrow> \<not> int (rb_size rb) - int w > 1" using b by auto
  moreover have "buf_write w [ch] f = f(w := ch)" for f by (auto simp: buf_write_def fun_eq_iff)
  moreover have "buf_write 0 [] f = f" for f by (simp add: buf_write_def)
  moreover have "int w = int (rb_size rb) - 1 \<Longrightarrow> int (rb_size rb) - int w = 1" by simp
  ultimately show ?thesis
    by (cases "int w = int (rb_size rb) - 1")
       (simp_all add: rb_store_char_def rb_copy_in_def Let_def R(7) u w_def[symmetric])
qed

lemma putchar_items:
  assumes "rb_ok rb" "length (rb_items rb) < rb_size rb"
  shows "rt_ringbuffer_putchar ch rb = (1, snd (rb_copy_in [ch] 1 rb))" "rb_ok (snd (rb_copy_in [ch] 1 rb))"
    "rb_items (snd (rb_copy_in [ch] 1 rb)) = rb_items rb @ [ch]" "rb_size (snd (rb_copy_in [ch] 1 rb)) = rb_size rb"
proof -
  have n: "rb_count rb < rb_size rb" using assms(2) by (simp add: rb_items_def)
  then have "rt_ringbuffer_space_len rb \<noteq> 0" by (simp add: rb_counts(3)[OF assms(1)])
  then show "rt_ringbuffer_putchar ch rb = (1, snd (rb_copy_in [ch] 1 rb))"
    by (simp add: rt_ringbuffer_putchar_def rb_store_char_eq[OF assms(1)])
  show "rb_ok (snd (rb_copy_in [ch] 1 rb))" "rb_items (snd (rb_copy_in [ch] 1 rb)) = rb_items rb @ [ch]"
    "rb_size (snd (rb_copy_in [ch] 1 rb)) = rb_size rb"
    using copy_in_items[OF assms(1), of 1 "[ch]"] n by simp_all
qed

lemma getchar_items:
  assumes "rb_ok rb" "rb_items rb \<noteq> []"
  shows "\<exists>rb'. rt_ringbuffer_getchar rb = (1, Some (hd (rb_items rb)), rb') \<and> rb_ok rb' \<and> rb_items rb' = tl (rb_items rb)
    \<and> rb_size rb' = rb_size rb"
proof -
  note R = rb_okD[OF assms(1)]
  note C = rb_counts[OF assms(1)]
  have n: "0 < rb_count rb" using assms(2) by (simp add: rb_items_def)
  define r where "r = unat (rb_read_index rb)"
  have b: "r < rb_size rb" using R(3) by (simp add: r_def)
  have u: "uint (rb_read_index rb) = int r" by (simp add: r_def)
  have "int r = int (rb_size rb) - 1 \<longleftrightarrow> \<not> int (rb_size rb) - int r > 1" using b by auto
  moreover have "int r = int (rb_size rb) - 1 \<Longrightarrow> int (rb_size rb) - int r = 1" by simp
  moreover have "hd (rb_items rb) = rb_buffer rb r" using ring_pop[OF n R(3), of "rb_buffer rb"] by (simp add: rb_items_def r_def)
  moreover have "rt_ringbuffer_data_len rb \<noteq> 0" using C(1) n by auto
  ultimately have "rt_ringbuffer_getchar rb = (1, Some (hd (rb_items rb)), rb_skip 1 rb)"
    by (cases "int r = int (rb_size rb) - 1") (simp_all add: rt_ringbuffer_getchar_def rb_skip_def Let_def R(7) u r_def[symmetric])
  then show ?thesis using skip_items[OF assms(1), of 1] n by (simp add: drop_Suc)
qed

lemma rb_size_put: "rb_size (snd (rt_ringbuffer_putchar ch rb)) = rb_size rb"
  by (simp add: rt_ringbuffer_putchar_def rb_store_char_def Let_def rb_size_def)

definition rb_take_char :: "rt_ringbuffer \<Rightarrow> 8 word \<times> rt_ringbuffer" where
  "rb_take_char rb = (case rt_ringbuffer_getchar rb of (n, c, rb') \<Rightarrow> (case c of Some ch \<Rightarrow> ch | None \<Rightarrow> 0, rb'))"

lemma rb_take_char_size: "rb_size (snd (rb_take_char rb)) = rb_size rb"
  by (simp add: rb_take_char_def rt_ringbuffer_getchar_def rb_size_def)

interpretation ring_fifo: fifo rb_ok rb_items rb_size "\<lambda>ch rb. snd (rt_ringbuffer_putchar ch rb)" rb_take_char
proof
  fix rb ch
  assume ok: "rb_ok rb"
  show "rb_ok (snd (rt_ringbuffer_putchar ch rb))" "rb_items (snd (rt_ringbuffer_putchar ch rb)) = rb_items rb @ [ch]"
    if "length (rb_items rb) < rb_size rb" using putchar_items[OF ok that] by simp_all
  show "rb_ok (snd (rb_take_char rb))" "rb_items rb = fst (rb_take_char rb) # rb_items (snd (rb_take_char rb))"
    if "rb_items rb \<noteq> []" using getchar_items[OF ok that] that by (auto simp: rb_take_char_def)
  show "length (rb_items rb) \<le> rb_size rb" using rb_counts(2)[OF ok] by (simp add: rb_items_def)
qed (rule rb_size_put rb_take_char_size)+

text \<open>The characters that go through a ring buffer come out in the order they went in: after any
  sequence of puts and gets, those delivered followed by those still in the buffer are those that
  were in it followed by those accepted.\<close>

theorem ringbuffer_delivers_in_order:
  assumes "rb_ok rb" "ring_fifo.run ops rb = (ins, outs, rb')"
  shows "rb_ok rb' \<and> rb_items rb @ ins = outs @ rb_items rb'"
  using ring_fifo.run_order[OF assms] by blast

subsection \<open>Witnesses\<close>

text \<open>A buffer of eight bytes with the bytes 6, 7, 0 in it, across the end of the memory.\<close>

definition demo_rb :: rt_ringbuffer where
  "demo_rb = \<lparr>rb_buffer = of_nat, rb_read_mirror = False, rb_read_index = 6, rb_write_mirror = True, rb_write_index = 1,
     rb_buffer_size = 8\<rparr>"

lemma demo_rb_ok: "rb_ok demo_rb" "rb_size demo_rb = 8" "rb_count demo_rb = 3" "rb_items demo_rb = [6, 7, 0]"
  "rt_ringbuffer_status demo_rb = RT_RINGBUFFER_HALFFULL"
  by (simp_all add: demo_rb_def rb_ok_def rb_size_def rb_count_def rb_items_def ring_list_def upt_rec rt_ringbuffer_status_def)

theorem rt_ringbuffer_put_correct_witness:
  "\<exists>n rb'. rt_ringbuffer_put [1, 2, 3, 4, 5, 6, 7] 7 demo_rb = (n, rb') \<and> unat n = 5 \<and> rb_items rb' = [6, 7, 0, 1, 2, 3, 4, 5]"
  using rt_ringbuffer_put_correct[OF demo_rb_ok(1), of 7 "[1, 2, 3, 4, 5, 6, 7]"] by (auto simp: demo_rb_ok)

theorem rt_ringbuffer_get_correct_witness:
  "\<exists>n rb'. rt_ringbuffer_get 2 demo_rb = (n, [6, 7], rb') \<and> rb_items rb' = [0]"
  using rt_ringbuffer_get_correct[OF demo_rb_ok(1), of 2] by (auto simp: demo_rb_ok)

theorem rt_ringbuffer_put_force_correct_witness:
  "\<exists>rb'. rt_ringbuffer_put_force [1, 2] 2 demo_rb = (2, rb') \<and> rb_items rb' = [6, 7, 0, 1, 2]"
  using rt_ringbuffer_put_force_correct[OF demo_rb_ok(1), of 2 "[1, 2]"] by (auto simp: demo_rb_ok)

theorem rt_ringbuffer_put_force_overruns_witness:
  "unat (rt_ringbuffer_data_len (snd (rt_ringbuffer_put_force [1, 2, 3, 4, 5, 6] 6 demo_rb))) = 1"
  using rt_ringbuffer_put_force_overruns[OF demo_rb_ok(1), of 6 "[1, 2, 3, 4, 5, 6]"] by (simp add: demo_rb_ok)

theorem ringbuffer_delivers_in_order_witness:
  "\<exists>ins outs rb'. ring_fifo.run [Put 1, Get, Get, Put 2] demo_rb = (ins, outs, rb') \<and> [6, 7, 0] @ ins = outs @ rb_items rb'"
proof -
  obtain ins outs rb' where r: "ring_fifo.run [Put 1, Get, Get, Put 2] demo_rb = (ins, outs, rb')" by (metis prod_cases3)
  show ?thesis using ringbuffer_delivers_in_order[OF demo_rb_ok(1) r] r demo_rb_ok(4) by auto
qed

end
