(* ===== verification/System.thy ===== *)
theory System
  imports Timeout
begin

text \<open>
  What the steps of a running system do: waiting, waking, yielding, sleeping and the tick interrupt,
  each from a state in which a thread runs and the timers are in order to another such state,
  with what it changes of the threads and of the waiting lists. The state machines of the
  components are built from these steps.
\<close>

text \<open>\<open>live s t\<close>: the thread \<open>t\<close> runs, the active timers are those of sleeping threads, none is overdue.\<close>

definition live :: "'a sched_state_scheme \<Rightarrow> tid \<Rightarrow> bool" where
  "live s t \<longleftrightarrow> running s t \<and> only_thread_timers s \<and> timers_pending s"

lemma liveD:
  assumes "live s t"
  shows "running s t" "only_thread_timers s" "timers_pending s" "kinv s" "rt_current_thread s = Some t"
    "ready s t" "tick_inv s"
  using assms runningD[of s t] by (auto simp: live_def tick_inv_def)

lemma upd_error_live [simp]: "live (upd_thread t (\<lambda>th. th\<lparr>thread_error := e\<rparr>) s) u = live s u"
  by (simp add: live_def)

lemma timers_fewer:
  assumes "only_thread_timers s" "timers_pending s" "set (active_timers s') \<subseteq> set (active_timers s)"
    "timers s' = timers s" "rt_tick s' = rt_tick s"
  shows "only_thread_timers s'" "timers_pending s'"
  using assms by (auto simp: only_thread_timers_def timers_pending_def tkey_def)

context kernel_field
begin

lemma upd_live: "live s t \<Longrightarrow> live (upd_field a f s) t"
  using timers_fewer[of s "upd_field a f s"]
  by (simp add: live_def upd_running active_timers_def upd_rows upd_timers upd_tick)

end

lemma timers_one_more:
  assumes "only_thread_timers s" "timers_pending s"
    and "set (active_timers s') = insert (ThreadTimer t) (set (active_timers s))"
    "\<And>p. p \<noteq> ThreadTimer t \<Longrightarrow> timers s' p = timers s p" "rt_tick s' = rt_tick s"
    "timeout_tick (timers s' (ThreadTimer t)) = rt_tick s + n" "n < RT_TICK_HALF"
  shows "only_thread_timers s'" "timers_pending s'"
proof -
  show "only_thread_timers s'" using assms(1,3) by (auto simp: only_thread_timers_def)
  have "1 \<le> tkey (rt_tick s' - 1) s' p" if p: "p \<in> set (active_timers s')" for p
  proof (cases "p = ThreadTimer t")
    case True
    have "timeout_tick (timers s' p) - (rt_tick s' - 1) = n + 1" using assms(5,6) True by (simp add: algebra_simps)
    then have "tkey (rt_tick s' - 1) s' p = unat (n + 1)" by (simp only: tkey_def)
    moreover have "unat n < 0x7fffffff" using assms(7) by (simp add: word_less_nat_alt)
    ultimately show ?thesis by (simp add: unat_add_small)
  next
    case False
    then show ?thesis using p assms(2-5) by (auto simp: timers_pending_def tkey_def)
  qed
  then show "timers_pending s'" by (simp add: timers_pending_def)
qed

text \<open>\<open>top s\<close>: no ready thread has a higher priority (a smaller number) than the one that runs. It holds
  after every call of the scheduler.\<close>

definition top :: "'a sched_state_scheme \<Rightarrow> bool" where
  "top s \<longleftrightarrow> (\<forall>t v. rt_current_thread s = Some t \<longrightarrow> ready s v \<longrightarrow> current_priority (threads s t) \<le> current_priority (threads s v))"

lemma schedule_top:
  assumes "rt_schedule s = Some s'" "sched_inv s'" "rt_scheduler_lock_nest s' = 0"
  shows "top s'"
proof -
  obtain p c where e: "s' = s\<lparr>rt_current_priority := p, rt_current_thread := c\<rparr>" using rt_schedule_frame[OF assms(1)] by blast
  then have i: "sched_inv s" "rt_scheduler_lock_nest s = 0" using assms(2,3) by (simp_all add: sched_inv_def)
  obtain h u where u: "highest_ready s = Some (h, u)" "rt_current_thread s' = Some u" using rt_schedule_selects[OF i assms(1)] by blast
  show ?thesis using highest_ready_Some[OF i(1) u(1)] u(2) e by (auto simp: top_def ready_def)
qed

lemma running_top: "rt_schedule s = Some s' \<Longrightarrow> running s' u \<Longrightarrow> top s'"
  using schedule_top kinvD(1) runningD(1,5) by blast

lemma wait_top: "ipc_wait l t flag time s = Some s' \<Longrightarrow> running s' u \<Longrightarrow> top s'"
  by (auto simp: ipc_wait_def intro: running_top split: bind_splits)

lemma yield_top: "rt_thread_yield s = Some (r, s') \<Longrightarrow> running s' u \<Longrightarrow> top s \<Longrightarrow> top s'"
  by (auto simp: rt_thread_yield_def Let_def intro: running_top split: bind_splits if_splits)

lemma sleep_top: "rt_thread_sleep n s = Some (Wait b, s') \<Longrightarrow> running s' u \<Longrightarrow> top s'"
  by (auto simp: rt_thread_sleep_def Let_def intro: running_top split: bind_splits if_splits prod.splits)

subsection \<open>Waiting and waking\<close>

lemma live_waits:
  assumes v: "live s t" and i: "ready s i" "i \<noteq> t" and fl: "flag = 0 \<or> flag = 1" and l: "wait_list l"
    and time: "legal_time time" "time \<noteq> 0"
  shows "\<exists>s' u. ipc_wait l t flag time s = Some s' \<and> live s' u \<and> u \<noteq> t \<and> kframe s s'
    \<and> threads s' = (threads s)(t := (threads s t)\<lparr>stat := THREAD_SUSPEND\<rparr>)
    \<and> waits_as s s' l (enqueue (\<lambda>v. current_priority (threads s v)) flag t (tlists s l))"
proof -
  note V = liveD[OF v] and D = runningD[OF liveD(1)[OF v]]
  let ?q = "enqueue (\<lambda>v. current_priority (threads s v)) flag t (tlists s l)"
  have q: "queued t (tlists s l) ?q"
    using waiting_distinct[OF D(1)] ready_not_waiting[OF D(1,4) l] by (intro queued_enqueue) auto
  obtain s1 s' u where s1: "start_wait_timer t time (suspended_on l t ?q s) = Some s1" "rt_schedule s1 = Some s'"
    and s': "kinv s'" "kframe s s'" "threads s' = (threads s)(t := (threads s t)\<lparr>stat := THREAD_SUSPEND\<rparr>)"
      "waits_as s s' l ?q" "rt_current_thread s' = Some u" "u \<noteq> t" "running s' u"
    using wait_switches[OF V(1) i l q time(1)] by blast
  obtain pr c where f: "s' = s1\<lparr>rt_current_priority := pr, rt_current_thread := c\<rparr>"
    using rt_schedule_frame[OF s1(2)] by blast
  have "only_thread_timers s1 \<and> timers_pending s1"
  proof (cases "0 < sint time")
    case True
    then have n: "0 < time" "time < RT_TICK_HALF" using time by (auto simp: legal_time_def word_gt_0)
    note T = timer_started[OF D(1,4) l q n s1(1)]
    show ?thesis using timers_one_more[OF V(2,3) T(1,2,3,4) n(2)] by blast
  next
    case False
    then have "s1 = suspended_on l t ?q s" using s1(1) by (simp add: start_wait_timer_def)
    then have "active_timers s1 = active_timers s" "timers s1 = timers s" "rt_tick s1 = rt_tick s"
      by (simp_all add: suspended_on_def)
    then show ?thesis using timers_fewer[OF V(2,3), of s1] by simp
  qed
  then have "only_thread_timers s'" "timers_pending s'" using timers_fewer[of s1 s'] by (simp_all add: f)
  then have "live s' u" using s'(7) by (simp add: live_def)
  moreover have "ipc_wait l t flag time s = Some s'"
    using s1 by (simp add: ipc_wait_def ipc_list_suspend_on[OF D(1,4) fl l])
  ultimately show ?thesis using s' by blast
qed

lemma resume_timers:
  assumes "kinv s" "only_thread_timers s" "timers_pending s"
  shows "only_thread_timers (snd (rt_thread_resume t s))" "timers_pending (snd (rt_thread_resume t s))"
proof -
  let ?s = "snd (rt_thread_resume t s)"
  have "timers ?s = timers s" "rt_tick ?s = rt_tick s"
    by (simp_all add: rt_thread_resume_def Let_def insert_thread_eq rt_timer_stop_def rt_timer_remove_def upd_obj_def upd_tlists_def)
  moreover have "active_timers (rt_timer_remove p (s\<lparr>tlists := L\<rparr>)) = removeAll p (active_timers s)" for p L
    using active_remove[OF kinvD(2)[OF assms(1)], of p] by (simp add: rt_timer_remove_def active_timers_def)
  then have "set (active_timers ?s) \<subseteq> set (active_timers s)"
    by (auto simp: rt_thread_resume_def Let_def insert_thread_eq rt_timer_stop_def upd_obj_def upd_tlists_def)
  ultimately show "only_thread_timers ?s" "timers_pending ?s" using timers_fewer[OF assms(2,3)] by blast+
qed


lemma live_wakes:
  assumes v: "live s t" and l: "wait_list l" and q: "tlists s l = w # ws"
  shows "\<exists>s1 s' u. rt_ipc_list_resume l s = Some s1 \<and> rt_schedule s1 = Some s' \<and> live s' u \<and> kframe s s'
    \<and> threads s' = (threads s)(w := (threads s w)\<lparr>stat := THREAD_READY\<rparr>) \<and> waits_as s s' l ws"
proof -
  note V = liveD[OF v] and D = runningD[OF liveD(1)[OF v]]
  obtain s1 where s1: "rt_ipc_list_resume l s = Some s1" "kinv s1" "kframe s s1"
    "threads s1 = (threads s)(w := (threads s w)\<lparr>stat := THREAD_READY\<rparr>)" "tlists s1 l = ws"
    "\<forall>m. wait_list m \<and> m \<noteq> l \<longrightarrow> tlists s1 m = tlists s m" "rt_current_thread s1 = Some t"
    using ipc_list_resume_ok[OF V(4) l q] V(5) by auto
  have r1: "running s1 t" using V(6) s1 by (intro running_kframe[OF V(1)]) (auto simp: ready_def)
  have t1: "only_thread_timers s1" "timers_pending s1"
    using s1(1) q resume_timers[OF V(4,2,3)] by (auto simp: rt_ipc_list_resume_def)
  obtain s' u where s': "rt_schedule s1 = Some s'" "kframe s1 s'" "threads s' = threads s1" "tlists s' = tlists s1" "running s' u"
    using running_schedule[OF r1] by blast
  have "only_thread_timers s'" "timers_pending s'"
    using rt_schedule_frame[OF s'(1)] timers_fewer[OF t1, of s'] by auto
  moreover have "waits_as s s' l ws" using s'(4) s1(5,6) by (simp add: waits_as_def)
  ultimately show ?thesis using s1(1,4) s'(1,3,5) kframe_trans[OF s1(3) s'(2)] by (auto simp: live_def)
qed

subsection \<open>Yielding and sleeping\<close>

lemma running_yields:
  assumes r: "running s t"
  shows "\<exists>s' u. rt_thread_yield s = Some (RT_EOK, s') \<and> running s' u \<and> kframe s s' \<and> threads s' = threads s
    \<and> (\<forall>m. wait_list m \<longrightarrow> tlists s' m = tlists s m) \<and> active_timers s' = active_timers s \<and> timers s' = timers s
    \<and> objs s' = objs s"
proof -
  note D = runningD[OF r]
  let ?q = "Ready (current_priority (threads s t))"
  show ?thesis
  proof (cases "length (tlists s ?q) \<ge> 2")
    case True
    define s1 where "s1 = upd_tlists (\<lambda>L. list_push_back ?q t (list_unlink t L)) s"
    have k1: "kinv s1" unfolding s1_def by (rule yield_requeue_kinv[OF D(1,4)])
    have s1: "threads s1 = threads s" "rt_current_thread s1 = Some t" "kframe s s1"
      "timers s1 = timers s" "active_timers s1 = active_timers s" "objs s1 = objs s"
      using D(2) by (simp_all add: s1_def upd_tlists_def kframe_upd)
    have r1: "running s1 t" using running_kframe[OF r k1 s1(3)] s1(1,2) D(3) by (simp add: ready_def)
    obtain s' u where s': "rt_schedule s1 = Some s'" "kframe s1 s'" "threads s' = threads s1" "tlists s' = tlists s1" "running s' u"
      using running_schedule[OF r1] by blast
    have "active_timers s' = active_timers s" "timers s' = timers s" "objs s' = objs s"
      using rt_schedule_frame[OF s'(1)] s1(4-6) by auto
    moreover have "rt_thread_yield s = Some (RT_EOK, s')"
      using True D(2,4) s'(1) by (simp add: rt_thread_yield_def Let_def s1_def)
    moreover have "tlists s' m = tlists s m" if "wait_list m" for m
      using ready_not_waiting[OF D(1,4) that] that
      by (cases m) (auto simp: s'(4) s1_def upd_tlists_def list_push_back_def list_unlink_def)
    ultimately show ?thesis using s'(3,5) s1(1) kframe_trans[OF s1(3) s'(2)] by (intro exI[of _ s'] exI[of _ u]) simp
  next
    case False
    then have "rt_thread_yield s = Some (RT_EOK, s)" using D(2) by (auto simp: rt_thread_yield_def Let_def)
    then show ?thesis using r kframe_refl by blast
  qed
qed

lemma live_yields:
  assumes v: "live s t"
  shows "\<exists>s' u. rt_thread_yield s = Some (RT_EOK, s') \<and> live s' u \<and> kframe s s' \<and> threads s' = threads s
    \<and> (\<forall>m. wait_list m \<longrightarrow> tlists s' m = tlists s m)"
proof -
  obtain s' u where s': "rt_thread_yield s = Some (RT_EOK, s')" "running s' u" "kframe s s'" "threads s' = threads s"
    "\<forall>m. wait_list m \<longrightarrow> tlists s' m = tlists s m" "active_timers s' = active_timers s" "timers s' = timers s"
    using running_yields[OF liveD(1)[OF v]] by blast
  then show ?thesis using timers_fewer[OF liveD(2,3)[OF v], of s'] kframeD(1)[OF s'(3)] by (auto simp: live_def)
qed

lemma sleep_kframe: "rt_thread_sleep n s = Some (r, s') \<Longrightarrow> kframe s s'"
proof -
  assume "rt_thread_sleep n s = Some (r, s')"
  then obtain t r1 s1 s2 where c: "rt_timer_start (ThreadTimer t) (snd (rt_timer_control (ThreadTimer t) 0 n (snd (rt_thread_suspend t s)))) = Some (r1, s1)"
    "rt_schedule s1 = Some s2" "s' = s2 \<or> s' = snd (rt_thread_sleep_end t s2)"
    by (auto simp: rt_thread_sleep_def Let_def split: bind_splits if_splits prod.splits)
  have "kframe s2 s'" using c(3) by (auto simp: rt_thread_sleep_end_def)
  then show "kframe s s'"
    using suspend_kframe timer_control_kframe timer_start_kframe[OF c(1)] rt_schedule_kframe[OF c(2)] kframe_trans by meson
qed

lemma live_sleeps:
  assumes v: "live s t" and i: "ready s i" "i \<noteq> t" and n: "n < RT_TICK_HALF"
  shows "\<exists>s' u. rt_thread_sleep n s = Some (Wait t, s') \<and> live s' u \<and> kframe s s'
    \<and> threads s' = (threads s)(t := (threads s t)\<lparr>stat := THREAD_SUSPEND\<rparr>)
    \<and> (\<forall>m. wait_list m \<longrightarrow> tlists s' m = tlists s m)"
proof -
  note V = liveD[OF v] and D = runningD[OF liveD(1)[OF v]]
  obtain s1 where k1: "kinv s1" and sl: "rt_thread_sleep n s
      = do { s \<leftarrow> rt_schedule s1;
             Some (if rt_current_thread s = Some t
                   then (let (r, s) = rt_thread_sleep_end t s in (Ret r, s)) else (Wait t, s)) }"
    and th: "threads s1 = (threads s)(t := (threads s t)\<lparr>stat := THREAD_SUSPEND\<rparr>)"
      "tlists s1 = list_unlink t (tlists s)"
    and f: "rt_current_thread s1 = Some t" "rt_scheduler_lock_nest s1 = 0"
    and tm: "set (active_timers s1) = insert (ThreadTimer t) (set (active_timers s))"
      "\<forall>p. p \<noteq> ThreadTimer t \<longrightarrow> timers s1 p = timers s p" "rt_tick s1 = rt_tick s"
      "timeout_tick (timers s1 (ThreadTimer t)) = rt_tick s + n"
    using rt_thread_sleep_ok[OF V(4,5) D(4) n] V(5) D(5) by auto
  have st: "\<forall>u. stack_ok (threads s1 u)" using D(7) by (simp add: th stack_ok_def)
  have ri: "ready s1 i" "\<not> ready s1 t" using i by (simp_all add: ready_def th)
  obtain s' where s': "rt_schedule s1 = Some s'"
    using rt_schedule_returns[OF kinvD(1)[OF k1] ri(1)] f st by auto
  obtain h u where u: "highest_ready s1 = Some (h, u)" "rt_current_thread s' = Some u"
    using rt_schedule_selects[OF kinvD(1)[OF k1] f(2) s'] by blast
  have ru: "ready s1 u" using highest_ready_Some(3)[OF kinvD(1)[OF k1] u(1)] .
  then have "u \<noteq> t" using ri(2) by blast
  then have sleeps: "rt_thread_sleep n s = Some (Wait t, s')" using sl s' u(2) by simp
  have fr: "kframe s s'" using sleep_kframe[OF sleeps] .
  obtain q c where e: "s' = s1\<lparr>rt_current_priority := q, rt_current_thread := c\<rparr>"
    using rt_schedule_frame[OF s'] by blast
  have "only_thread_timers s1" "timers_pending s1"
    using timers_one_more[OF V(2,3) tm(1) _ tm(3,4) n] tm(2) by blast+
  then have "only_thread_timers s'" "timers_pending s'" using timers_fewer[of s1 s'] by (simp_all add: e)
  moreover have "running s' u"
    using rt_schedule_kinv[OF k1 s'] u(2) ru st kframeD(2,3)[OF fr] D(5,6) by (simp add: running_def ready_def e)
  moreover have "tlists s' m = tlists s m" if "wait_list m" for m
    using ready_not_waiting[OF V(4) D(4) that] by (simp add: e th list_unlink_def)
  ultimately show ?thesis using sleeps fr th(1) by (auto simp: live_def e)
qed


subsection \<open>The tick interrupt\<close>

text \<open>The threads \<open>W\<close>, suspended before, are ready with a timeout error and wait for nothing any more;
  the other threads are as they were.\<close>

definition timed_out :: "tid set \<Rightarrow> 'a sched_state_scheme \<Rightarrow> 'a sched_state_scheme \<Rightarrow> bool" where
  "timed_out W s s' \<longleftrightarrow> (\<forall>v. threads s' v = (if v \<in> W then (threads s v)\<lparr>thread_error := - RT_ETIMEOUT, stat := THREAD_READY\<rparr>
       else threads s v)) \<and> (\<forall>m. wait_list m \<longrightarrow> tlists s' m = filter (\<lambda>v. v \<notin> W) (tlists s m))
     \<and> (\<forall>v \<in> W. stat (threads s v) = THREAD_SUSPEND)"

lemma fire_times_out:
  assumes inv: "tick_inv s" and r: "running s c" and a: "active_timers s = p # ts" and f: "timer_fire (call_timeout user) p s = Some s'"
  shows "\<exists>t d. p = ThreadTimer t \<and> kframe s s' \<and> running s' d \<and> top s' \<and> timed_out {t} s s'"
proof -
  obtain t where t: "p = ThreadTimer t" "tick_inv s'"
    "threads s' = (threads s)(t := (threads s t)\<lparr>thread_error := - RT_ETIMEOUT, stat := THREAD_READY\<rparr>)"
    using thread_timer_fire[OF inv a, of user] f by auto
  note D = runningD[OF r]
  have sus: "stat (threads s t) = THREAD_SUSPEND" using kinvD(8)[OF D(1), of t] a t(1) by simp
  have tm: "thread_timer_ok s t" using kinvD(6)[OF D(1), of t] sus by simp
  define s1 where "s1 = rt_schedule_insert_thread t (upd_tlists (list_unlink t)
    (upd_thread t (\<lambda>th. th\<lparr>thread_error := - RT_ETIMEOUT\<rparr>) (rt_timer_remove p s)))"
  have "timer_fire (call_timeout user) p s = Option.bind (rt_schedule s1) (\<lambda>B. Some (timer_off p B))"
    using tm sus t(1) rt_schedule_frame[of s1]
    by (cases "rt_schedule s1") (auto simp: timer_fire_def call_timeout_def timer_of_thread_def Let_def rt_thread_timeout_def RT_ASSERT_def
      rt_timer_remove_def s1_def upd_thread_def upd_tlists_def insert_thread_eq)
  then obtain B where B: "rt_schedule s1 = Some B" "s' = timer_off p B" using f by (auto split: bind_splits)
  obtain q d where e: "B = s1\<lparr>rt_current_priority := q, rt_current_thread := d\<rparr>" using rt_schedule_frame[OF B(1)] by blast
  have fr: "kframe s s1"
    by (simp add: s1_def insert_thread_eq upd_thread_def upd_tlists_def rt_timer_remove_def kframe_upd)
  then have "kframe s B" by (simp add: e kframe_upd)
  then have f': "kframe s s'" unfolding B(2) t(1) upd_obj_def by (rule kframe_upd(5))
  have "sched_inv s'" using t(2) kinvD(1) by (auto simp: tick_inv_def)
  then have inv1: "sched_inv s1" by (simp add: B(2) e sched_inv_def upd_obj_def)
  obtain h u where u: "highest_ready s1 = Some (h, u)" "rt_current_thread B = Some u"
    using rt_schedule_selects[OF inv1 _ B(1)] kframeD(2)[OF fr] D(5) by auto
  have ru: "ready s1 u" using highest_ready_Some(3)[OF inv1 u(1)] .
  have "running s' u" using t(2) u(2) ru kframeD(2,3)[OF f'] D(5,6)
    by (simp add: running_def tick_inv_def B(2) ready_def e upd_obj_def)
  moreover have "timed_out {t} s s'" unfolding timed_out_def
    using t(3) sus by (auto simp: B(2) e s1_def insert_thread_eq upd_obj_def upd_thread_def upd_tlists_def rt_timer_remove_def
      list_push_back_def list_unlink_def removeAll_filter_not_eq wait_list_def split: lhead.splits intro!: filter_cong)
  moreover have "top B" using B(1) inv1 kframeD(2)[OF \<open>kframe s B\<close>] D(5) by (intro schedule_top) (simp_all add: e sched_inv_def)
  then have "top s'" by (simp add: B(2) top_def ready_def upd_obj_def)
  ultimately show ?thesis using t(1) f' by blast
qed

lemma timed_out_insert: "timed_out W s u \<Longrightarrow> timed_out {t} u u' \<Longrightarrow> timed_out (insert t W) s u'"
  unfolding timed_out_def by (auto intro!: filter_cong split: if_splits)

lemma check_times_out:
  assumes inv: "tick_inv s" and r: "running s c"
  shows "\<exists>s' d W. rt_timer_check (call_timeout user) s = Some s' \<and> live s' d \<and> kframe s s' \<and> timed_out W s s' \<and> (top s \<longrightarrow> top s')"
proof -
  let ?Q = "\<lambda>u. \<exists>d W. running u d \<and> kframe s u \<and> timed_out W s u \<and> (top s \<longrightarrow> top u)"
  have "timed_out {} s s" by (simp add: timed_out_def)
  then have Q0: "?Q s" using r kframe_refl by blast
  have step: "?Q u'" if u: "tick_inv u" "?Q u" "active_timers u = p # ts" "expired u p"
    "timer_fire (call_timeout user) p u = Some u'" for u p ts u'
    using u(2) fire_times_out[OF u(1) _ u(3,5)] by (meson kframe_trans timed_out_insert)
  have "\<exists>s'. timer_check_loop (call_timeout user) (rt_tick s) s = Some s' \<and> ?Q s'"
    by (rule thread_timer_check.check_loop_rel[of s ?Q user, OF inv Q0]) (rule step)
  then obtain s' where s': "timer_check_loop (call_timeout user) (rt_tick s) s = Some s'" "?Q s'" by blast
  have "tick_inv s'" "timers_pending s'"
    using thread_timer_check.check_loop_returns[OF inv, of user] s'(1) by auto
  then show ?thesis using s' by (auto simp: rt_timer_check_def rt_tick_get_def live_def tick_inv_def)
qed

lemma live_ticks:
  assumes v: "live s t"
  shows "\<exists>s1 s' u W. rt_tick_increase user s = Some s' \<and> live s' u \<and> kframe (s\<lparr>rt_tick := rt_tick s + 1\<rparr>) s' \<and> timed_out W s1 s' \<and> (top s \<longrightarrow> top s')
    \<and> (\<forall>m. wait_list m \<longrightarrow> tlists s1 m = tlists s m)
    \<and> (\<exists>r. threads s1 = (threads s)(t := (threads s t)\<lparr>remaining_tick := r\<rparr>))"
proof -
  note V = liveD[OF v] and D = runningD[OF liveD(1)[OF v]]
  define s2 where "s2 = s\<lparr>rt_tick := rt_tick s + 1\<rparr>"
  define s0 where "s0 = upd_thread t (\<lambda>th. th\<lparr>remaining_tick := remaining_tick th - 1\<rparr>) (s\<lparr>rt_tick := rt_tick s + 1\<rparr>)"
  define y where "y = upd_thread t (\<lambda>th. th\<lparr>remaining_tick := thread_init_tick th\<rparr>) s0"
  have kupd: "kinv (upd_thread t f u)" if "kinv u" "\<And>th. stat (f th) = stat th"
    "\<And>th. current_priority (f th) = current_priority th" "\<And>th. number_mask (f th) = number_mask th"
    for f and u :: "'a sched_state_scheme"
    using that by (intro kinv_cong[OF that(1)]) (auto simp: upd_thread_def)
  have "kinv s2" using V(4) timer_inv_tick[OF kinvD(2)[OF V(4)] V(3)]
    by (auto simp: kinv_def sched_inv_def thread_timers_def s2_def)
  then have k: "kinv s0" "kinv y" by (auto simp: s0_def y_def simp flip: s2_def intro!: kupd)
  have f: "kframe s2 s0" "kframe s2 y" by (simp_all add: s0_def y_def upd_thread_def kframe_upd flip: s2_def)
  have r: "running s0 t" "running y t"
    using k D by (auto simp: running_def s0_def y_def s2_def upd_thread_def ready_def stack_ok_def)
  obtain z d where z: "rt_thread_yield y = Some (RT_EOK, z)" "running z d" "kframe y z" "threads z = threads y"
    "\<forall>m. wait_list m \<longrightarrow> tlists z m = tlists y m" "active_timers z = active_timers y"
    using running_yields[OF r(2)] by blast
  define s1 where "s1 = (if remaining_tick (threads s t) = 1 then z else s0)"
  have tick: "rt_tick_increase user s = rt_timer_check (call_timeout user) s1"
    using V(5) z(1) by (simp add: rt_tick_increase_def rt_thread_self_def s1_def flip: s0_def y_def)
  obtain c where c: "running s1 c" using r(1) z(2) by (cases "remaining_tick (threads s t) = 1") (auto simp: s1_def)
  have A: "active_timers s1 = active_timers s"
    using z(6) by (simp add: s1_def s0_def y_def s2_def upd_thread_def)
  have "tick_inv s1" using runningD[OF c] V(2) A by (simp add: tick_inv_def only_thread_timers_def)
  then obtain s' u W where s': "rt_timer_check (call_timeout user) s1 = Some s'" "live s' u" "kframe s1 s'" "timed_out W s1 s'"
    "top s1 \<longrightarrow> top s'"
    using check_times_out[OF _ c] by blast
  have "kframe s2 s1" using f kframe_trans[OF f(2) z(3)] by (simp add: s1_def)
  then have "kframe s2 s'" using s'(3) kframe_trans by blast
  moreover have "\<forall>m. wait_list m \<longrightarrow> tlists s1 m = tlists s m" using z(5) by (simp add: s1_def s0_def y_def s2_def upd_thread_def)
  moreover have "\<exists>r. threads s1 = (threads s)(t := (threads s t)\<lparr>remaining_tick := r\<rparr>)"
    using z(4) by (auto simp: s1_def s0_def y_def s2_def upd_thread_def)
  moreover have "top s1" if "top s"
  proof -
    have "top s0" "top y" using that by (auto simp: top_def s0_def y_def s2_def upd_thread_def ready_def)
    then show ?thesis using yield_top[OF z(1,2)] by (simp add: s1_def)
  qed
  ultimately show ?thesis using tick s' unfolding s2_def by auto
qed

end
