(* ===== verification/SemSystem.thy ===== *)
theory SemSystem
  imports System "HOL-Library.Multiset"
begin

text \<open>
  Threads that share a semaphore, as a state machine: every interleaving of takes with and without
  waiting, releases, yields, sleeps and tick interrupts (with the time-outs they cause). The
  configuration is the kernel state with two records of what happened at the interface of
  \<^verbatim>\<open>rt_sem_take\<close>: the threads that got a permit and have not released it (with repetition), and
  the threads that are inside a call that went to sleep. A thread releases what it holds, as a
  lock is used; the idle thread neither takes nor sleeps.
\<close>

subsection \<open>The steps\<close>

record 'a sem_config =
  kern :: "'a sem_state_scheme"
  holders :: "tid multiset"
  callers :: "tid set"

inductive sem_step :: "(nat \<Rightarrow> nat \<Rightarrow> 'a sem_state_scheme \<Rightarrow> 'a sem_state_scheme option) \<Rightarrow> nat \<Rightarrow> tid
    \<Rightarrow> 'a sem_config \<Rightarrow> 'a sem_config \<Rightarrow> bool" for user sem idle where
  take: "sem_step user sem idle c (c\<lparr>kern := s', holders := (if r = RT_EOK then add_mset t (holders c) else holders c)\<rparr>)"
    if "rt_current_thread (kern c) = Some t" "t \<notin> callers c" "t \<noteq> idle" "legal_time time"
      "rt_sem_take sem time (kern c) = Some (Ret r, s')"
| block: "sem_step user sem idle c (c\<lparr>kern := s', callers := insert b (callers c)\<rparr>)"
    if "rt_current_thread (kern c) = Some t" "t \<notin> callers c" "t \<noteq> idle" "legal_time time"
      "rt_sem_take sem time (kern c) = Some (Wait b, s')"
| return: "sem_step user sem idle c (c\<lparr>holders := (if rt_sem_take_end t (kern c) = RT_EOK then add_mset t (holders c) else holders c),
      callers := callers c - {t}\<rparr>)"
    if "rt_current_thread (kern c) = Some t" "t \<in> callers c"
| release: "sem_step user sem idle c (c\<lparr>kern := s', holders := holders c - {#t#}\<rparr>)"
    if "rt_current_thread (kern c) = Some t" "t \<notin> callers c" "t \<in># holders c" "rt_sem_release sem (kern c) = Some (r, s')"
| yield: "sem_step user sem idle c (c\<lparr>kern := s'\<rparr>)"
    if "rt_current_thread (kern c) = Some t" "t \<notin> callers c" "rt_thread_yield (kern c) = Some (r, s')"
| sleep: "sem_step user sem idle c (c\<lparr>kern := s'\<rparr>)"
    if "rt_current_thread (kern c) = Some t" "t \<notin> callers c" "t \<noteq> idle" "n < RT_TICK_HALF"
      "rt_thread_sleep n (kern c) = Some (w, s')"
| wake: "sem_step user sem idle c (c\<lparr>kern := snd (rt_thread_sleep_end t (kern c))\<rparr>)"
    if "rt_current_thread (kern c) = Some t" "t \<notin> callers c"
| tick: "sem_step user sem idle c (c\<lparr>kern := s'\<rparr>)" if "rt_tick_increase user (kern c) = Some s'"

inductive_cases sem_stepE: "sem_step user sem idle c c'"

subsection \<open>The invariant\<close>

text \<open>
  Threads that were given a permit while asleep and have not run since; and the invariant: some
  thread runs and the timers are in order, the threads that wait are inside a call and will find
  no error, and the permits are all accounted for.
\<close>

definition granted :: "'a sem_config \<Rightarrow> tid set" where
  "granted c = {v \<in> callers c. ready (kern c) v \<and> thread_error (threads (kern c) v) = RT_EOK}"

definition sem_sys_inv :: "nat \<Rightarrow> tid \<Rightarrow> nat \<Rightarrow> 'a sem_config \<Rightarrow> bool" where
  "sem_sys_inv sem idle n c \<longleftrightarrow> (\<exists>t. live (kern c) t) \<and> ready (kern c) idle \<and> idle \<notin> callers c
     \<and> sem_ok (kern c) sem \<and> finite (callers c) \<and> n < 2 ^ 16
     \<and> (\<forall>v \<in> set (tlists (kern c) (Suspend sem)). v \<in> callers c \<and> thread_error (threads (kern c) v) = RT_EOK)
     \<and> unat (sems (kern c) sem) + size (holders c) + card (granted c) = n"

lemma sem_sys_invD:
  assumes "sem_sys_inv sem idle n c"
  shows "\<exists>t. live (kern c) t" "ready (kern c) idle" "idle \<notin> callers c" "sem_ok (kern c) sem" "finite (callers c)" "n < 2 ^ 16"
    "v \<in> set (tlists (kern c) (Suspend sem)) \<Longrightarrow> v \<in> callers c \<and> thread_error (threads (kern c) v) = RT_EOK"
    "unat (sems (kern c) sem) + size (holders c) + card (granted c) = n"
  using assms by (auto simp: sem_sys_inv_def)

lemma sem_sys_live: "sem_sys_inv sem idle n c \<Longrightarrow> rt_current_thread (kern c) = Some t \<Longrightarrow> live (kern c) t"
  using sem_sys_invD(1) liveD(5) by fastforce

text \<open>What a step has to keep when it leaves the semaphore and the callers alone.\<close>

lemma sem_sys_inv_frame:
  assumes i: "sem_sys_inv sem idle n c" and v: "live s' u" and r: "ready s' idle"
    and q: "set (tlists s' (Suspend sem)) \<subseteq> set (tlists (kern c) (Suspend sem))"
    and k: "sems s' sem = sems (kern c) sem" "objs s' (At sem) = objs (kern c) (At sem)"
    and e: "\<And>v. v \<in> set (tlists s' (Suspend sem)) \<Longrightarrow> thread_error (threads s' v) = thread_error (threads (kern c) v)"
    and g: "\<And>v. v \<in> callers c \<Longrightarrow> ready s' v \<and> thread_error (threads s' v) = RT_EOK
      \<longleftrightarrow> ready (kern c) v \<and> thread_error (threads (kern c) v) = RT_EOK"
  shows "sem_sys_inv sem idle n (c\<lparr>kern := s'\<rparr>)"
proof -
  have "granted (c\<lparr>kern := s'\<rparr>) = granted c" using g by (auto simp: granted_def)
  moreover have "sem_ok s' sem" using sem_sys_invD(4)[OF i] q k by (auto simp: sem_ok_def)
  ultimately show ?thesis using i v r k q e unfolding sem_sys_inv_def by auto
qed

subsection \<open>Every step keeps it\<close>

lemma sem_take_cases:
  assumes v: "live s t" and i: "ready s i" "i \<noteq> t" and ok: "sem_ok s sem" and time: "legal_time time"
  shows "\<exists>r s'. rt_sem_take sem time s = Some (r, s') \<and> ((r = Ret RT_EOK \<and> 0 < sems s sem \<and> s' = upd_sem sem (\<lambda>v. v - 1) s)
    \<or> (r = Ret (- RT_ETIMEOUT) \<and> s' = s)
    \<or> (\<exists>u. r = Wait t \<and> sems s sem = 0 \<and> live s' u \<and> kframe s s'
        \<and> threads s' = (threads s)(t := (threads s t)\<lparr>thread_error := RT_EOK, stat := THREAD_SUSPEND\<rparr>)
        \<and> set (tlists s' (Suspend sem)) = insert t (set (tlists s (Suspend sem)))))"
proof (cases "sems s sem > 0 \<or> time = 0")
  case True
  then show ?thesis by (auto simp: rt_sem_take_def)
next
  case False
  let ?flag = "o_flag (objs s (At sem))"
  define s1 where "s1 = upd_thread t (\<lambda>th. th\<lparr>thread_error := RT_EOK\<rparr>) s"
  have s1: "live s1 t" "ready s1 i" "kframe s s1" "objs s1 = objs s" "tlists s1 = tlists s"
    "threads s1 = (threads s)(t := (threads s t)\<lparr>thread_error := RT_EOK\<rparr>)"
    using v i by (simp_all add: s1_def ready_def)
  obtain s2 u where s2: "ipc_wait (Suspend sem) t ?flag time s1 = Some s2" "live s2 u" "u \<noteq> t" "kframe s1 s2"
    "threads s2 = (threads s1)(t := (threads s1 t)\<lparr>stat := THREAD_SUSPEND\<rparr>)"
    "waits_as s1 s2 (Suspend sem) (enqueue (\<lambda>v. current_priority (threads s1 v)) ?flag t (tlists s1 (Suspend sem)))"
    using live_waits[OF s1(1,2) i(2) _ _ time, of ?flag "Suspend sem"] ok False by (auto simp: sem_ok_def)
  note D = runningD[OF liveD(1)[OF v]]
  have "rt_sem_take sem time s = Some (Wait t, s2)"
    using False s2(1-3) D(8,9) liveD(5)[OF s2(2)] s1(4) by (simp add: rt_sem_take_def flip: s1_def)
  moreover have "set (tlists s2 (Suspend sem)) = insert t (set (tlists s (Suspend sem)))"
    using s2(6) s1(5) by (simp add: waits_as_def)
  ultimately show ?thesis using s2(2,5) s1(6) kframe_trans[OF s1(3) s2(4)] False by (auto simp: word_gt_0)
qed


lemma take_inv:
  assumes i: "sem_sys_inv sem idle n c" and t: "rt_current_thread (kern c) = Some t" "t \<notin> callers c" "t \<noteq> idle"
    and time: "legal_time time" and k: "rt_sem_take sem time (kern c) = Some (Ret r, s')"
  shows "sem_sys_inv sem idle n (c\<lparr>kern := s', holders := (if r = RT_EOK then add_mset t (holders c) else holders c)\<rparr>)"
proof -
  note I = sem_sys_invD[OF i]
  have v: "live (kern c) t" by (rule sem_sys_live[OF i t(1)])
  from sem_take_cases[OF v I(2) _ I(4) time] k t(3)
  consider "r = RT_EOK" "0 < sems (kern c) sem" "s' = upd_sem sem (\<lambda>v. v - 1) (kern c)" | "r = - RT_ETIMEOUT" "s' = kern c"
    by auto
  then show ?thesis
  proof cases
    case 1
    let ?c = "c\<lparr>kern := s', holders := add_mset t (holders c)\<rparr>"
    have f: "tlists s' = tlists (kern c)" "threads s' = threads (kern c)" "objs s' = objs (kern c)"
      by (simp_all add: 1(3) sem_field.upd_simps)
    have "live s' t" using sem_field.upd_live[OF v] by (simp add: 1(3))
    moreover have "granted ?c = granted c" by (simp add: granted_def ready_def f)
    moreover have "unat (sems s' sem) + 1 = unat (sems (kern c) sem)"
    proof -
      have "0 < unat (sems (kern c) sem)" using 1(2) by (simp add: unat_gt_0 word_gt_0)
      then show ?thesis using 1(2) by (simp add: 1(3) sem_field.get_upd unat_minus_one word_gt_0)
    qed
    moreover have "sem_ok s' sem" using I(4) 1(2) f(1,3) by (auto simp: sem_ok_def)
    ultimately have "sem_sys_inv sem idle n ?c"
      using I unfolding sem_sys_inv_def by (auto simp: f ready_def)
    then show ?thesis using 1(1) by simp
  next
    case 2
    then show ?thesis using i by simp
  qed
qed

lemma block_inv:
  assumes i: "sem_sys_inv sem idle n c" and t: "rt_current_thread (kern c) = Some t" "t \<notin> callers c" "t \<noteq> idle"
    and time: "legal_time time" and k: "rt_sem_take sem time (kern c) = Some (Wait b, s')"
  shows "sem_sys_inv sem idle n (c\<lparr>kern := s', callers := insert b (callers c)\<rparr>)"
proof -
  note I = sem_sys_invD[OF i]
  have v: "live (kern c) t" by (rule sem_sys_live[OF i t(1)])
  from sem_take_cases[OF v I(2) _ I(4) time] k t(3)
  obtain u where u: "b = t" "sems (kern c) sem = 0" "live s' u" "kframe (kern c) s'"
    "threads s' = (threads (kern c))(t := (threads (kern c) t)\<lparr>thread_error := RT_EOK, stat := THREAD_SUSPEND\<rparr>)"
    "set (tlists s' (Suspend sem)) = insert t (set (tlists (kern c) (Suspend sem)))" by auto
  have "granted (c\<lparr>kern := s', callers := insert b (callers c)\<rparr>) = granted c"
    using t(2) by (auto simp: granted_def u(1,5) ready_def)
  moreover have "sem_ok s' sem" "sems s' = sems (kern c)"
    using I(4) u(2) sem_field.get_kframe[OF u(4)] kframeD(8)[OF u(4)] by (auto simp: sem_ok_def)
  moreover have "ready s' idle" using I(2) t(3) by (simp add: u(5) ready_def)
  ultimately show ?thesis using I u(1,3,5,6) t(3) unfolding sem_sys_inv_def by auto
qed

lemma return_inv:
  assumes i: "sem_sys_inv sem idle n c" and t: "rt_current_thread (kern c) = Some t" "t \<in> callers c"
  shows "sem_sys_inv sem idle n (c\<lparr>holders := (if rt_sem_take_end t (kern c) = RT_EOK then add_mset t (holders c) else holders c),
      callers := callers c - {t}\<rparr>)" (is "sem_sys_inv sem idle n ?c")
proof -
  note I = sem_sys_invD[OF i]
  have v: "live (kern c) t" by (rule sem_sys_live[OF i t(1)])
  have nq: "t \<notin> set (tlists (kern c) (Suspend sem))"
    using ready_not_waiting[OF liveD(4)[OF v]] liveD(6)[OF v] by (simp add: ready_def)
  have g: "granted ?c = granted c - {t}" by (auto simp: granted_def)
  have "finite (granted c)" using I(5) by (simp add: granted_def)
  moreover have "t \<in> granted c \<longleftrightarrow> rt_sem_take_end t (kern c) = RT_EOK"
    using t(2) liveD(6)[OF v] by (simp add: granted_def rt_sem_take_end_def)
  ultimately have "size (holders ?c) + card (granted ?c) = size (holders c) + card (granted c)"
    using card_Suc_Diff1[of "granted c" t] by (auto simp: g)
  then show ?thesis using I nq unfolding sem_sys_inv_def by auto
qed

lemma release_inv:
  assumes i: "sem_sys_inv sem idle n c" and t: "rt_current_thread (kern c) = Some t" "t \<in># holders c"
    and k: "rt_sem_release sem (kern c) = Some (r, s')"
  shows "sem_sys_inv sem idle n (c\<lparr>kern := s', holders := holders c - {#t#}\<rparr>)" (is "sem_sys_inv sem idle n ?c")
proof -
  note I = sem_sys_invD[OF i]
  have v: "live (kern c) t" by (rule sem_sys_live[OF i t(1)])
  have h: "0 < size (holders c)" "size (holders ?c) = size (holders c) - 1"
    using t(2) by (auto simp: size_Diff_singleton nonempty_has_size[symmetric])
  show ?thesis
  proof (cases "tlists (kern c) (Suspend sem)")
    case Nil
    have s': "s' = upd_sem sem (\<lambda>v. v + 1) (kern c)" using k Nil by (simp add: rt_sem_release_def)
    have f: "tlists s' = tlists (kern c)" "threads s' = threads (kern c)" "objs s' = objs (kern c)"
      by (simp_all add: s' sem_field.upd_simps)
    have "unat (sems (kern c) sem) < 2 ^ 16 - 1" using I(6,8) h(1) by linarith
    then have "unat (sems s' sem) = unat (sems (kern c) sem) + 1"
      by (simp add: s' sem_field.get_upd unat_add_small)
    moreover have "live s' t" using sem_field.upd_live[OF v] by (simp add: s')
    moreover have "granted ?c = granted c" by (simp add: granted_def ready_def f)
    ultimately show ?thesis using I h Nil unfolding sem_sys_inv_def by (auto simp: f ready_def sem_ok_def)
  next
    case (Cons w ws)
    obtain u where s': "live s' u" "kframe (kern c) s'"
      "threads s' = (threads (kern c))(w := (threads (kern c) w)\<lparr>stat := THREAD_READY\<rparr>)" "tlists s' (Suspend sem) = ws"
      using live_wakes[OF v _ Cons] k Cons by (auto simp: rt_sem_release_def waits_as_def split: bind_splits)
    have w: "w \<in> callers c" "thread_error (threads (kern c) w) = RT_EOK" using I(7)[of w] Cons by auto
    have "\<not> ready (kern c) w" using waiting_stat[OF liveD(4)[OF v], of "Suspend sem" w] Cons by (simp add: ready_def)
    then have g: "granted ?c = insert w (granted c)" "w \<notin> granted c" using w by (auto simp: granted_def s'(3) ready_def)
    have "finite (granted c)" using I(5) by (simp add: granted_def)
    then have "size (holders ?c) + card (granted ?c) = size (holders c) + card (granted c)" using h by (simp add: g)
    moreover have "sems s' = sems (kern c)" "objs s' (At sem) = objs (kern c) (At sem)"
      using sem_field.get_kframe[OF s'(2)] kframeD(8)[OF s'(2)] by simp_all
    moreover have "sems (kern c) sem = 0" using I(4) Cons by (simp add: sem_ok_def)
    ultimately show ?thesis using I s' Cons unfolding sem_sys_inv_def by (auto simp: ready_def sem_ok_def)
  qed
qed


lemma sleep_end_inv:
  assumes i: "sem_sys_inv sem idle n c" and t: "rt_current_thread (kern c) = Some t" "t \<notin> callers c"
  shows "sem_sys_inv sem idle n (c\<lparr>kern := snd (rt_thread_sleep_end t (kern c))\<rparr>)"
proof (cases "thread_error (threads (kern c) t) = - RT_ETIMEOUT")
  case True
  have v: "live (kern c) t" by (rule sem_sys_live[OF i t(1)])
  have s': "snd (rt_thread_sleep_end t (kern c)) = upd_thread t (\<lambda>th. th\<lparr>thread_error := RT_EOK\<rparr>) (kern c)"
    using True by (simp add: rt_thread_sleep_end_def)
  have "sems (snd (rt_thread_sleep_end t (kern c))) = sems (kern c)" by (simp add: s' upd_thread_def)
  then show ?thesis
    using sem_sys_invD[OF i] v t(2) by (intro sem_sys_inv_frame[OF i, of _ t]) (auto simp: s' ready_def)
next
  case False
  then show ?thesis using i by (simp add: rt_thread_sleep_end_def)
qed

lemma yield_inv:
  assumes i: "sem_sys_inv sem idle n c" and t: "rt_current_thread (kern c) = Some t"
    and k: "rt_thread_yield (kern c) = Some (r, s')"
  shows "sem_sys_inv sem idle n (c\<lparr>kern := s'\<rparr>)"
proof -
  note I = sem_sys_invD[OF i]
  obtain u where u: "live s' u" "kframe (kern c) s'" "threads s' = threads (kern c)"
    "tlists s' (Suspend sem) = tlists (kern c) (Suspend sem)"
    using live_yields[OF sem_sys_live[OF i t]] k by auto
  show ?thesis using I(2) u sem_field.get_kframe[OF u(2)] kframeD(8)[OF u(2)]
    by (intro sem_sys_inv_frame[OF i u(1)]) (auto simp: ready_def)
qed

lemma sleep_inv:
  assumes i: "sem_sys_inv sem idle n c" and t: "rt_current_thread (kern c) = Some t" "t \<notin> callers c" "t \<noteq> idle"
    and m: "m < RT_TICK_HALF" and k: "rt_thread_sleep m (kern c) = Some (r, s')"
  shows "sem_sys_inv sem idle n (c\<lparr>kern := s'\<rparr>)"
proof -
  note I = sem_sys_invD[OF i]
  obtain u where u: "live s' u" "kframe (kern c) s'"
    "threads s' = (threads (kern c))(t := (threads (kern c) t)\<lparr>stat := THREAD_SUSPEND\<rparr>)"
    "tlists s' (Suspend sem) = tlists (kern c) (Suspend sem)"
    using live_sleeps[OF sem_sys_live[OF i t(1)] I(2) _ m] t(3) k by auto
  show ?thesis using I(2) u t(2,3) sem_field.get_kframe[OF u(2)] kframeD(8)[OF u(2)]
    by (intro sem_sys_inv_frame[OF i u(1)]) (auto simp: ready_def)
qed

lemma tick_step_inv:
  assumes i: "sem_sys_inv sem idle n c" and k: "rt_tick_increase user (kern c) = Some s'"
  shows "sem_sys_inv sem idle n (c\<lparr>kern := s'\<rparr>)"
proof -
  note I = sem_sys_invD[OF i]
  obtain t where v: "live (kern c) t" using I(1) by blast
  obtain s1 u W q where u: "live s' u" "kframe ((kern c)\<lparr>rt_tick := rt_tick (kern c) + 1\<rparr>) s'" "timed_out W s1 s'"
    "tlists s1 (Suspend sem) = tlists (kern c) (Suspend sem)"
    "threads s1 = (threads (kern c))(t := (threads (kern c) t)\<lparr>remaining_tick := q\<rparr>)"
    using live_ticks[OF v, of user] k by auto
  have th: "thread_error (threads s' v) = (if v \<in> W then - RT_ETIMEOUT else thread_error (threads (kern c) v))"
    "stat (threads s' v) = (if v \<in> W then THREAD_READY else stat (threads (kern c) v))" for v
    using u(3,5) by (auto simp: timed_out_def)
  have sus: "\<not> ready (kern c) v" if "v \<in> W" for v using u(3,5) that by (auto simp: timed_out_def ready_def split: if_splits)
  have q: "tlists s' (Suspend sem) = filter (\<lambda>v. v \<notin> W) (tlists (kern c) (Suspend sem))"
    using u(3,4) by (simp add: timed_out_def)
  have "ready s' idle" using I(2) sus by (auto simp: ready_def th(2))
  moreover have "sems s' = sems (kern c)" "objs s' (At sem) = objs (kern c) (At sem)"
    using sem_field.get_kframe[OF u(2)] kframeD(8)[OF u(2)] by simp_all
  ultimately show ?thesis using sus
    by (intro sem_sys_inv_frame[OF i u(1)]) (auto simp: q th ready_def)
qed

lemma sem_step_inv: "sem_step user sem idle c c' \<Longrightarrow> sem_sys_inv sem idle n c \<Longrightarrow> sem_sys_inv sem idle n c'"
proof (induction rule: sem_step.induct)
  case take then show ?case by (metis take_inv)
next
  case block then show ?case by (metis block_inv)
next
  case return then show ?case by (metis return_inv)
next
  case release then show ?case by (metis release_inv)
next
  case yield then show ?case by (metis yield_inv)
next
  case sleep then show ?case by (metis sleep_inv)
next
  case wake then show ?case by (metis sleep_end_inv)
next
  case tick then show ?case by (metis tick_step_inv)
qed

lemma sem_reach_inv: "(sem_step user sem idle)\<^sup>*\<^sup>* c c' \<Longrightarrow> sem_sys_inv sem idle n c \<Longrightarrow> sem_sys_inv sem idle n c'"
  by (induction rule: rtranclp_induct) (auto intro: sem_step_inv)

subsection \<open>Properties\<close>

definition sem_start :: "'a sem_state_scheme \<Rightarrow> 'a sem_config" where
  "sem_start s = \<lparr>kern = s, holders = {#}, callers = {}\<rparr>"

lemma sem_start_inv:
  "live s t \<Longrightarrow> ready s idle \<Longrightarrow> sem_ok s sem \<Longrightarrow> tlists s (Suspend sem) = [] \<Longrightarrow>
   sem_sys_inv sem idle (unat (sems s sem)) (sem_start s)"
  using unsigned_less[of "sems s sem", where ?'a = nat] by (auto simp: sem_sys_inv_def sem_start_def granted_def)

text \<open>C4: Permits are neither lost nor invented. Whatever the interleaving of takes, releases, yields,
  sleeps and tick interrupts, the value of the semaphore, the permits that threads hold and those
  granted to threads that have not run since add up to the initial value; so a semaphore
  created with one permit is held by one thread at most. And a thread waits only while the value
  is zero.\<close>

theorem permits_conserved:
  assumes "live s t" "ready s idle" "sem_ok s sem" "tlists s (Suspend sem) = []"
    and "(sem_step user sem idle)\<^sup>*\<^sup>* (sem_start s) c"
  shows "unat (sems (kern c) sem) + size (holders c) + card (granted c) = unat (sems s sem)
    \<and> (\<forall>v \<in> set (tlists (kern c) (Suspend sem)). v \<in> callers c \<and> sems (kern c) sem = 0)"
proof -
  have "sem_sys_inv sem idle (unat (sems s sem)) c"
    using sem_reach_inv[OF assms(5)] sem_start_inv[OF assms(1-4)] by blast
  from sem_sys_invD[OF this] show ?thesis by (auto simp: sem_ok_def)
qed

text \<open>C35: In every configuration the threads can reach, the thread that runs is ready and each call it
  can make returns: no interleaving ends in a failed assertion, in a scheduler that finds no
  thread, or in a tick interrupt that does not come back.\<close>

theorem no_step_gets_stuck:
  assumes "live s t" "ready s idle" "sem_ok s sem" "tlists s (Suspend sem) = []"
    and "(sem_step user sem idle)\<^sup>*\<^sup>* (sem_start s) c"
    and "legal_time time" "n < RT_TICK_HALF"
  shows "\<exists>u. rt_current_thread (kern c) = Some u \<and> ready (kern c) u
    \<and> (u \<noteq> idle \<longrightarrow> rt_sem_take sem time (kern c) \<noteq> None \<and> rt_thread_sleep n (kern c) \<noteq> None)
    \<and> rt_sem_release sem (kern c) \<noteq> None \<and> rt_thread_yield (kern c) \<noteq> None \<and> rt_tick_increase user (kern c) \<noteq> None"
proof -
  have i: "sem_sys_inv sem idle (unat (sems s sem)) c"
    using sem_reach_inv[OF assms(5)] sem_start_inv[OF assms(1-4)] by blast
  note I = sem_sys_invD[OF i]
  obtain u where v: "live (kern c) u" using I(1) by blast
  have "rt_sem_take sem time (kern c) \<noteq> None" "rt_thread_sleep n (kern c) \<noteq> None" if "u \<noteq> idle"
    using sem_take_cases[OF v I(2) _ I(4) assms(6)] live_sleeps[OF v I(2) _ assms(7)] that by auto
  moreover have "rt_sem_release sem (kern c) \<noteq> None"
    using live_wakes[OF v, of "Suspend sem"] by (cases "tlists (kern c) (Suspend sem)") (auto simp: rt_sem_release_def)
  moreover have "rt_thread_yield (kern c) \<noteq> None" "rt_tick_increase user (kern c) \<noteq> None"
    using live_yields[OF v] live_ticks[OF v, of user] by auto
  ultimately show ?thesis using liveD(5,6)[OF v] by blast
qed

subsection \<open>Witnesses\<close>

lemma demo_sem_live: "live (demo_sem v) 1" "tlists (demo_sem v) (Suspend a) = []"
  using demo_sem_facts(1)[of v]
  by (simp_all add: live_def only_thread_timers_def timers_pending_def active_timers_def demo_sem_def demo_tlists_def)

definition demo_taken :: "unit sem_config" where
  "demo_taken = \<lparr>kern = upd_sem 7 (\<lambda>v. v - 1) (demo_sem 1), holders = {#1#}, callers = {}\<rparr>"

lemma demo_take_step: "(sem_step user 7 2)\<^sup>*\<^sup>* (sem_start (demo_sem 1)) demo_taken"
  using sem_step.take[of "sem_start (demo_sem 1)" 1 2 5 7 RT_EOK "kern demo_taken" user]
  by (simp add: sem_start_def demo_taken_def legal_time_5 rt_sem_take_def r_into_rtranclp)

theorem permits_conserved_witness:
  "unat (sems (kern demo_taken) 7) + 1 + card (granted demo_taken) = 1"
  using permits_conserved[OF demo_sem_live(1) demo_sem_facts(2,4) demo_sem_live(2) demo_take_step[of "\<lambda>_ _ s. Some s"]]
  by (simp add: demo_taken_def)

theorem no_step_gets_stuck_witness:
  "rt_sem_release 7 (kern demo_taken) \<noteq> None \<and> rt_tick_increase (\<lambda>_ _ s. Some s) (kern demo_taken) \<noteq> None"
  using no_step_gets_stuck[OF demo_sem_live(1) demo_sem_facts(2,4) demo_sem_live(2)
      demo_take_step[of "\<lambda>_ _ s. Some s"] legal_time_5, of 3]
  by auto

end
