(* ===== verification/MutexSystem.thy ===== *)
theory MutexSystem
  imports System "HOL-Library.Multiset"
begin

text \<open>
  Threads that share a mutex, as a state machine: every interleaving of takes with and without
  waiting, releases (also by threads that do not own the mutex), yields, sleeps and tick interrupts
  with the time-outs they cause. The configuration is the kernel state with two records of what
  happened at the interface: the successful takes that have not been released, and the threads inside
  a call that went to sleep. A thread nests at most 255 takes, the range of the 8-bit counter
  \<^verbatim>\<open>hold\<close>; the idle thread neither takes nor sleeps. The mutex queues its waiting threads by
  priority.
\<close>

subsection \<open>The steps\<close>

record 'a mutex_config =
  mkern :: "'a mutex_state_scheme"
  holds :: "tid multiset"
  mcallers :: "tid set"

inductive mutex_step :: "(nat \<Rightarrow> nat \<Rightarrow> 'a mutex_state_scheme \<Rightarrow> 'a mutex_state_scheme option) \<Rightarrow> nat \<Rightarrow> tid
    \<Rightarrow> 'a mutex_config \<Rightarrow> 'a mutex_config \<Rightarrow> bool" for user mutex idle where
  take: "mutex_step user mutex idle c (c\<lparr>mkern := s', holds := (if r = RT_EOK then add_mset t (holds c) else holds c)\<rparr>)"
    if "rt_current_thread (mkern c) = Some t" "t \<notin> mcallers c" "t \<noteq> idle" "legal_time time" "count (holds c) t < 255"
      "rt_mutex_take mutex time (mkern c) = Some (Ret r, s')"
| block: "mutex_step user mutex idle c (c\<lparr>mkern := s', mcallers := insert b (mcallers c)\<rparr>)"
    if "rt_current_thread (mkern c) = Some t" "t \<notin> mcallers c" "t \<noteq> idle" "legal_time time"
      "rt_mutex_take mutex time (mkern c) = Some (Wait b, s')"
| return: "mutex_step user mutex idle c (c\<lparr>holds := (if rt_mutex_take_end t (mkern c) = RT_EOK then add_mset t (holds c) else holds c),
      mcallers := mcallers c - {t}\<rparr>)"
    if "rt_current_thread (mkern c) = Some t" "t \<in> mcallers c"
| release: "mutex_step user mutex idle c (c\<lparr>mkern := s', holds := (if r = RT_EOK then holds c - {#t#} else holds c)\<rparr>)"
    if "rt_current_thread (mkern c) = Some t" "t \<notin> mcallers c" "rt_mutex_release mutex (mkern c) = Some (r, s')"
| yield: "mutex_step user mutex idle c (c\<lparr>mkern := s'\<rparr>)"
    if "rt_current_thread (mkern c) = Some t" "t \<notin> mcallers c" "rt_thread_yield (mkern c) = Some (r, s')"
| sleep: "mutex_step user mutex idle c (c\<lparr>mkern := s'\<rparr>)"
    if "rt_current_thread (mkern c) = Some t" "t \<notin> mcallers c" "t \<noteq> idle" "n < RT_TICK_HALF"
      "rt_thread_sleep n (mkern c) = Some (w, s')"
| wake: "mutex_step user mutex idle c (c\<lparr>mkern := snd (rt_thread_sleep_end t (mkern c))\<rparr>)"
    if "rt_current_thread (mkern c) = Some t" "t \<notin> mcallers c"
| tick: "mutex_step user mutex idle c (c\<lparr>mkern := s'\<rparr>)" if "rt_tick_increase user (mkern c) = Some s'"

subsection \<open>The invariant\<close>

text \<open>A thread that went to sleep in a take has been given the mutex when it is ready without an error.\<close>

definition given :: "'a mutex_state_scheme \<Rightarrow> tid \<Rightarrow> bool" where
  "given s v \<longleftrightarrow> ready s v \<and> thread_error (threads s v) = RT_EOK"

text \<open>The owner is the one thread that holds the mutex, as often as the counter says, or the one
  thread it was handed to; nobody else holds it.\<close>

definition owned :: "nat \<Rightarrow> 'a mutex_config \<Rightarrow> bool" where
  "owned mutex c \<longleftrightarrow> (let s = mkern c; m = mutexes s mutex in
     (\<forall>v \<in> set (tlists s (Suspend mutex)). v \<in> mcallers c \<and> thread_error (threads s v) = RT_EOK)
     \<and> (\<forall>v \<in> mcallers c. given s v \<longleftrightarrow> m_owner m = Some v)
     \<and> (m_owner m = None \<longrightarrow> holds c = {#})
     \<and> (\<forall>ow. m_owner m = Some ow \<longrightarrow> holds c = replicate_mset (unat (m_hold m) - (if ow \<in> mcallers c then 1 else 0)) ow))"

text \<open>Priority inheritance: the waiting threads are in the order of their priorities, only the owner can have
  another priority than its own, and it has at least that of each waiting thread.\<close>

definition lends :: "nat \<Rightarrow> (tid \<Rightarrow> nat) \<Rightarrow> 'a mutex_state_scheme \<Rightarrow> bool" where
  "lends mutex base s \<longleftrightarrow> (let m = mutexes s mutex; q = tlists s (Suspend mutex) in
     sorted (map (\<lambda>v. current_priority (threads s v)) q)
     \<and> (\<forall>v. m_owner m \<noteq> Some v \<longrightarrow> current_priority (threads s v) = base v)
     \<and> (\<forall>ow. m_owner m = Some ow \<longrightarrow> m_original_priority m = base ow \<and> current_priority (threads s ow) \<le> base ow
          \<and> (\<forall>v \<in> set q. current_priority (threads s ow) \<le> current_priority (threads s v)))
     \<and> (q \<noteq> [] \<longrightarrow> top s))"

definition mutex_sys_inv :: "nat \<Rightarrow> tid \<Rightarrow> (tid \<Rightarrow> nat) \<Rightarrow> 'a mutex_config \<Rightarrow> bool" where
  "mutex_sys_inv mutex idle base c \<longleftrightarrow> (\<exists>t. live (mkern c) t) \<and> ready (mkern c) idle \<and> idle \<notin> mcallers c
     \<and> mutex_ok (mkern c) mutex \<and> o_flag (objs (mkern c) (At mutex)) = IPC_FLAG_PRIO
     \<and> owned mutex c \<and> lends mutex base (mkern c)"

lemma mutex_sys_invD:
  assumes "mutex_sys_inv mutex idle base c"
  shows "\<exists>t. live (mkern c) t" "ready (mkern c) idle" "idle \<notin> mcallers c" "mutex_ok (mkern c) mutex"
    "o_flag (objs (mkern c) (At mutex)) = IPC_FLAG_PRIO" "owned mutex c" "lends mutex base (mkern c)"
  using assms by (auto simp: mutex_sys_inv_def)

lemma mutex_sys_live: "mutex_sys_inv mutex idle base c \<Longrightarrow> rt_current_thread (mkern c) = Some t \<Longrightarrow> live (mkern c) t"
  using mutex_sys_invD(1) liveD(5) by fastforce

text \<open>What a step has to keep when it leaves the mutex, the callers and the priorities alone.\<close>

lemma mutex_sys_inv_frame:
  assumes i: "mutex_sys_inv mutex idle base c" and v: "live s' u" and r: "ready s' idle"
    and q: "tlists s' (Suspend mutex) = filter P (tlists (mkern c) (Suspend mutex))"
    and k: "mutexes s' = mutexes (mkern c)" "objs s' (At mutex) = objs (mkern c) (At mutex)"
    and p: "\<And>v. current_priority (threads s' v) = current_priority (threads (mkern c) v)"
    and e: "\<And>v. v \<in> set (tlists s' (Suspend mutex)) \<Longrightarrow> thread_error (threads s' v) = thread_error (threads (mkern c) v)"
    and g: "\<And>v. v \<in> mcallers c \<Longrightarrow> given s' v \<longleftrightarrow> given (mkern c) v"
    and a: "\<And>v. stat (threads (mkern c) v) \<in> {THREAD_READY, THREAD_SUSPEND} \<Longrightarrow> stat (threads s' v) \<in> {THREAD_READY, THREAD_SUSPEND}"
    and t: "top (mkern c) \<Longrightarrow> top s'"
  shows "mutex_sys_inv mutex idle base (c\<lparr>mkern := s'\<rparr>)"
proof -
  note I = mutex_sys_invD[OF i]
  have "mutex_ok s' mutex" using I(4) k q a by (fastforce simp: mutex_ok_def mutex_free_def mutex_held_def Let_def)
  moreover have "owned mutex (c\<lparr>mkern := s'\<rparr>)" using I(6) k(1) q e g by (auto simp: owned_def Let_def)
  moreover have "lends mutex base s'"
    using I(7) k(1) q p t sorted_filter[of "\<lambda>v. current_priority (threads (mkern c) v)"] by (auto simp: lends_def Let_def)
  ultimately show ?thesis using I v r k(2) by (auto simp: mutex_sys_inv_def)
qed

subsection \<open>Taking\<close>

lemma enqueue_sorted: "sorted (map prio q) \<Longrightarrow> sorted (map prio (enqueue prio IPC_FLAG_PRIO t q))"
proof (induction q)
  case (Cons v q)
  then show ?case by (cases "prio v \<le> prio t") (auto simp: enqueue_def dest: set_takeWhileD set_dropWhileD)
qed (simp add: enqueue_def)

lemma set_priority_live:
  assumes v: "live s t" and p: "p < RT_THREAD_PRIORITY_MAX"
    and st: "stat (threads s w) = THREAD_READY \<or> stat (threads s w) = THREAD_SUSPEND"
  shows "\<exists>s'. rt_thread_control w 2 p s = Some (RT_EOK, s') \<and> live s' t \<and> kframe s s'
    \<and> threads s' = (threads s)(w := (threads s w)\<lparr>current_priority := p, number_mask := push_bit p 1\<rparr>)
    \<and> (\<forall>m. wait_list m \<longrightarrow> tlists s' m = tlists s m)"
proof -
  note V = liveD[OF v]
  obtain s' where s': "rt_thread_control w 2 p s = Some (RT_EOK, s')" "kinv s'" "kframe s s'"
    "threads s' = (threads s)(w := (threads s w)\<lparr>current_priority := p, number_mask := push_bit p 1\<rparr>)"
    "\<forall>m. wait_list m \<longrightarrow> tlists s' m = tlists s m" "rt_current_thread s' = rt_current_thread s"
    using change_priority_ok[OF V(4) p st] by blast
  have "running s' t" using V(5,6) s'(4,6) by (intro running_kframe[OF V(1) s'(2,3)]) (auto simp: ready_def)
  moreover have "active_timers s' = active_timers s" "timers s' = timers s"
    using s'(1) by (auto simp: rt_thread_control_def Let_def insert_thread_eq remove_thread_eq upd_thread_def RT_ASSERT_def
        split: if_splits bind_splits)
  then have "only_thread_timers s'" "timers_pending s'" using timers_fewer[OF V(2,3), of s'] kframeD(1)[OF s'(3)] by auto
  ultimately show ?thesis using s' by (auto simp: live_def)
qed

lemma inherit_live:
  assumes v: "live s t" and ow: "stat (threads s ow) = THREAD_READY \<or> stat (threads s ow) = THREAD_SUSPEND"
  shows "\<exists>s'. inherit_priority t ow s = Some s' \<and> live s' t \<and> kframe s s' \<and> (\<forall>m. wait_list m \<longrightarrow> tlists s' m = tlists s m)
    \<and> (\<forall>v. stat (threads s' v) = stat (threads s v) \<and> thread_error (threads s' v) = thread_error (threads s v)
        \<and> current_priority (threads s' v) = (if v = ow then min (current_priority (threads s ow)) (current_priority (threads s t))
            else current_priority (threads s v)))"
proof (cases "current_priority (threads s t) < current_priority (threads s ow)")
  case True
  have "current_priority (threads s t) < RT_THREAD_PRIORITY_MAX"
    using kinvD(5)[OF liveD(4)[OF v], of t] liveD(6)[OF v] by (simp add: wf_thread_def ready_def)
  from set_priority_live[OF v this ow] show ?thesis using True by (auto simp: inherit_priority_def)
qed (use v in \<open>simp add: inherit_priority_def\<close>)

text \<open>The changes of the threads when \<open>t\<close> goes to sleep for a mutex of \<open>ow\<close>.\<close>

definition waits_for_owner :: "tid \<Rightarrow> tid \<Rightarrow> 'a mutex_state_scheme \<Rightarrow> 'a mutex_state_scheme \<Rightarrow> bool" where
  "waits_for_owner t ow s s' \<longleftrightarrow> (\<forall>v. stat (threads s' v) = (if v = t then THREAD_SUSPEND else stat (threads s v))
     \<and> thread_error (threads s' v) = (if v = t then RT_EOK else thread_error (threads s v))
     \<and> current_priority (threads s' v) = (if v = ow then min (current_priority (threads s ow)) (current_priority (threads s t))
          else current_priority (threads s v)))"

lemma mutex_wait_live:
  assumes v: "live s t" and i: "ready s i" "i \<noteq> t" and ok: "mutex_ok s mutex" and o: "m_owner (mutexes s mutex) = Some ow" "ow \<noteq> t"
    and time: "legal_time time" "time \<noteq> 0"
  shows "\<exists>s' u. rt_mutex_take mutex time s = Some (Wait t, s') \<and> live s' u \<and> top s' \<and> kframe s s' \<and> waits_for_owner t ow s s'
    \<and> tlists s' (Suspend mutex)
        = enqueue (\<lambda>v. current_priority (threads s v)) (o_flag (objs s (At mutex))) t (tlists s (Suspend mutex))"
proof -
  let ?flag = "o_flag (objs s (At mutex))"
  have h: "stat (threads s ow) = THREAD_READY \<or> stat (threads s ow) = THREAD_SUSPEND" "ow \<notin> set (tlists s (Suspend mutex))"
    "m_value (mutexes s mutex) = 0" "?flag = 0 \<or> ?flag = 1"
    using ok o(1) by (auto simp: mutex_ok_def mutex_free_def mutex_held_def Let_def)
  define s0 where "s0 = upd_thread t (\<lambda>th. th\<lparr>thread_error := RT_EOK\<rparr>) s"
  note s0 = reset_error[of t RT_EOK s, folded s0_def]
  have e0: "thread_error (threads s0 v) = (if v = t then RT_EOK else thread_error (threads s v))" for v by (simp add: s0_def)
  have f0: "kframe s s0" "live s0 t" using v by (simp_all add: s0_def)
  have h0: "stat (threads s0 ow) = THREAD_READY \<or> stat (threads s0 ow) = THREAD_SUSPEND" using h(1) s0(6) by simp
  obtain s1 where s1: "inherit_priority t ow s0 = Some s1" "live s1 t" "kframe s0 s1" "\<And>m. wait_list m \<Longrightarrow> tlists s1 m = tlists s m"
    "\<And>v. stat (threads s1 v) = stat (threads s v)" "\<And>v. thread_error (threads s1 v) = thread_error (threads s0 v)"
    "\<And>v. current_priority (threads s1 v) = (if v = ow then min (current_priority (threads s ow)) (current_priority (threads s t))
        else current_priority (threads s v))"
    using inherit_live[OF f0(2) h0] unfolding s0(1,5,6) by blast
  have i1: "ready s1 i" using i(1) s1(5) by (simp add: ready_def)
  have fl: "objs s1 (At mutex) = objs s (At mutex)" using kframeD(8)[OF s1(3)] s0(3) by simp
  obtain s' u where s': "ipc_wait (Suspend mutex) t ?flag time s1 = Some s'" "live s' u" "u \<noteq> t" "kframe s1 s'"
    "threads s' = (threads s1)(t := (threads s1 t)\<lparr>stat := THREAD_SUSPEND\<rparr>)"
    "tlists s' (Suspend mutex) = enqueue (\<lambda>v. current_priority (threads s1 v)) ?flag t (tlists s (Suspend mutex))"
    using live_waits[OF s1(2) i1 i(2) h(4) _ time, of "Suspend mutex"] s1(4) by (auto simp: waits_as_def)
  have "enqueue (\<lambda>v. current_priority (threads s1 v)) ?flag t (tlists s (Suspend mutex))
      = enqueue (\<lambda>v. current_priority (threads s v)) ?flag t (tlists s (Suspend mutex))"
    using h(2) o(2) s1(7) by (intro enqueue_cong) auto
  moreover have "rt_mutex_take mutex time s = Some (Wait t, s')"
    using o time(2) h(3) runningD(8,9)[OF liveD(1)[OF v]] s1(1) s'(1,3) liveD(5)[OF s'(2)] fl
    by (simp add: rt_mutex_take_def s0 flip: s0_def)
  moreover have "waits_for_owner t ow s s'" using s'(5) s1(5-7) e0 by (simp add: waits_for_owner_def)
  ultimately show ?thesis
    using s'(2,6) wait_top[OF s'(1) liveD(1)[OF s'(2)]] kframe_trans[OF kframe_trans[OF f0(1) s1(3)] s'(4)] by auto
qed

text \<open>A change of the mutex and of error fields keeps the rest of the invariant; what is left is to
  count the takes and to look at the owner.\<close>

lemma mutex_sys_inv_upd:
  assumes i: "mutex_sys_inv mutex idle base c" and v: "live s' t"
    and f: "tlists s' (Suspend mutex) = tlists (mkern c) (Suspend mutex)" "objs s' (At mutex) = objs (mkern c) (At mutex)"
      "\<And>v. ready s' v = ready (mkern c) v"
    and m: "mutex_ok s' mutex" "owned mutex (c\<lparr>mkern := s', holds := h\<rparr>)" "lends mutex base s'"
  shows "mutex_sys_inv mutex idle base (c\<lparr>mkern := s', holds := h\<rparr>)"
  using mutex_sys_invD[OF i] v f m by (auto simp: mutex_sys_inv_def)

lemma free_take_inv:
  assumes i: "mutex_sys_inv mutex idle base c" and t: "rt_current_thread (mkern c) = Some t" "t \<notin> mcallers c"
    and o: "m_owner (mutexes (mkern c) mutex) = None"
  shows "\<exists>s'. rt_mutex_take mutex time (mkern c) = Some (Ret RT_EOK, s')
    \<and> mutex_sys_inv mutex idle base (c\<lparr>mkern := s', holds := add_mset t (holds c)\<rparr>)"
proof -
  note I = mutex_sys_invD[OF i]
  let ?s = "mkern c"
  have v: "live ?s t" by (rule mutex_sys_live[OF i t(1)])
  have m: "m_value (mutexes ?s mutex) = 1" "m_hold (mutexes ?s mutex) = 0" "tlists ?s (Suspend mutex) = []"
    using I(4) o by (auto simp: mutex_ok_def mutex_free_def mutex_held_def Let_def)
  define s0 where "s0 = upd_thread t (\<lambda>th. th\<lparr>thread_error := RT_EOK\<rparr>) ?s"
  note s0 = reset_error[of t RT_EOK ?s, folded s0_def]
  define s' where "s' = upd_mutex mutex (\<lambda>m. m\<lparr>m_value := m_value m - 1, m_owner := Some t,
    m_original_priority := current_priority (threads s0 t), m_hold := m_hold m + 1\<rparr>) s0"
  have mu: "mutexes s' mutex = \<lparr>m_value = 0, m_original_priority = base t, m_hold = 1, m_owner = Some t\<rparr>"
    using m I(7) o by (simp add: s'_def mutex_field.get_upd s0 lends_def Let_def)
  have f: "tlists s' = tlists ?s" "objs s' = objs ?s" "threads s' = threads s0" "\<And>v. ready s' v = ready ?s v"
    by (simp_all add: s'_def mutex_field.upd_simps s0 ready_def)
  have "rt_mutex_take mutex time ?s = Some (Ret RT_EOK, s')"
    using m o runningD(8,9)[OF liveD(1)[OF v]] by (simp add: rt_mutex_take_def s0 s'_def flip: s0_def)
  moreover have "live s' t" unfolding s'_def by (rule mutex_field.upd_live) (simp add: s0_def v)
  moreover have "base t < RT_THREAD_PRIORITY_MAX"
    using kinvD(5)[OF liveD(4)[OF v], of t] liveD(6)[OF v] I(7) o by (simp add: wf_thread_def ready_def lends_def Let_def)
  then have "mutex_ok s' mutex" using I(5) liveD(6)[OF v] m(3)
    by (auto simp: mutex_ok_def mutex_held_def mu f s0 ready_def)
  moreover have "owned mutex (c\<lparr>mkern := s', holds := add_mset t (holds c)\<rparr>)"
  proof -
    have "given s' v \<longleftrightarrow> given ?s v" if "v \<in> mcallers c" for v using that t(2) by (auto simp: given_def f s0_def ready_def)
    then show ?thesis using I(6) m(3) o t(2) by (auto simp: owned_def Let_def mu f)
  qed
  moreover have "lends mutex base s'" using I(7) m(3) o by (simp add: lends_def Let_def mu f s0)
  ultimately show ?thesis using mutex_sys_inv_upd[OF i, of s' t] f by auto
qed

text \<open>The owner's own steps: it runs outside of calls, so the counter is the number of its takes.\<close>

lemma owner_runs:
  assumes i: "mutex_sys_inv mutex idle base c" and o: "m_owner (mutexes (mkern c) mutex) = Some t" "t \<notin> mcallers c"
  shows "mutex_held (mkern c) mutex t" "holds c = replicate_mset (unat (m_hold (mutexes (mkern c) mutex))) t"
  using mutex_sys_invD(4,6)[OF i] o by (auto simp: mutex_ok_def mutex_free_def mutex_held_def owned_def Let_def)

lemma hold_changes_inv:
  assumes i: "mutex_sys_inv mutex idle base c" and t: "rt_current_thread (mkern c) = Some t" "t \<notin> mcallers c"
    and o: "m_owner (mutexes (mkern c) mutex) = Some t" and h: "h \<noteq> 0"
    and s0: "s0 = mkern c \<or> s0 = upd_thread t (\<lambda>th. th\<lparr>thread_error := RT_EOK\<rparr>) (mkern c)"
  shows "mutex_sys_inv mutex idle base (c\<lparr>mkern := upd_mutex mutex (\<lambda>m. m\<lparr>m_hold := h\<rparr>) s0, holds := replicate_mset (unat h) t\<rparr>)"
proof -
  note I = mutex_sys_invD[OF i]
  have v: "live s0 t" using mutex_sys_live[OF i t(1)] s0 by auto
  let ?s = "mkern c" and ?s' = "upd_mutex mutex (\<lambda>m. m\<lparr>m_hold := h\<rparr>) s0"
  have e: "tlists s0 = tlists ?s" "objs s0 = objs ?s" "mutexes s0 = mutexes ?s" "rt_current_thread s0 = rt_current_thread ?s"
    "\<And>v. stat (threads s0 v) = stat (threads ?s v)" "\<And>v. current_priority (threads s0 v) = current_priority (threads ?s v)"
    "\<And>v. v \<noteq> t \<Longrightarrow> threads s0 v = threads ?s v"
    using s0 reset_error[of t RT_EOK ?s] by auto
  have mu: "mutexes ?s' mutex = (mutexes ?s mutex)\<lparr>m_hold := h\<rparr>" by (simp add: mutex_field.get_upd e)
  note f = mutex_field.upd_simps e
  have "live ?s' t" by (rule mutex_field.upd_live[OF v])
  moreover have "mutex_ok ?s' mutex"
    using owner_runs(1)[OF i o t(2)] h I(5) by (auto simp: mutex_ok_def mutex_held_def Let_def f mu)
  moreover have "owned mutex (c\<lparr>mkern := ?s', holds := replicate_mset (unat h) t\<rparr>)"
  proof -
    have ne: "v \<noteq> t" if "v \<in> mcallers c" for v using that t(2) by blast
    then have "given ?s' v \<longleftrightarrow> given ?s v" if "v \<in> mcallers c" for v using that by (simp add: given_def ready_def f)
    then show ?thesis using I(6) o t(2) ne by (auto simp: owned_def Let_def f mu)
  qed
  moreover have "lends mutex base ?s'" using I(7) by (simp add: lends_def Let_def f mu top_def ready_def)
  ultimately show ?thesis using mutex_sys_inv_upd[OF i, of ?s' t] by (simp add: f ready_def)
qed

lemma nested_take_inv:
  assumes i: "mutex_sys_inv mutex idle base c" and t: "rt_current_thread (mkern c) = Some t" "t \<notin> mcallers c"
    and o: "m_owner (mutexes (mkern c) mutex) = Some t" and n: "count (holds c) t < 255"
  shows "\<exists>s'. rt_mutex_take mutex time (mkern c) = Some (Ret RT_EOK, s')
    \<and> mutex_sys_inv mutex idle base (c\<lparr>mkern := s', holds := add_mset t (holds c)\<rparr>)"
proof -
  let ?s = "mkern c" and ?h = "m_hold (mutexes (mkern c) mutex)"
  let ?e = "upd_thread t (\<lambda>th. th\<lparr>thread_error := RT_EOK\<rparr>) ?s"
  note O = owner_runs[OF i o t(2)]
  have "unat ?h < 255" using n O(2) by simp
  then have u: "unat (?h + 1) = Suc (unat ?h)" by (simp add: unat_add_small)
  then have nz: "?h + 1 \<noteq> 0" by (metis nat.distinct(1) unat_0)
  have "rt_mutex_take mutex time ?s = Some (Ret RT_EOK, upd_mutex mutex (\<lambda>m. m\<lparr>m_hold := ?h + 1\<rparr>) ?e)"
    using o runningD(8,9)[OF liveD(1)[OF mutex_sys_live[OF i t(1)]]]
    by (simp add: rt_mutex_take_def reset_error(2) upd_mutex_def)
  then show ?thesis using hold_changes_inv[OF i t o nz, of ?e] u O(2) by simp
qed

lemma refused_take_inv:
  assumes i: "mutex_sys_inv mutex idle base c" and t: "rt_current_thread (mkern c) = Some t" "t \<notin> mcallers c"
  shows "mutex_sys_inv mutex idle base (c\<lparr>mkern := upd_thread t (\<lambda>th. th\<lparr>thread_error := e\<rparr>) (mkern c)\<rparr>)"
proof -
  note r = reset_error[of t e "mkern c"]
  have v: "live (mkern c) t" by (rule mutex_sys_live[OF i t(1)])
  have nw: "t \<notin> set (tlists (mkern c) (Suspend mutex))"
    using ready_not_waiting[OF liveD(4)[OF v]] liveD(6)[OF v] by (simp add: ready_def)
  have top: "top (upd_thread t (\<lambda>th. th\<lparr>thread_error := e\<rparr>) (mkern c)) = top (mkern c)" by (auto simp: top_def ready_def)
  show ?thesis using mutex_sys_invD(2)[OF i] v t(2) nw top
    by (intro mutex_sys_inv_frame[OF i, of _ t "\<lambda>_. True"]) (auto simp: given_def r ready_def)
qed

text \<open>A take that returns at once.\<close>

lemma mutex_take_inv:
  assumes i: "mutex_sys_inv mutex idle base c" and t: "rt_current_thread (mkern c) = Some t" "t \<notin> mcallers c" "t \<noteq> idle"
    and time: "legal_time time" and n: "count (holds c) t < 255" and k: "rt_mutex_take mutex time (mkern c) = Some (Ret r, s')"
  shows "mutex_sys_inv mutex idle base (c\<lparr>mkern := s', holds := (if r = RT_EOK then add_mset t (holds c) else holds c)\<rparr>)"
proof -
  note I = mutex_sys_invD[OF i]
  have v: "live (mkern c) t" by (rule mutex_sys_live[OF i t(1)])
  consider (free) "m_owner (mutexes (mkern c) mutex) = None" | (own) "m_owner (mutexes (mkern c) mutex) = Some t"
    | (other) ow where "m_owner (mutexes (mkern c) mutex) = Some ow" "ow \<noteq> t" by (metis option.exhaust)
  then show ?thesis
  proof cases
    case free
    then show ?thesis using free_take_inv[OF i t(1,2), of time] k by auto
  next
    case own
    then show ?thesis using nested_take_inv[OF i t(1,2) _ n, of time] k by auto
  next
    case other
    have "time = 0" using mutex_wait_live[OF v I(2) _ I(4) other time] t(3) k by auto
    then have "r = - RT_ETIMEOUT" "s' = upd_thread t (\<lambda>th. th\<lparr>thread_error := - RT_ETIMEOUT\<rparr>)
        (upd_thread t (\<lambda>th. th\<lparr>thread_error := RT_EOK\<rparr>) (mkern c))"
      using k other I(4) runningD(8,9)[OF liveD(1)[OF v]]
      by (auto simp: rt_mutex_take_def reset_error(2) mutex_ok_def mutex_free_def mutex_held_def Let_def)
    moreover have "upd_thread t (\<lambda>th. th\<lparr>thread_error := a\<rparr>) (upd_thread t (\<lambda>th. th\<lparr>thread_error := b\<rparr>) s)
        = upd_thread t (\<lambda>th. th\<lparr>thread_error := a\<rparr>) s" for a b and s :: "'a mutex_state_scheme" by (simp add: upd_thread_def)
    ultimately show ?thesis using refused_take_inv[OF i t(1,2), of "- RT_ETIMEOUT"] by simp
  qed
qed

text \<open>A take that goes to sleep, and the return from it.\<close>

lemma mutex_block_inv:
  assumes i: "mutex_sys_inv mutex idle base c" and t: "rt_current_thread (mkern c) = Some t" "t \<notin> mcallers c" "t \<noteq> idle"
    and time: "legal_time time" and k: "rt_mutex_take mutex time (mkern c) = Some (Wait b, s')"
  shows "mutex_sys_inv mutex idle base (c\<lparr>mkern := s', mcallers := insert b (mcallers c)\<rparr>)"
proof -
  note I = mutex_sys_invD[OF i]
  let ?s = "mkern c"
  let ?q = "tlists ?s (Suspend mutex)" and ?p = "\<lambda>v. current_priority (threads ?s v)"
  have v: "live ?s t" by (rule mutex_sys_live[OF i t(1)])
  note D = runningD(8,9)[OF liveD(1)[OF v]]
  have "m_owner (mutexes ?s mutex) \<noteq> None" using free_take_inv[OF i t(1,2), of time] k by auto
  moreover have "m_owner (mutexes ?s mutex) \<noteq> Some t" using k D by (auto simp: rt_mutex_take_def reset_error(2))
  ultimately obtain ow where ow: "m_owner (mutexes ?s mutex) = Some ow" "ow \<noteq> t" by auto
  then have h: "mutex_held ?s mutex ow" using I(4) by (auto simp: mutex_ok_def mutex_free_def mutex_held_def Let_def)
  have "time \<noteq> 0" using k D ow h by (auto simp: rt_mutex_take_def reset_error(2) mutex_held_def Let_def)
  then obtain u where u: "b = t" "live s' u" "top s'" "kframe ?s s'" "waits_for_owner t ow ?s s'"
    "tlists s' (Suspend mutex) = enqueue ?p IPC_FLAG_PRIO t ?q"
    using mutex_wait_live[OF v I(2) _ I(4) ow time] t(3) k I(5) by auto
  note W = u(5)[unfolded waits_for_owner_def, rule_format]
  have m: "mutexes s' = mutexes ?s" "objs s' (At mutex) = objs ?s (At mutex)"
    using mutex_field.get_kframe[OF u(4)] kframeD(8)[OF u(4)] by simp_all
  have q: "set (tlists s' (Suspend mutex)) = insert t (set ?q)" by (simp add: u(6))
  have nq: "ow \<notin> set (tlists s' (Suspend mutex))" using h ow(2) q by (simp add: mutex_held_def Let_def)
  have "mutex_ok s' mutex" using h nq W I(5) ow(2) by (auto simp: mutex_ok_def mutex_held_def Let_def m)
  moreover have "owned mutex (c\<lparr>mkern := s', mcallers := insert b (mcallers c)\<rparr>)"
    using I(6) W t(2) ow q u(1) by (auto simp: owned_def Let_def m given_def ready_def)
  moreover have "lends mutex base s'"
  proof -
    have "sorted (map ?p (enqueue ?p IPC_FLAG_PRIO t ?q))" using I(7) by (intro enqueue_sorted) (simp add: lends_def Let_def)
    moreover have "map (\<lambda>v. current_priority (threads s' v)) (enqueue ?p IPC_FLAG_PRIO t ?q) = map ?p (enqueue ?p IPC_FLAG_PRIO t ?q)"
      using nq W u(6) by (intro map_cong) auto
    ultimately have "sorted (map (\<lambda>v. current_priority (threads s' v)) (tlists s' (Suspend mutex)))" unfolding u(6) by metis
    then show ?thesis using I(7) W ow u(3) q nq by (auto simp: lends_def Let_def m)
  qed
  moreover have "ready s' idle" using I(2) W t(3) by (simp add: ready_def)
  ultimately show ?thesis using I(3,5) u(1,2) t(3) m(2) by (auto simp: mutex_sys_inv_def)
qed

lemma mutex_return_inv:
  assumes i: "mutex_sys_inv mutex idle base c" and t: "rt_current_thread (mkern c) = Some t" "t \<in> mcallers c"
  shows "mutex_sys_inv mutex idle base (c\<lparr>holds := (if rt_mutex_take_end t (mkern c) = RT_EOK then add_mset t (holds c) else holds c),
      mcallers := mcallers c - {t}\<rparr>)"
proof -
  note I = mutex_sys_invD[OF i]
  let ?s = "mkern c" and ?m = "mutexes (mkern c) mutex"
  have v: "live ?s t" by (rule mutex_sys_live[OF i t(1)])
  have nq: "t \<notin> set (tlists ?s (Suspend mutex))"
    using ready_not_waiting[OF liveD(4)[OF v]] liveD(6)[OF v] by (simp add: ready_def)
  have g: "rt_mutex_take_end t ?s = RT_EOK \<longleftrightarrow> m_owner ?m = Some t"
    using I(6) t(2) liveD(6)[OF v] by (auto simp: owned_def Let_def given_def rt_mutex_take_end_def)
  have "0 < unat (m_hold ?m)" if "m_owner ?m = Some t"
    using I(4) that by (auto simp: mutex_ok_def mutex_free_def mutex_held_def Let_def unat_gt_0)
  then have "add_mset t (holds c) = replicate_mset (unat (m_hold ?m)) t" if "m_owner ?m = Some t"
    using I(6) t(2) that by (cases "unat (m_hold ?m)") (auto simp: owned_def Let_def)
  then have "owned mutex (c\<lparr>holds := (if rt_mutex_take_end t ?s = RT_EOK then add_mset t (holds c) else holds c), mcallers := mcallers c - {t}\<rparr>)"
    using I(6) nq unfolding g by (auto simp: owned_def Let_def)
  then show ?thesis using I by (auto simp: mutex_sys_inv_def)
qed

subsection \<open>Releasing\<close>

text \<open>The last release: the owner has its own priority again, and the mutex is free or has been given to
  the first waiting thread.\<close>

lemma give_up_live:
  assumes v: "live s t" and p: "m_original_priority (mutexes s mutex) < RT_THREAD_PRIORITY_MAX"
  shows "\<exists>s' u. mutex_give_up mutex t s = Some (RT_EOK, s') \<and> live s' u \<and> objs s' (At mutex) = objs s (At mutex)
    \<and> (\<forall>x. thread_error (threads s' x) = thread_error (threads s x)
        \<and> current_priority (threads s' x) = (if x = t then m_original_priority (mutexes s mutex) else current_priority (threads s x))
        \<and> stat (threads s' x) = (if [x] = take 1 (tlists s (Suspend mutex)) then THREAD_READY else stat (threads s x)))
    \<and> tlists s' (Suspend mutex) = tl (tlists s (Suspend mutex))
    \<and> (case tlists s (Suspend mutex) of
         [] \<Rightarrow> mutexes s' mutex = (mutexes s mutex)\<lparr>m_value := m_value (mutexes s mutex) + 1, m_owner := None, m_original_priority := 0xff\<rparr>
       | w # ws \<Rightarrow> top s' \<and> mutexes s' mutex = (mutexes s mutex)\<lparr>m_owner := Some w,
           m_original_priority := current_priority (threads s' w), m_hold := m_hold (mutexes s mutex) + 1\<rparr>)"
proof -
  let ?p = "m_original_priority (mutexes s mutex)"
  obtain s1 where s1: "(if ?p \<noteq> current_priority (threads s t)
        then do { (r, s) \<leftarrow> rt_thread_control t 2 ?p s; Some s } else Some s) = Some s1"
    "live s1 t" "kframe s s1" "tlists s1 (Suspend mutex) = tlists s (Suspend mutex)"
    "\<And>x. thread_error (threads s1 x) = thread_error (threads s x)" "\<And>x. stat (threads s1 x) = stat (threads s x)"
    "\<And>x. current_priority (threads s1 x) = (if x = t then ?p else current_priority (threads s x))"
  proof (cases "?p = current_priority (threads s t)")
    case False
    obtain s1 where "rt_thread_control t 2 ?p s = Some (RT_EOK, s1)" "live s1 t" "kframe s s1"
      "threads s1 = (threads s)(t := (threads s t)\<lparr>current_priority := ?p, number_mask := push_bit ?p 1\<rparr>)"
      "\<forall>m. wait_list m \<longrightarrow> tlists s1 m = tlists s m"
      using set_priority_live[OF v p, of t] liveD(6)[OF v] by (auto simp: ready_def)
    then show ?thesis using False by (intro that[of s1]) auto
  qed (use v in \<open>auto intro: that[of s]\<close>)
  have f1: "mutexes s1 = mutexes s" "objs s1 (At mutex) = objs s (At mutex)"
    using mutex_field.get_kframe[OF s1(3)] kframeD(8)[OF s1(3)] by simp_all
  note S = mutex_field.upd_simps mutex_field.get_upd f1
  show ?thesis
  proof (cases "tlists s (Suspend mutex)")
    case Nil
    let ?u = "upd_mutex mutex (\<lambda>m. m\<lparr>m_value := m_value m + 1, m_owner := None, m_original_priority := 0xff\<rparr>) s1"
    have "mutex_give_up mutex t s = Some (RT_EOK, ?u)" unfolding mutex_give_up_def s1(1) using Nil s1(4) by simp
    then show ?thesis using mutex_field.upd_live[OF s1(2)] s1(4-7) Nil
      by (intro exI[of _ ?u] exI[of _ t]) (simp add: S)
  next
    case (Cons w ws)
    define s2 where "s2 = upd_mutex mutex (\<lambda>m. m\<lparr>m_owner := Some w, m_original_priority := current_priority (threads s1 w),
      m_hold := m_hold m + 1\<rparr>) s1"
    have q2: "tlists s2 (Suspend mutex) = w # ws" using Cons s1(4) by (simp add: s2_def S)
    obtain s3 s' u where s': "rt_ipc_list_resume (Suspend mutex) s2 = Some s3" "rt_schedule s3 = Some s'" "live s' u" "kframe s2 s'"
      "threads s' = (threads s2)(w := (threads s2 w)\<lparr>stat := THREAD_READY\<rparr>)" "tlists s' (Suspend mutex) = ws"
      using live_wakes[OF mutex_field.upd_live[OF s1(2)] _ q2[unfolded s2_def]] unfolding s2_def[symmetric] by (auto simp: waits_as_def)
    have "mutex_give_up mutex t s = Some (RT_EOK, s')"
      unfolding mutex_give_up_def s1(1) using Cons s1(4) s'(1,2) by (simp add: s2_def)
    moreover have "mutexes s' = mutexes s2" "objs s' (At mutex) = objs s2 (At mutex)"
      using mutex_field.get_kframe[OF s'(4)] kframeD(8)[OF s'(4)] by simp_all
    moreover have "top s'" using running_top[OF s'(2) liveD(1)[OF s'(3)]] .
    ultimately show ?thesis using s'(3,5,6) s1(5-7) Cons by (intro exI[of _ s'] exI[of _ u]) (simp add: s2_def S)
  qed
qed

lemma last_release_inv:
  assumes i: "mutex_sys_inv mutex idle base c" and t: "rt_current_thread (mkern c) = Some t" "t \<notin> mcallers c"
    and o: "m_owner (mutexes (mkern c) mutex) = Some t" and h: "m_hold (mutexes (mkern c) mutex) = 1"
  shows "\<exists>s'. rt_mutex_release mutex (mkern c) = Some (RT_EOK, s')
    \<and> mutex_sys_inv mutex idle base (c\<lparr>mkern := s', holds := holds c - {#t#}\<rparr>)"
proof -
  note I = mutex_sys_invD[OF i] and O = owner_runs[OF i o t(2)]
  let ?s = "mkern c"
  have v: "live ?s t" by (rule mutex_sys_live[OF i t(1)])
  have L: "m_original_priority (mutexes ?s mutex) = base t" "\<And>x. x \<noteq> t \<Longrightarrow> current_priority (threads ?s x) = base x"
    using I(7) o by (auto simp: lends_def Let_def)
  have H: "m_value (mutexes ?s mutex) = 0" "base t < RT_THREAD_PRIORITY_MAX" "t \<notin> set (tlists ?s (Suspend mutex))" "holds c = {#t#}"
    using O L(1) h by (simp_all add: mutex_held_def Let_def)
  define s0 where "s0 = upd_mutex mutex (\<lambda>m. m\<lparr>m_hold := m_hold m - 1\<rparr>) ?s"
  have s0: "mutexes s0 mutex = (mutexes ?s mutex)\<lparr>m_hold := 0\<rparr>" "tlists s0 = tlists ?s" "threads s0 = threads ?s" "objs s0 = objs ?s"
    by (simp_all add: s0_def mutex_field.get_upd mutex_field.upd_simps h)
  obtain s' u where s': "mutex_give_up mutex t s0 = Some (RT_EOK, s')" "live s' u" "objs s' (At mutex) = objs ?s (At mutex)"
    "\<And>x. thread_error (threads s' x) = thread_error (threads ?s x)"
    "\<And>x. current_priority (threads s' x) = (if x = t then base t else current_priority (threads ?s x))"
    "\<And>x. stat (threads s' x) = (if [x] = take 1 (tlists ?s (Suspend mutex)) then THREAD_READY else stat (threads ?s x))"
    "tlists s' (Suspend mutex) = tl (tlists ?s (Suspend mutex))"
    "case tlists ?s (Suspend mutex) of
         [] \<Rightarrow> mutexes s' mutex = (mutexes s0 mutex)\<lparr>m_value := m_value (mutexes s0 mutex) + 1, m_owner := None, m_original_priority := 0xff\<rparr>
       | w # ws \<Rightarrow> top s' \<and> mutexes s' mutex = (mutexes s0 mutex)\<lparr>m_owner := Some w,
           m_original_priority := current_priority (threads s' w), m_hold := m_hold (mutexes s0 mutex) + 1\<rparr>"
    using give_up_live[of s0 t mutex] mutex_field.upd_live[OF v, of mutex "\<lambda>m. m\<lparr>m_hold := m_hold m - 1\<rparr>"] H(2) L(1)
    unfolding s0_def[symmetric] s0 by auto
  have rel: "rt_mutex_release mutex ?s = Some (RT_EOK, s')"
    using o runningD(8,9)[OF liveD(1)[OF v]] s'(1) s0(1) by (simp add: rt_mutex_release_def flip: s0_def)
  have base: "current_priority (threads s' x) = base x" for x using s'(5) L(2) by auto
  have flag: "o_flag (objs s' (At mutex)) = IPC_FLAG_PRIO" using s'(3) I(5) by simp
  have given: "given s' x \<longleftrightarrow> [x] = take 1 (tlists ?s (Suspend mutex))" if "x \<in> mcallers c" for x
    using I(6) o t(2) that s'(4,6) by (cases "tlists ?s (Suspend mutex)") (auto simp: owned_def Let_def given_def ready_def)
  have ri: "ready s' idle" using I(2) s'(6) by (simp add: ready_def)
  have "mutex_ok s' mutex \<and> owned mutex (c\<lparr>mkern := s', holds := {#}\<rparr>) \<and> lends mutex base s'"
  proof (cases "tlists ?s (Suspend mutex)")
    case Nil
    then have mu: "mutexes s' mutex = \<lparr>m_value = 1, m_original_priority = 0xff, m_hold = 0, m_owner = None\<rparr>"
      using s'(8) H(1) s0(1) by simp
    have "tlists s' (Suspend mutex) = []" using s'(7) Nil by simp
    then show ?thesis using flag given Nil base by (auto simp: mutex_ok_def mutex_free_def owned_def lends_def mu Let_def)
  next
    case (Cons w ws)
    then have mu: "mutexes s' mutex = \<lparr>m_value = 0, m_original_priority = base w, m_hold = 1, m_owner = Some w\<rparr>" and top: "top s'"
      using s'(8) H(1) s0(1) base by simp_all
    have q: "tlists s' (Suspend mutex) = ws" using s'(7) Cons by simp
    have w: "w \<noteq> t" "w \<notin> set ws" using H(3) Cons waiting_distinct[OF liveD(4)[OF v], of "Suspend mutex"] by auto
    have "current_priority (threads ?s w) < RT_THREAD_PRIORITY_MAX"
      using kinvD(5)[OF liveD(4)[OF v], of w] waiting_stat[OF liveD(4)[OF v], of "Suspend mutex" w] Cons by (simp add: wf_thread_def)
    then have "mutex_ok s' mutex" using flag q w s'(6) Cons L(2)[OF w(1)] by (auto simp: mutex_ok_def mutex_held_def mu)
    moreover have "owned mutex (c\<lparr>mkern := s', holds := {#}\<rparr>)"
      using I(6) given Cons s'(4) by (auto simp: owned_def Let_def mu q)
    moreover have "sorted (map base (w # ws))"
    proof -
      have "map (\<lambda>x. current_priority (threads ?s x)) (w # ws) = map base (w # ws)" using H(3) Cons by (intro map_cong refl L(2)) auto
      then show ?thesis using I(7) Cons unfolding lends_def Let_def by metis
    qed
    then have "lends mutex base s'" using top by (simp add: lends_def Let_def mu q base)
    ultimately show ?thesis by blast
  qed
  then show ?thesis using rel I(3) s'(2) ri flag H(4) by (auto simp: mutex_sys_inv_def)
qed

lemma mutex_release_inv:
  assumes i: "mutex_sys_inv mutex idle base c" and t: "rt_current_thread (mkern c) = Some t" "t \<notin> mcallers c"
    and k: "rt_mutex_release mutex (mkern c) = Some (r, s')"
  shows "mutex_sys_inv mutex idle base (c\<lparr>mkern := s', holds := (if r = RT_EOK then holds c - {#t#} else holds c)\<rparr>)"
proof (cases "m_owner (mutexes (mkern c) mutex) = Some t")
  case True
  note D = runningD(8,9)[OF liveD(1)[OF mutex_sys_live[OF i t(1)]]] and O = owner_runs[OF i True t(2)]
  let ?h = "m_hold (mutexes (mkern c) mutex)"
  show ?thesis
  proof (cases "?h = 1")
    case one: True
    then show ?thesis using last_release_inv[OF i t True] k by auto
  next
    case False
    then have nz: "?h - 1 \<noteq> 0" by simp
    have "r = RT_EOK" "s' = upd_mutex mutex (\<lambda>m. m\<lparr>m_hold := ?h - 1\<rparr>) (mkern c)"
      using k True D nz by (auto simp: rt_mutex_release_def upd_mutex_def)
    moreover have "unat (?h - 1) = unat ?h - 1" using O(1) by (simp add: unat_minus_one mutex_held_def Let_def)
    moreover have "replicate_mset n t - {#t#} = replicate_mset (n - 1) t" for n by (cases n) simp_all
    ultimately show ?thesis using hold_changes_inv[OF i t True nz, of "mkern c"] O(2) by simp
  qed
next
  case False
  then have "r = - RT_ERROR" "s' = upd_thread t (\<lambda>th. th\<lparr>thread_error := - RT_ERROR\<rparr>) (mkern c)"
    using k runningD(8,9)[OF liveD(1)[OF mutex_sys_live[OF i t(1)]]] by (auto simp: rt_mutex_release_def)
  then show ?thesis using refused_take_inv[OF i t] by simp
qed

subsection \<open>The other steps\<close>

lemma mutex_wake_inv:
  assumes i: "mutex_sys_inv mutex idle base c" and t: "rt_current_thread (mkern c) = Some t" "t \<notin> mcallers c"
  shows "mutex_sys_inv mutex idle base (c\<lparr>mkern := snd (rt_thread_sleep_end t (mkern c))\<rparr>)"
  using refused_take_inv[OF i t, of RT_EOK] i by (simp add: rt_thread_sleep_end_def)

lemma mutex_yield_inv:
  assumes i: "mutex_sys_inv mutex idle base c" and t: "rt_current_thread (mkern c) = Some t"
    and k: "rt_thread_yield (mkern c) = Some (r, s')"
  shows "mutex_sys_inv mutex idle base (c\<lparr>mkern := s'\<rparr>)"
proof -
  obtain u where u: "live s' u" "kframe (mkern c) s'" "threads s' = threads (mkern c)"
    "tlists s' (Suspend mutex) = tlists (mkern c) (Suspend mutex)"
    using live_yields[OF mutex_sys_live[OF i t]] k by auto
  show ?thesis using mutex_sys_invD(2)[OF i] u mutex_field.get_kframe[OF u(2)] kframeD(8)[OF u(2)] yield_top[OF k liveD(1)[OF u(1)]]
    by (intro mutex_sys_inv_frame[OF i u(1), of "\<lambda>_. True"]) (auto simp: ready_def given_def)
qed

lemma mutex_sleep_inv:
  assumes i: "mutex_sys_inv mutex idle base c" and t: "rt_current_thread (mkern c) = Some t" "t \<notin> mcallers c" "t \<noteq> idle"
    and m: "m < RT_TICK_HALF" and k: "rt_thread_sleep m (mkern c) = Some (r, s')"
  shows "mutex_sys_inv mutex idle base (c\<lparr>mkern := s'\<rparr>)"
proof -
  note I = mutex_sys_invD[OF i]
  obtain u where u: "r = Wait t" "live s' u" "kframe (mkern c) s'"
    "threads s' = (threads (mkern c))(t := (threads (mkern c) t)\<lparr>stat := THREAD_SUSPEND\<rparr>)"
    "tlists s' (Suspend mutex) = tlists (mkern c) (Suspend mutex)"
    using live_sleeps[OF mutex_sys_live[OF i t(1)] I(2) _ m] t(3) k by auto
  have top: "top s'" using sleep_top[OF k[unfolded u(1)] liveD(1)[OF u(2)]] .
  show ?thesis using I(2) u(3-5) t(2,3) mutex_field.get_kframe[OF u(3)] kframeD(8)[OF u(3)] top
    by (intro mutex_sys_inv_frame[OF i u(2), of "\<lambda>_. True"]) (auto simp: ready_def given_def)
qed

lemma mutex_tick_inv:
  assumes i: "mutex_sys_inv mutex idle base c" and k: "rt_tick_increase user (mkern c) = Some s'"
  shows "mutex_sys_inv mutex idle base (c\<lparr>mkern := s'\<rparr>)"
proof -
  note I = mutex_sys_invD[OF i]
  obtain t where v: "live (mkern c) t" using I(1) by blast
  obtain s1 u W q where u: "live s' u" "kframe ((mkern c)\<lparr>rt_tick := rt_tick (mkern c) + 1\<rparr>) s'" "timed_out W s1 s'"
    "tlists s1 (Suspend mutex) = tlists (mkern c) (Suspend mutex)"
    "threads s1 = (threads (mkern c))(t := (threads (mkern c) t)\<lparr>remaining_tick := q\<rparr>)" "top (mkern c) \<longrightarrow> top s'"
    using live_ticks[OF v, of user] k by auto
  have th: "thread_error (threads s' v) = (if v \<in> W then - RT_ETIMEOUT else thread_error (threads (mkern c) v))"
    "stat (threads s' v) = (if v \<in> W then THREAD_READY else stat (threads (mkern c) v))"
    "current_priority (threads s' v) = current_priority (threads (mkern c) v)" for v
    using u(3,5) by (auto simp: timed_out_def)
  have sus: "\<not> ready (mkern c) v" if "v \<in> W" for v using u(3,5) that by (auto simp: timed_out_def ready_def split: if_splits)
  have q: "tlists s' (Suspend mutex) = filter (\<lambda>v. v \<notin> W) (tlists (mkern c) (Suspend mutex))"
    using u(3,4) by (simp add: timed_out_def)
  have "ready s' idle" using I(2) sus by (auto simp: ready_def th(2))
  moreover have "mutexes s' = mutexes (mkern c)" "objs s' (At mutex) = objs (mkern c) (At mutex)"
    using mutex_field.get_kframe[OF u(2)] kframeD(8)[OF u(2)] by simp_all
  ultimately show ?thesis using sus u(6)
    by (intro mutex_sys_inv_frame[OF i u(1) _ q]) (auto simp: q th ready_def given_def)
qed

lemma mutex_step_inv: "mutex_step user mutex idle c c' \<Longrightarrow> mutex_sys_inv mutex idle base c \<Longrightarrow> mutex_sys_inv mutex idle base c'"
proof (induction rule: mutex_step.induct)
  case take then show ?case by (metis mutex_take_inv)
next
  case block then show ?case by (metis mutex_block_inv)
next
  case return then show ?case by (metis mutex_return_inv)
next
  case release then show ?case by (metis mutex_release_inv)
next
  case yield then show ?case by (metis mutex_yield_inv)
next
  case sleep then show ?case by (metis mutex_sleep_inv)
next
  case wake then show ?case by (metis mutex_wake_inv)
next
  case tick then show ?case by (metis mutex_tick_inv)
qed

lemma mutex_reach_inv:
  "(mutex_step user mutex idle)\<^sup>*\<^sup>* c c' \<Longrightarrow> mutex_sys_inv mutex idle base c \<Longrightarrow> mutex_sys_inv mutex idle base c'"
  by (induction rule: rtranclp_induct) (auto intro: mutex_step_inv)

subsection \<open>Properties\<close>

definition mutex_start :: "'a mutex_state_scheme \<Rightarrow> 'a mutex_config" where
  "mutex_start s = \<lparr>mkern = s, holds = {#}, mcallers = {}\<rparr>"

lemma mutex_start_inv:
  assumes "live s t" "ready s idle" "mutex_free s mutex" "o_flag (objs s (At mutex)) = IPC_FLAG_PRIO"
  shows "mutex_sys_inv mutex idle (\<lambda>v. current_priority (threads s v)) (mutex_start s)"
  using assms by (auto simp: mutex_sys_inv_def mutex_start_def mutex_ok_def owned_def lends_def mutex_free_def Let_def)

text \<open>C2: Mutual exclusion and progress, for threads that share one mutex whose queue is by priority, each of which nests
  at most 255 takes. Whatever the interleaving of takes, releases, time-outs, yields, sleeps
  and ticks, all takes that have not been released are those of one thread, the owner, and their number
  is the counter of the mutex (less one while the owner, to which the mutex was handed over, has not run since); and
  every call the running thread can make returns.\<close>

theorem mutex_excludes:
  assumes "live s t" "ready s idle" "mutex_free s mutex" "o_flag (objs s (At mutex)) = IPC_FLAG_PRIO"
    and "(mutex_step user mutex idle)\<^sup>*\<^sup>* (mutex_start s) c" "legal_time time" "n < RT_TICK_HALF"
  shows "(case m_owner (mutexes (mkern c) mutex) of
       None \<Rightarrow> holds c = {#}
     | Some ow \<Rightarrow> holds c = replicate_mset (unat (m_hold (mutexes (mkern c) mutex)) - (if ow \<in> mcallers c then 1 else 0)) ow)
   \<and> (\<exists>u. rt_current_thread (mkern c) = Some u \<and> ready (mkern c) u
        \<and> (u \<notin> mcallers c \<and> u \<noteq> idle \<longrightarrow> rt_mutex_take mutex time (mkern c) \<noteq> None \<and> rt_thread_sleep n (mkern c) \<noteq> None)
        \<and> (u \<notin> mcallers c \<longrightarrow> rt_mutex_release mutex (mkern c) \<noteq> None)
        \<and> rt_thread_yield (mkern c) \<noteq> None \<and> rt_tick_increase user (mkern c) \<noteq> None)"
proof -
  have i: "mutex_sys_inv mutex idle (\<lambda>v. current_priority (threads s v)) c"
    using mutex_reach_inv[OF assms(5)] mutex_start_inv[OF assms(1-4)] by blast
  note I = mutex_sys_invD[OF i]
  obtain u where v: "live (mkern c) u" using I(1) by blast
  note D = runningD(8,9)[OF liveD(1)[OF v]] and cu = liveD(5)[OF v]
  have "rt_mutex_take mutex time (mkern c) \<noteq> None" "rt_thread_sleep n (mkern c) \<noteq> None" if u: "u \<notin> mcallers c" "u \<noteq> idle"
  proof -
    show "rt_thread_sleep n (mkern c) \<noteq> None" using live_sleeps[OF v I(2) _ assms(7)] u(2) by auto
    consider "m_owner (mutexes (mkern c) mutex) = None" | "m_owner (mutexes (mkern c) mutex) = Some u"
      | ow where "m_owner (mutexes (mkern c) mutex) = Some ow" "ow \<noteq> u" "time \<noteq> 0" | "time = 0" by (metis option.exhaust)
    then show "rt_mutex_take mutex time (mkern c) \<noteq> None"
    proof cases
      case 1 then show ?thesis using free_take_inv[OF i cu u(1), of time] by auto
    next
      case 2 then show ?thesis using D by (simp add: rt_mutex_take_def reset_error(2))
    next
      case 3 then show ?thesis using mutex_wait_live[OF v I(2) _ I(4) _ _ assms(6)] u(2) by fastforce
    next
      case 4 then show ?thesis using D by (auto simp: rt_mutex_take_def Let_def)
    qed
  qed
  moreover have "rt_mutex_release mutex (mkern c) \<noteq> None" if "u \<notin> mcallers c"
    using last_release_inv[OF i cu that] D by (auto simp: rt_mutex_release_def mutex_field.get_upd Let_def)
  moreover have "rt_thread_yield (mkern c) \<noteq> None" "rt_tick_increase user (mkern c) \<noteq> None"
    using live_yields[OF v] live_ticks[OF v, of user] by auto
  moreover have "case m_owner (mutexes (mkern c) mutex) of None \<Rightarrow> holds c = {#}
     | Some ow \<Rightarrow> holds c = replicate_mset (unat (m_hold (mutexes (mkern c) mutex)) - (if ow \<in> mcallers c then 1 else 0)) ow"
    using I(6) by (cases "m_owner (mutexes (mkern c) mutex)") (auto simp: owned_def Let_def)
  ultimately show ?thesis using cu liveD(6)[OF v] by blast
qed

text \<open>C3: Priority inversion is bounded, for threads that share one mutex whose queue is by priority
  (\<open>IPC_FLAG_PRIO\<close>): in every state that a system of such threads reaches, while a thread waits for
  the mutex, the owner runs at least at its priority, so when the owner is ready, the thread that runs is the owner or has by itself a
  priority at least as high as that of the waiting thread; and no thread but the owner has a priority other
  than its own. Mutexes with a queue in order of arrival, for which this fails, and threads that hold several mutexes
  at a time are outside of the claim.\<close>

theorem inversion_bounded:
  assumes "live s t" "ready s idle" "mutex_free s mutex" "o_flag (objs s (At mutex)) = IPC_FLAG_PRIO"
    and "(mutex_step user mutex idle)\<^sup>*\<^sup>* (mutex_start s) c"
    and "m_owner (mutexes (mkern c) mutex) = Some ow" "w \<in> set (tlists (mkern c) (Suspend mutex))"
    and "rt_current_thread (mkern c) = Some u"
  defines "base \<equiv> \<lambda>v. current_priority (threads s v)"
  shows "current_priority (threads (mkern c) ow) \<le> base w \<and> (ready (mkern c) ow \<longrightarrow> u = ow \<or> base u \<le> base w)
    \<and> (\<forall>v. v \<noteq> ow \<longrightarrow> current_priority (threads (mkern c) v) = base v)"
proof -
  have i: "mutex_sys_inv mutex idle base c"
    using mutex_reach_inv[OF assms(5)] mutex_start_inv[OF assms(1-4)] unfolding base_def by blast
  note I = mutex_sys_invD[OF i]
  have "w \<noteq> ow" using I(4) assms(6,7) by (auto simp: mutex_ok_def mutex_free_def mutex_held_def Let_def)
  moreover have L: "\<And>v. v \<noteq> ow \<Longrightarrow> current_priority (threads (mkern c) v) = base v" "top (mkern c)"
    "current_priority (threads (mkern c) ow) \<le> current_priority (threads (mkern c) w)"
    using I(7) assms(6,7) by (auto simp: lends_def Let_def)
  ultimately have "current_priority (threads (mkern c) ow) \<le> base w" by metis
  moreover have "base u \<le> base w" if "ready (mkern c) ow" "u \<noteq> ow"
    using L(1)[OF that(2)] L(2) that(1) assms(8) calculation unfolding top_def by fastforce
  ultimately show ?thesis using L(1) by blast
qed

subsection \<open>Witnesses\<close>

text \<open>Three ready threads: 3 runs at priority 15, 2 has priority 10, 1 with priority 20 is the idle thread. The
  free mutex at address 7 queues by priority.\<close>

definition demo_three :: "lhead \<Rightarrow> tid list" where
  "demo_three l = (if l = Ready 20 then [1] else if l = Ready 10 then [2] else if l = Ready 15 then [3] else [])"

definition demo_lock :: mutex_state where
  "demo_lock = (demo_kernel \<lparr>sems = (\<lambda>_. 0), mutexes = (\<lambda>_. \<lparr>m_value = 1, m_original_priority = 0xff, m_hold = 0, m_owner = None\<rparr>)\<rparr>)
     \<lparr>threads := demo_threads(3 := demo_thread 15 THREAD_READY), tlists := demo_three, rt_thread_ready_priority_group := 0x108400,
      rt_current_thread := Some 3, objs := (\<lambda>p. (demo_obj p)\<lparr>o_flag := (case p of At a \<Rightarrow> 1 | ThreadTimer v \<Rightarrow> 0)\<rparr>)\<rparr>"

lemma bit_demo_three: "bit (0x108400 :: rt_uint32_t) p \<longleftrightarrow> p = 10 \<or> p = 15 \<or> p = 20"
proof -
  have "(0x108400 :: rt_uint32_t) = push_bit 10 1 OR push_bit 15 1 OR push_bit 20 1" by simp
  then show ?thesis by (simp only: bit_or_iff bit_push_bit_iff bit_1_iff) auto
qed

lemma demo_lock_simps [simp]:
  "threads demo_lock = demo_threads(3 := demo_thread 15 THREAD_READY)" "tlists demo_lock = demo_three"
  "rt_thread_ready_priority_group demo_lock = 0x108400" "rt_current_thread demo_lock = Some 3"
  "objs demo_lock (At a) = (demo_obj (At a))\<lparr>o_flag := 1\<rparr>" "objs demo_lock (ThreadTimer v) = demo_obj (ThreadTimer v)"
  "rt_timer_list demo_lock = [[]]" "timers demo_lock = demo_timer" "rt_scheduler_lock_nest demo_lock = 0" "rt_interrupt_nest demo_lock = 0"
  "mutexes demo_lock = (\<lambda>_. \<lparr>m_value = 1, m_original_priority = 0xff, m_hold = 0, m_owner = None\<rparr>)"
  by (simp_all add: demo_lock_def demo_kernel_def sched_state.defs demo_sched_def demo_obj_def)

lemma demo_lock_sched: "sched_inv demo_lock"
  unfolding sched_inv_def sched_ok_def
proof (intro conjI allI impI)
  show "store_ok (tlists demo_lock)" by (auto simp: store_ok_def demo_three_def)
  show "stat (threads demo_lock t) = list_stat l" if "t \<in> set (tlists demo_lock l)" for l t
    using that by (auto simp: demo_three_def demo_threads_def demo_thread_def split: if_splits)
  show "t \<in> set (tlists demo_lock (Ready p)) \<longleftrightarrow>
      stat (threads demo_lock t) = THREAD_READY \<and> current_priority (threads demo_lock t) = p" for p t
    by (auto simp: demo_three_def demo_threads_def demo_thread_def)
  show "wf_thread (threads demo_lock t)" if "stat (threads demo_lock t) \<in> {THREAD_READY, THREAD_SUSPEND}" for t
    using that by (auto simp: demo_threads_def demo_thread_def wf_thread_def)
  show "bit (rt_thread_ready_priority_group demo_lock) p \<longleftrightarrow> tlists demo_lock (Ready p) \<noteq> []" for p
    using bit_demo_three[of p] by (auto simp: demo_three_def)
qed

lemma demo_lock_facts:
  "live demo_lock 3" "ready demo_lock 1" "mutex_free demo_lock 7" "o_flag (objs demo_lock (At 7)) = IPC_FLAG_PRIO"
proof -
  have "timer_inv demo_lock" by (simp add: timer_inv_def rows_ok_def active_timers_def)
  moreover have "thread_timers demo_lock"
    by (simp add: thread_timers_def active_timers_def timer_of_thread_def demo_timer_def) (simp add: demo_obj_def)
  ultimately have "kinv demo_lock" using demo_lock_sched by (simp add: kinv_def)
  moreover have "stack_ok (threads demo_lock v)" for v
    by (simp add: demo_threads_def demo_thread_def stack_ok_def add32_def)
  ultimately show "live demo_lock 3"
    by (simp add: live_def running_def only_thread_timers_def timers_pending_def active_timers_def ready_def)
       (simp add: demo_thread_def)
  show "ready demo_lock 1" "mutex_free demo_lock 7" "o_flag (objs demo_lock (At 7)) = IPC_FLAG_PRIO"
    by (simp_all add: ready_def mutex_free_def demo_three_def) (simp add: demo_threads_def demo_thread_def)
qed

text \<open>Thread 3 takes the mutex and sleeps; thread 2 runs, wants the mutex and waits.\<close>

lemma demo_contention:
  "\<exists>c u. (mutex_step user 7 1)\<^sup>*\<^sup>* (mutex_start demo_lock) c \<and> m_owner (mutexes (mkern c) 7) = Some 3
    \<and> set (tlists (mkern c) (Suspend 7)) = {2} \<and> rt_current_thread (mkern c) = Some u"
proof -
  have base: "mutex_sys_inv 7 1 (\<lambda>v. current_priority (threads demo_lock v)) (mutex_start demo_lock)"
    by (rule mutex_start_inv[OF demo_lock_facts])
  have start: "mkern (mutex_start demo_lock) = demo_lock" "mcallers (mutex_start demo_lock) = {}" "holds (mutex_start demo_lock) = {#}"
    by (simp_all add: mutex_start_def)
  define s1 where "s1 = upd_mutex 7 (\<lambda>m. m\<lparr>m_value := m_value m - 1, m_owner := Some 3, m_original_priority := 15, m_hold := m_hold m + 1\<rparr>)
    (upd_thread 3 (\<lambda>th. th\<lparr>thread_error := RT_EOK\<rparr>) demo_lock)"
  define c1 where "c1 = (mutex_start demo_lock)\<lparr>mkern := s1, holds := {#3#}\<rparr>"
  have "rt_mutex_take 7 5 demo_lock = Some (Ret RT_EOK, s1)"
    using runningD(8,9)[OF liveD(1)[OF demo_lock_facts(1)]]
    by (simp add: rt_mutex_take_def reset_error(2) s1_def) (simp add: demo_thread_def)
  then have st1: "mutex_step user 7 1 (mutex_start demo_lock) c1"
    using mutex_step.take[of "mutex_start demo_lock" 3 1 5 7 RT_EOK s1 user] start legal_time_5 by (simp add: c1_def)
  have e1: "mutexes s1 7 = \<lparr>m_value = 0, m_original_priority = 15, m_hold = 1, m_owner = Some 3\<rparr>" "tlists s1 = demo_three"
    "rt_current_thread s1 = Some 3" "\<And>v. stat (threads s1 v) = stat (threads demo_lock v)"
    "\<And>v. current_priority (threads s1 v) = current_priority (threads demo_lock v)"
    by (simp_all add: s1_def mutex_field.get_upd mutex_field.upd_simps reset_error(2))
  note i1 = mutex_step_inv[OF st1 base]
  have v1: "live s1 3" "ready s1 1" using mutex_sys_live[OF i1] mutex_sys_invD(2)[OF i1] e1(3) by (simp_all add: c1_def)
  obtain s2 u where s2: "rt_thread_sleep 5 s1 = Some (Wait 3, s2)" "live s2 u" "kframe s1 s2"
    "threads s2 = (threads s1)(3 := (threads s1 3)\<lparr>stat := THREAD_SUSPEND\<rparr>)" "tlists s2 (Suspend 7) = []"
    using live_sleeps[OF v1, of 5] e1(2) by (auto simp: demo_three_def)
  have th2: "ready s2 v \<longleftrightarrow> v = 1 \<or> v = 2" "current_priority (threads s2 v) = current_priority (threads demo_lock v)" for v
    by (auto simp: ready_def s2(4) e1(4,5)) (auto simp: demo_threads_def demo_thread_def split: if_splits)
  have "current_priority (threads s2 u) \<le> current_priority (threads s2 2)"
    using sleep_top[OF s2(1) liveD(1)[OF s2(2)]] liveD(5)[OF s2(2)] th2(1)[of 2] unfolding top_def by blast
  moreover have "u = 1 \<or> u = 2" using th2(1) liveD(6)[OF s2(2)] by blast
  ultimately have u: "u = 2" by (auto simp: th2(2)) (simp add: demo_threads_def demo_thread_def)
  define c2 where "c2 = c1\<lparr>mkern := s2\<rparr>"
  have st2: "mutex_step user 7 1 c1 c2" using mutex_step.sleep[where c = c1 and t = 3 and idle = 1 and n = 5 and w = "Wait 3" and s' = s2 and user = user] s2(1) e1(3) start by (simp add: c1_def c2_def)
  note i2 = mutex_sys_invD[OF mutex_step_inv[OF st2 i1]]
  have m2: "m_owner (mutexes s2 7) = Some 3" using mutex_field.get_kframe[OF s2(3)] e1(1) by simp
  obtain s3 x where s3: "rt_mutex_take 7 5 s2 = Some (Wait 2, s3)" "live s3 x" "kframe s2 s3" "set (tlists s3 (Suspend 7)) = {2}"
    using mutex_wait_live[OF s2(2)[unfolded u], of 1 7 3 5] i2(2,4) m2 legal_time_5 s2(5) by (auto simp: c2_def)
  define c3 where "c3 = c2\<lparr>mkern := s3, mcallers := {2}\<rparr>"
  have "mutex_step user 7 1 c2 c3"
    using mutex_step.block[where c = c2 and t = 2 and idle = 1 and time = 5 and mutex = 7 and b = 2 and s' = s3 and user = user] s3(1) liveD(5)[OF s2(2)] u legal_time_5 start by (simp add: c1_def c2_def c3_def)
  then have "(mutex_step user 7 1)\<^sup>*\<^sup>* (mutex_start demo_lock) c3" using st1 st2 by (meson rtranclp.rtrancl_into_rtrancl rtranclp.rtrancl_refl)
  then show ?thesis using mutex_field.get_kframe[OF s3(3)] m2 s3(4) liveD(5)[OF s3(2)] by (auto simp: c3_def)
qed

theorem mutex_excludes_witness:
  "\<exists>c :: unit mutex_config. m_owner (mutexes (mkern c) 7) = Some 3 \<and> set_mset (holds c) \<subseteq> {3}
    \<and> rt_tick_increase (\<lambda>_ _ s. Some s) (mkern c) \<noteq> None"
proof -
  obtain c u where c: "(mutex_step (\<lambda>_ _ s. Some s) 7 1)\<^sup>*\<^sup>* (mutex_start demo_lock) c" "m_owner (mutexes (mkern c) 7) = Some 3"
    using demo_contention by blast
  show ?thesis using mutex_excludes[OF demo_lock_facts c(1) legal_time_5, of 3] c(2)
    by (intro exI[of _ c]) (auto split: if_splits)
qed

theorem inversion_bounded_witness:
  "\<exists>c :: unit mutex_config. 2 \<in> set (tlists (mkern c) (Suspend 7)) \<and> current_priority (threads (mkern c) 3) \<le> 10"
proof -
  obtain c u where c: "(mutex_step (\<lambda>_ _ s. Some s) 7 1)\<^sup>*\<^sup>* (mutex_start demo_lock) c" "m_owner (mutexes (mkern c) 7) = Some 3"
    "set (tlists (mkern c) (Suspend 7)) = {2}" "rt_current_thread (mkern c) = Some u" using demo_contention by blast
  have "current_priority (threads demo_lock 2) = 10" by (simp add: demo_threads_def demo_thread_def)
  then show ?thesis using inversion_bounded[OF demo_lock_facts c(1,2) _ c(4), of 2] c(3) by auto
qed

end
