(* ===== verification/ObjectHeap.thy ===== *)
theory ObjectHeap
  imports Heap Object
begin

text \<open>
  Kernel objects and the heap together, \<^verbatim>\<open>src/object.c\<close> over \<^verbatim>\<open>src/mem.c\<close>. Every object in a container
  list has the type of that list in its header; the flag \<^verbatim>\<open>RT_Object_Class_Static\<close> tells the two kinds
  of objects apart: those given by the user, which lie outside of the heap, and those that were
  allocated, each the payload of a segment in use.
\<close>

subsection \<open>The typing of the object lists\<close>

definition holds_object :: "'a obj_state_scheme \<Rightarrow> seg list \<Rightarrow> nat \<Rightarrow> bool" where
  "holds_object s xs a \<longleftrightarrow> (\<exists>ys n zs. xs = ys @ (n, True) # zs \<and> 12 < n \<and> a = heap_ptr s + slen ys + 12)"

definition outside_heap :: "'a obj_state_scheme \<Rightarrow> ptr \<Rightarrow> bool" where
  "outside_heap s p \<longleftrightarrow> (\<forall>a. p = At a \<longrightarrow> a < heap_ptr s \<or> heap_ptr s + heap_end s \<le> a)"

definition object_typed :: "'a obj_state_scheme \<Rightarrow> seg list \<Rightarrow> rt_uint8_t \<Rightarrow> ptr \<Rightarrow> bool" where
  "object_typed s xs c p \<longleftrightarrow>
     (if rt_object_is_systemobject p s then o_type (objs s p) = c OR Class_Static \<and> outside_heap s p
      else o_type (objs s p) = c \<and> (\<exists>a. p = At a \<and> holds_object s xs a))"

definition objects_ok :: "bool \<Rightarrow> 'a obj_state_scheme \<Rightarrow> seg list \<Rightarrow> bool" where
  "objects_ok low s xs \<longleftrightarrow> heap_inv low s xs \<and> rt_interrupt_nest s = 0 \<and> store_ok (object_list s)
     \<and> (\<forall>c. \<forall>p \<in> set (object_list s c). c AND Class_Static = 0 \<and> object_typed s xs c p)"

lemma objects_okD:
  assumes "objects_ok low s xs"
  shows "heap_inv low s xs" "rt_interrupt_nest s = 0" "store_ok (object_list s)"
    "p \<in> set (object_list s c) \<Longrightarrow> c AND Class_Static = 0" "p \<in> set (object_list s c) \<Longrightarrow> object_typed s xs c p"
  using assms by (auto simp: objects_ok_def)

lemma static_bit: "(c OR 0x80) AND 0x80 = (0x80 :: rt_uint8_t)"
  by (rule bit_word_eqI) (auto simp: bit_or_iff bit_and_iff)

text \<open>What the heap does not touch.\<close>

lemma heap_inv_objs [simp]:
  fixes s :: "'a obj_state_scheme"
  shows "heap_inv low (s\<lparr>objs := f\<rparr>) xs = heap_inv low s xs" "heap_inv low (s\<lparr>object_list := L\<rparr>) xs = heap_inv low s xs"
  by (simp_all add: heap_inv_def)

lemma malloc_frame_objs:
  fixes s :: "'a obj_state_scheme"
  assumes "rt_malloc sz s = Some (r, s')"
  shows "objs s' = objs s" "object_list s' = object_list s" "object_size s' = object_size s" "heap_end s' = heap_end s"
proof -
  have adv: "objs u' = objs u \<and> object_list u' = object_list u \<and> object_size u' = object_size u \<and> heap_end u' = heap_end u"
    if "advance_lfree a u = Some u'" for a and u u' :: "'a obj_state_scheme"
    using that by (auto simp: advance_lfree_def bind_eq_Some_conv split: if_splits)
  have take: "objs (malloc_take a n u) = objs u \<and> object_list (malloc_take a n u) = object_list u
      \<and> object_size (malloc_take a n u) = object_size u \<and> heap_end (malloc_take a n u) = heap_end u" for a n and u :: "'a obj_state_scheme"
    by (simp add: malloc_take_def count_used_def Let_def upd_blk_def)
  show "objs s' = objs s" "object_list s' = object_list s" "object_size s' = object_size s" "heap_end s' = heap_end s"
    using assms take by (auto simp: rt_malloc_def Let_def bind_eq_Some_conv dest!: adv split: if_splits option.splits)
qed

lemma plug_frame_objs [simp]:
  fixes s :: "'a obj_state_scheme"
  shows "objs (plug_forward a s) = objs s" "objs (plug_backward a s) = objs s"
    "object_list (plug_forward a s) = object_list s" "object_list (plug_backward a s) = object_list s"
    "heap_end (plug_forward a s) = heap_end s" "heap_end (plug_backward a s) = heap_end s"
    "rt_interrupt_nest (plug_forward a s) = rt_interrupt_nest s" "rt_interrupt_nest (plug_backward a s) = rt_interrupt_nest s"
  by (simp_all add: plug_forward_def plug_backward_def Let_def upd_blk_def)

lemma free_frame_objs:
  fixes s :: "'a obj_state_scheme"
  assumes "rt_free q s = Some s'"
  shows "objs s' = objs s \<and> object_list s' = object_list s \<and> heap_end s' = heap_end s \<and> rt_interrupt_nest s' = rt_interrupt_nest s"
  using assms by (auto simp: rt_free_def Let_def plug_holes_def upd_blk_def RT_DEBUG_NOT_IN_INTERRUPT_def RT_ASSERT_def
      bind_eq_Some_conv split: if_splits option.splits)

subsection \<open>The operations\<close>

lemma object_typed_mono:
  assumes "object_typed s xs c p" "objs s' p = objs s p" "heap_ptr s' = heap_ptr s" "heap_end s' = heap_end s"
    and "\<And>a. p = At a \<Longrightarrow> \<not> rt_object_is_systemobject p s \<Longrightarrow> holds_object s xs a \<Longrightarrow> holds_object s' xs' a"
  shows "object_typed s' xs' c p"
  using assms by (auto simp: object_typed_def rt_object_is_systemobject_def outside_heap_def split: if_splits)

lemma object_init_typed:
  assumes ok: "objects_ok low s xs" and c: "c AND Class_Static = 0" and n: "rt_strncpy name RT_NAME_MAX = Some field"
    and p: "unlinked p (object_list s)" "outside_heap s p"
  shows "\<exists>s'. rt_object_init p c name s = Some s' \<and> objects_ok low s' xs \<and> object_list s' c = p # object_list s c
    \<and> o_name (objs s' p) = field"
proof -
  note K = objects_okD[OF ok]
  let ?s = "(upd_obj p (\<lambda>ob. ob\<lparr>o_type := c OR Class_Static, o_name := field\<rparr>) s)\<lparr>object_list := list_push_front c p (object_list s)\<rparr>"
  have "rt_object_init p c name s = Some ?s" using n by (simp add: rt_object_init_def upd_obj_def)
  moreover have "object_typed ?s xs d q" if "q \<in> set (object_list ?s d)" for d q
    using that K(5)[of q d] p static_bit[of c]
    by (cases "q = p") (auto simp: object_typed_def rt_object_is_systemobject_def outside_heap_def holds_object_def upd_obj_def
        unlinked_def list_push_front_def split: if_splits)
  moreover have "d AND Class_Static = 0" if "q \<in> set (object_list ?s d)" for d q
    using that K(4)[of q d] c by (auto simp: upd_obj_def list_push_front_def split: if_splits)
  ultimately show ?thesis using K(1-3) store_ok_push_front[OF K(3) p(1)]
    by (auto simp: objects_ok_def upd_obj_def list_push_front_def)
qed

lemma object_detach_typed:
  assumes ok: "objects_ok low s xs"
  shows "objects_ok low (rt_object_detach p s) xs"
proof -
  note K = objects_okD[OF ok]
  have "object_typed (rt_object_detach p s) xs c q" if "q \<in> set (object_list s c)" for c q
    using K(5)[OF that] by (rule object_typed_mono) (simp_all add: rt_object_detach_def holds_object_def)
  then show ?thesis using K(1-4) store_ok_unlink[OF K(3), of p]
    by (auto simp: objects_ok_def rt_object_detach_def list_unlink_def)
qed

text \<open>A new segment holds no object yet.\<close>

lemma free_segment_unlinked:
  assumes ok: "objects_ok low s xs" and x: "xs = ys @ (n, False) # zs" "12 < n"
  shows "unlinked (At (heap_ptr s + slen ys + 12)) (object_list s)"
  unfolding unlinked_def
proof (intro allI notI)
  fix c assume "At (heap_ptr s + slen ys + 12) \<in> set (object_list s c)"
  then have t: "object_typed s xs c (At (heap_ptr s + slen ys + 12))" by (rule objects_okD(5)[OF ok])
  have "slen ys + n \<le> heap_end s" using heap_invD(3)[OF objects_okD(1)[OF ok]] x(1) by simp
  then have "\<not> outside_heap s (At (heap_ptr s + slen ys + 12))" using x(2) by (simp add: outside_heap_def)
  then have "holds_object s xs (heap_ptr s + slen ys + 12)" using t by (auto simp: object_typed_def split: if_splits)
  then obtain us k vs where "xs = us @ (k, True) # vs" "12 < k" "slen us = slen ys" unfolding holds_object_def by auto
  then show False using segs_apart[of us "(k, True)" vs ys "(n, False)" zs] x by simp
qed

lemma holds_object_cut:
  assumes "holds_object s (ys @ (n, False) # zs) a" "heap_ptr s' = heap_ptr s"
  shows "holds_object s' (ys @ cut m n @ zs) a"
proof -
  obtain us k vs where u: "ys @ (n, False) # zs = us @ (k, True) # vs" "12 < k" "a = heap_ptr s + slen us + 12"
    using assms(1) unfolding holds_object_def by blast
  obtain ys' zs' where w: "ys @ cut m n @ zs = ys' @ (k, True) # zs'" "slen ys' = slen us"
    using used_stays[OF u(1)[symmetric] cut_simps(1,3)] by blast
  then show ?thesis using u(2,3) assms(2) unfolding holds_object_def w(1) by (intro exI[of _ ys'] exI[of _ k] exI[of _ zs']) simp
qed

lemma object_allocate_typed:
  assumes ok: "objects_ok low s xs" and c: "c AND Class_Static = 0" and n: "rt_strncpy name RT_NAME_MAX = Some field"
  shows "\<exists>r s' xs'. rt_object_allocate c name s = Some (r, s') \<and> objects_ok low s' xs'
    \<and> (case r of None \<Rightarrow> s' = s
       | Some a \<Rightarrow> unlinked (At a) (object_list s) \<and> object_list s' c = At a # object_list s c \<and> o_name (objs s' (At a)) = field
           \<and> \<not> rt_object_is_systemobject (At a) s')"
proof -
  note K = objects_okD[OF ok]
  show ?thesis using K(1,2)
  proof (cases rule: rt_malloc_cases[where sz = "object_size s c"])
    case none
    then show ?thesis using ok K(2) by (intro exI[of _ None] exI[of _ s] exI[of _ xs]) (simp add: rt_object_allocate_def not_in_interrupt_eq)
  next
    case (some ys k zs s1)
    note F = malloc_frame_objs[OF some(4)]
    let ?m = "max 12 (align_up (object_size s c))" and ?a = "heap_ptr s + slen ys + 12"
    let ?s = "(upd_obj (At ?a) (\<lambda>ob. ob\<lparr>o_type := c, o_flag := 0, o_name := field\<rparr>) s1)\<lparr>object_list := list_push_front c (At ?a) (object_list s)\<rparr>"
    have u: "unlinked (At ?a) (object_list s)" using some(3) by (intro free_segment_unlinked[OF ok some(2)]) simp
    have new: "object_typed ?s (ys @ cut ?m k @ zs) c (At ?a)"
    proof -
      obtain k' r where "cut ?m k = (k', True) # r" "12 < k'" using some(3) by (cases "?m + 36 \<le> k") (auto simp: cut_def)
      then show ?thesis using c some(6) unfolding object_typed_def rt_object_is_systemobject_def holds_object_def upd_obj_def by auto
    qed
    moreover have "object_typed ?s (ys @ cut ?m k @ zs) d q" if "q \<in> set (object_list s d)" for d q
    proof -
      have "q \<noteq> At ?a" using that u by (auto simp: unlinked_def)
      then show ?thesis using F some(6) holds_object_cut[of s ys k zs _ ?s ?m] some(2)
        by (intro object_typed_mono[OF K(5)[OF that]]) (simp_all add: upd_obj_def)
    qed
    ultimately have "objects_ok low ?s (ys @ cut ?m k @ zs)"
      using some(5,7) K(4) c store_ok_push_front[OF K(3) u] by (auto simp: objects_ok_def upd_obj_def list_push_front_def)
    moreover have "rt_object_allocate c name s = Some (Some ?a, ?s)"
      using K(2) some(4) n F by (simp add: rt_object_allocate_def not_in_interrupt_eq upd_obj_def)
    ultimately show ?thesis using u c
      by (intro exI[of _ "Some ?a"] exI[of _ ?s] exI[of _ "ys @ cut ?m k @ zs"])
         (simp add: upd_obj_def list_push_front_def rt_object_is_systemobject_def)
  qed
qed

lemma object_delete_typed:
  assumes ok: "objects_ok low s xs" and a: "At a \<in> set (object_list s c)" and dyn: "\<not> rt_object_is_systemobject (At a) s"
  shows "\<exists>s' xs'. rt_object_delete a s = Some s' \<and> objects_ok low s' xs' \<and> object_list s' = list_unlink (At a) (object_list s)"
proof -
  note K = objects_okD[OF ok]
  define s0 where "s0 = s\<lparr>object_list := list_unlink (At a) (object_list s)\<rparr>"
  have ok0: "objects_ok low s0 xs" using object_detach_typed[OF ok, of "At a"] by (simp add: s0_def rt_object_detach_def)
  obtain ys n zs where x: "xs = ys @ (n, True) # zs" "12 < n" "a = heap_ptr s + slen ys + 12"
    using K(5)[OF a] dyn by (auto simp: object_typed_def holds_object_def)
  obtain s' where s': "rt_free (Some a) s0 = Some s'" "heap_inv low s' (join_both ys n zs)" "heap_ptr s' = heap_ptr s"
    using rt_free_joins[of low s0 ys n zs] objects_okD(1,2)[OF ok0] x by (auto simp: s0_def)
  note F = free_frame_objs[OF s'(1)]
  have "object_typed s' (join_both ys n zs) d q" if q: "q \<in> set (object_list s0 d)" for d q
  proof -
    have ne: "q \<noteq> At a" using q by (auto simp: s0_def list_unlink_def)
    have "holds_object s' (join_both ys n zs) b" if b: "q = At b" "holds_object s0 xs b" for b
    proof -
      obtain us k vs where u: "xs = us @ (k, True) # vs" "12 < k" "b = heap_ptr s + slen us + 12"
        using b(2) by (auto simp: holds_object_def s0_def)
      have "slen us \<noteq> slen ys" using ne b(1) u(3) x(3) by auto
      then show ?thesis using used_survives_join[of ys n zs us k vs] x(1) u s'(3) unfolding holds_object_def by metis
    qed
    then show ?thesis using F s'(3) by (intro object_typed_mono[OF objects_okD(5)[OF ok0 q]]) (simp_all add: s0_def)
  qed
  then have "objects_ok low s' (join_both ys n zs)" using s'(2) F objects_okD[OF ok0] by (simp add: objects_ok_def)
  moreover have "rt_object_delete a s = Some s'"
    using dyn s'(1) by (simp add: rt_object_delete_def rt_object_is_systemobject_def RT_ASSERT_def s0_def)
  ultimately show ?thesis using F by (auto simp: s0_def)
qed

subsection \<open>Property\<close>

text \<open>C21: Kernel objects are well typed: initialising, allocating, detaching and deleting objects keep, for every container
  list, that its objects carry the type of the list, that those marked static lie outside of the
  heap and that each of the others occupies a segment of its own in a well-formed heap. A new
  object becomes the first of its list under its name; an allocated one is in no list before; deleting an object the
  user provided fails the assertion, and deleting an allocated one returns its memory.\<close>

theorem kernel_objects_typed:
  assumes "objects_ok low s xs" "c AND Class_Static = 0" "rt_strncpy name RT_NAME_MAX = Some field"
  shows "(\<forall>p. unlinked p (object_list s) \<and> outside_heap s p \<longrightarrow>
       (\<exists>s'. rt_object_init p c name s = Some s' \<and> objects_ok low s' xs \<and> object_list s' c = p # object_list s c
          \<and> o_name (objs s' p) = field))
    \<and> (\<exists>r s' xs'. rt_object_allocate c name s = Some (r, s') \<and> objects_ok low s' xs'
        \<and> (case r of None \<Rightarrow> s' = s
           | Some a \<Rightarrow> unlinked (At a) (object_list s) \<and> object_list s' c = At a # object_list s c \<and> o_name (objs s' (At a)) = field
               \<and> \<not> rt_object_is_systemobject (At a) s'))
    \<and> (\<forall>p. objects_ok low (rt_object_detach p s) xs)
    \<and> (\<forall>a d. At a \<in> set (object_list s d) \<longrightarrow>
         (if rt_object_is_systemobject (At a) s then rt_object_delete a s = None
          else \<exists>s' xs'. rt_object_delete a s = Some s' \<and> objects_ok low s' xs' \<and> object_list s' = list_unlink (At a) (object_list s)))"
  (is "?init \<and> ?alloc \<and> ?detach \<and> ?delete")
proof (intro conjI)
  show ?init using object_init_typed[OF assms] by blast
  show ?alloc by (rule object_allocate_typed[OF assms])
  show ?detach using object_detach_typed[OF assms(1)] by blast
  show ?delete using object_delete_typed[OF assms(1)]
    by (auto simp: rt_object_delete_def rt_object_is_systemobject_def RT_ASSERT_def)
qed

subsection \<open>Witness\<close>

text \<open>One semaphore, allocated in the first segment of the heap.\<close>

definition demo_objects :: obj_state where
  "demo_objects = heap_state.extend demo_heap \<lparr>objs = (\<lambda>_. \<lparr>o_name = replicate 8 0, o_type = Class_Semaphore, o_flag = 0\<rparr>),
     object_list = (\<lambda>c. if c = Class_Semaphore then [At 1012] else []), object_size = (\<lambda>_. 10)\<rparr>"

lemma demo_objects_ok: "objects_ok True demo_objects [(36, True), (60, False)]"
proof -
  have "heap_inv True demo_objects [(36, True), (60, False)]"
    using demo_heap_inv(2) by (simp add: heap_inv_def demo_objects_def heap_state.defs demo_heap_def)
  moreover have "holds_object demo_objects [(36, True), (60, False)] 1012"
    unfolding holds_object_def
    by (intro exI[of _ "[]"] exI[of _ 36] exI[of _ "[(60, False)]"]) (simp add: demo_objects_def heap_state.defs demo_heap_def)
  then have "object_typed demo_objects [(36, True), (60, False)] Class_Semaphore (At 1012)"
    by (simp add: object_typed_def rt_object_is_systemobject_def demo_objects_def heap_state.defs)
  ultimately show ?thesis
    by (simp add: objects_ok_def store_ok_def) (auto simp: demo_objects_def heap_state.defs demo_heap_def)
qed

theorem kernel_objects_typed_witness:
  "\<exists>s' xs'. rt_object_delete 1012 demo_objects = Some s' \<and> objects_ok True s' xs' \<and> object_list s' Class_Semaphore = []"
proof -
  have "rt_strncpy [0x73, 0] RT_NAME_MAX = Some [0x73, 0, 0, 0, 0, 0, 0, 0]" by code_simp
  note T = kernel_objects_typed[OF demo_objects_ok _ this, of Class_Mutex, THEN conjunct2, THEN conjunct2, THEN conjunct2, rule_format]
  have l: "object_list demo_objects = (\<lambda>c. if c = Class_Semaphore then [At 1012] else [])"
    "\<not> rt_object_is_systemobject (At 1012) demo_objects"
    by (simp_all add: demo_objects_def heap_state.defs rt_object_is_systemobject_def)
  then show ?thesis using T[of 1012 Class_Semaphore] by (auto simp: list_unlink_def)
qed

end
