(* ===== verification/MemHeap.thy ===== *)
theory MemHeap
  imports Semaphore Heap
begin

text \<open>
  Memory heap objects, \<^verbatim>\<open>src/memheap.c\<close>, in a configuration with \<^verbatim>\<open>RT_USING_MEMHEAP\<close> and
  \<^verbatim>\<open>RT_USING_MEMHEAP_AS_HEAP\<close>. Each heap is a pool whose blocks start with an item; the items form a
  ring in the order of their addresses, closed by a block in use of length 0 at the end, and the
  free ones a second ring that starts at an item inside of the heap object. Addresses are natural
  numbers, the null pointer is 0; sizes are 32-bit words, and \<^verbatim>\<open>MEMITEM_SIZE\<close> wraps as in the code.
  The semaphore of a heap is an object at a fixed offset of the heap object and is taken and released
  by each call; a call that would have to wait for it is not followed further (\<open>None\<close>), so the calls
  of a heap are atomic. The functions of the second configuration option have the suffix \<open>_memheap\<close>
  where the small-memory heap has one of the same name; the class of the heaps is 6, the number that
  memory pools have without \<^verbatim>\<open>RT_USING_MEMHEAP\<close>; \<open>sysheap\<close> is the address of the static
  variable \<^verbatim>\<open>_heap\<close>.
\<close>

abbreviation (input) Class_MemHeap :: rt_uint8_t where "Class_MemHeap \<equiv> 6"
abbreviation (input) RT_MEMHEAP_MAGIC :: rt_uint32_t where "RT_MEMHEAP_MAGIC \<equiv> 0x1ea01ea0"
abbreviation (input) RT_MEMHEAP_MASK :: rt_uint32_t where "RT_MEMHEAP_MASK \<equiv> 0xfffffffe"
abbreviation (input) RT_MEMHEAP_USED :: rt_uint32_t where "RT_MEMHEAP_USED \<equiv> 1"
abbreviation (input) RT_MEMHEAP_MINIALLOC :: rt_uint32_t where "RT_MEMHEAP_MINIALLOC \<equiv> 12"
abbreviation (input) RT_MEMHEAP_SIZE :: rt_uint32_t where "RT_MEMHEAP_SIZE \<equiv> 24"
abbreviation (input) ITEM_LEN :: nat where "ITEM_LEN \<equiv> 24"
abbreviation (input) RT_WAITING_FOREVER :: rt_uint32_t where "RT_WAITING_FOREVER \<equiv> - 1"

record rt_memheap_item =
  mi_magic :: rt_uint32_t
  mi_pool :: nat
  mi_next :: nat
  mi_prev :: nat
  mi_next_free :: nat
  mi_prev_free :: nat

record rt_memheap =
  mh_start_addr :: nat
  mh_pool_size :: rt_uint32_t
  mh_available_size :: rt_uint32_t
  mh_max_used_size :: rt_uint32_t
  mh_block_list :: nat
  mh_free_list :: nat

record mh_state = sem_state +
  memheaps :: "nat \<Rightarrow> rt_memheap"
  mitems :: "nat \<Rightarrow> rt_memheap_item"

definition upd_mh :: "nat \<Rightarrow> (rt_memheap \<Rightarrow> rt_memheap) \<Rightarrow> 'a mh_state_scheme \<Rightarrow> 'a mh_state_scheme" where
  "upd_mh a f s = s\<lparr>memheaps := (memheaps s)(a := f (memheaps s a))\<rparr>"

definition upd_item :: "nat \<Rightarrow> (rt_memheap_item \<Rightarrow> rt_memheap_item) \<Rightarrow> 'a mh_state_scheme \<Rightarrow> 'a mh_state_scheme" where
  "upd_item a f s = s\<lparr>mitems := (mitems s)(a := f (mitems s a))\<rparr>"

text \<open>The members \<^verbatim>\<open>free_header\<close> and \<^verbatim>\<open>lock\<close> of the heap object.\<close>

definition free_header :: "nat \<Rightarrow> nat" where "free_header heap = heap + 44"

definition heap_lock :: "nat \<Rightarrow> nat" where "heap_lock heap = heap + 68"

definition memitem_size :: "nat \<Rightarrow> 'a mh_state_scheme \<Rightarrow> rt_uint32_t" where
  "memitem_size p s = word_of_nat (mi_next (mitems s p)) - word_of_nat p - RT_MEMHEAP_SIZE"

definition memitem_is_used :: "nat \<Rightarrow> 'a mh_state_scheme \<Rightarrow> bool" where
  "memitem_is_used p s \<longleftrightarrow> mi_magic (mitems s p) AND RT_MEMHEAP_USED \<noteq> 0"

definition memheap_align :: "rt_uint32_t \<Rightarrow> rt_uint32_t" where
  "memheap_align sz = (let sz = RT_ALIGN sz 4 in if sz < RT_MEMHEAP_MINIALLOC then RT_MEMHEAP_MINIALLOC else sz)"

subsection \<open>Steps the operations share\<close>

text \<open>Putting an item into the free list, behind its header.\<close>

definition insert_free :: "nat \<Rightarrow> nat \<Rightarrow> 'a mh_state_scheme \<Rightarrow> 'a mh_state_scheme" where
  "insert_free heap n s =
     (let fl = mh_free_list (memheaps s heap);
          s = upd_item n (\<lambda>i. i\<lparr>mi_next_free := mi_next_free (mitems s fl)\<rparr>) s;
          s = upd_item n (\<lambda>i. i\<lparr>mi_prev_free := fl\<rparr>) s;
          s = upd_item (mi_next_free (mitems s fl)) (\<lambda>i. i\<lparr>mi_prev_free := n\<rparr>) s
      in upd_item fl (\<lambda>i. i\<lparr>mi_next_free := n\<rparr>) s)"

definition remove_free :: "nat \<Rightarrow> 'a mh_state_scheme \<Rightarrow> 'a mh_state_scheme" where
  "remove_free n s =
     (let s = upd_item (mi_next_free (mitems s n)) (\<lambda>i. i\<lparr>mi_prev_free := mi_prev_free (mitems s n)\<rparr>) s
      in upd_item (mi_prev_free (mitems s n)) (\<lambda>i. i\<lparr>mi_next_free := mi_next_free (mitems s n)\<rparr>) s)"

definition clear_free :: "nat \<Rightarrow> 'a mh_state_scheme \<Rightarrow> 'a mh_state_scheme" where
  "clear_free n s = upd_item n (\<lambda>i. i\<lparr>mi_prev_free := 0\<rparr>) (upd_item n (\<lambda>i. i\<lparr>mi_next_free := 0\<rparr>) s)"

text \<open>A new free item at the address \<open>n\<close>, linked in behind \<open>p\<close>.\<close>

definition new_block :: "nat \<Rightarrow> nat \<Rightarrow> nat \<Rightarrow> 'a mh_state_scheme \<Rightarrow> 'a mh_state_scheme" where
  "new_block heap p n s =
     (let s = upd_item n (\<lambda>i. i\<lparr>mi_magic := RT_MEMHEAP_MAGIC\<rparr>) s;
          s = upd_item n (\<lambda>i. i\<lparr>mi_pool := heap\<rparr>) s;
          s = upd_item n (\<lambda>i. i\<lparr>mi_prev := p\<rparr>) s;
          s = upd_item n (\<lambda>i. i\<lparr>mi_next := mi_next (mitems s p)\<rparr>) s;
          s = upd_item (mi_next (mitems s p)) (\<lambda>i. i\<lparr>mi_prev := n\<rparr>) s
      in upd_item p (\<lambda>i. i\<lparr>mi_next := n\<rparr>) s)"

definition take_available :: "nat \<Rightarrow> rt_uint32_t \<Rightarrow> 'a mh_state_scheme \<Rightarrow> 'a mh_state_scheme" where
  "take_available heap d s =
     (let s = upd_mh heap (\<lambda>h. h\<lparr>mh_available_size := mh_available_size h - d\<rparr>) s
      in upd_mh heap (\<lambda>h. if mh_pool_size h - mh_available_size h > mh_max_used_size h
           then h\<lparr>mh_max_used_size := mh_pool_size h - mh_available_size h\<rparr> else h) s)"

definition give_available :: "nat \<Rightarrow> rt_uint32_t \<Rightarrow> 'a mh_state_scheme \<Rightarrow> 'a mh_state_scheme" where
  "give_available heap d s = upd_mh heap (\<lambda>h. h\<lparr>mh_available_size := mh_available_size h + d\<rparr>) s"

definition memheap_take_lock :: "nat \<Rightarrow> 'a mh_state_scheme \<Rightarrow> (rt_err_t \<times> 'a mh_state_scheme) option" where
  "memheap_take_lock heap s =
     do { (r, s) \<leftarrow> rt_sem_take (heap_lock heap) RT_WAITING_FOREVER s;
          case r of Ret e \<Rightarrow> Some (e, s) | Wait t \<Rightarrow> None }"

definition memheap_release_lock :: "nat \<Rightarrow> 'a mh_state_scheme \<Rightarrow> 'a mh_state_scheme option" where
  "memheap_release_lock heap s = do { (r, s) \<leftarrow> rt_sem_release (heap_lock heap) s; Some s }"

subsection \<open>The operations\<close>

definition memheap_init_pool :: "nat \<Rightarrow> nat \<Rightarrow> rt_uint32_t \<Rightarrow> 'a mh_state_scheme \<Rightarrow> 'a mh_state_scheme" where
  "memheap_init_pool heap start sz s =
     (let s = upd_mh heap (\<lambda>h. h\<lparr>mh_start_addr := start, mh_pool_size := RT_ALIGN_DOWN sz 4\<rparr>) s;
          s = upd_mh heap (\<lambda>h. h\<lparr>mh_available_size := mh_pool_size h - 2 * RT_MEMHEAP_SIZE\<rparr>) s;
          s = upd_mh heap (\<lambda>h. h\<lparr>mh_max_used_size := mh_pool_size h - mh_available_size h\<rparr>) s;
          hd = free_header heap;
          s = upd_item hd (\<lambda>i. \<lparr>mi_magic = RT_MEMHEAP_MAGIC, mi_pool = heap, mi_next = 0, mi_prev = 0, mi_next_free = hd, mi_prev_free = hd\<rparr>) s;
          s = upd_mh heap (\<lambda>h. h\<lparr>mh_free_list := hd\<rparr>) s;
          tail = start + unat (mh_available_size (memheaps s heap)) + ITEM_LEN;
          s = upd_item start (\<lambda>i. \<lparr>mi_magic = RT_MEMHEAP_MAGIC, mi_pool = heap, mi_next = tail, mi_prev = tail,
            mi_next_free = start, mi_prev_free = start\<rparr>) s;
          s = upd_mh heap (\<lambda>h. h\<lparr>mh_block_list := start\<rparr>) s;
          s = insert_free heap start s
      in upd_item tail (\<lambda>i. \<lparr>mi_magic = RT_MEMHEAP_MAGIC OR RT_MEMHEAP_USED, mi_pool = heap, mi_next = start, mi_prev = start,
            mi_next_free = 0, mi_prev_free = 0\<rparr>) s)"

definition rt_memheap_init :: "nat \<Rightarrow> 8 word list \<Rightarrow> nat \<Rightarrow> rt_uint32_t \<Rightarrow> 'a mh_state_scheme
    \<Rightarrow> (rt_err_t \<times> 'a mh_state_scheme) option" where
  "rt_memheap_init heap name start sz s =
     do { s \<leftarrow> rt_object_init (At heap) Class_MemHeap name s;
          s \<leftarrow> rt_sem_init (heap_lock heap) name 1 IPC_FLAG_FIFO (memheap_init_pool heap start sz s);
          Some (RT_EOK, s) }"

definition rt_memheap_detach :: "nat \<Rightarrow> 'a mh_state_scheme \<Rightarrow> rt_err_t \<times> 'a mh_state_scheme" where
  "rt_memheap_detach heap s = (RT_EOK, rt_object_detach (At heap) (rt_object_detach (At (heap_lock heap)) s))"

text \<open>The loop of \<open>rt_memheap_alloc\<close> over the free list.\<close>

partial_function (option) memheap_search :: "nat \<Rightarrow> rt_uint32_t \<Rightarrow> rt_uint32_t \<Rightarrow> nat \<Rightarrow> 'a mh_state_scheme
    \<Rightarrow> (nat \<times> rt_uint32_t) option" where
  "memheap_search fl sz free_size p s =
     (if p \<noteq> fl \<and> free_size < sz then
        let free_size = memitem_size p s
        in memheap_search fl sz free_size (if free_size < sz then mi_next_free (mitems s p) else p) s
      else Some (p, free_size))"

text \<open>The allocation of the block found, with a split when the rest is large enough.\<close>

definition memheap_take_block :: "nat \<Rightarrow> nat \<Rightarrow> rt_uint32_t \<Rightarrow> rt_uint32_t \<Rightarrow> 'a mh_state_scheme \<Rightarrow> 'a mh_state_scheme" where
  "memheap_take_block heap p sz free_size s =
     (let s = (if free_size \<ge> sz + RT_MEMHEAP_SIZE + RT_MEMHEAP_MINIALLOC then
                 let n = p + unat sz + ITEM_LEN;
                     s = new_block heap p n s;
                     s = clear_free p (remove_free p s);
                     s = insert_free heap n s
                 in take_available heap (sz + RT_MEMHEAP_SIZE) s
               else clear_free p (remove_free p (take_available heap free_size s)))
      in upd_item p (\<lambda>i. i\<lparr>mi_magic := mi_magic i OR RT_MEMHEAP_USED\<rparr>) s)"

definition rt_memheap_alloc :: "nat \<Rightarrow> rt_uint32_t \<Rightarrow> 'a mh_state_scheme \<Rightarrow> (nat option \<times> 'a mh_state_scheme) option" where
  "rt_memheap_alloc heap sz s =
     (let sz = memheap_align sz in
      if sz < mh_available_size (memheaps s heap) then
        do { (e, s) \<leftarrow> memheap_take_lock heap s;
             if e \<noteq> RT_EOK then Some (None, rt_set_errno e s)
             else
               do { let fl = mh_free_list (memheaps s heap);
                    (p, free_size) \<leftarrow> memheap_search fl sz 0 (mi_next_free (mitems s fl)) s;
                    if free_size \<ge> sz then
                      do { s \<leftarrow> memheap_release_lock heap (memheap_take_block heap p sz free_size s);
                           Some (Some (p + ITEM_LEN), s) }
                    else do { s \<leftarrow> memheap_release_lock heap s; Some (None, s) } } }
      else Some (None, s))"

text \<open>Merging the block with its left and its right neighbour when it becomes free.\<close>

definition merge_left :: "nat \<Rightarrow> nat \<Rightarrow> 'a mh_state_scheme \<Rightarrow> nat \<times> bool \<times> 'a mh_state_scheme" where
  "merge_left heap p s =
     (if \<not> memitem_is_used (mi_prev (mitems s p)) s then
        let s = give_available heap RT_MEMHEAP_SIZE s;
            s = upd_item (mi_prev (mitems s p)) (\<lambda>i. i\<lparr>mi_next := mi_next (mitems s p)\<rparr>) s;
            s = upd_item (mi_next (mitems s p)) (\<lambda>i. i\<lparr>mi_prev := mi_prev (mitems s p)\<rparr>) s
        in (mi_prev (mitems s p), False, s)
      else (p, True, s))"

definition merge_right :: "nat \<Rightarrow> nat \<Rightarrow> 'a mh_state_scheme \<Rightarrow> 'a mh_state_scheme" where
  "merge_right heap p s =
     (if \<not> memitem_is_used (mi_next (mitems s p)) s then
        let s = give_available heap RT_MEMHEAP_SIZE s;
            n = mi_next (mitems s p);
            s = upd_item (mi_next (mitems s n)) (\<lambda>i. i\<lparr>mi_prev := p\<rparr>) s;
            s = upd_item p (\<lambda>i. i\<lparr>mi_next := mi_next (mitems s n)\<rparr>) s
        in remove_free n s
      else s)"

text \<open>A block given back: marked, joined with its neighbours and put into the free list.\<close>

definition release_block :: "nat \<Rightarrow> nat \<Rightarrow> 'a mh_state_scheme \<Rightarrow> 'a mh_state_scheme" where
  "release_block heap p s =
     (let s = upd_item p (\<lambda>i. i\<lparr>mi_magic := mi_magic i AND NOT RT_MEMHEAP_USED\<rparr>) s;
          s = give_available heap (memitem_size p s) s;
          (p, insert_header, s) = merge_left heap p s;
          s = merge_right heap p s
      in if insert_header then insert_free heap p s else s)"

definition rt_memheap_free :: "nat option \<Rightarrow> 'a mh_state_scheme \<Rightarrow> 'a mh_state_scheme option" where
  "rt_memheap_free ptr s =
     (case ptr of
        None \<Rightarrow> Some s
      | Some a \<Rightarrow>
          do { let p = a - ITEM_LEN;
               s \<leftarrow> RT_ASSERT (mi_magic (mitems s p) AND RT_MEMHEAP_MASK = RT_MEMHEAP_MAGIC) s;
               let heap = mi_pool (mitems s p);
               (e, s) \<leftarrow> memheap_take_lock heap s;
               if e \<noteq> RT_EOK then Some (rt_set_errno e s)
               else memheap_release_lock heap (release_block heap p s) })"

text \<open>The two ways \<open>rt_memheap_realloc\<close> changes a block in place.\<close>

definition grow_block :: "nat \<Rightarrow> nat \<Rightarrow> rt_uint32_t \<Rightarrow> rt_uint32_t \<Rightarrow> 'a mh_state_scheme \<Rightarrow> 'a mh_state_scheme" where
  "grow_block heap p oldsize newsize s =
     (let next = mi_next (mitems s p);
          s = take_available heap (newsize - oldsize) s;
          s = remove_free next s;
          s = upd_item (mi_next (mitems s next)) (\<lambda>i. i\<lparr>mi_prev := mi_prev (mitems s next)\<rparr>) s;
          s = upd_item (mi_prev (mitems s next)) (\<lambda>i. i\<lparr>mi_next := mi_next (mitems s next)\<rparr>) s;
          n = p + ITEM_LEN + unat newsize
      in insert_free heap n (new_block heap p n s))"

definition absorb_next :: "nat \<Rightarrow> nat \<Rightarrow> 'a mh_state_scheme \<Rightarrow> 'a mh_state_scheme" where
  "absorb_next heap n s =
     (if \<not> memitem_is_used (mi_next (mitems s n)) s then
        let f = mi_next (mitems s n);
            s = upd_mh heap (\<lambda>h. h\<lparr>mh_available_size := mh_available_size h - memitem_size f s\<rparr>) s;
            s = upd_item (mi_next (mitems s f)) (\<lambda>i. i\<lparr>mi_prev := n\<rparr>) s;
            s = upd_item n (\<lambda>i. i\<lparr>mi_next := mi_next (mitems s f)\<rparr>) s
        in remove_free f s
      else s)"

definition shrink_block :: "nat \<Rightarrow> nat \<Rightarrow> rt_uint32_t \<Rightarrow> 'a mh_state_scheme \<Rightarrow> 'a mh_state_scheme" where
  "shrink_block heap p newsize s =
     (let n = p + unat newsize + ITEM_LEN;
          s = new_block heap p n s;
          s = absorb_next heap n s;
          s = insert_free heap n s
      in give_available heap (memitem_size n s) s)"

definition rt_memheap_realloc :: "nat \<Rightarrow> nat option \<Rightarrow> rt_uint32_t \<Rightarrow> 'a mh_state_scheme
    \<Rightarrow> (nat option \<times> 'a mh_state_scheme) option" where
  "rt_memheap_realloc heap ptr newsize s =
     (if newsize = 0 then do { s \<leftarrow> rt_memheap_free ptr s; Some (None, s) }
      else let newsize = memheap_align newsize in
      case ptr of
        None \<Rightarrow> rt_memheap_alloc heap newsize s
      | Some a \<Rightarrow>
          (let p = a - ITEM_LEN; oldsize = memitem_size p s in
           if newsize > oldsize then
             do { (e, s) \<leftarrow> memheap_take_lock heap s;
                  if e \<noteq> RT_EOK then Some (None, rt_set_errno e s)
                  else
                    do { let next = mi_next (mitems s p);
                         s \<leftarrow> RT_ASSERT (next > p) s;
                         if \<not> memitem_is_used next s \<and> memitem_size next s + oldsize > newsize + RT_MEMHEAP_MINIALLOC then
                           do { s \<leftarrow> memheap_release_lock heap (grow_block heap p oldsize newsize s); Some (Some a, s) }
                         else
                           do { s \<leftarrow> memheap_release_lock heap s;
                                (r, s) \<leftarrow> rt_memheap_alloc heap newsize s;
                                case r of
                                  None \<Rightarrow> Some (None, s)
                                | Some b \<Rightarrow>
                                    do { let s = s\<lparr>mdata := rt_memcpy b a (unat (if oldsize < newsize then oldsize else newsize)) (mdata s)\<rparr>;
                                         s \<leftarrow> rt_memheap_free (Some a) s;
                                         Some (Some b, s) } } } }
           else if newsize + RT_MEMHEAP_SIZE + RT_MEMHEAP_MINIALLOC \<ge> oldsize then Some (Some a, s)
           else
             do { (e, s) \<leftarrow> memheap_take_lock heap s;
                  if e \<noteq> RT_EOK then Some (None, rt_set_errno e s)
                  else do { s \<leftarrow> memheap_release_lock heap (shrink_block heap p newsize s); Some (Some a, s) } }))"

subsection \<open>Memory heaps as the system heap\<close>

definition rt_system_heap_init_memheap :: "nat \<Rightarrow> nat \<Rightarrow> nat \<Rightarrow> 'a mh_state_scheme \<Rightarrow> 'a mh_state_scheme option" where
  "rt_system_heap_init_memheap sysheap begin_addr end_addr s =
     do { (r, s) \<leftarrow> rt_memheap_init sysheap [0x68, 0x65, 0x61, 0x70, 0] begin_addr (word_of_nat end_addr - word_of_nat begin_addr) s; Some s }"

text \<open>The walk over the list of heaps, without the system heap.\<close>

fun malloc_elsewhere :: "nat \<Rightarrow> rt_uint32_t \<Rightarrow> ptr list \<Rightarrow> 'a mh_state_scheme \<Rightarrow> (nat option \<times> 'a mh_state_scheme) option" where
  "malloc_elsewhere sysheap sz [] s = Some (None, s)"
| "malloc_elsewhere sysheap sz (ThreadTimer t # hs) s = None"
| "malloc_elsewhere sysheap sz (At heap # hs) s =
     (if heap = sysheap then malloc_elsewhere sysheap sz hs s
      else do { (r, s) \<leftarrow> rt_memheap_alloc heap sz s;
                if r \<noteq> None then Some (r, s) else malloc_elsewhere sysheap sz hs s })"

definition rt_malloc_memheap :: "nat \<Rightarrow> rt_uint32_t \<Rightarrow> 'a mh_state_scheme \<Rightarrow> (nat option \<times> 'a mh_state_scheme) option" where
  "rt_malloc_memheap sysheap sz s =
     do { (r, s) \<leftarrow> rt_memheap_alloc sysheap sz s;
          if r = None then malloc_elsewhere sysheap sz (object_list s Class_MemHeap) s else Some (r, s) }"

definition rt_free_memheap :: "nat option \<Rightarrow> 'a mh_state_scheme \<Rightarrow> 'a mh_state_scheme option" where
  "rt_free_memheap rmem s = rt_memheap_free rmem s"

definition rt_realloc_memheap :: "nat \<Rightarrow> nat option \<Rightarrow> rt_uint32_t \<Rightarrow> 'a mh_state_scheme
    \<Rightarrow> (nat option \<times> 'a mh_state_scheme) option" where
  "rt_realloc_memheap sysheap rmem newsize s =
     (case rmem of
        None \<Rightarrow> rt_malloc_memheap sysheap newsize s
      | Some a \<Rightarrow>
          do { let p = a - ITEM_LEN;
               (r, s) \<leftarrow> rt_memheap_realloc (mi_pool (mitems s p)) (Some a) newsize s;
               if r = None \<and> newsize \<noteq> 0 then
                 do { (r, s) \<leftarrow> rt_malloc_memheap sysheap newsize s;
                      case r of
                        None \<Rightarrow> Some (None, s)
                      | Some b \<Rightarrow>
                          (let oldsize = memitem_size p s
                           in Some (Some b, s\<lparr>mdata := rt_memcpy b a (unat (if newsize > oldsize then oldsize else newsize)) (mdata s)\<rparr>)) }
               else Some (r, s) })"

definition rt_calloc_memheap :: "nat \<Rightarrow> rt_uint32_t \<Rightarrow> rt_uint32_t \<Rightarrow> 'a mh_state_scheme \<Rightarrow> (nat option \<times> 'a mh_state_scheme) option" where
  "rt_calloc_memheap sysheap count sz s =
     do { let total_size = count * sz;
          (r, s) \<leftarrow> rt_malloc_memheap sysheap total_size s;
          case r of
            None \<Rightarrow> Some (None, s)
          | Some a \<Rightarrow> Some (Some a, s\<lparr>mdata := rt_memset a 0 (unat total_size) (mdata s)\<rparr>) }"

subsection \<open>The two rings\<close>

text \<open>The items as the nodes of the ring of blocks and of the ring of free blocks, and what they say
  of the block.\<close>

definition block_view :: "'a mh_state_scheme \<Rightarrow> nat lmem" where
  "block_view s = (\<lambda>a. \<lparr>lnext = mi_next (mitems s a), lprev = mi_prev (mitems s a)\<rparr>)"

definition free_view :: "'a mh_state_scheme \<Rightarrow> nat lmem" where
  "free_view s = (\<lambda>a. \<lparr>lnext = mi_next_free (mitems s a), lprev = mi_prev_free (mitems s a)\<rparr>)"

definition tag_view :: "'a mh_state_scheme \<Rightarrow> nat \<Rightarrow> rt_uint32_t \<times> nat" where
  "tag_view s = (\<lambda>a. (mi_magic (mitems s a), mi_pool (mitems s a)))"

lemma block_view_upd [simp]:
  "block_view (upd_item a (mi_next_update (\<lambda>_. v)) s) = set_next a v (block_view s)"
  "block_view (upd_item a (mi_prev_update (\<lambda>_. v)) s) = set_prev a v (block_view s)"
  "block_view (upd_item a (mi_next_free_update f) s) = block_view s"
  "block_view (upd_item a (mi_prev_free_update f) s) = block_view s"
  "block_view (upd_item a (mi_magic_update g) s) = block_view s"
  "block_view (upd_item a (mi_pool_update f) s) = block_view s"
  "block_view (upd_mh h k s) = block_view s" "block_view (upd_sem l j s) = block_view s"
  by (auto simp: block_view_def upd_item_def upd_mh_def upd_sem_def fun_eq_iff)

lemma free_view_upd [simp]:
  "free_view (upd_item a (mi_next_free_update (\<lambda>_. v)) s) = set_next a v (free_view s)"
  "free_view (upd_item a (mi_prev_free_update (\<lambda>_. v)) s) = set_prev a v (free_view s)"
  "free_view (upd_item a (mi_next_update f) s) = free_view s"
  "free_view (upd_item a (mi_prev_update f) s) = free_view s"
  "free_view (upd_item a (mi_magic_update g) s) = free_view s"
  "free_view (upd_item a (mi_pool_update f) s) = free_view s"
  "free_view (upd_mh h k s) = free_view s" "free_view (upd_sem l j s) = free_view s"
  by (auto simp: free_view_def upd_item_def upd_mh_def upd_sem_def fun_eq_iff)

lemma tag_view_upd [simp]:
  "tag_view (upd_item a (mi_magic_update g) s) = (tag_view s)(a := (g (mi_magic (mitems s a)), mi_pool (mitems s a)))"
  "tag_view (upd_item a (mi_pool_update f) s) = (tag_view s)(a := (mi_magic (mitems s a), f (mi_pool (mitems s a))))"
  "tag_view (upd_item a (mi_next_update f) s) = tag_view s"
  "tag_view (upd_item a (mi_prev_update f) s) = tag_view s"
  "tag_view (upd_item a (mi_next_free_update f) s) = tag_view s"
  "tag_view (upd_item a (mi_prev_free_update f) s) = tag_view s"
  "tag_view (upd_mh h k s) = tag_view s" "tag_view (upd_sem l j s) = tag_view s"
  by (auto simp: tag_view_def upd_item_def upd_mh_def upd_sem_def fun_eq_iff)

lemma magic_upd [simp]:
  "(\<lambda>i. i\<lparr>mi_magic := mi_magic i OR w\<rparr>) = mi_magic_update (\<lambda>v. v OR w)"
  "(\<lambda>i. i\<lparr>mi_magic := mi_magic i AND w\<rparr>) = mi_magic_update (\<lambda>v. v AND w)"
  by auto

lemma item_views:
  "mi_next (mitems s a) = lnext (block_view s a)" "mi_prev (mitems s a) = lprev (block_view s a)"
  "mi_next_free (mitems s a) = lnext (free_view s a)" "mi_prev_free (mitems s a) = lprev (free_view s a)"
  "mi_magic (mitems s a) = fst (tag_view s a)" "mi_pool (mitems s a) = snd (tag_view s a)"
  by (simp_all add: block_view_def free_view_def tag_view_def)

text \<open>The steps on the lists, as operations on the rings.\<close>

lemma unlink_ring:
  assumes r: "ring h l (xs @ n # ys)"
  shows "ring (set_next (lprev (h n)) (lnext (h n)) (set_prev (lnext (h n)) (lprev (h n)) h)) l (xs @ ys)"
proof -
  note L = ring_links_around[OF r]
  have n: "lprev (h n) = last (l # xs)" "lnext (h n) = hd (ys @ [l])" using L(1,2) by (simp_all add: linked_def)
  have "n \<notin> set (l # xs @ ys)" using r by (auto simp: ring_def)
  then show ?thesis using ring_remove[OF r n] by (subst ring_frame[of l "xs @ ys" _ "set_prev n n (set_next n n (set_prev (lnext (h n)) (lprev (h n)) (set_next (lprev (h n)) (lnext (h n)) h)))"]) auto
qed

lemma link_ring:
  assumes r: "ring h l (xs @ ys)" and n: "n \<notin> set (l # xs @ ys)" and p: "p = last (l # xs)"
  shows "ring (set_next p n (set_prev (lnext (h p)) n (set_next n (lnext (h p)) (set_prev n p h)))) l (xs @ n # ys)"
proof -
  have q: "lnext (h p) = hd (ys @ [l])" using ring_link[OF r] p by (simp add: linked_def)
  have "n \<noteq> p" "n \<noteq> lnext (h p)" using n neighbours_in_ring[where l = l and xs = xs and ys = ys] unfolding p q[unfolded p] by metis+
  then have "set_next p n (set_prev (lnext (h p)) n (set_next n (lnext (h p)) (set_prev n p h)))
      = set_prev n p (set_next n (lnext (h p)) (set_prev (lnext (h p)) n (set_next p n h)))" by auto
  then show ?thesis using ring_insert[OF r n p q] by simp
qed

lemma upd_item_frame [simp]:
  "memheaps (upd_item a f s) = memheaps s" "sems (upd_item a f s) = sems s" "tlists (upd_item a f s) = tlists s"
  "sems (upd_mh h k s) = sems s" "tlists (upd_mh h k s) = tlists s" "mdata (upd_item a f s) = mdata s" "mdata (upd_mh h k s) = mdata s"
  "memheaps (upd_mh h k s) = (memheaps s)(h := k (memheaps s h))"
  by (simp_all add: upd_item_def upd_mh_def)

definition only_items :: "'a mh_state_scheme \<Rightarrow> 'a mh_state_scheme \<Rightarrow> bool" where
  "only_items s s' \<longleftrightarrow> memheaps s' = memheaps s \<and> sems s' = sems s \<and> tlists s' = tlists s \<and> mdata s' = mdata s"

lemma new_block_views:
  assumes "n \<noteq> p"
  shows "block_view (new_block heap p n s)
      = set_next p n (set_prev (lnext (block_view s p)) n (set_next n (lnext (block_view s p)) (set_prev n p (block_view s))))"
    "free_view (new_block heap p n s) = free_view s" "tag_view (new_block heap p n s) = (tag_view s)(n := (RT_MEMHEAP_MAGIC, heap))"
    "only_items s (new_block heap p n s)"
  using assms by (simp_all add: new_block_def Let_def only_items_def item_views)

lemma insert_free_views:
  assumes "n \<noteq> mh_free_list (memheaps s heap)"
  shows "block_view (insert_free heap n s) = block_view s" "tag_view (insert_free heap n s) = tag_view s"
    "free_view (insert_free heap n s) = (let fl = mh_free_list (memheaps s heap); q = lnext (free_view s fl)
       in set_next fl n (set_prev q n (set_next n q (set_prev n fl (free_view s)))))"
    "only_items s (insert_free heap n s)"
  using assms by (auto simp: insert_free_def Let_def only_items_def item_views)

lemma remove_free_views:
  assumes "lnext (free_view s n) \<noteq> n"
  shows "block_view (remove_free n s) = block_view s" "tag_view (remove_free n s) = tag_view s"
    "free_view (remove_free n s) = set_next (lprev (free_view s n)) (lnext (free_view s n))
       (set_prev (lnext (free_view s n)) (lprev (free_view s n)) (free_view s))"
    "only_items s (remove_free n s)"
  using assms by (auto simp: remove_free_def Let_def only_items_def item_views)

lemma clear_free_views:
  "block_view (clear_free n s) = block_view s" "tag_view (clear_free n s) = tag_view s"
  "free_view (clear_free n s) = set_prev n 0 (set_next n 0 (free_view s))" "only_items s (clear_free n s)"
  by (simp_all add: clear_free_def only_items_def)

lemma new_block_ring:
  assumes r: "ring (block_view s) e (us @ p # vs)" and n: "n \<notin> set (e # us @ p # vs)"
  shows "ring (block_view (new_block heap p n s)) e (us @ p # n # vs)"
proof -
  have "n \<noteq> p" using n by auto
  then show ?thesis using link_ring[of "block_view s" e "us @ [p]" vs n p] r n by (simp add: new_block_views(1))
qed

lemma insert_free_ring:
  assumes r: "ring (free_view s) fl fs" and n: "n \<notin> set (fl # fs)" and fl: "mh_free_list (memheaps s heap) = fl"
  shows "ring (free_view (insert_free heap n s)) fl (n # fs)"
proof -
  have "n \<noteq> mh_free_list (memheaps s heap)" using n fl by auto
  then show ?thesis using link_ring[of "free_view s" fl "[]" fs n fl] r n fl by (simp add: insert_free_views(3) Let_def)
qed

lemma remove_free_ring:
  assumes r: "ring (free_view s) l (xs @ n # ys)"
  shows "ring (free_view (remove_free n s)) l (xs @ ys)" "ring (free_view (clear_free n (remove_free n s))) l (xs @ ys)"
    "block_view (remove_free n s) = block_view s" "tag_view (remove_free n s) = tag_view s" "only_items s (remove_free n s)"
proof -
  have nn: "lnext (free_view s n) \<noteq> n" using ring_links_around(2,4)[OF r] by (auto simp: linked_def)
  show 1: "ring (free_view (remove_free n s)) l (xs @ ys)" unfolding remove_free_views(3)[OF nn] by (rule unlink_ring[OF r])
  have "n \<notin> set (l # xs @ ys)" using r by (auto simp: ring_def)
  then show "ring (free_view (clear_free n (remove_free n s))) l (xs @ ys)"
    unfolding clear_free_views(3) using 1 by (subst ring_frame[of l "xs @ ys" _ "free_view (remove_free n s)"]) auto
  show "block_view (remove_free n s) = block_view s" "tag_view (remove_free n s) = tag_view s" "only_items s (remove_free n s)"
    by (rule remove_free_views[OF nn])+
qed

subsection \<open>The row of blocks\<close>

text \<open>The pool is a row of segments, each an item and its payload. \<open>addrs\<close> are the addresses of the
  items, \<open>free_at\<close> those of the free ones.\<close>

fun addrs :: "nat \<Rightarrow> seg list \<Rightarrow> nat list" where
  "addrs a [] = []"
| "addrs a (x # xs) = a # addrs (a + fst x) xs"

fun free_at :: "nat \<Rightarrow> seg list \<Rightarrow> nat set" where
  "free_at a [] = {}"
| "free_at a (x # xs) = (if snd x then {} else {a}) \<union> free_at (a + fst x) xs"

definition used_tag :: "nat \<Rightarrow> bool \<Rightarrow> rt_uint32_t \<times> nat" where
  "used_tag heap u = (if u then RT_MEMHEAP_MAGIC OR RT_MEMHEAP_USED else RT_MEMHEAP_MAGIC, heap)"

fun tagged :: "(nat \<Rightarrow> rt_uint32_t \<times> nat) \<Rightarrow> nat \<Rightarrow> nat \<Rightarrow> seg list \<Rightarrow> bool" where
  "tagged T heap a [] \<longleftrightarrow> True"
| "tagged T heap a (x # xs) \<longleftrightarrow> T a = used_tag heap (snd x) \<and> tagged T heap (a + fst x) xs"

definition free_bytes :: "seg list \<Rightarrow> nat" where
  "free_bytes xs = sum_list (map (\<lambda>x. if snd x then 0 else fst x - ITEM_LEN) xs)"

definition blocks_ok :: "seg list \<Rightarrow> bool" where
  "blocks_ok xs \<longleftrightarrow> (\<forall>x \<in> set xs. ITEM_LEN + 12 \<le> fst x \<and> 4 dvd fst x)"

lemma addrs_append [simp]: "addrs a (xs @ ys) = addrs a xs @ addrs (a + slen xs) ys"
  by (induction xs arbitrary: a) (auto simp: add.assoc)

lemma free_at_append [simp]: "free_at a (xs @ ys) = free_at a xs \<union> free_at (a + slen xs) ys"
  by (induction xs arbitrary: a) (auto simp: add.assoc)

lemma tagged_append [simp]: "tagged T heap a (xs @ ys) \<longleftrightarrow> tagged T heap a xs \<and> tagged T heap (a + slen xs) ys"
  by (induction xs arbitrary: a) (auto simp: add.assoc)

lemma tagged_cong: "(\<And>x. x \<in> set (addrs a xs) \<Longrightarrow> T' x = T x) \<Longrightarrow> tagged T' heap a xs = tagged T heap a xs"
  by (induction xs arbitrary: a) auto

lemma free_bytes_simps [simp]:
  "free_bytes [] = 0" "free_bytes (x # xs) = (if snd x then 0 else fst x - ITEM_LEN) + free_bytes xs"
  "free_bytes (xs @ ys) = free_bytes xs + free_bytes ys"
  by (simp_all add: free_bytes_def)

lemma blocks_ok_simps [simp]:
  "blocks_ok []" "blocks_ok (x # xs) \<longleftrightarrow> ITEM_LEN + 12 \<le> fst x \<and> 4 dvd fst x \<and> blocks_ok xs"
  "blocks_ok (xs @ ys) \<longleftrightarrow> blocks_ok xs \<and> blocks_ok ys"
  by (auto simp: blocks_ok_def)

lemma addrs_bounds:
  assumes "blocks_ok xs" "x \<in> set (addrs a xs)"
  shows "a \<le> x \<and> x + (ITEM_LEN + 12) \<le> a + slen xs"
  using assms by (induction xs arbitrary: a) fastforce+

lemma free_at_addrs: "free_at a xs \<subseteq> set (addrs a xs)"
  by (induction xs arbitrary: a) auto

lemma addrs_split: "x \<in> set (addrs a xs) \<Longrightarrow> \<exists>ys y zs. xs = ys @ y # zs \<and> x = a + slen ys"
proof (induction xs arbitrary: a)
  case (Cons y xs)
  show ?case
  proof (cases "x = a")
    case True
    then show ?thesis by (intro exI[of _ "[]"]) simp
  next
    case False
    then have "x \<in> set (addrs (a + fst y) xs)" using Cons.prems by simp
    then obtain us z vs where "xs = us @ z # vs" "x = a + fst y + slen us" using Cons.IH by blast
    then show ?thesis by (intro exI[of _ "y # us"] exI[of _ z] exI[of _ vs]) simp
  qed
qed simp

lemma free_at_split: "x \<in> free_at a xs \<Longrightarrow> \<exists>ys n zs. xs = ys @ (n, False) # zs \<and> x = a + slen ys"
proof (induction xs arbitrary: a)
  case (Cons y xs)
  show ?case
  proof (cases "x = a \<and> \<not> snd y")
    case True
    then show ?thesis by (intro exI[of _ "[]"] exI[of _ "fst y"] exI[of _ xs]) (cases y; simp)
  next
    case False
    then have "x \<in> free_at (a + fst y) xs" using Cons.prems by (auto split: if_splits)
    then obtain us z vs where "xs = us @ (z, False) # vs" "x = a + fst y + slen us" using Cons.IH by blast
    then show ?thesis by (intro exI[of _ "y # us"] exI[of _ z] exI[of _ vs]) simp
  qed
qed simp

lemma in_free_at:
  assumes "blocks_ok (ys @ y # zs)"
  shows "a + slen ys \<in> free_at a (ys @ y # zs) \<longleftrightarrow> \<not> snd y"
proof -
  have "a + slen ys \<notin> free_at a ys" using addrs_bounds[of ys "a + slen ys" a] free_at_addrs[of a ys] assms by fastforce
  moreover have "a + slen ys \<notin> free_at (a + slen ys + fst y) zs"
    using addrs_bounds[of zs "a + slen ys" "a + slen ys + fst y"] free_at_addrs[of "a + slen ys + fst y" zs] assms by fastforce
  ultimately show ?thesis by auto
qed

text \<open>The two rings and the tags; the list \<open>fs\<close> of the second ring may be any.\<close>

definition rings_ok :: "'a mh_state_scheme \<Rightarrow> nat \<Rightarrow> seg list \<Rightarrow> nat list \<Rightarrow> bool" where
  "rings_ok s heap xs fs \<longleftrightarrow> (let m = memheaps s heap; a = mh_start_addr m; e = a + slen xs in
     ring (block_view s) e (addrs a xs) \<and> ring (free_view s) (free_header heap) fs
     \<and> tagged (tag_view s) heap a xs \<and> tag_view s e = used_tag heap True \<and> blocks_ok xs \<and> xs \<noteq> []
     \<and> mh_free_list m = free_header heap \<and> (free_header heap < a \<or> e < free_header heap)
     \<and> 4 dvd a \<and> 0 < a \<and> e + ITEM_LEN \<le> 2 ^ 32 \<and> unat (mh_pool_size m) = slen xs + ITEM_LEN)"

text \<open>A heap in order: the free list has the free blocks and the counter their payload; between
  calls no two free blocks are neighbours and the lock is free.\<close>

definition memheap_rows :: "'a mh_state_scheme \<Rightarrow> nat \<Rightarrow> seg list \<Rightarrow> nat list \<Rightarrow> bool" where
  "memheap_rows s heap xs fs \<longleftrightarrow> rings_ok s heap xs fs \<and> set fs = free_at (mh_start_addr (memheaps s heap)) xs
     \<and> unat (mh_available_size (memheaps s heap)) = free_bytes xs"

definition memheap_ok :: "'a mh_state_scheme \<Rightarrow> nat \<Rightarrow> seg list \<Rightarrow> bool" where
  "memheap_ok s heap xs \<longleftrightarrow> (\<exists>fs. memheap_rows s heap xs fs) \<and> joined xs
     \<and> sems s (heap_lock heap) = 1 \<and> tlists s (Suspend (heap_lock heap)) = []"

lemma rings_okD:
  assumes "rings_ok s heap xs fs"
  defines "a \<equiv> mh_start_addr (memheaps s heap)"
  shows "ring (block_view s) (a + slen xs) (addrs a xs)" "ring (free_view s) (free_header heap) fs"
    "tagged (tag_view s) heap a xs" "tag_view s (a + slen xs) = used_tag heap True" "blocks_ok xs" "xs \<noteq> []"
    "mh_free_list (memheaps s heap) = free_header heap" "free_header heap < a \<or> a + slen xs < free_header heap"
    "4 dvd a" "0 < a" "a + slen xs + ITEM_LEN \<le> 2 ^ 32" "unat (mh_pool_size (memheaps s heap)) = slen xs + ITEM_LEN"
  using assms(1) unfolding rings_ok_def Let_def a_def by blast+

lemma rings_ok_cong:
  assumes "block_view s' = block_view s" "free_view s' = free_view s" "tag_view s' = tag_view s"
    and "mh_start_addr (memheaps s' heap) = mh_start_addr (memheaps s heap)" "mh_pool_size (memheaps s' heap) = mh_pool_size (memheaps s heap)"
    "mh_free_list (memheaps s' heap) = mh_free_list (memheaps s heap)"
  shows "rings_ok s' heap xs fs = rings_ok s heap xs fs"
  using assms by (simp add: rings_ok_def Let_def)

lemma upd_sem_memheaps [simp]: "memheaps (upd_sem l f s) = memheaps s" "mitems (upd_sem l f s) = mitems s" "mdata (upd_sem l f s) = mdata s"
  by (simp_all add: upd_sem_def)

lemma rings_ok_sem [simp]: "rings_ok (upd_sem l f s) heap xs fs = rings_ok s heap xs fs"
  by (rule rings_ok_cong) simp_all

lemma block_neighbours:
  assumes "ring B (a + slen (ys @ (n, u) # zs)) (addrs a (ys @ (n, u) # zs))"
  shows "lnext (B (a + slen ys)) = a + slen ys + n" "lprev (B (a + slen ys)) = last ((a + slen (ys @ (n, u) # zs)) # addrs a ys)"
proof -
  let ?e = "a + slen (ys @ (n, u) # zs)"
  have r: "ring B ?e (addrs a ys @ (a + slen ys) # addrs (a + slen ys + n) zs)" using assms by (simp add: add.assoc)
  note L = ring_links_around[OF r]
  have "hd (addrs (a + slen ys + n) zs @ [?e]) = a + slen ys + n" by (cases zs) (simp_all add: add.assoc)
  then show "lnext (B (a + slen ys)) = a + slen ys + n" using L(2) by (simp add: linked_def)
  show "lprev (B (a + slen ys)) = last (?e # addrs a ys)" using L(1) by (simp add: linked_def)
qed

lemma unat_memitem_size:
  assumes ok: "rings_ok s heap (ys @ (n, u) # zs) fs" and p: "p = mh_start_addr (memheaps s heap) + slen ys"
  shows "unat (memitem_size p s) = n - ITEM_LEN"
proof -
  note K = rings_okD[OF ok]
  have nx: "mi_next (mitems s p) = p + n" using block_neighbours(1)[OF K(1)] p by (simp add: item_views)
  have b: "24 \<le> n" "p + n < 2 ^ 32" using K(5,11) p by simp_all
  have "word_of_nat n - 24 = (word_of_nat (n - 24) :: rt_uint32_t)" using of_nat_diff[OF b(1), where ?'a = "32 word"] by simp
  then have "memitem_size p s = word_of_nat (n - 24)" by (simp only: memitem_size_def nx of_nat_add add_diff_cancel_left')
  moreover have "unat (word_of_nat (n - 24) :: rt_uint32_t) = n - 24" unfolding unat_of_nat using b by (intro mod_less) simp
  ultimately show ?thesis by (simp only:)
qed

subsection \<open>Allocation\<close>

lemma memheap_search_ring:
  assumes "ring (free_view s) fl (us @ vs)" "f < sz" "p = hd (vs @ [fl])"
  shows "\<exists>q g. memheap_search fl sz f p s = Some (q, g)
    \<and> (q \<in> set vs \<and> g = memitem_size q s \<and> \<not> g < sz \<or> g < sz \<and> (\<forall>v \<in> set vs. memitem_size v s < sz))"
  using assms
proof (induction vs arbitrary: us f p)
  case Nil
  then show ?case by (subst memheap_search.simps) simp
next
  case (Cons v vs)
  have p: "p = v" "v \<noteq> fl" using Cons.prems(1,3) by (auto simp: ring_def)
  have nx: "mi_next_free (mitems s v) = hd (vs @ [fl])"
    using ring_links_around(2)[OF Cons.prems(1)] by (simp add: linked_def item_views)
  show ?case
  proof (cases "memitem_size v s < sz")
    case True
    have "ring (free_view s) fl ((us @ [v]) @ vs)" using Cons.prems(1) by simp
    from Cons.IH[OF this True refl] obtain q g where "memheap_search fl sz (memitem_size v s) (hd (vs @ [fl])) s = Some (q, g)"
      "q \<in> set vs \<and> g = memitem_size q s \<and> \<not> g < sz \<or> g < sz \<and> (\<forall>v \<in> set vs. memitem_size v s < sz)" by blast
    then show ?thesis using True p nx Cons.prems(2) by (subst memheap_search.simps) auto
  next
    case False
    have "memheap_search fl sz (memitem_size v s) v s = Some (v, memitem_size v s)"
      using False by (subst memheap_search.simps) simp
    then show ?thesis using False p Cons.prems(2) by (subst memheap_search.simps) auto
  qed
qed

text \<open>The counters.\<close>

lemma available_fields [simp]:
  "block_view (take_available heap d s) = block_view s" "free_view (take_available heap d s) = free_view s"
  "tag_view (take_available heap d s) = tag_view s" "sems (take_available heap d s) = sems s" "tlists (take_available heap d s) = tlists s"
  "mdata (take_available heap d s) = mdata s" "mitems (take_available heap d s) = mitems s"
  "mh_start_addr (memheaps (take_available heap d s) heap) = mh_start_addr (memheaps s heap)"
  "mh_pool_size (memheaps (take_available heap d s) heap) = mh_pool_size (memheaps s heap)"
  "mh_free_list (memheaps (take_available heap d s) heap) = mh_free_list (memheaps s heap)"
  "mh_available_size (memheaps (take_available heap d s) heap) = mh_available_size (memheaps s heap) - d"
  by (simp_all add: take_available_def Let_def) (simp add: upd_mh_def)

lemma give_available_fields [simp]:
  "block_view (give_available heap d s) = block_view s" "free_view (give_available heap d s) = free_view s"
  "tag_view (give_available heap d s) = tag_view s" "sems (give_available heap d s) = sems s" "tlists (give_available heap d s) = tlists s"
  "mdata (give_available heap d s) = mdata s" "mitems (give_available heap d s) = mitems s"
  "mh_start_addr (memheaps (give_available heap d s) heap) = mh_start_addr (memheaps s heap)"
  "mh_pool_size (memheaps (give_available heap d s) heap) = mh_pool_size (memheaps s heap)"
  "mh_free_list (memheaps (give_available heap d s) heap) = mh_free_list (memheaps s heap)"
  "mh_available_size (memheaps (give_available heap d s) heap) = mh_available_size (memheaps s heap) + d"
  by (simp_all add: give_available_def) (simp add: upd_mh_def)

lemma used_tag_bits:
  "fst (used_tag heap u) OR RT_MEMHEAP_USED = fst (used_tag heap True)" "fst (used_tag heap u) AND NOT RT_MEMHEAP_USED = fst (used_tag heap False)"
  "snd (used_tag heap u) = heap" "fst (used_tag heap u) AND RT_MEMHEAP_MASK = RT_MEMHEAP_MAGIC"
  "fst (used_tag heap u) AND RT_MEMHEAP_USED \<noteq> 0 \<longleftrightarrow> u"
  by (cases u; simp add: used_tag_def)+

text \<open>The block of the row at an address, and the addresses around it.\<close>

lemma row_addrs:
  assumes "blocks_ok (ys @ (n, u) # zs)" and p: "p = a + slen ys"
  shows "\<And>x. x \<in> set (addrs a ys) \<Longrightarrow> x + 36 \<le> p" "\<And>x. x \<in> set (addrs (p + n) zs) \<Longrightarrow> p + n \<le> x \<and> x + 36 \<le> p + n + slen zs"
  using addrs_bounds[of ys _ a] addrs_bounds[of zs _ "p + n"] assms by auto

text \<open>The steps, each on the rings of the heap.\<close>

lemma new_block_rings:
  assumes k: "rings_ok s heap (ys @ (n, u) # zs) fs" and p: "p = mh_start_addr (memheaps s heap) + slen ys"
    and m: "36 \<le> m" "m + 36 \<le> n" "4 dvd m" and N: "N = p + m" "N \<notin> set fs"
  shows "rings_ok (new_block heap p N s) heap (ys @ (m, u) # (n - m, False) # zs) fs"
proof -
  note K = rings_okD[OF k]
  define a where "a = mh_start_addr (memheaps s heap)"
  have pa: "p = a + slen ys" by (simp add: p a_def)
  note A = row_addrs[OF K(5) pa]
  let ?e = "a + slen (ys @ (n, u) # zs)"
  have e: "?e = p + n + slen zs" by (simp add: pa)
  have n: "N \<notin> set (?e # addrs a ys @ p # addrs (p + n) zs)" "N \<noteq> p"
    using A m unfolding e N by fastforce+
  note V = new_block_views[OF n(2), where heap = heap and s = s]
  have "ring (block_view (new_block heap p N s)) ?e (addrs a ys @ p # N # addrs (p + n) zs)"
    using K(1) n(1) by (intro new_block_ring) (simp_all add: a_def pa add.assoc)
  moreover have "tagged (tag_view (new_block heap p N s)) heap a (ys @ (m, u) # (n - m, False) # zs)"
  proof -
    have "tagged (tag_view (new_block heap p N s)) heap a ys = tagged (tag_view s) heap a ys"
      "tagged (tag_view (new_block heap p N s)) heap (p + n) zs = tagged (tag_view s) heap (p + n) zs"
      using n(1) by (intro tagged_cong; force simp: V(3))+
    moreover have "tag_view (new_block heap p N s) p = tag_view s p" "tag_view (new_block heap p N s) N = used_tag heap False"
      using n(2) by (simp_all add: V(3) used_tag_def)
    ultimately show ?thesis using K(3) m by (simp add: a_def[symmetric] pa[symmetric] N(1))
  qed
  moreover have "tag_view (new_block heap p N s) ?e = used_tag heap True" using K(4) n(1) by (simp add: V(3) a_def)
  moreover have "36 \<le> n - m" "4 dvd n - m" using m K(5) by (auto simp: dvd_diff_nat)
  ultimately show ?thesis using K V(2,4) m N(1)
    by (simp add: rings_ok_def Let_def only_items_def a_def[symmetric] pa add.assoc)
qed

lemma drop_block_rings:
  assumes k: "rings_ok s heap (ys @ (m, u) # (n, v) # zs) fs"
    and B: "ring (block_view s') (mh_start_addr (memheaps s heap) + slen (ys @ (m, u) # (n, v) # zs))
      (addrs (mh_start_addr (memheaps s heap)) (ys @ (m + n, u) # zs))"
    and f: "free_view s' = free_view s" "tag_view s' = tag_view s" "memheaps s' = memheaps s"
  shows "rings_ok s' heap (ys @ (m + n, u) # zs) fs"
  using rings_okD[OF k] B f by (simp add: rings_ok_def Let_def add.assoc)

lemma set_tag_rings:
  assumes k: "rings_ok s heap (ys @ (n, u) # zs) fs" and p: "p = mh_start_addr (memheaps s heap) + slen ys"
    and t: "g (fst (used_tag heap u)) = fst (used_tag heap v)"
  shows "rings_ok (upd_item p (mi_magic_update g) s) heap (ys @ (n, v) # zs) fs"
proof -
  note K = rings_okD[OF k]
  define a where "a = mh_start_addr (memheaps s heap)"
  have pa: "p = a + slen ys" by (simp add: p a_def)
  note A = row_addrs[OF K(5) pa]
  have T: "tag_view s p = used_tag heap u" using K(3) by (simp add: a_def[symmetric] pa)
  have V: "tag_view (upd_item p (mi_magic_update g) s) = (tag_view s)(p := used_tag heap v)"
    using t T by (simp add: item_views) (simp add: used_tag_def)
  have "tagged (tag_view (upd_item p (mi_magic_update g) s)) heap a ys = tagged (tag_view s) heap a ys"
    "tagged (tag_view (upd_item p (mi_magic_update g) s)) heap (p + n) zs = tagged (tag_view s) heap (p + n) zs"
    unfolding V using A K(5) by (intro tagged_cong; fastforce)+
  moreover have "tag_view (upd_item p (mi_magic_update g) s) (a + slen (ys @ (n, u) # zs)) = tag_view s (a + slen (ys @ (n, u) # zs))"
    unfolding V using K(5) by (simp add: pa)
  moreover have "tag_view (upd_item p (mi_magic_update g) s) p = used_tag heap v" unfolding V by simp
  ultimately show ?thesis using K by (simp add: rings_ok_def Let_def a_def[symmetric] pa add.assoc del: tag_view_upd)
qed

lemma insert_free_rings:
  assumes k: "rings_ok s heap xs fs" and n: "n \<notin> set fs" "n \<noteq> free_header heap"
  shows "rings_ok (insert_free heap n s) heap xs (n # fs)"
proof -
  note K = rings_okD[OF k]
  have "n \<noteq> mh_free_list (memheaps s heap)" using n(2) K(7) by simp
  note V = insert_free_views[OF this]
  have "ring (free_view (insert_free heap n s)) (free_header heap) (n # fs)" using K(2,7) n by (intro insert_free_ring) auto
  then show ?thesis using K V(1,2,4) by (simp add: rings_ok_def Let_def only_items_def)
qed

lemma remove_free_rings:
  assumes k: "rings_ok s heap xs (f1 @ n # f2)"
  shows "rings_ok (remove_free n s) heap xs (f1 @ f2)" "rings_ok (clear_free n (remove_free n s)) heap xs (f1 @ f2)"
    "only_items s (remove_free n s)" "block_view (remove_free n s) = block_view s" "tag_view (remove_free n s) = tag_view s"
proof -
  note K = rings_okD[OF k] and R = remove_free_ring[OF rings_okD(2)[OF k]]
  show "rings_ok (remove_free n s) heap xs (f1 @ f2)" "rings_ok (clear_free n (remove_free n s)) heap xs (f1 @ f2)"
    using K R clear_free_views[where n = n and s = "remove_free n s"] by (simp_all add: rings_ok_def Let_def only_items_def)
  show "only_items s (remove_free n s)" "block_view (remove_free n s) = block_view s" "tag_view (remove_free n s) = tag_view s"
    by (rule R)+
qed

lemma available_rings [simp]:
  "rings_ok (take_available heap d s) heap xs fs = rings_ok s heap xs fs" "rings_ok (give_available heap d s) heap xs fs = rings_ok s heap xs fs"
  by (rule rings_ok_cong; simp)+

text \<open>What a step leaves alone: the locks, the waiting lists, the contents of memory and where the pool starts.\<close>

definition heap_frame :: "nat \<Rightarrow> 'a mh_state_scheme \<Rightarrow> 'a mh_state_scheme \<Rightarrow> bool" where
  "heap_frame heap s s' \<longleftrightarrow> sems s' = sems s \<and> tlists s' = tlists s \<and> mdata s' = mdata s
     \<and> mh_start_addr (memheaps s' heap) = mh_start_addr (memheaps s heap)"

lemma memheap_ok_frame:
  "heap_frame heap s s' \<Longrightarrow> memheap_rows s' heap xs fs \<Longrightarrow> joined xs \<Longrightarrow> sems s (heap_lock heap) = 1
    \<Longrightarrow> tlists s (Suspend (heap_lock heap)) = [] \<Longrightarrow> memheap_ok s' heap xs"
  by (auto simp: memheap_ok_def heap_frame_def)

lemma memheap_rowsD:
  assumes "memheap_rows s heap xs fs"
  shows "rings_ok s heap xs fs" "set fs = free_at (mh_start_addr (memheaps s heap)) xs"
    "unat (mh_available_size (memheaps s heap)) = free_bytes xs" "distinct fs"
  using assms rings_okD(2)[of s heap xs fs] by (auto simp: memheap_rows_def ring_def)

text \<open>The item of a free block, in the row and in the free list.\<close>

lemma free_item:
  assumes k: "memheap_rows s heap (ys @ (n, False) # zs) fs" and p: "p = mh_start_addr (memheaps s heap) + slen ys"
  shows "\<exists>f1 f2. fs = f1 @ p # f2 \<and> set (f1 @ f2) = free_at (mh_start_addr (memheaps s heap)) (ys @ (n, True) # zs)"
proof -
  note M = memheap_rowsD[OF k]
  define a where "a = mh_start_addr (memheaps s heap)"
  have b: "blocks_ok (ys @ (n, False) # zs)" "blocks_ok (ys @ (n, True) # zs)" using rings_okD(5)[OF M(1)] by simp_all
  have "p \<in> set fs" using in_free_at[OF b(1), of a] M(2) p by (simp add: a_def)
  then obtain f1 f2 where f: "fs = f1 @ p # f2" by (auto dest: split_list)
  have "p \<notin> free_at a (ys @ (n, True) # zs)" using in_free_at[OF b(2), of a] p by (simp add: a_def)
  moreover have "free_at a (ys @ (n, False) # zs) = insert p (free_at a (ys @ (n, True) # zs))" using p by (simp add: a_def)
  ultimately show ?thesis using f M(2,4) unfolding a_def by (intro exI[of _ f1] exI[of _ f2]) auto
qed

lemma inside_row:
  assumes k: "rings_ok s heap (ys @ (n, u) # zs) fs" "set fs \<subseteq> free_at (mh_start_addr (memheaps s heap)) (ys @ (n, v) # zs)"
    and p: "p = mh_start_addr (memheaps s heap) + slen ys" and N: "p < N" "N < p + n"
  shows "N \<notin> set fs" "N \<noteq> free_header heap"
proof -
  note K = rings_okD[OF k(1)]
  have "blocks_ok (ys @ (n, v) # zs)" using K(5) by simp
  note A = row_addrs[OF this p]
  have "N \<notin> set (addrs (mh_start_addr (memheaps s heap)) (ys @ (n, v) # zs))"
    using A(1)[of N] A(2)[of N] N p by (auto simp: add.assoc)
  then show "N \<notin> set fs" using k(2) free_at_addrs by blast
  show "N \<noteq> free_header heap" using K(8) p N by auto
qed

lemma available_down:
  assumes "unat a = x + d" "unat b = d"
  shows "unat (a - b :: rt_uint32_t) = x"
  using assms by (simp add: unat_sub word_le_nat_alt)

text \<open>Taking the free block \<open>(n, False)\<close> for a payload of \<open>m\<close> bytes.\<close>

definition mcut :: "nat \<Rightarrow> nat \<Rightarrow> seg list" where
  "mcut m n = (if m + 60 \<le> n then [(m + ITEM_LEN, True), (n - (m + ITEM_LEN), False)] else [(n, True)])"

lemma take_block_split:
  assumes k: "memheap_rows s heap (ys @ (n, False) # zs) fs" and p: "p = mh_start_addr (memheaps s heap) + slen ys"
    and sz: "12 \<le> unat sz" "4 dvd unat sz" "unat sz + 60 \<le> n"
  defines "s' \<equiv> memheap_take_block heap p sz (memitem_size p s) s"
  shows "(\<exists>fs'. memheap_rows s' heap (ys @ (unat sz + ITEM_LEN, True) # (n - (unat sz + ITEM_LEN), False) # zs) fs') \<and> heap_frame heap s s'"
proof -
  note M = memheap_rowsD[OF k] and K = rings_okD[OF memheap_rowsD(1)[OF k]]
  define m where "m = unat sz + ITEM_LEN"
  define N where "N = p + unat sz + ITEM_LEN"
  have m: "36 \<le> m" "m + 36 \<le> n" "4 dvd m" "p < N" "N < p + n" "N = p + m" using sz by (auto simp: m_def N_def)
  note N = inside_row[OF M(1) equalityD1[OF M(2)] p m(4,5)]
  obtain f1 f2 where f: "fs = f1 @ p # f2" and ff: "set (f1 @ f2) = free_at (mh_start_addr (memheaps s heap)) (ys @ (n, True) # zs)"
    using free_item[OF k p] by blast
  have big: "unat (sz + RT_MEMHEAP_SIZE + RT_MEMHEAP_MINIALLOC) = unat sz + 36" "unat (sz + RT_MEMHEAP_SIZE) = m"
    using K(11) sz(3) by (simp_all add: unat_add_small m_def)
  have split: "memitem_size p s \<ge> sz + RT_MEMHEAP_SIZE + RT_MEMHEAP_MINIALLOC"
    unfolding word_le_nat_alt big unat_memitem_size[OF M(1) p] using sz(3) by simp
  define s1 where "s1 = new_block heap p N s"
  define s2 where "s2 = clear_free p (remove_free p s1)"
  define s3 where "s3 = insert_free heap N s2"
  define s4 where "s4 = take_available heap (sz + RT_MEMHEAP_SIZE) s3"
  have s': "s' = upd_item p (mi_magic_update (\<lambda>v. v OR RT_MEMHEAP_USED)) s4"
    using split by (simp add: s'_def memheap_take_block_def Let_def s1_def s2_def s3_def s4_def N_def)
  have 1: "rings_ok s1 heap (ys @ (m, False) # (n - m, False) # zs) (f1 @ p # f2)"
    unfolding s1_def using new_block_rings[OF M(1) p m(1-3,6) N(1)] f by simp
  have 2: "rings_ok s2 heap (ys @ (m, False) # (n - m, False) # zs) (f1 @ f2)" unfolding s2_def by (rule remove_free_rings[OF 1])
  have 3: "rings_ok s3 heap (ys @ (m, False) # (n - m, False) # zs) (N # f1 @ f2)"
    unfolding s3_def using insert_free_rings[OF 2 _ N(2)] N(1) f by simp
  have o1: "only_items s s1" unfolding s1_def using m(4) by (intro new_block_views(4)) simp
  have o2: "only_items s1 s2" unfolding s2_def using remove_free_rings(3)[OF 1] clear_free_views(4)[of "remove_free p s1" p]
    by (simp add: only_items_def)
  have "N \<noteq> mh_free_list (memheaps s2 heap)" using N(2) rings_okD(7)[OF 2] by simp
  then have o3: "only_items s s3" using insert_free_views(4)[of N s2 heap] o1 o2 by (simp add: only_items_def s3_def)
  have 4: "rings_ok s4 heap (ys @ (m, False) # (n - m, False) # zs) (N # f1 @ f2)" using 3 by (simp add: s4_def)
  have 5: "rings_ok s' heap (ys @ (m, True) # (n - m, False) # zs) (N # f1 @ f2)"
    unfolding s' using set_tag_rings[OF 4, of p "\<lambda>v. v OR RT_MEMHEAP_USED" True] o3 p used_tag_bits(1) by (simp add: s4_def only_items_def)
  have "unat (mh_available_size (memheaps s4 heap)) = free_bytes (ys @ (m, True) # (n - m, False) # zs)"
    using available_down[OF _ big(2), of "mh_available_size (memheaps s heap)" "free_bytes (ys @ (m, True) # (n - m, False) # zs)"] M(3) m o3
    by (simp add: s4_def only_items_def)
  then have "memheap_rows s' heap (ys @ (m, True) # (n - m, False) # zs) (N # f1 @ f2)"
    using 5 ff o3 m by (auto simp: memheap_rows_def s' s4_def only_items_def p add.assoc)
  moreover have "heap_frame heap s s'" using o3 by (simp add: s' heap_frame_def s4_def only_items_def)
  ultimately show ?thesis unfolding m_def by blast
qed

lemma take_block_whole:
  assumes k: "memheap_rows s heap (ys @ (n, False) # zs) fs" and p: "p = mh_start_addr (memheaps s heap) + slen ys"
    and sz: "unat sz + ITEM_LEN \<le> n" "n < unat sz + 60"
  defines "s' \<equiv> memheap_take_block heap p sz (memitem_size p s) s"
  shows "(\<exists>fs'. memheap_rows s' heap (ys @ (n, True) # zs) fs') \<and> heap_frame heap s s'"
proof -
  note M = memheap_rowsD[OF k] and K = rings_okD[OF memheap_rowsD(1)[OF k]]
  obtain f1 f2 where f: "fs = f1 @ p # f2" and ff: "set (f1 @ f2) = free_at (mh_start_addr (memheaps s heap)) (ys @ (n, True) # zs)"
    using free_item[OF k p] by blast
  note ms = unat_memitem_size[OF M(1) p]
  have big: "unat (sz + RT_MEMHEAP_SIZE + RT_MEMHEAP_MINIALLOC) = unat sz + 36" using K(10,11) sz by (simp add: unat_add_small)
  have split: "\<not> memitem_size p s \<ge> sz + RT_MEMHEAP_SIZE + RT_MEMHEAP_MINIALLOC"
    unfolding word_le_nat_alt big ms using sz K(5) by simp
  define s1 where "s1 = take_available heap (memitem_size p s) s"
  define s2 where "s2 = clear_free p (remove_free p s1)"
  have s': "s' = upd_item p (mi_magic_update (\<lambda>v. v OR RT_MEMHEAP_USED)) s2"
    using split by (simp add: s'_def memheap_take_block_def Let_def s1_def s2_def)
  have 1: "rings_ok s1 heap (ys @ (n, False) # zs) (f1 @ p # f2)" using M(1) f by (simp add: s1_def)
  have 2: "rings_ok s2 heap (ys @ (n, False) # zs) (f1 @ f2)" unfolding s2_def by (rule remove_free_rings[OF 1])
  have o2: "only_items s1 s2" unfolding s2_def using remove_free_rings(3)[OF 1] clear_free_views(4)[of "remove_free p s1" p]
    by (simp add: only_items_def)
  have 3: "rings_ok s' heap (ys @ (n, True) # zs) (f1 @ f2)"
    unfolding s' using set_tag_rings[OF 2, of p "\<lambda>v. v OR RT_MEMHEAP_USED" True] o2 p used_tag_bits(1) by (simp add: s1_def only_items_def)
  have "unat (mh_available_size (memheaps s1 heap)) = free_bytes (ys @ (n, True) # zs)"
    using available_down[OF _ ms, of "mh_available_size (memheaps s heap)" "free_bytes (ys @ (n, True) # zs)"] M(3) by (simp add: s1_def)
  then have "memheap_rows s' heap (ys @ (n, True) # zs) (f1 @ f2)"
    using 3 ff o2 by (auto simp: memheap_rows_def s' s1_def only_items_def)
  moreover have "heap_frame heap s s'" using o2 by (simp add: s' heap_frame_def s1_def only_items_def)
  ultimately show ?thesis by blast
qed

text \<open>The lock around an operation.\<close>

lemma memheap_take_lock_free:
  "sems s (heap_lock heap) = 1 \<Longrightarrow> memheap_take_lock heap s = Some (RT_EOK, upd_sem (heap_lock heap) (\<lambda>v. v - 1) s)"
  by (simp add: memheap_take_lock_def rt_sem_take_def)

lemma memheap_rows_sem [simp]: "memheap_rows (upd_sem l f s) heap xs fs = memheap_rows s heap xs fs"
  by (simp add: memheap_rows_def)

lemma memitem_size_sem [simp]: "memitem_size p (upd_sem l f s) = memitem_size p s"
  by (simp add: memitem_size_def)

lemma unlock_ok:
  assumes "memheap_ok s heap us" "heap_frame heap (upd_sem (heap_lock heap) (\<lambda>v. v - 1) s) s'"
  defines "s'' \<equiv> upd_sem (heap_lock heap) (\<lambda>v. v + 1) s'"
  shows "memheap_release_lock heap s' = Some s''" "memheap_rows s' heap xs fs \<Longrightarrow> joined xs \<Longrightarrow> memheap_ok s'' heap xs"
    "mdata s'' = mdata s" "mh_start_addr (memheaps s'' heap) = mh_start_addr (memheaps s heap)"
proof -
  have f: "sems s' (heap_lock heap) = 0" "tlists s' (Suspend (heap_lock heap)) = []" "mdata s' = mdata s"
    "mh_start_addr (memheaps s' heap) = mh_start_addr (memheaps s heap)"
    using assms(1,2) by (simp_all add: memheap_ok_def heap_frame_def upd_sem_def)
  show "memheap_release_lock heap s' = Some s''" using f by (simp add: memheap_release_lock_def rt_sem_release_def s''_def)
  show "mdata s'' = mdata s" "mh_start_addr (memheaps s'' heap) = mh_start_addr (memheaps s heap)" using f by (simp_all add: s''_def)
  assume "memheap_rows s' heap xs fs" "joined xs"
  moreover have "sems s'' (heap_lock heap) = 1" "tlists s'' (Suspend (heap_lock heap)) = []" using f by (simp_all add: s''_def upd_sem_def)
  ultimately show "memheap_ok s'' heap xs" by (auto simp: memheap_ok_def s''_def)
qed

lemma unlock_same:
  assumes "memheap_ok s heap xs"
  shows "memheap_release_lock heap (upd_sem (heap_lock heap) (\<lambda>v. v - 1) s) = Some s"
proof -
  have "(sems s)(heap_lock heap := 1) = sems s" "tlists s (Suspend (heap_lock heap)) = []"
    using assms by (auto simp: memheap_ok_def fun_upd_idem_iff)
  then show ?thesis using assms by (simp add: memheap_release_lock_def rt_sem_release_def memheap_ok_def upd_sem_def)
qed

lemma take_block_ok:
  assumes k: "memheap_rows s heap (ys @ (n, False) # zs) fs" and p: "p = mh_start_addr (memheaps s heap) + slen ys"
    and sz: "12 \<le> unat sz" "4 dvd unat sz" "unat sz + ITEM_LEN \<le> n"
  defines "s' \<equiv> memheap_take_block heap p sz (memitem_size p s) s"
  shows "\<exists>fs'. memheap_rows s' heap (ys @ mcut (unat sz) n @ zs) fs'" "heap_frame heap s s'"
  using take_block_split[OF k p sz(1,2)] take_block_whole[OF k p sz(3)]
  by (cases "unat sz + 60 \<le> n"; simp add: s'_def mcut_def)+

lemma joined_mcut: "joined (ys @ (n, False) # zs) \<Longrightarrow> joined (ys @ mcut m n @ zs)"
  by (auto simp: mcut_def joined_append joined_Cons)

definition payload :: "rt_uint32_t \<Rightarrow> nat" where
  "payload sz = max 12 ((unat sz + 3) div 4 * 4)"

lemma unat_memheap_align:
  assumes "unat sz \<le> 2 ^ 32 - 4"
  shows "unat (memheap_align sz) = payload sz" "12 \<le> payload sz" "4 dvd payload sz" "unat sz \<le> payload sz"
proof -
  have "unat (RT_ALIGN sz 4) = (unat sz + 3) div 4 * 4" using align_up_eq[OF assms] by (simp add: align_up_def)
  then show "unat (memheap_align sz) = payload sz" by (simp add: memheap_align_def Let_def word_less_nat_alt payload_def max_def)
  show "12 \<le> payload sz" "4 dvd payload sz" "unat sz \<le> payload sz" by (auto simp: payload_def max_def)
qed

text \<open>No block for a payload of \<open>m\<close> bytes: the free bytes are not more, or each free block is too small.\<close>

definition no_room :: "nat \<Rightarrow> seg list \<Rightarrow> bool" where
  "no_room m xs \<longleftrightarrow> free_bytes xs \<le> m \<or> (\<forall>x \<in> set xs. \<not> snd x \<longrightarrow> fst x < m + ITEM_LEN)"

lemma memheap_alloc_row:
  assumes "memheap_ok s heap xs" "unat sz \<le> 2 ^ 32 - 4"
  shows "\<exists>r s'. rt_memheap_alloc heap sz s = Some (r, s') \<and>
    (case r of
       None \<Rightarrow> s' = s \<and> (free_bytes xs \<le> payload sz \<or> (\<forall>n. (n, False) \<in> set xs \<longrightarrow> n < payload sz + ITEM_LEN))
     | Some b \<Rightarrow> \<exists>ys n zs. xs = ys @ (n, False) # zs \<and> payload sz + ITEM_LEN \<le> n \<and> payload sz < free_bytes xs
         \<and> b = mh_start_addr (memheaps s heap) + slen ys + ITEM_LEN \<and> memheap_ok s' heap (ys @ mcut (payload sz) n @ zs)
         \<and> mdata s' = mdata s \<and> mh_start_addr (memheaps s' heap) = mh_start_addr (memheaps s heap))"
proof -
  obtain fs where k: "memheap_rows s heap xs fs" and j: "joined xs" and l: "sems s (heap_lock heap) = 1"
    using assms(1) by (auto simp: memheap_ok_def)
  note M = memheap_rowsD[OF k] and K = rings_okD[OF memheap_rowsD(1)[OF k]] and A = unat_memheap_align[OF assms(2)]
  define z where "z = memheap_align sz"
  define t where "t = upd_sem (heap_lock heap) (\<lambda>v. v - 1) s"
  have z: "unat z = payload sz" using A(1) by (simp add: z_def)
  show ?thesis
  proof (cases "z < mh_available_size (memheaps s heap)")
    case False
    then have "free_bytes xs \<le> payload sz" using M(3) z by (simp add: word_less_nat_alt)
    then show ?thesis using False by (simp add: rt_memheap_alloc_def Let_def z_def[symmetric])
  next
    case True
    then have avail: "payload sz < free_bytes xs" using M(3) z by (simp add: word_less_nat_alt)
    have "ring (free_view t) (free_header heap) ([] @ fs)" "0 < z" using K(2) z A(2) by (simp_all add: t_def word_less_nat_alt)
    moreover have "mi_next_free (mitems s (free_header heap)) = hd (fs @ [free_header heap])"
      using ring_link[of "free_view s" "free_header heap" "[]" fs] K(2) by (simp add: item_views linked_def)
    ultimately obtain q g where q: "memheap_search (free_header heap) z 0 (mi_next_free (mitems s (free_header heap))) t = Some (q, g)"
      and c: "q \<in> set fs \<and> g = memitem_size q t \<and> \<not> g < z \<or> g < z \<and> (\<forall>v \<in> set fs. memitem_size v t < z)"
      using memheap_search_ring[of t "free_header heap" "[]" fs 0 z] by blast
    have run: "rt_memheap_alloc heap sz s = (if g \<ge> z then
        do { s' \<leftarrow> memheap_release_lock heap (memheap_take_block heap q z g t); Some (Some (q + ITEM_LEN), s') }
        else do { s' \<leftarrow> memheap_release_lock heap t; Some (None, s') })"
      using True q K(7) by (simp add: rt_memheap_alloc_def Let_def z_def[symmetric] memheap_take_lock_free[OF l] t_def)
    show ?thesis
    proof (cases "g < z")
      case True
      have "n < payload sz + ITEM_LEN" if n: "(n, False) \<in> set xs" for n
      proof -
        obtain ys zs where x: "xs = ys @ (n, False) # zs" using n by (auto dest: split_list)
        have "mh_start_addr (memheaps s heap) + slen ys \<in> set fs" using in_free_at[of ys "(n, False)" zs] K(5) M(2) x by simp
        then have "memitem_size (mh_start_addr (memheaps s heap) + slen ys) s < z" using c True by (auto simp: t_def)
        then show ?thesis using unat_memitem_size[OF M(1)[unfolded x] refl] K(5) z unfolding word_less_nat_alt x by simp
      qed
      moreover have "\<not> z \<le> g" using True by simp
      ultimately show ?thesis using run unlock_same[OF assms(1)] by (simp add: t_def)
    next
      case False
      then have g: "q \<in> set fs" "g = memitem_size q t" using c by auto
      then obtain ys n zs where x: "xs = ys @ (n, False) # zs" "q = mh_start_addr (memheaps s heap) + slen ys"
        using M(2) free_at_split by metis
      have fit: "payload sz + ITEM_LEN \<le> n"
        using False g(2) z unat_memitem_size[OF M(1)[unfolded x(1)] x(2)] K(5) x(1) by (auto simp: word_less_nat_alt t_def)
      have kt: "memheap_rows t heap (ys @ (n, False) # zs) fs" using k x(1) by (simp add: t_def)
      have qt: "q = mh_start_addr (memheaps t heap) + slen ys" using x(2) by (simp add: t_def)
      obtain fs' where B: "memheap_rows (memheap_take_block heap q z g t) heap (ys @ mcut (payload sz) n @ zs) fs'"
        using take_block_ok(1)[OF kt qt, of z] A(2,3) fit z g(2) by auto
      have F: "heap_frame heap t (memheap_take_block heap q z g t)" using take_block_ok(2)[OF kt qt, of z] A(2,3) fit z g(2) by simp
      note U = unlock_ok[OF assms(1) F[unfolded t_def], folded t_def]
      show ?thesis using False run U(1,3,4) U(2)[OF B joined_mcut] j x fit avail by auto
    qed
  qed
qed

subsection \<open>Freeing\<close>

text \<open>The state of \<open>rt_memheap_free\<close> between its steps: the block \<open>(n, False)\<close> is free, and not in the free
  list yet when \<open>b\<close> holds.\<close>

definition part_rows :: "'a mh_state_scheme \<Rightarrow> nat \<Rightarrow> seg list \<Rightarrow> nat \<Rightarrow> bool \<Rightarrow> seg list \<Rightarrow> nat list \<Rightarrow> bool" where
  "part_rows s heap ys n b zs fs \<longleftrightarrow> rings_ok s heap (ys @ (n, False) # zs) fs
     \<and> set fs = free_at (mh_start_addr (memheaps s heap)) (ys @ (n, b) # zs)
     \<and> unat (mh_available_size (memheaps s heap)) = free_bytes (ys @ (n, False) # zs)"

lemma part_rows_done: "part_rows s heap ys n False zs fs \<longleftrightarrow> memheap_rows s heap (ys @ (n, False) # zs) fs"
  by (simp add: part_rows_def memheap_rows_def)

lemma tag_is_used: "tag_view s p = used_tag heap u \<Longrightarrow> memitem_is_used p s = u"
  by (simp add: memitem_is_used_def item_views used_tag_bits)

lemma free_bytes_le: "free_bytes xs \<le> slen xs"
  by (induction xs) auto

lemma available_up:
  assumes "unat a + unat b = x" "x < 2 ^ 32"
  shows "unat (a + b :: rt_uint32_t) = x"
  using assms by (simp add: unat_add_small)

lemma left_neighbour:
  assumes k: "rings_ok s heap (ys @ (n, u) # zs) fs" and p: "p = mh_start_addr (memheaps s heap) + slen ys"
  shows "memitem_is_used (mi_prev (mitems s p)) s \<longleftrightarrow> ys = [] \<or> snd (last ys)"
    "ys \<noteq> [] \<Longrightarrow> mi_prev (mitems s p) = mh_start_addr (memheaps s heap) + slen (butlast ys)"
proof -
  note K = rings_okD[OF k]
  have q: "mi_prev (mitems s p) = last ((mh_start_addr (memheaps s heap) + slen (ys @ (n, u) # zs)) # addrs (mh_start_addr (memheaps s heap)) ys)"
    using block_neighbours(2)[OF K(1)] p by (simp add: item_views)
  show "ys \<noteq> [] \<Longrightarrow> mi_prev (mitems s p) = mh_start_addr (memheaps s heap) + slen (butlast ys)"
    using q by (cases ys rule: rev_cases) simp_all
  show "memitem_is_used (mi_prev (mitems s p)) s \<longleftrightarrow> ys = [] \<or> snd (last ys)"
  proof (cases ys rule: rev_cases)
    case Nil
    then show ?thesis using q tag_is_used[OF K(4)] by simp
  next
    case (snoc ws x)
    then have "tag_view s (mi_prev (mitems s p)) = used_tag heap (snd x)" using q K(3) by simp
    then show ?thesis using tag_is_used[of s "mi_prev (mitems s p)"] snoc by simp
  qed
qed

lemma right_neighbour:
  assumes k: "rings_ok s heap (ys @ (n, u) # zs) fs" and p: "p = mh_start_addr (memheaps s heap) + slen ys"
  shows "mi_next (mitems s p) = p + n" "memitem_is_used (p + n) s \<longleftrightarrow> zs = [] \<or> snd (hd zs)"
proof -
  note K = rings_okD[OF k]
  show "mi_next (mitems s p) = p + n" using block_neighbours(1)[OF K(1)] p by (simp add: item_views)
  show "memitem_is_used (p + n) s \<longleftrightarrow> zs = [] \<or> snd (hd zs)"
  proof (cases zs)
    case Nil
    then have "tag_view s (p + n) = used_tag heap True" using K(4) p by (simp add: add.assoc)
    then show ?thesis using tag_is_used[of s "p + n"] Nil by simp
  next
    case (Cons x vs)
    then have "tag_view s (p + n) = used_tag heap (snd x)" using K(3) p by simp
    then show ?thesis using tag_is_used[of s "p + n"] Cons by simp
  qed
qed

lemma set_commute: "set_prev b w (set_next a v h) = set_next a v (set_prev b w h)"
  by auto

text \<open>Joining two neighbours, first in the ring of blocks.\<close>

lemma join_rings:
  assumes k: "rings_ok s heap (ys @ (m, u) # (n, v) # zs) fs"
    and p: "p = mh_start_addr (memheaps s heap) + slen ys"
    and B: "block_view s' = set_next p (p + m + n) (set_prev (p + m + n) p (block_view s))"
    and f: "free_view s' = free_view s" "tag_view s' = tag_view s" "memheaps s' = memheaps s"
  shows "rings_ok s' heap (ys @ (m + n, u) # zs) fs"
proof (rule drop_block_rings[OF k _ f])
  note K = rings_okD[OF k]
  define a where "a = mh_start_addr (memheaps s heap)"
  let ?e = "a + slen (ys @ (m, u) # (n, v) # zs)"
  have r: "ring (block_view s) ?e ((addrs a ys @ [p]) @ (p + m) # addrs (p + m + n) zs)" using K(1) by (simp add: a_def p add.assoc)
  have "hd (addrs (p + m + n) zs @ [?e]) = p + m + n" by (cases zs) (simp_all add: p a_def add.assoc)
  then have L: "lnext (block_view s (p + m)) = p + m + n" "lprev (block_view s (p + m)) = p"
    using ring_links_around(1,2)[OF r] by (simp_all add: linked_def)
  have "ring (block_view s') ?e ((addrs a ys @ [p]) @ addrs (p + m + n) zs)" using unlink_ring[OF r] unfolding L B .
  then show "ring (block_view s') (mh_start_addr (memheaps s heap) + slen (ys @ (m, u) # (n, v) # zs))
      (addrs (mh_start_addr (memheaps s heap)) (ys @ (m + n, u) # zs))"
    by (simp add: p a_def add.assoc)
qed

lemma heap_frame_trans: "heap_frame heap s t \<Longrightarrow> heap_frame heap t u \<Longrightarrow> heap_frame heap s u"
  by (simp add: heap_frame_def)

lemma joined_bytes:
  assumes k: "rings_ok s heap (ys @ (m, False) # (n, False) # zs) fs"
    and a: "unat (mh_available_size (memheaps s heap)) = free_bytes (ys @ (m, False) # (n, False) # zs)"
  shows "unat (mh_available_size (memheaps s heap) + RT_MEMHEAP_SIZE) = free_bytes (ys @ (m + n, False) # zs)"
  using rings_okD[OF k] a free_bytes_le[of ys] free_bytes_le[of zs] by (intro available_up) auto

lemma merge_left_ok:
  assumes k: "part_rows s heap ys n True zs fs" and p: "p = mh_start_addr (memheaps s heap) + slen ys"
  shows "\<exists>ws m i q s'. merge_left heap p s = (q, i, s') \<and> q = mh_start_addr (memheaps s' heap) + slen ws
    \<and> part_rows s' heap ws m i zs fs \<and> heap_frame heap s s' \<and> ws @ join_right m zs = join_both ys n zs"
proof -
  have R: "rings_ok s heap (ys @ (n, False) # zs) fs" using k by (simp add: part_rows_def)
  note L = left_neighbour[OF R p] and N = right_neighbour(1)[OF R p]
  show ?thesis
  proof (cases "ys = [] \<or> snd (last ys)")
    case True
    then have "merge_left heap p s = (p, True, s)" using L(1) by (simp add: merge_left_def)
    then show ?thesis using True k p
      by (intro exI[of _ ys] exI[of _ n]) (auto simp: heap_frame_def join_both_def Let_def)
  next
    case False
    then obtain ws m where ys: "ys = ws @ [(m, False)]" by (cases ys rule: rev_cases) auto
    define q where "q = mh_start_addr (memheaps s heap) + slen ws"
    have q: "mi_prev (mitems s p) = q" "p = q + m" using L(2) p ys by (simp_all add: q_def)
    have m: "36 \<le> m" "36 \<le> n" using rings_okD(5)[OF R] ys by simp_all
    define s1 where "s1 = give_available heap RT_MEMHEAP_SIZE s"
    define s' where "s' = upd_item (p + n) (mi_prev_update (\<lambda>_. q)) (upd_item q (mi_next_update (\<lambda>_. p + n)) s1)"
    have V: "lnext (block_view s p) = p + n" "lprev (block_view s p) = q" using N q(1) by (simp_all add: item_views)
    have run: "merge_left heap p s = (q, False, s')"
      using False L(1) V m q(2) by (simp add: merge_left_def Let_def s'_def s1_def item_views)
    have R1: "rings_ok s1 heap (ws @ (m, False) # (n, False) # zs) fs" using R ys by (simp add: s1_def)
    have "rings_ok s' heap (ws @ (m + n, False) # zs) fs"
      using q(2) by (intro join_rings[OF R1, of q]) (simp_all add: s'_def s1_def q_def set_commute add.assoc)
    moreover have "set fs = free_at (mh_start_addr (memheaps s' heap)) (ws @ (m + n, False) # zs)"
      using k ys by (simp add: part_rows_def s'_def s1_def add.assoc)
    moreover have "unat (mh_available_size (memheaps s' heap)) = free_bytes (ws @ (m + n, False) # zs)"
      using joined_bytes[of s heap ws m n zs fs] R k ys by (simp add: part_rows_def s'_def s1_def)
    ultimately have "part_rows s' heap ws (m + n) False zs fs" by (simp add: part_rows_def)
    moreover have "heap_frame heap s s'" by (simp add: heap_frame_def s'_def s1_def)
    moreover have "ws @ join_right (m + n) zs = join_both ys n zs" by (simp add: ys join_both_def join_right_def Let_def)
    ultimately show ?thesis using run
      by (intro exI[of _ ws] exI[of _ "m + n"] exI[of _ False] exI[of _ q] exI[of _ s']) (simp add: q_def s'_def s1_def)
  qed
qed

lemma set_without:
  assumes "set (xs @ x # ys) = insert x A" "distinct (xs @ x # ys)" "x \<notin> A"
  shows "set (xs @ ys) = A"
proof -
  have "set (xs @ ys) = set (xs @ x # ys) - {x}" using assms(2) by auto
  also have "\<dots> = insert x A - {x}" by (simp only: assms(1))
  also have "\<dots> = A" using assms(3) by blast
  finally show ?thesis .
qed

text \<open>A block takes in the free block behind it.\<close>

lemma absorb_right:
  assumes R: "rings_ok s heap (ys @ (n, u) # (m, False) # vs) fs"
    and fs: "set fs = free_at (mh_start_addr (memheaps s heap)) (ys @ (n, b) # (m, False) # vs)"
    and p: "p = mh_start_addr (memheaps s heap) + slen ys"
    and B: "block_view t = set_next p (p + n + m) (set_prev (p + n + m) p (block_view s))"
    and f: "free_view t = free_view (remove_free (p + n) s)" "tag_view t = tag_view s" "memheaps t = memheaps s"
  shows "\<exists>gs. rings_ok t heap (ys @ (n + m, u) # vs) gs \<and> set gs = free_at (mh_start_addr (memheaps s heap)) (ys @ (n + m, b) # vs)"
proof -
  define a where "a = mh_start_addr (memheaps s heap)"
  have m: "36 \<le> m" "36 \<le> n" "blocks_ok (ys @ (n + m, b) # vs)" using rings_okD(5)[OF R] by simp_all
  have fs': "set fs = insert (p + n) (free_at a (ys @ (n + m, b) # vs))" "distinct fs"
    using fs p rings_okD(2)[OF R] by (auto simp: a_def add.assoc ring_def)
  have "p + n \<notin> set (addrs a (ys @ (n + m, b) # vs))"
    using row_addrs(1)[OF m(3), of p a "p + n"] row_addrs(2)[OF m(3), of p a "p + n"] m(1,2) p by (auto simp: a_def add.assoc)
  then have no: "p + n \<notin> free_at a (ys @ (n + m, b) # vs)" using free_at_addrs by blast
  obtain f1 f2 where f12: "fs = f1 @ (p + n) # f2" using split_list[of "p + n" fs] fs'(1) by auto
  have S: "set (f1 @ f2) = free_at a (ys @ (n + m, b) # vs)" using fs' unfolding f12 by (rule set_without[OF _ _ no])
  note D = remove_free_rings[OF R[unfolded f12]]
  have "rings_ok t heap (ys @ (n + m, u) # vs) (f1 @ f2)"
    using f D(3,4,5) B p by (intro join_rings[OF D(1), of p]) (simp_all add: only_items_def)
  then show ?thesis using S unfolding a_def by blast
qed

lemma ring_next_other: "ring h l (xs @ n # ys) \<Longrightarrow> lnext (h n) \<noteq> n"
  using ring_links_around(2,4)[of h l xs n ys] by (auto simp: linked_def)

lemma free_next_other: "rings_ok s heap xs fs \<Longrightarrow> n \<in> set fs \<Longrightarrow> lnext (free_view s n) \<noteq> n"
  using rings_okD(2) ring_next_other split_list by metis

lemma remove_free_other:
  assumes "free_view t = free_view s" "lnext (free_view s n) \<noteq> n"
  shows "free_view (remove_free n t) = free_view (remove_free n s)" "block_view (remove_free n t) = block_view t"
    "tag_view (remove_free n t) = tag_view t" "only_items t (remove_free n t)"
  using remove_free_views[of t n] remove_free_views(3)[of s n] assms by simp_all

lemma merge_right_ok:
  assumes k: "part_rows s heap ys n b zs fs" and p: "p = mh_start_addr (memheaps s heap) + slen ys"
  shows "\<exists>m vs gs. part_rows (merge_right heap p s) heap ys m b vs gs \<and> heap_frame heap s (merge_right heap p s)
    \<and> join_right n zs = (m, False) # vs"
proof -
  have R: "rings_ok s heap (ys @ (n, False) # zs) fs" using k by (simp add: part_rows_def)
  note N = right_neighbour[OF R p]
  show ?thesis
  proof (cases "zs = [] \<or> snd (hd zs)")
    case True
    then have "merge_right heap p s = s" using N by (simp add: merge_right_def)
    then show ?thesis using True k by (intro exI[of _ n] exI[of _ zs] exI[of _ fs]) (auto simp: heap_frame_def join_right_def)
  next
    case False
    then obtain m vs where zs: "zs = (m, False) # vs" by (cases zs) auto
    define a where "a = mh_start_addr (memheaps s heap)"
    have m: "36 \<le> m" "36 \<le> n" using rings_okD(5)[OF R] zs by simp_all
    have R': "rings_ok s heap ((ys @ [(n, False)]) @ (m, False) # vs) fs" using R zs by simp
    have next2: "mi_next (mitems s (p + n)) = p + n + m" using right_neighbour(1)[OF R', of "p + n"] p by simp
    define s1 where "s1 = give_available heap RT_MEMHEAP_SIZE s"
    define s2 where "s2 = upd_item p (mi_next_update (\<lambda>_. p + n + m)) (upd_item (p + n + m) (mi_prev_update (\<lambda>_. p)) s1)"
    have V: "lnext (block_view s p) = p + n" "lnext (block_view s (p + n)) = p + n + m" using N(1) next2 by (simp_all add: item_views)
    have run: "merge_right heap p s = remove_free (p + n) s2"
      using False N V m(1,2) by (simp add: merge_right_def Let_def s2_def s1_def item_views)
    have R1: "rings_ok s1 heap (ys @ (n, False) # (m, False) # vs) fs" using R zs by (simp add: s1_def)
    define t where "t = remove_free (p + n) s2"
    have pn: "p + n \<in> set fs" using k zs p by (simp add: part_rows_def add.assoc)
    note D = remove_free_other[of s2 s1 "p + n", OF _ free_next_other[OF R1 pn], folded t_def]
    have t: "block_view t = set_next p (p + n + m) (set_prev (p + n + m) p (block_view s1))"
      "free_view t = free_view (remove_free (p + n) s1)" "tag_view t = tag_view s1" "memheaps t = memheaps s1" "heap_frame heap s t"
      using D by (simp_all add: s2_def only_items_def set_commute heap_frame_def) (simp_all add: s1_def)
    obtain gs where "rings_ok t heap (ys @ (n + m, False) # vs) gs" "set gs = free_at a (ys @ (n + m, b) # vs)"
      using absorb_right[OF R1 _ _ t(1-4), of b] k p zs by (auto simp: part_rows_def a_def s1_def)
    moreover have "unat (mh_available_size (memheaps s heap) + RT_MEMHEAP_SIZE) = free_bytes (ys @ (n + m, False) # vs)"
      using joined_bytes[of s heap ys n m vs fs] R k zs by (simp add: part_rows_def)
    ultimately have "part_rows t heap ys (n + m) b vs gs" using t(4) by (simp add: part_rows_def s1_def a_def)
    moreover have "join_right n zs = (n + m, False) # vs" by (simp add: zs join_right_def)
    ultimately show ?thesis using t(5) unfolding run t_def by blast
  qed
qed

lemma insert_part_ok:
  assumes k: "part_rows s heap ys n True zs fs" and p: "p = mh_start_addr (memheaps s heap) + slen ys"
  shows "\<exists>gs. memheap_rows (insert_free heap p s) heap (ys @ (n, False) # zs) gs" "heap_frame heap s (insert_free heap p s)"
proof -
  have R: "rings_ok s heap (ys @ (n, False) # zs) fs" using k by (simp add: part_rows_def)
  define a where "a = mh_start_addr (memheaps s heap)"
  note K = rings_okD[OF R]
  have fs: "set fs = free_at a (ys @ (n, True) # zs)" using k by (simp add: part_rows_def a_def)
  have "p \<notin> set fs" using in_free_at[of ys "(n, True)" zs a] K(5) fs p by (simp add: a_def)
  moreover have fh: "p \<noteq> free_header heap" using K(8) p by auto
  ultimately have 1: "rings_ok (insert_free heap p s) heap (ys @ (n, False) # zs) (p # fs)" by (rule insert_free_rings[OF R])
  have o: "only_items s (insert_free heap p s)" using fh K(7) by (intro insert_free_views(4)) simp
  then show "heap_frame heap s (insert_free heap p s)" by (simp add: heap_frame_def only_items_def)
  have "set (p # fs) = free_at a (ys @ (n, False) # zs)" using fs p by (simp add: a_def)
  then show "\<exists>gs. memheap_rows (insert_free heap p s) heap (ys @ (n, False) # zs) gs"
    using 1 o k by (intro exI[of _ "p # fs"]) (simp add: memheap_rows_def part_rows_def only_items_def a_def)
qed

lemma release_block_ok:
  assumes k: "memheap_rows s heap (ys @ (n, True) # zs) fs" and p: "p = mh_start_addr (memheaps s heap) + slen ys"
  shows "\<exists>gs. memheap_rows (release_block heap p s) heap (join_both ys n zs) gs" "heap_frame heap s (release_block heap p s)"
proof -
  note M = memheap_rowsD[OF k]
  define s1 where "s1 = upd_item p (mi_magic_update (\<lambda>v. v AND NOT RT_MEMHEAP_USED)) s"
  define s2 where "s2 = give_available heap (memitem_size p s1) s1"
  have R1: "rings_ok s1 heap (ys @ (n, False) # zs) fs" unfolding s1_def using M(1) p used_tag_bits(2) by (rule set_tag_rings)
  have ms: "unat (memitem_size p s1) = n - ITEM_LEN" using unat_memitem_size[OF R1] p by (simp add: s1_def)
  have "free_bytes (ys @ (n, False) # zs) < 2 ^ 32"
    using rings_okD(11)[OF R1] free_bytes_le[of "ys @ (n, False) # zs"] by simp
  then have "unat (mh_available_size (memheaps s heap) + memitem_size p s1) = free_bytes (ys @ (n, False) # zs)"
    using M(3) ms by (intro available_up) simp_all
  then have k2: "part_rows s2 heap ys n True zs fs" using R1 M(2) by (simp add: part_rows_def s2_def s1_def)
  have f2: "heap_frame heap s s2" "p = mh_start_addr (memheaps s2 heap) + slen ys" using p by (simp_all add: heap_frame_def s2_def s1_def)
  obtain ws m i q s3 where l: "merge_left heap p s2 = (q, i, s3)" "q = mh_start_addr (memheaps s3 heap) + slen ws"
    "part_rows s3 heap ws m i zs fs" "heap_frame heap s2 s3" "ws @ join_right m zs = join_both ys n zs"
    using merge_left_ok[OF k2 f2(2)] by blast
  define s4 where "s4 = merge_right heap q s3"
  obtain m' vs gs where r: "part_rows s4 heap ws m' i vs gs" "heap_frame heap s3 s4" "join_right m zs = (m', False) # vs"
    using merge_right_ok[OF l(3,2)] unfolding s4_def by blast
  have f4: "heap_frame heap s s4" using f2(1) l(4) r(2) heap_frame_trans by blast
  have q: "q = mh_start_addr (memheaps s4 heap) + slen ws" using l(2) r(2) by (simp add: heap_frame_def)
  have run: "release_block heap p s = (if i then insert_free heap q s4 else s4)"
    using l(1) by (simp add: release_block_def Let_def s1_def s2_def s4_def)
  have row: "join_both ys n zs = ws @ (m', False) # vs" using l(5) r(3) by simp
  show "\<exists>gs. memheap_rows (release_block heap p s) heap (join_both ys n zs) gs"
    using r(1) insert_part_ok(1)[OF _ q, of m' vs gs] unfolding run row part_rows_done[symmetric] by (cases i) auto
  show "heap_frame heap s (release_block heap p s)"
    using r(1) f4 insert_part_ok(2)[OF _ q, of m' vs gs] heap_frame_trans unfolding run by (cases i) auto
qed

lemma memheap_free_row:
  assumes "memheap_ok s heap (ys @ (n, True) # zs)"
  shows "\<exists>s'. rt_memheap_free (Some (mh_start_addr (memheaps s heap) + slen ys + ITEM_LEN)) s = Some s'
    \<and> memheap_ok s' heap (join_both ys n zs) \<and> mdata s' = mdata s \<and> mh_start_addr (memheaps s' heap) = mh_start_addr (memheaps s heap)"
proof -
  obtain fs where k: "memheap_rows s heap (ys @ (n, True) # zs) fs" and j: "joined (ys @ (n, True) # zs)"
    and l: "sems s (heap_lock heap) = 1" using assms by (auto simp: memheap_ok_def)
  define p where "p = mh_start_addr (memheaps s heap) + slen ys"
  define t where "t = upd_sem (heap_lock heap) (\<lambda>v. v - 1) s"
  have "tag_view s p = used_tag heap True" using rings_okD(3)[OF memheap_rowsD(1)[OF k]] by (simp add: p_def)
  then have tag: "mi_magic (mitems s p) AND RT_MEMHEAP_MASK = RT_MEMHEAP_MAGIC" "mi_pool (mitems s p) = heap"
    using used_tag_bits(3,4) by (simp_all add: item_views)
  have run: "rt_memheap_free (Some (p + ITEM_LEN)) s = memheap_release_lock heap (release_block heap p t)"
    using tag by (simp add: rt_memheap_free_def Let_def memheap_take_lock_free[OF l] t_def)
  have kt: "memheap_rows t heap (ys @ (n, True) # zs) fs" "p = mh_start_addr (memheaps t heap) + slen ys"
    using k by (simp_all add: t_def p_def)
  obtain gs where B: "memheap_rows (release_block heap p t) heap (join_both ys n zs) gs" using release_block_ok(1)[OF kt] by blast
  note U = unlock_ok[OF assms release_block_ok(2)[OF kt, unfolded t_def], folded t_def]
  show ?thesis unfolding p_def[symmetric] run using U(1,3,4) U(2)[OF B joined_both[OF j]] by (simp add: p_def)
qed

subsection \<open>Changing the size of a block in place\<close>

lemma insert_rings:
  assumes R: "rings_ok s heap (ys @ (n, False) # zs) fs" "set fs = free_at (mh_start_addr (memheaps s heap)) (ys @ (n, True) # zs)"
    and p: "p = mh_start_addr (memheaps s heap) + slen ys"
  shows "rings_ok (insert_free heap p s) heap (ys @ (n, False) # zs) (p # fs)" "only_items s (insert_free heap p s)"
    "set (p # fs) = free_at (mh_start_addr (memheaps s heap)) (ys @ (n, False) # zs)"
proof -
  note K = rings_okD[OF R(1)]
  have "p \<notin> set fs" using in_free_at[of ys "(n, True)" zs] K(5) R(2) p by simp
  moreover have fh: "p \<noteq> free_header heap" using K(8) p by auto
  ultimately show "rings_ok (insert_free heap p s) heap (ys @ (n, False) # zs) (p # fs)" by (rule insert_free_rings[OF R(1)])
  show "only_items s (insert_free heap p s)" using fh K(7) by (intro insert_free_views(4)) simp
  show "set (p # fs) = free_at (mh_start_addr (memheaps s heap)) (ys @ (n, False) # zs)" using R(2) p by simp
qed

lemma new_block_row:
  assumes R: "rings_ok s heap (ys @ (n, True) # zs) fs" "set fs = free_at (mh_start_addr (memheaps s heap)) (ys @ (n, True) # zs)"
    and p: "p = mh_start_addr (memheaps s heap) + slen ys" and m: "36 \<le> m" "m + 36 \<le> n" "4 dvd m"
  shows "rings_ok (new_block heap p (p + m) s) heap ((ys @ [(m, True)]) @ (n - m, False) # zs) fs"
    "set fs = free_at (mh_start_addr (memheaps s heap)) ((ys @ [(m, True)]) @ (n - m, True) # zs)"
    "only_items s (new_block heap p (p + m) s)" "p + m = mh_start_addr (memheaps s heap) + slen (ys @ [(m, True)])"
    "tag_view (new_block heap p (p + m) s) = (tag_view s)(p + m := used_tag heap False)"
proof -
  have N: "p + m \<notin> set fs" using inside_row(1)[OF R(1) equalityD1[OF R(2)] p, of "p + m"] m by simp
  show "rings_ok (new_block heap p (p + m) s) heap ((ys @ [(m, True)]) @ (n - m, False) # zs) fs"
    using new_block_rings[OF R(1) p m refl N] by simp
  show "set fs = free_at (mh_start_addr (memheaps s heap)) ((ys @ [(m, True)]) @ (n - m, True) # zs)" using R(2) m by (simp add: add.assoc)
  show "only_items s (new_block heap p (p + m) s)" using m by (intro new_block_views(4)) simp
  show "p + m = mh_start_addr (memheaps s heap) + slen (ys @ [(m, True)])" using p by simp
  show "tag_view (new_block heap p (p + m) s) = (tag_view s)(p + m := used_tag heap False)"
    using new_block_views(3)[of "p + m" p heap s] m by (simp add: used_tag_def)
qed

lemma grow_block_ok:
  assumes k: "memheap_rows s heap (ys @ (n, True) # (k, False) # zs) fs" and p: "p = mh_start_addr (memheaps s heap) + slen ys"
    and m: "unat old = n - ITEM_LEN" "n - ITEM_LEN < unat new" "unat new + 60 \<le> n + k" "4 dvd unat new"
  defines "s' \<equiv> grow_block heap p old new s"
  shows "\<exists>gs. memheap_rows s' heap (ys @ (unat new + ITEM_LEN, True) # (n + k - (unat new + ITEM_LEN), False) # zs) gs" "heap_frame heap s s'"
proof -
  note M = memheap_rowsD[OF k]
  define a where "a = mh_start_addr (memheaps s heap)"
  define w where "w = unat new + ITEM_LEN"
  have b: "36 \<le> n" "36 \<le> k" "36 \<le> w" "w + 36 \<le> n + k" "4 dvd w" using rings_okD(5)[OF M(1)] m by (auto simp: w_def)
  define s1 where "s1 = take_available heap (new - old) s"
  define s2 where "s2 = remove_free (p + n) s1"
  define s3 where "s3 = upd_item p (mi_next_update (\<lambda>_. p + n + k)) (upd_item (p + n + k) (mi_prev_update (\<lambda>_. p)) s2)"
  define s4 where "s4 = new_block heap p (p + w) s3"
  have R1: "rings_ok s1 heap (ys @ (n, True) # (k, False) # zs) fs" using M(1) by (simp add: s1_def)
  have R1': "rings_ok s1 heap ((ys @ [(n, True)]) @ (k, False) # zs) fs" using R1 by simp
  have pn: "p + n \<in> set fs" using M(2) p by (simp add: add.assoc)
  note D = remove_free_other[of s1 s1 "p + n", OF refl free_next_other[OF R1 pn], folded s2_def]
  have nx: "lnext (block_view s p) = p + n" using right_neighbour(1)[OF M(1) p] by (simp add: item_views)
  have "mi_next (mitems s1 (p + n)) = p + n + k" using right_neighbour(1)[OF R1', of "p + n"] p by (simp add: s1_def)
  moreover have "mi_prev (mitems s1 (p + n)) = p" using left_neighbour(2)[OF R1', of "p + n"] p by (simp add: s1_def)
  ultimately have V: "lnext (block_view s2 (p + n)) = p + n + k" "lprev (block_view s2 (p + n)) = p" using D(2) by (simp_all add: item_views)
  have run: "s' = insert_free heap (p + w) s4"
    using V[unfolded add.assoc[of p]] b by (simp add: s'_def grow_block_def Let_def nx s1_def[symmetric] s2_def[symmetric] item_views s3_def s4_def
      w_def add.commute[of "unat new"] add.assoc[of p])
  have t: "block_view s3 = set_next p (p + n + k) (set_prev (p + n + k) p (block_view s1))"
    "free_view s3 = free_view (remove_free (p + n) s1)" "tag_view s3 = tag_view s1" "memheaps s3 = memheaps s1" "heap_frame heap s s3"
    using D by (simp_all add: s3_def set_commute only_items_def heap_frame_def) (simp_all add: s2_def s1_def)
  obtain gs where R3: "rings_ok s3 heap (ys @ (n + k, True) # zs) gs" "set gs = free_at (mh_start_addr (memheaps s3 heap)) (ys @ (n + k, True) # zs)"
    using absorb_right[OF R1 _ _ t(1-4), of True] M(2) p t(4) by (auto simp: s1_def)
  have p3: "p = mh_start_addr (memheaps s3 heap) + slen ys" using p t(5) by (simp add: heap_frame_def)
  note B = new_block_row[OF R3 p3 b(3-5), folded s4_def]
  have m4: "memheaps s4 = memheaps s3" using B(3) by (simp add: only_items_def)
  note I = insert_rings[OF B(1,2)[folded m4] B(4)[folded m4], folded run]
  have "new \<ge> old" using m(1,2) by (simp add: word_le_nat_alt)
  then have d: "unat (new - old) = unat new - (n - ITEM_LEN)" using m(1) by (simp add: unat_sub)
  have "unat (mh_available_size (memheaps s heap) - (new - old)) = free_bytes ((ys @ [(w, True)]) @ (n + k - w, False) # zs)"
    using M(3) m b by (intro available_down[OF _ d]) (auto simp: w_def)
  then show "\<exists>gs. memheap_rows s' heap (ys @ (unat new + ITEM_LEN, True) # (n + k - (unat new + ITEM_LEN), False) # zs) gs"
    using I m4 t(4) unfolding w_def[symmetric] by (intro exI[of _ "(p + w) # gs"]) (simp add: memheap_rows_def only_items_def s1_def)
  show "heap_frame heap s s'" using I(2) B(3) t(5) by (simp add: heap_frame_def only_items_def)
qed

lemma absorb_next_ok:
  assumes R: "rings_ok s heap (ys @ (n, False) # zs) fs" "set fs = free_at (mh_start_addr (memheaps s heap)) (ys @ (n, True) # zs)"
    and a: "unat (mh_available_size (memheaps s heap)) = free_bytes (ys @ zs)" and p: "p = mh_start_addr (memheaps s heap) + slen ys"
  defines "s' \<equiv> absorb_next heap p s"
  shows "\<exists>k vs gs. join_right n zs = (k, False) # vs \<and> rings_ok s' heap (ys @ (k, False) # vs) gs
    \<and> set gs = free_at (mh_start_addr (memheaps s heap)) (ys @ (k, True) # vs) \<and> heap_frame heap s s'
    \<and> unat (mh_available_size (memheaps s' heap)) = free_bytes (ys @ vs)"
proof -
  note E = right_neighbour[OF R(1) p]
  show ?thesis
  proof (cases "zs = [] \<or> snd (hd zs)")
    case True
    then have "s' = s" "join_right n zs = (n, False) # zs" using E by (auto simp: s'_def absorb_next_def join_right_def)
    then show ?thesis using R a by (auto simp: heap_frame_def)
  next
    case False
    then obtain k vs where zs: "zs = (k, False) # vs" by (cases zs) auto
    have R': "rings_ok s heap ((ys @ [(n, False)]) @ (k, False) # vs) fs" using R(1) zs by simp
    have f: "p + n = mh_start_addr (memheaps s heap) + slen (ys @ [(n, False)])" using p by simp
    have k: "36 \<le> k" "36 \<le> n" using rings_okD(5)[OF R'] by simp_all
    have V: "lnext (block_view s p) = p + n" "lnext (block_view s (p + n)) = p + n + k"
      using E(1) right_neighbour(1)[OF R' f] by (simp_all add: item_views)
    define t where "t = upd_mh heap (\<lambda>h. h\<lparr>mh_available_size := mh_available_size h - memitem_size (p + n) s\<rparr>) s"
    define t' where "t' = upd_item p (mi_next_update (\<lambda>_. p + n + k)) (upd_item (p + n + k) (mi_prev_update (\<lambda>_. p)) t)"
    have s': "s' = remove_free (p + n) t'"
      using False E(2) V k by (simp add: s'_def absorb_next_def Let_def item_views t'_def t_def)
    have Rt: "rings_ok t heap (ys @ (n, False) # (k, False) # vs) fs"
      using rings_ok_cong[of t s heap "ys @ (n, False) # (k, False) # vs" fs] R' by (simp add: t_def)
    have ft: "p + n \<in> set fs" using R(2) zs p by (simp add: add.assoc)
    note D = remove_free_other[of t' t "p + n", OF _ free_next_other[OF Rt ft], folded s']
    have T: "block_view s' = set_next p (p + n + k) (set_prev (p + n + k) p (block_view t))"
      "free_view s' = free_view (remove_free (p + n) t)" "tag_view s' = tag_view t" "memheaps s' = memheaps t" "heap_frame heap s s'"
      using D by (simp_all add: t'_def only_items_def set_commute heap_frame_def) (simp_all add: t_def)
    have st: "mh_start_addr (memheaps t heap) = mh_start_addr (memheaps s heap)" by (simp add: t_def)
    obtain gs where G: "rings_ok s' heap (ys @ (n + k, False) # vs) gs"
      "set gs = free_at (mh_start_addr (memheaps s heap)) (ys @ (n + k, True) # vs)"
      using absorb_right[OF Rt _ _ T(1-4), of True] st R(2) p zs by auto
    have "unat (mh_available_size (memheaps s heap) - memitem_size (p + n) s) = free_bytes (ys @ vs)"
      using a zs unat_memitem_size[OF R' f] by (intro available_down) simp_all
    then have "unat (mh_available_size (memheaps s' heap)) = free_bytes (ys @ vs)" using T(4) by (simp add: t_def)
    moreover have "join_right n zs = (n + k, False) # vs" by (simp add: zs join_right_def)
    ultimately show ?thesis using G T(5) by blast
  qed
qed

lemma shrink_block_ok:
  assumes k: "memheap_rows s heap (ys @ (n, True) # zs) fs" and p: "p = mh_start_addr (memheaps s heap) + slen ys"
    and m: "12 \<le> unat new" "unat new + 60 \<le> n" "4 dvd unat new"
  defines "s' \<equiv> shrink_block heap p new s"
  shows "\<exists>gs. memheap_rows s' heap (ys @ (unat new + ITEM_LEN, True) # join_right (n - (unat new + ITEM_LEN)) zs) gs" "heap_frame heap s s'"
proof -
  note M = memheap_rowsD[OF k]
  define w where "w = unat new + ITEM_LEN"
  define N where "N = p + w"
  have w: "36 \<le> w" "w + 36 \<le> n" "4 dvd w" using m by (simp_all add: w_def)
  define s1 where "s1 = new_block heap p N s"
  define s2 where "s2 = absorb_next heap N s1"
  define s3 where "s3 = insert_free heap N s2"
  have run: "s' = give_available heap (memitem_size N s3) s3"
    by (simp add: s'_def shrink_block_def Let_def s3_def s2_def s1_def N_def w_def add.assoc[of p])
  let ?ys = "ys @ [(w, True)]"
  note B = new_block_row[OF M(1,2) p w, folded N_def, folded s1_def]
  have m1: "memheaps s1 = memheaps s" using B(3) by (simp add: only_items_def)
  have "unat (mh_available_size (memheaps s1 heap)) = free_bytes (?ys @ zs)" using M(3) m1 by simp
  then obtain k vs gs where G: "join_right (n - w) zs = (k, False) # vs" "rings_ok s2 heap (?ys @ (k, False) # vs) gs"
    "set gs = free_at (mh_start_addr (memheaps s1 heap)) (?ys @ (k, True) # vs)" "heap_frame heap s1 s2"
    "unat (mh_available_size (memheaps s2 heap)) = free_bytes (?ys @ vs)"
    using absorb_next_ok[OF B(1) B(2)[folded m1] _ B(4)[folded m1]] unfolding s2_def by blast
  have st: "mh_start_addr (memheaps s2 heap) = mh_start_addr (memheaps s1 heap)" using G(4) by (simp add: heap_frame_def)
  note I = insert_rings[OF G(2) G(3)[folded st] B(4)[folded m1, folded st], folded s3_def]
  have N3: "N = mh_start_addr (memheaps s3 heap) + slen ?ys" using B(4) m1 st I(2) by (simp add: only_items_def)
  have "free_bytes (?ys @ (k, False) # vs) < 2 ^ 32"
    using rings_okD(11)[OF G(2)] free_bytes_le[of "?ys @ (k, False) # vs"] by simp
  then have "unat (mh_available_size (memheaps s2 heap) + memitem_size N s3) = free_bytes (?ys @ (k, False) # vs)"
    using G(5) unat_memitem_size[OF I(1) N3] by (intro available_up) simp_all
  then have "memheap_rows s' heap (?ys @ (k, False) # vs) (N # gs)"
    using I by (simp add: run memheap_rows_def only_items_def)
  then show "\<exists>gs. memheap_rows s' heap (ys @ (unat new + ITEM_LEN, True) # join_right (n - (unat new + ITEM_LEN)) zs) gs"
    using G(1) unfolding w_def by auto
  show "heap_frame heap s s'" using B(3) G(4) I(2) by (simp add: run heap_frame_def only_items_def)
qed

lemma memheap_ok_mdata [simp]: "memheap_ok (s\<lparr>mdata := x\<rparr>) heap xs = memheap_ok s heap xs"
proof -
  have "block_view (s\<lparr>mdata := x\<rparr>) = block_view s" "free_view (s\<lparr>mdata := x\<rparr>) = free_view s" "tag_view (s\<lparr>mdata := x\<rparr>) = tag_view s"
    by (simp_all add: block_view_def free_view_def tag_view_def)
  then show ?thesis by (simp add: memheap_ok_def memheap_rows_def rings_ok_def)
qed

lemma mcut_simps [simp]: "m + ITEM_LEN \<le> n \<Longrightarrow> slen (mcut m n) = n" "mcut m n \<noteq> []"
  by (auto simp: mcut_def)

lemma memheap_realloc_moves:
  assumes ok: "memheap_ok s heap (ys @ (n, True) # zs)" and x: "ys @ (n, True) # zs = us @ (k, False) # vs" "m + ITEM_LEN \<le> k"
    and s1: "memheap_ok s1 heap (us @ mcut m k @ vs)" "mh_start_addr (memheaps s1 heap) = mh_start_addr (memheaps s heap)" "mdata s1 = mdata s"
    and c: "c \<le> m" "c \<le> n - ITEM_LEN"
  defines "a \<equiv> mh_start_addr (memheaps s heap) + slen ys + ITEM_LEN" and "b \<equiv> mh_start_addr (memheaps s heap) + slen us + ITEM_LEN"
  shows "\<exists>s' ys' zs' us' k' vs'. rt_memheap_free (Some a) (s1\<lparr>mdata := rt_memcpy b a c (mdata s1)\<rparr>) = Some s'
    \<and> us @ mcut m k @ vs = ys' @ (n, True) # zs' \<and> slen ys' = slen ys \<and> memheap_ok s' heap (join_both ys' n zs')
    \<and> join_both ys' n zs' = us' @ (k', True) # vs' \<and> slen us' = slen us \<and> m + ITEM_LEN \<le> k'
    \<and> mh_start_addr (memheaps s' heap) = mh_start_addr (memheaps s heap) \<and> mdata s' = mem_copy b a c (mdata s)"
proof -
  define s2 where "s2 = s1\<lparr>mdata := rt_memcpy b a c (mdata s1)\<rparr>"
  have n: "36 \<le> n" using ok rings_okD(5)[OF memheap_rowsD(1)] by (fastforce simp: memheap_ok_def)
  obtain ys' zs' where y: "us @ mcut m k @ vs = ys' @ (n, True) # zs'" "slen ys' = slen ys"
    using used_stays[OF x(1), of "mcut m k"] x(2) by auto
  have "memheap_ok s2 heap (ys' @ (n, True) # zs')" using s1(1) y(1) by (simp add: s2_def)
  then obtain s' where s': "rt_memheap_free (Some a) s2 = Some s'" "memheap_ok s' heap (join_both ys' n zs')" "mdata s' = mdata s2"
    "mh_start_addr (memheaps s' heap) = mh_start_addr (memheaps s2 heap)"
    using memheap_free_row[of s2 heap ys' n zs'] y(2) s1(2) by (auto simp: s2_def a_def)
  obtain k1 r where k1: "mcut m k = (k1, True) # r" "m + ITEM_LEN \<le> k1"
    using x(2) by (cases "m + 60 \<le> k") (auto simp: mcut_def)
  have apart: "slen ys + n \<le> slen us \<or> slen us + k \<le> slen ys" using segs_apart[OF x(1)] by simp
  then have "slen us \<noteq> slen ys'" using y(2) n x(2) by auto
  moreover have "ys' @ (n, True) # zs' = us @ (k1, True) # r @ vs" using y(1) k1(1) by simp
  ultimately obtain us' vs' where u: "join_both ys' n zs' = us' @ (k1, True) # vs'" "slen us' = slen us"
    using used_survives_join by blast
  have "rt_memcpy b a c (mdata s) = mem_copy b a c (mdata s)"
    using apart n x(2) c by (intro rt_memcpy_copy) (auto simp: a_def b_def)
  then have "mdata s' = mem_copy b a c (mdata s)" using s'(3) s1(3) by (simp add: s2_def)
  moreover have "mh_start_addr (memheaps s' heap) = mh_start_addr (memheaps s heap)" using s'(4) s1(2) by (simp add: s2_def)
  ultimately show ?thesis
    by (intro exI[of _ s'] exI[of _ ys'] exI[of _ zs'] exI[of _ us'] exI[of _ k1] exI[of _ vs'] conjI s'(1)[unfolded s2_def] s'(2) y u k1(2))
qed

text \<open>How \<open>rt_memheap_realloc\<close> goes on from the sizes of the block.\<close>

lemma payload_align: "unat sz \<le> 2 ^ 32 - 4 \<Longrightarrow> payload (memheap_align sz) = payload sz"
  using unat_memheap_align[of sz] by (auto simp: payload_def[of "memheap_align sz"])

lemma memheap_realloc_eq:
  assumes ok: "memheap_ok s heap (ys @ (n, True) # zs)" and sz: "newsize \<noteq> 0" "unat newsize \<le> 2 ^ 32 - 16"
  defines "a \<equiv> mh_start_addr (memheaps s heap) + slen ys + ITEM_LEN" and "p \<equiv> mh_start_addr (memheaps s heap) + slen ys"
    and "w \<equiv> memheap_align newsize" and "m \<equiv> payload newsize" and "t \<equiv> upd_sem (heap_lock heap) (\<lambda>v. v - 1) s"
  shows "rt_memheap_realloc heap (Some a) newsize s =
    (if n < m + ITEM_LEN then
       if zs \<noteq> [] \<and> \<not> snd (hd zs) \<and> m + 60 < n + fst (hd zs)
       then do { s' \<leftarrow> memheap_release_lock heap (grow_block heap p (memitem_size p s) w t); Some (Some a, s') }
       else do { (r, s) \<leftarrow> rt_memheap_alloc heap w s;
                 case r of
                   None \<Rightarrow> Some (None, s)
                 | Some b \<Rightarrow> do { s \<leftarrow> rt_memheap_free (Some a) (s\<lparr>mdata := rt_memcpy b a (n - ITEM_LEN) (mdata s)\<rparr>); Some (Some b, s) } }
     else if n \<le> m + 60 then Some (Some a, s)
     else do { s' \<leftarrow> memheap_release_lock heap (shrink_block heap p w t); Some (Some a, s') })"
proof -
  obtain fs where k: "memheap_rows s heap (ys @ (n, True) # zs) fs" and l: "sems s (heap_lock heap) = 1"
    using ok by (auto simp: memheap_ok_def)
  note M = memheap_rowsD[OF k] and K = rings_okD[OF memheap_rowsD(1)[OF k]]
  have w: "unat w = m" "12 \<le> m" "4 dvd m" "m \<le> 2 ^ 32 - 16"
    using unat_memheap_align[of newsize] sz(2) by (auto simp: w_def m_def payload_def)
  have old: "unat (memitem_size p s) = n - ITEM_LEN" and n: "36 \<le> n" using unat_memitem_size[OF M(1) p_def[THEN meta_eq_to_obj_eq]] K(5) by simp_all
  have w12: "unat (w + RT_MEMHEAP_MINIALLOC) = m + 12" using w by (simp add: unat_add_small)
  note E = right_neighbour[OF M(1) p_def[THEN meta_eq_to_obj_eq]]
  have pt: "memitem_size q t = memitem_size q s" "memitem_is_used q t = memitem_is_used q s" "mitems t = mitems s" for q
    by (simp_all add: t_def memitem_is_used_def)
  have big: "w > memitem_size p s \<longleftrightarrow> n < m + ITEM_LEN" using old w n by (auto simp: word_less_nat_alt)
  have room: "\<not> memitem_is_used (p + n) s \<and> memitem_size (p + n) s + memitem_size p s > w + RT_MEMHEAP_MINIALLOC
    \<longleftrightarrow> zs \<noteq> [] \<and> \<not> snd (hd zs) \<and> m + 60 < n + fst (hd zs)"
  proof (cases "zs = [] \<or> snd (hd zs)")
    case False
    then obtain k vs where zs: "zs = (k, False) # vs" by (cases zs) auto
    have R': "rings_ok s heap ((ys @ [(n, True)]) @ (k, False) # vs) fs" using M(1) zs by simp
    have f: "unat (memitem_size (p + n) s) = k - ITEM_LEN" using unat_memitem_size[OF R', of "p + n"] by (simp add: p_def)
    have "36 \<le> k" "n + k < 2 ^ 32" using rings_okD(5,11)[OF R'] by simp_all
    then have "unat (memitem_size (p + n) s + memitem_size p s) = k + n - 48" using f old n by (simp add: unat_add_small)
    then show ?thesis using E(2) zs w12 \<open>36 \<le> k\<close> n by (auto simp: word_less_nat_alt)
  qed (use E in auto)
  have small: "w + RT_MEMHEAP_SIZE + RT_MEMHEAP_MINIALLOC \<ge> memitem_size p s \<longleftrightarrow> n \<le> m + 60" if "\<not> n < m + ITEM_LEN"
  proof -
    have "unat (w + RT_MEMHEAP_SIZE + RT_MEMHEAP_MINIALLOC) = m + 36" using that w K(10,11) by (simp add: unat_add_small)
    then show ?thesis using old n by (auto simp: word_le_nat_alt)
  qed
  have cp: "unat (if memitem_size p s < w then memitem_size p s else w) = n - ITEM_LEN" if "n < m + ITEM_LEN"
    using big that old by simp
  have np: "0 < n" using n by simp
  note L = memheap_take_lock_free[OF l, folded t_def] and U = unlock_same[OF ok, folded t_def]
  have ap: "a - ITEM_LEN = p" by (simp add: a_def p_def)
  note R = rt_memheap_realloc_def[of heap "Some a" newsize s, unfolded Let_def option.case ap, folded w_def]
  show ?thesis
  proof (cases "n < m + ITEM_LEN")
    case True
    show ?thesis using sz(1) True unfolding R cp[OF True] by (simp add: big L pt E(1) np room U)
  next
    case False
    then show ?thesis using sz(1) small unfolding R by (simp add: big L)
  qed
qed

lemma joined_resized:
  assumes "joined (ys @ (n, True) # zs)"
  shows "zs = (k, False) # vs \<Longrightarrow> joined (ys @ (i, True) # (j, False) # vs)" "joined (ys @ (i, True) # join_right j zs)"
proof -
  show "zs = (k, False) # vs \<Longrightarrow> joined (ys @ (i, True) # (j, False) # vs)" using assms by (auto simp: joined_append joined_Cons)
  have "joined (join_both (ys @ [(i, True)]) j zs)" using assms by (intro joined_both) (auto simp: joined_append joined_Cons)
  then show "joined (ys @ (i, True) # join_right j zs)" by (simp add: join_both_def)
qed

text \<open>Moving the block \<open>(n, True)\<close> behind \<open>ys\<close> to a free block: from the row \<open>xs\<close> to the row \<open>xs'\<close>, with the new data at
  \<open>b\<close>. The free block \<open>k\<close> is cut for \<open>m\<close> bytes, and then the old one is freed.\<close>

definition block_moved :: "nat \<Rightarrow> nat \<Rightarrow> seg list \<Rightarrow> nat \<Rightarrow> nat \<Rightarrow> seg list \<Rightarrow> nat \<Rightarrow> bool" where
  "block_moved base y xs n m xs' b \<longleftrightarrow> (\<exists>us k vs ys' zs' us' k' vs'. xs = us @ (k, False) # vs \<and> m + ITEM_LEN \<le> k
     \<and> us @ mcut m k @ vs = ys' @ (n, True) # zs' \<and> slen ys' = y \<and> xs' = join_both ys' n zs'
     \<and> xs' = us' @ (k', True) # vs' \<and> slen us' = slen us \<and> m + ITEM_LEN \<le> k' \<and> b = base + slen us + ITEM_LEN)"

lemma memheap_realloc_moving:
  assumes ok: "memheap_ok s heap (ys @ (n, True) # zs)" and w: "unat w \<le> 2 ^ 32 - 4" "payload w = m" and less: "n < m + ITEM_LEN"
    and a: "a = mh_start_addr (memheaps s heap) + slen ys + ITEM_LEN"
  defines "f \<equiv> do { (r, s) \<leftarrow> rt_memheap_alloc heap w s;
      case r of
        None \<Rightarrow> Some (None, s)
      | Some b \<Rightarrow> do { s \<leftarrow> rt_memheap_free (Some a) (s\<lparr>mdata := rt_memcpy b a (n - ITEM_LEN) (mdata s)\<rparr>); Some (Some b, s) } }"
  shows "(\<exists>b s' xs'. f = Some (Some b, s') \<and> block_moved (mh_start_addr (memheaps s heap)) (slen ys) (ys @ (n, True) # zs) n m xs' b
      \<and> memheap_ok s' heap xs' \<and> mh_start_addr (memheaps s' heap) = mh_start_addr (memheaps s heap)
      \<and> mdata s' = mem_copy b a (n - ITEM_LEN) (mdata s))
    \<or> f = Some (None, s) \<and> no_room m (ys @ (n, True) # zs)"
proof -
  obtain r s1 where al: "rt_memheap_alloc heap w s = Some (r, s1)" and c: "case r of
      None \<Rightarrow> s1 = s \<and> (free_bytes (ys @ (n, True) # zs) \<le> m \<or> (\<forall>n'. (n', False) \<in> set (ys @ (n, True) # zs) \<longrightarrow> n' < m + ITEM_LEN))
    | Some b \<Rightarrow> \<exists>us k vs. ys @ (n, True) # zs = us @ (k, False) # vs \<and> m + ITEM_LEN \<le> k \<and> m < free_bytes (ys @ (n, True) # zs)
        \<and> b = mh_start_addr (memheaps s heap) + slen us + ITEM_LEN \<and> memheap_ok s1 heap (us @ mcut m k @ vs)
        \<and> mdata s1 = mdata s \<and> mh_start_addr (memheaps s1 heap) = mh_start_addr (memheaps s heap)"
    using memheap_alloc_row[OF ok w(1)] unfolding w(2) by blast
  show ?thesis
  proof (cases r)
    case None
    then have "f = Some (None, s)" "no_room m (ys @ (n, True) # zs)" using al c by (simp add: f_def, auto simp: no_room_def)
    then show ?thesis by blast
  next
    case (Some b)
    then obtain us k vs where u: "ys @ (n, True) # zs = us @ (k, False) # vs" "m + ITEM_LEN \<le> k"
      "b = mh_start_addr (memheaps s heap) + slen us + ITEM_LEN" "memheap_ok s1 heap (us @ mcut m k @ vs)"
      "mh_start_addr (memheaps s1 heap) = mh_start_addr (memheaps s heap)" "mdata s1 = mdata s" using c by auto
    have nm: "n - ITEM_LEN \<le> m" using less by simp
    obtain s' ys' zs' us' k' vs' where s': "rt_memheap_free (Some a) (s1\<lparr>mdata := rt_memcpy b a (n - ITEM_LEN) (mdata s1)\<rparr>) = Some s'"
      "us @ mcut m k @ vs = ys' @ (n, True) # zs'" "slen ys' = slen ys" "memheap_ok s' heap (join_both ys' n zs')"
      "join_both ys' n zs' = us' @ (k', True) # vs'" "slen us' = slen us" "m + ITEM_LEN \<le> k'"
      "mh_start_addr (memheaps s' heap) = mh_start_addr (memheaps s heap)" "mdata s' = mem_copy b a (n - ITEM_LEN) (mdata s)"
      using memheap_realloc_moves[OF ok u(1,2,4,5,6) nm le_refl, folded u(3) a] by blast
    have "block_moved (mh_start_addr (memheaps s heap)) (slen ys) (ys @ (n, True) # zs) n m (join_both ys' n zs') b"
      unfolding block_moved_def
      by (rule exI[of _ us], rule exI[of _ k], rule exI[of _ vs], rule exI[of _ ys'], rule exI[of _ zs'], rule exI[of _ us'],
          rule exI[of _ k'], rule exI[of _ vs'], intro conjI u(1-3) s'(2,3,5-7) refl)
    moreover have "f = Some (Some b, s')" using al Some s'(1) by (simp add: f_def)
    ultimately show ?thesis using s'(4,8,9) by blast
  qed
qed

lemma memheap_realloc_row:
  assumes ok: "memheap_ok s heap (ys @ (n, True) # zs)" and sz: "newsize \<noteq> 0" "unat newsize \<le> 2 ^ 32 - 16"
  defines "base \<equiv> mh_start_addr (memheaps s heap)" and "a \<equiv> mh_start_addr (memheaps s heap) + slen ys + ITEM_LEN" and "m \<equiv> payload newsize"
  shows "if n < m + ITEM_LEN then
      if zs \<noteq> [] \<and> \<not> snd (hd zs) \<and> m + 60 < n + fst (hd zs) then
        (\<exists>s'. rt_memheap_realloc heap (Some a) newsize s = Some (Some a, s') \<and> mdata s' = mdata s \<and> mh_start_addr (memheaps s' heap) = base
           \<and> memheap_ok s' heap (ys @ (m + ITEM_LEN, True) # (n + fst (hd zs) - (m + ITEM_LEN), False) # tl zs))
      else
        (\<exists>b s' xs'. rt_memheap_realloc heap (Some a) newsize s = Some (Some b, s')
           \<and> block_moved base (slen ys) (ys @ (n, True) # zs) n m xs' b
           \<and> memheap_ok s' heap xs' \<and> mh_start_addr (memheaps s' heap) = base \<and> mdata s' = mem_copy b a (n - ITEM_LEN) (mdata s))
        \<or> rt_memheap_realloc heap (Some a) newsize s = Some (None, s) \<and> no_room m (ys @ (n, True) # zs)
    else if n \<le> m + 60 then rt_memheap_realloc heap (Some a) newsize s = Some (Some a, s)
    else
      (\<exists>s'. rt_memheap_realloc heap (Some a) newsize s = Some (Some a, s') \<and> mdata s' = mdata s \<and> mh_start_addr (memheaps s' heap) = base
         \<and> memheap_ok s' heap (ys @ (m + ITEM_LEN, True) # join_right (n - (m + ITEM_LEN)) zs))"
proof -
  obtain fs where k: "memheap_rows s heap (ys @ (n, True) # zs) fs" and j: "joined (ys @ (n, True) # zs)"
    using ok by (auto simp: memheap_ok_def)
  define p where "p = mh_start_addr (memheaps s heap) + slen ys"
  define w where "w = memheap_align newsize"
  define t where "t = upd_sem (heap_lock heap) (\<lambda>v. v - 1) s"
  have w: "unat w = m" "12 \<le> m" "4 dvd m" "unat w \<le> 2 ^ 32 - 4" "payload w = m"
    using unat_memheap_align[of newsize] payload_align[of newsize] sz(2) by (auto simp: w_def m_def payload_def)
  note R = memheap_realloc_eq[OF ok sz, folded a_def p_def w_def m_def t_def]
  have pt: "p = mh_start_addr (memheaps t heap) + slen ys" by (simp add: t_def p_def)
  have kt: "memheap_rows t heap (ys @ (n, True) # zs) fs" using k by (simp add: t_def)
  have aeq: "a = mh_start_addr (memheaps s heap) + slen ys + ITEM_LEN" by (simp add: a_def)
  consider (grow) k' vs where "n < m + ITEM_LEN" "zs = (k', False) # vs" "m + 60 < n + k'"
    | (move) "n < m + ITEM_LEN" "\<not> (zs \<noteq> [] \<and> \<not> snd (hd zs) \<and> m + 60 < n + fst (hd zs))"
    | (keep) "\<not> n < m + ITEM_LEN" "n \<le> m + 60" | (shrink) "\<not> n < m + ITEM_LEN" "\<not> n \<le> m + 60"
    by (cases zs) fastforce+
  then show ?thesis
  proof cases
    case (grow k' vs)
    have g: "unat (memitem_size p s) = n - ITEM_LEN" "n - ITEM_LEN < unat w" "unat w + 60 \<le> n + k'" "4 dvd unat w"
      using w grow unat_memitem_size[OF memheap_rowsD(1)[OF k] p_def] rings_okD(5)[OF memheap_rowsD(1)[OF k]] by auto
    obtain gs where G: "memheap_rows (grow_block heap p (memitem_size p s) w t) heap (ys @ (m + ITEM_LEN, True) # (n + k' - (m + ITEM_LEN), False) # vs) gs"
      "heap_frame heap t (grow_block heap p (memitem_size p s) w t)"
      using grow_block_ok[OF kt[unfolded grow(2)] pt g] w(1) by auto
    note U = unlock_ok[OF ok G(2)[unfolded t_def], folded t_def]
    show ?thesis using R grow U(1,3,4) U(2)[OF G(1) joined_resized(1)[OF j grow(2)]] by (simp add: base_def)
  next
    case move
    have g: "?thesis = ((\<exists>b s' xs'. rt_memheap_realloc heap (Some a) newsize s = Some (Some b, s')
           \<and> block_moved base (slen ys) (ys @ (n, True) # zs) n m xs' b
           \<and> memheap_ok s' heap xs' \<and> mh_start_addr (memheaps s' heap) = base \<and> mdata s' = mem_copy b a (n - ITEM_LEN) (mdata s))
        \<or> rt_memheap_realloc heap (Some a) newsize s = Some (None, s) \<and> no_room m (ys @ (n, True) # zs))"
      unfolding if_P[OF move(1)] if_not_P[OF move(2)] by (rule refl)
    show ?thesis unfolding g R if_P[OF move(1)] if_not_P[OF move(2)] base_def
      by (rule memheap_realloc_moving[OF ok w(4,5) move(1) aeq])
  next
    case keep
    then show ?thesis using R by simp
  next
    case shrink
    have g: "12 \<le> unat w" "unat w + 60 \<le> n" "4 dvd unat w" using w shrink by auto
    obtain gs where G: "memheap_rows (shrink_block heap p w t) heap (ys @ (m + ITEM_LEN, True) # join_right (n - (m + ITEM_LEN)) zs) gs"
      "heap_frame heap t (shrink_block heap p w t)"
      using shrink_block_ok[OF kt pt g] w(1) by auto
    note U = unlock_ok[OF ok G(2)[unfolded t_def], folded t_def]
    show ?thesis using R shrink U(1,3,4) U(2)[OF G(1) joined_resized(2)[OF j]] by (simp add: base_def)
  qed
qed

subsection \<open>Initialisation\<close>

lemma memheap_init_row:
  assumes nm: "rt_strncpy name RT_NAME_MAX = Some field" and st: "4 dvd start" "0 < start"
    and P: "60 \<le> unat sz div 4 * 4" "start + unat sz div 4 * 4 \<le> 2 ^ 32"
    and fh: "free_header heap < start \<or> start + unat sz div 4 * 4 \<le> free_header heap"
  shows "\<exists>s'. rt_memheap_init heap name start sz s = Some (RT_EOK, s') \<and> mh_start_addr (memheaps s' heap) = start
    \<and> memheap_ok s' heap [(unat sz div 4 * 4 - ITEM_LEN, False)]"
proof -
  define L where "L = unat sz div 4 * 4"
  define A where "A = RT_ALIGN_DOWN sz 4 - 2 * RT_MEMHEAP_SIZE"
  define tail where "tail = start + unat A + ITEM_LEN"
  define hd where "hd = free_header heap"
  have L: "unat (RT_ALIGN_DOWN sz 4) = L" using and_not_3[of sz] by (simp add: RT_ALIGN_DOWN_def L_def)
  have A: "unat A = L - 48" using L P(1) unfolding A_def L_def[symmetric] by (simp add: unat_sub word_le_nat_alt)
  have tl: "tail = start + (L - ITEM_LEN)" using A P(1) by (simp add: tail_def L_def)
  have ne: "start \<noteq> tail" "start \<noteq> hd" "tail \<noteq> hd" "hd < start \<or> tail < hd" using tl P fh by (auto simp: L_def hd_def)
  define I where "I = (\<lambda>f :: nat \<Rightarrow> rt_memheap_item. f(hd := \<lparr>mi_magic = RT_MEMHEAP_MAGIC, mi_pool = heap, mi_next = 0, mi_prev = 0, mi_next_free = start, mi_prev_free = start\<rparr>,
    start := \<lparr>mi_magic = RT_MEMHEAP_MAGIC, mi_pool = heap, mi_next = tail, mi_prev = tail, mi_next_free = hd, mi_prev_free = hd\<rparr>,
    tail := \<lparr>mi_magic = RT_MEMHEAP_MAGIC OR RT_MEMHEAP_USED, mi_pool = heap, mi_next = start, mi_prev = start, mi_next_free = 0, mi_prev_free = 0\<rparr>))"
  have pool: "memheaps (memheap_init_pool heap start sz s0) heap = \<lparr>mh_start_addr = start, mh_pool_size = RT_ALIGN_DOWN sz 4, mh_available_size = A,
    mh_max_used_size = RT_ALIGN_DOWN sz 4 - A, mh_block_list = start, mh_free_list = hd, \<dots> = rt_memheap.more (memheaps s0 heap)\<rparr>"
    "mitems (memheap_init_pool heap start sz s0) = I (mitems s0)" for s0 :: "'a mh_state_scheme"
  proof -
    have f: "mitems (upd_mh h g t) = mitems t" "mitems (upd_item b e t) = (mitems t)(b := e (mitems t b))" for h g b e and t :: "'a mh_state_scheme"
      by (simp_all add: upd_mh_def upd_item_def)
    have T: "start + unat (RT_ALIGN_DOWN sz 4 - 48) + 24 = tail" by (simp add: tail_def A_def)
    have n: "hd \<noteq> start" "tail \<noteq> start" "hd \<noteq> tail" using ne by auto
    show "memheaps (memheap_init_pool heap start sz s0) heap = \<lparr>mh_start_addr = start, mh_pool_size = RT_ALIGN_DOWN sz 4, mh_available_size = A,
      mh_max_used_size = RT_ALIGN_DOWN sz 4 - A, mh_block_list = start, mh_free_list = hd, \<dots> = rt_memheap.more (memheaps s0 heap)\<rparr>"
      by (simp add: memheap_init_pool_def Let_def insert_free_def A_def hd_def)
    show "mitems (memheap_init_pool heap start sz s0) = I (mitems s0)"
      using ne(1,2,3) n
      by (simp add: memheap_init_pool_def Let_def insert_free_def f T hd_def[symmetric] I_def
        fun_upd_twist[OF n(1), of "mitems s0"])
  qed
  obtain s' where s': "rt_memheap_init heap name start sz s = Some (RT_EOK, s')"
    "mh_start_addr (memheaps s' heap) = start" "mh_pool_size (memheaps s' heap) = RT_ALIGN_DOWN sz 4"
    "mh_available_size (memheaps s' heap) = A" "mh_free_list (memheaps s' heap) = hd"
    "sems s' (heap_lock heap) = 1" "tlists s' (Suspend (heap_lock heap)) = []" "\<exists>f. mitems s' = I f"
    using nm
    by (auto simp add: rt_memheap_init_def rt_object_init_def rt_sem_init_def Let_def pool rt_ipc_object_init_def upd_sem_def upd_obj_def upd_tlists_def)
  have V: "ring (block_view s') tail [start]" "ring (free_view s') hd [start]" "tag_view s' start = used_tag heap False" "tag_view s' tail = used_tag heap True"
    using s'(8) ne by (auto simp: I_def block_view_def free_view_def tag_view_def used_tag_def ring_def linked_def)
  have "4 dvd L" by (simp add: L_def)
  then have "unat A = free_bytes [(L - ITEM_LEN, False)]" "4 dvd L - ITEM_LEN" using A by (simp_all add: dvd_diff_nat)
  then show ?thesis using s' V ne tl P st L A unfolding L_def[symmetric]
    by (intro exI[of _ s']) (auto simp: memheap_ok_def memheap_rows_def rings_ok_def hd_def Let_def intro!: exI[of _ "[start]"])
qed

lemma pool_object_list [simp]: "object_list (memheap_init_pool heap start sz s) = object_list s"
proof -
  have f: "object_list (upd_mh h g t) = object_list t" "object_list (upd_item b e t) = object_list t" for h g b e and t :: "'a mh_state_scheme"
    by (simp_all add: upd_mh_def upd_item_def)
  show ?thesis by (simp add: memheap_init_pool_def Let_def insert_free_def f)
qed

lemma object_init_listed:
  assumes "rt_object_init q c name s = Some s'"
  shows "object_list s' = (object_list s)(c := q # object_list s c)"
  using assms by (auto simp: rt_object_init_def bind_eq_Some_conv Let_def list_push_front_def upd_obj_def)

lemma memheap_init_listed:
  assumes "rt_memheap_init heap name start sz s = Some (r, s')"
  shows "object_list s' Class_MemHeap = At heap # object_list s Class_MemHeap"
proof -
  obtain s0 s1 where s0: "rt_object_init (At heap) Class_MemHeap name s = Some s0"
    and s1: "rt_object_init (At (heap_lock heap)) Class_Semaphore name (memheap_init_pool heap start sz s0) = Some s1"
    and s': "object_list s' = object_list s1"
    using assms by (auto simp: rt_memheap_init_def rt_sem_init_def bind_eq_Some_conv Let_def rt_ipc_object_init_def
      upd_obj_def upd_tlists_def upd_sem_def)
  show ?thesis using object_init_listed[OF s0] object_init_listed[OF s1] s' by simp
qed

subsection \<open>Properties\<close>

text \<open>C22: \<^verbatim>\<open>rt_memheap_alloc\<close> of at most 2 ^ 32 - 4 bytes returns. It fails only when the free bytes of the
  heap are not more than the rounded size or no free block has room for it, and then nothing
  changes; otherwise it takes a free block of the row, splits it when the rest can hold a block,
  returns the address behind its item and keeps both rings, the tags and the counter of free bytes
  in order.\<close>

theorem rt_memheap_alloc_correct:
  assumes "memheap_ok s heap xs" "unat sz \<le> 2 ^ 32 - 4"
  shows "\<exists>r s'. rt_memheap_alloc heap sz s = Some (r, s') \<and>
    (case r of
       None \<Rightarrow> s' = s \<and> (free_bytes xs \<le> payload sz \<or> (\<forall>n. (n, False) \<in> set xs \<longrightarrow> n < payload sz + ITEM_LEN))
     | Some b \<Rightarrow> \<exists>ys n zs. xs = ys @ (n, False) # zs \<and> payload sz + ITEM_LEN \<le> n \<and> payload sz < free_bytes xs
         \<and> b = mh_start_addr (memheaps s heap) + slen ys + ITEM_LEN \<and> memheap_ok s' heap (ys @ mcut (payload sz) n @ zs)
         \<and> mdata s' = mdata s \<and> mh_start_addr (memheaps s' heap) = mh_start_addr (memheaps s heap))"
  by (rule memheap_alloc_row[OF assms])

text \<open>Freeing a block that is in use with \<^verbatim>\<open>rt_memheap_free\<close> returns, joins the block with the free
  blocks on both sides, so that no two free blocks are neighbours, and leaves all other blocks, the
  contents of memory and the order of both rings as they were.\<close>

theorem rt_memheap_free_correct:
  assumes "memheap_ok s heap (ys @ (n, True) # zs)"
  shows "\<exists>s'. rt_memheap_free (Some (mh_start_addr (memheaps s heap) + slen ys + ITEM_LEN)) s = Some s'
    \<and> memheap_ok s' heap (join_both ys n zs) \<and> mdata s' = mdata s \<and> mh_start_addr (memheaps s' heap) = mh_start_addr (memheaps s heap)"
  by (rule memheap_free_row[OF assms])

text \<open>Freeing what was just allocated brings back the row of blocks.\<close>

theorem memheap_alloc_free_roundtrip:
  assumes "memheap_ok s heap xs" "unat sz \<le> 2 ^ 32 - 4" "rt_memheap_alloc heap sz s = Some (Some b, s1)"
  shows "\<exists>s2. rt_memheap_free (Some b) s1 = Some s2 \<and> memheap_ok s2 heap xs \<and> mdata s2 = mdata s"
proof -
  obtain ys n zs where x: "xs = ys @ (n, False) # zs" "payload sz + ITEM_LEN \<le> n" "b = mh_start_addr (memheaps s heap) + slen ys + ITEM_LEN"
    "memheap_ok s1 heap (ys @ mcut (payload sz) n @ zs)" "mdata s1 = mdata s" "mh_start_addr (memheaps s1 heap) = mh_start_addr (memheaps s heap)"
    using memheap_alloc_row[OF assms(1,2)] assms(3) by auto
  obtain k ws where k: "mcut (payload sz) n = (k, True) # ws" by (cases "payload sz + 60 \<le> n") (auto simp: mcut_def)
  have "join_both ys k (ws @ zs) = xs"
  proof -
    have ys: "ys \<noteq> [] \<Longrightarrow> snd (last ys)" and zs: "zs \<noteq> [] \<Longrightarrow> snd (hd zs)"
      using assms(1) x(1) by (auto simp: memheap_ok_def joined_append joined_Cons)
    have "join_right k (ws @ zs) = (n, False) # zs"
      using k x(2) zs by (auto simp: mcut_def join_right_def split: if_splits)
    then show ?thesis using ys x(1) by (auto simp: join_both_def Let_def)
  qed
  then show ?thesis using memheap_free_row[of s1 heap ys k "ws @ zs"] x k by auto
qed

text \<open>C23: \<^verbatim>\<open>rt_memheap_realloc\<close> of a block in use, to a size that is not 0 and at most 2 ^ 32 - 16, rounded to \<open>m\<close>.
  When the block is too small and the block behind it is free and large enough, it grows in place and the
  rest of the two is one free block. When the block is too small otherwise, its data moves to a free block large
  enough, whose rest is split off: the old bytes are copied, no other byte changes, and the old block is freed and joined with its free
  neighbours; the call returns null only when there is no room for \<open>m\<close> bytes, and then
  nothing changes. A block with at most 36 bytes to spare stays as it is; a larger one is cut in place,
  and what is cut off is free and joined with a free block behind it. In every case all blocks are
  accounted for: the whole row is given, and both rings, the tags and the counter of free bytes agree with it.\<close>

theorem rt_memheap_realloc_correct:
  assumes "memheap_ok s heap (ys @ (n, True) # zs)" and "newsize \<noteq> 0" "unat newsize \<le> 2 ^ 32 - 16"
  defines "base \<equiv> mh_start_addr (memheaps s heap)" and "a \<equiv> mh_start_addr (memheaps s heap) + slen ys + ITEM_LEN" and "m \<equiv> payload newsize"
  shows "if n < m + ITEM_LEN then
      if zs \<noteq> [] \<and> \<not> snd (hd zs) \<and> m + 60 < n + fst (hd zs) then
        (\<exists>s'. rt_memheap_realloc heap (Some a) newsize s = Some (Some a, s') \<and> mdata s' = mdata s \<and> mh_start_addr (memheaps s' heap) = base
           \<and> memheap_ok s' heap (ys @ (m + ITEM_LEN, True) # (n + fst (hd zs) - (m + ITEM_LEN), False) # tl zs))
      else
        (\<exists>b s' xs'. rt_memheap_realloc heap (Some a) newsize s = Some (Some b, s')
           \<and> block_moved base (slen ys) (ys @ (n, True) # zs) n m xs' b
           \<and> memheap_ok s' heap xs' \<and> mh_start_addr (memheaps s' heap) = base \<and> mdata s' = mem_copy b a (n - ITEM_LEN) (mdata s))
        \<or> rt_memheap_realloc heap (Some a) newsize s = Some (None, s) \<and> no_room m (ys @ (n, True) # zs)
    else if n \<le> m + 60 then rt_memheap_realloc heap (Some a) newsize s = Some (Some a, s)
    else
      (\<exists>s'. rt_memheap_realloc heap (Some a) newsize s = Some (Some a, s') \<and> mdata s' = mdata s \<and> mh_start_addr (memheaps s' heap) = base
         \<and> memheap_ok s' heap (ys @ (m + ITEM_LEN, True) # join_right (n - (m + ITEM_LEN)) zs))"
  unfolding base_def a_def m_def by (rule memheap_realloc_row[OF assms(1-3)])

theorem rt_memheap_init_correct:
  assumes "rt_strncpy name RT_NAME_MAX = Some field" "4 dvd start" "0 < start" "60 \<le> unat sz div 4 * 4" "start + unat sz div 4 * 4 \<le> 2 ^ 32"
    and "free_header heap < start \<or> start + unat sz div 4 * 4 \<le> free_header heap"
  shows "\<exists>s'. rt_memheap_init heap name start sz s = Some (RT_EOK, s') \<and> mh_start_addr (memheaps s' heap) = start
    \<and> memheap_ok s' heap [(unat sz div 4 * 4 - ITEM_LEN, False)]
    \<and> object_list s' Class_MemHeap = At heap # object_list s Class_MemHeap"
  using memheap_init_row[OF assms] memheap_init_listed by blast

text \<open>Several heaps: \<^verbatim>\<open>rt_malloc\<close> tries the system heap first and then the others in the order of the
  object list.\<close>

definition block_taken :: "'a mh_state_scheme \<Rightarrow> nat \<Rightarrow> seg list \<Rightarrow> nat \<Rightarrow> nat \<Rightarrow> 'a mh_state_scheme \<Rightarrow> bool" where
  "block_taken s heap xs m b s' \<longleftrightarrow> (\<exists>ys n zs. xs = ys @ (n, False) # zs \<and> m + ITEM_LEN \<le> n
     \<and> b = mh_start_addr (memheaps s heap) + slen ys + ITEM_LEN \<and> memheap_ok s' heap (ys @ mcut m n @ zs) \<and> mdata s' = mdata s)"

lemma memheap_alloc_cases:
  assumes "memheap_ok s heap xs" "unat sz \<le> 2 ^ 32 - 4"
  obtains (none) "rt_memheap_alloc heap sz s = Some (None, s)" "no_room (payload sz) xs"
    | (some) b s' where "rt_memheap_alloc heap sz s = Some (Some b, s')" "block_taken s heap xs (payload sz) b s'"
proof -
  obtain r s' where r: "rt_memheap_alloc heap sz s = Some (r, s')" and c: "case r of
       None \<Rightarrow> s' = s \<and> (free_bytes xs \<le> payload sz \<or> (\<forall>n. (n, False) \<in> set xs \<longrightarrow> n < payload sz + ITEM_LEN))
     | Some b \<Rightarrow> \<exists>ys n zs. xs = ys @ (n, False) # zs \<and> payload sz + ITEM_LEN \<le> n \<and> payload sz < free_bytes xs
         \<and> b = mh_start_addr (memheaps s heap) + slen ys + ITEM_LEN \<and> memheap_ok s' heap (ys @ mcut (payload sz) n @ zs)
         \<and> mdata s' = mdata s \<and> mh_start_addr (memheaps s' heap) = mh_start_addr (memheaps s heap)"
    using memheap_alloc_row[OF assms] by blast
  show ?thesis
  proof (cases r)
    case None
    then show ?thesis using r c by (intro none) (auto simp: no_room_def)
  next
    case (Some b)
    then show ?thesis using r c by (intro some[of b s']) (auto simp: block_taken_def)
  qed
qed

lemma malloc_elsewhere_row:
  assumes "\<And>h. h \<in> set hs \<Longrightarrow> memheap_ok s h (row h)" "unat sz \<le> 2 ^ 32 - 4"
  shows "\<exists>r s'. malloc_elsewhere sysheap sz (map At hs) s = Some (r, s') \<and>
    (case r of
       None \<Rightarrow> s' = s \<and> (\<forall>h \<in> set hs - {sysheap}. no_room (payload sz) (row h))
     | Some b \<Rightarrow> \<exists>us h vs. hs = us @ h # vs \<and> h \<noteq> sysheap \<and> (\<forall>g \<in> set us - {sysheap}. no_room (payload sz) (row g))
         \<and> block_taken s h (row h) (payload sz) b s')"
  using assms(1)
proof (induction hs)
  case (Cons h hs)
  obtain r s' where IH: "malloc_elsewhere sysheap sz (map At hs) s = Some (r, s')" and c: "case r of
       None \<Rightarrow> s' = s \<and> (\<forall>h \<in> set hs - {sysheap}. no_room (payload sz) (row h))
     | Some b \<Rightarrow> \<exists>us h vs. hs = us @ h # vs \<and> h \<noteq> sysheap \<and> (\<forall>g \<in> set us - {sysheap}. no_room (payload sz) (row g))
         \<and> block_taken s h (row h) (payload sz) b s'"
    using Cons by auto
  have skip: "case r of
       None \<Rightarrow> s' = s \<and> (\<forall>h \<in> set (h # hs) - {sysheap}. no_room (payload sz) (row h))
     | Some b \<Rightarrow> \<exists>us h' vs. h # hs = us @ h' # vs \<and> h' \<noteq> sysheap \<and> (\<forall>g \<in> set us - {sysheap}. no_room (payload sz) (row g))
         \<and> block_taken s h' (row h') (payload sz) b s'" if "h = sysheap \<or> no_room (payload sz) (row h)"
  proof (cases r)
    case None
    then show ?thesis using c that by auto
  next
    case (Some b)
    then obtain us h' vs where "hs = us @ h' # vs" "h' \<noteq> sysheap" "\<forall>g \<in> set us - {sysheap}. no_room (payload sz) (row g)"
      "block_taken s h' (row h') (payload sz) b s'" using c by auto
    then show ?thesis using that unfolding Some option.case by (intro exI[of _ "h # us"] exI[of _ h'] exI[of _ vs]) auto
  qed
  show ?case
  proof (cases "h = sysheap")
    case True
    then show ?thesis using IH skip by auto
  next
    case False
    have ok: "memheap_ok s h (row h)" using Cons.prems by simp
    show ?thesis
    proof (rule memheap_alloc_cases[OF ok assms(2)])
      assume none: "rt_memheap_alloc h sz s = Some (None, s)" "no_room (payload sz) (row h)"
      then show ?thesis using False IH skip by auto
    next
      fix b s1 assume some: "rt_memheap_alloc h sz s = Some (Some b, s1)" "block_taken s h (row h) (payload sz) b s1"
      have "malloc_elsewhere sysheap sz (map At (h # hs)) s = Some (Some b, s1)" using False some(1) by simp
      moreover have "\<exists>us h' vs. h # hs = us @ h' # vs \<and> h' \<noteq> sysheap \<and> (\<forall>g \<in> set us - {sysheap}. no_room (payload sz) (row g))
         \<and> block_taken s h' (row h') (payload sz) b s1"
        using False some(2) by (intro exI[of _ "[]"] exI[of _ h] exI[of _ hs]) simp
      ultimately show ?thesis by (intro exI[of _ "Some b"] exI[of _ s1] conjI) (simp_all only: option.case)
    qed
  qed
qed simp

text \<open>With memory heaps as the system heap, \<^verbatim>\<open>rt_malloc\<close> asks the system heap and then the other heaps in
  the order of their object list: it fails, without changing anything, only when none of them has
  room, and otherwise the block comes from the first that has.\<close>

theorem rt_malloc_memheap_correct:
  assumes "object_list s Class_MemHeap = map At hs" "sysheap \<in> set hs" "\<forall>h \<in> set hs. memheap_ok s h (row h)" "unat sz \<le> 2 ^ 32 - 4"
  shows "\<exists>r s'. rt_malloc_memheap sysheap sz s = Some (r, s') \<and>
    (case r of
       None \<Rightarrow> s' = s \<and> (\<forall>h \<in> set hs. no_room (payload sz) (row h))
     | Some b \<Rightarrow> block_taken s sysheap (row sysheap) (payload sz) b s'
         \<or> no_room (payload sz) (row sysheap)
           \<and> (\<exists>us h vs. hs = us @ h # vs \<and> h \<noteq> sysheap \<and> (\<forall>g \<in> set us. no_room (payload sz) (row g))
             \<and> block_taken s h (row h) (payload sz) b s'))"
proof -
  have ok: "memheap_ok s sysheap (row sysheap)" using assms(2,3) by blast
  show ?thesis
  proof (rule memheap_alloc_cases[OF ok assms(4)])
    assume none: "rt_memheap_alloc sysheap sz s = Some (None, s)" "no_room (payload sz) (row sysheap)"
    obtain r s' where r: "malloc_elsewhere sysheap sz (map At hs) s = Some (r, s')" and c: "case r of
       None \<Rightarrow> s' = s \<and> (\<forall>h \<in> set hs - {sysheap}. no_room (payload sz) (row h))
     | Some b \<Rightarrow> \<exists>us h vs. hs = us @ h # vs \<and> h \<noteq> sysheap \<and> (\<forall>g \<in> set us - {sysheap}. no_room (payload sz) (row g))
         \<and> block_taken s h (row h) (payload sz) b s'"
      using malloc_elsewhere_row[of hs s row sz sysheap] assms(3,4) by blast
    have "rt_malloc_memheap sysheap sz s = Some (r, s')" using none(1) r assms(1) by (simp add: rt_malloc_memheap_def)
    moreover have "case r of
       None \<Rightarrow> s' = s \<and> (\<forall>h \<in> set hs. no_room (payload sz) (row h))
     | Some b \<Rightarrow> block_taken s sysheap (row sysheap) (payload sz) b s'
         \<or> no_room (payload sz) (row sysheap)
           \<and> (\<exists>us h vs. hs = us @ h # vs \<and> h \<noteq> sysheap \<and> (\<forall>g \<in> set us. no_room (payload sz) (row g))
             \<and> block_taken s h (row h) (payload sz) b s')"
      using c none(2) by (cases r) (simp, metis DiffI singletonD, simp, metis DiffI singletonD)
    ultimately show ?thesis by blast
  next
    fix b s' assume some: "rt_memheap_alloc sysheap sz s = Some (Some b, s')" "block_taken s sysheap (row sysheap) (payload sz) b s'"
    then have "rt_malloc_memheap sysheap sz s = Some (Some b, s')" by (simp add: rt_malloc_memheap_def)
    then show ?thesis using some(2) by auto
  qed
qed

subsection \<open>Witnesses\<close>

text \<open>A heap of 256 bytes at 1000, whose object is at 100, and the same heap with one block of 40 bytes
  taken.\<close>

definition demo_mh :: mh_state where
  "demo_mh = demo_kernel \<lparr>sems = (\<lambda>_. 0), memheaps = (\<lambda>_. \<lparr>mh_start_addr = 0, mh_pool_size = 0, mh_available_size = 0,
     mh_max_used_size = 0, mh_block_list = 0, mh_free_list = 0\<rparr>),
     mitems = (\<lambda>_. \<lparr>mi_magic = 0, mi_pool = 0, mi_next = 0, mi_prev = 0, mi_next_free = 0, mi_prev_free = 0\<rparr>)\<rparr>"

definition demo_memheap :: mh_state where
  "demo_memheap = snd (the (rt_memheap_init 100 [0x68, 0x65, 0x61, 0x70, 0] 1000 256 (demo_mh\<lparr>object_list := (\<lambda>_. [])\<rparr>)))"

definition demo_memheap_40 :: mh_state where
  "demo_memheap_40 = snd (the (rt_memheap_alloc 100 40 demo_memheap))"

lemma demo_name: "rt_strncpy [0x68, 0x65, 0x61, 0x70, 0] RT_NAME_MAX = Some [0x68, 0x65, 0x61, 0x70, 0, 0, 0, 0]"
  by code_simp

lemma demo_memheap_facts:
  "mh_start_addr (memheaps demo_memheap 100) = 1000" "memheap_ok demo_memheap 100 [(232, False)]"
  "object_list demo_memheap Class_MemHeap = [At 100]"
proof -
  let ?s = "demo_mh\<lparr>object_list := (\<lambda>_. [])\<rparr>"
  obtain s' where s': "rt_memheap_init 100 [0x68, 0x65, 0x61, 0x70, 0] 1000 256 ?s = Some (RT_EOK, s')"
    "mh_start_addr (memheaps s' 100) = 1000" "memheap_ok s' 100 [(232, False)]"
    using memheap_init_row[OF demo_name, of 1000 256 100 ?s] by (auto simp: free_header_def)
  then show "mh_start_addr (memheaps demo_memheap 100) = 1000" "memheap_ok demo_memheap 100 [(232, False)]"
    by (simp_all add: demo_memheap_def)
  show "object_list demo_memheap Class_MemHeap = [At 100]"
    using memheap_init_listed[OF s'(1)] s'(1) by (simp add: demo_memheap_def)
qed

lemma payload_demo: "payload 40 = 40" "payload 20 = 20"
  by (simp_all add: payload_def)

lemma demo_memheap_40_facts:
  "rt_memheap_alloc 100 40 demo_memheap = Some (Some 1024, demo_memheap_40)"
  "mh_start_addr (memheaps demo_memheap_40 100) = 1000" "memheap_ok demo_memheap_40 100 [(64, True), (168, False)]"
proof -
  obtain r s1 where "rt_memheap_alloc 100 40 demo_memheap = Some (r, s1)" "case r of
       None \<Rightarrow> s1 = demo_memheap \<and> (free_bytes [(232, False)] \<le> 40 \<or> (\<forall>n. (n, False) \<in> set [(232 :: nat, False)] \<longrightarrow> n < 40 + ITEM_LEN))
     | Some b \<Rightarrow> \<exists>ys n zs. [(232, False)] = ys @ (n, False) # zs \<and> 40 + ITEM_LEN \<le> n \<and> 40 < free_bytes [(232, False)]
         \<and> b = mh_start_addr (memheaps demo_memheap 100) + slen ys + ITEM_LEN \<and> memheap_ok s1 100 (ys @ mcut 40 n @ zs)
         \<and> mdata s1 = mdata demo_memheap \<and> mh_start_addr (memheaps s1 100) = mh_start_addr (memheaps demo_memheap 100)"
    using memheap_alloc_row[OF demo_memheap_facts(2), of 40] unfolding payload_demo by auto
  then show "rt_memheap_alloc 100 40 demo_memheap = Some (Some 1024, demo_memheap_40)"
    "mh_start_addr (memheaps demo_memheap_40 100) = 1000" "memheap_ok demo_memheap_40 100 [(64, True), (168, False)]"
    by (auto split: option.splits simp: mcut_def Cons_eq_append_conv demo_memheap_facts(1) demo_memheap_40_def)
qed

theorem rt_memheap_alloc_correct_witness:
  "\<exists>s1. rt_memheap_alloc 100 40 demo_memheap = Some (Some 1024, s1) \<and> memheap_ok s1 100 [(64, True), (168, False)]"
  using rt_memheap_alloc_correct[OF demo_memheap_facts(2), of 40] demo_memheap_facts(1) unfolding payload_demo
  by (auto split: option.splits simp: mcut_def Cons_eq_append_conv)

theorem rt_memheap_free_correct_witness:
  "\<exists>s'. rt_memheap_free (Some 1024) demo_memheap_40 = Some s' \<and> memheap_ok s' 100 [(232, False)]"
  using rt_memheap_free_correct[of demo_memheap_40 100 "[]" 64 "[(168, False)]"] demo_memheap_40_facts(2,3)
  by (auto simp: join_both_def join_right_def)

theorem memheap_alloc_free_roundtrip_witness:
  "\<exists>s2. rt_memheap_free (Some 1024) demo_memheap_40 = Some s2 \<and> memheap_ok s2 100 [(232, False)] \<and> mdata s2 = mdata demo_memheap"
  using memheap_alloc_free_roundtrip[OF demo_memheap_facts(2) _ demo_memheap_40_facts(1)] by simp

text \<open>Growing the block of 40 bytes to 100 takes from the free block behind it, and cutting it to 20 does nothing.
  When another block of 40 bytes is behind it, growing it to 60 moves it behind that one, to 1152.\<close>

lemma demo_memheap_two:
  obtains s1 where "rt_memheap_alloc 100 40 demo_memheap_40 = Some (Some 1088, s1)"
    "mh_start_addr (memheaps s1 100) = 1000" "memheap_ok s1 100 [(64, True), (64, True), (104, False)]"
  using memheap_alloc_row[OF demo_memheap_40_facts(3), of 40] demo_memheap_40_facts(2) unfolding payload_demo
  by (auto split: option.splits simp: mcut_def Cons_eq_append_conv)

lemma demo_block_moved:
  assumes "block_moved 1000 0 [(64, True), (64, True), (104, False)] 64 60 xs' b"
  shows "b = 1152 \<and> xs' = [(64, False), (64, True), (104, True)]"
  using assms by (auto simp: block_moved_def mcut_def Cons_eq_append_conv join_both_def join_right_def)

theorem rt_memheap_realloc_correct_witness:
  "(\<exists>s'. rt_memheap_realloc 100 (Some 1024) 100 demo_memheap_40 = Some (Some 1024, s') \<and> memheap_ok s' 100 [(124, True), (108, False)])
   \<and> rt_memheap_realloc 100 (Some 1024) 20 demo_memheap_40 = Some (Some 1024, demo_memheap_40)
   \<and> (\<exists>s1 s'. rt_memheap_alloc 100 40 demo_memheap_40 = Some (Some 1088, s1)
        \<and> rt_memheap_realloc 100 (Some 1024) 60 s1 = Some (Some 1152, s') \<and> memheap_ok s' 100 [(64, False), (64, True), (104, True)])"
proof (intro conjI)
  have p: "payload 100 = 100" "payload 60 = 60" by (simp_all add: payload_def)
  show "\<exists>s'. rt_memheap_realloc 100 (Some 1024) 100 demo_memheap_40 = Some (Some 1024, s') \<and> memheap_ok s' 100 [(124, True), (108, False)]"
    using rt_memheap_realloc_correct[of demo_memheap_40 100 "[]" 64 "[(168, False)]" 100] demo_memheap_40_facts(2,3)
    unfolding payload_demo p by auto
  show "rt_memheap_realloc 100 (Some 1024) 20 demo_memheap_40 = Some (Some 1024, demo_memheap_40)"
    using rt_memheap_realloc_correct[of demo_memheap_40 100 "[]" 64 "[(168, False)]" 20] demo_memheap_40_facts(2,3)
    unfolding payload_demo p by auto
  obtain s1 where s1: "rt_memheap_alloc 100 40 demo_memheap_40 = Some (Some 1088, s1)"
    "mh_start_addr (memheaps s1 100) = 1000" "memheap_ok s1 100 [(64, True), (64, True), (104, False)]" by (rule demo_memheap_two)
  have "\<not> no_room 60 [(64, True), (64, True), (104, False)]" by (simp add: no_room_def)
  then obtain b s' xs' where "rt_memheap_realloc 100 (Some 1024) 60 s1 = Some (Some b, s')"
    "block_moved 1000 0 [(64, True), (64, True), (104, False)] 64 60 xs' b" "memheap_ok s' 100 xs'"
    using rt_memheap_realloc_correct[of s1 100 "[]" 64 "[(64, True), (104, False)]" 60] s1(2,3) unfolding p by auto
  then show "\<exists>s1 s'. rt_memheap_alloc 100 40 demo_memheap_40 = Some (Some 1088, s1)
      \<and> rt_memheap_realloc 100 (Some 1024) 60 s1 = Some (Some 1152, s') \<and> memheap_ok s' 100 [(64, False), (64, True), (104, True)]"
    using s1(1) demo_block_moved by blast
qed

theorem rt_malloc_memheap_correct_witness:
  "\<exists>b s'. rt_malloc_memheap 100 40 demo_memheap = Some (Some b, s') \<and> block_taken demo_memheap 100 [(232, False)] 40 b s'"
  using rt_malloc_memheap_correct[of demo_memheap "[100]" 100 "\<lambda>_. [(232, False)]" 40] demo_memheap_facts
  unfolding payload_demo by (fastforce split: option.splits simp: no_room_def Cons_eq_append_conv)

theorem rt_memheap_init_correct_witness:
  "\<exists>s'. rt_memheap_init 100 [0x68, 0x65, 0x61, 0x70, 0] 1000 256 demo_mh = Some (RT_EOK, s') \<and> memheap_ok s' 100 [(232, False)]"
  using rt_memheap_init_correct[OF demo_name, of 1000 256 100 demo_mh] by (auto simp: free_header_def)

end
