(* ===== verification/SoftTimer.thy ===== *)
theory SoftTimer
  imports Ipc
begin

text \<open>
  Soft timers, the part of \<^verbatim>\<open>src/timer.c\<close> that \<^verbatim>\<open>RT_USING_TIMER_SOFT\<close> adds: a second skip list, whose
  timers are checked by a thread of the kernel instead of the tick interrupt. The operations of \<open>Timer\<close>
  act on the list \<open>rt_timer_list\<close>; where the code passes them \<^verbatim>\<open>rt_soft_timer_list\<close>, they run here
  between two exchanges of the lists (\<open>soft\<close>). The functions of this configuration have the suffix
  \<open>_soft\<close> where \<open>Timer\<close> has one of the same name. The loop of \<^verbatim>\<open>rt_soft_timer_check\<close> keeps a
  pointer to the next node of the list, which may be removed before the loop gets there:
  \<open>next_node\<close> follows it, and a node that is in no list points to itself.
\<close>

abbreviation (input) TIMER_SOFT :: rt_uint8_t where "TIMER_SOFT \<equiv> 4"
abbreviation (input) RT_TIMER_THREAD_STACK_SIZE :: nat where "RT_TIMER_THREAD_STACK_SIZE \<equiv> 512"
abbreviation (input) RT_TIMER_THREAD_PRIO :: nat where "RT_TIMER_THREAD_PRIO \<equiv> 0"
abbreviation (input) RT_TICK_MAX :: rt_tick_t where "RT_TICK_MAX \<equiv> 0xffffffff"

record soft_state = sched_state +
  rt_soft_timer_list :: "ptr list list"
  timer_thread :: tid

definition soft :: "'a soft_state_scheme \<Rightarrow> 'a soft_state_scheme" where
  "soft s = s\<lparr>rt_timer_list := rt_soft_timer_list s, rt_soft_timer_list := rt_timer_list s\<rparr>"

definition soft_timers :: "'a soft_state_scheme \<Rightarrow> ptr list" where
  "soft_timers s = last (rt_soft_timer_list s)"

text \<open>\<^verbatim>\<open>rt_timer_list_next_timeout(rt_soft_timer_list)\<close>\<close>

definition soft_next_timeout :: "'a soft_state_scheme \<Rightarrow> rt_tick_t" where
  "soft_next_timeout s = rt_timer_next_timeout_tick (soft s)"

definition rt_timer_remove_soft :: "ptr \<Rightarrow> 'a soft_state_scheme \<Rightarrow> 'a soft_state_scheme" where
  "rt_timer_remove_soft p s = s\<lparr>rt_timer_list := map (removeAll p) (rt_timer_list s),
     rt_soft_timer_list := map (removeAll p) (rt_soft_timer_list s)\<rparr>"

definition rt_timer_detach_soft :: "ptr \<Rightarrow> 'a soft_state_scheme \<Rightarrow> 'a soft_state_scheme" where
  "rt_timer_detach_soft p s = rt_object_detach p (rt_timer_remove_soft p s)"

definition rt_timer_delete_soft :: "nat \<Rightarrow> 'a soft_state_scheme \<Rightarrow> 'a soft_state_scheme option" where
  "rt_timer_delete_soft p s = rt_object_delete p (rt_timer_remove_soft (At p) s)"

definition rt_timer_stop_soft :: "ptr \<Rightarrow> 'a soft_state_scheme \<Rightarrow> rt_err_t \<times> 'a soft_state_scheme" where
  "rt_timer_stop_soft p s =
     (if o_flag (objs s p) AND TIMER_ACTIVATED = 0 then (- RT_ERROR, s)
      else (RT_EOK, upd_obj p (\<lambda>ob. ob\<lparr>o_flag := o_flag ob AND NOT TIMER_ACTIVATED\<rparr>) (rt_timer_remove_soft p s)))"

definition rt_timer_start_soft :: "ptr \<Rightarrow> 'a soft_state_scheme \<Rightarrow> (rt_err_t \<times> 'a soft_state_scheme) option" where
  "rt_timer_start_soft p s =
     (if o_flag (objs s p) AND TIMER_SOFT = 0 then rt_timer_start p s
      else
        do { (r, s) \<leftarrow> rt_timer_start p (soft s);
             let s = soft s;
             if r \<noteq> - RT_EOK then Some (r, s)
             else if stat (threads s (timer_thread s)) \<noteq> THREAD_READY then
               do { let s = snd (rt_thread_resume (timer_thread s) s);
                    s \<leftarrow> rt_schedule s;
                    Some (- RT_EOK, s) }
             else Some (- RT_EOK, s) })"

subsection \<open>The timer thread\<close>

definition next_node :: "ptr list \<Rightarrow> ptr \<Rightarrow> ptr option" where
  "next_node xs p = (case dropWhile (\<lambda>x. x \<noteq> p) xs of [] \<Rightarrow> Some p | [x] \<Rightarrow> None | x # y # ys \<Rightarrow> Some y)"

partial_function (option) soft_check_loop :: "(timeout_fn \<Rightarrow> nat \<Rightarrow> 'a soft_state_scheme \<Rightarrow> 'a soft_state_scheme option)
    \<Rightarrow> ptr option \<Rightarrow> rt_tick_t \<Rightarrow> 'a soft_state_scheme \<Rightarrow> 'a soft_state_scheme option" where
  "soft_check_loop dispatch n current_tick s =
     (case n of
        None \<Rightarrow> Some s
      | Some t \<Rightarrow>
          if current_tick - timeout_tick (timers s t) < RT_TICK_HALF then
            do { let n = next_node (soft_timers s) t;
                 s \<leftarrow> dispatch (timeout_func (timers s t)) (timer_parameter (timers s t)) (rt_timer_remove_soft t s);
                 let flag = o_flag (objs s t);
                 let off = upd_obj t (\<lambda>ob. ob\<lparr>o_flag := o_flag ob AND NOT TIMER_ACTIVATED\<rparr>) s;
                 if flag AND TIMER_PERIODIC \<noteq> 0 \<and> flag AND TIMER_ACTIVATED \<noteq> 0 then
                   do { (r, s') \<leftarrow> rt_timer_start_soft t off;
                        soft_check_loop dispatch n (rt_tick_get s) s' }
                 else soft_check_loop dispatch n (rt_tick_get s) off }
          else Some s)"

definition rt_soft_timer_check :: "(timeout_fn \<Rightarrow> nat \<Rightarrow> 'a soft_state_scheme \<Rightarrow> 'a soft_state_scheme option)
    \<Rightarrow> 'a soft_state_scheme \<Rightarrow> 'a soft_state_scheme option" where
  "rt_soft_timer_check dispatch s =
     soft_check_loop dispatch (case soft_timers s of [] \<Rightarrow> None | t # _ \<Rightarrow> Some t) (rt_tick_get s) s"

text \<open>One round of \<^verbatim>\<open>rt_thread_timer_entry\<close>, in two parts: \<open>timer_entry_sleep\<close> up to where the thread goes on
  with the check, at once (\<open>Ret\<close>) or after it was suspended (\<open>Wait\<close>), and the check.\<close>

definition timer_entry_sleep :: "'a soft_state_scheme \<Rightarrow> ((rt_err_t, tid) outcome \<times> 'a soft_state_scheme) option" where
  "timer_entry_sleep s =
     (let next_timeout = soft_next_timeout s in
      if next_timeout = RT_TICK_MAX then
        do { t \<leftarrow> rt_thread_self s;
             s \<leftarrow> rt_schedule (snd (rt_thread_suspend t s));
             Some (if rt_current_thread s = Some t then Ret RT_EOK else Wait t, s) }
      else if next_timeout - rt_tick_get s < RT_TICK_HALF then rt_thread_delay (next_timeout - rt_tick_get s) s
      else Some (Ret RT_EOK, s))"

definition timer_entry_check :: "(timeout_fn \<Rightarrow> nat \<Rightarrow> 'a soft_state_scheme \<Rightarrow> 'a soft_state_scheme option)
    \<Rightarrow> 'a soft_state_scheme \<Rightarrow> 'a soft_state_scheme option" where
  "timer_entry_check dispatch s =
     do { s \<leftarrow> rt_soft_timer_check dispatch (rt_enter_critical s);
          rt_exit_critical s }"

definition rt_system_timer_thread_init :: "nat \<Rightarrow> nat \<Rightarrow> 'a soft_state_scheme \<Rightarrow> 'a soft_state_scheme option" where
  "rt_system_timer_thread_init entry stack s =
     do { let s = s\<lparr>rt_soft_timer_list := map (\<lambda>_. []) (rt_soft_timer_list s)\<rparr>;
          s \<leftarrow> rt_thread_init (timer_thread s) [0x74, 0x69, 0x6d, 0x65, 0x72, 0] entry 0 stack RT_TIMER_THREAD_STACK_SIZE
            RT_TIMER_THREAD_PRIO 10 s;
          (r, s) \<leftarrow> rt_thread_startup (timer_thread s) s;
          Some s }"

subsection \<open>The two lists\<close>

lemma soft_soft [simp]: "soft (soft s) = s"
  by (simp add: soft_def)

lemma soft_fields [simp]:
  "active_timers (soft s) = soft_timers s" "soft_timers (soft s) = active_timers s" "objs (soft s) = objs s"
  "timers (soft s) = timers s" "rt_tick (soft s) = rt_tick s" "threads (soft s) = threads s" "timer_thread (soft s) = timer_thread s"
  "rt_timer_list (soft s) = rt_soft_timer_list s" "rt_soft_timer_list (soft s) = rt_timer_list s" "tlists (soft s) = tlists s"
  by (simp_all add: soft_def active_timers_def soft_timers_def)

lemma expired_soft [simp]: "expired (soft s) = expired s"
  by (simp add: expired_def fun_eq_iff)

text \<open>Both lists in order, each with the timers of its kind.\<close>

definition soft_ok :: "'a soft_state_scheme \<Rightarrow> bool" where
  "soft_ok s \<longleftrightarrow> timer_inv s \<and> timer_inv (soft s) \<and> (\<forall>t \<in> set (active_timers s). o_flag (objs s t) AND TIMER_SOFT = 0)
     \<and> (\<forall>t \<in> set (soft_timers s). o_flag (objs s t) AND TIMER_SOFT \<noteq> 0)"

lemma soft_okD:
  assumes "soft_ok s"
  shows "timer_inv s" "timer_inv (soft s)" "t \<in> set (active_timers s) \<Longrightarrow> o_flag (objs s t) AND TIMER_SOFT = 0"
    "t \<in> set (soft_timers s) \<Longrightarrow> o_flag (objs s t) AND TIMER_SOFT \<noteq> 0"
    "t \<in> set (soft_timers s) \<Longrightarrow> o_flag (objs s t) AND TIMER_ACTIVATED \<noteq> 0" "distinct (soft_timers s)"
  using assms by (auto simp: soft_ok_def timer_inv_def rows_ok_def soft_timers_def)

text \<open>In a list that is in order the expired timers come first.\<close>

lemma expired_first:
  assumes "timer_inv s"
  shows "active_timers s = filter (expired s) (active_timers s) @ filter (\<lambda>t. \<not> expired s t) (active_timers s)"
proof -
  let ?k = "tkey (rt_tick s - 1) s"
  have k: "\<forall>t \<in> set (active_timers s). ?k t \<le> 0x7fffffff" "sorted (map ?k (active_timers s))"
    using assms by (simp_all add: timer_inv_def rows_ok_def active_timers_def)
  have "row_mono (\<lambda>t. \<not> expired s t) (active_timers s)"
    using k expired_key[of s] by (intro sorted_row_mono[of ?k _ _ 1]) (auto simp: not_le)
  then show ?thesis by (simp add: row_mono_def)
qed

lemma next_node_list [simp]:
  "distinct (xs @ p # ys) \<Longrightarrow> next_node (xs @ p # ys) p = (case ys of [] \<Rightarrow> None | y # _ \<Rightarrow> Some y)"
proof -
  assume "distinct (xs @ p # ys)"
  then have "dropWhile (\<lambda>x. x \<noteq> p) (xs @ p # ys) = p # ys" by (subst dropWhile_append2) auto
  then show ?thesis by (cases ys) (simp_all add: next_node_def)
qed

lemma next_node_stale: "p \<notin> set xs \<Longrightarrow> next_node xs p = Some p"
  by (induction xs) (auto simp: next_node_def)

lemma soft_flag [simp]:
  "(f AND - 2) AND 4 = f AND (4 :: rt_uint8_t)" "(f OR 1) AND 4 = f AND (4 :: rt_uint8_t)" "(f OR 1) AND 2 = f AND (2 :: rt_uint8_t)"
  by (simp_all add: and.assoc bit.conj_disj_distrib2)

lemma soft_ok_cong:
  assumes "soft_ok s" "rt_tick s' = rt_tick s" "rt_timer_list s' = rt_timer_list s" "rt_soft_timer_list s' = rt_soft_timer_list s"
    "\<And>t. t \<in> set (active_timers s) \<union> set (soft_timers s) \<Longrightarrow> timers s' t = timers s t \<and> o_flag (objs s' t) = o_flag (objs s t)"
  shows "soft_ok s'"
proof -
  note S = soft_okD[OF assms(1)]
  have "timer_inv s'" using assms(2,3,5) by (intro timer_inv_cong[OF S(1)]) auto
  moreover have "timer_inv (soft s')" using assms(2,4,5) by (intro timer_inv_cong[OF S(2)]) auto
  moreover have "active_timers s' = active_timers s" "soft_timers s' = soft_timers s"
    using assms(3,4) by (simp_all add: active_timers_def soft_timers_def)
  ultimately show ?thesis using S(3,4) assms(5) by (simp add: soft_ok_def)
qed

lemma remove_soft_fields [simp]:
  "objs (rt_timer_remove_soft p s) = objs s" "timers (rt_timer_remove_soft p s) = timers s" "rt_tick (rt_timer_remove_soft p s) = rt_tick s"
  "threads (rt_timer_remove_soft p s) = threads s" "timer_thread (rt_timer_remove_soft p s) = timer_thread s"
  by (simp_all add: rt_timer_remove_soft_def)

lemma remove_soft_ok:
  assumes "soft_ok s"
  shows "soft_ok (rt_timer_remove_soft p s)" "soft_timers (rt_timer_remove_soft p s) = removeAll p (soft_timers s)"
proof -
  note S = soft_okD[OF assms]
  have 1: "active_timers (rt_timer_remove_soft p s) = active_timers (rt_timer_remove p s)" "timer_inv (rt_timer_remove_soft p s) = timer_inv (rt_timer_remove p s)"
    by (simp_all add: rt_timer_remove_soft_def rt_timer_remove_def active_timers_def timer_inv_def tkey_def[abs_def])
  have 2: "soft_timers (rt_timer_remove_soft p s) = active_timers (rt_timer_remove p (soft s))"
    "timer_inv (soft (rt_timer_remove_soft p s)) = timer_inv (rt_timer_remove p (soft s))"
    by (simp_all add: rt_timer_remove_soft_def rt_timer_remove_def active_timers_def soft_timers_def timer_inv_def tkey_def[abs_def] soft_def)
  show "soft_timers (rt_timer_remove_soft p s) = removeAll p (soft_timers s)" using active_remove[OF S(2)] by (simp add: 2)
  then show "soft_ok (rt_timer_remove_soft p s)"
    using timer_inv_remove[OF S(1), of p] timer_inv_remove[OF S(2), of p] S(3,4) active_remove[OF S(1), of p] by (simp add: soft_ok_def 1 2)
qed

subsection \<open>Starting a soft timer\<close>

text \<open>The state in which the timer is in the soft list, before the timer thread is woken.\<close>

lemma soft_insert_ok:
  assumes ok: "soft_ok s" and p: "o_flag (objs s p) AND TIMER_SOFT \<noteq> 0" "o_flag (objs s p) AND TIMER_ACTIVATED = 0"
    and init: "timer_init_tick (timers s p) < RT_TICK_HALF"
  defines "n \<equiv> unat (timer_init_tick (timers s p)) + 1"
  shows "\<exists>rows s'. rt_timer_start p (soft s) = Some (RT_EOK, soft s') \<and> soft_ok s'
    \<and> s' = s\<lparr>objs := (objs s)(p := (objs s p)\<lparr>o_flag := o_flag (objs s p) OR TIMER_ACTIVATED\<rparr>),
        timers := (timers s)(p := (timers s p)\<lparr>timeout_tick := rt_tick s + timer_init_tick (timers s p)\<rparr>),
        rt_soft_timer_list := rows, random_nr := random_nr s + 1\<rparr>
    \<and> soft_timers s' = timer_insert (\<lambda>t. n < tkey (rt_tick s - 1) s t) p (soft_timers s)"
proof -
  note S = soft_okD[OF ok]
  obtain rows s1 where s1: "rt_timer_start p (soft s) = Some (RT_EOK, s1)" "timer_inv s1"
    "s1 = (soft s)\<lparr>objs := (objs s)(p := (objs s p)\<lparr>o_flag := o_flag (objs s p) OR TIMER_ACTIVATED\<rparr>),
        timers := (timers s)(p := (timers s p)\<lparr>timeout_tick := rt_tick s + timer_init_tick (timers s p)\<rparr>),
        rt_timer_list := rows, random_nr := random_nr (soft s) + 1\<rparr>"
    "active_timers s1 = timer_insert (\<lambda>t. n < tkey (rt_tick s - 1) (soft s) t) p (soft_timers s)"
    using rt_timer_start_ok[OF S(2), of p] p(2) init by (auto simp: n_def)
  define s' where "s' = soft s1"
  have e: "s' = s\<lparr>objs := (objs s)(p := (objs s p)\<lparr>o_flag := o_flag (objs s p) OR TIMER_ACTIVATED\<rparr>),
        timers := (timers s)(p := (timers s p)\<lparr>timeout_tick := rt_tick s + timer_init_tick (timers s p)\<rparr>),
        rt_soft_timer_list := rows, random_nr := random_nr s + 1\<rparr>"
    by (simp add: s'_def s1(3) soft_def)
  have ac: "active_timers s' = active_timers s" by (simp add: e active_timers_def)
  have na: "p \<notin> set (active_timers s)" using S(3) p(1) by blast
  have "timer_inv s'" using na by (intro timer_inv_cong[OF S(1)]) (auto simp: e)
  moreover have "timer_inv (soft s')" using s1(2) by (simp add: s'_def)
  moreover have st: "soft_timers s' = timer_insert (\<lambda>t. n < tkey (rt_tick s - 1) s t) p (soft_timers s)"
    using s1(4) by (simp add: s'_def tkey_def)
  moreover have "\<forall>t \<in> set (active_timers s'). o_flag (objs s' t) AND TIMER_SOFT = 0" unfolding ac using S(3) na by (auto simp: e)
  moreover have "\<forall>t \<in> set (soft_timers s'). o_flag (objs s' t) AND TIMER_SOFT \<noteq> 0" using S(4) p(1) unfolding st by (auto simp: e)
  ultimately have "soft_ok s'" by (simp add: soft_ok_def)
  moreover have "rt_timer_start p (soft s) = Some (RT_EOK, soft s')" using s1(1) by (simp add: s'_def)
  ultimately show ?thesis using e st by blast
qed

subsection \<open>The check\<close>

text \<open>What a timeout function may do: it leaves the soft timers and the timer thread alone.\<close>

definition soft_frame :: "'a soft_state_scheme \<Rightarrow> 'a soft_state_scheme \<Rightarrow> bool" where
  "soft_frame s s' \<longleftrightarrow> rt_soft_timer_list s' = rt_soft_timer_list s \<and> rt_tick s' = rt_tick s \<and> timer_thread s' = timer_thread s
     \<and> stat (threads s' (timer_thread s)) = stat (threads s (timer_thread s))
     \<and> (\<forall>p. o_flag (objs s p) AND TIMER_SOFT \<noteq> 0 \<longrightarrow> timers s' p = timers s p \<and> o_flag (objs s' p) = o_flag (objs s p))"

definition quiet_timeouts :: "(timeout_fn \<Rightarrow> nat \<Rightarrow> 'a soft_state_scheme \<Rightarrow> 'a soft_state_scheme option) \<Rightarrow> bool" where
  "quiet_timeouts dispatch \<longleftrightarrow> (\<forall>f a s. soft_ok s \<longrightarrow> (\<exists>s'. dispatch f a s = Some s' \<and> soft_ok s' \<and> soft_frame s s'))"

definition is_periodic :: "'a soft_state_scheme \<Rightarrow> ptr \<Rightarrow> bool" where
  "is_periodic s t \<longleftrightarrow> o_flag (objs s t) AND TIMER_PERIODIC \<noteq> 0"

definition periods_ok :: "'a soft_state_scheme \<Rightarrow> bool" where
  "periods_ok s \<longleftrightarrow> (\<forall>t \<in> set (soft_timers s). is_periodic s t \<longrightarrow> 0 < timer_init_tick (timers s t) \<and> timer_init_tick (timers s t) < RT_TICK_HALF)"

text \<open>One timer: taken off the list, its function called, and started again when it is periodic.\<close>

definition soft_fire :: "(timeout_fn \<Rightarrow> nat \<Rightarrow> 'a soft_state_scheme \<Rightarrow> 'a soft_state_scheme option)
    \<Rightarrow> ptr \<Rightarrow> 'a soft_state_scheme \<Rightarrow> 'a soft_state_scheme option" where
  "soft_fire dispatch t s =
     do { s \<leftarrow> dispatch (timeout_func (timers s t)) (timer_parameter (timers s t)) (rt_timer_remove_soft t s);
          let off = upd_obj t (\<lambda>ob. ob\<lparr>o_flag := o_flag ob AND NOT TIMER_ACTIVATED\<rparr>) s;
          if o_flag (objs s t) AND TIMER_PERIODIC \<noteq> 0 \<and> o_flag (objs s t) AND TIMER_ACTIVATED \<noteq> 0
          then map_option snd (rt_timer_start_soft t off)
          else Some off }"

fun soft_fire_all :: "(timeout_fn \<Rightarrow> nat \<Rightarrow> 'a soft_state_scheme \<Rightarrow> 'a soft_state_scheme option)
    \<Rightarrow> ptr list \<Rightarrow> 'a soft_state_scheme \<Rightarrow> 'a soft_state_scheme option" where
  "soft_fire_all dispatch [] s = Some s"
| "soft_fire_all dispatch (t # ts) s = do { s \<leftarrow> soft_fire dispatch t s; soft_fire_all dispatch ts s }"

lemma restart_later:
  assumes "0 < d" "timer_inv s" "x \<in> set (active_timers s)" "expired s x"
  shows "\<not> unat d + 1 < tkey (rt_tick s - 1) s x"
proof -
  have "tkey (rt_tick s - 1) s x \<le> 1" using expired_key[of s x] assms by (auto simp: timer_inv_def)
  then show ?thesis using assms(1) by (simp add: word_less_nat_alt)
qed

lemma restart_not_expired:
  assumes "0 < d" "d < RT_TICK_HALF"
  shows "\<not> k - (k + d) < (RT_TICK_HALF :: rt_tick_t)"
proof -
  have "d \<noteq> 0" using assms(1) by auto
  then have "unat (0 - d) = 2 ^ 32 - unat d" unfolding unat_sub_if_size by (simp add: word_size unat_eq_0)
  then have "\<not> - d < (RT_TICK_HALF :: rt_tick_t)" using assms(2) by (simp add: word_less_nat_alt)
  then show ?thesis by simp
qed

lemma soft_fire_ok:
  assumes ok: "soft_ok s" "periods_ok s" "stat (threads s (timer_thread s)) = THREAD_READY" and q: "quiet_timeouts dispatch"
    and t: "soft_timers s = t # ts" "expired s t"
  shows "\<exists>s'. soft_fire dispatch t s = Some s' \<and> soft_ok s' \<and> periods_ok s' \<and> stat (threads s' (timer_thread s')) = THREAD_READY
    \<and> rt_tick s' = rt_tick s \<and> filter (expired s') (soft_timers s') = filter (expired s) ts
    \<and> set (soft_timers s') = set ts \<union> (if is_periodic s t then {t} else {})
    \<and> (\<forall>p \<in> set (soft_timers s). is_periodic s' p = is_periodic s p) \<and> (\<forall>p \<in> set ts. timers s' p = timers s p)"
proof -
  note S = soft_okD[OF ok(1)]
  define s1 where "s1 = rt_timer_remove_soft t s"
  have tn: "t \<notin> set ts" "removeAll t ts = ts" using S(6) t(1) by auto
  have s1: "soft_ok s1" "soft_timers s1 = ts" using remove_soft_ok[OF ok(1), of t] t(1) tn(2) by (simp_all add: s1_def)
  obtain s2 where s2: "dispatch (timeout_func (timers s t)) (timer_parameter (timers s t)) s1 = Some s2" "soft_ok s2" "soft_frame s1 s2"
    using q s1(1) unfolding quiet_timeouts_def by blast
  have same: "timers s2 p = timers s p" "o_flag (objs s2 p) = o_flag (objs s p)" if "p \<in> set (soft_timers s)" for p
    using s2(3) S(4)[OF that] by (simp_all add: soft_frame_def s1_def)
  have fl: "o_flag (objs s2 t) AND TIMER_ACTIVATED \<noteq> 0" "o_flag (objs s2 t) AND TIMER_SOFT \<noteq> 0" "timers s2 t = timers s t"
    "o_flag (objs s2 t) = o_flag (objs s t)" using same[of t] S(4,5)[of t] t(1) by simp_all
  have g: "rt_tick s2 = rt_tick s" "soft_timers s2 = ts" "timer_thread s2 = timer_thread s" "stat (threads s2 (timer_thread s)) = THREAD_READY"
    using s2(3) s1(2) ok(3) by (simp_all add: soft_frame_def s1_def soft_timers_def)
  define off where "off = upd_obj t (\<lambda>ob. ob\<lparr>o_flag := o_flag ob AND NOT TIMER_ACTIVATED\<rparr>) s2"
  have na: "t \<notin> set (active_timers s2)" using soft_okD(3)[OF s2(2)] fl(2) by blast
  have off: "objs off = (objs s2)(t := (objs s2 t)\<lparr>o_flag := o_flag (objs s2 t) AND NOT TIMER_ACTIVATED\<rparr>)" "timers off = timers s2"
    "rt_tick off = rt_tick s" "threads off = threads s2" "timer_thread off = timer_thread s" "soft_timers off = ts"
    using g by (simp_all add: off_def upd_obj_def soft_timers_def)
  have ook: "soft_ok off"
    using na tn(1) g(2) by (intro soft_ok_cong[OF s2(2)]) (auto simp: off_def upd_obj_def)
  have run: "soft_fire dispatch t s = (if is_periodic s t then map_option snd (rt_timer_start_soft t off) else Some off)"
    using s2(1) fl(1,4) by (simp add: soft_fire_def s1_def off_def is_periodic_def)
  have exp: "filter (expired off) ts = filter (expired s) ts"
    using same t(1) by (intro filter_cong) (auto simp: expired_def off)
  show ?thesis
  proof (cases "is_periodic s t")
    case False
    have "periods_ok off" using ok(2) same t(1) tn(1) by (auto simp: periods_ok_def is_periodic_def off)
    moreover have "\<forall>p \<in> set (soft_timers s). is_periodic off p = is_periodic s p" using same fl(4) by (auto simp: is_periodic_def off(1))
    ultimately show ?thesis using False run ook off g exp same t(1) by auto
  next
    case True
    define d where "d = timer_init_tick (timers off t)"
    have d: "0 < d" "d < RT_TICK_HALF" using ok(2) True t(1) fl(3) by (auto simp: periods_ok_def d_def off(2))
    have ofl: "o_flag (objs off t) AND TIMER_SOFT \<noteq> 0" "o_flag (objs off t) AND TIMER_ACTIVATED = 0" using fl(2) by (simp_all add: off(1))
    obtain rows s' where s': "rt_timer_start t (soft off) = Some (RT_EOK, soft s')" "soft_ok s'"
      "s' = off\<lparr>objs := (objs off)(t := (objs off t)\<lparr>o_flag := o_flag (objs off t) OR TIMER_ACTIVATED\<rparr>),
        timers := (timers off)(t := (timers off t)\<lparr>timeout_tick := rt_tick off + d\<rparr>), rt_soft_timer_list := rows, random_nr := random_nr off + 1\<rparr>"
      "soft_timers s' = timer_insert (\<lambda>x. unat d + 1 < tkey (rt_tick off - 1) off x) t (soft_timers off)"
      using soft_insert_ok[OF ook ofl] d(2) unfolding d_def by blast
    have "rt_timer_start_soft t off = Some (RT_EOK, s')"
      using ofl(1) s'(1) g(4) by (simp add: rt_timer_start_soft_def Let_def s'(3) off)
    then have run': "soft_fire dispatch t s = Some s'" using run True by simp
    have f: "timers s' p = timers s2 p" "p \<noteq> t" if "p \<in> set ts" for p using that tn(1) by (auto simp: s'(3) off(2))
    have lt: "\<not> unat d + 1 < tkey (rt_tick off - 1) off x" if "x \<in> set ts" "expired off x" for x
      using restart_later[OF d(1) soft_okD(2)[OF ook], of x] that off(6) by (simp add: tkey_def)
    have nt: "\<not> expired s' t" using restart_not_expired[OF d, of "rt_tick s"] by (simp add: expired_def s'(3) off)
    have ex': "expired s' x = expired off x" if "x \<in> set ts" for x using f[OF that] by (simp add: expired_def s'(3) off)
    let ?l = "\<lambda>x. unat d + 1 < tkey (rt_tick off - 1) off x"
    have "filter (expired s') (filter (\<lambda>x. \<not> ?l x) ts) = filter (expired off) ts" "filter (expired s') (filter ?l ts) = []"
      using ex' lt by (auto simp: filter_filter filter_empty_conv intro!: filter_cong)
    then have F: "filter (expired s') (soft_timers s') = filter (expired s) ts"
      unfolding s'(4) off(6) timer_insert_def using nt exp by simp
    have P: "is_periodic s' p = is_periodic s p" if "p \<in> set (soft_timers s)" for p
      using same(2)[OF that] fl(4) by (auto simp: is_periodic_def s'(3) off(1))
    have "periods_ok s'" unfolding periods_ok_def
    proof (intro ballI impI)
      fix p assume p: "p \<in> set (soft_timers s')" "is_periodic s' p"
      then have "p \<in> set (soft_timers s)" unfolding s'(4) off(6) using t(1) by auto
      moreover from this have "timer_init_tick (timers s' p) = timer_init_tick (timers s p)" using same(1) t(1) by (auto simp: s'(3) off(2))
      ultimately show "0 < timer_init_tick (timers s' p) \<and> timer_init_tick (timers s' p) < RT_TICK_HALF"
        using ok(2) P p(2) by (simp add: periods_ok_def)
    qed
    moreover have "stat (threads s' (timer_thread s')) = THREAD_READY" "rt_tick s' = rt_tick s" using g(4) by (simp_all add: s'(3) off)
    moreover have "set (soft_timers s') = set ts \<union> {t}" unfolding s'(4) off(6) by auto
    moreover have "\<forall>p \<in> set ts. timers s' p = timers s p" using f same(1) t(1) by simp
    ultimately show ?thesis using run' s'(2) F P True by auto
  qed
qed

lemma start_soft_tick: "rt_timer_start_soft t s = Some (r, s') \<Longrightarrow> rt_tick s' = rt_tick s"
proof -
  assume a: "rt_timer_start_soft t s = Some (r, s')"
  show ?thesis
  proof (cases "o_flag (objs s t) AND TIMER_SOFT = 0")
    case True
    then show ?thesis using a rt_timer_start_tick by (simp add: rt_timer_start_soft_def)
  next
    case False
    then obtain r1 s1 where s1: "rt_timer_start t (soft s) = Some (r1, s1)" using a by (auto simp: rt_timer_start_soft_def bind_eq_Some_conv)
    have "rt_tick (soft s1) = rt_tick s" using rt_timer_start_tick[OF s1] by simp
    moreover have "rt_tick (snd (rt_thread_resume u s2)) = rt_tick s2" for u and s2 :: "'a soft_state_scheme"
      by (cases "stat (threads s2 u) = THREAD_SUSPEND") (simp add: rt_thread_resume_effect, simp add: rt_thread_resume_def)
    moreover have "rt_schedule s2 = Some s3 \<Longrightarrow> rt_tick s3 = rt_tick s2" for s2 s3 :: "'a soft_state_scheme"
      using rt_schedule_frame by fastforce
    ultimately show ?thesis using False a s1
      by (auto simp: rt_timer_start_soft_def bind_eq_Some_conv Let_def split: if_splits)
  qed
qed

lemma soft_check_loop_fire:
  assumes "expired s t"
  shows "soft_check_loop dispatch (Some t) (rt_tick s) s
    = do { s' \<leftarrow> soft_fire dispatch t s; soft_check_loop dispatch (next_node (soft_timers s) t) (rt_tick s') s' }"
proof -
  have start: "Option.bind (rt_timer_start_soft t u) (\<lambda>(r, s'). soft_check_loop dispatch m k s')
      = Option.bind (map_option snd (rt_timer_start_soft t u)) (\<lambda>s'. soft_check_loop dispatch m (rt_tick s') s')" if "k = rt_tick u" for u m k
    using that by (cases "rt_timer_start_soft t u") (auto dest: start_soft_tick)
  have off: "rt_tick (upd_obj t f u) = rt_tick u" for f and u :: "'a soft_state_scheme" by (simp add: upd_obj_def)
  have "rt_tick s - timeout_tick (timers s t) < RT_TICK_HALF" using assms by (simp add: expired_def)
  then show ?thesis
    by (subst soft_check_loop.simps)
       (auto simp: soft_fire_def rt_tick_get_def Let_def start off split: bind_splits)
qed

text \<open>The loop, from the node of the first timer that is expired.\<close>

lemma soft_check_loop_ok:
  assumes "soft_ok s" "periods_ok s" "stat (threads s (timer_thread s)) = THREAD_READY" "quiet_timeouts dispatch"
    and "filter (expired s) (soft_timers s) = es"
    and "\<And>t ts. es = t # ts \<Longrightarrow> n = Some t" "es = [] \<Longrightarrow> n = None \<or> (\<exists>u. n = Some u \<and> \<not> expired s u)"
  shows "\<exists>s'. soft_check_loop dispatch n (rt_tick s) s = Some s' \<and> soft_fire_all dispatch es s = Some s' \<and> soft_ok s'
    \<and> rt_tick s' = rt_tick s \<and> (\<forall>t \<in> set (soft_timers s'). \<not> expired s' t)
    \<and> set (soft_timers s') = {t \<in> set (soft_timers s). \<not> expired s t \<or> is_periodic s t}"
  using assms
proof (induction es arbitrary: s n)
  case Nil
  have no: "\<forall>t \<in> set (soft_timers s). \<not> expired s t" using Nil.prems(5) by (simp add: filter_empty_conv)
  have "soft_check_loop dispatch n (rt_tick s) s = Some s"
    using Nil.prems(7) by (subst soft_check_loop.simps) (auto simp: expired_def split: option.splits)
  then show ?case using no Nil.prems(1) by auto
next
  case (Cons t es)
  note S = soft_okD[OF Cons.prems(1)]
  obtain ts where L: "soft_timers s = t # ts" "ts = es @ filter (\<lambda>t. \<not> expired s t) (soft_timers s)"
    using expired_first[OF S(2)] Cons.prems(5) by (metis append_Cons expired_soft soft_fields(1))
  have "t \<in> set (filter (expired s) (soft_timers s))" using Cons.prems(5) by simp
  then have et: "expired s t" by simp
  have tn: "t \<notin> set ts" and d: "distinct ([] @ t # ts)" using S(6) L(1) by simp_all
  have fes: "filter (expired s) ts = es" using Cons.prems(5) L(1) et by simp
  obtain s1 where s1: "soft_fire dispatch t s = Some s1" "soft_ok s1" "periods_ok s1" "stat (threads s1 (timer_thread s1)) = THREAD_READY"
    "rt_tick s1 = rt_tick s" "filter (expired s1) (soft_timers s1) = es" "set (soft_timers s1) = set ts \<union> (if is_periodic s t then {t} else {})"
    "\<forall>p \<in> set (soft_timers s). is_periodic s1 p = is_periodic s p" "\<forall>p \<in> set ts. timers s1 p = timers s p"
    using soft_fire_ok[OF Cons.prems(1,2,3,4) L(1) et] fes by auto
  have ex: "expired s1 p = expired s p" if "p \<in> set ts" for p using s1(5,9) that by (simp add: expired_def)
  define m where "m = next_node (soft_timers s) t"
  have m: "m = (case ts of [] \<Rightarrow> None | u # _ \<Rightarrow> Some u)" using next_node_list[OF d] by (simp add: m_def L(1))
  have m1: "m = Some u" if "es = u # us" for u us using L(2) that by (simp add: m)
  have m2: "m = None \<or> (\<exists>u. m = Some u \<and> \<not> expired s1 u)" if "es = []"
    using that fes ex by (cases ts) (auto simp: m filter_empty_conv)
  obtain s' where s': "soft_check_loop dispatch m (rt_tick s1) s1 = Some s'" "soft_fire_all dispatch es s1 = Some s'" "soft_ok s'"
    "rt_tick s' = rt_tick s1" "\<forall>t \<in> set (soft_timers s'). \<not> expired s' t"
    "set (soft_timers s') = {t \<in> set (soft_timers s1). \<not> expired s1 t \<or> is_periodic s1 t}"
    using Cons.IH[OF s1(2,3,4) Cons.prems(4) s1(6), of m] m1 m2 by blast
  have "soft_check_loop dispatch n (rt_tick s) s = Some s'"
    using Cons.prems(6)[OF refl] soft_check_loop_fire[OF et, of dispatch] s1(1) s'(1) by (simp add: m_def)
  moreover have "set (soft_timers s') = {t \<in> set (soft_timers s). \<not> expired s t \<or> is_periodic s t}"
    using s'(6) s1(7,8) ex et tn L(1) by (auto split: if_splits)
  ultimately show ?case using s' s1(1,5) by simp
qed

subsection \<open>The timer thread and the kernel\<close>

lemma kframe_soft:
  fixes s s' :: "'a soft_state_scheme"
  assumes "kframe s s'"
  shows "rt_soft_timer_list s' = rt_soft_timer_list s" "timer_thread s' = timer_thread s"
proof -
  have "rt_soft_timer_list (kernel_as s s') = rt_soft_timer_list s'" "timer_thread (kernel_as s s') = timer_thread s'"
    by (simp_all add: kernel_as_def)
  then show "rt_soft_timer_list s' = rt_soft_timer_list s" "timer_thread s' = timer_thread s"
    using assms unfolding kframe_def by simp_all
qed

lemma insert_running:
  assumes r: "running s u" and p: "\<forall>v. p \<noteq> ThreadTimer v" and i: "timer_inv s'"
    and s': "s' = s\<lparr>objs := (objs s)(p := ob), timers := (timers s)(p := tm), rt_soft_timer_list := rows, random_nr := m\<rparr>"
  shows "running s' u"
proof -
  have "active_timers s' = active_timers s" by (simp add: s' active_timers_def)
  then have "kinv s'" using runningD(1)[OF r] p i by (auto simp: kinv_def sched_inv_def thread_timers_def s')
  then show ?thesis using r by (simp add: running_def ready_def s')
qed

lemma start_soft_wakes:
  assumes r: "running s u" and ok: "soft_ok s" and p: "\<forall>v. p \<noteq> ThreadTimer v" "o_flag (objs s p) AND TIMER_SOFT \<noteq> 0"
    "o_flag (objs s p) AND TIMER_ACTIVATED = 0" and init: "timer_init_tick (timers s p) < RT_TICK_HALF"
    and tt: "stat (threads s (timer_thread s)) = THREAD_SUSPEND"
  shows "\<exists>s' v. rt_timer_start_soft p s = Some (RT_EOK, s') \<and> running s' v \<and> ready s' (timer_thread s)
    \<and> current_priority (threads s' v) \<le> current_priority (threads s' (timer_thread s))
    \<and> soft_timers s' = timer_insert (\<lambda>t. unat (timer_init_tick (timers s p)) + 1 < tkey (rt_tick s - 1) s t) p (soft_timers s)"
proof -
  let ?t = "timer_thread s"
  obtain rows s1 where s1: "rt_timer_start p (soft s) = Some (RT_EOK, soft s1)" "soft_ok s1"
    "s1 = s\<lparr>objs := (objs s)(p := (objs s p)\<lparr>o_flag := o_flag (objs s p) OR TIMER_ACTIVATED\<rparr>),
        timers := (timers s)(p := (timers s p)\<lparr>timeout_tick := rt_tick s + timer_init_tick (timers s p)\<rparr>),
        rt_soft_timer_list := rows, random_nr := random_nr s + 1\<rparr>"
    "soft_timers s1 = timer_insert (\<lambda>t. unat (timer_init_tick (timers s p)) + 1 < tkey (rt_tick s - 1) s t) p (soft_timers s)"
    using soft_insert_ok[OF ok p(2,3) init] by blast
  have r1: "running s1 u" by (rule insert_running[OF r p(1) soft_okD(1)[OF s1(2)] s1(3)])
  have t1: "stat (threads s1 ?t) = THREAD_SUSPEND" "timer_thread s1 = ?t" using tt by (simp_all add: s1(3))
  define s2 where "s2 = snd (rt_thread_resume ?t s1)"
  note E = rt_thread_resume_effect[OF t1(1), folded s2_def]
  have k2: "kframe s1 s2" unfolding s2_def by (rule resume_kframe)
  have r2: "running s2 u"
    using r1 runningD(3)[OF r1] resume_kinv[OF runningD(1)[OF r1], of ?t] runningD(2)[OF r1] E(2,5)
    by (intro running_kframe[OF r1 _ k2]) (auto simp: s2_def[symmetric] ready_def)
  obtain s' v where s': "rt_schedule s2 = Some s'" "kframe s2 s'" "threads s' = threads s2" "running s' v"
    "\<forall>w. ready s2 w \<longrightarrow> current_priority (threads s2 v) \<le> current_priority (threads s2 w)"
    using running_schedule[OF r2] by blast
  have "ready s2 ?t" by (simp add: ready_def E(2))
  moreover have "rt_timer_start_soft p s = Some (RT_EOK, s')"
    using p(2) s1(1) t1 s'(1) by (simp add: rt_timer_start_soft_def Let_def s2_def)
  moreover have "soft_timers s' = soft_timers s1" using kframe_soft[OF k2] kframe_soft[OF s'(2)] by (simp add: soft_timers_def)
  ultimately show ?thesis using s'(3,4,5) s1(4) by (intro exI[of _ s'] exI[of _ v]) (simp add: ready_def)
qed

subsection \<open>A timer that is stopped while the check points to it\<close>

definition stops :: "ptr \<Rightarrow> timeout_fn \<Rightarrow> nat \<Rightarrow> 'a soft_state_scheme \<Rightarrow> 'a soft_state_scheme option" where
  "stops u f a s = Some (snd (rt_timer_stop_soft u s))"

definition stale :: "ptr \<Rightarrow> 'a soft_state_scheme \<Rightarrow> bool" where
  "stale u s \<longleftrightarrow> (\<forall>row \<in> set (rt_soft_timer_list s). u \<notin> set row) \<and> rt_soft_timer_list s \<noteq> [] \<and> expired s u"

lemma stop_soft_fields:
  "timers (snd (rt_timer_stop_soft u s)) = timers s" "rt_tick (snd (rt_timer_stop_soft u s)) = rt_tick s"
  "o_flag (objs (snd (rt_timer_stop_soft u s)) u) AND TIMER_ACTIVATED = 0"
  "o_flag (objs (snd (rt_timer_stop_soft u s)) p) AND TIMER_PERIODIC = o_flag (objs s p) AND TIMER_PERIODIC"
  by (simp_all add: rt_timer_stop_soft_def upd_obj_def)

lemma stale_round:
  assumes "stale u s"
  defines "s' \<equiv> upd_obj u (\<lambda>ob. ob\<lparr>o_flag := o_flag ob AND NOT TIMER_ACTIVATED\<rparr>) (snd (rt_timer_stop_soft u (rt_timer_remove_soft u s)))"
  shows "stale u s'" "rt_tick s' = rt_tick s" "next_node (soft_timers s) u = Some u"
proof -
  have "rt_soft_timer_list s' = map (removeAll u) (rt_soft_timer_list s)"
    by (simp add: s'_def upd_obj_def rt_timer_stop_soft_def rt_timer_remove_soft_def)
  moreover have "timers s' = timers s" "rt_tick s' = rt_tick s" by (simp_all add: s'_def upd_obj_def stop_soft_fields)
  ultimately show "stale u s'" "rt_tick s' = rt_tick s" using assms(1) by (auto simp: stale_def expired_def)
  show "next_node (soft_timers s) u = Some u" using assms(1) by (intro next_node_stale) (simp add: stale_def soft_timers_def)
qed

lemma stale_no_result:
  assumes "soft_check_loop dispatch n k s = Some y"
  shows "dispatch = stops u \<longrightarrow> n = Some u \<longrightarrow> k = rt_tick s \<longrightarrow> \<not> stale u s"
proof (rule soft_check_loop.raw_induct[where P = "\<lambda>dispatch n k s y. dispatch = stops u \<longrightarrow> n = Some u \<longrightarrow> k = rt_tick s \<longrightarrow> \<not> stale u s",
      OF _ assms], goal_cases)
  case (1 loop dispatch n k s y)
  show ?case
  proof (intro impI notI)
    assume d: "dispatch = stops u" "n = Some u" "k = rt_tick s" and z: "stale u s"
    note R = stale_round[OF z]
    have "rt_tick s - timeout_tick (timers s u) < RT_TICK_HALF" using z by (simp add: stale_def expired_def)
    then have "loop dispatch (Some u) (rt_tick s)
      (upd_obj u (\<lambda>ob. ob\<lparr>o_flag := o_flag ob AND NOT TIMER_ACTIVATED\<rparr>) (snd (rt_timer_stop_soft u (rt_timer_remove_soft u s)))) = Some y"
      using 1(2) R(3) by (simp add: d stops_def Let_def stop_soft_fields rt_tick_get_def)
    from 1(1)[OF this] R(1,2) d(1) show False by simp
  qed
qed

subsection \<open>Properties\<close>

text \<open>C24: When the timeout functions leave the soft timers alone and no periodic timer has period 0,
  \<^verbatim>\<open>rt_soft_timer_check\<close> returns: the timers that were expired fire in the order of the list, each once,
  and afterwards the list holds no expired timer, all timers that were not expired, and the
  periodic ones that fired. The pointer the loop keeps to the next node makes no difference then.\<close>

theorem rt_soft_timer_check_correct:
  assumes "soft_ok s" "periods_ok s" "stat (threads s (timer_thread s)) = THREAD_READY" "quiet_timeouts dispatch"
  shows "\<exists>s'. rt_soft_timer_check dispatch s = Some s'
    \<and> soft_fire_all dispatch (filter (expired s) (soft_timers s)) s = Some s' \<and> soft_ok s' \<and> rt_tick s' = rt_tick s
    \<and> (\<forall>t \<in> set (soft_timers s'). \<not> expired s' t)
    \<and> set (soft_timers s') = {t \<in> set (soft_timers s). \<not> expired s t \<or> is_periodic s t}"
proof -
  let ?n = "case soft_timers s of [] \<Rightarrow> None | t # _ \<Rightarrow> Some t" and ?es = "filter (expired s) (soft_timers s)"
  have L: "soft_timers s = ?es @ filter (\<lambda>t. \<not> expired s t) (soft_timers s)"
    using expired_first[OF soft_okD(2)[OF assms(1)]] by simp
  have 1: "?n = Some t" if "?es = t # ts" for t ts
  proof -
    have "soft_timers s = t # ts @ filter (\<lambda>t. \<not> expired s t) (soft_timers s)" using L that by simp
    then show ?thesis by (metis list.simps(5))
  qed
  have 2: "?n = None \<or> (\<exists>u. ?n = Some u \<and> \<not> expired s u)" if "?es = []"
    using that by (cases "soft_timers s") (auto simp: filter_empty_conv)
  show ?thesis using soft_check_loop_ok[OF assms refl, of ?n] 1 2 by (simp add: rt_soft_timer_check_def rt_tick_get_def)
qed

text \<open>C40: When the timeout function of a one-shot timer stops the timer behind it in the list, and that one
  is expired as well, \<^verbatim>\<open>rt_soft_timer_check\<close> never returns: the node the loop goes on with points to
  itself, and the stopped timer fires over and over.\<close>

theorem soft_timer_stopping_next_hangs_check:
  assumes "rt_soft_timer_list s \<noteq> []" "soft_timers s = t # u # us" "t \<noteq> u" "expired s t" "expired s u"
    and "o_flag (objs s t) AND TIMER_PERIODIC = 0" "o_flag (objs s u) AND TIMER_ACTIVATED \<noteq> 0"
  shows "rt_soft_timer_check (stops u) s = None"
proof -
  define s1 where "s1 = snd (rt_timer_stop_soft u (rt_timer_remove_soft t s))"
  define s2 where "s2 = upd_obj t (\<lambda>ob. ob\<lparr>o_flag := o_flag ob AND NOT TIMER_ACTIVATED\<rparr>) s1"
  have "rt_soft_timer_list s2 = map (removeAll u) (map (removeAll t) (rt_soft_timer_list s))"
    using assms(7) by (simp add: s2_def s1_def upd_obj_def rt_timer_stop_soft_def) (simp add: rt_timer_remove_soft_def)
  moreover have "timers s2 = timers s" "rt_tick s2 = rt_tick s" by (simp_all add: s2_def s1_def upd_obj_def stop_soft_fields)
  ultimately have st: "stale u s2" "rt_tick s2 = rt_tick s" using assms(1,5) by (auto simp: stale_def expired_def)
  have "rt_soft_timer_check (stops u) s = soft_check_loop (stops u) (Some u) (rt_tick s) s2"
    using assms(2,4,6)
    by (simp add: rt_soft_timer_check_def rt_tick_get_def expired_def, subst soft_check_loop.simps)
       (simp add: next_node_def stops_def Let_def s2_def s1_def stop_soft_fields rt_tick_get_def)
  then show ?thesis using stale_no_result[of "stops u" "Some u" "rt_tick s" s2 _ u] st
    by (cases "soft_check_loop (stops u) (Some u) (rt_tick s) s2") auto
qed

text \<open>Starting a soft timer puts it into the soft list behind the timers that expire no later and
  before those that expire later, and makes the timer thread ready when it was suspended; the
  thread that runs afterwards has at least the priority of the timer thread.\<close>

theorem rt_timer_start_soft_correct:
  assumes "running s u" "soft_ok s" "\<forall>v. p \<noteq> ThreadTimer v" "o_flag (objs s p) AND TIMER_SOFT \<noteq> 0"
    "o_flag (objs s p) AND TIMER_ACTIVATED = 0" "timer_init_tick (timers s p) < RT_TICK_HALF" "stat (threads s (timer_thread s)) = THREAD_SUSPEND"
  shows "\<exists>s' v. rt_timer_start_soft p s = Some (RT_EOK, s') \<and> running s' v \<and> ready s' (timer_thread s)
    \<and> current_priority (threads s' v) \<le> current_priority (threads s' (timer_thread s))
    \<and> (let due = (\<lambda>t. tkey (rt_tick s - 1) s t); n = unat (timer_init_tick (timers s p)) + 1 in
       soft_timers s' = filter (\<lambda>t. due t \<le> n) (soft_timers s) @ p # filter (\<lambda>t. n < due t) (soft_timers s))"
  using start_soft_wakes[OF assms] by (fastforce simp: timer_insert_def not_less Let_def)

text \<open>The timer thread sleeps exactly until the first soft timer is due: it stays suspended up to the
  tick before, and the tick interrupt at that time makes it ready for its check.\<close>

theorem timer_thread_sleeps_until_next:
  assumes "tick_inv s" "timers_pending s" "rt_scheduler_lock_nest s = 0" "rt_current_thread s = Some t" "ready s t" "ready s idle" "idle \<noteq> t"
    and "soft_timers s = p # ps" "timeout_tick (timers s p) \<noteq> RT_TICK_MAX"
  defines "n \<equiv> timeout_tick (timers s p) - rt_tick s"
  assumes "0 < n" "n < RT_TICK_HALF"
  shows "\<exists>s'. timer_entry_sleep s = Some (Wait t, s')
    \<and> (\<forall>m<unat n. \<exists>v. ticks user m s' = Some v \<and> stat (threads v t) = THREAD_SUSPEND)
    \<and> (\<exists>v. ticks user (unat n) s' = Some v \<and> tick_inv v \<and> ready v t)"
proof -
  have "timer_entry_sleep s = rt_thread_sleep n s"
    using assms(8,9,12) by (simp add: timer_entry_sleep_def soft_next_timeout_def rt_timer_next_timeout_tick_def n_def rt_tick_get_def
      rt_thread_delay_def)
  then show ?thesis using sleep_wakes[OF assms(1-7,11,12)] by simp
qed

subsection \<open>Witnesses\<close>

text \<open>Two soft timers that expire now, the first of them periodic, and a third later.\<close>

definition demo_soft :: "rt_uint8_t \<Rightarrow> soft_state" where
  "demo_soft f = (demo_kernel \<lparr>rt_soft_timer_list = [[At 5, At 6, At 7]], timer_thread = 1\<rparr>)\<lparr>rt_tick := 10,
     objs := (\<lambda>p. (demo_obj p)\<lparr>o_flag := if p = At 5 then f else 5\<rparr>),
     timers := (\<lambda>p. (demo_timer p)\<lparr>timer_init_tick := 3, timeout_tick := if p = At 7 then 11 else 10\<rparr>)\<rparr>"

lemma demo_soft_facts:
  "soft_timers (demo_soft f) = [At 5, At 6, At 7]" "rt_soft_timer_list (demo_soft f) = [[At 5, At 6, At 7]]" "rt_timer_list (demo_soft f) = [[]]"
  "rt_tick (demo_soft f) = 10" "o_flag (objs (demo_soft f) p) = (if p = At 5 then f else 5)"
  "timeout_tick (timers (demo_soft f) p) = (if p = At 7 then 11 else 10)" "timer_init_tick (timers (demo_soft f) p) = 3"
  "expired (demo_soft f) p \<longleftrightarrow> p \<noteq> At 7" "stat (threads (demo_soft f) (timer_thread (demo_soft f))) = THREAD_READY"
  by (simp_all add: demo_soft_def soft_timers_def expired_def demo_kernel_def sched_state.defs demo_sched_def demo_threads_def demo_thread_def)

lemma demo_soft_ok: "soft_ok (demo_soft 7)"
  by (simp add: soft_ok_def timer_inv_def rows_ok_def demo_soft_facts tkey_def) (simp add: active_timers_def demo_soft_facts)

lemma quiet_nothing: "quiet_timeouts (\<lambda>_ _ s. Some s)"
  by (simp add: quiet_timeouts_def soft_frame_def)

theorem rt_soft_timer_check_correct_witness:
  "\<exists>s'. rt_soft_timer_check (\<lambda>_ _ s. Some s) (demo_soft 7) = Some s' \<and> set (soft_timers s') = {At 5, At 7}"
proof -
  have "periods_ok (demo_soft 7)" by (simp add: periods_ok_def demo_soft_facts)
  then show ?thesis using rt_soft_timer_check_correct[OF demo_soft_ok _ demo_soft_facts(9) quiet_nothing]
    by (fastforce simp: demo_soft_facts is_periodic_def)
qed

theorem soft_timer_stopping_next_hangs_check_witness:
  "rt_soft_timer_check (stops (At 6)) (demo_soft 5) = None"
  by (rule soft_timer_stopping_next_hangs_check[where t = "At 5" and us = "[At 7]"]) (simp_all add: demo_soft_facts)

text \<open>Thread 1 runs, and thread 2 is the timer thread and suspended.\<close>

definition demo_soft_idle :: soft_state where
  "demo_soft_idle = snd (rt_thread_suspend 2 ((demo_kernel \<lparr>rt_soft_timer_list = [[]], timer_thread = 2\<rparr>)\<lparr>
     objs := demo_obj(At 5 := (demo_obj (At 5))\<lparr>o_flag := TIMER_SOFT\<rparr>),
     timers := demo_timer(At 5 := (demo_timer (At 5))\<lparr>timer_init_tick := 3\<rparr>), rt_soft_timer_list := [[]], random_nr := 0\<rparr>))"

lemma demo_soft_idle_facts:
  "running demo_soft_idle 1" "soft_ok demo_soft_idle" "soft_timers demo_soft_idle = []" "timer_thread demo_soft_idle = 2"
  "stat (threads demo_soft_idle 2) = THREAD_SUSPEND" "o_flag (objs demo_soft_idle (At 5)) = TIMER_SOFT"
  "timer_init_tick (timers demo_soft_idle (At 5)) = 3"
proof -
  let ?k = "demo_kernel \<lparr>rt_soft_timer_list = [[]], timer_thread = 2\<rparr> :: soft_state"
  let ?s = "?k\<lparr>objs := demo_obj(At 5 := (demo_obj (At 5))\<lparr>o_flag := TIMER_SOFT\<rparr>),
     timers := demo_timer(At 5 := (demo_timer (At 5))\<lparr>timer_init_tick := 3\<rparr>), rt_soft_timer_list := [[]], random_nr := 0\<rparr>"
  have "timer_inv ?s" by (simp add: timer_inv_def rows_ok_def active_timers_def)
  then have r: "running ?s 1" by (intro insert_running[OF demo_kernel_running(1)[of "\<lparr>rt_soft_timer_list = [[]], timer_thread = 2\<rparr>"]]) simp_all
  have st: "stat (threads ?s 2) = THREAD_READY" by (simp add: demo_threads_def demo_thread_def)
  then have e: "demo_soft_idle = rt_schedule_remove_thread 2 (upd_thread 2 (\<lambda>th. th\<lparr>stat := THREAD_SUSPEND\<rparr>) ?s)"
    by (simp add: demo_soft_idle_def rt_thread_suspend_def)
  have k: "kinv demo_soft_idle" unfolding demo_soft_idle_def by (rule suspend_kinv[OF runningD(1)[OF r]])
  have f: "threads demo_soft_idle = demo_threads(2 := (demo_threads 2)\<lparr>stat := THREAD_SUSPEND\<rparr>)" "rt_timer_list demo_soft_idle = [[]]"
    "rt_soft_timer_list demo_soft_idle = [[]]" "rt_current_thread demo_soft_idle = Some 1" "rt_scheduler_lock_nest demo_soft_idle = 0"
    "rt_interrupt_nest demo_soft_idle = 0"
    by (simp_all add: e remove_thread_eq upd_thread_def)
  show "timer_thread demo_soft_idle = 2" "o_flag (objs demo_soft_idle (At 5)) = TIMER_SOFT" "timer_init_tick (timers demo_soft_idle (At 5)) = 3"
    by (simp_all add: e remove_thread_eq upd_thread_def) (simp add: demo_kernel_def sched_state.defs)
  show "soft_timers demo_soft_idle = []" by (simp add: soft_timers_def f)
  show "stat (threads demo_soft_idle 2) = THREAD_SUSPEND" by (simp add: f)
  show "running demo_soft_idle 1" using k runningD(3,7)[OF r] by (auto simp: running_def f ready_def stack_ok_def)
  show "soft_ok demo_soft_idle"
    by (simp add: soft_ok_def timer_inv_def rows_ok_def f soft_timers_def) (simp add: active_timers_def f)
qed

theorem rt_timer_start_soft_correct_witness:
  "\<exists>s' v. rt_timer_start_soft (At 5) demo_soft_idle = Some (RT_EOK, s') \<and> running s' v \<and> ready s' 2 \<and> soft_timers s' = [At 5]"
  using rt_timer_start_soft_correct[OF demo_soft_idle_facts(1,2), of "At 5"] demo_soft_idle_facts by (auto simp: Let_def)

lemma demo_soft_due:
  fixes s :: soft_state
  defines "s \<equiv> (demo_kernel \<lparr>rt_soft_timer_list = [[At 5]], timer_thread = 1\<rparr>)\<lparr>objs := demo_obj,
     timers := demo_timer(At 5 := (demo_timer (At 5))\<lparr>timeout_tick := 4\<rparr>), rt_soft_timer_list := [[At 5]], random_nr := 0\<rparr>"
  shows "tick_inv s" "timers_pending s" "rt_scheduler_lock_nest s = 0" "rt_current_thread s = Some 1" "ready s 1" "ready s 2"
    "soft_timers s = [At 5]" "timeout_tick (timers s (At 5)) = 4" "rt_tick s = 0"
proof -
  have "timer_inv s" by (simp add: s_def timer_inv_def rows_ok_def active_timers_def)
  then have r: "running s 1"
    by (intro insert_running[OF demo_kernel_running(1)[of "\<lparr>rt_soft_timer_list = [[At 5]], timer_thread = 1\<rparr>"], where p = "At 5" and ob = "demo_obj (At 5)"])
       (simp_all add: s_def)
  then show "tick_inv s" by (simp add: tick_inv_def only_thread_timers_def running_def s_def) (simp add: active_timers_def)
  show "timers_pending s" by (simp add: timers_pending_def s_def) (simp add: active_timers_def)
  show "ready s 2" by (simp add: ready_def s_def demo_threads_def demo_thread_def)
  show "rt_scheduler_lock_nest s = 0" "rt_current_thread s = Some 1" "ready s 1" using r by (simp_all add: running_def)
  show "soft_timers s = [At 5]" "timeout_tick (timers s (At 5)) = 4" "rt_tick s = 0"
    by (simp_all add: s_def soft_timers_def) (simp add: demo_kernel_def sched_state.defs demo_sched_def)
qed

theorem timer_thread_sleeps_until_next_witness:
  "\<exists>s s' :: soft_state. soft_timers s = [At 5] \<and> timeout_tick (timers s (At 5)) = rt_tick s + 4 \<and> timer_entry_sleep s = Some (Wait 1, s')
    \<and> (\<exists>v. ticks (\<lambda>_ _ s. Some s) 4 s' = Some v \<and> ready v 1)"
  using timer_thread_sleeps_until_next[OF demo_soft_due(1-6) _ demo_soft_due(7), of "\<lambda>_ _ s. Some s"] demo_soft_due(7-9)
  by auto

end
