(* ===== verification/Device.thy ===== *)
theory Device
  imports Ipc
begin

text \<open>
  The device layer, \<^verbatim>\<open>src/device.c\<close>: registration by name, initialisation on first use, a count of
  the openings, and calls into the driver through the function pointers of \<^verbatim>\<open>struct rt_device\<close>. A
  function pointer is a number; what the code at a pointer does is given by a \<open>driver\<close>, an argument
  of the operations. A driver may put the caller to sleep in a read or a write. The bytes at the
  \<^verbatim>\<open>buffer\<close> of a read or write are a list. The messages printed when an initialisation fails are
  not represented.
\<close>

subsection \<open>Devices and drivers\<close>

datatype device_class =
  Class_Char | Class_Block | Class_NetIf | Class_MTD | Class_CAN | Class_RTC | Class_Sound | Class_Graphic
| Class_I2CBUS | Class_USBDevice | Class_USBHost | Class_SPIBUS | Class_SPIDevice | Class_SDIO | Class_PM
| Class_Pipe | Class_Portal | Class_Miscellaneous | Class_NoDevice

abbreviation (input) FLAG_RDWR :: rt_uint16_t where "FLAG_RDWR \<equiv> 3"
abbreviation (input) FLAG_STANDALONE :: rt_uint16_t where "FLAG_STANDALONE \<equiv> 8"
abbreviation (input) FLAG_ACTIVATED :: rt_uint16_t where "FLAG_ACTIVATED \<equiv> 16"
abbreviation (input) FLAG_STREAM :: rt_uint16_t where "FLAG_STREAM \<equiv> 64"
abbreviation (input) OFLAG_CLOSE :: rt_uint16_t where "OFLAG_CLOSE \<equiv> 0"
abbreviation (input) OFLAG_RDONLY :: rt_uint16_t where "OFLAG_RDONLY \<equiv> 1"
abbreviation (input) OFLAG_WRONLY :: rt_uint16_t where "OFLAG_WRONLY \<equiv> 2"
abbreviation (input) OFLAG_RDWR :: rt_uint16_t where "OFLAG_RDWR \<equiv> 3"
abbreviation (input) OFLAG_OPEN :: rt_uint16_t where "OFLAG_OPEN \<equiv> 8"

type_synonym fn_ptr = "nat option"

record rt_device =
  dev_type :: device_class
  dev_flag :: rt_uint16_t
  dev_open_flag :: rt_uint16_t
  dev_ref_count :: rt_uint8_t
  dev_device_id :: rt_uint8_t
  dev_rx_indicate :: fn_ptr
  dev_tx_complete :: fn_ptr
  dev_init :: fn_ptr
  dev_open :: fn_ptr
  dev_close :: fn_ptr
  dev_read :: fn_ptr
  dev_write :: fn_ptr
  dev_control :: fn_ptr
  dev_user_data :: nat

record dev_state = sched_state +
  devs :: "nat \<Rightarrow> rt_device"

definition upd_dev :: "nat \<Rightarrow> (rt_device \<Rightarrow> rt_device) \<Rightarrow> 'a dev_state_scheme \<Rightarrow> 'a dev_state_scheme" where
  "upd_dev a f s = s\<lparr>devs := (devs s)(a := f (devs s a))\<rparr>"

text \<open>The code behind the pointers: the first argument is the pointer, the second the device. A read
  gives the number it returns and the bytes it stored.\<close>

type_synonym 's dev_call = "nat \<Rightarrow> nat \<Rightarrow> 's \<Rightarrow> (rt_err_t \<times> 's) option"
type_synonym read_result = "rt_uint32_t \<times> 8 word list"

record ('s, 'w) driver =
  call_init :: "'s dev_call"
  call_open :: "nat \<Rightarrow> nat \<Rightarrow> rt_uint16_t \<Rightarrow> 's \<Rightarrow> (rt_err_t \<times> 's) option"
  call_close :: "'s dev_call"
  call_read :: "nat \<Rightarrow> nat \<Rightarrow> int \<Rightarrow> rt_uint32_t \<Rightarrow> 's \<Rightarrow> ((read_result, 'w) outcome \<times> 's) option"
  call_write :: "nat \<Rightarrow> nat \<Rightarrow> int \<Rightarrow> 8 word list \<Rightarrow> rt_uint32_t \<Rightarrow> 's \<Rightarrow> ((rt_uint32_t, 'w) outcome \<times> 's) option"
  call_control :: "nat \<Rightarrow> nat \<Rightarrow> rt_uint8_t \<Rightarrow> nat \<Rightarrow> 's \<Rightarrow> (rt_err_t \<times> 's) option"

subsection \<open>Registration\<close>

definition rt_device_find :: "8 word list \<Rightarrow> 'a sched_state_scheme \<Rightarrow> (ptr option \<times> 'a sched_state_scheme) option" where
  "rt_device_find name s =
     do { let s = (if rt_thread_self s \<noteq> None then rt_enter_critical s else s);
          r \<leftarrow> find_by_name name (object_list s Class_Device) (objs s);
          s \<leftarrow> (if rt_thread_self s \<noteq> None then rt_exit_critical s else Some s);
          Some (r, s) }"

definition rt_device_register :: "nat option \<Rightarrow> 8 word list \<Rightarrow> rt_uint16_t \<Rightarrow> 'a dev_state_scheme
    \<Rightarrow> (rt_err_t \<times> 'a dev_state_scheme) option" where
  "rt_device_register dev name flags s =
     (case dev of
        None \<Rightarrow> Some (- RT_ERROR, s)
      | Some dev \<Rightarrow>
          do { (r, s) \<leftarrow> rt_device_find name s;
               if r \<noteq> None then Some (- RT_ERROR, s)
               else do { s \<leftarrow> rt_object_init (At dev) Class_Device name s;
                         Some (RT_EOK, upd_dev dev (\<lambda>d. d\<lparr>dev_flag := flags, dev_ref_count := 0\<rparr>) s) } })"

definition rt_device_unregister :: "nat \<Rightarrow> 'a dev_state_scheme \<Rightarrow> rt_err_t \<times> 'a dev_state_scheme" where
  "rt_device_unregister dev s = (RT_EOK, rt_object_detach (At dev) s)"

subsection \<open>Initialisation\<close>

definition rt_device_init :: "('a dev_state_scheme, 'w) driver \<Rightarrow> nat \<Rightarrow> 'a dev_state_scheme
    \<Rightarrow> (rt_err_t \<times> 'a dev_state_scheme) option" where
  "rt_device_init drv dev s =
     (case dev_init (devs s dev) of
        None \<Rightarrow> Some (RT_EOK, s)
      | Some f \<Rightarrow>
          if dev_flag (devs s dev) AND FLAG_ACTIVATED = 0 then
            do { (r, s) \<leftarrow> call_init drv f dev s;
                 Some (r, if r \<noteq> RT_EOK then s else upd_dev dev (\<lambda>d. d\<lparr>dev_flag := dev_flag d OR FLAG_ACTIVATED\<rparr>) s) }
          else Some (RT_EOK, s))"

text \<open>The walk over the list of devices reads the link of a device after its driver was called: \<open>None\<close>
  when the device is no longer in the list (its link then leads to itself).\<close>

fun next_after :: "ptr \<Rightarrow> ptr list \<Rightarrow> ptr option option" where
  "next_after p [] = None"
| "next_after p (q # qs) = (if q = p then Some (case qs of [] \<Rightarrow> None | r # _ \<Rightarrow> Some r) else next_after p qs)"

partial_function (option) init_from :: "('a dev_state_scheme, 'w) driver \<Rightarrow> ptr option \<Rightarrow> 'a dev_state_scheme
    \<Rightarrow> 'a dev_state_scheme option" where
  "init_from drv node s =
     (case node of
        None \<Rightarrow> Some s
      | Some (ThreadTimer _) \<Rightarrow> None
      | Some (At dev) \<Rightarrow>
          do { (r, s) \<leftarrow> rt_device_init drv dev s;
               node \<leftarrow> next_after (At dev) (object_list s Class_Device);
               init_from drv node s })"

definition rt_device_init_all :: "('a dev_state_scheme, 'w) driver \<Rightarrow> 'a dev_state_scheme
    \<Rightarrow> (rt_err_t \<times> 'a dev_state_scheme) option" where
  "rt_device_init_all drv s =
     do { s \<leftarrow> init_from drv (case object_list s Class_Device of [] \<Rightarrow> None | p # _ \<Rightarrow> Some p) s;
          Some (RT_EOK, s) }"

subsection \<open>Open, close, and the calls into the driver\<close>

definition rt_device_open :: "('a dev_state_scheme, 'w) driver \<Rightarrow> nat \<Rightarrow> rt_uint16_t \<Rightarrow> 'a dev_state_scheme
    \<Rightarrow> (rt_err_t \<times> 'a dev_state_scheme) option" where
  "rt_device_open drv dev oflag s =
     do { (r, s) \<leftarrow>
            (if dev_flag (devs s dev) AND FLAG_ACTIVATED = 0 then
               do { (r, s) \<leftarrow> (case dev_init (devs s dev) of None \<Rightarrow> Some (RT_EOK, s) | Some f \<Rightarrow> call_init drv f dev s);
                    Some (r, if r \<noteq> RT_EOK then s else upd_dev dev (\<lambda>d. d\<lparr>dev_flag := dev_flag d OR FLAG_ACTIVATED\<rparr>) s) }
             else Some (RT_EOK, s));
          if r \<noteq> RT_EOK then Some (r, s)
          else if dev_flag (devs s dev) AND FLAG_STANDALONE \<noteq> 0 \<and> dev_open_flag (devs s dev) AND OFLAG_OPEN \<noteq> 0
          then Some (- RT_EBUSY, s)
          else
            do { let s = upd_dev dev (\<lambda>d. d\<lparr>dev_ref_count := dev_ref_count d + 1\<rparr>) s;
                 s \<leftarrow> RT_ASSERT (dev_ref_count (devs s dev) \<noteq> 0) s;
                 (r, s) \<leftarrow> (case dev_open (devs s dev) of None \<Rightarrow> Some (RT_EOK, s) | Some f \<Rightarrow> call_open drv f dev oflag s);
                 Some (r, if r = RT_EOK \<or> r = - RT_ENOSYS
                          then upd_dev dev (\<lambda>d. d\<lparr>dev_open_flag := oflag OR OFLAG_OPEN\<rparr>) s else s) } }"

definition rt_device_close :: "('a dev_state_scheme, 'w) driver \<Rightarrow> nat \<Rightarrow> 'a dev_state_scheme
    \<Rightarrow> (rt_err_t \<times> 'a dev_state_scheme) option" where
  "rt_device_close drv dev s =
     (if dev_ref_count (devs s dev) = 0 then Some (- RT_ERROR, s)
      else
        let s = upd_dev dev (\<lambda>d. d\<lparr>dev_ref_count := dev_ref_count d - 1\<rparr>) s
        in if dev_ref_count (devs s dev) \<noteq> 0 then Some (RT_EOK, s)
           else
             do { (r, s) \<leftarrow> (case dev_close (devs s dev) of None \<Rightarrow> Some (RT_EOK, s) | Some f \<Rightarrow> call_close drv f dev s);
                  Some (r, if r = RT_EOK \<or> r = - RT_ENOSYS
                           then upd_dev dev (\<lambda>d. d\<lparr>dev_open_flag := OFLAG_CLOSE\<rparr>) s else s) })"

definition rt_device_read :: "('a dev_state_scheme, 'w) driver \<Rightarrow> nat \<Rightarrow> int \<Rightarrow> rt_uint32_t \<Rightarrow> 'a dev_state_scheme
    \<Rightarrow> ((read_result, 'w) outcome \<times> 'a dev_state_scheme) option" where
  "rt_device_read drv dev pos sz s =
     (if dev_ref_count (devs s dev) = 0 then Some (Ret (0, []), rt_set_errno (- RT_ERROR) s)
      else
        case dev_read (devs s dev) of
          Some f \<Rightarrow> call_read drv f dev pos sz s
        | None \<Rightarrow> Some (Ret (0, []), rt_set_errno (- RT_ENOSYS) s))"

definition rt_device_write :: "('a dev_state_scheme, 'w) driver \<Rightarrow> nat \<Rightarrow> int \<Rightarrow> 8 word list \<Rightarrow> rt_uint32_t
    \<Rightarrow> 'a dev_state_scheme \<Rightarrow> ((rt_uint32_t, 'w) outcome \<times> 'a dev_state_scheme) option" where
  "rt_device_write drv dev pos buffer sz s =
     (if dev_ref_count (devs s dev) = 0 then Some (Ret 0, rt_set_errno (- RT_ERROR) s)
      else
        case dev_write (devs s dev) of
          Some f \<Rightarrow> call_write drv f dev pos buffer sz s
        | None \<Rightarrow> Some (Ret 0, rt_set_errno (- RT_ENOSYS) s))"

definition rt_device_control :: "('a dev_state_scheme, 'w) driver \<Rightarrow> nat \<Rightarrow> rt_uint8_t \<Rightarrow> nat \<Rightarrow> 'a dev_state_scheme
    \<Rightarrow> (rt_err_t \<times> 'a dev_state_scheme) option" where
  "rt_device_control drv dev cmd arg s =
     (case dev_control (devs s dev) of Some f \<Rightarrow> call_control drv f dev cmd arg s | None \<Rightarrow> Some (RT_EOK, s))"

definition rt_device_set_rx_indicate :: "nat \<Rightarrow> fn_ptr \<Rightarrow> 'a dev_state_scheme \<Rightarrow> rt_err_t \<times> 'a dev_state_scheme" where
  "rt_device_set_rx_indicate dev rx_ind s = (RT_EOK, upd_dev dev (\<lambda>d. d\<lparr>dev_rx_indicate := rx_ind\<rparr>) s)"

definition rt_device_set_tx_complete :: "nat \<Rightarrow> fn_ptr \<Rightarrow> 'a dev_state_scheme \<Rightarrow> rt_err_t \<times> 'a dev_state_scheme" where
  "rt_device_set_tx_complete dev tx_done s = (RT_EOK, upd_dev dev (\<lambda>d. d\<lparr>dev_tx_complete := tx_done\<rparr>) s)"

interpretation dev_field: kernel_field devs upd_dev
  by unfold_locales (simp_all add: upd_dev_def kernel_as_def)

subsection \<open>The registry is a map from names to devices\<close>

text \<open>The bytes a name takes in the header of an object, and the devices by these bytes.\<close>

definition name_field :: "8 word list \<Rightarrow> 8 word list" where
  "name_field nm = take RT_NAME_MAX (c_string nm @ replicate RT_NAME_MAX 0)"

definition registry :: "'a obj_state_scheme \<Rightarrow> 8 word list \<rightharpoonup> ptr" where
  "registry s k = List.find (\<lambda>p. o_name (objs s p) = k) (object_list s Class_Device)"

definition registry_ok :: "'a obj_state_scheme \<Rightarrow> bool" where
  "registry_ok s \<longleftrightarrow> (\<forall>p \<in> set (object_list s Class_Device). (\<exists>a. p = At a) \<and> (\<exists>nm. 0 \<in> set nm \<and> o_name (objs s p) = name_field nm))
     \<and> distinct (map (\<lambda>p. o_name (objs s p)) (object_list s Class_Device))"

lemma name_field_eq_iff:
  assumes "0 \<in> set s" "0 \<in> set t"
  shows "name_field s = name_field t \<longleftrightarrow> take RT_NAME_MAX (c_string s) = take RT_NAME_MAX (c_string t)"
proof
  assume "name_field s = name_field t"
  then show "take RT_NAME_MAX (c_string s) = take RT_NAME_MAX (c_string t)"
    using strncpy_strncmp_roundtrip[OF assms, of RT_NAME_MAX] strncpy_strncmp_roundtrip[OF assms(2,2), of RT_NAME_MAX]
      rt_strncpy_eq[OF assms(1), of RT_NAME_MAX] rt_strncpy_eq[OF assms(2), of RT_NAME_MAX]
    by (auto simp: name_field_def)
next
  have "length (take RT_NAME_MAX xs) = length (take RT_NAME_MAX ys)" if "take RT_NAME_MAX xs = take RT_NAME_MAX ys"
    for xs ys :: "8 word list" using that by simp
  moreover assume "take RT_NAME_MAX (c_string s) = take RT_NAME_MAX (c_string t)"
  ultimately show "name_field s = name_field t" by (fastforce simp: name_field_def min_def split: if_splits)
qed

lemma find_by_name_eq:
  assumes "\<forall>p \<in> set ps. \<exists>nm. 0 \<in> set nm \<and> o_name (ob p) = name_field nm" "0 \<in> set name"
  shows "find_by_name name ps ob = Some (List.find (\<lambda>p. o_name (ob p) = name_field name) ps)"
  using assms(1)
proof (induction ps)
  case (Cons p ps)
  then obtain nm where nm: "0 \<in> set nm" "o_name (ob p) = name_field nm" by auto
  then obtain r where "rt_strncmp (o_name (ob p)) name RT_NAME_MAX = Some r" "r = 0 \<longleftrightarrow> o_name (ob p) = name_field name"
    using strncpy_strncmp_roundtrip[OF nm(1) assms(2), of RT_NAME_MAX] rt_strncpy_eq[OF nm(1), of RT_NAME_MAX]
      name_field_eq_iff[OF nm(1) assms(2)] by (auto simp: name_field_def)
  then show ?case using Cons by simp
qed simp

text \<open>A section with the scheduler locked ends with a choice of the next thread.\<close>

lemma critical_section:
  assumes "running s t"
  shows "\<exists>s' u. rt_exit_critical (rt_enter_critical s) = Some s' \<and> running s' u \<and> kframe s s'"
proof -
  have "(rt_enter_critical s)\<lparr>rt_scheduler_lock_nest := 0\<rparr> = s"
    using runningD(5)[OF assms] by (simp add: rt_enter_critical_def)
  then have "rt_exit_critical (rt_enter_critical s) = rt_schedule s"
    using runningD(5)[OF assms] by (simp add: rt_exit_critical_def Let_def) (simp add: rt_enter_critical_def)
  then show ?thesis using running_schedule[OF assms] by auto
qed

lemma kframe_registry:
  assumes "kframe s s'"
  shows "object_list s' = object_list s" "objs s' (At a) = objs s (At a)"
proof -
  have "object_list (kernel_as s s') = object_list s" "objs (kernel_as s s') (At a) = objs s (At a)"
    using assms by (simp_all add: kframe_def)
  then show "object_list s' = object_list s" "objs s' (At a) = objs s (At a)" by (simp_all add: kernel_as_def timers_of_def)
qed

text \<open>The kernel sees of an object only its flag.\<close>

lemma running_object_init:
  assumes "running s t" "rt_object_init p c name s = Some s'"
  shows "running s' t" "kinv s'"
proof -
  obtain field where s': "s' = s\<lparr>objs := (objs s)(p := (objs s p)\<lparr>o_type := c OR Class_Static, o_name := field\<rparr>),
      object_list := list_push_front c p (object_list s)\<rparr>"
    using assms(2) by (auto simp: rt_object_init_def upd_obj_def split: bind_splits)
  have f: "o_flag (objs s' q) = o_flag (objs s q)" for q by (simp add: s')
  have "timer_inv s'"
    using kinvD(2)[OF runningD(1)[OF assms(1)]] f by (intro timer_inv_cong[of s s']) (simp_all add: s')
  moreover have "thread_timers s'" "sched_inv s'"
    using kinvD(1,3)[OF runningD(1)[OF assms(1)]] f
    by (simp_all add: thread_timers_def timer_of_thread_def sched_inv_def) (simp_all add: s' active_timers_def)
  ultimately show "kinv s'" by (simp add: kinv_def)
  then show "running s' t" using assms(1) by (simp add: s' running_def ready_def)
qed

lemma registry_cong:
  assumes "registry_ok s" "object_list s' Class_Device = object_list s Class_Device"
    "\<And>p. p \<in> set (object_list s Class_Device) \<Longrightarrow> o_name (objs s' p) = o_name (objs s p)"
  shows "registry_ok s'" "registry s' = registry s"
proof -
  have m: "map (\<lambda>p. o_name (objs s' p)) (object_list s Class_Device) = map (\<lambda>p. o_name (objs s p)) (object_list s Class_Device)"
    using assms(3) by simp
  show "registry_ok s'" using assms(1,3) unfolding registry_ok_def assms(2) m by simp
  have "List.find (\<lambda>p. o_name (objs s' p) = k) (object_list s Class_Device)
      = List.find (\<lambda>p. o_name (objs s p) = k) (object_list s Class_Device)" for k
    using assms(3) by (intro find_cong) simp_all
  then show "registry s' = registry s" unfolding registry_def assms(2) by simp
qed

lemma registry_kframe:
  assumes "registry_ok s" "kframe s s'"
  shows "registry_ok s'" "registry s' = registry s"
proof -
  have "o_name (objs s' p) = o_name (objs s p)" if p: "p \<in> set (object_list s Class_Device)" for p
  proof -
    obtain a where "p = At a" using assms(1) p unfolding registry_ok_def by blast
    then show ?thesis using kframe_registry(2)[OF assms(2)] by simp
  qed
  then show "registry_ok s'" "registry s' = registry s"
    using registry_cong[OF assms(1), of s'] kframe_registry(1)[OF assms(2)] by auto
qed

lemma rt_device_find_ok:
  assumes "running s t" "registry_ok s" "0 \<in> set name"
  shows "\<exists>s' u. rt_device_find name s = Some (registry s (name_field name), s') \<and> running s' u \<and> kframe s s'"
proof -
  obtain s' u where s': "rt_exit_critical (rt_enter_critical s) = Some s'" "running s' u" "kframe s s'"
    using critical_section[OF assms(1)] by blast
  have "find_by_name name (object_list s Class_Device) (objs s) = Some (registry s (name_field name))"
    unfolding registry_def using assms(2,3) by (intro find_by_name_eq) (auto simp: registry_ok_def)
  moreover have "rt_thread_self (rt_enter_critical s) = Some t" "rt_thread_self s = Some t"
    using runningD(2)[OF assms(1)] by (simp_all add: rt_thread_self_def rt_enter_critical_def)
  moreover have "object_list (rt_enter_critical s) = object_list s" "objs (rt_enter_critical s) = objs s"
    by (simp_all add: rt_enter_critical_def)
  ultimately show ?thesis using s' by (auto simp: rt_device_find_def)
qed

lemma find_distinct:
  assumes "distinct (map f ps)" "p \<in> set ps"
  shows "List.find (\<lambda>q. f q = f p) ps = Some p"
  using assms by (induction ps) auto

lemma registry_insert:
  assumes "registry_ok s" "registry s k = None" "At a \<notin> set (object_list s Class_Device)" "0 \<in> set nm" "k = name_field nm"
    and "object_list s' Class_Device = At a # object_list s Class_Device" "o_name (objs s' (At a)) = k"
    and "\<And>p. p \<noteq> At a \<Longrightarrow> objs s' p = objs s p"
  shows "registry_ok s'" "registry s' = (registry s)(k \<mapsto> At a)"
proof -
  have same: "o_name (objs s' p) = o_name (objs s p)" if "p \<in> set (object_list s Class_Device)" for p
    using that assms(3,8) by (cases "p = At a") auto
  then have m: "map (\<lambda>p. o_name (objs s' p)) (object_list s Class_Device) = map (\<lambda>p. o_name (objs s p)) (object_list s Class_Device)"
    by simp
  have "k \<notin> (\<lambda>p. o_name (objs s p)) ` set (object_list s Class_Device)"
    using assms(2) by (auto simp: registry_def find_None_iff)
  then show "registry_ok s'" using assms(1,4,5,7) same unfolding registry_ok_def assms(6) by (simp add: m) blast
  have "List.find (\<lambda>p. o_name (objs s' p) = j) (object_list s Class_Device)
      = List.find (\<lambda>p. o_name (objs s p) = j) (object_list s Class_Device)" for j
    using same by (intro find_cong) simp_all
  then show "registry s' = (registry s)(k \<mapsto> At a)" using assms(7) by (auto simp: registry_def assms(6) fun_eq_iff)
qed

lemma registry_remove:
  assumes "registry_ok s" "At a \<in> set (object_list s Class_Device)"
  defines "s' \<equiv> snd (rt_device_unregister a s)"
  shows "registry_ok s'" "registry s' = (registry s)(o_name (objs s (At a)) := None)"
proof -
  have L: "object_list s' Class_Device = removeAll (At a) (object_list s Class_Device)" "objs s' = objs s"
    by (simp_all add: s'_def rt_device_unregister_def rt_object_detach_def list_unlink_def)
  have d: "distinct (map (\<lambda>p. o_name (objs s p)) (object_list s Class_Device))" using assms(1) by (simp add: registry_ok_def)
  show "registry_ok s'" using assms(1) d unfolding registry_ok_def L
    by (auto simp: distinct_map distinct_removeAll inj_on_def)
  have "List.find (\<lambda>p. f p = j) (removeAll x ps) = (if j = f x then None else List.find (\<lambda>p. f p = j) ps)"
    if "distinct (map f ps)" "x \<in> set ps" for f :: "ptr \<Rightarrow> 8 word list" and x j ps
  proof (cases "j = f x")
    case True
    then have "\<not> (\<exists>p. p \<in> set (removeAll x ps) \<and> f p = j)" using that by (auto simp: distinct_map inj_on_def)
    then show ?thesis using True by (simp add: find_None_iff)
  next
    case False
    then show ?thesis by (induction ps) auto
  qed
  from this[OF d assms(2)] show "registry s' = (registry s)(o_name (objs s (At a)) := None)"
    by (auto simp: registry_def L fun_eq_iff)
qed

subsection \<open>The count of the openings\<close>

text \<open>What a driver promises for a device: its functions return, report success, and leave the header of
  the device alone, but the initialisation may mark the device as activated itself; its own invariant does not depend on the flags and the count the device layer keeps.\<close>

locale device_driver =
  fixes drv :: "('a dev_state_scheme, 'w) driver"
    and dev :: nat
    and inv :: "'a dev_state_scheme \<Rightarrow> bool"
  assumes init_ok: "inv s \<Longrightarrow> dev_init (devs s dev) = Some f
      \<Longrightarrow> \<exists>s'. call_init drv f dev s = Some (RT_EOK, s') \<and> inv s'
        \<and> (devs s' dev = devs s dev \<or> devs s' dev = (devs s dev)\<lparr>dev_flag := dev_flag (devs s dev) OR FLAG_ACTIVATED\<rparr>)"
    and open_ok: "inv s \<Longrightarrow> dev_open (devs s dev) = Some f
      \<Longrightarrow> \<exists>s'. call_open drv f dev oflag s = Some (RT_EOK, s') \<and> inv s' \<and> devs s' dev = devs s dev"
    and close_ok: "inv s \<Longrightarrow> dev_close (devs s dev) = Some f
      \<Longrightarrow> \<exists>s'. call_close drv f dev s = Some (RT_EOK, s') \<and> inv s' \<and> devs s' dev = devs s dev"
    and inv_header: "inv s \<Longrightarrow> inv (s\<lparr>devs := (devs s)(dev := (devs s dev)\<lparr>dev_flag := fl, dev_open_flag := ofl, dev_ref_count := rc\<rparr>)\<rparr>)"

datatype dev_op = Open rt_uint16_t | Close

definition dev_step :: "('a dev_state_scheme, 'w) driver \<Rightarrow> nat \<Rightarrow> dev_op \<Rightarrow> 'a dev_state_scheme
    \<Rightarrow> (rt_err_t \<times> 'a dev_state_scheme) option" where
  "dev_step drv dev x s = (case x of Open oflag \<Rightarrow> rt_device_open drv dev oflag s | Close \<Rightarrow> rt_device_close drv dev s)"

fun dev_run :: "('a dev_state_scheme, 'w) driver \<Rightarrow> nat \<Rightarrow> dev_op list \<Rightarrow> 'a dev_state_scheme
    \<Rightarrow> (rt_err_t list \<times> 'a dev_state_scheme) option" where
  "dev_run drv dev [] s = Some ([], s)"
| "dev_run drv dev (x # xs) s =
     do { (r, s) \<leftarrow> dev_step drv dev x s; (rs, s) \<leftarrow> dev_run drv dev xs s; Some (r # rs, s) }"

text \<open>The same on a number; a standalone device is opened once.\<close>

fun count_step :: "bool \<Rightarrow> dev_op \<Rightarrow> nat \<Rightarrow> rt_err_t \<times> nat" where
  "count_step alone (Open _) n = (if alone \<and> 0 < n then (- RT_EBUSY, n) else (RT_EOK, n + 1))"
| "count_step alone Close n = (if n = 0 then (- RT_ERROR, 0) else (RT_EOK, n - 1))"

fun count_run :: "bool \<Rightarrow> dev_op list \<Rightarrow> nat \<Rightarrow> rt_err_t list \<times> nat" where
  "count_run alone [] n = ([], n)"
| "count_run alone (x # xs) n =
     (let (r, n) = count_step alone x n; (rs, n) = count_run alone xs n in (r # rs, n))"

abbreviation (input) opens :: "dev_op list \<Rightarrow> nat" where
  "opens xs \<equiv> length (filter (\<lambda>x. x \<noteq> Close) xs)"

definition dev_ok :: "rt_device \<Rightarrow> bool" where
  "dev_ok d \<longleftrightarrow> (dev_open_flag d AND OFLAG_OPEN \<noteq> 0 \<longleftrightarrow> dev_ref_count d \<noteq> 0)"

abbreviation (input) standalone :: "rt_device \<Rightarrow> bool" where
  "standalone d \<equiv> dev_flag d AND FLAG_STANDALONE \<noteq> 0"

lemma and_or_self: "(x OR y) AND y = (y :: 'b::len word)"
  by (rule bit_word_eqI) (auto simp: bit_and_iff bit_or_iff)

lemma or_activated_standalone: "((w :: rt_uint16_t) OR FLAG_ACTIVATED) AND FLAG_STANDALONE = w AND FLAG_STANDALONE"
proof -
  have "(FLAG_ACTIVATED :: rt_uint16_t) AND FLAG_STANDALONE = 0" by simp
  then show ?thesis by (simp only: bit.conj_disj_distrib2) simp
qed

context device_driver
begin

lemma inv_upd:
  assumes "inv s" "\<And>d. f d = d\<lparr>dev_flag := dev_flag (f d), dev_open_flag := dev_open_flag (f d), dev_ref_count := dev_ref_count (f d)\<rparr>"
  shows "inv (upd_dev dev f s)"
  unfolding upd_dev_def by (subst assms(2)) (rule inv_header[OF assms(1)])

lemma activated:
  assumes "inv s"
  shows "\<exists>s'. (if dev_flag (devs s dev) AND FLAG_ACTIVATED = 0 then
       do { (r, s) \<leftarrow> (case dev_init (devs s dev) of None \<Rightarrow> Some (RT_EOK, s) | Some f \<Rightarrow> call_init drv f dev s);
            Some (r, if r \<noteq> RT_EOK then s else upd_dev dev (\<lambda>d. d\<lparr>dev_flag := dev_flag d OR FLAG_ACTIVATED\<rparr>) s) }
     else Some (RT_EOK, s)) = Some (RT_EOK, s') \<and> inv s' \<and> dev_flag (devs s' dev) AND FLAG_ACTIVATED \<noteq> 0
     \<and> devs s' dev = (devs s dev)\<lparr>dev_flag := dev_flag (devs s' dev)\<rparr> \<and> standalone (devs s' dev) = standalone (devs s dev)"
proof (cases "dev_flag (devs s dev) AND FLAG_ACTIVATED = 0")
  case True
  obtain s1 where s1: "(case dev_init (devs s dev) of None \<Rightarrow> Some (RT_EOK, s) | Some f \<Rightarrow> call_init drv f dev s) = Some (RT_EOK, s1)"
    "inv s1" and d1: "devs s1 dev = devs s dev \<or> devs s1 dev = (devs s dev)\<lparr>dev_flag := dev_flag (devs s dev) OR FLAG_ACTIVATED\<rparr>"
    using init_ok[OF assms] assms by (cases "dev_init (devs s dev)") auto
  have "inv (upd_dev dev (\<lambda>d. d\<lparr>dev_flag := dev_flag d OR FLAG_ACTIVATED\<rparr>) s1)" by (rule inv_upd[OF s1(2)]) simp
  then show ?thesis using d1
    by (elim disjE) (simp_all add: True s1 dev_field.get_upd and_or_self or_activated_standalone or.assoc)
qed (use assms in simp)

lemma open_counts:
  assumes "inv s" "dev_ok (devs s dev)" "unat (dev_ref_count (devs s dev)) < 255"
  shows "\<exists>s'. rt_device_open drv dev oflag s
      = Some (fst (count_step (standalone (devs s dev)) (Open oflag) (unat (dev_ref_count (devs s dev)))), s')
    \<and> inv s' \<and> dev_ok (devs s' dev) \<and> standalone (devs s' dev) = standalone (devs s dev)
    \<and> unat (dev_ref_count (devs s' dev)) = snd (count_step (standalone (devs s dev)) (Open oflag) (unat (dev_ref_count (devs s dev))))"
proof -
  obtain s1 where s1: "(if dev_flag (devs s dev) AND FLAG_ACTIVATED = 0 then
       do { (r, s) \<leftarrow> (case dev_init (devs s dev) of None \<Rightarrow> Some (RT_EOK, s) | Some f \<Rightarrow> call_init drv f dev s);
            Some (r, if r \<noteq> RT_EOK then s else upd_dev dev (\<lambda>d. d\<lparr>dev_flag := dev_flag d OR FLAG_ACTIVATED\<rparr>) s) }
     else Some (RT_EOK, s)) = Some (RT_EOK, s1)" "inv s1"
    "devs s1 dev = (devs s dev)\<lparr>dev_flag := dev_flag (devs s1 dev)\<rparr>" "standalone (devs s1 dev) = standalone (devs s dev)"
    using activated[OF assms(1)] by blast
  have d1: "dev_ref_count (devs s1 dev) = dev_ref_count (devs s dev)" "dev_open_flag (devs s1 dev) = dev_open_flag (devs s dev)"
    by (subst s1(3), simp)+
  have ok1: "dev_ok (devs s1 dev)" using assms(2) by (simp add: dev_ok_def d1)
  show ?thesis
  proof (cases "standalone (devs s1 dev) \<and> dev_open_flag (devs s1 dev) AND OFLAG_OPEN \<noteq> 0")
    case True
    then have "0 < unat (dev_ref_count (devs s dev))" using ok1 d1 by (simp add: dev_ok_def unat_gt_0)
    then show ?thesis using True s1 ok1 d1 unfolding rt_device_open_def by simp
  next
    case False
    define s2 where "s2 = upd_dev dev (\<lambda>d. d\<lparr>dev_ref_count := dev_ref_count d + 1\<rparr>) s1"
    have i2: "inv s2" unfolding s2_def by (rule inv_upd[OF s1(2)]) simp
    have c: "unat (dev_ref_count (devs s2 dev)) = Suc (unat (dev_ref_count (devs s dev)))"
      using assms(3) unat_add_small[of "dev_ref_count (devs s dev)" 1] by (simp add: s2_def dev_field.get_upd d1)
    then have nz: "dev_ref_count (devs s2 dev) \<noteq> 0" by auto
    obtain s3 where s3: "(case dev_open (devs s2 dev) of None \<Rightarrow> Some (RT_EOK, s2) | Some f \<Rightarrow> call_open drv f dev oflag s2) = Some (RT_EOK, s3)"
      "inv s3" "devs s3 dev = devs s2 dev"
      using open_ok[OF i2] i2 by (cases "dev_open (devs s2 dev)") auto
    have "rt_device_open drv dev oflag s = Some (RT_EOK, upd_dev dev (\<lambda>d. d\<lparr>dev_open_flag := oflag OR OFLAG_OPEN\<rparr>) s3)"
      unfolding rt_device_open_def s1(1) using False nz s3(1) by (simp add: RT_ASSERT_def flip: s2_def)
    moreover have "inv (upd_dev dev (\<lambda>d. d\<lparr>dev_open_flag := oflag OR OFLAG_OPEN\<rparr>) s3)" by (rule inv_upd[OF s3(2)]) simp
    moreover have "\<not> (standalone (devs s dev) \<and> 0 < unat (dev_ref_count (devs s dev)))"
      using False s1(4) ok1 d1 by (auto simp: dev_ok_def unat_gt_0)
    ultimately show ?thesis using s3(3) c nz s1(4) by (auto simp: dev_field.get_upd dev_ok_def and_or_self s2_def)
  qed
qed

lemma close_counts:
  assumes "inv s" "dev_ok (devs s dev)"
  shows "\<exists>s'. rt_device_close drv dev s = Some (fst (count_step a Close (unat (dev_ref_count (devs s dev)))), s')
    \<and> inv s' \<and> dev_ok (devs s' dev) \<and> standalone (devs s' dev) = standalone (devs s dev)
    \<and> unat (dev_ref_count (devs s' dev)) = snd (count_step a Close (unat (dev_ref_count (devs s dev))))"
proof (cases "dev_ref_count (devs s dev) = 0")
  case True
  then show ?thesis using assms by (simp add: rt_device_close_def)
next
  case False
  define s1 where "s1 = upd_dev dev (\<lambda>d. d\<lparr>dev_ref_count := dev_ref_count d - 1\<rparr>) s"
  have i1: "inv s1" unfolding s1_def by (rule inv_upd[OF assms(1)]) simp
  have c: "unat (dev_ref_count (devs s1 dev)) = unat (dev_ref_count (devs s dev)) - 1"
    using False by (simp add: s1_def dev_field.get_upd unat_minus_one)
  show ?thesis
  proof (cases "dev_ref_count (devs s1 dev) = 0")
    case nz: False
    then have "rt_device_close drv dev s = Some (RT_EOK, s1)" using False by (simp add: rt_device_close_def flip: s1_def)
    then show ?thesis using False nz i1 c assms(2) by (simp add: unat_eq_0) (simp add: s1_def dev_field.get_upd dev_ok_def)
  next
    case z: True
    obtain s2 where s2: "(case dev_close (devs s1 dev) of None \<Rightarrow> Some (RT_EOK, s1) | Some f \<Rightarrow> call_close drv f dev s1) = Some (RT_EOK, s2)"
      "inv s2" "devs s2 dev = devs s1 dev"
      using close_ok[OF i1] i1 by (cases "dev_close (devs s1 dev)") auto
    have "rt_device_close drv dev s = Some (RT_EOK, upd_dev dev (\<lambda>d. d\<lparr>dev_open_flag := OFLAG_CLOSE\<rparr>) s2)"
      using False z s2(1) by (simp add: rt_device_close_def flip: s1_def)
    moreover have "inv (upd_dev dev (\<lambda>d. d\<lparr>dev_open_flag := OFLAG_CLOSE\<rparr>) s2)" by (rule inv_upd[OF s2(2)]) simp
    ultimately show ?thesis using False z c s2(3)
      by (simp add: dev_field.get_upd unat_eq_0) (simp add: dev_ok_def s1_def dev_field.get_upd)
  qed
qed

lemma run_counts:
  assumes "inv s" "dev_ok (devs s dev)" "unat (dev_ref_count (devs s dev)) + opens xs \<le> 255"
  shows "\<exists>s'. dev_run drv dev xs s = Some (fst (count_run (standalone (devs s dev)) xs (unat (dev_ref_count (devs s dev)))), s')
    \<and> inv s' \<and> dev_ok (devs s' dev)
    \<and> unat (dev_ref_count (devs s' dev)) = snd (count_run (standalone (devs s dev)) xs (unat (dev_ref_count (devs s dev))))"
  using assms
proof (induction xs arbitrary: s)
  case (Cons x xs)
  let ?n = "unat (dev_ref_count (devs s dev))" and ?a = "standalone (devs s dev)"
  obtain s1 where s1: "dev_step drv dev x s = Some (fst (count_step ?a x ?n), s1)" "inv s1" "dev_ok (devs s1 dev)"
    "standalone (devs s1 dev) = ?a" "unat (dev_ref_count (devs s1 dev)) = snd (count_step ?a x ?n)"
    using open_counts[OF Cons.prems(1,2)] close_counts[OF Cons.prems(1,2), of ?a] Cons.prems(3)
    by (cases x) (auto simp: dev_step_def)
  have "snd (count_step ?a x ?n) + opens xs \<le> 255" using Cons.prems(3) by (cases x) auto
  then obtain s' where "dev_run drv dev xs s1 = Some (fst (count_run ?a xs (snd (count_step ?a x ?n))), s')" "inv s'" "dev_ok (devs s' dev)"
    "unat (dev_ref_count (devs s' dev)) = snd (count_run ?a xs (snd (count_step ?a x ?n)))"
    using Cons.IH[OF s1(2,3)] s1(4,5) by auto
  then show ?case using s1(1) by (simp add: split_beta)
qed simp

end

text \<open>The count is raised before the driver is asked: when the driver refuses, it stays raised.\<close>

lemma refused_open_is_counted:
  assumes "dev_flag (devs s dev) AND FLAG_ACTIVATED \<noteq> 0" "dev_open_flag (devs s dev) AND OFLAG_OPEN = 0"
    "dev_ref_count (devs s dev) = 0" "dev_open (devs s dev) = Some f" "r \<noteq> RT_EOK" "r \<noteq> - RT_ENOSYS"
    "\<And>s. call_open drv f dev oflag s = Some (r, s)"
  shows "\<exists>s'. rt_device_open drv dev oflag s = Some (r, s') \<and> dev_ref_count (devs s' dev) = 1
    \<and> dev_open_flag (devs s' dev) AND OFLAG_OPEN = 0"
  using assms by (simp add: rt_device_open_def dev_field.get_upd RT_ASSERT_def)

lemma next_after_suffix:
  "distinct (us @ p # vs) \<Longrightarrow> next_after p (us @ p # vs) = Some (case vs of [] \<Rightarrow> None | q # _ \<Rightarrow> Some q)"
  by (induction us) auto

text \<open>\<open>rt_device_init_all\<close> returns and leaves every device with a working initialisation activated.\<close>

lemma rt_device_init_all_activates:
  fixes drv :: "('a dev_state_scheme, 'w) driver"
  assumes drv: "\<And>s f a. \<exists>s'. call_init drv f a s = Some (RT_EOK, s') \<and> object_list s' = object_list s \<and> devs s' = devs s"
    and d: "distinct (object_list s Class_Device)" and at: "\<forall>p \<in> set (object_list s Class_Device). \<exists>a. p = At a"
  shows "\<exists>s'. rt_device_init_all drv s = Some (RT_EOK, s')
    \<and> (\<forall>a. At a \<in> set (object_list s Class_Device) \<longrightarrow> dev_init (devs s a) \<noteq> None \<longrightarrow> dev_flag (devs s' a) AND FLAG_ACTIVATED \<noteq> 0)"
proof -
  have step: "\<exists>s'. rt_device_init drv a s = Some (RT_EOK, s') \<and> object_list s' = object_list s
      \<and> (dev_init (devs s a) \<noteq> None \<longrightarrow> dev_flag (devs s' a) AND FLAG_ACTIVATED \<noteq> 0)
      \<and> (\<forall>b. dev_init (devs s' b) = dev_init (devs s b) \<and> (dev_flag (devs s b) AND FLAG_ACTIVATED \<noteq> 0 \<longrightarrow> dev_flag (devs s' b) AND FLAG_ACTIVATED \<noteq> 0))"
    for a and s :: "'a dev_state_scheme"
  proof (cases "dev_init (devs s a)")
    case (Some f)
    obtain s1 where "call_init drv f a s = Some (RT_EOK, s1)" "object_list s1 = object_list s" "devs s1 = devs s" using drv by blast
    moreover have "object_list (upd_dev a g s1) = object_list s1" for g by (simp add: upd_dev_def)
    ultimately show ?thesis using Some by (simp add: rt_device_init_def dev_field.get_upd and_or_self)
  qed (simp add: rt_device_init_def)
  have walk: "\<exists>s'. init_from drv (case vs of [] \<Rightarrow> None | q # _ \<Rightarrow> Some q) s = Some s'
      \<and> (\<forall>a. At a \<in> set vs \<longrightarrow> dev_init (devs s a) \<noteq> None \<longrightarrow> dev_flag (devs s' a) AND FLAG_ACTIVATED \<noteq> 0)
      \<and> (\<forall>b. dev_flag (devs s b) AND FLAG_ACTIVATED \<noteq> 0 \<longrightarrow> dev_flag (devs s' b) AND FLAG_ACTIVATED \<noteq> 0)"
    if "object_list s Class_Device = us @ vs" "distinct (us @ vs)" "\<forall>p \<in> set vs. \<exists>a. p = At a" for us vs and s :: "'a dev_state_scheme"
    using that
  proof (induction vs arbitrary: us s)
    case Nil
    then show ?case by (simp add: init_from.simps[of drv None])
  next
    case (Cons p vs)
    obtain a where p: "p = At a" using Cons.prems(3) by auto
    obtain s1 where s1: "rt_device_init drv a s = Some (RT_EOK, s1)" "object_list s1 = object_list s"
      "dev_init (devs s a) \<noteq> None \<longrightarrow> dev_flag (devs s1 a) AND FLAG_ACTIVATED \<noteq> 0"
      "\<And>b. dev_init (devs s1 b) = dev_init (devs s b)"
      "\<And>b. dev_flag (devs s b) AND FLAG_ACTIVATED \<noteq> 0 \<Longrightarrow> dev_flag (devs s1 b) AND FLAG_ACTIVATED \<noteq> 0" using step by blast
    obtain s' where s': "init_from drv (case vs of [] \<Rightarrow> None | q # _ \<Rightarrow> Some q) s1 = Some s'"
      "\<forall>a. At a \<in> set vs \<longrightarrow> dev_init (devs s1 a) \<noteq> None \<longrightarrow> dev_flag (devs s' a) AND FLAG_ACTIVATED \<noteq> 0"
      "\<forall>b. dev_flag (devs s1 b) AND FLAG_ACTIVATED \<noteq> 0 \<longrightarrow> dev_flag (devs s' b) AND FLAG_ACTIVATED \<noteq> 0"
      using Cons.IH[of s1 "us @ [p]"] Cons.prems s1(2) by auto
    have "init_from drv (Some p) s = Some s'"
      using s1(1,2) s'(1) next_after_suffix[of us p vs] Cons.prems(1,2) by (subst init_from.simps) (simp add: p)
    then show ?case using s' s1(3-5) by (auto simp: p)
  qed
  show ?thesis using walk[of s "[]" "object_list s Class_Device"] d at by (auto simp: rt_device_init_all_def)
qed

subsection \<open>Properties\<close>

text \<open>C20: The devices form a map from names of at most 8 characters. Registering a device adds it under a name that
  is free, closed and with the given flags, and is refused with an error when the name is taken;
  afterwards every search by name gives the device of that name, and unregistering the device
  restores the map.\<close>

theorem device_registry_refines_map:
  assumes "running s t" "registry_ok s" "0 \<in> set name" "At dev \<notin> set (object_list s Class_Device)"
  shows "\<exists>r s' u. rt_device_register (Some dev) name flags s = Some (r, s') \<and> running s' u \<and> registry_ok s'
    \<and> (case registry s (name_field name) of
         None \<Rightarrow> r = RT_EOK \<and> registry s' = (registry s)(name_field name \<mapsto> At dev)
           \<and> dev_flag (devs s' dev) = flags \<and> dev_ref_count (devs s' dev) = 0
           \<and> registry (snd (rt_device_unregister dev s')) = registry s
       | Some _ \<Rightarrow> r = - RT_ERROR \<and> registry s' = registry s \<and> devs s' = devs s)
    \<and> (\<forall>nm. 0 \<in> set nm \<longrightarrow> (\<exists>s''. rt_device_find nm s' = Some (registry s' (name_field nm), s'') \<and> registry s'' = registry s'))"
proof -
  obtain s1 u where s1: "rt_device_find name s = Some (registry s (name_field name), s1)" "running s1 u" "kframe s s1"
    using rt_device_find_ok[OF assms(1-3)] by blast
  note R = registry_kframe[OF assms(2) s1(3)]
  have "\<exists>r s'. rt_device_register (Some dev) name flags s = Some (r, s') \<and> running s' u \<and> registry_ok s'
    \<and> (case registry s (name_field name) of
         None \<Rightarrow> r = RT_EOK \<and> registry s' = (registry s)(name_field name \<mapsto> At dev)
           \<and> dev_flag (devs s' dev) = flags \<and> dev_ref_count (devs s' dev) = 0
           \<and> registry (snd (rt_device_unregister dev s')) = registry s
       | Some _ \<Rightarrow> r = - RT_ERROR \<and> registry s' = registry s \<and> devs s' = devs s)"
  proof (cases "registry s (name_field name)")
    case (Some p)
    then show ?thesis using s1(1,2) R dev_field.get_kframe[OF s1(3)] by (simp add: rt_device_register_def)
  next
    case None
    define s2 where "s2 = s1\<lparr>objs := (objs s1)(At dev := (objs s1 (At dev))\<lparr>o_type := Class_Device OR Class_Static, o_name := name_field name\<rparr>),
      object_list := list_push_front Class_Device (At dev) (object_list s1)\<rparr>"
    define s' where "s' = upd_dev dev (\<lambda>d. d\<lparr>dev_flag := flags, dev_ref_count := 0\<rparr>) s2"
    have "rt_strncpy name RT_NAME_MAX = Some (name_field name)" using rt_strncpy_eq[OF assms(3)] by (simp add: name_field_def)
    then have init: "rt_object_init (At dev) Class_Device name s1 = Some s2" by (simp add: rt_object_init_def s2_def upd_obj_def)
    have reg: "rt_device_register (Some dev) name flags s = Some (RT_EOK, s')"
      using s1(1) None init by (simp add: rt_device_register_def s'_def)
    have L: "object_list s' Class_Device = At dev # object_list s1 Class_Device" "o_name (objs s' (At dev)) = name_field name"
      "\<And>p. p \<noteq> At dev \<Longrightarrow> objs s' p = objs s1 p"
      by (simp_all add: s'_def upd_dev_def s2_def list_push_front_def)
    have in1: "At dev \<notin> set (object_list s1 Class_Device)" using assms(4) kframe_registry(1)[OF s1(3)] by simp
    have ins: "registry_ok s'" "registry s' = (registry s)(name_field name \<mapsto> At dev)"
      using registry_insert[OF R(1) _ in1 assms(3) refl L] None R(2) by simp_all
    have "running s' u" unfolding s'_def by (rule dev_field.upd_running[OF running_object_init(1)[OF s1(2) init]])
    moreover have "registry (snd (rt_device_unregister dev s')) = registry s"
      using registry_remove(2)[OF ins(1), of dev] L(1,2) ins(2) None by (simp add: fun_upd_idem)
    ultimately show ?thesis using reg ins None by (simp add: s'_def dev_field.get_upd)
  qed
  then obtain r s' where s': "rt_device_register (Some dev) name flags s = Some (r, s')" "running s' u" "registry_ok s'"
    "case registry s (name_field name) of
         None \<Rightarrow> r = RT_EOK \<and> registry s' = (registry s)(name_field name \<mapsto> At dev)
           \<and> dev_flag (devs s' dev) = flags \<and> dev_ref_count (devs s' dev) = 0
           \<and> registry (snd (rt_device_unregister dev s')) = registry s
       | Some _ \<Rightarrow> r = - RT_ERROR \<and> registry s' = registry s \<and> devs s' = devs s" by blast
  have "\<exists>s''. rt_device_find nm s' = Some (registry s' (name_field nm), s'') \<and> registry s'' = registry s'" if "0 \<in> set nm" for nm
    using rt_device_find_ok[OF s'(2,3) that] registry_kframe(2)[OF s'(3)] by blast
  then show ?thesis using s' by (intro exI[of _ r] exI[of _ s'] exI[of _ u]) simp
qed

text \<open>C25: Opening and closing a device with a well-behaved driver keeps count: after any sequence of up to 255
  openings and any closings, with the results a counter predicts (busy for a standalone device that is open, an error
  for closing a closed device), the reference count is the number of openings not yet closed, and
  the device is marked open exactly when that number is positive.\<close>

theorem device_open_close_counts:
  assumes "device_driver drv dev ok" "ok s" "dev_ok (devs s dev)" "unat (dev_ref_count (devs s dev)) + opens xs \<le> 255"
  shows "\<exists>s'. dev_run drv dev xs s = Some (fst (count_run (standalone (devs s dev)) xs (unat (dev_ref_count (devs s dev)))), s')
    \<and> ok s' \<and> dev_ok (devs s' dev)
    \<and> unat (dev_ref_count (devs s' dev)) = snd (count_run (standalone (devs s dev)) xs (unat (dev_ref_count (devs s dev))))"
  using assms by (rule device_driver.run_counts)

subsection \<open>Witnesses\<close>

text \<open>A standalone device whose driver accepts every call.\<close>

definition demo_device :: rt_device where
  "demo_device = \<lparr>dev_type = Class_Char, dev_flag = FLAG_STANDALONE, dev_open_flag = 0, dev_ref_count = 0, dev_device_id = 0,
     dev_rx_indicate = None, dev_tx_complete = None, dev_init = Some 1, dev_open = Some 2, dev_close = Some 3,
     dev_read = None, dev_write = None, dev_control = None, dev_user_data = 0\<rparr>"

definition demo_devs :: dev_state where
  "demo_devs = demo_kernel \<lparr>devs = (\<lambda>_. demo_device)\<rparr>"

definition demo_driver :: "(dev_state, tid) driver" where
  "demo_driver = \<lparr>call_init = (\<lambda>_ _ s. Some (RT_EOK, s)), call_open = (\<lambda>_ _ _ s. Some (RT_EOK, s)),
     call_close = (\<lambda>_ _ s. Some (RT_EOK, s)), call_read = (\<lambda>_ _ _ _ s. Some (Ret (0, []), s)),
     call_write = (\<lambda>_ _ _ _ _ s. Some (Ret 0, s)), call_control = (\<lambda>_ _ _ _ s. Some (RT_EOK, s))\<rparr>"

lemma demo_devs_facts: "running demo_devs 1" "registry_ok demo_devs" "object_list demo_devs c = []" "devs demo_devs a = demo_device"
  unfolding demo_devs_def by (rule demo_kernel_running) (simp_all add: demo_kernel_def sched_state.defs demo_sched_def registry_ok_def)

theorem device_registry_refines_map_witness:
  "\<exists>s'. rt_device_register (Some 5) [0x75, 0x31, 0] FLAG_RDWR demo_devs = Some (RT_EOK, s')
     \<and> registry s' (name_field [0x75, 0x31, 0]) = Some (At 5)"
proof -
  have "registry demo_devs k = None" for k by (simp add: registry_def demo_devs_facts(3))
  then show ?thesis using device_registry_refines_map[OF demo_devs_facts(1,2), of "[0x75, 0x31, 0]" 5 FLAG_RDWR]
    by (auto simp: demo_devs_facts(3))
qed

theorem device_open_close_counts_witness:
  "\<exists>s'. dev_run demo_driver 5 [Open OFLAG_RDWR, Open OFLAG_RDWR, Close, Close] demo_devs = Some ([RT_EOK, - RT_EBUSY, RT_EOK, - RT_ERROR], s')
     \<and> unat (dev_ref_count (devs s' 5)) = 0"
proof -
  have "device_driver demo_driver 5 (\<lambda>_. True)" by unfold_locales (simp_all add: demo_driver_def)
  then show ?thesis
    using device_open_close_counts[of demo_driver 5 "\<lambda>_. True" demo_devs "[Open OFLAG_RDWR, Open OFLAG_RDWR, Close, Close]"]
    by (auto simp: demo_devs_facts(4) demo_device_def dev_ok_def)
qed

end
