(* ===== verification/Completion.thy ===== *)
theory Completion
  imports Device
begin

text \<open>
  Completions, \<^verbatim>\<open>components/drivers/src/completion.c\<close>: a flag that one thread waits for and another
  thread or an interrupt raises. The thread that waits for the completion at address \<open>a\<close> is in the
  list \<open>Suspend a\<close>.
\<close>

abbreviation (input) RT_COMPLETED :: rt_uint32_t where "RT_COMPLETED \<equiv> 1"
abbreviation (input) RT_UNCOMPLETED :: rt_uint32_t where "RT_UNCOMPLETED \<equiv> 0"

record cmp_state = dev_state +
  completions :: "nat \<Rightarrow> rt_uint32_t"

definition upd_cmp :: "nat \<Rightarrow> (rt_uint32_t \<Rightarrow> rt_uint32_t) \<Rightarrow> 'a cmp_state_scheme \<Rightarrow> 'a cmp_state_scheme" where
  "upd_cmp a f s = s\<lparr>completions := (completions s)(a := f (completions s a))\<rparr>"

definition rt_completion_init :: "nat \<Rightarrow> 'a cmp_state_scheme \<Rightarrow> 'a cmp_state_scheme" where
  "rt_completion_init c s = upd_tlists (\<lambda>L. L(Suspend c := [])) (upd_cmp c (\<lambda>_. RT_UNCOMPLETED) s)"

text \<open>Suspending a thread at the end of a list, which the drivers do without a priority order.\<close>

definition suspend_at_end :: "lhead \<Rightarrow> tid \<Rightarrow> 'a sched_state_scheme \<Rightarrow> 'a sched_state_scheme" where
  "suspend_at_end l t s = upd_tlists (list_push_back l t) (snd (rt_thread_suspend t s))"

text \<open>The end of a wait that went to sleep.\<close>

definition rt_completion_wait_end :: "nat \<Rightarrow> tid \<Rightarrow> 'a cmp_state_scheme \<Rightarrow> rt_err_t \<times> 'a cmp_state_scheme" where
  "rt_completion_wait_end c t s = (thread_error (threads s t), upd_cmp c (\<lambda>_. RT_UNCOMPLETED) s)"

definition rt_completion_wait :: "nat \<Rightarrow> rt_uint32_t \<Rightarrow> 'a cmp_state_scheme
    \<Rightarrow> ((rt_err_t, tid) outcome \<times> 'a cmp_state_scheme) option" where
  "rt_completion_wait c timeout s =
     (if completions s c \<noteq> RT_COMPLETED then
        do { s \<leftarrow> RT_ASSERT (tlists s (Suspend c) = []) s;
             if timeout = 0 then Some (Ret (- RT_ETIMEOUT), s)
             else
               do { t \<leftarrow> rt_thread_self s;
                    let s = upd_thread t (\<lambda>th. th\<lparr>thread_error := RT_EOK\<rparr>) s;
                    let s = suspend_at_end (Suspend c) t s;
                    s \<leftarrow> RT_DEBUG_NOT_IN_INTERRUPT s;
                    s \<leftarrow> start_wait_timer t timeout s;
                    s \<leftarrow> rt_schedule s;
                    Some (if rt_current_thread s \<noteq> Some t then (Wait t, s)
                          else (let (r, s) = rt_completion_wait_end c t s in (Ret r, s))) } }
      else Some (Ret RT_EOK, s))"

definition rt_completion_done :: "nat \<Rightarrow> 'a cmp_state_scheme \<Rightarrow> 'a cmp_state_scheme option" where
  "rt_completion_done c s =
     (if completions s c = RT_COMPLETED then Some s
      else
        (let s = upd_cmp c (\<lambda>_. RT_COMPLETED) s
         in case tlists s (Suspend c) of
              [] \<Rightarrow> Some s
            | t # _ \<Rightarrow> rt_schedule (snd (rt_thread_resume t s))))"

interpretation cmp_field: kernel_field completions upd_cmp
  by unfold_locales (simp_all add: upd_cmp_def kernel_as_def)

lemma push_back_suspended:
  assumes "kinv s" "stat (threads s t) = THREAD_READY" "wait_list l"
  shows "suspend_at_end l t s = suspended_on l t (tlists s l @ [t]) s"
  using ready_not_waiting[OF assms]
  by (simp add: suspend_at_end_def rt_thread_suspend_ready[OF assms(2)] suspended_on_def upd_tlists_def list_push_back_def list_unlink_def)

lemma queued_back: "kinv s \<Longrightarrow> stat (threads s t) = THREAD_READY \<Longrightarrow> wait_list l \<Longrightarrow> queued t (tlists s l) (tlists s l @ [t])"
  using waiting_distinct[of s l] ready_not_waiting[of s t l] by (simp add: queued_def)

text \<open>The wait of the drivers: at the end of a list, with no timer or with one, and with the error of the
  thread cleared before.\<close>

lemma sleeps_at_back:
  assumes r: "running s t" and i: "ready s i" "i \<noteq> t" and l: "wait_list l" and time: "legal_time time"
  shows "\<exists>s1 s' u. rt_interrupt_nest (suspend_at_end l t s) = 0 \<and> start_wait_timer t time (suspend_at_end l t s) = Some s1
    \<and> rt_schedule s1 = Some s' \<and> kframe s s' \<and> rt_current_thread s' = Some u \<and> u \<noteq> t \<and> running s' u
    \<and> threads s' = (threads s)(t := (threads s t)\<lparr>stat := THREAD_SUSPEND\<rparr>)
    \<and> waits_as s s' l (tlists s l @ [t])"
proof -
  note D = runningD[OF r]
  obtain s1 s' u where s': "start_wait_timer t time (suspended_on l t (tlists s l @ [t]) s) = Some s1" "rt_schedule s1 = Some s'"
    "kframe s s'" "threads s' = (threads s)(t := (threads s t)\<lparr>stat := THREAD_SUSPEND\<rparr>)"
    "waits_as s s' l (tlists s l @ [t])" "rt_current_thread s' = Some u" "u \<noteq> t" "running s' u"
    using wait_switches[OF r i l queued_back[OF D(1,4) l] time] by blast
  have "rt_interrupt_nest (suspended_on l t (tlists s l @ [t]) s) = 0" using D(6) by (simp add: suspended_on_def)
  then show ?thesis using s' unfolding push_back_suspended[OF D(1,4) l]
    by (intro exI[of _ s1] exI[of _ s'] exI[of _ u]) simp
qed

lemma waits_at_back:
  assumes r: "running s t" and i: "ready s i" "i \<noteq> t" and l: "wait_list l" and time: "legal_time time"
  defines "s0 \<equiv> upd_thread t (\<lambda>th. th\<lparr>thread_error := RT_EOK\<rparr>) s"
  shows "\<exists>s1 s' u. rt_interrupt_nest (suspend_at_end l t s0) = 0 \<and> start_wait_timer t time (suspend_at_end l t s0) = Some s1
    \<and> rt_schedule s1 = Some s' \<and> kframe s s' \<and> rt_current_thread s' = Some u \<and> u \<noteq> t \<and> running s' u
    \<and> threads s' = (threads s)(t := (threads s t)\<lparr>thread_error := RT_EOK, stat := THREAD_SUSPEND\<rparr>)
    \<and> waits_as s s' l (tlists s l @ [t])"
proof -
  have s0: "running s0 t" "ready s0 i" "tlists s0 = tlists s" "kframe s s0"
    "threads s0 = (threads s)(t := (threads s t)\<lparr>thread_error := RT_EOK\<rparr>)"
    using r i by (simp_all add: s0_def ready_def)
  from sleeps_at_back[OF s0(1,2) i(2) l time] show ?thesis
    using s0(3,5) kframe_trans[OF s0(4)] by (fastforce simp: waits_as_def)
qed

lemma wakes_first:
  assumes r: "running s t" and l: "wait_list l" and q: "tlists s l = w # ws"
  shows "\<exists>s' u. rt_schedule (snd (rt_thread_resume w s)) = Some s' \<and> running s' u \<and> kframe s s'
    \<and> threads s' = (threads s)(w := (threads s w)\<lparr>stat := THREAD_READY\<rparr>) \<and> waits_as s s' l ws
    \<and> current_priority (threads s' u) \<le> current_priority (threads s' w)"
proof -
  note D = runningD[OF r]
  have w: "w \<in> set (tlists s l)" "w \<notin> set ws" using q waiting_distinct[OF D(1), of l] by auto
  define s1 where "s1 = snd (rt_thread_resume w s)"
  note R = resume_waiting[OF D(1) w(1) l, folded s1_def]
  have r1: "running s1 t" using D(2,3) R by (intro running_kframe[OF r]) (auto simp: ready_def)
  obtain s' u where s': "rt_schedule s1 = Some s'" "kframe s1 s'" "threads s' = threads s1" "tlists s' = tlists s1"
    "running s' u" "\<forall>v. ready s1 v \<longrightarrow> current_priority (threads s1 u) \<le> current_priority (threads s1 v)"
    using running_schedule[OF r1] by blast
  have "ready s1 w" by (simp add: ready_def R(3))
  then have "current_priority (threads s' u) \<le> current_priority (threads s' w)" using s'(3,6) by simp
  moreover have "waits_as s s' l ws" using R(4,5) q w(2) s'(4) by (simp add: waits_as_def)
  ultimately show ?thesis using s' R(3) kframe_trans[OF R(2) s'(2)] by (intro exI[of _ s'] exI[of _ u]) (simp add: s1_def)
qed

subsection \<open>Properties\<close>

text \<open>The handshake: a thread that waits for a completion nobody has raised is suspended and another
  thread runs; raising the completion makes it ready, and its wait then returns \<open>RT_EOK\<close> with the flag
  lowered and nobody waiting, ready for the next round. With a timeout of 0 the wait returns at once.\<close>

theorem completion_handshake:
  assumes "running s t" "ready s i" "i \<noteq> t" "completions s c \<noteq> RT_COMPLETED" "tlists s (Suspend c) = []"
    and "legal_time time" "time \<noteq> 0"
  shows "rt_completion_wait c 0 s = Some (Ret (- RT_ETIMEOUT), s)
    \<and> (\<exists>s1 u. rt_completion_wait c time s = Some (Wait t, s1) \<and> running s1 u \<and> u \<noteq> t
      \<and> tlists s1 (Suspend c) = [t] \<and> completions s1 = completions s
      \<and> (\<exists>s2 v r s3. rt_completion_done c s1 = Some s2 \<and> running s2 v \<and> ready s2 t
           \<and> current_priority (threads s2 v) \<le> current_priority (threads s2 t)
           \<and> rt_completion_wait_end c t s2 = (r, s3) \<and> r = RT_EOK
           \<and> completions s3 c = RT_UNCOMPLETED \<and> tlists s3 (Suspend c) = []))"
proof
  show "rt_completion_wait c 0 s = Some (Ret (- RT_ETIMEOUT), s)"
    using assms(4,5) by (simp add: rt_completion_wait_def RT_ASSERT_def)
  have l: "wait_list (Suspend c)" by simp
  let ?s = "suspend_at_end (Suspend c) t (upd_thread t (\<lambda>th. th\<lparr>thread_error := RT_EOK\<rparr>) s)"
  obtain s0 s1 u where s1: "rt_interrupt_nest ?s = 0" "start_wait_timer t time ?s = Some s0"
    "rt_schedule s0 = Some s1" "kframe s s1" "rt_current_thread s1 = Some u" "u \<noteq> t" "running s1 u"
    "threads s1 = (threads s)(t := (threads s t)\<lparr>thread_error := RT_EOK, stat := THREAD_SUSPEND\<rparr>)"
    "waits_as s s1 (Suspend c) (tlists s (Suspend c) @ [t])"
    using waits_at_back[OF assms(1-3) l assms(6)] by blast
  have w: "rt_completion_wait c time s = Some (Wait t, s1)"
    using assms(4,5,7) s1(1-3,5,6) runningD(9)[OF assms(1)] by (simp add: rt_completion_wait_def RT_ASSERT_def not_in_interrupt_eq)
  have q: "tlists s1 (Suspend c) = [t]" "completions s1 = completions s"
    using s1(9) assms(5) cmp_field.get_kframe[OF s1(4)] by (simp_all add: waits_as_def)
  define s2 where "s2 = upd_cmp c (\<lambda>_. RT_COMPLETED) s1"
  have r2: "running s2 u" "tlists s2 (Suspend c) = [t]"
    using cmp_field.upd_running[OF s1(7)] q(1) by (simp_all add: s2_def cmp_field.upd_simps)
  obtain s3 v where s3: "rt_schedule (snd (rt_thread_resume t s2)) = Some s3" "running s3 v" "kframe s2 s3"
    "threads s3 = (threads s2)(t := (threads s2 t)\<lparr>stat := THREAD_READY\<rparr>)" "waits_as s2 s3 (Suspend c) []"
    "current_priority (threads s3 v) \<le> current_priority (threads s3 t)"
    using wakes_first[OF r2(1) l r2(2)] by blast
  have d: "rt_completion_done c s1 = Some s3"
    using assms(4) q r2(2) s3(1) by (simp add: rt_completion_done_def flip: s2_def)
  have e: "ready s3 t" "thread_error (threads s3 t) = RT_EOK"
    by (simp_all add: s3(4) ready_def s2_def cmp_field.upd_simps s1(8))
  show "\<exists>s1 u. rt_completion_wait c time s = Some (Wait t, s1) \<and> running s1 u \<and> u \<noteq> t
      \<and> tlists s1 (Suspend c) = [t] \<and> completions s1 = completions s
      \<and> (\<exists>s2 v r s3. rt_completion_done c s1 = Some s2 \<and> running s2 v \<and> ready s2 t
           \<and> current_priority (threads s2 v) \<le> current_priority (threads s2 t)
           \<and> rt_completion_wait_end c t s2 = (r, s3) \<and> r = RT_EOK
           \<and> completions s3 c = RT_UNCOMPLETED \<and> tlists s3 (Suspend c) = [])"
    using w s1(6,7) q d s3(2,5,6) e
    by (intro exI[of _ s1] exI[of _ u] conjI exI[of _ s3] exI[of _ v] exI[of _ RT_EOK] exI[of _ "upd_cmp c (\<lambda>_. RT_UNCOMPLETED) s3"])
       (simp_all add: rt_completion_wait_end_def cmp_field.get_upd cmp_field.upd_simps waits_as_def)
qed

text \<open>A completion raised while nobody waits is seen by every later wait: only a wait that slept
  lowers the flag.\<close>

lemma early_completion_seen_twice:
  assumes "completions s c \<noteq> RT_COMPLETED" "tlists s (Suspend c) = []"
  shows "\<exists>s'. rt_completion_done c s = Some s' \<and> rt_completion_wait c time s' = Some (Ret RT_EOK, s')
    \<and> rt_completion_done c s' = Some s'"
  using assms by (simp add: rt_completion_done_def rt_completion_wait_def cmp_field.upd_simps cmp_field.get_upd)

subsection \<open>Witnesses\<close>

definition demo_cmp :: cmp_state where
  "demo_cmp = demo_kernel \<lparr>devs = (\<lambda>_. demo_device), completions = (\<lambda>_. 0)\<rparr>"

lemma demo_cmp_facts: "running demo_cmp 1" "ready demo_cmp 2" "completions demo_cmp a \<noteq> RT_COMPLETED" "tlists demo_cmp (Suspend a) = []"
  unfolding demo_cmp_def by (rule demo_kernel_running)+ (simp_all add: demo_kernel_def sched_state.defs demo_sched_def demo_tlists_def)

theorem completion_handshake_witness:
  "\<exists>s1 s2. rt_completion_wait 7 5 demo_cmp = Some (Wait 1, s1) \<and> rt_completion_done 7 s1 = Some s2
    \<and> fst (rt_completion_wait_end 7 1 s2) = RT_EOK"
  using completion_handshake[OF demo_cmp_facts(1,2) _ demo_cmp_facts(3,4), of 5 7] by (auto simp: legal_time_def)

end
