(* ===== verification/DataQueue.thy ===== *)
theory DataQueue
  imports Completion Fifo
begin

text \<open>
  Data queues, \<^verbatim>\<open>components/drivers/src/dataqueue.c\<close>: a circular buffer of pointers with sizes, with
  threads that wait to push (list \<open>SuspendSender\<close>) and to pop (list \<open>Suspend\<close>), a low water mark,
  and a callback. The indices run freely and are reduced by a mask when the buffer is accessed; the
  differences of the 16-bit indices are computed as \<^verbatim>\<open>int\<close>. The callback is code of the user, the
  argument \<open>call\<close>. \<open>irq_off\<close> is the interrupt mask a call leaves behind.
\<close>

abbreviation (input) EVENT_POP :: rt_uint32_t where "EVENT_POP \<equiv> 1"
abbreviation (input) EVENT_PUSH :: rt_uint32_t where "EVENT_PUSH \<equiv> 2"
abbreviation (input) EVENT_LWM :: rt_uint32_t where "EVENT_LWM \<equiv> 3"

type_synonym rt_data_item = "nat \<times> rt_uint32_t"

record rt_data_queue =
  dq_size :: rt_uint16_t
  dq_lwm :: rt_uint16_t
  dq_waiting_lwm :: bool
  dq_get_index :: rt_uint16_t
  dq_put_index :: rt_uint16_t
  dq_queue :: nat
  dq_items :: "nat \<Rightarrow> rt_data_item"
  dq_evt_notify :: "nat option"

record dq_state = cmp_state +
  dqs :: "nat \<Rightarrow> rt_data_queue"
  irq_off :: bool

type_synonym 'a dq_callback = "nat \<Rightarrow> nat \<Rightarrow> rt_uint32_t \<Rightarrow> 'a dq_state_scheme \<Rightarrow> 'a dq_state_scheme option"

definition upd_dq :: "nat \<Rightarrow> (rt_data_queue \<Rightarrow> rt_data_queue) \<Rightarrow> 'a dq_state_scheme \<Rightarrow> 'a dq_state_scheme" where
  "upd_dq a f s = s\<lparr>dqs := (dqs s)(a := f (dqs s a))\<rparr>"

definition dq_notify :: "'a dq_callback \<Rightarrow> nat \<Rightarrow> rt_uint32_t \<Rightarrow> 'a dq_state_scheme \<Rightarrow> 'a dq_state_scheme option" where
  "dq_notify call queue event s =
     (case dq_evt_notify (dqs s queue) of None \<Rightarrow> Some s | Some f \<Rightarrow> call f queue event s)"

definition rt_data_queue_init :: "nat \<Rightarrow> rt_uint16_t \<Rightarrow> rt_uint16_t \<Rightarrow> nat option \<Rightarrow> 'a dq_state_scheme
    \<Rightarrow> (rt_err_t \<times> 'a dq_state_scheme) option" where
  "rt_data_queue_init queue sz lwm evt_notify s =
     do { let s = upd_dq queue (\<lambda>q. q\<lparr>dq_evt_notify := evt_notify, dq_size := sz, dq_lwm := lwm, dq_waiting_lwm := False,
                dq_get_index := 0, dq_put_index := 0\<rparr>) s;
          let s = upd_tlists (\<lambda>L. L(SuspendSender queue := [], Suspend queue := [])) s;
          (m, s) \<leftarrow> rt_malloc (8 * unat sz) s;
          Some (case m of
                  None \<Rightarrow> (- RT_ENOMEM, upd_dq queue (\<lambda>q. q\<lparr>dq_queue := 0\<rparr>) s)
                | Some a \<Rightarrow> (RT_EOK, upd_dq queue (\<lambda>q. q\<lparr>dq_queue := a\<rparr>) s)) }"

text \<open>The tests of the loops, and the accesses to the buffer.\<close>

definition dq_full :: "rt_data_queue \<Rightarrow> bool" where
  "dq_full q \<longleftrightarrow> int (unat (dq_put_index q)) - int (unat (dq_get_index q)) = int (unat (dq_size q))"

definition dq_low :: "rt_data_queue \<Rightarrow> bool" where
  "dq_low q \<longleftrightarrow> dq_waiting_lwm q
     \<and> int (unat (dq_put_index q)) - int (unat (dq_get_index q)) \<le> int (unat (dq_lwm q))"

definition dq_store :: "rt_data_item \<Rightarrow> rt_data_queue \<Rightarrow> rt_data_queue" where
  "dq_store d q = q\<lparr>dq_items := (dq_items q)(unat (dq_put_index q AND (dq_size q - 1)) := d),
     dq_put_index := dq_put_index q + 1\<rparr>"

definition dq_fetch :: "rt_data_queue \<Rightarrow> rt_data_item \<times> rt_data_queue" where
  "dq_fetch q = (dq_items q (unat (dq_get_index q AND (dq_size q - 1))), q\<lparr>dq_get_index := dq_get_index q + 1\<rparr>)"

definition dq_push_end :: "'a dq_callback \<Rightarrow> nat \<Rightarrow> rt_data_item \<Rightarrow> 'a dq_state_scheme
    \<Rightarrow> (rt_err_t \<times> 'a dq_state_scheme) option" where
  "dq_push_end call queue d s =
     (let s = upd_dq queue (dq_store d) s
      in case tlists s (Suspend queue) of
           t # _ \<Rightarrow> do { s \<leftarrow> rt_schedule (snd (rt_thread_resume t s)); Some (RT_EOK, s) }
         | [] \<Rightarrow> do { s \<leftarrow> dq_notify call queue EVENT_PUSH s; Some (RT_EOK, s) })"

partial_function (option) rt_data_queue_push :: "'a dq_callback \<Rightarrow> nat \<Rightarrow> rt_data_item \<Rightarrow> rt_uint32_t
    \<Rightarrow> 'a dq_state_scheme \<Rightarrow> ((rt_err_t, tid) outcome \<times> 'a dq_state_scheme) option" where
  "rt_data_queue_push call queue d timeout s =
     (if dq_full (dqs s queue) then
        let s = upd_dq queue (\<lambda>q. q\<lparr>dq_waiting_lwm := True\<rparr>) s
        in if timeout = 0 then Some (Ret (- RT_ETIMEOUT), s)
           else
             do { s \<leftarrow> RT_DEBUG_NOT_IN_INTERRUPT s;
                  t \<leftarrow> rt_thread_self s;
                  let s = upd_thread t (\<lambda>th. th\<lparr>thread_error := RT_EOK\<rparr>) s;
                  s \<leftarrow> start_wait_timer t timeout (suspend_at_end (SuspendSender queue) t s);
                  s \<leftarrow> rt_schedule s;
                  if rt_current_thread s \<noteq> Some t then Some (Wait t, s)
                  else if thread_error (threads s t) \<noteq> RT_EOK then Some (Ret (thread_error (threads s t)), s)
                  else rt_data_queue_push call queue d timeout s }
      else do { (r, s) \<leftarrow> dq_push_end call queue d s; Some (Ret r, s) })"

definition rt_data_queue_push_resume :: "'a dq_callback \<Rightarrow> nat \<Rightarrow> rt_data_item \<Rightarrow> rt_uint32_t \<Rightarrow> tid
    \<Rightarrow> 'a dq_state_scheme \<Rightarrow> ((rt_err_t, tid) outcome \<times> 'a dq_state_scheme) option" where
  "rt_data_queue_push_resume call queue d timeout t s =
     (if thread_error (threads s t) \<noteq> RT_EOK then Some (Ret (thread_error (threads s t)), s)
      else rt_data_queue_push call queue d timeout s)"

definition dq_pop_end :: "'a dq_callback \<Rightarrow> nat \<Rightarrow> 'a dq_state_scheme
    \<Rightarrow> ((rt_err_t \<times> rt_data_item option) \<times> 'a dq_state_scheme) option" where
  "dq_pop_end call queue s =
     (let (d, q) = dq_fetch (dqs s queue);
          s = upd_dq queue (\<lambda>_. q) s
      in if dq_low q then
           do { let s = upd_dq queue (\<lambda>q. q\<lparr>dq_waiting_lwm := False\<rparr>) s;
                s \<leftarrow> (case tlists s (SuspendSender queue) of
                        t # _ \<Rightarrow> rt_schedule (snd (rt_thread_resume t s))
                      | [] \<Rightarrow> Some (s\<lparr>irq_off := True\<rparr>));
                s \<leftarrow> dq_notify call queue EVENT_LWM s;
                Some ((RT_EOK, Some d), s) }
         else do { s \<leftarrow> dq_notify call queue EVENT_POP s; Some ((RT_EOK, Some d), s) })"

partial_function (option) rt_data_queue_pop :: "'a dq_callback \<Rightarrow> nat \<Rightarrow> rt_uint32_t
    \<Rightarrow> 'a dq_state_scheme \<Rightarrow> ((rt_err_t \<times> rt_data_item option, tid) outcome \<times> 'a dq_state_scheme) option" where
  "rt_data_queue_pop call queue timeout s =
     (if dq_get_index (dqs s queue) = dq_put_index (dqs s queue) then
        if timeout = 0 then Some (Ret (- RT_ETIMEOUT, None), s)
        else
          do { s \<leftarrow> RT_DEBUG_NOT_IN_INTERRUPT s;
               t \<leftarrow> rt_thread_self s;
               let s = upd_thread t (\<lambda>th. th\<lparr>thread_error := RT_EOK\<rparr>) s;
               s \<leftarrow> start_wait_timer t timeout (suspend_at_end (Suspend queue) t s);
               s \<leftarrow> rt_schedule s;
               if rt_current_thread s \<noteq> Some t then Some (Wait t, s)
               else if thread_error (threads s t) \<noteq> RT_EOK then Some (Ret (thread_error (threads s t), None), s)
               else rt_data_queue_pop call queue timeout s }
      else do { (r, s) \<leftarrow> dq_pop_end call queue s; Some (Ret r, s) })"

definition rt_data_queue_pop_resume :: "'a dq_callback \<Rightarrow> nat \<Rightarrow> rt_uint32_t \<Rightarrow> tid
    \<Rightarrow> 'a dq_state_scheme \<Rightarrow> ((rt_err_t \<times> rt_data_item option, tid) outcome \<times> 'a dq_state_scheme) option" where
  "rt_data_queue_pop_resume call queue timeout t s =
     (if thread_error (threads s t) \<noteq> RT_EOK then Some (Ret (thread_error (threads s t), None), s)
      else rt_data_queue_pop call queue timeout s)"

definition rt_data_queue_peak :: "nat \<Rightarrow> 'a dq_state_scheme \<Rightarrow> rt_err_t \<times> rt_data_item option" where
  "rt_data_queue_peak queue s =
     (if dq_get_index (dqs s queue) = dq_put_index (dqs s queue) then (- RT_EEMPTY, None)
      else (RT_EOK, Some (fst (dq_fetch (dqs s queue)))))"

definition rt_data_queue_reset :: "nat \<Rightarrow> 'a dq_state_scheme \<Rightarrow> 'a dq_state_scheme option" where
  "rt_data_queue_reset queue s =
     do { s \<leftarrow> rt_ipc_list_resume_all (Suspend queue) (rt_enter_critical s);
          s \<leftarrow> rt_ipc_list_resume_all (SuspendSender queue) s;
          s \<leftarrow> rt_exit_critical s;
          rt_schedule s }"

interpretation dq_field: kernel_field dqs upd_dq
  by unfold_locales (simp_all add: upd_dq_def kernel_as_def)

subsection \<open>The buffer is a bounded queue\<close>

definition dq_count :: "rt_data_queue \<Rightarrow> nat" where
  "dq_count q = unat (dq_put_index q - dq_get_index q)"

definition dq_ok :: "rt_data_queue \<Rightarrow> bool" where
  "dq_ok q \<longleftrightarrow> (\<exists>k<16. dq_size q = 2 ^ k) \<and> dq_count q \<le> unat (dq_size q)"

definition dq_data :: "rt_data_queue \<Rightarrow> rt_data_item list" where
  "dq_data q = ring_list (dq_items q) (unat (dq_get_index q) mod unat (dq_size q)) (dq_count q) (unat (dq_size q))"

lemma mask_index:
  fixes w sz :: rt_uint16_t
  assumes "sz = 2 ^ k" "k < 16"
  shows "unat (w AND (sz - 1)) = unat w mod unat sz" "unat sz = 2 ^ k"
proof -
  have "w AND (sz - 1) = w mod sz" 
    unfolding assms(1) by (metis mask_eq_exp_minus_1 take_bit_eq_mask take_bit_eq_mod)
  moreover show s: "unat sz = 2 ^ k"
  proof -
    have "(2 :: nat) ^ k < 2 ^ 16" using assms(2) by (intro power_strict_increasing) simp_all
    moreover have "sz = word_of_nat (2 ^ k)" using assms(1) by simp
    ultimately show ?thesis by (simp only: unat_of_nat) simp
  qed
  ultimately show "unat (w AND (sz - 1)) = unat w mod unat sz"
    by (simp only: unat_mod)
qed

text \<open>The free-running index is reduced modulo the size also when it wraps.\<close>

lemma mod_size_add:
  fixes a b :: rt_uint16_t
  assumes "k < 16"
  shows "unat (a + b) mod 2 ^ k = (unat a mod 2 ^ k + unat b) mod 2 ^ k"
proof -
  have "(2 :: nat) ^ k dvd 2 ^ 16" using assms by (intro le_imp_power_dvd) simp
  then have "(unat a + unat b) mod 2 ^ 16 mod 2 ^ k = (unat a + unat b) mod 2 ^ k" by (rule mod_mod_cancel)
  then show ?thesis by (simp add: unat_word_ariths mod_add_left_eq)
qed

lemma dq_store_ok:
  assumes ok: "dq_ok q" and room: "dq_count q < unat (dq_size q)"
  shows "dq_ok (dq_store d q)" "dq_data (dq_store d q) = dq_data q @ [d]"
proof -
  obtain k where k: "k < 16" "dq_size q = 2 ^ k" using ok by (auto simp: dq_ok_def)
  note m = mask_index[OF k(2,1)]
  have "unat (dq_size q) \<le> 2 ^ 15" using m(2) k(1) power_increasing[of k 15 "2 :: nat"] by simp
  then have "dq_count q < 2 ^ 15" using room by simp
  then have c: "dq_count (dq_store d q) = Suc (dq_count q)"
    using unat_add_small[of "dq_put_index q - dq_get_index q" 1]
    by (simp add: dq_count_def dq_store_def diff_add_eq)
  have i: "unat (dq_put_index q AND (dq_size q - 1)) = (unat (dq_get_index q) mod unat (dq_size q) + dq_count q) mod unat (dq_size q)"
    unfolding m dq_count_def using mod_size_add[OF k(1), of "dq_get_index q" "dq_put_index q - dq_get_index q"]
    by (simp only: add_diff_cancel_left' diff_add_cancel add.commute[of _ "_ - _"])
  have s: "dq_size (dq_store d q) = dq_size q" "dq_get_index (dq_store d q) = dq_get_index q"
    "dq_items (dq_store d q) = (dq_items q)(unat (dq_put_index q AND (dq_size q - 1)) := d)" by (simp_all add: dq_store_def)
  show "dq_ok (dq_store d q)" using ok c room by (simp add: dq_ok_def s)
  show "dq_data (dq_store d q) = dq_data q @ [d]"
    using ring_push[OF room i, of "dq_items q" d] c by (simp add: dq_data_def s)
qed

lemma dq_fetch_ok:
  assumes ok: "dq_ok q" and some: "dq_get_index q \<noteq> dq_put_index q"
  shows "dq_ok (snd (dq_fetch q))" "dq_data q = fst (dq_fetch q) # dq_data (snd (dq_fetch q))"
proof -
  obtain k where k: "k < 16" "dq_size q = 2 ^ k" using ok by (auto simp: dq_ok_def)
  note m = mask_index[OF k(2,1)]
  define w where "w = dq_put_index q - dq_get_index q"
  have w: "w \<noteq> 0" "0 < dq_count q" using some by (auto simp: w_def dq_count_def unat_gt_0)
  have "dq_put_index q - (dq_get_index q + 1) = w - 1" by (simp add: w_def)
  then have c: "dq_count (snd (dq_fetch q)) = dq_count q - 1"
    using unat_minus_one[OF w(1)] by (simp add: dq_count_def dq_fetch_def w_def diff_diff_eq)
  have g: "unat (dq_get_index q + 1) mod unat (dq_size q) = Suc (unat (dq_get_index q) mod unat (dq_size q)) mod unat (dq_size q)"
    using mod_size_add[OF k(1), of "dq_get_index q" 1] m(2) by simp
  have lt: "unat (dq_get_index q) mod unat (dq_size q) < unat (dq_size q)" using m(2) by simp
  have sz: "dq_size (snd (dq_fetch q)) = dq_size q" by (simp add: dq_fetch_def)
  show "dq_ok (snd (dq_fetch q))" using ok c unfolding dq_ok_def sz by (intro conjI) (blast, linarith)
  show "dq_data q = fst (dq_fetch q) # dq_data (snd (dq_fetch q))"
    using ring_pop[OF w(2) lt, of "dq_items q"] c g m(1) by (simp add: dq_data_def) (simp add: dq_fetch_def)
qed


interpretation data_queue_fifo: fifo dq_ok dq_data "\<lambda>q. unat (dq_size q)" dq_store dq_fetch
proof (unfold_locales, goal_cases)
  case (1 q d)
  then show ?case using dq_store_ok(1) by (simp add: dq_data_def)
next
  case (2 q d)
  then show ?case using dq_store_ok(2) by (simp add: dq_data_def)
next
  case (4 q)
  then have "dq_get_index q \<noteq> dq_put_index q" by (auto simp: dq_data_def dq_count_def)
  then show ?case using 4 dq_fetch_ok(1) by blast
next
  case (5 q)
  then have "dq_get_index q \<noteq> dq_put_index q" by (auto simp: dq_data_def dq_count_def)
  then show ?case using 5 dq_fetch_ok(2) by blast
qed (simp_all add: dq_store_def dq_fetch_def dq_data_def dq_ok_def)

text \<open>Without a wrap of the put index the difference of the indices is the number of entries.\<close>

lemma dq_difference:
  "dq_get_index q \<le> dq_put_index q \<Longrightarrow> int (unat (dq_put_index q)) - int (unat (dq_get_index q)) = int (dq_count q)"
  by (simp add: dq_count_def unat_sub word_le_nat_alt)

lemma dq_full_iff:
  assumes "dq_get_index q \<le> dq_put_index q"
  shows "dq_full q \<longleftrightarrow> length (dq_data q) = unat (dq_size q)"
  unfolding dq_full_def dq_difference[OF assms] of_nat_eq_iff by (simp add: dq_data_def)

lemma dq_empty_iff: "dq_get_index q = dq_put_index q \<longleftrightarrow> dq_data q = []"
  by (auto simp: dq_data_def dq_count_def unat_eq_0)

subsection \<open>Properties\<close>

lemma dq_push_room:
  assumes run: "running s t" and ok: "dq_ok (dqs s queue)" and ix: "dq_get_index (dqs s queue) \<le> dq_put_index (dqs s queue)"
    and room: "length (dq_data (dqs s queue)) < unat (dq_size (dqs s queue))"
  shows "\<exists>s' u. running s' u \<and> dq_data (dqs s' queue) = dq_data (dqs s queue) @ [d] \<and> dq_ok (dqs s' queue)
    \<and> waits_as s s' (Suspend queue) (tl (tlists s (Suspend queue)))
    \<and> (\<forall>w ws. tlists s (Suspend queue) = w # ws \<longrightarrow> ready s' w)
    \<and> rt_data_queue_push call queue d timeout s
        = do { s \<leftarrow> (if tlists s (Suspend queue) = [] then dq_notify call queue EVENT_PUSH s' else Some s'); Some (Ret RT_EOK, s) }"
proof -
  define s1 where "s1 = upd_dq queue (dq_store d) s"
  have nf: "\<not> dq_full (dqs s queue)" using room dq_full_iff[OF ix] by simp
  have r1: "running s1 t" "tlists s1 = tlists s" unfolding s1_def by (rule dq_field.upd_running[OF run]) (simp add: dq_field.upd_simps)
  have q1: "dq_data (dqs s1 queue) = dq_data (dqs s queue) @ [d]" "dq_ok (dqs s1 queue)"
    using dq_store_ok[OF ok] room by (simp_all add: s1_def dq_field.get_upd dq_data_def)
  show ?thesis
  proof (cases "tlists s (Suspend queue)")
    case Nil
    then have "rt_data_queue_push call queue d timeout s = do { s \<leftarrow> dq_notify call queue EVENT_PUSH s1; Some (Ret RT_EOK, s) }"
      using nf r1(2) by (subst rt_data_queue_push.simps) (simp add: dq_push_end_def flip: s1_def)
    then show ?thesis using room Nil r1 q1 by (intro exI[of _ s1] exI[of _ t]) (simp add: waits_as_def)
  next
    case (Cons w ws)
    obtain s' u where s': "rt_schedule (snd (rt_thread_resume w s1)) = Some s'" "running s' u" "kframe s1 s'"
      "threads s' = (threads s1)(w := (threads s1 w)\<lparr>stat := THREAD_READY\<rparr>)" "waits_as s1 s' (Suspend queue) ws"
      using wakes_first[OF r1(1), of "Suspend queue" w ws] r1(2) Cons by auto
    have "rt_data_queue_push call queue d timeout s = Some (Ret RT_EOK, s')"
      using nf r1(2) Cons s'(1) by (subst rt_data_queue_push.simps) (simp add: dq_push_end_def flip: s1_def)
    then show ?thesis using room Cons s' q1 r1(2) dq_field.get_kframe[OF s'(3)]
      by (intro exI[of _ s'] exI[of _ u]) (simp add: waits_as_def ready_def)
  qed
qed

lemma dq_push_full:
  assumes run: "running s t" and other: "ready s i" "i \<noteq> t" and ok: "dq_ok (dqs s queue)" and time: "legal_time timeout"
    and ix: "dq_get_index (dqs s queue) \<le> dq_put_index (dqs s queue)"
    and no_room: "\<not> length (dq_data (dqs s queue)) < unat (dq_size (dqs s queue))"
  shows "\<exists>s' u. running s' u \<and> dq_data (dqs s' queue) = dq_data (dqs s queue) \<and> dq_waiting_lwm (dqs s' queue) \<and>
    (if timeout = 0 then rt_data_queue_push call queue d timeout s = Some (Ret (- RT_ETIMEOUT), s') \<and> u = t
     else rt_data_queue_push call queue d timeout s = Some (Wait t, s') \<and> u \<noteq> t
       \<and> waits_as s s' (SuspendSender queue) (tlists s (SuspendSender queue) @ [t]))"
proof -
  have full: "dq_full (dqs s queue)"
    using no_room dq_full_iff[OF ix] ok by (auto simp: dq_ok_def dq_data_def)
  define s1 where "s1 = upd_dq queue (\<lambda>q. q\<lparr>dq_waiting_lwm := True\<rparr>) s"
  have r1: "running s1 t" "tlists s1 = tlists s" "ready s1 i"
    using dq_field.upd_running[OF run] other(1) by (simp_all add: s1_def dq_field.upd_simps ready_def)
  have q1: "dq_data (dqs s1 queue) = dq_data (dqs s queue)" "dq_waiting_lwm (dqs s1 queue)"
    by (simp_all add: s1_def dq_field.get_upd dq_data_def dq_count_def)
  show ?thesis
  proof (cases "timeout = 0")
    case True
    then have "rt_data_queue_push call queue d timeout s = Some (Ret (- RT_ETIMEOUT), s1)"
      using full by (subst rt_data_queue_push.simps) (simp add: s1_def)
    then show ?thesis using True r1 q1 by (intro exI[of _ s1] exI[of _ t]) simp
  next
    case t0: False
    let ?s = "suspend_at_end (SuspendSender queue) t (upd_thread t (\<lambda>th. th\<lparr>thread_error := RT_EOK\<rparr>) s1)"
    obtain s2 s' u where s': "start_wait_timer t timeout ?s = Some s2" "rt_schedule s2 = Some s'" "kframe s1 s'"
      "rt_current_thread s' = Some u" "u \<noteq> t" "running s' u" "waits_as s1 s' (SuspendSender queue) (tlists s1 (SuspendSender queue) @ [t])"
      using waits_at_back[OF r1(1,3) other(2) _ time, of "SuspendSender queue"] by auto
    have "rt_data_queue_push call queue d timeout s = Some (Wait t, s')"
      using full t0 s'(1,2,4,5) runningD(6,9)[OF r1(1)]
      by (subst rt_data_queue_push.simps) (simp add: not_in_interrupt_eq flip: s1_def)
    then show ?thesis using t0 s'(5,6,7) q1 r1(2) dq_field.get_kframe[OF s'(3)]
      by (intro exI[of _ s'] exI[of _ u]) (simp add: waits_as_def)
  qed
qed

text \<open>As long as the put index has not wrapped, pushing into a data queue with room appends the item and
  makes the first thread that waits to pop ready, or calls the callback when no thread waits;
  pushing into a full queue notes that the low water mark is waited for, and reports a timeout at
  once or suspends the thread behind the others that wait to push.\<close>

theorem rt_data_queue_push_correct:
  assumes "running s t" "ready s i" "i \<noteq> t" "dq_ok (dqs s queue)" "legal_time timeout"
    and "dq_get_index (dqs s queue) \<le> dq_put_index (dqs s queue)"
  shows "\<exists>s' u. running s' u \<and>
    (if length (dq_data (dqs s queue)) < unat (dq_size (dqs s queue)) then
       dq_data (dqs s' queue) = dq_data (dqs s queue) @ [d] \<and> dq_ok (dqs s' queue)
       \<and> waits_as s s' (Suspend queue) (tl (tlists s (Suspend queue)))
       \<and> (\<forall>w ws. tlists s (Suspend queue) = w # ws \<longrightarrow> ready s' w)
       \<and> rt_data_queue_push call queue d timeout s
           = do { s \<leftarrow> (if tlists s (Suspend queue) = [] then dq_notify call queue EVENT_PUSH s' else Some s'); Some (Ret RT_EOK, s) }
     else dq_data (dqs s' queue) = dq_data (dqs s queue) \<and> dq_waiting_lwm (dqs s' queue) \<and>
       (if timeout = 0 then rt_data_queue_push call queue d timeout s = Some (Ret (- RT_ETIMEOUT), s') \<and> u = t
        else rt_data_queue_push call queue d timeout s = Some (Wait t, s') \<and> u \<noteq> t
          \<and> waits_as s s' (SuspendSender queue) (tlists s (SuspendSender queue) @ [t])))"
proof (cases "length (dq_data (dqs s queue)) < unat (dq_size (dqs s queue))")
  case True
  then show ?thesis unfolding if_P[OF True] by (rule dq_push_room[OF assms(1,4,6)])
next
  case False
  then show ?thesis unfolding if_not_P[OF False] by (rule dq_push_full[OF assms(1-6)])
qed


text \<open>Popping, when the queue is not empty: the fetch, and what follows it.\<close>

lemma dq_pop_end_ok:
  assumes "running s t" "dq_ok (dqs s queue)" "dq_data (dqs s queue) = d # ds"
  defines "q \<equiv> snd (dq_fetch (dqs s queue))"
  shows "\<exists>s' u. running s' u \<and> dq_data (dqs s' queue) = ds \<and> dq_ok (dqs s' queue)
    \<and> dq_waiting_lwm (dqs s' queue) = (dq_waiting_lwm q \<and> \<not> dq_low q)
    \<and> waits_as s s' (SuspendSender queue) (if dq_low q then tl (tlists s (SuspendSender queue)) else tlists s (SuspendSender queue))
    \<and> (dq_low q \<longrightarrow> (\<forall>w ws. tlists s (SuspendSender queue) = w # ws \<longrightarrow> ready s' w))
    \<and> irq_off s' = (irq_off s \<or> dq_low q \<and> tlists s (SuspendSender queue) = [])
    \<and> dq_pop_end call queue s
        = do { s \<leftarrow> dq_notify call queue (if dq_low q then EVENT_LWM else EVENT_POP) s'; Some ((RT_EOK, Some d), s) }"
proof -
  let ?l = "SuspendSender queue"
  have ne: "dq_get_index (dqs s queue) \<noteq> dq_put_index (dqs s queue)" using assms(3) by (simp add: dq_empty_iff)
  obtain f: "dq_fetch (dqs s queue) = (d, q)" "dq_data q = ds" "dq_ok q"
    using dq_fetch_ok[OF assms(2) ne] assms(3) by (cases "dq_fetch (dqs s queue)") (simp add: q_def)
  define s1 where "s1 = upd_dq queue (\<lambda>_. q) s"
  define s2 where "s2 = upd_dq queue (\<lambda>q. q\<lparr>dq_waiting_lwm := False\<rparr>) s1"
  have r: "running s1 t" "running s2 t" unfolding s1_def s2_def by (intro dq_field.upd_running assms(1))+
  have e: "tlists s1 = tlists s" "tlists s2 = tlists s" "dqs s1 queue = q" "dqs s2 queue = q\<lparr>dq_waiting_lwm := False\<rparr>"
    "irq_off s1 = irq_off s" "irq_off s2 = irq_off s"
    by (simp_all add: s1_def s2_def dq_field.upd_simps dq_field.get_upd) (simp_all add: upd_dq_def)
  have q2: "dq_data (q\<lparr>dq_waiting_lwm := False\<rparr>) = ds" "dq_ok (q\<lparr>dq_waiting_lwm := False\<rparr>)"
    using f(2,3) by (simp_all add: dq_data_def dq_ok_def dq_count_def)
  show ?thesis
  proof (cases "dq_low q")
    case False
    have "dq_pop_end call queue s = do { s \<leftarrow> dq_notify call queue EVENT_POP s1; Some ((RT_EOK, Some d), s) }"
      using False f(1) by (simp add: dq_pop_end_def s1_def)
    then show ?thesis using False r(1) e f(2,3) by (intro exI[of _ s1] exI[of _ t]) (simp add: waits_as_def)
  next
    case low: True
    show ?thesis
    proof (cases "tlists s ?l")
      case Nil
      have "running (s2\<lparr>irq_off := True\<rparr>) t" using r(2) kinv_cong[of s2 "s2\<lparr>irq_off := True\<rparr>"]
        by (simp add: running_def ready_def)
      moreover have "dq_pop_end call queue s = do { s \<leftarrow> dq_notify call queue EVENT_LWM (s2\<lparr>irq_off := True\<rparr>); Some ((RT_EOK, Some d), s) }"
        using low f(1) Nil e(2) by (simp add: dq_pop_end_def flip: s1_def s2_def)
      ultimately show ?thesis using low Nil e q2
        by (intro exI[of _ "s2\<lparr>irq_off := True\<rparr>"] exI[of _ t]) (simp add: waits_as_def)
    next
      case (Cons w ws)
      obtain s' u where s': "rt_schedule (snd (rt_thread_resume w s2)) = Some s'" "running s' u" "kframe s2 s'"
        "threads s' = (threads s2)(w := (threads s2 w)\<lparr>stat := THREAD_READY\<rparr>)" "waits_as s2 s' ?l ws"
        using wakes_first[OF r(2), of ?l w ws] e(2) Cons by auto
      have "irq_off s' = irq_off s2" using arg_cong[OF s'(3)[unfolded kframe_def], of irq_off] by (simp add: kernel_as_def)
      moreover have "dq_pop_end call queue s = do { s \<leftarrow> dq_notify call queue EVENT_LWM s'; Some ((RT_EOK, Some d), s) }"
        using low f(1) Cons e(2) s'(1) by (simp add: dq_pop_end_def flip: s1_def s2_def)
      ultimately show ?thesis using low Cons e q2 s' dq_field.get_kframe[OF s'(3)]
        by (intro exI[of _ s'] exI[of _ u]) (simp add: waits_as_def ready_def)
    qed
  qed
qed

text \<open>C19: Popping takes the oldest item out of the queue. When the low water mark was waited for and the put index less
  the new get index, as integers, is not above it, the queue waits for it no longer and the first thread that waits to push becomes ready; if there is none, the call returns
  with the interrupts still disabled. An empty queue reports a timeout at once or suspends the
  thread behind the others that wait to pop.\<close>

theorem rt_data_queue_pop_correct:
  assumes "running s t" "ready s i" "i \<noteq> t" "dq_ok (dqs s queue)" "legal_time timeout"
  shows "\<exists>s' u. running s' u \<and> dq_ok (dqs s' queue) \<and>
    (case dq_data (dqs s queue) of
       d # ds \<Rightarrow>
         (let q = dqs s queue;
              low = (dq_waiting_lwm q \<and> int (unat (dq_put_index q)) - int (unat (dq_get_index q + 1)) \<le> int (unat (dq_lwm q))) in
          dq_data (dqs s' queue) = ds
          \<and> dq_waiting_lwm (dqs s' queue) = (dq_waiting_lwm q \<and> \<not> low)
          \<and> irq_off s' = (irq_off s \<or> low \<and> tlists s (SuspendSender queue) = [])
          \<and> (low \<longrightarrow> (\<forall>w ws. tlists s (SuspendSender queue) = w # ws \<longrightarrow> ready s' w))
          \<and> rt_data_queue_pop call queue timeout s
              = do { s \<leftarrow> dq_notify call queue (if low then EVENT_LWM else EVENT_POP) s'; Some (Ret (RT_EOK, Some d), s) })
     | [] \<Rightarrow>
         if timeout = 0 then rt_data_queue_pop call queue timeout s = Some (Ret (- RT_ETIMEOUT, None), s') \<and> s' = s
         else rt_data_queue_pop call queue timeout s = Some (Wait t, s') \<and> u \<noteq> t \<and> dqs s' = dqs s
           \<and> waits_as s s' (Suspend queue) (tlists s (Suspend queue) @ [t]))"
proof (cases "dq_data (dqs s queue)")
  case (Cons d ds)
  then have ne: "dq_get_index (dqs s queue) \<noteq> dq_put_index (dqs s queue)" by (simp add: dq_empty_iff)
  let ?low = "dq_low (snd (dq_fetch (dqs s queue)))"
  obtain s' u where s': "running s' u" "dq_data (dqs s' queue) = ds" "dq_ok (dqs s' queue)"
    "dq_waiting_lwm (dqs s' queue) = (dq_waiting_lwm (snd (dq_fetch (dqs s queue))) \<and> \<not> ?low)"
    "dq_low (snd (dq_fetch (dqs s queue))) \<longrightarrow> (\<forall>w ws. tlists s (SuspendSender queue) = w # ws \<longrightarrow> ready s' w)"
    "irq_off s' = (irq_off s \<or> dq_low (snd (dq_fetch (dqs s queue))) \<and> tlists s (SuspendSender queue) = [])"
    "dq_pop_end call queue s = do { s \<leftarrow> dq_notify call queue (if dq_low (snd (dq_fetch (dqs s queue))) then EVENT_LWM else EVENT_POP) s';
        Some ((RT_EOK, Some d), s) }"
    using dq_pop_end_ok[OF assms(1,4) Cons] by blast
  have "rt_data_queue_pop call queue timeout s = do { s \<leftarrow> dq_notify call queue
      (if dq_low (snd (dq_fetch (dqs s queue))) then EVENT_LWM else EVENT_POP) s'; Some (Ret (RT_EOK, Some d), s) }"
    using ne s'(7) by (subst rt_data_queue_pop.simps) simp
  moreover have "dq_waiting_lwm (snd (dq_fetch (dqs s queue))) = dq_waiting_lwm (dqs s queue)"
    "?low = (dq_waiting_lwm (dqs s queue) \<and> int (unat (dq_put_index (dqs s queue))) - int (unat (dq_get_index (dqs s queue) + 1))
       \<le> int (unat (dq_lwm (dqs s queue))))"
    by (simp_all add: dq_low_def dq_fetch_def)
  ultimately show ?thesis using Cons s'(1-6) by (intro exI[of _ s'] exI[of _ u]) (simp add: Let_def)
next
  case Nil
  then have z: "dq_get_index (dqs s queue) = dq_put_index (dqs s queue)" by (simp add: dq_empty_iff)
  show ?thesis
  proof (cases "timeout = 0")
    case True
    then have "rt_data_queue_pop call queue timeout s = Some (Ret (- RT_ETIMEOUT, None), s)"
      using z by (subst rt_data_queue_pop.simps) simp
    then show ?thesis using Nil True assms(1,4) by (intro exI[of _ s] exI[of _ t]) simp
  next
    case False
    let ?s = "suspend_at_end (Suspend queue) t (upd_thread t (\<lambda>th. th\<lparr>thread_error := RT_EOK\<rparr>) s)"
    obtain s2 s' u where s': "start_wait_timer t timeout ?s = Some s2" "rt_schedule s2 = Some s'" "kframe s s'"
      "rt_current_thread s' = Some u" "u \<noteq> t" "running s' u" "waits_as s s' (Suspend queue) (tlists s (Suspend queue) @ [t])"
      using waits_at_back[OF assms(1-3) _ assms(5), of "Suspend queue"] by auto
    have "rt_data_queue_pop call queue timeout s = Some (Wait t, s')"
      using z False s'(1,2,4,5) runningD(6,9)[OF assms(1)]
      by (subst rt_data_queue_pop.simps) (simp add: not_in_interrupt_eq)
    then show ?thesis using Nil False s'(5,6,7) assms(4) dq_field.get_kframe[OF s'(3)]
      by (intro exI[of _ s'] exI[of _ u]) simp
  qed
qed

text \<open>Items come out of the buffer of a data queue in the order they went in, through any sequence of
  stores and fetches, with stores into a full and fetches from an empty buffer refused; the
  free-running indices may wrap any number of times.\<close>

theorem data_queue_delivers_in_order:
  assumes "dq_ok q" "data_queue_fifo.run ops q = (ins, outs, q')"
  shows "dq_ok q' \<and> dq_size q' = dq_size q \<and> dq_data q @ ins = outs @ dq_data q'"
  using data_queue_fifo.run_order[OF assms] by (simp add: word_unat_eq_iff)

text \<open>The test for a full queue fails once the put index has wrapped and the get index has not: a push
  into a full queue then succeeds and overwrites the oldest item, which the next pop does not
  return.\<close>

theorem full_test_fails_after_wrap:
  assumes "dq_ok (dqs s queue)" "length (dq_data (dqs s queue)) = unat (dq_size (dqs s queue))"
    and "dq_put_index (dqs s queue) < dq_get_index (dqs s queue)" "tlists s (Suspend queue) = []" "dq_evt_notify (dqs s queue) = None"
  shows "\<exists>s'. rt_data_queue_push call queue d timeout s = Some (Ret RT_EOK, s')
    \<and> rt_data_queue_peak queue s' = (RT_EOK, Some d)"
proof -
  define q where "q = dqs s queue"
  obtain k where k: "k < 16" "dq_size q = 2 ^ k" using assms(1) by (auto simp: dq_ok_def q_def)
  note m = mask_index[OF k(2,1)]
  have c: "dq_count q = 2 ^ k" using assms(2) m(2) by (simp add: q_def dq_data_def)
  have "int (unat (dq_put_index q)) < int (unat (dq_get_index q))" using assms(3) unfolding q_def word_less_nat_alt of_nat_less_iff .
  moreover have "0 \<le> int (unat (dq_size q))" by simp
  ultimately have nf: "\<not> dq_full q" unfolding dq_full_def by linarith
  have push: "rt_data_queue_push call queue d timeout s = Some (Ret RT_EOK, upd_dq queue (dq_store d) s)"
    using nf assms(4,5) by (subst rt_data_queue_push.simps)
      (simp add: q_def dq_push_end_def dq_notify_def dq_field.upd_simps dq_field.get_upd, simp add: dq_store_def)
  have "unat (dq_put_index q) mod 2 ^ k = (unat (dq_get_index q) mod 2 ^ k + dq_count q) mod 2 ^ k"
    using mod_size_add[OF k(1), of "dq_get_index q" "dq_put_index q - dq_get_index q"] by (simp add: dq_count_def)
  then have "unat (dq_put_index q) mod 2 ^ k = unat (dq_get_index q) mod 2 ^ k" by (simp add: c)
  then have slot: "unat (dq_put_index q AND (dq_size q - 1)) = unat (dq_get_index q AND (dq_size q - 1))"
    using m by simp
  have "dq_get_index q \<noteq> dq_put_index q + 1"
  proof
    have "(- 1 :: rt_uint16_t) = 0xffff" by simp
    then have n1: "unat (- 1 :: rt_uint16_t) = 65535" by (simp only: unat_numeral) simp
    assume "dq_get_index q = dq_put_index q + 1"
    then have "dq_count q = unat (- 1 :: rt_uint16_t)" by (simp add: dq_count_def)
    moreover have "(2 :: nat) ^ k \<le> 2 ^ 15" using k(1) by (intro power_increasing) simp_all
    ultimately show False using c n1 by simp
  qed
  then have "rt_data_queue_peak queue (upd_dq queue (dq_store d) s) = (RT_EOK, Some d)"
    using slot by (simp add: rt_data_queue_peak_def dq_field.get_upd dq_fetch_def dq_store_def flip: q_def)
  then show ?thesis using push by blast
qed

subsection \<open>Witnesses\<close>

text \<open>Queue 7 holds one item of two; queue 8 is full, and its put index has wrapped.\<close>

definition demo_queue :: "rt_uint16_t \<Rightarrow> rt_uint16_t \<Rightarrow> rt_data_queue" where
  "demo_queue g p = \<lparr>dq_size = 2, dq_lwm = 1, dq_waiting_lwm = True, dq_get_index = g, dq_put_index = p, dq_queue = 0,
     dq_items = (\<lambda>i. (i, 4)), dq_evt_notify = None\<rparr>"

definition demo_dq :: dq_state where
  "demo_dq = demo_kernel \<lparr>devs = (\<lambda>_. demo_device), completions = (\<lambda>_. 0), dqs = (\<lambda>a. if a = 7 then demo_queue 1 2 else demo_queue 0xffff 1), irq_off = False\<rparr>"

lemma demo_dq_facts:
  "running demo_dq 1" "ready demo_dq 2" "dqs demo_dq 7 = demo_queue 1 2" "dqs demo_dq 8 = demo_queue 0xffff 1"
  "tlists demo_dq (Suspend a) = []" "tlists demo_dq (SuspendSender a) = []" "irq_off demo_dq = False"
  unfolding demo_dq_def by (rule demo_kernel_running)+ (simp_all add: demo_kernel_def sched_state.defs demo_sched_def demo_tlists_def)

lemma demo_queue_facts:
  "dq_ok (demo_queue 1 2)" "dq_ok (demo_queue 0xffff 1)" "dq_data (demo_queue 1 2) = [(1, 4)]"
  "dq_data (demo_queue 0xffff 1) = [(1, 4), (0, 4)]" "unat (dq_size (demo_queue g p)) = 2"
  "dq_get_index (demo_queue g p) = g" "dq_put_index (demo_queue g p) = p" "dq_evt_notify (demo_queue g p) = None"
  "dq_waiting_lwm (demo_queue g p)" "dq_lwm (demo_queue g p) = 1"
proof -
  have "\<exists>k<16. (2 :: rt_uint16_t) = 2 ^ k" by (rule exI[of _ 1]) simp
  then show "dq_ok (demo_queue 1 2)" "dq_ok (demo_queue 0xffff 1)"
    by (simp_all add: dq_ok_def demo_queue_def dq_count_def)
qed (simp_all add: demo_queue_def dq_data_def dq_count_def ring_list_def upt_rec dq_low_def dq_fetch_def)

theorem rt_data_queue_push_correct_witness:
  "\<exists>s'. rt_data_queue_push (\<lambda>_ _ _ s. Some s) 7 (9, 4) 0 demo_dq = Some (Ret RT_EOK, s')
     \<and> dq_data (dqs s' 7) = [(1, 4), (9, 4)]"
  using rt_data_queue_push_correct[OF demo_dq_facts(1,2), of 7 0 "(9, 4)" "\<lambda>_ _ _ s. Some s"]
  by (auto simp: demo_dq_facts demo_queue_facts legal_time_def dq_notify_def split: option.splits)

theorem rt_data_queue_pop_correct_witness:
  "\<exists>s'. rt_data_queue_pop (\<lambda>_ _ _ s. Some s) 7 0 demo_dq = Some (Ret (RT_EOK, Some (1, 4)), s')
     \<and> dq_data (dqs s' 7) = [] \<and> irq_off s'"
  using rt_data_queue_pop_correct[OF demo_dq_facts(1,2), of 7 0 "\<lambda>_ _ _ s. Some s"]
  by (auto simp: demo_dq_facts demo_queue_facts legal_time_def dq_notify_def split: option.splits)

theorem data_queue_delivers_in_order_witness:
  "\<exists>ins outs q'. data_queue_fifo.run [Put (9, 4), Get, Get] (demo_queue 0xffff 1) = (ins, outs, q')
     \<and> dq_ok q' \<and> (1, 4) # (0, 4) # ins = outs @ dq_data q'"
proof -
  obtain ins outs q' where r: "data_queue_fifo.run [Put (9, 4), Get, Get] (demo_queue 0xffff 1) = (ins, outs, q')"
    by (metis prod_cases3)
  show ?thesis using data_queue_delivers_in_order[OF demo_queue_facts(2) r] r demo_queue_facts(4) by auto
qed

theorem full_test_fails_after_wrap_witness:
  "\<exists>s'. rt_data_queue_push (\<lambda>_ _ _ s. Some s) 8 (9, 4) 0 demo_dq = Some (Ret RT_EOK, s')
     \<and> rt_data_queue_peak 8 s' = (RT_EOK, Some (9, 4))"
  using full_test_fails_after_wrap[of demo_dq 8 "\<lambda>_ _ _ s. Some s" "(9, 4)" 0]
  by (simp add: demo_dq_facts demo_queue_facts)

end
