(* ===== verification/Console.thy ===== *)
theory Console
  imports KPrintf Device
begin

text \<open>
  The system console of \<^verbatim>\<open>src/kservice.c\<close>: the choice of the console device, and \<^verbatim>\<open>rt_kprintf\<close>, which
  formats into a static buffer of \<^verbatim>\<open>RT_CONSOLEBUF_SIZE\<close> bytes and writes it to the console device.
  Without a console device the text goes to \<^verbatim>\<open>rt_hw_console_output\<close>, which a board may define; it is
  the argument \<open>hw_output\<close>, called with the address of the buffer. A driver that puts the caller to
  sleep lets \<^verbatim>\<open>rt_kprintf\<close> go on with \<open>rt_kprintf_end\<close>.
\<close>

abbreviation (input) RT_CONSOLEBUF_SIZE :: nat where "RT_CONSOLEBUF_SIZE \<equiv> 128"

record con_state = dev_state +
  console_device :: "nat option"
  rt_log_buf :: nat
  log_bytes :: bmem

definition rt_console_get_device :: "'a con_state_scheme \<Rightarrow> nat option" where
  "rt_console_get_device s = console_device s"

definition rt_console_set_device :: "('a con_state_scheme, 'w) driver \<Rightarrow> 8 word list \<Rightarrow> 'a con_state_scheme
    \<Rightarrow> (nat option \<times> 'a con_state_scheme) option" where
  "rt_console_set_device drv name s =
     (let old = console_device s in
      do { (r, s) \<leftarrow> rt_device_find name s;
           (case r of
              None \<Rightarrow> Some (old, s)
            | Some (ThreadTimer _) \<Rightarrow> None
            | Some (At d) \<Rightarrow>
                do { s \<leftarrow> (case console_device s of
                            None \<Rightarrow> Some s
                          | Some c \<Rightarrow> map_option snd (rt_device_close drv c s));
                     let s = s\<lparr>console_device := Some d\<rparr>;
                     (_, s) \<leftarrow> rt_device_open drv d OFLAG_RDWR s;
                     Some (old, s) }) })"

definition rt_kprintf_end :: "nat \<Rightarrow> rt_uint16_t \<Rightarrow> 'a con_state_scheme \<Rightarrow> 'a con_state_scheme" where
  "rt_kprintf_end d old_flag s = upd_dev d (\<lambda>v. v\<lparr>dev_flag := old_flag\<rparr>) s"

definition rt_kprintf :: "('a con_state_scheme, 'w) driver \<Rightarrow> (nat \<Rightarrow> 'a con_state_scheme \<Rightarrow> 'a con_state_scheme option)
    \<Rightarrow> 8 word list \<Rightarrow> va_arg list \<Rightarrow> 'a con_state_scheme \<Rightarrow> ((unit, 'w \<times> nat \<times> rt_uint16_t) outcome \<times> 'a con_state_scheme) option" where
  "rt_kprintf drv hw_output fmt args s =
     do { (n, m) \<leftarrow> rt_vsnprintf (rt_log_buf s) (RT_CONSOLEBUF_SIZE - 1) fmt args (log_bytes s);
          let len = (if n > RT_CONSOLEBUF_SIZE - 1 then RT_CONSOLEBUF_SIZE - 1 else n);
          let s = s\<lparr>log_bytes := m\<rparr>;
          (case console_device s of
             None \<Rightarrow> do { s \<leftarrow> hw_output (rt_log_buf s) s; Some (Ret (), s) }
           | Some d \<Rightarrow>
               let old_flag = dev_flag (devs s d);
                   s = upd_dev d (\<lambda>v. v\<lparr>dev_flag := dev_flag v OR FLAG_STREAM\<rparr>) s
               in do { (r, s) \<leftarrow> rt_device_write drv d 0 (map m [rt_log_buf s..<rt_log_buf s + len]) (word_of_nat len) s;
                       Some (case r of Ret _ \<Rightarrow> (Ret (), rt_kprintf_end d old_flag s) | Wait w \<Rightarrow> (Wait (w, d, old_flag), s)) }) }"

subsection \<open>Properties\<close>

text \<open>What is in the buffer after formatting.\<close>

lemma log_buffer_bytes:
  assumes "format_text fmt args = Some cs" "buf + RT_CONSOLEBUF_SIZE \<le> 2 ^ 32"
  shows "\<exists>n m'. rt_vsnprintf buf (RT_CONSOLEBUF_SIZE - 1) fmt args m = Some (n, m')
    \<and> (if n > RT_CONSOLEBUF_SIZE - 1 then RT_CONSOLEBUF_SIZE - 1 else n) = min 127 (length cs)
    \<and> map m' [buf..<buf + min 127 (length cs)] = take 126 cs @ (if length cs > 126 then [0] else [])
    \<and> (\<forall>a. a < buf \<or> buf + 127 \<le> a \<longrightarrow> m' a = m a)"
proof -
  have p: "(127 :: nat) - 1 = 126" by simp
  obtain n m' where v: "rt_vsnprintf buf (RT_CONSOLEBUF_SIZE - 1) fmt args m = Some (n, m')"
    and b: "\<And>a. m' a = (if a < buf \<or> buf + 127 \<le> a then m a
         else if a - buf < min (length cs) 126 then cs ! (a - buf) else if a - buf = min (length cs) 126 then 0 else m a)"
    and n: "length cs \<le> n" "length cs \<le> 127 \<longrightarrow> n = length cs"
    using vsnprintf_buffer[OF assms(1), of 127 buf m, unfolded p] assms(2) by auto
  have l: "(if n > RT_CONSOLEBUF_SIZE - 1 then RT_CONSOLEBUF_SIZE - 1 else n) = min 127 (length cs)" using n by auto
  have "map m' [buf..<buf + min 127 (length cs)] = take 126 cs @ (if length cs > 126 then [0] else [])"
    by (intro nth_equalityI) (auto simp: b nth_append min_def)
  then show ?thesis using v l b by (intro exI[of _ n] exI[of _ m']) simp
qed

text \<open>C38: \<^verbatim>\<open>rt_kprintf\<close> with an open console device makes one write to its driver, in stream mode, of the formatted
  text when that has at most 126 bytes; of a longer text it writes the first 126 bytes and a zero
  byte. When the driver returns, the flags of the device are what they were.\<close>

theorem rt_kprintf_writes_text:
  assumes "format_text fmt args = Some cs" "rt_log_buf s + RT_CONSOLEBUF_SIZE \<le> 2 ^ 32"
    and "console_device s = Some d" "dev_ref_count (devs s d) \<noteq> 0" "dev_write (devs s d) = Some f"
  shows "\<exists>s1. rt_kprintf drv hw fmt args s =
      do { (r, s') \<leftarrow> call_write drv f d 0 (take 126 cs @ (if length cs > 126 then [0] else [])) (word_of_nat (min 127 (length cs))) s1;
           Some (case r of Ret _ \<Rightarrow> (Ret (), rt_kprintf_end d (dev_flag (devs s d)) s')
                 | Wait w \<Rightarrow> (Wait (w, d, dev_flag (devs s d)), s')) }
    \<and> devs s1 = (devs s)(d := (devs s d)\<lparr>dev_flag := dev_flag (devs s d) OR FLAG_STREAM\<rparr>)
    \<and> (\<forall>s'. devs s' = devs s1 \<longrightarrow> devs (rt_kprintf_end d (dev_flag (devs s d)) s') = devs s)"
proof -
  obtain n m' where m': "rt_vsnprintf (rt_log_buf s) (RT_CONSOLEBUF_SIZE - 1) fmt args (log_bytes s) = Some (n, m')"
    "(if n > RT_CONSOLEBUF_SIZE - 1 then RT_CONSOLEBUF_SIZE - 1 else n) = min 127 (length cs)"
    "map m' [rt_log_buf s..<rt_log_buf s + min 127 (length cs)] = take 126 cs @ (if length cs > 126 then [0] else [])"
    using log_buffer_bytes[OF assms(1,2)] by blast
  define s1 where "s1 = upd_dev d (\<lambda>v. v\<lparr>dev_flag := dev_flag v OR FLAG_STREAM\<rparr>) (s\<lparr>log_bytes := m'\<rparr>)"
  have e: "devs s1 = (devs s)(d := (devs s d)\<lparr>dev_flag := dev_flag (devs s d) OR FLAG_STREAM\<rparr>)" "rt_log_buf s1 = rt_log_buf s"
    by (simp_all add: s1_def upd_dev_def)
  have w: "rt_device_write drv d 0 b l s1 = call_write drv f d 0 b l s1" for b l
    using assms(4,5) by (simp add: rt_device_write_def e)
  have "rt_kprintf drv hw fmt args s =
      do { (r, s') \<leftarrow> call_write drv f d 0 (take 126 cs @ (if length cs > 126 then [0] else [])) (word_of_nat (min 127 (length cs))) s1;
           Some (case r of Ret _ \<Rightarrow> (Ret (), rt_kprintf_end d (dev_flag (devs s d)) s')
                 | Wait w \<Rightarrow> (Wait (w, d, dev_flag (devs s d)), s')) }"
    unfolding rt_kprintf_def m'(1) Let_def using assms(3) m'(2,3)
    by (simp add: Let_def e(2) flip: s1_def) (simp add: w cong: outcome.case_cong)
  moreover have "devs (rt_kprintf_end d (dev_flag (devs s d)) s') = devs s" if "devs s' = devs s1" for s'
    using that by (simp add: rt_kprintf_end_def upd_dev_def e)
  ultimately show ?thesis using e(1) by blast
qed

text \<open>Choosing a console: a name that is not registered changes nothing; otherwise the old console loses one
  opening, the new one gains one, and the old console is returned.\<close>

lemma rt_console_set_unknown:
  assumes "running s t" "registry_ok s" "0 \<in> set name" "registry s (name_field name) = None"
  shows "\<exists>s'. rt_console_set_device drv name s = Some (rt_console_get_device s, s') \<and> kframe s s'
    \<and> rt_console_get_device s' = rt_console_get_device s"
proof -
  obtain s' where s': "rt_device_find name s = Some (None, s')" "kframe s s'" using rt_device_find_ok[OF assms(1-3)] assms(4) by auto
  have "console_device s' = console_device s" using arg_cong[OF s'(2)[unfolded kframe_def], of console_device] by (simp add: kernel_as_def)
  then show ?thesis using s' by (simp add: rt_console_set_device_def rt_console_get_device_def)
qed

lemma rt_console_set_first:
  assumes "running s t" "registry_ok s" "0 \<in> set name" "registry s (name_field name) = Some (At d)" "console_device s = None"
    and "dev_flag (devs s d) AND FLAG_ACTIVATED \<noteq> 0" "dev_flag (devs s d) AND FLAG_STANDALONE = 0" "dev_open (devs s d) = None"
    and "dev_ref_count (devs s d) + 1 \<noteq> 0"
  shows "\<exists>s'. rt_console_set_device drv name s = Some (None, s') \<and> rt_console_get_device s' = Some d
    \<and> dev_ref_count (devs s' d) = dev_ref_count (devs s d) + 1 \<and> dev_open_flag (devs s' d) AND OFLAG_OPEN \<noteq> 0"
proof -
  obtain s1 where s1: "rt_device_find name s = Some (Some (At d), s1)" "kframe s s1" using rt_device_find_ok[OF assms(1-3)] assms(4) by auto
  have c: "console_device s1 = None" using arg_cong[OF s1(2)[unfolded kframe_def], of console_device] assms(5) by (simp add: kernel_as_def)
  have "devs (s1\<lparr>console_device := Some d\<rparr>) = devs s" using dev_field.get_kframe[OF s1(2)] by simp
  moreover have "rt_console_get_device (upd_dev d g v) = rt_console_get_device v" for g and v :: "'a con_state_scheme"
    by (simp add: rt_console_get_device_def upd_dev_def)
  ultimately show ?thesis using assms(5-9) s1(1) c
    by (simp add: rt_console_set_device_def rt_device_open_def RT_ASSERT_def dev_field.get_upd and_or_self)
       (simp add: rt_console_get_device_def)
qed

subsection \<open>Witnesses\<close>

definition demo_console :: con_state where
  "demo_console = demo_kernel \<lparr>devs = (\<lambda>_. demo_device\<lparr>dev_ref_count := 1, dev_write := Some 4\<rparr>),
     console_device = Some 5, rt_log_buf = 0x20001000, log_bytes = (\<lambda>_. 0)\<rparr>"

theorem rt_kprintf_writes_text_witness:
  "\<exists>s1. rt_kprintf \<lparr>call_init = (\<lambda>_ _ s. None), call_open = (\<lambda>_ _ _ s. None), call_close = (\<lambda>_ _ s. None),
       call_read = (\<lambda>_ _ _ _ s. None), call_write = (\<lambda>f d _ bs n s. Some (Wait (f, d, bs, n), s)), call_control = (\<lambda>_ _ _ _ s. None)\<rparr>
     (\<lambda>_ s. Some s) [0x61, 0x25, 0x64, 0] [Int_arg 42] demo_console
   = Some (Wait ((4, 5, [0x61, 0x34, 0x32], 3), 5, 8), s1)"
proof -
  have f: "format_text [0x61, 0x25, 0x64, 0] [Int_arg 42] = Some [0x61, 0x34, 0x32]"
    by (subst format_text.simps) (simp add: format_d, code_simp)
  have d: "rt_log_buf demo_console = 0x20001000" "console_device demo_console = Some 5" "dev_ref_count (devs demo_console 5) = 1"
    "dev_flag (devs demo_console 5) = 8" "dev_write (devs demo_console 5) = Some 4"
    by (simp_all add: demo_console_def demo_kernel_def sched_state.defs demo_device_def)
  show ?thesis
    using rt_kprintf_writes_text[OF f, of demo_console 5 4
      "\<lparr>call_init = (\<lambda>_ _ s. None), call_open = (\<lambda>_ _ _ s. None), call_close = (\<lambda>_ _ s. None),
       call_read = (\<lambda>_ _ _ _ s. None), call_write = (\<lambda>f d _ bs n s. Some (Wait (f, d, bs, n), s)), call_control = (\<lambda>_ _ _ _ s. None)\<rparr>"
      "\<lambda>_ s. Some s"] by (auto simp: d)
qed

end
