(* ===== verification/Pipe.thy ===== *)
theory Pipe
  imports Device Completion RingBuffer
begin

text \<open>
  Pipe devices, \<^verbatim>\<open>components/drivers/src/pipe.c\<close>: a ring buffer behind the device interface, with
  readers that wait while it is empty (list \<open>Suspend\<close>) and writers that wait while it is full
  (list \<open>SuspendSender\<close>). The driver of the pipes, \<open>pipe_driver\<close>, gives the function pointers that
  \<^verbatim>\<open>rt_pipe_init\<close> stores their meaning. \<open>ind\<close> is the code of the user behind \<^verbatim>\<open>rx_indicate\<close>.
  \<open>size_vars\<close> are the variables of type \<^verbatim>\<open>rt_size_t\<close> that \<^verbatim>\<open>rt_pipe_control\<close> is given.
\<close>

abbreviation (input) BLOCK_RD :: rt_uint32_t where "BLOCK_RD \<equiv> 1"
abbreviation (input) BLOCK_WR :: rt_uint32_t where "BLOCK_WR \<equiv> 2"
abbreviation (input) FORCE_WR :: rt_uint32_t where "FORCE_WR \<equiv> 4"
abbreviation (input) PIPE_CTRL_GET_SPACE :: rt_uint8_t where "PIPE_CTRL_GET_SPACE \<equiv> 0x14"

text \<open>The addresses of the three functions.\<close>

abbreviation (input) PIPE_READ :: nat where "PIPE_READ \<equiv> 1"
abbreviation (input) PIPE_WRITE :: nat where "PIPE_WRITE \<equiv> 2"
abbreviation (input) PIPE_CONTROL :: nat where "PIPE_CONTROL \<equiv> 3"

record rt_pipe_device =
  pipe_rb :: rt_ringbuffer
  pipe_buffer_ptr :: nat
  pipe_flag :: rt_uint32_t
  pipe_write_portal :: "nat option"
  pipe_read_portal :: "nat option"

record pipe_state = dev_state +
  pipes :: "nat \<Rightarrow> rt_pipe_device"
  size_vars :: "nat \<Rightarrow> rt_uint32_t"

type_synonym 's indicate = "nat \<Rightarrow> nat \<Rightarrow> rt_uint32_t \<Rightarrow> 's \<Rightarrow> (rt_err_t \<times> 's) option"

definition upd_pipe :: "nat \<Rightarrow> (rt_pipe_device \<Rightarrow> rt_pipe_device) \<Rightarrow> 'a pipe_state_scheme \<Rightarrow> 'a pipe_state_scheme" where
  "upd_pipe a f s = s\<lparr>pipes := (pipes s)(a := f (pipes s a))\<rparr>"

abbreviation (input) set_rb :: "nat \<Rightarrow> rt_ringbuffer \<Rightarrow> 'a pipe_state_scheme \<Rightarrow> 'a pipe_state_scheme" where
  "set_rb a rb \<equiv> upd_pipe a (\<lambda>p. p\<lparr>pipe_rb := rb\<rparr>)"

subsection \<open>Reading and writing\<close>

definition rt_pipe_resume_writer :: "nat \<Rightarrow> 'a pipe_state_scheme \<Rightarrow> 'a pipe_state_scheme option" where
  "rt_pipe_resume_writer pipe s =
     (case tlists s (SuspendSender pipe) of
        [] \<Rightarrow> Some s
      | t # _ \<Rightarrow>
          do { s \<leftarrow> RT_ASSERT (pipe_flag (pipes s pipe) AND BLOCK_WR \<noteq> 0) s;
               rt_schedule (snd (rt_thread_resume t s)) })"

partial_function (option) pipe_read_loop :: "nat \<Rightarrow> rt_uint32_t \<Rightarrow> tid \<Rightarrow> 'a pipe_state_scheme
    \<Rightarrow> ((read_result, tid) outcome \<times> 'a pipe_state_scheme) option" where
  "pipe_read_loop pipe sz t s =
     (let (n, data, rb) = rt_ringbuffer_get (ucast sz) (pipe_rb (pipes s pipe));
          s = set_rb pipe rb s
      in if n = 0 then
           do { s \<leftarrow> rt_schedule (suspend_at_end (Suspend pipe) t s);
                if rt_current_thread s = Some t then pipe_read_loop pipe sz t s else Some (Wait t, s) }
         else do { s \<leftarrow> rt_pipe_resume_writer pipe s; Some (Ret (ucast n, data), s) })"

definition rt_pipe_read :: "nat \<Rightarrow> int \<Rightarrow> rt_uint32_t \<Rightarrow> 'a pipe_state_scheme
    \<Rightarrow> ((read_result, tid) outcome \<times> 'a pipe_state_scheme) option" where
  "rt_pipe_read dev pos sz s =
     (if pipe_flag (pipes s dev) AND BLOCK_RD = 0 then
        let (n, data, rb) = rt_ringbuffer_get (ucast sz) (pipe_rb (pipes s dev));
            s = set_rb dev rb s
        in do { s \<leftarrow> (if n \<noteq> 0 then rt_pipe_resume_writer dev s else Some s);
                Some (Ret (ucast n, data), s) }
      else
        do { t \<leftarrow> rt_thread_self s;
             s \<leftarrow> RT_DEBUG_NOT_IN_INTERRUPT s;
             pipe_read_loop dev sz t s })"

definition rt_pipe_resume_reader :: "'a pipe_state_scheme indicate \<Rightarrow> nat \<Rightarrow> 'a pipe_state_scheme \<Rightarrow> 'a pipe_state_scheme option" where
  "rt_pipe_resume_reader ind pipe s =
     do { s \<leftarrow> (case dev_rx_indicate (devs s pipe) of
                 None \<Rightarrow> Some s
               | Some f \<Rightarrow> map_option snd (ind f pipe (ucast (rt_ringbuffer_data_len (pipe_rb (pipes s pipe)))) s));
          case tlists s (Suspend pipe) of
            [] \<Rightarrow> Some s
          | t # _ \<Rightarrow>
              do { s \<leftarrow> RT_ASSERT (pipe_flag (pipes s pipe) AND BLOCK_RD \<noteq> 0) s;
                   rt_schedule (snd (rt_thread_resume t s)) } }"

partial_function (option) pipe_write_loop :: "'a pipe_state_scheme indicate \<Rightarrow> nat \<Rightarrow> 8 word list \<Rightarrow> rt_uint32_t \<Rightarrow> tid
    \<Rightarrow> 'a pipe_state_scheme \<Rightarrow> ((rt_uint32_t, tid) outcome \<times> 'a pipe_state_scheme) option" where
  "pipe_write_loop ind pipe buffer sz t s =
     (let (n, rb) = rt_ringbuffer_put buffer (ucast sz) (pipe_rb (pipes s pipe));
          s = set_rb pipe rb s
      in if n = 0 then
           do { s \<leftarrow> rt_schedule (suspend_at_end (SuspendSender pipe) t s);
                if rt_current_thread s = Some t then pipe_write_loop ind pipe buffer sz t s else Some (Wait t, s) }
         else do { s \<leftarrow> rt_pipe_resume_reader ind pipe s; Some (Ret (ucast n), s) })"

definition rt_pipe_write :: "'a pipe_state_scheme indicate \<Rightarrow> nat \<Rightarrow> int \<Rightarrow> 8 word list \<Rightarrow> rt_uint32_t
    \<Rightarrow> 'a pipe_state_scheme \<Rightarrow> ((rt_uint32_t, tid) outcome \<times> 'a pipe_state_scheme) option" where
  "rt_pipe_write ind dev pos buffer sz s =
     (if pipe_flag (pipes s dev) AND FORCE_WR \<noteq> 0 \<or> pipe_flag (pipes s dev) AND BLOCK_WR = 0 then
        let (n, rb) = (if pipe_flag (pipes s dev) AND FORCE_WR \<noteq> 0
                       then rt_ringbuffer_put_force buffer (ucast sz) (pipe_rb (pipes s dev))
                       else rt_ringbuffer_put buffer (ucast sz) (pipe_rb (pipes s dev)));
            s = set_rb dev rb s
        in do { s \<leftarrow> rt_pipe_resume_reader ind dev s;
                Some (Ret (ucast n), s) }
      else
        do { t \<leftarrow> rt_thread_self s;
             s \<leftarrow> RT_DEBUG_NOT_IN_INTERRUPT s;
             pipe_write_loop ind dev buffer sz t s })"

text \<open>A null pointer is the address 0.\<close>

definition rt_pipe_control :: "nat \<Rightarrow> rt_uint8_t \<Rightarrow> nat \<Rightarrow> 'a pipe_state_scheme \<Rightarrow> rt_err_t \<times> 'a pipe_state_scheme" where
  "rt_pipe_control dev cmd args s =
     (RT_EOK, if cmd = PIPE_CTRL_GET_SPACE \<and> args \<noteq> 0
              then s\<lparr>size_vars := (size_vars s)(args := word_of_int (rt_ringbuffer_space_len (pipe_rb (pipes s dev))))\<rparr>
              else s)"

definition pipe_driver :: "'a pipe_state_scheme indicate \<Rightarrow> ('a pipe_state_scheme, tid) driver" where
  "pipe_driver ind = \<lparr>call_init = (\<lambda>_ _ _. None), call_open = (\<lambda>_ _ _ _. None), call_close = (\<lambda>_ _ _. None),
     call_read = (\<lambda>f dev pos sz s. if f = PIPE_READ then rt_pipe_read dev pos sz s else None),
     call_write = (\<lambda>f dev pos buffer sz s. if f = PIPE_WRITE then rt_pipe_write ind dev pos buffer sz s else None),
     call_control = (\<lambda>f dev cmd arg s. if f = PIPE_CONTROL then Some (rt_pipe_control dev cmd arg s) else None)\<rparr>"

subsection \<open>Creation and removal\<close>

definition rt_pipe_init :: "nat \<Rightarrow> 8 word list \<Rightarrow> rt_uint32_t \<Rightarrow> nat \<Rightarrow> rt_uint32_t \<Rightarrow> 'a pipe_state_scheme
    \<Rightarrow> (rt_err_t \<times> 'a pipe_state_scheme) option" where
  "rt_pipe_init pipe name flag buf sz s =
     do { s \<leftarrow> RT_ASSERT (buf \<noteq> 0) s;
          let s = upd_tlists (\<lambda>L. L(Suspend pipe := [], SuspendSender pipe := [])) s;
          rb \<leftarrow> rt_ringbuffer_init (\<lambda>i. mdata s (buf + i)) (ucast sz);
          let s = upd_pipe pipe (\<lambda>p. p\<lparr>pipe_rb := rb, pipe_buffer_ptr := buf, pipe_flag := flag\<rparr>) s;
          let s = upd_dev pipe (\<lambda>d. d\<lparr>dev_type := Class_Pipe, dev_init := None, dev_open := None, dev_close := None,
                dev_read := Some PIPE_READ, dev_write := Some PIPE_WRITE, dev_control := Some PIPE_CONTROL\<rparr>) s;
          rt_device_register (Some pipe) name FLAG_RDWR s }"

definition rt_pipe_detach :: "nat \<Rightarrow> 'a pipe_state_scheme \<Rightarrow> rt_err_t \<times> 'a pipe_state_scheme" where
  "rt_pipe_detach pipe s = rt_device_unregister pipe s"

text \<open>Memory of \<^verbatim>\<open>rt_calloc\<close> is a device with all fields zero.\<close>

definition zero_device :: rt_device where
  "zero_device = \<lparr>dev_type = Class_Char, dev_flag = 0, dev_open_flag = 0, dev_ref_count = 0, dev_device_id = 0,
     dev_rx_indicate = None, dev_tx_complete = None, dev_init = None, dev_open = None, dev_close = None,
     dev_read = None, dev_write = None, dev_control = None, dev_user_data = 0\<rparr>"

definition rt_pipe_create :: "nat \<Rightarrow> 8 word list \<Rightarrow> rt_uint32_t \<Rightarrow> rt_uint32_t \<Rightarrow> 'a pipe_state_scheme
    \<Rightarrow> (rt_err_t \<times> 'a pipe_state_scheme) option" where
  "rt_pipe_create sizeof_pipe name flag sz s =
     (let sz = RT_ALIGN sz 4 in
      do { (p, s) \<leftarrow> rt_calloc 1 sizeof_pipe s;
           (case p of
              None \<Rightarrow> Some (- RT_ENOMEM, s)
            | Some pipe \<Rightarrow>
                let s = upd_dev pipe (\<lambda>_. zero_device) (upd_pipe pipe (\<lambda>p. p\<lparr>pipe_write_portal := None, pipe_read_portal := None\<rparr>) s)
                in do { (b, s) \<leftarrow> rt_malloc (unat sz) s;
                        (case b of
                           None \<Rightarrow> do { s \<leftarrow> rt_free (Some pipe) s; Some (- RT_ENOMEM, s) }
                         | Some buf \<Rightarrow> rt_pipe_init pipe name flag buf sz s) }) })"

definition rt_pipe_destroy :: "nat option \<Rightarrow> 'a pipe_state_scheme \<Rightarrow> 'a pipe_state_scheme option" where
  "rt_pipe_destroy p s =
     (case p of
        None \<Rightarrow> Some s
      | Some pipe \<Rightarrow>
          do { let s = snd (rt_pipe_detach pipe s);
               s \<leftarrow> rt_free (Some (pipe_buffer_ptr (pipes s pipe))) s;
               rt_free (Some pipe) s })"

interpretation pipe_field: kernel_field pipes upd_pipe
  by unfold_locales (simp_all add: upd_pipe_def kernel_as_def)

text \<open>The driver of the pipes has nothing to do when a device is initialised, opened or closed.\<close>

interpretation pipe_device: device_driver "pipe_driver ind" pipe
  "\<lambda>s. dev_init (devs s pipe) = None \<and> dev_open (devs s pipe) = None \<and> dev_close (devs s pipe) = None"
  by unfold_locales simp_all

subsection \<open>What a read and a write do\<close>

definition pipe_data :: "'a pipe_state_scheme \<Rightarrow> nat \<Rightarrow> 8 word list" where
  "pipe_data s d = rb_items (pipe_rb (pipes s d))"

definition pipe_room :: "'a pipe_state_scheme \<Rightarrow> nat \<Rightarrow> nat" where
  "pipe_room s d = rb_size (pipe_rb (pipes s d)) - length (pipe_data s d)"

text \<open>A callback that changes nothing; an open pipe without a callback or with such a one, that is not in
  forced mode; only threads of a blocking end wait.\<close>

definition quiet :: "'a pipe_state_scheme indicate \<Rightarrow> 'a pipe_state_scheme \<Rightarrow> nat \<Rightarrow> bool" where
  "quiet ind s d \<longleftrightarrow> (\<forall>f n s'. dev_rx_indicate (devs s d) = Some f \<longrightarrow> devs s' = devs s
     \<longrightarrow> pipe_read_portal (pipes s' d) = pipe_read_portal (pipes s d) \<longrightarrow> (\<exists>r. ind f d n s' = Some (r, s')))"

lemma quiet_cong: "quiet ind s d \<Longrightarrow> devs s' = devs s \<Longrightarrow> pipe_read_portal (pipes s' d) = pipe_read_portal (pipes s d) \<Longrightarrow> quiet ind s' d"
  by (simp add: quiet_def)

definition pipe_ok :: "'a pipe_state_scheme indicate \<Rightarrow> 'a pipe_state_scheme \<Rightarrow> nat \<Rightarrow> bool" where
  "pipe_ok ind s d \<longleftrightarrow> rb_ok (pipe_rb (pipes s d)) \<and> pipe_flag (pipes s d) AND FORCE_WR = 0
     \<and> dev_ref_count (devs s d) \<noteq> 0 \<and> dev_read (devs s d) = Some PIPE_READ \<and> dev_write (devs s d) = Some PIPE_WRITE
     \<and> quiet ind s d
     \<and> (tlists s (Suspend d) \<noteq> [] \<longrightarrow> pipe_flag (pipes s d) AND BLOCK_RD \<noteq> 0)
     \<and> (tlists s (SuspendSender d) \<noteq> [] \<longrightarrow> pipe_flag (pipes s d) AND BLOCK_WR \<noteq> 0)"

lemma pipe_okD:
  assumes "pipe_ok ind s d"
  shows "rb_ok (pipe_rb (pipes s d))" "pipe_flag (pipes s d) AND FORCE_WR = 0" "dev_ref_count (devs s d) \<noteq> 0"
    "dev_read (devs s d) = Some PIPE_READ" "dev_write (devs s d) = Some PIPE_WRITE" "quiet ind s d"
    "tlists s (Suspend d) \<noteq> [] \<Longrightarrow> pipe_flag (pipes s d) AND BLOCK_RD \<noteq> 0"
    "tlists s (SuspendSender d) \<noteq> [] \<Longrightarrow> pipe_flag (pipes s d) AND BLOCK_WR \<noteq> 0"
  using assms by (simp_all add: pipe_ok_def)

lemma resume_writer_ok:
  assumes "running s t" "tlists s (SuspendSender d) \<noteq> [] \<Longrightarrow> pipe_flag (pipes s d) AND BLOCK_WR \<noteq> 0"
  shows "\<exists>s' u. rt_pipe_resume_writer d s = Some s' \<and> running s' u \<and> kframe s s'
    \<and> waits_as s s' (SuspendSender d) (tl (tlists s (SuspendSender d)))
    \<and> (\<forall>w ws. tlists s (SuspendSender d) = w # ws \<longrightarrow> ready s' w)"
proof (cases "tlists s (SuspendSender d)")
  case Nil
  then show ?thesis using assms(1) by (intro exI[of _ s] exI[of _ t]) (simp add: rt_pipe_resume_writer_def waits_as_def)
next
  case (Cons w ws)
  then show ?thesis using wakes_first[OF assms(1) _ Cons] assms(2)
    by (fastforce simp: rt_pipe_resume_writer_def RT_ASSERT_def ready_def)
qed

lemma resume_reader_ok:
  assumes "running s t" "quiet ind s d" "tlists s (Suspend d) \<noteq> [] \<Longrightarrow> pipe_flag (pipes s d) AND BLOCK_RD \<noteq> 0"
  shows "\<exists>s' u. rt_pipe_resume_reader ind d s = Some s' \<and> running s' u \<and> kframe s s'
    \<and> waits_as s s' (Suspend d) (tl (tlists s (Suspend d)))
    \<and> (\<forall>w ws. tlists s (Suspend d) = w # ws \<longrightarrow> ready s' w)"
proof -
  have c: "(case dev_rx_indicate (devs s d) of None \<Rightarrow> Some s
      | Some f \<Rightarrow> map_option snd (ind f d (ucast (rt_ringbuffer_data_len (pipe_rb (pipes s d)))) s)) = Some s"
    using assms(2) by (fastforce simp: quiet_def split: option.splits)
  show ?thesis
  proof (cases "tlists s (Suspend d)")
    case Nil
    then show ?thesis using assms(1) c by (intro exI[of _ s] exI[of _ t]) (simp add: rt_pipe_resume_reader_def waits_as_def)
  next
    case (Cons w ws)
    then show ?thesis using wakes_first[OF assms(1) _ Cons] assms(3) c
      by (fastforce simp: rt_pipe_resume_reader_def RT_ASSERT_def ready_def)
  qed
qed

lemma ringbuffer_keeps_size:
  "rb_size (snd (rt_ringbuffer_put b l rb)) = rb_size rb" "rb_size (snd (snd (rt_ringbuffer_get l rb))) = rb_size rb"
  by (auto simp: rt_ringbuffer_put_def rt_ringbuffer_get_def rb_copy_in_def rb_size_def Let_def)

lemma unat_ucast_size: "unat (sz :: rt_uint32_t) < 2 ^ 16 \<Longrightarrow> unat (ucast sz :: rt_uint16_t) = unat sz"
  by transfer (simp add: take_bit_eq_mod)

lemma unat_ucast_up: "unat (ucast (n :: rt_uint16_t) :: rt_uint32_t) = unat n"
  by transfer (simp add: take_bit_int_eq_self)

text \<open>What all operations on a pipe keep.\<close>

abbreviation (input) pipe_frame :: "nat \<Rightarrow> 'a pipe_state_scheme \<Rightarrow> 'a pipe_state_scheme \<Rightarrow> bool" where
  "pipe_frame d s s' \<equiv> devs s' = devs s \<and> pipe_state.more s' = pipe_state.more s \<and> (\<forall>e. e \<noteq> d \<longrightarrow> pipes s' e = pipes s e) \<and> pipe_flag (pipes s' d) = pipe_flag (pipes s d)
     \<and> pipe_read_portal (pipes s' d) = pipe_read_portal (pipes s d)
     \<and> rb_size (pipe_rb (pipes s' d)) = rb_size (pipe_rb (pipes s d))"

lemma kframe_more: "kframe s s' \<Longrightarrow> pipe_state.more s' = pipe_state.more s"
  unfolding kframe_def by (drule arg_cong[of _ _ pipe_state.more]) (simp add: kernel_as_def)

lemma set_rb_more: "pipe_state.more (set_rb d rb s) = pipe_state.more s"
  by (simp add: upd_pipe_def)

lemma pipe_write_returns:
  assumes r: "running s t" and ok: "pipe_ok ind s d" and sz: "unat sz < 2 ^ 16" "unat sz \<le> length buf"
    and go: "pipe_flag (pipes s d) AND BLOCK_WR = 0 \<or> 0 < pipe_room s d \<and> sz \<noteq> 0"
  shows "\<exists>s' u n. rt_device_write (pipe_driver ind) d pos buf sz s = Some (Ret n, s') \<and> unat n = min (unat sz) (pipe_room s d)
    \<and> pipe_data s' d = pipe_data s d @ take (unat n) buf \<and> pipe_ok ind s' d \<and> running s' u \<and> pipe_frame d s s'
    \<and> waits_as s s' (Suspend d) (tl (tlists s (Suspend d))) \<and> (\<forall>w ws. tlists s (Suspend d) = w # ws \<longrightarrow> ready s' w)"
proof -
  note P = pipe_okD[OF ok]
  obtain n rb where put: "rt_ringbuffer_put buf (ucast sz) (pipe_rb (pipes s d)) = (n, rb)"
    "unat n = min (unat sz) (pipe_room s d)" "rb_ok rb" "rb_items rb = pipe_data s d @ take (unat n) buf"
    using rt_ringbuffer_put_correct[OF P(1), of "ucast sz" buf] sz unfolding unat_ucast_size[OF sz(1)]
    by (auto simp: pipe_data_def pipe_room_def)
  have rbs: "rb_size rb = rb_size (pipe_rb (pipes s d))" using ringbuffer_keeps_size(1)[of buf "ucast sz" "pipe_rb (pipes s d)"] put(1) by simp
  define s1 where "s1 = set_rb d rb s"
  have s1: "running s1 t" "tlists s1 = tlists s" "devs s1 = devs s" "pipe_rb (pipes s1 d) = rb" "pipe_flag (pipes s1 d) = pipe_flag (pipes s d)"
    "pipe_read_portal (pipes s1 d) = pipe_read_portal (pipes s d)" "\<And>e. e \<noteq> d \<Longrightarrow> pipes s1 e = pipes s e"
    unfolding s1_def using pipe_field.upd_running[OF r] by (simp_all add: pipe_field.get_upd pipe_field.upd_simps) (simp add: upd_pipe_def)
  obtain s' u where s': "rt_pipe_resume_reader ind d s1 = Some s'" "running s' u" "kframe s1 s'"
    "waits_as s1 s' (Suspend d) (tl (tlists s1 (Suspend d)))" "\<forall>w ws. tlists s1 (Suspend d) = w # ws \<longrightarrow> ready s' w"
    using resume_reader_ok[OF s1(1) quiet_cong[OF P(6) s1(3,6)]] P(7) s1(2,5) by auto
  have e: "devs s' = devs s" "pipes s' = pipes s1" "pipe_state.more s' = pipe_state.more s"
    using dev_field.get_kframe[OF s'(3)] pipe_field.get_kframe[OF s'(3)] kframe_more[OF s'(3)] s1(3) by (simp_all add: s1_def set_rb_more)
  have "rt_device_write (pipe_driver ind) d pos buf sz s = Some (Ret (ucast n), s')"
  proof (cases "pipe_flag (pipes s d) AND BLOCK_WR = 0")
    case True
    then show ?thesis using P(2,3,5) put(1) s'(1)
      by (simp add: rt_device_write_def pipe_driver_def rt_pipe_write_def flip: s1_def)
  next
    case False
    have "n \<noteq> 0" using go False put(2) by (auto simp: unat_eq_0 min_def split: if_splits)
    then have "pipe_write_loop ind d buf sz t s = Some (Ret (ucast n), s')"
      using put(1) s'(1) by (subst pipe_write_loop.simps) (simp flip: s1_def)
    then show ?thesis using False P(2,3,5) runningD(6,9)[OF r]
      by (simp add: rt_device_write_def pipe_driver_def rt_pipe_write_def not_in_interrupt_eq)
  qed
  moreover have w: "tlists s' (Suspend d) = tl (tlists s (Suspend d))" "tlists s' (SuspendSender d) = tlists s (SuspendSender d)"
    using s'(4) s1(2) by (simp_all add: waits_as_def)
  moreover have "pipe_ok ind s' d"
    using ok put(3) P(7) w quiet_cong[OF P(6), of s'] e s1(6) unfolding pipe_ok_def e(1,2) s1(4,5) by (cases "tlists s (Suspend d)") auto
  ultimately show ?thesis using put(2,4) s'(2,4,5) s1(2,4-7) e rbs unat_ucast_up[of n]
    by (intro exI[of _ s'] exI[of _ u] exI[of _ "ucast n"]) (simp add: pipe_data_def waits_as_def)
qed

lemma pipe_get:
  fixes sz :: rt_uint32_t
  assumes "pipe_ok ind s d" "unat sz < 2 ^ 16"
  shows "\<exists>n rb. rt_ringbuffer_get (ucast sz) (pipe_rb (pipes s d)) = (n, take (unat sz) (pipe_data s d), rb)
    \<and> unat n = min (unat sz) (length (pipe_data s d)) \<and> rb_ok rb \<and> rb_items rb = drop (unat sz) (pipe_data s d)
    \<and> rb_size rb = rb_size (pipe_rb (pipes s d))"
  using ringbuffer_get_takes[OF pipe_okD(1)[OF assms(1)], of "ucast sz"] ringbuffer_keeps_size(2)[of "ucast sz" "pipe_rb (pipes s d)"]
  unfolding unat_ucast_size[OF assms(2)] by (auto simp: pipe_data_def)

lemma set_rb_simps:
  assumes "running s t"
  shows "running (set_rb d rb s) t" "tlists (set_rb d rb s) = tlists s" "devs (set_rb d rb s) = devs s" "threads (set_rb d rb s) = threads s"
    "pipe_rb (pipes (set_rb d rb s) d) = rb" "pipe_flag (pipes (set_rb d rb s) e) = pipe_flag (pipes s e)"
    "e \<noteq> d \<Longrightarrow> pipes (set_rb d rb s) e = pipes s e" "pipe_read_portal (pipes (set_rb d rb s) e) = pipe_read_portal (pipes s e)"
  using pipe_field.upd_running[OF assms] by (simp_all add: pipe_field.get_upd pipe_field.upd_simps) (simp add: upd_pipe_def)

text \<open>The end of a read that got bytes, in both modes and after a wait.\<close>

lemma pipe_read_ends:
  assumes r: "running s t" and ok: "pipe_ok ind s d" and sz: "unat sz < 2 ^ 16"
    and get: "rt_ringbuffer_get (ucast sz) (pipe_rb (pipes s d)) = (n, data, rb)" "rb_ok rb" "rb_items rb = drop (unat sz) (pipe_data s d)"
      "rb_size rb = rb_size (pipe_rb (pipes s d))"
  shows "\<exists>s' u. rt_pipe_resume_writer d (set_rb d rb s) = Some s' \<and> running s' u
    \<and> pipe_data s' d = drop (unat sz) (pipe_data s d) \<and> pipe_ok ind s' d \<and> pipe_frame d s s'
    \<and> waits_as s s' (SuspendSender d) (tl (tlists s (SuspendSender d))) \<and> (\<forall>w ws. tlists s (SuspendSender d) = w # ws \<longrightarrow> ready s' w)"
proof -
  note P = pipe_okD[OF ok]
  note S = set_rb_simps[OF r, where d = d and rb = rb]
  obtain s' u where s': "rt_pipe_resume_writer d (set_rb d rb s) = Some s'" "running s' u" "kframe (set_rb d rb s) s'"
    "waits_as s s' (SuspendSender d) (tl (tlists s (SuspendSender d)))" "\<forall>w ws. tlists s (SuspendSender d) = w # ws \<longrightarrow> ready s' w"
    using resume_writer_ok[OF S(1), of d] P(8) S(2,6) by (auto simp: pipe_field.upd_waits)
  have e: "devs s' = devs s" "pipes s' = pipes (set_rb d rb s)" "pipe_state.more s' = pipe_state.more s"
    using dev_field.get_kframe[OF s'(3)] pipe_field.get_kframe[OF s'(3)] kframe_more[OF s'(3)] S(3) by (simp_all add: set_rb_more)
  have w: "tlists s' (SuspendSender d) = tl (tlists s (SuspendSender d))" "tlists s' (Suspend d) = tlists s (Suspend d)"
    using s'(4) by (simp_all add: waits_as_def)
  have "pipe_ok ind s' d"
    using ok get(2) P(8) w quiet_cong[OF P(6), of s'] e S(8) unfolding pipe_ok_def e(1,2) S(5,6) by (cases "tlists s (SuspendSender d)") auto
  then show ?thesis using s' e S get(3,4) by (intro exI[of _ s'] exI[of _ u]) (simp add: pipe_data_def)
qed

lemma pipe_read_loop_returns:
  assumes r: "running s u" and ok: "pipe_ok ind s d" and sz: "unat sz < 2 ^ 16" "sz \<noteq> 0" and data: "pipe_data s d \<noteq> []"
  shows "\<exists>s' v n. pipe_read_loop d sz t s = Some (Ret (n, take (unat sz) (pipe_data s d)), s')
    \<and> unat n = min (unat sz) (length (pipe_data s d)) \<and> pipe_data s' d = drop (unat sz) (pipe_data s d) \<and> pipe_ok ind s' d
    \<and> running s' v \<and> pipe_frame d s s' \<and> waits_as s s' (SuspendSender d) (tl (tlists s (SuspendSender d)))
    \<and> (\<forall>w ws. tlists s (SuspendSender d) = w # ws \<longrightarrow> ready s' w)"
proof -
  obtain n rb where get: "rt_ringbuffer_get (ucast sz) (pipe_rb (pipes s d)) = (n, take (unat sz) (pipe_data s d), rb)"
    "unat n = min (unat sz) (length (pipe_data s d))" "rb_ok rb" "rb_items rb = drop (unat sz) (pipe_data s d)"
    "rb_size rb = rb_size (pipe_rb (pipes s d))" using pipe_get[OF ok sz(1)] by blast
  have "n \<noteq> 0" using get(2) sz(2) data by (auto simp: unat_eq_0 min_def split: if_splits)
  moreover obtain s' v where s': "rt_pipe_resume_writer d (set_rb d rb s) = Some s'" "running s' v"
    "pipe_data s' d = drop (unat sz) (pipe_data s d)" "pipe_ok ind s' d" "pipe_frame d s s'"
    "waits_as s s' (SuspendSender d) (tl (tlists s (SuspendSender d)))" "\<forall>w ws. tlists s (SuspendSender d) = w # ws \<longrightarrow> ready s' w"
    using pipe_read_ends[OF r ok sz(1) get(1,3-5)] by blast
  ultimately have "pipe_read_loop d sz t s = Some (Ret (ucast n, take (unat sz) (pipe_data s d)), s')"
    using get(1) by (subst pipe_read_loop.simps) simp
  then show ?thesis using s' get(2) unat_ucast_up[of n] by (intro exI[of _ s'] exI[of _ v] exI[of _ "ucast n"]) simp
qed

lemma pipe_read_returns:
  assumes r: "running s t" and ok: "pipe_ok ind s d" and sz: "unat sz < 2 ^ 16"
    and go: "pipe_flag (pipes s d) AND BLOCK_RD = 0 \<or> pipe_data s d \<noteq> [] \<and> sz \<noteq> 0"
  shows "\<exists>s' u n. rt_device_read (pipe_driver ind) d pos sz s = Some (Ret (n, take (unat sz) (pipe_data s d)), s')
    \<and> unat n = min (unat sz) (length (pipe_data s d)) \<and> pipe_data s' d = drop (unat sz) (pipe_data s d) \<and> pipe_ok ind s' d
    \<and> running s' u \<and> pipe_frame d s s' \<and> (\<exists>q. waits_as s s' (SuspendSender d) q)"
proof -
  note P = pipe_okD[OF ok]
  have dev: "rt_device_read (pipe_driver ind) d pos sz s = rt_pipe_read d pos sz s"
    using P(3,4) by (simp add: rt_device_read_def pipe_driver_def)
  show ?thesis
  proof (cases "pipe_flag (pipes s d) AND BLOCK_RD = 0")
    case False
    then have "rt_pipe_read d pos sz s = pipe_read_loop d sz t s"
      using runningD(6,9)[OF r] by (simp add: rt_pipe_read_def not_in_interrupt_eq)
    then show ?thesis unfolding dev using pipe_read_loop_returns[OF r ok sz, of t] go False by fastforce
  next
    case True
    obtain n rb where get: "rt_ringbuffer_get (ucast sz) (pipe_rb (pipes s d)) = (n, take (unat sz) (pipe_data s d), rb)"
      "unat n = min (unat sz) (length (pipe_data s d))" "rb_ok rb" "rb_items rb = drop (unat sz) (pipe_data s d)"
      "rb_size rb = rb_size (pipe_rb (pipes s d))" using pipe_get[OF ok sz] by blast
    obtain s' u where s': "(if n \<noteq> 0 then rt_pipe_resume_writer d (set_rb d rb s) else Some (set_rb d rb s)) = Some s'" "running s' u"
      "pipe_data s' d = drop (unat sz) (pipe_data s d)" "pipe_ok ind s' d" "pipe_frame d s s'" "\<exists>q. waits_as s s' (SuspendSender d) q"
    proof (cases "n = 0")
      case False
      then show ?thesis using pipe_read_ends[OF r ok sz get(1,3-5)] that by fastforce
    next
      case z: True
      note S = set_rb_simps[OF r, where d = d and rb = rb]
      have "pipe_ok ind (set_rb d rb s) d" using ok get(3) quiet_cong[OF P(6) S(3,8)] unfolding pipe_ok_def S(2,3,5,6) by simp
      moreover have "waits_as s (set_rb d rb s) (SuspendSender d) (tlists s (SuspendSender d))" using S(2) by (simp add: waits_as_def)
      ultimately show ?thesis using that[of "set_rb d rb s" t] z S get(4,5) by (auto simp: pipe_data_def set_rb_more)
    qed
    have "rt_pipe_read d pos sz s = Some (Ret (ucast n, take (unat sz) (pipe_data s d)), s')"
      using True get(1) s'(1) by (simp add: rt_pipe_read_def Let_def)
    then show ?thesis unfolding dev using s' get(2) unat_ucast_up[of n]
      by (intro exI[of _ s'] exI[of _ u] exI[of _ "ucast n"]) simp
  qed
qed

lemma pipe_read_blocks:
  assumes r: "running s t" "ready s i" "i \<noteq> t" and ok: "pipe_ok ind s d" and sz: "unat sz < 2 ^ 16"
    and empty: "pipe_flag (pipes s d) AND BLOCK_RD \<noteq> 0" "pipe_data s d = []"
  shows "\<exists>s' u. rt_device_read (pipe_driver ind) d pos sz s = Some (Wait t, s') \<and> running s' u \<and> u \<noteq> t
    \<and> pipe_data s' d = [] \<and> pipe_ok ind s' d \<and> pipe_frame d s s' \<and> waits_as s s' (Suspend d) (tlists s (Suspend d) @ [t])"
proof -
  note P = pipe_okD[OF ok]
  obtain rb where get: "rt_ringbuffer_get (ucast sz) (pipe_rb (pipes s d)) = (0, [], rb)" "rb_ok rb" "rb_items rb = []"
    "rb_size rb = rb_size (pipe_rb (pipes s d))"
    using pipe_get[OF ok sz] empty(2) by (auto simp: unat_eq_0)
  note S = set_rb_simps[OF r(1), where d = d and rb = rb]
  have l: "wait_list (Suspend d)" "legal_time 0" by (simp_all add: legal_time_def)
  obtain s' u where s': "rt_schedule (suspend_at_end (Suspend d) t (set_rb d rb s)) = Some s'" "kframe (set_rb d rb s) s'"
    "rt_current_thread s' = Some u" "u \<noteq> t" "running s' u" "waits_as s s' (Suspend d) (tlists s (Suspend d) @ [t])"
    using sleeps_at_back[OF S(1) _ r(3) l] r(2) S(2,4)
    by (auto simp: ready_def start_wait_timer_def pipe_field.upd_waits)
  have e: "devs s' = devs s" "pipes s' = pipes (set_rb d rb s)" "pipe_state.more s' = pipe_state.more s"
    using dev_field.get_kframe[OF s'(2)] pipe_field.get_kframe[OF s'(2)] kframe_more[OF s'(2)] S(3) by (simp_all add: set_rb_more)
  have "tlists s' (SuspendSender d) = tlists s (SuspendSender d)" using s'(6) by (simp add: waits_as_def)
  then have "pipe_ok ind s' d" using ok get(2) empty(1) quiet_cong[OF P(6), of s'] e S(8) unfolding pipe_ok_def e(1,2) S(5,6) by auto
  moreover have "rt_device_read (pipe_driver ind) d pos sz s = pipe_read_loop d sz t s"
    using P(3,4) empty(1) runningD(6,9)[OF r(1)]
    by (simp add: rt_device_read_def pipe_driver_def rt_pipe_read_def not_in_interrupt_eq)
  moreover have "pipe_read_loop d sz t s = Some (Wait t, s')"
    using get(1) s'(1,3,4) by (subst pipe_read_loop.simps) simp
  ultimately show ?thesis using s'(4-6) e S get(3,4) by (intro exI[of _ s'] exI[of _ u]) (simp add: pipe_data_def)
qed

subsection \<open>Properties\<close>

text \<open>Reads and writes through the device interface, and the same on a bounded queue of bytes: what the
  writes accept, what the reads deliver, and what remains.\<close>

datatype pipe_op = Wr "8 word list" | Rd rt_uint32_t

fun pipe_run :: "'a pipe_state_scheme indicate \<Rightarrow> nat \<Rightarrow> pipe_op list \<Rightarrow> 'a pipe_state_scheme
    \<Rightarrow> (8 word list \<times> 8 word list \<times> 'a pipe_state_scheme) option" where
  "pipe_run ind d [] s = Some ([], [], s)"
| "pipe_run ind d (Wr bs # ops) s =
     (case rt_device_write (pipe_driver ind) d 0 bs (word_of_nat (length bs)) s of
        Some (Ret n, s) \<Rightarrow> do { (ins, outs, s) \<leftarrow> pipe_run ind d ops s; Some (take (unat n) bs @ ins, outs, s) }
      | _ \<Rightarrow> None)"
| "pipe_run ind d (Rd sz # ops) s =
     (case rt_device_read (pipe_driver ind) d 0 sz s of
        Some (Ret (n, bs), s) \<Rightarrow> do { (ins, outs, s) \<leftarrow> pipe_run ind d ops s; Some (ins, bs @ outs, s) }
      | _ \<Rightarrow> None)"

fun stream_run :: "nat \<Rightarrow> pipe_op list \<Rightarrow> 8 word list \<Rightarrow> 8 word list \<times> 8 word list \<times> 8 word list" where
  "stream_run cap [] q = ([], [], q)"
| "stream_run cap (Wr bs # ops) q =
     (let b = take (cap - length q) bs; (ins, outs, q) = stream_run cap ops (q @ b) in (b @ ins, outs, q))"
| "stream_run cap (Rd sz # ops) q =
     (let (ins, outs, q') = stream_run cap ops (drop (unat sz) q) in (ins, take (unat sz) q @ outs, q'))"

lemma stream_order: "stream_run cap ops q = (ins, outs, q') \<Longrightarrow> q @ ins = outs @ q'"
proof (induction cap ops q arbitrary: ins outs rule: stream_run.induct)
  case (3 cap sz ops q)
  obtain outs' where "stream_run cap ops (drop (unat sz) q) = (ins, outs', q')" "outs = take (unat sz) q @ outs'"
    using 3(2) by (auto simp: Let_def split: prod.splits)
  moreover have "q @ ins = take (unat sz) q @ drop (unat sz) q @ ins" by simp
  ultimately show ?case using 3(1) by simp
qed (auto simp: Let_def split: prod.splits)

text \<open>C18: A non-blocking pipe that is open as a device is a bounded queue of bytes: through any sequence of
  reads and writes at the device interface each write accepts the bytes that fit and each read
  delivers the oldest ones, so what is delivered and what remains is what was there and what was accepted, in
  order.\<close>

theorem pipe_device_streams_bytes:
  assumes "running s t" "pipe_ok ind s d" "pipe_flag (pipes s d) = 0"
    and "\<And>bs. Wr bs \<in> set ops \<Longrightarrow> length bs < 2 ^ 16" "\<And>sz. Rd sz \<in> set ops \<Longrightarrow> unat sz < 2 ^ 16"
  shows "\<exists>ins outs s' u. pipe_run ind d ops s = Some (ins, outs, s') \<and> running s' u \<and> pipe_ok ind s' d
    \<and> stream_run (rb_size (pipe_rb (pipes s d))) ops (pipe_data s d) = (ins, outs, pipe_data s' d)
    \<and> pipe_data s d @ ins = outs @ pipe_data s' d"
proof -
  have "\<exists>ins outs s' u. pipe_run ind d ops s = Some (ins, outs, s') \<and> running s' u \<and> pipe_ok ind s' d
    \<and> stream_run (rb_size (pipe_rb (pipes s d))) ops (pipe_data s d) = (ins, outs, pipe_data s' d)"
    using assms
  proof (induction ops arbitrary: s t)
    case Nil
    then show ?case by auto
  next
    case (Cons x ops)
    show ?case
    proof (cases x)
      case (Wr bs)
      define w where "w = (word_of_nat (length bs) :: rt_uint32_t)"
      have w: "unat w = length bs" using Cons.prems(4)[of bs] Wr by (simp add: w_def unat_of_nat)
      obtain s1 u n where s1: "rt_device_write (pipe_driver ind) d 0 bs w s = Some (Ret n, s1)"
        "unat n = min (unat w) (pipe_room s d)" "pipe_data s1 d = pipe_data s d @ take (unat n) bs" "pipe_ok ind s1 d" "running s1 u"
        "pipe_flag (pipes s1 d) = pipe_flag (pipes s d)" "rb_size (pipe_rb (pipes s1 d)) = rb_size (pipe_rb (pipes s d))"
        using pipe_write_returns[OF Cons.prems(1,2), of w bs 0] Cons.prems(3) Cons.prems(4)[of bs] Wr w by auto
      have tk: "take (unat n) bs = take (rb_size (pipe_rb (pipes s d)) - length (pipe_data s d)) bs"
        using s1(2) w by (simp add: pipe_room_def min_def)
      obtain ins outs s' v where "pipe_run ind d ops s1 = Some (ins, outs, s')" "running s' v" "pipe_ok ind s' d"
        "stream_run (rb_size (pipe_rb (pipes s1 d))) ops (pipe_data s1 d) = (ins, outs, pipe_data s' d)"
        using Cons.IH[OF s1(5,4)] s1(6) Cons.prems(3-5) by auto
      then show ?thesis using Wr s1(1,3,7) tk by (auto simp: Let_def simp flip: w_def)
    next
      case (Rd sz)
      obtain s1 u n where s1: "rt_device_read (pipe_driver ind) d 0 sz s = Some (Ret (n, take (unat sz) (pipe_data s d)), s1)"
        "pipe_data s1 d = drop (unat sz) (pipe_data s d)" "pipe_ok ind s1 d" "running s1 u"
        "pipe_flag (pipes s1 d) = pipe_flag (pipes s d)" "rb_size (pipe_rb (pipes s1 d)) = rb_size (pipe_rb (pipes s d))"
        using pipe_read_returns[OF Cons.prems(1,2), of sz 0] Cons.prems(3) Cons.prems(5)[of sz] Rd by auto
      obtain ins outs s' v where "pipe_run ind d ops s1 = Some (ins, outs, s')" "running s' v" "pipe_ok ind s' d"
        "stream_run (rb_size (pipe_rb (pipes s1 d))) ops (pipe_data s1 d) = (ins, outs, pipe_data s' d)"
        using Cons.IH[OF s1(4,3)] s1(5) Cons.prems(3-5) by auto
      then show ?thesis using Rd s1(1,2,6) by (auto simp: Let_def)
    qed
  qed
  then show ?thesis using stream_order by blast
qed

text \<open>C37: A thread that reads from an empty blocking pipe sleeps and another thread runs; when bytes are then written
  to the device the thread becomes ready, and its read ends with the oldest of these bytes, the
  others remain in the pipe.\<close>

theorem pipe_wakes_blocked_reader:
  assumes "running s t" "ready s i" "i \<noteq> t" "pipe_ok ind s d" "pipe_flag (pipes s d) AND BLOCK_RD \<noteq> 0" "pipe_data s d = []"
    and "tlists s (Suspend d) = []" "unat sz < 2 ^ 16" "sz \<noteq> 0" "unat wsz < 2 ^ 16" "unat wsz \<le> length bs" "wsz \<noteq> 0"
  defines "b \<equiv> take (min (unat wsz) (rb_size (pipe_rb (pipes s d)))) bs"
  shows "\<exists>s1 u s2 v n s3 m. rt_device_read (pipe_driver ind) d pos sz s = Some (Wait t, s1) \<and> running s1 u \<and> u \<noteq> t
    \<and> tlists s1 (Suspend d) = [t]
    \<and> rt_device_write (pipe_driver ind) d pos' bs wsz s1 = Some (Ret n, s2) \<and> unat n = length b \<and> running s2 v \<and> ready s2 t
    \<and> pipe_read_loop d sz t s2 = Some (Ret (m, take (unat sz) b), s3) \<and> unat m = min (unat sz) (length b)
    \<and> pipe_data s3 d = drop (unat sz) b \<and> b \<noteq> []"
proof -
  obtain s1 u where s1: "rt_device_read (pipe_driver ind) d pos sz s = Some (Wait t, s1)" "running s1 u" "u \<noteq> t"
    "pipe_data s1 d = []" "pipe_ok ind s1 d" "pipe_frame d s s1" "waits_as s s1 (Suspend d) (tlists s (Suspend d) @ [t])"
    using pipe_read_blocks[OF assms(1-4,8,5,6)] by blast
  have q: "tlists s1 (Suspend d) = [t]" using s1(7) assms(7) by (simp add: waits_as_def)
  have room: "pipe_room s1 d = rb_size (pipe_rb (pipes s d))" "0 < rb_size (pipe_rb (pipes s d))"
    using s1(4,6) rb_okD(1)[OF pipe_okD(1)[OF assms(4)]] by (simp_all add: pipe_room_def)
  obtain s2 v n where s2: "rt_device_write (pipe_driver ind) d pos' bs wsz s1 = Some (Ret n, s2)"
    "unat n = min (unat wsz) (pipe_room s1 d)" "pipe_data s2 d = pipe_data s1 d @ take (unat n) bs" "pipe_ok ind s2 d" "running s2 v" "ready s2 t"
    using pipe_write_returns[OF s1(2,5) assms(10,11), of pos'] room assms(12) q by auto
  have b: "pipe_data s2 d = b" "unat n = length b" using s2(2,3) s1(4) room(1) assms(11) by (simp_all add: b_def)
  have "0 < unat wsz" using assms(12) by (simp add: unat_gt_0)
  then have ne: "b \<noteq> []" using room(2) assms(11) by (auto simp: b_def)
  obtain s3 m where "pipe_read_loop d sz t s2 = Some (Ret (m, take (unat sz) b), s3)" "unat m = min (unat sz) (length b)"
    "pipe_data s3 d = drop (unat sz) b"
    using pipe_read_loop_returns[OF s2(5,4) assms(8,9), of t] b(1) ne by auto
  then show ?thesis using s1(1-3) s2(1,5,6) b q ne
    by (intro exI[of _ s1] exI[of _ u] exI[of _ s2] exI[of _ v] exI[of _ n] exI[of _ s3] exI[of _ m]) simp
qed

subsection \<open>Witnesses\<close>

text \<open>Pipe 7 does not block and holds three bytes of eight, pipe 8 blocks and is empty.\<close>

definition demo_pipe :: "rt_ringbuffer \<Rightarrow> rt_uint32_t \<Rightarrow> rt_pipe_device" where
  "demo_pipe rb fl = \<lparr>pipe_rb = rb, pipe_buffer_ptr = 0, pipe_flag = fl, pipe_write_portal = None, pipe_read_portal = None\<rparr>"

definition demo_pipes :: pipe_state where
  "demo_pipes = demo_kernel
     \<lparr>devs = (\<lambda>_. zero_device\<lparr>dev_ref_count := 1, dev_read := Some PIPE_READ, dev_write := Some PIPE_WRITE\<rparr>),
      pipes = (\<lambda>a. if a = 7 then demo_pipe demo_rb 0 else demo_pipe (demo_rb\<lparr>rb_read_index := rb_write_index demo_rb, rb_read_mirror := rb_write_mirror demo_rb\<rparr>) 3),
      size_vars = (\<lambda>_. 0)\<rparr>"

lemma demo_pipes_facts: "running demo_pipes 1" "ready demo_pipes 2" "pipe_ok (\<lambda>_ _ _ _. None) demo_pipes 7" "pipe_ok (\<lambda>_ _ _ _. None) demo_pipes 8"
  "pipe_flag (pipes demo_pipes 7) = 0" "pipe_flag (pipes demo_pipes 8) = 3" "pipe_data demo_pipes 7 = [6, 7, 0]" "pipe_data demo_pipes 8 = []"
  "tlists demo_pipes (Suspend a) = []" "rb_size (pipe_rb (pipes demo_pipes a)) = rb_size demo_rb"
proof -
  show "running demo_pipes 1" "ready demo_pipes 2" unfolding demo_pipes_def by (rule demo_kernel_running)+
  have p: "pipes demo_pipes 7 = demo_pipe demo_rb 0"
    "pipes demo_pipes 8 = demo_pipe (demo_rb\<lparr>rb_read_index := rb_write_index demo_rb, rb_read_mirror := rb_write_mirror demo_rb\<rparr>) 3"
    "devs demo_pipes a = zero_device\<lparr>dev_ref_count := 1, dev_read := Some PIPE_READ, dev_write := Some PIPE_WRITE\<rparr>" for a
    by (simp_all add: demo_pipes_def demo_kernel_def sched_state.defs)
  show l: "tlists demo_pipes (Suspend a) = []" for a
    by (simp add: demo_pipes_def demo_kernel_def sched_state.defs demo_sched_def demo_tlists_def)
  have l': "tlists demo_pipes (SuspendSender a) = []" for a
    by (simp add: demo_pipes_def demo_kernel_def sched_state.defs demo_sched_def demo_tlists_def)
  have e: "rb_ok (demo_rb\<lparr>rb_read_index := rb_write_index demo_rb, rb_read_mirror := rb_write_mirror demo_rb\<rparr>)"
    using demo_rb_ok(1) by (simp add: rb_ok_def rb_size_def)
  show "pipe_ok (\<lambda>_ _ _ _. None) demo_pipes 7" "pipe_ok (\<lambda>_ _ _ _. None) demo_pipes 8" using demo_rb_ok(1) e l l' by (simp_all add: pipe_ok_def p demo_pipe_def zero_device_def quiet_def)
  show "pipe_flag (pipes demo_pipes 7) = 0" "pipe_flag (pipes demo_pipes 8) = 3" by (simp_all add: p demo_pipe_def)
  show "pipe_data demo_pipes 7 = [6, 7, 0]" using demo_rb_ok(4) by (simp add: p demo_pipe_def pipe_data_def)
  show "pipe_data demo_pipes 8 = []" by (simp add: p demo_pipe_def pipe_data_def rb_items_def rb_count_def)
  show "rb_size (pipe_rb (pipes demo_pipes a)) = rb_size demo_rb"
    by (simp add: demo_pipes_def demo_kernel_def sched_state.defs demo_pipe_def rb_size_def)
qed

theorem pipe_device_streams_bytes_witness:
  "\<exists>ins outs s'. pipe_run (\<lambda>_ _ _ _. None) 7 [Rd 2, Wr [1, 2, 3]] demo_pipes = Some (ins, outs, s')
     \<and> [6, 7, 0] @ ins = outs @ pipe_data s' 7"
  using pipe_device_streams_bytes[OF demo_pipes_facts(1,3,5), of "[Rd 2, Wr [1, 2, 3]]"]
  by (auto simp: demo_pipes_facts(7))

theorem pipe_wakes_blocked_reader_witness:
  "\<exists>s1 s2 n. rt_device_read (pipe_driver (\<lambda>_ _ _ _. None)) 8 0 4 demo_pipes = Some (Wait 1, s1)
     \<and> rt_device_write (pipe_driver (\<lambda>_ _ _ _. None)) 8 0 [9] 1 s1 = Some (Ret n, s2) \<and> ready s2 1"
  using pipe_wakes_blocked_reader[OF demo_pipes_facts(1,2) _ demo_pipes_facts(4), of 4 1 "[9]" 0 0]
  by (auto simp: demo_pipes_facts)

end
