(* ===== verification/Portal.thy ===== *)
theory Portal
  imports Pipe
begin

text \<open>
  Portals, \<^verbatim>\<open>components/drivers/src/portal.c\<close>: a device that writes to one pipe and reads from another,
  so that two portals on two pipes make a connection in both directions. The functions of a portal
  call the device layer on the pipes, whose driver is \<open>pipe_driver\<close> with the callbacks of the
  portals (\<open>portal_indicate\<close>); \<open>portal_driver\<close> is the driver of a system with pipes and portals.
\<close>

abbreviation (input) PORTAL_INIT :: nat where "PORTAL_INIT \<equiv> 11"
abbreviation (input) PORTAL_OPEN :: nat where "PORTAL_OPEN \<equiv> 12"
abbreviation (input) PORTAL_CLOSE :: nat where "PORTAL_CLOSE \<equiv> 13"
abbreviation (input) PORTAL_READ :: nat where "PORTAL_READ \<equiv> 14"
abbreviation (input) PORTAL_WRITE :: nat where "PORTAL_WRITE \<equiv> 15"
abbreviation (input) PORTAL_RX :: nat where "PORTAL_RX \<equiv> 16"
abbreviation (input) PORTAL_TX :: nat where "PORTAL_TX \<equiv> 17"

record rt_portal_device =
  write_dev :: nat
  read_dev :: nat

record portal_state = pipe_state +
  portals :: "nat \<Rightarrow> rt_portal_device"

definition upd_portal :: "nat \<Rightarrow> (rt_portal_device \<Rightarrow> rt_portal_device) \<Rightarrow> 'a portal_state_scheme \<Rightarrow> 'a portal_state_scheme" where
  "upd_portal a f s = s\<lparr>portals := (portals s)(a := f (portals s a))\<rparr>"

subsection \<open>Callbacks\<close>

text \<open>The callbacks of the users of the portals are \<open>user\<close> and \<open>done\<close>.\<close>

type_synonym 's tx_done = "nat \<Rightarrow> nat \<Rightarrow> nat \<Rightarrow> 's \<Rightarrow> (rt_err_t \<times> 's) option"

definition portal_rx_indicate :: "'a portal_state_scheme indicate \<Rightarrow> nat \<Rightarrow> rt_uint32_t \<Rightarrow> 'a portal_state_scheme
    \<Rightarrow> (rt_err_t \<times> 'a portal_state_scheme) option" where
  "portal_rx_indicate user dev sz s =
     do { s \<leftarrow> RT_ASSERT (dev_type (devs s dev) = Class_Pipe) s;
          p \<leftarrow> pipe_read_portal (pipes s dev);
          case dev_rx_indicate (devs s p) of
            Some f \<Rightarrow> user f p sz s
          | None \<Rightarrow> Some (- RT_ENOSYS, s) }"

definition portal_tx_complete :: "'a portal_state_scheme tx_done \<Rightarrow> nat \<Rightarrow> nat \<Rightarrow> 'a portal_state_scheme
    \<Rightarrow> (rt_err_t \<times> 'a portal_state_scheme) option" where
  "portal_tx_complete done dev buf s =
     do { s \<leftarrow> RT_ASSERT (dev_type (devs s dev) = Class_Pipe) s;
          p \<leftarrow> pipe_write_portal (pipes s dev);
          case dev_tx_complete (devs s p) of
            Some f \<Rightarrow> done f p buf s
          | None \<Rightarrow> Some (- RT_ENOSYS, s) }"

definition portal_indicate :: "'a portal_state_scheme indicate \<Rightarrow> 'a portal_state_scheme indicate" where
  "portal_indicate user f dev sz s = (if f = PORTAL_RX then portal_rx_indicate user dev sz s else user f dev sz s)"

abbreviation (input) pipe_drv :: "'a portal_state_scheme indicate \<Rightarrow> ('a portal_state_scheme, tid) driver" where
  "pipe_drv user \<equiv> pipe_driver (portal_indicate user)"

subsection \<open>The functions of a portal\<close>

definition portal_init :: "'a portal_state_scheme indicate \<Rightarrow> nat \<Rightarrow> 'a portal_state_scheme \<Rightarrow> (rt_err_t \<times> 'a portal_state_scheme) option" where
  "portal_init user dev s =
     do { (err, s) \<leftarrow> rt_device_init (pipe_drv user) (write_dev (portals s dev)) s;
          if err \<noteq> RT_EOK then Some (err, s) else rt_device_init (pipe_drv user) (read_dev (portals s dev)) s }"

definition portal_open :: "'a portal_state_scheme indicate \<Rightarrow> nat \<Rightarrow> rt_uint16_t \<Rightarrow> 'a portal_state_scheme
    \<Rightarrow> (rt_err_t \<times> 'a portal_state_scheme) option" where
  "portal_open user dev oflag s =
     (if oflag = 0 then Some (- RT_ERROR, s)
      else
        do { (err, s) \<leftarrow> (if oflag AND OFLAG_RDONLY \<noteq> 0
               then rt_device_open (pipe_drv user) (read_dev (portals s dev)) OFLAG_RDONLY s else Some (RT_EOK, s));
             if err \<noteq> RT_EOK then Some (err, s)
             else
               do { (err, s) \<leftarrow> (if oflag AND OFLAG_WRONLY \<noteq> 0
                      then rt_device_open (pipe_drv user) (write_dev (portals s dev)) OFLAG_WRONLY s else Some (RT_EOK, s));
                    if err \<noteq> RT_EOK then Some (err, s) else Some (RT_EOK, s) } })"

definition portal_close :: "'a portal_state_scheme indicate \<Rightarrow> nat \<Rightarrow> 'a portal_state_scheme \<Rightarrow> (rt_err_t \<times> 'a portal_state_scheme) option" where
  "portal_close user dev s =
     do { (_, s) \<leftarrow> rt_device_close (pipe_drv user) (write_dev (portals s dev)) s;
          (_, s) \<leftarrow> rt_device_close (pipe_drv user) (read_dev (portals s dev)) s;
          Some (RT_EOK, s) }"

definition portal_read :: "'a portal_state_scheme indicate \<Rightarrow> nat \<Rightarrow> int \<Rightarrow> rt_uint32_t \<Rightarrow> 'a portal_state_scheme
    \<Rightarrow> ((read_result, tid) outcome \<times> 'a portal_state_scheme) option" where
  "portal_read user dev pos sz s = rt_device_read (pipe_drv user) (read_dev (portals s dev)) pos sz s"

definition portal_write :: "'a portal_state_scheme indicate \<Rightarrow> nat \<Rightarrow> int \<Rightarrow> 8 word list \<Rightarrow> rt_uint32_t \<Rightarrow> 'a portal_state_scheme
    \<Rightarrow> ((rt_uint32_t, tid) outcome \<times> 'a portal_state_scheme) option" where
  "portal_write user dev pos buffer sz s = rt_device_write (pipe_drv user) (write_dev (portals s dev)) pos buffer sz s"

definition portal_driver :: "'a portal_state_scheme indicate \<Rightarrow> ('a portal_state_scheme, tid) driver" where
  "portal_driver user = (pipe_drv user)
     \<lparr>call_init := (\<lambda>f dev s. if f = PORTAL_INIT then portal_init user dev s else None),
      call_open := (\<lambda>f dev oflag s. if f = PORTAL_OPEN then portal_open user dev oflag s else None),
      call_close := (\<lambda>f dev s. if f = PORTAL_CLOSE then portal_close user dev s else None),
      call_read := (\<lambda>f dev pos sz s. if f = PORTAL_READ then portal_read user dev pos sz s else call_read (pipe_drv user) f dev pos sz s),
      call_write := (\<lambda>f dev pos buffer sz s. if f = PORTAL_WRITE then portal_write user dev pos buffer sz s
         else call_write (pipe_drv user) f dev pos buffer sz s)\<rparr>"

subsection \<open>Creation and removal\<close>

text \<open>When the pipe to read from does not exist, the source resets the callback of a null device: the
  assertion of \<^verbatim>\<open>rt_device_set_tx_complete\<close> fails.\<close>

definition rt_portal_init :: "nat \<Rightarrow> 8 word list \<Rightarrow> 8 word list \<Rightarrow> 8 word list \<Rightarrow> 'a portal_state_scheme
    \<Rightarrow> (rt_err_t \<times> 'a portal_state_scheme) option" where
  "rt_portal_init portal portal_name write_name read_name s =
     do { let s = upd_dev portal (\<lambda>d. d\<lparr>dev_type := Class_Portal, dev_init := Some PORTAL_INIT, dev_open := Some PORTAL_OPEN,
                dev_close := Some PORTAL_CLOSE, dev_write := Some PORTAL_WRITE, dev_read := Some PORTAL_READ, dev_control := None\<rparr>) s;
          (r, s) \<leftarrow> rt_device_find write_name s;
          (case r of
             None \<Rightarrow> Some (- RT_ENOSYS, s)
           | Some (ThreadTimer _) \<Rightarrow> None
           | Some (At w) \<Rightarrow>
               do { s \<leftarrow> RT_ASSERT (dev_type (devs s w) = Class_Pipe) s;
                    let s = upd_portal portal (\<lambda>p. p\<lparr>write_dev := w\<rparr>) s;
                    let s = snd (rt_device_set_tx_complete portal (dev_tx_complete (devs s w)) s);
                    let s = snd (rt_device_set_tx_complete w (Some PORTAL_TX) s);
                    let s = upd_pipe w (\<lambda>p. p\<lparr>pipe_write_portal := Some portal\<rparr>) s;
                    (r, s) \<leftarrow> rt_device_find read_name s;
                    (case r of
                       None \<Rightarrow> None
                     | Some (ThreadTimer _) \<Rightarrow> None
                     | Some (At a) \<Rightarrow>
                         do { s \<leftarrow> RT_ASSERT (dev_type (devs s a) = Class_Pipe) s;
                              let s = upd_portal portal (\<lambda>p. p\<lparr>read_dev := a\<rparr>) s;
                              let s = snd (rt_device_set_rx_indicate portal (dev_rx_indicate (devs s a)) s);
                              let s = snd (rt_device_set_rx_indicate a (Some PORTAL_RX) s);
                              let s = upd_pipe a (\<lambda>p. p\<lparr>pipe_read_portal := Some portal\<rparr>) s;
                              rt_device_register (Some portal) portal_name FLAG_RDWR s }) }) }"

definition rt_portal_detach :: "nat \<Rightarrow> 'a portal_state_scheme \<Rightarrow> rt_err_t \<times> 'a portal_state_scheme" where
  "rt_portal_detach portal s = rt_device_unregister portal s"

definition rt_portal_create :: "nat \<Rightarrow> 8 word list \<Rightarrow> 8 word list \<Rightarrow> 8 word list \<Rightarrow> 'a portal_state_scheme
    \<Rightarrow> (rt_err_t \<times> 'a portal_state_scheme) option" where
  "rt_portal_create sizeof_portal name write_name read_name s =
     do { (p, s) \<leftarrow> rt_calloc 1 sizeof_portal s;
          (case p of
             None \<Rightarrow> Some (- RT_ENOMEM, s)
           | Some portal \<Rightarrow>
               rt_portal_init portal name write_name read_name
                 (upd_dev portal (\<lambda>_. zero_device) (upd_portal portal (\<lambda>_. \<lparr>write_dev = 0, read_dev = 0\<rparr>) s))) }"

definition rt_portal_destroy :: "nat option \<Rightarrow> 'a portal_state_scheme \<Rightarrow> 'a portal_state_scheme option" where
  "rt_portal_destroy p s =
     (case p of
        None \<Rightarrow> Some s
      | Some portal \<Rightarrow> rt_free (Some portal) (snd (rt_portal_detach portal s)))"

interpretation portal_field: kernel_field portals upd_portal
  by unfold_locales (simp_all add: upd_portal_def kernel_as_def)

subsection \<open>Properties\<close>

text \<open>Two open portals \<open>port True\<close> and \<open>port False\<close> on two open pipes: \<open>pipe e\<close> is the one that \<open>port e\<close> writes to and the
  other portal reads from. The connection does not wait when the pipes are non-blocking and not forced (\<open>pipe_flag\<close> is
  0), no thread sleeps on them, and the callbacks of their readers change nothing (\<open>quiet\<close>).\<close>

definition portals_wired :: "(bool \<Rightarrow> nat) \<Rightarrow> (bool \<Rightarrow> nat) \<Rightarrow> 'a portal_state_scheme \<Rightarrow> bool" where
  "portals_wired port pipe s \<longleftrightarrow> pipe True \<noteq> pipe False
     \<and> (\<forall>e. write_dev (portals s (port e)) = pipe e \<and> read_dev (portals s (port e)) = pipe (\<not> e)
          \<and> dev_ref_count (devs s (port e)) \<noteq> 0
          \<and> dev_write (devs s (port e)) = Some PORTAL_WRITE \<and> dev_read (devs s (port e)) = Some PORTAL_READ
          \<and> dev_ref_count (devs s (pipe e)) \<noteq> 0
          \<and> dev_write (devs s (pipe e)) = Some PIPE_WRITE \<and> dev_read (devs s (pipe e)) = Some PIPE_READ
          \<and> rb_ok (pipe_rb (pipes s (pipe e))))"

definition connected :: "'a portal_state_scheme indicate \<Rightarrow> (bool \<Rightarrow> nat) \<Rightarrow> (bool \<Rightarrow> nat) \<Rightarrow> 'a portal_state_scheme \<Rightarrow> bool" where
  "connected user port pipe s \<longleftrightarrow> portals_wired port pipe s
     \<and> (\<forall>e. pipe_flag (pipes s (pipe e)) = 0 \<and> tlists s (Suspend (pipe e)) = [] \<and> tlists s (SuspendSender (pipe e)) = []
          \<and> quiet (portal_indicate user) s (pipe e))"

lemma connected_iff:
  "connected user port pipe s \<longleftrightarrow> pipe True \<noteq> pipe False
     \<and> (\<forall>e. pipe_ok (portal_indicate user) s (pipe e) \<and> pipe_flag (pipes s (pipe e)) = 0
          \<and> write_dev (portals s (port e)) = pipe e \<and> read_dev (portals s (port e)) = pipe (\<not> e)
          \<and> dev_ref_count (devs s (port e)) \<noteq> 0
          \<and> dev_write (devs s (port e)) = Some PORTAL_WRITE \<and> dev_read (devs s (port e)) = Some PORTAL_READ)"
  by (auto simp: connected_def portals_wired_def pipe_ok_def)

text \<open>Operations on the two portals; the bytes written at an end and read at an end; and the operations
  that concern one pipe.\<close>

fun portal_run :: "'a portal_state_scheme indicate \<Rightarrow> (bool \<Rightarrow> nat) \<Rightarrow> (bool \<times> pipe_op) list \<Rightarrow> 'a portal_state_scheme
    \<Rightarrow> ((bool \<Rightarrow> 8 word list) \<times> (bool \<Rightarrow> 8 word list) \<times> 'a portal_state_scheme) option" where
  "portal_run user port [] s = Some (\<lambda>_. [], \<lambda>_. [], s)"
| "portal_run user port ((e, Wr bs) # ops) s =
     (case rt_device_write (portal_driver user) (port e) 0 bs (word_of_nat (length bs)) s of
        Some (Ret n, s) \<Rightarrow> do { (ins, outs, s) \<leftarrow> portal_run user port ops s; Some (ins(e := take (unat n) bs @ ins e), outs, s) }
      | _ \<Rightarrow> None)"
| "portal_run user port ((e, Rd sz) # ops) s =
     (case rt_device_read (portal_driver user) (port e) 0 sz s of
        Some (Ret (n, bs), s) \<Rightarrow> do { (ins, outs, s) \<leftarrow> portal_run user port ops s; Some (ins, outs(e := bs @ outs e), s) }
      | _ \<Rightarrow> None)"

definition pipe_ops :: "bool \<Rightarrow> (bool \<times> pipe_op) list \<Rightarrow> pipe_op list" where
  "pipe_ops e ops = map snd (filter (\<lambda>(x, p). case p of Wr _ \<Rightarrow> x = e | Rd _ \<Rightarrow> x \<noteq> e) ops)"

lemma pipe_ops_simps:
  "pipe_ops y [] = []"
  "pipe_ops y ((e, Wr bs) # ops) = (if y = e then Wr bs # pipe_ops y ops else pipe_ops y ops)"
  "pipe_ops y ((e, Rd sz) # ops) = (if y = e then pipe_ops y ops else Rd sz # pipe_ops y ops)"
  unfolding pipe_ops_def by (cases y; cases e; simp)+

lemma pipe_frame_portals: "pipe_state.more s' = pipe_state.more s \<Longrightarrow> portals s' = portals s"
  by (cases s, cases s') simp

lemma connectedD:
  assumes "connected user port pipe s"
  shows "pipe e \<noteq> pipe (\<not> e)" "pipe_ok (portal_indicate user) s (pipe e)" "pipe_flag (pipes s (pipe e)) = 0"
    "rt_device_write (portal_driver user) (port e) pos bs w s = rt_device_write (pipe_drv user) (pipe e) pos bs w s"
    "rt_device_read (portal_driver user) (port e) pos sz s = rt_device_read (pipe_drv user) (pipe (\<not> e)) pos sz s"
proof -
  show "pipe e \<noteq> pipe (\<not> e)" using assms by (cases e) (auto simp: connected_iff)
  show "pipe_ok (portal_indicate user) s (pipe e)" "pipe_flag (pipes s (pipe e)) = 0" using assms by (simp_all add: connected_iff)
  have p: "write_dev (portals s (port e)) = pipe e" "read_dev (portals s (port e)) = pipe (\<not> e)" "dev_ref_count (devs s (port e)) \<noteq> 0"
    "dev_write (devs s (port e)) = Some PORTAL_WRITE" "dev_read (devs s (port e)) = Some PORTAL_READ"
    using assms by (simp_all add: connected_iff)
  have c: "call_write (portal_driver user) PORTAL_WRITE = portal_write user" "call_read (portal_driver user) PORTAL_READ = portal_read user"
    by (simp_all add: portal_driver_def fun_eq_iff)
  show "rt_device_write (portal_driver user) (port e) pos bs w s = rt_device_write (pipe_drv user) (pipe e) pos bs w s"
    using p by (simp add: rt_device_write_def[of "portal_driver user"] c portal_write_def)
  show "rt_device_read (portal_driver user) (port e) pos sz s = rt_device_read (pipe_drv user) (pipe (\<not> e)) pos sz s"
    using p by (simp add: rt_device_read_def[of "portal_driver user"] c portal_read_def)
qed

text \<open>An operation on one pipe leaves the other one connected.\<close>

lemma connected_frame:
  assumes c: "connected user port pipe s" and f: "pipe_frame (pipe e) s s'" "pipe_ok (portal_indicate user) s' (pipe e)"
    and w: "waits_as s s' l q" "l = Suspend (pipe e) \<or> l = SuspendSender (pipe e)"
  shows "connected user port pipe s'" "pipe_data s' (pipe (\<not> e)) = pipe_data s (pipe (\<not> e))"
proof -
  have ne: "pipe (\<not> e) \<noteq> pipe e" using connectedD(1)[OF c] by metis
  have p: "pipes s' (pipe (\<not> e)) = pipes s (pipe (\<not> e))" "devs s' = devs s" using f(1) ne by simp_all
  then show "pipe_data s' (pipe (\<not> e)) = pipe_data s (pipe (\<not> e))" by (simp add: pipe_data_def)
  have "tlists s' (Suspend (pipe (\<not> e))) = tlists s (Suspend (pipe (\<not> e)))"
    "tlists s' (SuspendSender (pipe (\<not> e))) = tlists s (SuspendSender (pipe (\<not> e)))" using w ne by (auto simp: waits_as_def)
  then have o: "pipe_ok (portal_indicate user) s' (pipe (\<not> e))"
    using connectedD(2)[OF c, of "\<not> e"] p by (simp add: pipe_ok_def quiet_def)
  have "pipe_ok (portal_indicate user) s' (pipe x) \<and> pipe_flag (pipes s' (pipe x)) = 0" for x
    using o f p connectedD(3)[OF c, of e] connectedD(3)[OF c, of "\<not> e"] by (cases "x = e") auto
  then show "connected user port pipe s'" using c pipe_frame_portals[of s' s] f(1) by (simp add: connected_iff)
qed

lemma portal_write_step:
  assumes r: "running s t" and c: "connected user port pipe s" and l: "length bs < 2 ^ 16"
  shows "\<exists>n s1 u. rt_device_write (portal_driver user) (port e) 0 bs (word_of_nat (length bs)) s = Some (Ret n, s1) \<and> running s1 u
    \<and> connected user port pipe s1 \<and> take (unat n) bs = take (rb_size (pipe_rb (pipes s (pipe e))) - length (pipe_data s (pipe e))) bs
    \<and> pipe_data s1 (pipe e) = pipe_data s (pipe e) @ take (unat n) bs \<and> pipe_data s1 (pipe (\<not> e)) = pipe_data s (pipe (\<not> e))
    \<and> (\<forall>x. rb_size (pipe_rb (pipes s1 (pipe x))) = rb_size (pipe_rb (pipes s (pipe x))))"
proof -
  define w where "w = (word_of_nat (length bs) :: rt_uint32_t)"
  have w: "unat w = length bs" using l by (simp add: w_def unat_of_nat)
  obtain s1 u n where s1: "rt_device_write (pipe_drv user) (pipe e) 0 bs w s = Some (Ret n, s1)"
    "unat n = min (unat w) (pipe_room s (pipe e))" "pipe_data s1 (pipe e) = pipe_data s (pipe e) @ take (unat n) bs"
    "pipe_ok (portal_indicate user) s1 (pipe e)" "running s1 u" "pipe_frame (pipe e) s s1"
    "waits_as s s1 (Suspend (pipe e)) (tl (tlists s (Suspend (pipe e))))"
    using pipe_write_returns[OF r connectedD(2)[OF c, of e], of w bs 0] connectedD(3)[OF c, of e] l w by auto
  note f = connected_frame[OF c s1(6,4,7)]
  have "rb_size (pipe_rb (pipes s1 (pipe x))) = rb_size (pipe_rb (pipes s (pipe x)))" for x
    using s1(6) connectedD(1)[OF c, of x] by (cases "x = e") auto
  then show ?thesis using connectedD(4)[OF c] s1 f w by (auto simp: pipe_room_def min_def simp flip: w_def)
qed

lemma portal_read_step:
  assumes r: "running s t" and c: "connected user port pipe s" and l: "unat sz < 2 ^ 16"
  shows "\<exists>n s1 u. rt_device_read (portal_driver user) (port (\<not> e)) 0 sz s = Some (Ret (n, take (unat sz) (pipe_data s (pipe e))), s1) \<and> running s1 u
    \<and> connected user port pipe s1
    \<and> pipe_data s1 (pipe e) = drop (unat sz) (pipe_data s (pipe e)) \<and> pipe_data s1 (pipe (\<not> e)) = pipe_data s (pipe (\<not> e))
    \<and> (\<forall>x. rb_size (pipe_rb (pipes s1 (pipe x))) = rb_size (pipe_rb (pipes s (pipe x))))"
proof -
  obtain s1 u n q where s1: "rt_device_read (pipe_drv user) (pipe e) 0 sz s = Some (Ret (n, take (unat sz) (pipe_data s (pipe e))), s1)"
    "pipe_data s1 (pipe e) = drop (unat sz) (pipe_data s (pipe e))"
    "pipe_ok (portal_indicate user) s1 (pipe e)" "running s1 u" "pipe_frame (pipe e) s s1"
    "waits_as s s1 (SuspendSender (pipe e)) q"
    using pipe_read_returns[OF r connectedD(2)[OF c, of e] l, of 0] connectedD(3)[OF c, of e] by auto
  note f = connected_frame[OF c s1(5,3,6)]
  have "rb_size (pipe_rb (pipes s1 (pipe x))) = rb_size (pipe_rb (pipes s (pipe x)))" for x
    using s1(5) connectedD(1)[OF c, of x] by (cases "x = e") auto
  then show ?thesis using connectedD(5)[OF c, of "\<not> e"] s1 f by auto
qed

text \<open>One operation: what it adds at the ends, in the run and on the queue of each direction.\<close>

lemma portal_step:
  assumes r: "running s t" and c: "connected user port pipe s"
    and l: "case p of Wr bs \<Rightarrow> length bs < 2 ^ 16 | Rd sz \<Rightarrow> unat sz < 2 ^ 16"
  shows "\<exists>s1 u b d. running s1 u \<and> connected user port pipe s1
    \<and> (\<forall>x. rb_size (pipe_rb (pipes s1 (pipe x))) = rb_size (pipe_rb (pipes s (pipe x))))
    \<and> (\<forall>ops. portal_run user port ((e, p) # ops) s
          = do { (ins, outs, s') \<leftarrow> portal_run user port ops s1; Some (\<lambda>y. b y @ ins y, \<lambda>y. d y @ outs y, s') })
    \<and> (\<forall>y ops. stream_run (rb_size (pipe_rb (pipes s (pipe y)))) (pipe_ops y ((e, p) # ops)) (pipe_data s (pipe y))
          = (let (ins, outs, q) = stream_run (rb_size (pipe_rb (pipes s (pipe y)))) (pipe_ops y ops) (pipe_data s1 (pipe y))
             in (b y @ ins, d (\<not> y) @ outs, q)))"
proof (cases p)
  case (Wr bs)
  obtain n s1 u where s1: "rt_device_write (portal_driver user) (port e) 0 bs (word_of_nat (length bs)) s = Some (Ret n, s1)" "running s1 u"
    "connected user port pipe s1" "take (unat n) bs = take (rb_size (pipe_rb (pipes s (pipe e))) - length (pipe_data s (pipe e))) bs"
    "pipe_data s1 (pipe e) = pipe_data s (pipe e) @ take (unat n) bs" "pipe_data s1 (pipe (\<not> e)) = pipe_data s (pipe (\<not> e))"
    "\<forall>x. rb_size (pipe_rb (pipes s1 (pipe x))) = rb_size (pipe_rb (pipes s (pipe x)))"
    using portal_write_step[OF r c, of bs e] l Wr by auto
  have fu: "ins(e := take (unat n) bs @ ins e) = (\<lambda>y. (if y = e then take (unat n) bs else []) @ ins y)" for ins by auto
  have st: "stream_run (rb_size (pipe_rb (pipes s (pipe y)))) (pipe_ops y ((e, p) # ops)) (pipe_data s (pipe y))
      = (let (ins, outs, q) = stream_run (rb_size (pipe_rb (pipes s (pipe y)))) (pipe_ops y ops) (pipe_data s1 (pipe y))
         in ((if y = e then take (unat n) bs else []) @ ins, [] @ outs, q))" for y ops
  proof (cases "y = e")
    case True
    then show ?thesis using s1(4-6) by (simp add: pipe_ops_simps Wr split_beta Let_def)
  next
    case False
    then have "y = (\<not> e)" by blast
    then show ?thesis using s1(4-6) by (simp add: pipe_ops_simps Wr split_beta Let_def)
  qed
  show ?thesis using s1(1-3,7) st
    by (intro exI[of _ s1] exI[of _ u] exI[of _ "\<lambda>y. if y = e then take (unat n) bs else []"] exI[of _ "\<lambda>_. []"]) (simp add: Wr fu)
next
  case (Rd sz)
  obtain n s1 u where s1: "rt_device_read (portal_driver user) (port e) 0 sz s = Some (Ret (n, take (unat sz) (pipe_data s (pipe (\<not> e)))), s1)"
    "running s1 u" "connected user port pipe s1"
    "pipe_data s1 (pipe (\<not> e)) = drop (unat sz) (pipe_data s (pipe (\<not> e)))" "pipe_data s1 (pipe e) = pipe_data s (pipe e)"
    "\<forall>x. rb_size (pipe_rb (pipes s1 (pipe x))) = rb_size (pipe_rb (pipes s (pipe x)))"
    using portal_read_step[OF r c, of sz "\<not> e"] l Rd by auto
  let ?d = "\<lambda>y. if y = e then take (unat sz) (pipe_data s (pipe (\<not> e))) else []"
  have fu: "outs(e := take (unat sz) (pipe_data s (pipe (\<not> e))) @ outs e) = (\<lambda>y. ?d y @ outs y)" for outs by auto
  have st: "stream_run (rb_size (pipe_rb (pipes s (pipe y)))) (pipe_ops y ((e, p) # ops)) (pipe_data s (pipe y))
      = (let (ins, outs, q) = stream_run (rb_size (pipe_rb (pipes s (pipe y)))) (pipe_ops y ops) (pipe_data s1 (pipe y))
         in ([] @ ins, ?d (\<not> y) @ outs, q))" for y ops
  proof (cases "y = e")
    case True
    then show ?thesis using s1(4,5) by (simp add: pipe_ops_simps Rd split_beta Let_def)
  next
    case False
    then have "y = (\<not> e)" by blast
    then show ?thesis using s1(4,5) by (simp add: pipe_ops_simps Rd split_beta Let_def)
  qed
  show ?thesis using s1(1-3,6) st
    by (intro exI[of _ s1] exI[of _ u] exI[of _ "\<lambda>_. []"] exI[of _ ?d]) (simp add: Rd fu)
qed

lemma portal_run_streams:
  assumes "running s t" "connected user port pipe s"
    and "\<And>x bs. (x, Wr bs) \<in> set ops \<Longrightarrow> length bs < 2 ^ 16" "\<And>x sz. (x, Rd sz) \<in> set ops \<Longrightarrow> unat sz < 2 ^ 16"
  shows "\<exists>ins outs s' u. portal_run user port ops s = Some (ins, outs, s') \<and> running s' u \<and> connected user port pipe s'
    \<and> (\<forall>e. stream_run (rb_size (pipe_rb (pipes s (pipe e)))) (pipe_ops e ops) (pipe_data s (pipe e))
             = (ins e, outs (\<not> e), pipe_data s' (pipe e)))"
  using assms
proof (induction ops arbitrary: s t)
  case Nil
  then show ?case by (auto simp: pipe_ops_simps)
next
  case (Cons x ops)
  obtain e p where x: "x = (e, p)" by (cases x)
  have "case p of Wr bs \<Rightarrow> length bs < 2 ^ 16 | Rd sz \<Rightarrow> unat sz < 2 ^ 16"
    using Cons.prems(3,4) by (cases p) (auto simp: x)
  from portal_step[OF Cons.prems(1,2) this, of e] obtain s1 u b d where s1: "running s1 u" "connected user port pipe s1"
    "\<forall>x. rb_size (pipe_rb (pipes s1 (pipe x))) = rb_size (pipe_rb (pipes s (pipe x)))"
    "portal_run user port (x # ops) s = do { (ins, outs, s') \<leftarrow> portal_run user port ops s1; Some (\<lambda>y. b y @ ins y, \<lambda>y. d y @ outs y, s') }"
    "\<forall>y. stream_run (rb_size (pipe_rb (pipes s (pipe y)))) (pipe_ops y (x # ops)) (pipe_data s (pipe y))
       = (let (ins, outs, q) = stream_run (rb_size (pipe_rb (pipes s (pipe y)))) (pipe_ops y ops) (pipe_data s1 (pipe y))
          in (b y @ ins, d (\<not> y) @ outs, q))" unfolding x by blast
  have "\<exists>ins outs s' u. portal_run user port ops s1 = Some (ins, outs, s') \<and> running s' u \<and> connected user port pipe s'
      \<and> (\<forall>e. stream_run (rb_size (pipe_rb (pipes s1 (pipe e)))) (pipe_ops e ops) (pipe_data s1 (pipe e))
             = (ins e, outs (\<not> e), pipe_data s' (pipe e)))"
    by (rule Cons.IH[OF s1(1,2)]) (erule Cons.prems(3,4)[OF list.set_intros(2)])+
  then show ?case using s1(3-5) by auto
qed

text \<open>C1: Two open portals on two open pipes, of which each portal writes to one and reads from the other, are a
  connection in both directions, when the pipes are non-blocking and not forced (their flag is 0: a write to a forced pipe
  would overwrite old bytes, a read of an empty blocking pipe would wait), no thread sleeps on them,
  and the callbacks that announce data change nothing: through any interleaving of reads and writes
  of less than 2 ^ 16 bytes at the two ends every call returns, the bytes that the reads at one end deliver are those that the
  writes at the other end accepted, in order, each direction behaves as a bounded queue of
  bytes of its own, and the portals are such a connection afterwards.\<close>

theorem portals_connect:
  assumes "running s t" "portals_wired port pipe s"
    and "\<And>e. pipe_flag (pipes s (pipe e)) = 0"
    and "\<And>e. tlists s (Suspend (pipe e)) = [] \<and> tlists s (SuspendSender (pipe e)) = []"
    and "\<And>e. quiet (portal_indicate user) s (pipe e)"
    and "\<And>x bs. (x, Wr bs) \<in> set ops \<Longrightarrow> length bs < 2 ^ 16" "\<And>x sz. (x, Rd sz) \<in> set ops \<Longrightarrow> unat sz < 2 ^ 16"
  shows "\<exists>ins outs s' u. portal_run user port ops s = Some (ins, outs, s') \<and> running s' u
    \<and> portals_wired port pipe s'
    \<and> (\<forall>e. pipe_flag (pipes s' (pipe e)) = 0 \<and> tlists s' (Suspend (pipe e)) = [] \<and> tlists s' (SuspendSender (pipe e)) = []
         \<and> quiet (portal_indicate user) s' (pipe e))
    \<and> (\<forall>e. stream_run (rb_size (pipe_rb (pipes s (pipe e)))) (pipe_ops e ops) (pipe_data s (pipe e))
             = (ins e, outs (\<not> e), pipe_data s' (pipe e))
         \<and> pipe_data s (pipe e) @ ins e = outs (\<not> e) @ pipe_data s' (pipe e))"
proof -
  have "connected user port pipe s" using assms(2-5) by (simp add: connected_def)
  then show ?thesis using portal_run_streams[OF assms(1), of user port pipe ops] assms(6,7) stream_order
    unfolding connected_def by blast
qed

subsection \<open>Witnesses\<close>

text \<open>Portals 1 and 2 on the non-blocking pipes 7 and 8; the readers of the pipes are told through the
  portals, whose users have no callback.\<close>

definition demo_port :: "bool \<Rightarrow> nat" where "demo_port e = (if e then 1 else 2)"

definition demo_end :: "bool \<Rightarrow> nat" where "demo_end e = (if e then 7 else 8)"

definition demo_portals :: portal_state where
  "demo_portals = demo_kernel
     \<lparr>devs = (\<lambda>a. if a < 3 then zero_device\<lparr>dev_ref_count := 1, dev_read := Some PORTAL_READ, dev_write := Some PORTAL_WRITE\<rparr>
        else zero_device\<lparr>dev_type := Class_Pipe, dev_ref_count := 1, dev_read := Some PIPE_READ, dev_write := Some PIPE_WRITE, dev_rx_indicate := Some PORTAL_RX\<rparr>),
      pipes = (\<lambda>a. demo_pipe demo_rb 0\<lparr>pipe_read_portal := Some 1\<rparr>), size_vars = (\<lambda>_. 0),
      portals = (\<lambda>a. if a = 1 then \<lparr>write_dev = 7, read_dev = 8\<rparr> else \<lparr>write_dev = 8, read_dev = 7\<rparr>)\<rparr>"

lemma demo_portals_facts: "running demo_portals 1" "portals_wired demo_port demo_end demo_portals"
  "quiet (portal_indicate (\<lambda>_ _ _ _. None)) demo_portals (demo_end e)"
  "pipe_flag (pipes demo_portals a) = 0" "tlists demo_portals (Suspend a) = [] \<and> tlists demo_portals (SuspendSender a) = []"
  "pipe_data demo_portals a = [6, 7, 0]"
proof -
  show "running demo_portals 1" unfolding demo_portals_def by (rule demo_kernel_running)
  have p: "pipes demo_portals a = demo_pipe demo_rb 0\<lparr>pipe_read_portal := Some 1\<rparr>"
    "portals demo_portals a = (if a = 1 then \<lparr>write_dev = 7, read_dev = 8\<rparr> else \<lparr>write_dev = 8, read_dev = 7\<rparr>)"
    "devs demo_portals a = (if a < 3 then zero_device\<lparr>dev_ref_count := 1, dev_read := Some PORTAL_READ, dev_write := Some PORTAL_WRITE\<rparr>
        else zero_device\<lparr>dev_type := Class_Pipe, dev_ref_count := 1, dev_read := Some PIPE_READ, dev_write := Some PIPE_WRITE, dev_rx_indicate := Some PORTAL_RX\<rparr>)"
    "tlists demo_portals (Suspend a) = []" "tlists demo_portals (SuspendSender a) = []" for a
    by (simp_all add: demo_portals_def demo_kernel_def sched_state.defs demo_sched_def demo_tlists_def)
  show "quiet (portal_indicate (\<lambda>_ _ _ _. None)) demo_portals (demo_end e)"
    by (auto simp: demo_end_def quiet_def p portal_indicate_def portal_rx_indicate_def demo_pipe_def zero_device_def RT_ASSERT_def)
  show "pipe_flag (pipes demo_portals a) = 0" by (simp add: p demo_pipe_def)
  show "tlists demo_portals (Suspend a) = [] \<and> tlists demo_portals (SuspendSender a) = []" by (simp add: p)
  show "portals_wired demo_port demo_end demo_portals" using demo_rb_ok(1)
    by (simp add: portals_wired_def p demo_port_def demo_end_def demo_pipe_def zero_device_def)
  show "pipe_data demo_portals a = [6, 7, 0]" using demo_rb_ok(4) by (simp add: p demo_pipe_def pipe_data_def)
qed

theorem portals_connect_witness:
  "\<exists>ins outs s'. portal_run (\<lambda>_ _ _ _. None) demo_port [(True, Wr [1, 2]), (False, Rd 4)] demo_portals = Some (ins, outs, s')
     \<and> [6, 7, 0] @ ins True = outs False @ pipe_data s' 7"
proof -
  obtain ins outs s' where "portal_run (\<lambda>_ _ _ _. None) demo_port [(True, Wr [1, 2]), (False, Rd 4)] demo_portals = Some (ins, outs, s')"
    "\<forall>e. pipe_data demo_portals (demo_end e) @ ins e = outs (\<not> e) @ pipe_data s' (demo_end e)"
    using portals_connect[OF demo_portals_facts(1,2,4,5,3), of "[(True, Wr [1, 2]), (False, Rd 4)]"] by auto
  then show ?thesis using demo_portals_facts(6) by (auto dest: spec[of _ True] simp: demo_end_def)
qed

end
