(* ===== verification/AlignedHeap.thy ===== *)
theory AlignedHeap
  imports Heap
begin

text \<open>
  Aligned blocks from the heap, \<^verbatim>\<open>rt_malloc_align\<close> and \<^verbatim>\<open>rt_free_align\<close> of \<^verbatim>\<open>src/kservice.c\<close>: a larger block
  is allocated, the aligned address in it is returned, and the word in front of that address holds the
  address of the block.
\<close>

definition rt_malloc_align :: "rt_uint32_t \<Rightarrow> rt_uint32_t \<Rightarrow> 'a heap_state_scheme \<Rightarrow> (nat option \<times> 'a heap_state_scheme) option" where
  "rt_malloc_align sz align s =
     (let align = (align + 3) AND NOT 3;
          align_size = ((sz + 3) AND NOT 3) + align
      in do { (p, s) \<leftarrow> rt_malloc (unat align_size) s;
              (case p of
                 None \<Rightarrow> Some (None, s)
               | Some ptr \<Rightarrow>
                   let p32 = word_of_nat ptr;
                       align_ptr = (if p32 AND (align - 1) = 0 then p32 + align else (p32 + (align - 1)) AND NOT (align - 1))
                   in Some (Some (unat align_ptr), s\<lparr>mdata := store32 (unat (align_ptr - 4)) p32 (mdata s)\<rparr>)) })"

definition rt_free_align :: "nat \<Rightarrow> 'a heap_state_scheme \<Rightarrow> 'a heap_state_scheme option" where
  "rt_free_align ptr s =
     (let real_ptr = unat (load32 (unat (word_of_nat ptr - 4 :: rt_uint32_t)) (mdata s))
      in rt_free (if real_ptr = 0 then None else Some real_ptr) s)"

subsection \<open>The aligned address\<close>

lemma unat_and_not_mask: "unat (w AND NOT (mask k) :: rt_uint32_t) = unat w div 2 ^ k * 2 ^ k"
proof -
  have "unat (w AND NOT (mask k)) = push_bit k (drop_bit k (unat w))"
    by (rule bit_eqI) (auto simp: bit_unsigned_iff bit_and_iff bit_not_iff bit_mask_iff
        bit_push_bit_iff bit_drop_bit_eq not_less dest: bit_imp_le_length)
  then show ?thesis by (simp add: push_bit_eq_mult drop_bit_eq_div)
qed

lemma unat_and_mask: "unat (w AND mask k :: rt_uint32_t) = unat w mod 2 ^ k"
  by (metis take_bit_eq_mask take_bit_eq_mod unsigned_take_bit_eq)

definition align_addr :: "nat \<Rightarrow> nat \<Rightarrow> nat" where
  "align_addr k a = (if a mod 2 ^ k = 0 then a + 2 ^ k else (a + (2 ^ k - 1)) div 2 ^ k * 2 ^ k)"

text \<open>The next multiple of the alignment above an address that is a multiple of four leaves room for a
  word in between.\<close>

lemma align_addr_ok:
  assumes "a mod 4 = 0" "2 \<le> k"
  shows "align_addr k a mod 2 ^ k = 0" "a + 4 \<le> align_addr k a" "align_addr k a \<le> a + 2 ^ k"
proof -
  let ?n = "2 ^ k :: nat"
  have n: "0 < ?n" "4 dvd ?n" using le_imp_power_dvd[OF assms(2), of "2 :: nat"] by simp_all
  show d: "align_addr k a mod ?n = 0" by (simp add: align_addr_def)
  have lo: "a < align_addr k a" "align_addr k a \<le> a + ?n"
  proof -
    let ?q = "(a + (?n - 1)) div ?n"
    have "?q * ?n + (a + (?n - 1)) mod ?n = a + (?n - 1)" by (rule div_mult_mod_eq)
    moreover have "(a + (?n - 1)) mod ?n < ?n" using n(1) by simp
    ultimately have "a \<le> ?q * ?n" "?q * ?n \<le> a + ?n" by linarith+
    moreover have "?q * ?n \<noteq> a" if "a mod ?n \<noteq> 0" using that by (metis mod_mult_self2_is_0)
    ultimately show "a < align_addr k a" "align_addr k a \<le> a + ?n" using n(1) by (auto simp: align_addr_def)
  qed
  have "4 dvd align_addr k a" using d n(2) by (metis dvd_trans mod_0_imp_dvd)
  moreover have "4 dvd a" using assms(1) by auto
  ultimately have "4 dvd align_addr k a - a" by simp
  then obtain c where c: "align_addr k a - a = 4 * c" by (elim dvdE)
  then show "a + 4 \<le> align_addr k a" using lo(1) by (cases c) linarith+
  show "align_addr k a \<le> a + ?n" by (rule lo(2))
qed

lemma align_ptr_eq:
  assumes "a + 2 ^ k < 2 ^ 32" "k < 32"
  shows "unat (if word_of_nat a AND (2 ^ k - 1) = (0 :: rt_uint32_t) then word_of_nat a + 2 ^ k
      else (word_of_nat a + (2 ^ k - 1)) AND NOT (2 ^ k - 1) :: rt_uint32_t) = align_addr k a"
proof -
  let ?w = "word_of_nat a :: rt_uint32_t"
  have a: "unat ?w = a" using assms(1) by (simp add: unat_of_nat)
  have m: "(2 ^ k - 1 :: rt_uint32_t) = mask k" by (simp add: mask_eq_exp_minus_1)
  have p: "unat (2 ^ k :: rt_uint32_t) = 2 ^ k"
  proof -
    have "(2 :: nat) ^ k < 2 ^ 32" using assms(1) by simp
    moreover have "(2 ^ k :: rt_uint32_t) = word_of_nat (2 ^ k)" by simp
    ultimately show ?thesis by (simp only: unat_of_nat) simp
  qed
  then have nz: "(2 ^ k :: rt_uint32_t) \<noteq> 0" using assms(2) by simp
  have u: "unat (mask k :: rt_uint32_t) = 2 ^ k - 1" using unat_minus_one[OF nz] p by (simp add: mask_eq_exp_minus_1)
  have "unat (?w + 2 ^ k) = a + 2 ^ k" using unat_add_small[of ?w "2 ^ k"] a p assms(1) by simp
  moreover have "unat (?w + mask k) = a + (2 ^ k - 1)" using unat_add_small[of ?w "mask k"] a u assms(1) by simp
  moreover have "?w AND mask k = 0 \<longleftrightarrow> a mod 2 ^ k = 0" using unat_and_mask[of ?w k] a by (metis unat_eq_zero)
  ultimately show ?thesis unfolding m by (simp add: align_addr_def unat_and_not_mask)
qed

subsection \<open>Properties\<close>

lemma align_size_eq:
  fixes sz :: rt_uint32_t
  assumes k: "2 \<le> k" "k < 31" and sz: "(unat sz + 3) div 4 * 4 + 2 ^ k \<le> 2 ^ 32 - 4"
  shows "((2 ^ k + 3) AND NOT 3 :: rt_uint32_t) = 2 ^ k"
    and "unat (((sz + 3) AND NOT 3) + 2 ^ k) = (unat sz + 3) div 4 * 4 + 2 ^ k"
    and "align_up ((unat sz + 3) div 4 * 4 + 2 ^ k) = (unat sz + 3) div 4 * 4 + 2 ^ k"
proof -
  let ?a = "2 ^ k :: rt_uint32_t" and ?n = "2 ^ k :: nat" and ?z = "(unat sz + 3) div 4 * 4"
  have k31: "?n < 2 ^ 31" using k(2) by (intro power_strict_increasing) simp_all
  have un: "unat ?a = ?n"
  proof -
    have "?n < 2 ^ 32" using k31 by simp
    moreover have "?a = word_of_nat ?n" by simp
    ultimately show ?thesis by (simp only: unat_of_nat) simp
  qed
  have dv: "4 dvd ?n" using le_imp_power_dvd[OF k(1), of "2 :: nat"] by simp
  have "unat ((?a + 3) AND NOT 3) = (?n + 3) div 4 * 4"
    using and_not_3[of "?a + 3"] unat_add_small[of ?a 3] un k31 by simp
  also have "\<dots> = ?n" using dv by (auto elim!: dvdE)
  finally show "(?a + 3) AND NOT 3 = ?a" using un by (metis word_unat_eq_iff)
  have "unat sz \<le> ?z" by presburger
  then have szb: "unat sz + 3 < 2 ^ 32" using sz by simp
  have z: "unat ((sz + 3) AND NOT 3) = ?z" using and_not_3[of "sz + 3"] unat_add_small[of sz 3] szb by simp
  show "unat (((sz + 3) AND NOT 3) + ?a) = ?z + ?n"
    using unat_add_small[of "(sz + 3) AND NOT 3" ?a] z un sz by simp
  obtain c where "?n = 4 * c" using dv by (elim dvdE)
  then have "(?z + ?n + 3) div 4 * 4 = ?z + ?n" by presburger
  then show "align_up (?z + ?n) = ?z + ?n" using align_up_eq[of "?z + ?n"] sz by simp
qed

text \<open>C39: A block from \<^verbatim>\<open>rt_malloc_align\<close> with an alignment of a power of two starts at a multiple of the alignment, lies
  within a used segment of the heap with the word that leads back to the segment in front of it, and
  \<^verbatim>\<open>rt_free_align\<close> on it restores the heap, whatever the owner wrote into the block.\<close>

theorem malloc_align_roundtrip:
  assumes "heap_inv low s xs" "rt_interrupt_nest s = 0" "align = 2 ^ k" "2 \<le> k" "k < 31"
    and "(unat sz + 3) div 4 * 4 + 2 ^ k \<le> 2 ^ 32 - 4" "rt_malloc_align sz align s = Some (Some a, s1)"
  shows "a mod 2 ^ k = 0
    \<and> (\<exists>ys n zs. heap_inv low s1 (ys @ (n, True) # zs)
        \<and> heap_ptr s1 + slen ys + 12 + 4 \<le> a \<and> a + unat sz \<le> heap_ptr s1 + slen ys + n)
    \<and> (\<forall>m. (\<forall>x < a. a - 4 \<le> x \<longrightarrow> m x = mdata s1 x)
        \<longrightarrow> (\<exists>s2. rt_free_align a (s1\<lparr>mdata := m\<rparr>) = Some s2 \<and> heap_inv low s2 xs \<and> used_mem s2 = used_mem s))"
proof -
  let ?n = "2 ^ k :: nat" and ?z = "(unat sz + 3) div 4 * 4"
  note al = align_size_eq(1)[OF assms(4-6), folded assms(3)] and tot = align_size_eq(2)[OF assms(4-6), folded assms(3)]
    and up = align_size_eq(3)[OF assms(4-6)]
  obtain p s0 where p: "rt_malloc (?z + ?n) s = Some (Some p, s0)"
    using assms(7) unfolding rt_malloc_align_def Let_def al tot by (auto split: bind_splits option.splits)
  obtain ys n zs where b: "p = heap_ptr s + slen ys + 12" "heap_inv low s0 (ys @ (n, True) # zs)" "heap_ptr s0 = heap_ptr s"
    "max 12 (align_up (?z + ?n)) + 12 \<le> n" "p mod 4 = 0" "p + n < 2 ^ 32"
    "\<forall>m. \<exists>s2. rt_free (Some p) (s0\<lparr>mdata := m\<rparr>) = Some s2 \<and> heap_inv low s2 xs \<and> used_mem s2 = used_mem s"
    using malloc_block[OF assms(1,2) p] by (elim exE conjE) (rule that)
  have fit: "?z + ?n + 12 \<le> n" using b(4) up by simp
  note A = align_addr_ok[OF b(5) assms(4)]
  define q where "q = (if word_of_nat p AND (align - 1) = 0 then word_of_nat p + align
      else (word_of_nat p + (align - 1)) AND NOT (align - 1))"
  have q: "unat q = align_addr k p" unfolding q_def assms(3) using fit b(6) assms(5) by (intro align_ptr_eq) simp_all
  have q4: "unat (q - 4) = align_addr k p - 4" using A(2) q by (subst unat_sub) (simp_all add: word_le_nat_alt)
  have a: "a = align_addr k p" "s1 = s0\<lparr>mdata := store32 (align_addr k p - 4) (word_of_nat p) (mdata s0)\<rparr>"
    using assms(7) p unfolding rt_malloc_align_def Let_def al tot by (auto simp: q_def[symmetric] q q4)
  have "\<exists>s2. rt_free_align a (s1\<lparr>mdata := m\<rparr>) = Some s2 \<and> heap_inv low s2 xs \<and> used_mem s2 = used_mem s"
    if m: "\<forall>x < a. a - 4 \<le> x \<longrightarrow> m x = mdata s1 x" for m
  proof -
    have a4: "unat (word_of_nat a - 4 :: rt_uint32_t) = a - 4" using q4 q a(1) by (metis ucast_id of_nat_unat)
    have "load32 (a - 4) m = load32 (a - 4) (mdata s1)" using m A(2) a(1) by (intro load32_cong) auto
    then have "load32 (a - 4) m = word_of_nat p" using a by (simp add: load32_store32)
    moreover have "unat (word_of_nat p :: rt_uint32_t) = p" using b(6) by (simp add: unat_of_nat)
    moreover have "p \<noteq> 0" using b(1) by simp
    ultimately have "rt_free_align a (s1\<lparr>mdata := m\<rparr>) = rt_free (Some p) (s0\<lparr>mdata := m\<rparr>)"
      unfolding rt_free_align_def Let_def a4 by (simp add: a(2))
    then show ?thesis using b(7) by simp
  qed
  moreover have "a + unat sz \<le> heap_ptr s1 + slen ys + n" using A(3) fit b(1,3) a by (simp add: algebra_simps)
  ultimately show ?thesis using A(1,2) a b(1-3) by auto
qed

subsection \<open>Witnesses\<close>

lemma demo_malloc_align: "\<exists>a s1. rt_malloc_align 6 8 demo_heap = Some (Some a, s1)"
proof -
  have "unat (((6 + 3) AND NOT 3) + ((8 + 3) AND NOT 3) :: rt_uint32_t) = 16" by code_simp
  moreover obtain a s1 where "rt_malloc 16 demo_heap = Some (Some a, s1)"
    using demo_heap_inv(2) demo_heap_simps(1)
  proof (cases rule: rt_malloc_cases[where sz = 16])
    case none
    have "align_up 16 = 16" using align_up_eq[of 16] by simp
    moreover have "malloc_search 36 16 demo_heap = Some (Some 36)"
      by (subst malloc_search.simps) (simp add: demo_heap_def sub32_def add32_def)
    ultimately show ?thesis using none that
      by (simp add: rt_malloc_def not_in_interrupt_eq demo_heap_simps Let_def demo_heap_def bind_eq_Some_conv)
  qed (use that in blast)
  ultimately show ?thesis unfolding rt_malloc_align_def Let_def by (simp only:) (simp del: unat_plus_simple)
qed

theorem malloc_align_roundtrip_witness:
  "\<exists>a s1 s2. rt_malloc_align 6 8 demo_heap = Some (Some a, s1) \<and> a mod 8 = 0
     \<and> rt_free_align a s1 = Some s2 \<and> used_mem s2 = used_mem demo_heap"
proof -
  obtain a s1 where a: "rt_malloc_align 6 8 demo_heap = Some (Some a, s1)" using demo_malloc_align by blast
  have "s1 = s1\<lparr>mdata := mdata s1\<rparr>" by simp
  then show ?thesis using a malloc_align_roundtrip[OF demo_heap_inv(2) demo_heap_simps(1) _ _ _ _ a, of 3] by fastforce
qed

end
