(* ===== verification/Spec2Isabelle.thy ===== *)
theory Spec2Isabelle
  imports PrintfSpec Timeout Heap RingBuffer SemSystem MutexSystem ObjectHeap MemHeap SoftTimer DataQueue Console Portal AlignedHeap
begin

text \<open>
  Verification of the RT-Thread kernel: the scheduler, threads, timers, IPC objects and memory
  management of \<^verbatim>\<open>src/\<close> and \<^verbatim>\<open>include/\<close> of the kernel, the device layer, and the driver framework of
  \<^verbatim>\<open>components/drivers/src/\<close>, in the configuration of \<^verbatim>\<open>bsp/stm32f10x/rtconfig.h\<close> (32 priorities, 32-bit
  ticks, alignment 4, small-memory heap, console, debugging checks on, soft timers off).

  \<^bold>\<open>The program and its parts.\<close> All kernel objects carry an object header and are kept in one
  container list per type (\<^verbatim>\<open>object.c\<close>). A thread (\<^verbatim>\<open>thread.c\<close>) is in exactly one of: the ready queue of
  its priority (\<^verbatim>\<open>scheduler.c\<close>, with a bitmap that \<^verbatim>\<open>rt_ffs\<close> searches), the waiting list of an IPC object
  (\<^verbatim>\<open>ipc.c\<close>, \<^verbatim>\<open>mempool.c\<close>, \<^verbatim>\<open>completion.c\<close>, \<^verbatim>\<open>dataqueue.c\<close>, \<^verbatim>\<open>pipe.c\<close>), or the list of threads to be cleaned up.
  Each thread owns a timer (\<^verbatim>\<open>timer.c\<close>); a blocking call suspends the thread, starts the timer and
  calls the scheduler; the tick interrupt (\<^verbatim>\<open>clock.c\<close>) checks the timers and the time slice, and the
  time-out function makes the thread ready with an error. Devices (\<^verbatim>\<open>device.c\<close>) are kernel objects
  with a table of driver functions; pipes and portals are drivers built from ring buffers and
  waiting lists; the console (\<^verbatim>\<open>kservice.c\<close>) formats a text and writes it to a device.

  \<^bold>\<open>Theories.\<close> Each theory is named after the code it models; definitions keep the names of the C
  functions.

  \<^item> \<open>Prelude\<close>: C types as words, error codes, alignment macros, the result type of calls that may
    block, and shared lemmas on lists and words.
  \<^item> \<open>RtList\<close> (\<^verbatim>\<open>include/rtservice.h\<close>): the intrusive lists at pointer level. The locale \<open>list_store\<close> states
    what a store of disjoint lists promises; it is interpreted on the pointers and on the lists as
    values that all other theories use, and \<open>pointer_lists_refine_store\<close> relates the two.
  \<^item> \<open>KService\<close> (\<^verbatim>\<open>src/kservice.c\<close>): \<^verbatim>\<open>rt_ffs\<close>, the memory and string routines against byte-wise references.
  \<^item> \<open>KPrintf\<close> (\<^verbatim>\<open>src/kservice.c\<close>): \<^verbatim>\<open>print_number\<close>, \<^verbatim>\<open>rt_vsnprintf\<close> and the functions around it. They
    write a text that does not depend on the buffer, cut off and terminated, and nothing else; printed numbers
    read back. \<open>PrintfSpec\<close> says what that text is by a specification of its own: a format is a list of plain
    characters and directives (flags, width, precision, qualifier, conversion) with a spelling and a
    meaning, neither of which uses the parser or the digit routines of the code. The conversion \<^verbatim>\<open>%o\<close>, which the code prints
    in base 16, is not part of it.
  \<^item> \<open>Irq\<close> (\<^verbatim>\<open>src/irq.c\<close>, \<^verbatim>\<open>include/rtdebug.h\<close>): interrupt nesting and the context checks.
  \<^item> \<open>Mem\<close> and \<open>Heap\<close> (\<^verbatim>\<open>src/mem.c\<close>): the heap operations on item headers in memory, and their
    correctness over a row of segments: the row, the bytes and the result of every call are given exactly on every branch,
    with the conditions under which it fails; \<open>AlignedHeap\<close> adds \<^verbatim>\<open>rt_malloc_align\<close> and \<^verbatim>\<open>rt_free_align\<close>.
  \<^item> \<open>Object\<close> (\<^verbatim>\<open>src/object.c\<close>): headers, container lists, lookup by name. \<open>ObjectHeap\<close> puts objects and heap
    together: every container list is typed, and each allocated object has its own segment.
  \<^item> \<open>MemHeap\<close> (\<^verbatim>\<open>src/memheap.c\<close>): heaps as objects, in the configuration that has them. The ring of blocks
    and the ring of free blocks represent a row of segments; taking, freeing and resizing blocks keep
    both in order, with the resulting row given for each branch, and \<^verbatim>\<open>rt_malloc\<close> goes through the heaps in turn.
  \<^item> \<open>Timer\<close> (\<^verbatim>\<open>src/timer.c\<close>, \<^verbatim>\<open>src/clock.c\<close>): the skip list, start, stop, control, and the check of the
    expired timers. The locale \<open>timer_client\<close> states what a time-out function must keep for the
    check to return and run every expired timer; \<open>Thread\<close> interprets it.
  \<^item> \<open>SoftTimer\<close> (\<^verbatim>\<open>src/timer.c\<close> with \<^verbatim>\<open>RT_USING_TIMER_SOFT\<close>): the second list and the thread that checks it; it
    sleeps until the first timer is due and fires the expired ones in order, unless a timeout function
    stops the timer the loop goes on with.
  \<^item> \<open>Scheduler\<close> (\<^verbatim>\<open>src/scheduler.c\<close>), \<open>Thread\<close> (\<^verbatim>\<open>src/thread.c\<close>, the clean-up of \<^verbatim>\<open>src/idle.c\<close>, the stack frame
    of \<^verbatim>\<open>libcpu/arm/cortex-m3/cpuport.c\<close>): the invariant \<open>kinv\<close> (ready queues agree
    with the bitmap and the thread states, no thread is in two lists, timers in order), and that
    the operations keep it; sleeping, yielding, ticks; the first frame of a new thread lies inside its stack.
  \<^item> \<open>Ipc\<close>: what the objects of \<^verbatim>\<open>src/ipc.c\<close> share, that is suspending in FIFO or priority order, waking one or
    all, the blocking sequence. The locale \<open>kernel_field\<close> states what it means that an object's
    own record is independent of the rest of the kernel; every object interprets it, which gives
    each the preservation of the invariants.
  \<^item> \<open>Semaphore\<close>, \<open>Mutex\<close>, \<open>Event\<close>, \<open>Mailbox\<close>, \<open>MessageQueue\<close> (\<^verbatim>\<open>src/ipc.c\<close>) and \<open>MemPool\<close> (\<^verbatim>\<open>src/mempool.c\<close>): all
    operations on every branch. Semaphore and mutex refine abstract specifications (a counting
    semaphore with a queue, a recursive lock with priority inheritance); the event set loses no
    wake-up; mailboxes and message queues are bounded queues.
  \<^item> \<open>Fifo\<close>: the locale \<open>fifo\<close> of bounded first-in first-out queues, interpreted by the mailbox, the data
    queue and the ring buffer.
  \<^item> \<open>Timeout\<close>: a blocking call with a limit is ended by the tick interrupt at the limit, not before.
  \<^item> \<open>System\<close> and \<open>SemSystem\<close>: threads that share a semaphore as an inductive step relation over
    takes, releases, yields, sleeps and ticks; in all reachable states permits are conserved, no
    call gets stuck, and a thread can run. \<open>MutexSystem\<close> does the same for one mutex that queues by priority: it excludes, its
    owner has at least the priority of each thread it keeps waiting, and a thread that owns
    nothing has its own priority.
  \<^item> \<open>Device\<close> (\<^verbatim>\<open>src/device.c\<close>): the registry refines a map from names; the locale \<open>device_driver\<close> states
    what a driver may change, and the reference count follows the openings and closings. It is
    interpreted by the pipe driver.
  \<^item> \<open>Console\<close> (\<^verbatim>\<open>src/kservice.c\<close>): \<^verbatim>\<open>rt_kprintf\<close> down to the write of the console device.
  \<^item> \<open>RingBuffer\<close>, \<open>Completion\<close>, \<open>DataQueue\<close>, \<open>Pipe\<close>, \<open>Portal\<close> (files of the same names in
    \<^verbatim>\<open>components/drivers/src/\<close>): the ring buffer with mirror bits as a bounded queue; the hand-shake of a completion;
    the data queue with water marks; pipes as devices that carry a stream of bytes and wake blocked
    readers and writers; two portals on non-blocking pipes that connect their users in both directions.

  \<^bold>\<open>State.\<close> The kernel state is a chain of extensible records, one per component in the order in which
  the components use each other: \<open>irq_state\<close>, \<open>heap_state\<close>, \<open>obj_state\<close>, \<open>timer_state\<close>, \<open>sched_state\<close> (the variables of
  the scheduler, the threads by number, the lists of threads by name), and from there
  \<open>sem_state\<close> up to \<open>mp_state\<close> for the IPC objects, \<open>mh_state\<close> for the heap objects and \<open>soft_state\<close> for the soft timers beside them, and \<open>dev_state\<close> with \<open>pipe_state\<close>, \<open>portal_state\<close>,
  \<open>con_state\<close>, \<open>cmp_state\<close> and \<open>dq_state\<close>. A component's operations are stated over every extension of its record, so they apply
  unchanged in the components above. An operation maps the state to \<open>Some\<close> result, or to \<open>None\<close>
  where the code fails an assertion, has undefined behaviour or does not return. A call that may block
  gives \<open>Ret\<close> with its result, or \<open>Wait\<close> with what the call has to remember, in a state in which
  another thread runs; what it does when its thread runs again is a definition of its own, named
  after the function with the suffix \<open>_end\<close> or \<open>_resume\<close>. Words keep their width, so all wrap-around
  of ticks, counters and sizes is that of the code.

  \<^bold>\<open>Loops.\<close> Loops over lists are structural recursion; loops over memory, the timers and
  retries are \<open>function\<close> with a measure, or \<open>partial_function (option)\<close> where the code may run for
  ever. For the latter the properties state that the call returns, so nothing is said only of
  calls that happen to return. No definition has an artificial bound.

  \<^bold>\<open>Abstractions.\<close>
  \<^item> Sections with interrupts disabled and calls that do not leave the running thread are atomic;
    interleaving is that of the points where the code gives up the processor and of tick
    interrupts between calls.
  \<^item> A context switch changes the current thread; registers and the stack pointer are not moved.
  \<^item> Lists of threads are values; inserting a node that is linked elsewhere is not represented, and
    \<open>kinv\<close> shows that the operations do not need it.
  \<^item> Object pointers are numbers and assertions that they are not null are left out. The semaphore
    around the heap has no net effect on a call and is left out.
  \<^item> Hooks are left out: they are null unless the application sets them.
  \<^item> Code of drivers and users (driver functions, \<^verbatim>\<open>rx_indicate\<close>, time-out functions, notifications of data
    queues, \<^verbatim>\<open>rt_hw_console_output\<close>) is a parameter; what is needed of it is a hypothesis of the property.
  \<^item> Buffers of device reads and writes are lists of bytes. Data-queue items are pointers with
    sizes that are passed on and not followed.
  \<^item> In the printf family the negation of the smallest number wraps, the counters of the padding
    loops do not overflow, and the output pointer does not wrap around the address space.

  \<^bold>\<open>Not modelled.\<close> The slab allocator and application modules are off in the configuration;
  soft timers and memory heaps are too, but have theories of their own. The functions
  that only print (\<^verbatim>\<open>rt_show_version\<close>, \<^verbatim>\<open>list_mem\<close>) have no effect on the state. The other driver frameworks of
  \<^verbatim>\<open>components/drivers\<close> (serial, I2C, SPI, RTC, SDIO, USB, MTD) are protocol layers over callbacks of the boards. The shell, the file systems, the network stacks, the POSIX layer and the C libraries
  are adapters or third-party code above the kernel; board support and processor ports are registers
  and assembly, of which only the initial stack frame is modelled.

  \<^bold>\<open>What is left.\<close> State machines like \<open>SemSystem\<close> and \<open>MutexSystem\<close> for mailboxes, message queues and several
  mutexes, portals on blocking pipes, and heap objects whose lock is taken by another thread.
\<close>

end
